(* ===== verification/DMS_Prelude.thy ===== *)
theory DMS_Prelude
  imports Main "HOL-Library.Word"
begin

text \<open>
  Shared vocabulary of the development: the C integer types of the driver
  (\<open>DriverCore/include/DMS_Type.h\<close>), the return codes and constants of
  \<open>DMS_Common.h\<close> and \<open>DMS_Error.h\<close>, the iteration loop that several
  components run over their lists, and the two list interfaces
  (\<open>iter_list\<close> and \<open>work_list\<close>) that the list components provide and the
  request components use.

  Conventions.  A function of the model takes the object a pointer points to, so
  the guard \<open>IS_LEGAL(ptr)\<close> holds by construction; a pointer that the program
  itself can set to NULL is an \<open>option\<close>, and its guard is a branch.  An outer
  \<open>None\<close> of a result is a fault: an access to freed or unmapped memory, a C
  operation whose behaviour is undefined, or a loop that does not end.
\<close>

unbundle bit_operations_syntax

section \<open>Types and constants\<close>

type_synonym u8 = "8 word"
type_synonym u16 = "16 word"
type_synonym u32 = "32 word"
type_synonym u64 = "64 word"

text \<open>The lemmas that describe a list component through its abstraction.\<close>
named_theorems list_laws

definition DMS_OK :: int where "DMS_OK = 0"
definition DMS_FAIL :: int where "DMS_FAIL = 1"
definition ENOMEM :: int where "ENOMEM = 12"

lemmas ret_defs = DMS_OK_def DMS_FAIL_def

text \<open>Operation codes: READ and WRITE are the kernel's 0 and 1.\<close>

definition DMS_OP_READ :: int where "DMS_OP_READ = 0"
definition DMS_OP_WRITE :: int where "DMS_OP_WRITE = 1"
definition DMS_OP_OVERWRITE :: int where "DMS_OP_OVERWRITE = 2"

lemmas op_defs = DMS_OP_READ_def DMS_OP_WRITE_def DMS_OP_OVERWRITE_def

text \<open>C's conversion of an integer to \<open>int\<close> (32 bits, two's complement).\<close>

definition c_int :: "int \<Rightarrow> int" where
  "c_int x = signed_take_bit 31 x"

lemma c_int_id: "- (2 ^ 31) \<le> x \<Longrightarrow> x < 2 ^ 31 \<Longrightarrow> c_int x = x"
  by (simp add: c_int_def signed_take_bit_int_eq_self)

text \<open>C's conversion to \<open>short\<close>.\<close>

definition c_short :: "int \<Rightarrow> int" where
  "c_short x = signed_take_bit 15 x"

lemma c_short_id: "- (2 ^ 15) \<le> x \<Longrightarrow> x < 2 ^ 15 \<Longrightarrow> c_short x = x"
  by (simp add: c_short_def signed_take_bit_int_eq_self)

section \<open>Block arithmetic\<close>

definition BYTES_PER_DMSBLK :: u64 where "BYTES_PER_DMSBLK = 4096"
definition DMSBLK_SHIFT_BITS :: nat where "DMSBLK_SHIFT_BITS = 12"
definition DMSBLK_MASK :: u64 where "DMSBLK_MASK = NOT (BYTES_PER_DMSBLK - 1)"

definition DMSBLK_ALIGN :: "u64 \<Rightarrow> u64" where
  "DMSBLK_ALIGN nr_bytes = (nr_bytes + (BYTES_PER_DMSBLK - 1)) AND DMSBLK_MASK"

definition CAL_NR_DMSBLKS :: "u64 \<Rightarrow> u64" where
  "CAL_NR_DMSBLKS nr_bytes = drop_bit DMSBLK_SHIFT_BITS (DMSBLK_ALIGN nr_bytes)"

definition KSECTORS_TO_DSECTORS :: "u64 \<Rightarrow> u64" where
  "KSECTORS_TO_DSECTORS ksect = drop_bit DMSBLK_SHIFT_BITS (push_bit 9 ksect)"

definition DSECTORS_TO_KSECTORS :: "u64 \<Rightarrow> u64" where
  "DSECTORS_TO_KSECTORS dsect = drop_bit 9 (push_bit DMSBLK_SHIFT_BITS dsect)"

definition IS_IN_RANGE :: "int \<Rightarrow> int \<Rightarrow> int \<Rightarrow> bool" where
  "IS_IN_RANGE val start end' \<longleftrightarrow> start \<le> val \<and> val \<le> end'"

lemmas blk_defs = BYTES_PER_DMSBLK_def DMSBLK_SHIFT_BITS_def DMSBLK_MASK_def

text \<open>Adding a small number to a word without wrap-around.\<close>

lemma unat_plus_nat: "unat (s :: u64) + n < 2 ^ 64 \<Longrightarrow> unat (s + of_nat n) = unat s + n"
  by (simp add: unat_word_ariths take_bit_nat_eq_self unat_of_nat)

lemma unat_times_nat: "unat (a :: u64) * unat b < 2 ^ 64 \<Longrightarrow> unat (a * b) = unat a * unat b"
  by (simp add: unat_word_ariths take_bit_nat_eq_self)

lemma unat_and_not_mask_shift: "drop_bit n (x AND NOT (2 ^ n - 1)) = drop_bit n (x :: u64)"
  by (rule bit_eqI) (auto simp: bit_simps mask_eq_exp_minus_1 [symmetric] dest: bit_imp_le_length)

text \<open>The number of blocks that cover a number of bytes; the alignment wraps at 64 bits.\<close>

lemma unat_CAL_NR_DMSBLKS: "unat (CAL_NR_DMSBLKS c) = (unat c + 4095) mod 2 ^ 64 div 4096"
proof -
  have "CAL_NR_DMSBLKS c = drop_bit 12 (c + 4095)"
    using unat_and_not_mask_shift [of 12 "c + 4095"] by (simp add: CAL_NR_DMSBLKS_def DMSBLK_ALIGN_def blk_defs)
  then show ?thesis by (simp add: unat_drop_bit_eq drop_bit_eq_div unat_word_ariths)
qed

lemma uint_of_nat64: "m < 2 ^ 64 \<Longrightarrow> uint (of_nat m :: u64) = int m"
  by (simp add: unsigned_of_nat take_bit_nat_eq_self)

lemma unat_of_nat64: "m < 2 ^ 64 \<Longrightarrow> unat (of_nat m :: u64) = m"
  by (simp add: unsigned_of_nat take_bit_nat_eq_self)

lemma unat_less64: "unat (x :: u64) < 2 ^ 64"
  by (rule order.strict_trans2 [OF unsigned_less]) simp

lemma of_nat_eq64: "a < 2 ^ 64 \<Longrightarrow> b < 2 ^ 64 \<Longrightarrow> of_nat a = (of_nat b :: u64) \<longleftrightarrow> a = b"
  by (metis unat_of_nat64)

section \<open>The iteration loop\<close>

text \<open>
  \<open>while( (x = Get_Next(list)) ) \<dots>\<close>: the loop of \<open>Driver_Core.c\<close> and
  \<open>IO_Request.c\<close> over an iterator, with fuel.  It collects what the loop
  visits, in order; \<open>None\<close> is a fault of the iterator or lack of fuel.
\<close>

fun drain :: "nat \<Rightarrow> ('s \<Rightarrow> ('a option \<times> 's) option) \<Rightarrow> 's \<Rightarrow> ('a list \<times> 's) option" where
  "drain 0 get s = None"
| "drain (Suc n) get s =
     (case get s of
        None \<Rightarrow> None
      | Some (None, s') \<Rightarrow> Some ([], s')
      | Some (Some x, s') \<Rightarrow> map_option (\<lambda>(xs, t). (x # xs, t)) (drain n get s'))"

text \<open>Remove the elements of a list one after the other; the flags are the
  \<open>*empty\<close> results.\<close>

fun remove_seq :: "('a \<Rightarrow> 's \<Rightarrow> 'a option \<times> bool \<times> 's) \<Rightarrow> 'a list \<Rightarrow> 's \<Rightarrow> bool list \<times> 's" where
  "remove_seq rm [] s = ([], s)"
| "remove_seq rm (x # xs) s =
     (case rm x s of (_, e, s') \<Rightarrow>
       (case remove_seq rm xs s' of (es, t) \<Rightarrow> (e # es, t)))"

section \<open>Interfaces of the list components\<close>

text \<open>
  An iterable list: its contents, the part its iterator has not visited yet, a
  reset and a step.  Both the DList of \<open>DList.c\<close> and the block list of
  \<open>LogicalBlockList.c\<close> provide it.
\<close>

locale iter_list =
  fixes inv :: "'s \<Rightarrow> bool"
    and elems :: "'s \<Rightarrow> 'a list"
    and rest :: "'s \<Rightarrow> 'a list"
    and reset :: "'s \<Rightarrow> 's"
    and get_next :: "'s \<Rightarrow> ('a option \<times> 's) option"
  assumes inv_reset: "inv s \<Longrightarrow> inv (reset s)"
    and elems_reset: "inv s \<Longrightarrow> elems (reset s) = elems s"
    and rest_reset: "inv s \<Longrightarrow> rest (reset s) = elems s"
    and next_end: "inv s \<Longrightarrow> rest s = [] \<Longrightarrow> get_next s = Some (None, s)"
    and next_step: "inv s \<Longrightarrow> rest s = x # xs \<Longrightarrow>
      \<exists>s'. get_next s = Some (Some x, s') \<and> inv s' \<and> rest s' = xs \<and> elems s' = elems s"
begin

lemma drain_rest:
  "inv s \<Longrightarrow> length (rest s) < n \<Longrightarrow>
   \<exists>t. drain n get_next s = Some (rest s, t) \<and> inv t \<and> rest t = [] \<and> elems t = elems s"
proof (induction n arbitrary: s)
  case 0
  then show ?case by simp
next
  case (Suc n)
  show ?case
  proof (cases "rest s")
    case Nil
    with Suc.prems show ?thesis by (simp add: next_end)
  next
    case (Cons x xs)
    with Suc.prems(1) obtain s' where s': "get_next s = Some (Some x, s')"
      "inv s'" "rest s' = xs" "elems s' = elems s"
      by (meson next_step)
    from Cons Suc.prems(2) s' have "length (rest s') < n" by simp
    from Suc.IH [OF s'(2) this] s' Cons show ?thesis by auto
  qed
qed

lemma drain_all:
  assumes "inv s" and "length (elems s) < n"
  shows "\<exists>t. drain n get_next (reset s) = Some (elems s, t) \<and> inv t \<and> elems t = elems s"
  using drain_rest [of "reset s" n] assms by (auto simp: inv_reset rest_reset elems_reset)

end

text \<open>
  A work list: an iterable list that also takes elements at its tail and gives
  them back by identity, reporting whether it became empty.
\<close>

locale work_list = iter_list inv elems rest reset get_next
  for inv :: "'s \<Rightarrow> bool" and elems :: "'s \<Rightarrow> 'a list" and rest reset get_next +
  fixes fresh :: "nat \<Rightarrow> 's \<Rightarrow> bool"
    and insert_tail :: "nat \<Rightarrow> 'a \<Rightarrow> 's \<Rightarrow> int \<times> 's"
    and remove :: "'a \<Rightarrow> 's \<Rightarrow> 'a option \<times> bool \<times> 's"
  assumes insert_new: "inv s \<Longrightarrow> fresh a s \<Longrightarrow> x \<notin> set (elems s) \<Longrightarrow>
      \<exists>s'. insert_tail a x s = (DMS_OK, s') \<and> inv s' \<and> elems s' = elems s @ [x]"
    and insert_dup: "inv s \<Longrightarrow> x \<in> set (elems s) \<Longrightarrow> insert_tail a x s = (- DMS_FAIL, s)"
    and remove_spec: "inv s \<Longrightarrow>
      \<exists>s'. remove x s = (if x \<in> set (elems s) then Some x else None, remove1 x (elems s) = [], s')
         \<and> inv s' \<and> elems s' = remove1 x (elems s)"
begin

text \<open>Removing every element once, in any order, reports "empty" at the last
  removal and at no other.\<close>

lemma remove_seq_perm:
  "inv s \<Longrightarrow> distinct xs \<Longrightarrow> set xs = set (elems s) \<Longrightarrow> distinct (elems s) \<Longrightarrow> xs \<noteq> [] \<Longrightarrow>
   \<exists>t. remove_seq remove xs s = (replicate (length xs - 1) False @ [True], t)
      \<and> inv t \<and> elems t = []"
proof (induction xs arbitrary: s)
  case Nil
  then show ?case by simp
next
  case (Cons x xs)
  have x_in: "x \<in> set (elems s)" using Cons.prems(3) by (metis list.set_intros(1))
  then obtain s' where s': "remove x s = (Some x, remove1 x (elems s) = [], s')"
    "inv s'" "elems s' = remove1 x (elems s)"
    using remove_spec [OF Cons.prems(1), of x] by auto
  from s'(3) Cons.prems have set': "set xs = set (elems s')" and dist': "distinct (elems s')"
    by (auto simp: set_remove1_eq)
  show ?case
  proof (cases "xs = []")
    case True
    with set' have "elems s' = []" by simp
    with True s' show ?thesis by simp
  next
    case False
    with set' have ne: "remove1 x (elems s) \<noteq> []" using s'(3) by auto
    from Cons.IH [OF s'(2) _ set' dist' False] Cons.prems(2)
    obtain t where t: "remove_seq remove xs s' = (replicate (length xs - 1) False @ [True], t)"
      "inv t" "elems t = []" by auto
    obtain k where k: "length xs = Suc k" using False by (cases xs) auto
    show ?thesis using s'(1) t ne by (simp add: k)
  qed
qed

end

section \<open>Lists of addressed nodes\<close>

text \<open>
  A kernel list (\<open>struct list_head\<close>) is a list of nodes with distinct
  addresses; the head is \<open>None\<close>.  \<open>first_addr\<close> reads \<open>head.next\<close> and
  \<open>next_of\<close> the \<open>next\<close> field of the node at an address.
\<close>

fun first_addr :: "(nat \<times> 'a) list \<Rightarrow> nat option" where
  "first_addr [] = None"
| "first_addr ((a, _) # _) = Some a"

fun next_of :: "(nat \<times> 'a) list \<Rightarrow> nat \<Rightarrow> nat option" where
  "next_of [] a = None"
| "next_of ((b, _) # ns) a = (if b = a then first_addr ns else next_of ns a)"

text \<open>The nodes from the one at a given address on.\<close>

fun nodes_from :: "(nat \<times> 'a) list \<Rightarrow> nat option \<Rightarrow> (nat \<times> 'a) list" where
  "nodes_from ns None = []"
| "nodes_from [] (Some a) = []"
| "nodes_from ((b, u) # ns) (Some a) = (if b = a then (b, u) # ns else nodes_from ns (Some a))"

text \<open>\<open>list_for_each_entry_safe\<close> up to the first node whose data satisfies
  \<open>p\<close>, and its removal: the node, its data, its successor, the remaining list.\<close>

fun unlink_first :: "('a \<Rightarrow> bool) \<Rightarrow> (nat \<times> 'a) list \<Rightarrow>
    (nat \<times> 'a \<times> nat option \<times> (nat \<times> 'a) list) option" where
  "unlink_first p [] = None"
| "unlink_first p ((a, u) # ns) =
     (if p u then Some (a, u, first_addr ns, ns)
      else (case unlink_first p ns of
              None \<Rightarrow> None
            | Some (b, v, nx, ms) \<Rightarrow> Some (b, v, nx, (a, u) # ms)))"

definition addrs :: "(nat \<times> 'a) list \<Rightarrow> nat list" where
  "addrs ns = map fst ns"

text \<open>An iterator position is valid when it is the head or the address of a node.\<close>

definition pos_ok :: "(nat \<times> 'a) list \<Rightarrow> nat option \<Rightarrow> bool" where
  "pos_ok ns p \<longleftrightarrow> (case p of None \<Rightarrow> True | Some a \<Rightarrow> a \<in> set (addrs ns))"

lemma addrs_simps [simp]: "addrs [] = []" "addrs ((a, u) # ns) = a # addrs ns"
  "addrs (ns @ ms) = addrs ns @ addrs ms"
  by (auto simp: addrs_def)

lemma pos_ok_None [simp]: "pos_ok ns None"
  by (simp add: pos_ok_def)

lemma pos_ok_first [simp]: "pos_ok ns (first_addr ns)"
  by (cases ns rule: first_addr.cases) (auto simp: pos_ok_def)

lemma nodes_from_first [simp]: "nodes_from ns (first_addr ns) = ns"
  by (cases ns rule: first_addr.cases) auto

lemma nodes_from_Nil_iff: "pos_ok ns p \<Longrightarrow> nodes_from ns p = [] \<longleftrightarrow> p = None"
  by (induction ns p rule: nodes_from.induct) (auto simp: pos_ok_def split: option.splits)

lemma map_of_addrs: "distinct (addrs ns) \<Longrightarrow> nodes_from ns (Some a) = (b, u) # ms \<Longrightarrow>
  b = a \<and> map_of ns a = Some u \<and> next_of ns a = first_addr ms
  \<and> nodes_from ns (first_addr ms) = ms \<and> set (addrs ms) \<subseteq> set (addrs ns)"
proof (induction ns)
  case Nil
  then show ?case by simp
next
  case (Cons n ns)
  obtain c v where n: "n = (c, v)" by (cases n)
  show ?case
  proof (cases "c = a")
    case True
    with Cons.prems n show ?thesis
      by (cases ms rule: first_addr.cases) auto
  next
    case False
    with Cons n have IH: "b = a \<and> map_of ns a = Some u \<and> next_of ns a = first_addr ms
      \<and> nodes_from ns (first_addr ms) = ms \<and> set (addrs ms) \<subseteq> set (addrs ns)" by auto
    with False Cons.prems n show ?thesis
      by (cases ms rule: first_addr.cases) auto
  qed
qed

lemma unlink_first_None: "unlink_first p ns = None \<longleftrightarrow> (\<forall>u \<in> set (map snd ns). \<not> p u)"
  by (induction p ns rule: unlink_first.induct) (auto split: option.splits prod.splits)

text \<open>The single fact about removal that the list proofs use.\<close>

lemma unlink_first_Some: "unlink_first p ns = Some (a, u, nx, ms) \<Longrightarrow>
  \<exists>l r. ns = l @ (a, u) # r \<and> ms = l @ r \<and> nx = first_addr r \<and> p u
    \<and> (\<forall>v \<in> set (map snd l). \<not> p v)"
proof (induction p ns arbitrary: ms rule: unlink_first.induct)
  case (1 p)
  then show ?case by simp
next
  case (2 p b v ns)
  show ?case
  proof (cases "p v")
    case True
    with 2 show ?thesis by (intro exI [of _ "[]"] exI [of _ ns]) auto
  next
    case False
    with "2.prems" obtain ms' where ms: "unlink_first p ns = Some (a, u, nx, ms')" "ms = (b, v) # ms'"
      by (auto split: option.splits)
    from "2.IH" [OF False ms(1)] obtain l r where "ns = l @ (a, u) # r" "ms' = l @ r"
      "nx = first_addr r" "p u" "\<forall>v \<in> set (map snd l). \<not> p v" by blast
    with False ms(2) show ?thesis by (intro exI [of _ "(b, v) # l"] exI [of _ r]) auto
  qed
qed

end
