(* ===== verification/DList.thy ===== *)
theory DList
  imports DMS_Prelude
begin

text \<open>
  The driver's general list, \<open>DriverCore/DList.c\<close>: a lock-protected kernel list
  of nodes that carry a user-data pointer, with an iterator \<open>next_node\<close>.  Each
  operation holds the list's lock, so it is one atomic step.  The address of a
  new node is what \<open>Malloc_DLN\<close> returns (a mempool allocation that may sleep and
  does not fail), an argument of the insertion.  The debug build is modelled
  (\<open>DMS_DEBUG == 1\<close> and the DLIST debug flag set), so insertion rejects data that
  is already in the list.
\<close>

section \<open>State\<close>

record 'a dlist =
  dl_nodes :: "(nat \<times> 'a) list"   \<comment> \<open>\<open>dlist_head\<close>: the nodes in list order\<close>
  dl_next :: "nat option"          \<comment> \<open>\<open>next_node\<close>: \<open>None\<close> is the head itself\<close>

text \<open>A node at address \<open>a\<close> that carries \<open>ud\<close>; an empty list whose iterator
  stands on the head.\<close>

definition Create_DLNode :: "nat \<Rightarrow> 'a \<Rightarrow> nat \<times> 'a" where
  "Create_DLNode a ud = (a, ud)"

definition Init_DList :: "int \<times> 'a dlist" where
  "Init_DList = (DMS_OK, \<lparr>dl_nodes = [], dl_next = None\<rparr>)"

definition Create_DList :: "'a dlist option" where
  "Create_DList = (case Init_DList of (r, d) \<Rightarrow> if r < 0 then None else Some d)"

definition dl_elems :: "'a dlist \<Rightarrow> 'a list" where
  "dl_elems d = map snd (dl_nodes d)"

section \<open>Queries and the iterator\<close>

definition Is_DList_Empty :: "'a dlist \<Rightarrow> bool" where
  "Is_DList_Empty d \<longleftrightarrow> dl_nodes d = []"

text \<open>The outer \<open>None\<close> is a read of a node that has been freed.\<close>

definition Get_Next_User_Data :: "'a dlist \<Rightarrow> ('a option \<times> 'a dlist) option" where
  "Get_Next_User_Data d =
     (case dl_next d of
        None \<Rightarrow> Some (None, d)
      | Some cur \<Rightarrow>
          (case map_of (dl_nodes d) cur of
             None \<Rightarrow> None
           | Some ud \<Rightarrow> Some (Some ud, d\<lparr>dl_next := next_of (dl_nodes d) cur\<rparr>)))"

definition Reset_DList_Iterator :: "'a dlist \<Rightarrow> int \<times> 'a dlist" where
  "Reset_DList_Iterator d = (DMS_OK, d\<lparr>dl_next := first_addr (dl_nodes d)\<rparr>)"

definition Get_User_Data_By_Check_Func :: "'a dlist \<Rightarrow> ('a \<Rightarrow> bool) \<Rightarrow> 'a option" where
  "Get_User_Data_By_Check_Func d checkfn = find checkfn (map snd (dl_nodes d))"

section \<open>Insertion\<close>

definition Check_Duplicate :: "'a dlist \<Rightarrow> 'a \<Rightarrow> bool" where
  "Check_Duplicate d ud \<longleftrightarrow> find (\<lambda>u. u = ud) (map snd (dl_nodes d)) \<noteq> None"

definition DL_ADD_HEAD :: int where "DL_ADD_HEAD = 0"
definition DL_ADD_TAIL :: int where "DL_ADD_TAIL = 1"

definition Insert_User_Data_to_DList :: "nat \<Rightarrow> 'a dlist \<Rightarrow> 'a \<Rightarrow> int \<Rightarrow> int \<times> 'a dlist" where
  "Insert_User_Data_to_DList new_node d ud head_or_tail =
     (if \<not> Check_Duplicate d ud then
        (if head_or_tail = DL_ADD_HEAD then
           (DMS_OK, d\<lparr>dl_nodes := Create_DLNode new_node ud # dl_nodes d\<rparr>)
         else if head_or_tail = DL_ADD_TAIL then
           (DMS_OK, d\<lparr>dl_nodes := dl_nodes d @ [Create_DLNode new_node ud]\<rparr>)
         else (- DMS_FAIL, d))
      else (- DMS_FAIL, d))"

definition Insert_User_Data_to_DList_Head :: "nat \<Rightarrow> 'a dlist \<Rightarrow> 'a \<Rightarrow> int \<times> 'a dlist" where
  "Insert_User_Data_to_DList_Head a d ud = Insert_User_Data_to_DList a d ud DL_ADD_HEAD"

definition Insert_User_Data_to_DList_Tail :: "nat \<Rightarrow> 'a dlist \<Rightarrow> 'a \<Rightarrow> int \<times> 'a dlist" where
  "Insert_User_Data_to_DList_Tail a d ud = Insert_User_Data_to_DList a d ud DL_ADD_TAIL"

section \<open>Removal\<close>

text \<open>The body of the three removal loops once the node is found: move the
  iterator off the node, unlink it, free it.\<close>

definition Remove_DLNode_from_DList ::
    "'a dlist \<Rightarrow> nat \<Rightarrow> nat option \<Rightarrow> (nat \<times> 'a) list \<Rightarrow> 'a dlist" where
  "Remove_DLNode_from_DList d cur nx ms =
     d\<lparr>dl_nodes := ms, dl_next := (if dl_next d = Some cur then nx else dl_next d)\<rparr>"

text \<open>
  Results: the matching user data, the \<open>*empty\<close> flag, the list.  By user data,
  the code compares \<open>next_node\<close> with \<open>cur\<close> once more after the loop.  When
  nothing matched, \<open>cur\<close> is then the head (\<open>None\<close>) and \<open>next\<close> the first node.
\<close>

definition Remove_from_DList_by_User_Data ::
    "'a dlist \<Rightarrow> 'a \<Rightarrow> 'a option \<times> bool \<times> 'a dlist" where
  "Remove_from_DList_by_User_Data d ud =
     (let (match_ud, cur, nx, d1) =
        (case unlink_first (\<lambda>u. u = ud) (dl_nodes d) of
           None \<Rightarrow> (None, None, first_addr (dl_nodes d), d)
         | Some (a, u, nx, ms) \<Rightarrow> (Some u, Some a, nx, Remove_DLNode_from_DList d a nx ms))
      in (match_ud, dl_nodes d1 = [],
          if dl_next d1 = cur then d1\<lparr>dl_next := nx\<rparr> else d1))"

definition Remove_from_DList_by_Check_Func ::
    "'a dlist \<Rightarrow> ('a \<Rightarrow> bool) \<Rightarrow> 'a option \<times> bool \<times> 'a dlist" where
  "Remove_from_DList_by_Check_Func d checkfn =
     (case unlink_first checkfn (dl_nodes d) of
        None \<Rightarrow> (None, dl_nodes d = [], d)
      | Some (a, u, nx, ms) \<Rightarrow> (Some u, ms = [], Remove_DLNode_from_DList d a nx ms))"

definition Remove_from_DList_Head :: "'a dlist \<Rightarrow> 'a option \<times> bool \<times> 'a dlist" where
  "Remove_from_DList_Head d =
     (case dl_nodes d of
        [] \<Rightarrow> (None, True, d)
      | (a, u) # ns \<Rightarrow> (Some u, ns = [], Remove_DLNode_from_DList d a (first_addr ns) ns))"

text \<open>Releasing: the user data handed to the release function, in order.  The
  iterator is left as it is.\<close>

definition Release_All_User_Data :: "'a dlist \<Rightarrow> 'a list \<times> 'a dlist" where
  "Release_All_User_Data d = (map snd (dl_nodes d), d\<lparr>dl_nodes := []\<rparr>)"

text \<open>The list itself is freed (\<open>None\<close>) only when it is empty.\<close>

definition Release_DList :: "'a dlist \<Rightarrow> 'a dlist option" where
  "Release_DList d = (if dl_nodes d = [] then None else Some d)"

definition Release_DList_and_User_Data :: "'a dlist \<Rightarrow> 'a list \<times> 'a dlist option" where
  "Release_DList_and_User_Data d =
     (case Release_All_User_Data d of (uds, d') \<Rightarrow> (uds, Release_DList d'))"

lemmas dl_defs = Create_DLNode_def Init_DList_def Create_DList_def Is_DList_Empty_def Get_Next_User_Data_def
  Reset_DList_Iterator_def Insert_User_Data_to_DList_def Insert_User_Data_to_DList_Head_def
  Insert_User_Data_to_DList_Tail_def Remove_DLNode_from_DList_def
  Remove_from_DList_by_User_Data_def Remove_from_DList_by_Check_Func_def
  Remove_from_DList_Head_def Release_All_User_Data_def Release_DList_def
  Release_DList_and_User_Data_def DL_ADD_HEAD_def DL_ADD_TAIL_def

section \<open>Invariant\<close>

text \<open>Node addresses and user data are distinct, and the iterator stands on the
  head or on a node of the list.\<close>

definition dl_inv :: "'a dlist \<Rightarrow> bool" where
  "dl_inv d \<longleftrightarrow> distinct (addrs (dl_nodes d)) \<and> distinct (map snd (dl_nodes d))
     \<and> pos_ok (dl_nodes d) (dl_next d)"

definition dl_rest :: "'a dlist \<Rightarrow> 'a list" where
  "dl_rest d = map snd (nodes_from (dl_nodes d) (dl_next d))"

definition dl_fresh :: "nat \<Rightarrow> 'a dlist \<Rightarrow> bool" where
  "dl_fresh a d \<longleftrightarrow> a \<notin> set (addrs (dl_nodes d))"

lemma Check_Duplicate_iff: "Check_Duplicate d ud \<longleftrightarrow> ud \<in> set (dl_elems d)"
  by (auto simp: Check_Duplicate_def dl_elems_def find_None_iff find_Some_iff)

lemma Create_DList_eq: "Create_DList = Some \<lparr>dl_nodes = [], dl_next = None\<rparr>"
  by (simp add: Create_DList_def Init_DList_def ret_defs)

lemma dl_inv_Init: "Create_DList = Some d \<Longrightarrow> dl_inv d \<and> dl_elems d = []"
  by (auto simp: dl_inv_def Create_DList_def Init_DList_def ret_defs dl_elems_def)

lemma dl_inv_insert:
  "dl_inv d \<Longrightarrow> dl_fresh a d \<Longrightarrow> Insert_User_Data_to_DList a d ud ht = (r, d') \<Longrightarrow> dl_inv d'"
  by (auto simp: Insert_User_Data_to_DList_def dl_inv_def dl_fresh_def Check_Duplicate_iff
      dl_elems_def pos_ok_def Create_DLNode_def split: if_splits option.splits)

text \<open>Removing one node keeps the invariant, whatever selected it.\<close>

lemma dl_inv_unlink:
  assumes "dl_inv d" and "unlink_first p (dl_nodes d) = Some (a, u, nx, ms)"
  shows "dl_inv (Remove_DLNode_from_DList d a nx ms)"
    and "nx \<noteq> Some a" and "u \<in> set (dl_elems d)" and "map snd ms = remove1 u (dl_elems d)"
    and "p u"
proof -
  from unlink_first_Some [OF assms(2)] obtain l r where lr: "dl_nodes d = l @ (a, u) # r"
    "ms = l @ r" "nx = first_addr r" "p u" by blast
  show "nx \<noteq> Some a" using lr assms(1)
    by (cases r rule: first_addr.cases) (auto simp: dl_inv_def)
  show "p u" by fact
  show "u \<in> set (dl_elems d)" using lr by (simp add: dl_elems_def)
  show "map snd ms = remove1 u (dl_elems d)" using lr assms(1)
    by (auto simp: dl_elems_def dl_inv_def remove1_append)
  show "dl_inv (Remove_DLNode_from_DList d a nx ms)"
    using lr assms(1)
    by (cases r rule: first_addr.cases)
      (auto simp: dl_inv_def Remove_DLNode_from_DList_def pos_ok_def split: option.splits)
qed

lemma Remove_by_User_Data_spec:
  assumes "dl_inv d"
  shows "\<exists>d'. Remove_from_DList_by_User_Data d ud =
           (if ud \<in> set (dl_elems d) then Some ud else None, remove1 ud (dl_elems d) = [], d')
         \<and> dl_inv d' \<and> dl_elems d' = remove1 ud (dl_elems d)"
proof (cases "unlink_first (\<lambda>u. u = ud) (dl_nodes d)")
  case None
  then have out: "ud \<notin> set (dl_elems d)" by (auto simp: unlink_first_None dl_elems_def)
  show ?thesis using None out assms
    by (auto simp: Remove_from_DList_by_User_Data_def remove1_idem dl_inv_def dl_elems_def)
next
  case (Some t)
  then obtain a u nx ms where t: "unlink_first (\<lambda>u. u = ud) (dl_nodes d) = Some (a, u, nx, ms)"
    by (cases t) auto
  note un = dl_inv_unlink [OF assms t]
  have "u = ud" using un(5) by simp
  with un t show ?thesis
    by (auto simp: Remove_from_DList_by_User_Data_def Remove_DLNode_from_DList_def dl_elems_def)
qed

lemma Remove_by_User_Data_addrs:
  "Remove_from_DList_by_User_Data d ud = (m, e, d') \<Longrightarrow> set (addrs (dl_nodes d')) \<subseteq> set (addrs (dl_nodes d))"
  by (auto simp: Remove_from_DList_by_User_Data_def Remove_DLNode_from_DList_def addrs_def
      split: option.splits if_splits dest!: unlink_first_Some)

lemma Remove_by_Check_spec:
  assumes "dl_inv d" and "Remove_from_DList_by_Check_Func d p = (m, e, d')"
  shows "dl_inv d'" and "e \<longleftrightarrow> dl_elems d' = []"
    and "m = find p (dl_elems d)"
    and "dl_elems d' = (case m of None \<Rightarrow> dl_elems d | Some u \<Rightarrow> remove1 u (dl_elems d))"
proof -
  have *: "dl_inv d' \<and> (e \<longleftrightarrow> dl_elems d' = []) \<and> m = find p (dl_elems d) \<and>
    dl_elems d' = (case m of None \<Rightarrow> dl_elems d | Some u \<Rightarrow> remove1 u (dl_elems d))"
  proof (cases "unlink_first p (dl_nodes d)")
    case None
    then have "find p (dl_elems d) = None"
      by (auto simp: unlink_first_None dl_elems_def find_None_iff)
    with None assms show ?thesis
      by (auto simp: Remove_from_DList_by_Check_Func_def dl_elems_def)
  next
    case (Some t)
    then obtain a u nx ms where t: "unlink_first p (dl_nodes d) = Some (a, u, nx, ms)"
      by (cases t) auto
    from unlink_first_Some [OF t] obtain l r where lr: "dl_nodes d = l @ (a, u) # r"
      "ms = l @ r" "p u" "\<forall>v \<in> set (map snd l). \<not> p v" by blast
    have "find p (map snd l @ u # map snd r) = Some u" using lr(3,4)
      by (induction l) auto
    then have found: "find p (dl_elems d) = Some u" using lr(1) by (simp add: dl_elems_def)
    from t assms(2) have out: "m = Some u" "e = (ms = [])"
      "d' = Remove_DLNode_from_DList d a nx ms"
      by (auto simp: Remove_from_DList_by_Check_Func_def)
    then have els: "dl_elems d' = map snd ms"
      by (simp add: Remove_DLNode_from_DList_def dl_elems_def)
    with found out dl_inv_unlink [OF assms(1) t] show ?thesis by auto
  qed
  then show "dl_inv d'" and "e \<longleftrightarrow> dl_elems d' = []" and "m = find p (dl_elems d)"
    and "dl_elems d' = (case m of None \<Rightarrow> dl_elems d | Some u \<Rightarrow> remove1 u (dl_elems d))"
    by blast+
qed

section \<open>The DList provides the list interfaces\<close>

definition dl_reset :: "'a dlist \<Rightarrow> 'a dlist" where
  "dl_reset d = snd (Reset_DList_Iterator d)"

lemma dl_next_step:
  assumes "dl_inv d" and "dl_rest d = x # xs"
  shows "\<exists>d'. Get_Next_User_Data d = Some (Some x, d') \<and> dl_inv d' \<and> dl_rest d' = xs
      \<and> dl_elems d' = dl_elems d"
proof -
  from assms(2) obtain b ms where ns: "nodes_from (dl_nodes d) (dl_next d) = (b, x) # ms"
    and xs: "xs = map snd ms" by (auto simp: dl_rest_def)
  then obtain a where a: "dl_next d = Some a" by (cases "dl_next d") auto
  from assms(1) have "distinct (addrs (dl_nodes d))" by (simp add: dl_inv_def)
  from map_of_addrs [OF this ns [unfolded a]] a xs assms(1) show ?thesis
    by (cases ms rule: first_addr.cases)
      (auto simp: Get_Next_User_Data_def dl_rest_def dl_inv_def dl_elems_def pos_ok_def)
qed

interpretation dlw: work_list dl_inv dl_elems dl_rest dl_reset Get_Next_User_Data dl_fresh
  "\<lambda>a u d. Insert_User_Data_to_DList_Tail a d u" "\<lambda>u d. Remove_from_DList_by_User_Data d u"
proof unfold_locales
  fix d :: "'a dlist" and x xs a
  assume d: "dl_inv d"
  show "dl_inv (dl_reset d)" using d
    by (auto simp: dl_reset_def Reset_DList_Iterator_def dl_inv_def)
  show "dl_elems (dl_reset d) = dl_elems d"
    by (simp add: dl_reset_def Reset_DList_Iterator_def dl_elems_def)
  show "dl_rest (dl_reset d) = dl_elems d"
    by (simp add: dl_reset_def Reset_DList_Iterator_def dl_elems_def dl_rest_def)
  show "Get_Next_User_Data d = Some (None, d)" if "dl_rest d = []"
    using that d nodes_from_Nil_iff [of "dl_nodes d" "dl_next d"]
    by (simp add: dl_rest_def dl_inv_def Get_Next_User_Data_def)
  show "\<exists>d'. Get_Next_User_Data d = Some (Some x, d') \<and> dl_inv d' \<and> dl_rest d' = xs
      \<and> dl_elems d' = dl_elems d" if "dl_rest d = x # xs"
    by (rule dl_next_step [OF d that])
  show "\<exists>d'. Insert_User_Data_to_DList_Tail a d x = (DMS_OK, d') \<and> dl_inv d'
      \<and> dl_elems d' = dl_elems d @ [x]" if "dl_fresh a d" and "x \<notin> set (dl_elems d)"
    using that dl_inv_insert [OF d that(1), of x DL_ADD_TAIL]
    by (auto simp: Insert_User_Data_to_DList_Tail_def Insert_User_Data_to_DList_def
        Check_Duplicate_iff dl_elems_def Create_DLNode_def DL_ADD_HEAD_def DL_ADD_TAIL_def)
  show "Insert_User_Data_to_DList_Tail a d x = (- DMS_FAIL, d)" if "x \<in> set (dl_elems d)"
    using that by (simp add: Insert_User_Data_to_DList_Tail_def Insert_User_Data_to_DList_def
        Check_Duplicate_iff)
  show "\<exists>d'. Remove_from_DList_by_User_Data d x =
      (if x \<in> set (dl_elems d) then Some x else None, remove1 x (dl_elems d) = [], d')
      \<and> dl_inv d' \<and> dl_elems d' = remove1 x (dl_elems d)"
    by (rule Remove_by_User_Data_spec [OF d])
qed

section \<open>Removal during an iteration\<close>

lemma nodes_from_filter: "c \<noteq> a \<Longrightarrow>
  nodes_from (filter (\<lambda>n. fst n \<noteq> a) ns) (Some c) = filter (\<lambda>n. fst n \<noteq> a) (nodes_from ns (Some c))"
  by (induction ns "Some c" rule: nodes_from.induct) auto

lemma set_nodes_from: "set (nodes_from ns p) \<subseteq> set ns"
  by (induction ns p rule: nodes_from.induct) auto

lemma distinct_nodes_from: "distinct (map snd ns) \<Longrightarrow> distinct (map snd (nodes_from ns p))"
  by (induction ns p rule: nodes_from.induct) auto

lemma nodes_from_split: "a \<notin> set (addrs l) \<Longrightarrow> nodes_from (l @ (a, u) # r) (Some a) = (a, u) # r"
  by (induction l) auto

text \<open>What is left of an iteration after the node of \<open>u\<close> has been unlinked.\<close>

lemma dl_rest_unlink:
  assumes d: "dl_inv d" and un: "unlink_first p (dl_nodes d) = Some (a, u, nx, ms)"
  shows "dl_rest (Remove_DLNode_from_DList d a nx ms) = remove1 u (dl_rest d)"
proof -
  from unlink_first_Some [OF un] obtain l r where lr: "dl_nodes d = l @ (a, u) # r"
    "ms = l @ r" "nx = first_addr r" by blast
  from d have dist: "distinct (addrs (dl_nodes d))" "distinct (map snd (dl_nodes d))"
    by (simp_all add: dl_inv_def)
  consider "dl_next d = None" | "dl_next d = Some a" | c where "dl_next d = Some c" "c \<noteq> a"
    by (cases "dl_next d") auto
  then show ?thesis
  proof cases
    case 1
    then show ?thesis by (simp add: dl_rest_def Remove_DLNode_from_DList_def)
  next
    case 2
    have "nodes_from (l @ r) (first_addr r) = r"
      using dist(1) lr(1) by (cases r rule: first_addr.cases) (auto simp: nodes_from_split)
    with 2 lr dist show ?thesis
      by (simp add: dl_rest_def Remove_DLNode_from_DList_def nodes_from_split)
  next
    case 3
    let ?X = "nodes_from (dl_nodes d) (Some c)"
    have ms: "ms = filter (\<lambda>n. fst n \<noteq> a) (dl_nodes d)"
    proof -
      from dist(1) lr(1) have "a \<notin> fst ` set l" "a \<notin> fst ` set r" by (auto simp: addrs_def)
      then have "filter (\<lambda>n. fst n \<noteq> a) l = l" "filter (\<lambda>n. fst n \<noteq> a) r = r"
        by (auto simp: filter_id_conv)
      with lr(1,2) show ?thesis by simp
    qed
    have "n \<in> set (dl_nodes d) \<Longrightarrow> fst n \<noteq> a \<longleftrightarrow> snd n \<noteq> u" for n
      using dist lr(1) by (auto simp: addrs_def)
    then have "n \<in> set ?X \<Longrightarrow> fst n \<noteq> a \<longleftrightarrow> snd n \<noteq> u" for n
      using set_nodes_from [of "dl_nodes d" "Some c"] by blast
    then have "filter (\<lambda>n. fst n \<noteq> a) ?X = filter (\<lambda>n. snd n \<noteq> u) ?X"
      by (rule filter_cong [OF refl])
    then have "map snd (filter (\<lambda>n. fst n \<noteq> a) ?X) = filter (\<lambda>v. v \<noteq> u) (map snd ?X)"
      by (simp add: filter_map comp_def)
    also have "\<dots> = remove1 u (map snd ?X)"
      by (subst distinct_remove1_removeAll [OF distinct_nodes_from [OF dist(2)]])
        (auto simp: removeAll_filter_not_eq intro: filter_cong)
    finally show ?thesis using 3 ms
      by (simp add: dl_rest_def Remove_DLNode_from_DList_def nodes_from_filter)
  qed
qed

section \<open>Properties\<close>

text \<open>C37: Resetting the iterator of a list and calling \<open>Get_Next_User_Data\<close> until it
  answers NULL visits every user datum exactly once, in list order, reads no
  freed node, ends after one more call than there are data, and leaves the
  list as it was.\<close>
theorem DList_iteration_visits_all:
  assumes "dl_inv d"
  shows "\<exists>d'. drain (Suc (length (dl_elems d))) Get_Next_User_Data (snd (Reset_DList_Iterator d))
      = Some (dl_elems d, d') \<and> dl_elems d' = dl_elems d \<and> dl_inv d'"
  using dlw.drain_all [OF assms, of "Suc (length (dl_elems d))"] by (auto simp: dl_reset_def)

definition dl_ex :: "nat dlist" where
  "dl_ex = \<lparr>dl_nodes = [(10, 7), (11, 8), (12, 9)], dl_next = Some 11\<rparr>"

lemma dl_ex_inv: "dl_inv dl_ex"
  by (simp add: dl_ex_def dl_inv_def pos_ok_def)

theorem DList_iteration_visits_all_witness:
  "\<exists>d'. drain 4 Get_Next_User_Data (snd (Reset_DList_Iterator dl_ex)) = Some ([7, 8, 9], d')"
  using DList_iteration_visits_all [OF dl_ex_inv] by (auto simp: dl_ex_def dl_elems_def eval_nat_numeral)

text \<open>C28: Removing a datum of the list while an iteration over it is under way takes
  exactly that datum out of the list and out of what the iteration has still to
  visit, and reports whether the list became empty; the iterator never stands
  on the freed node.\<close>
theorem DList_remove_during_iteration:
  assumes "dl_inv d" and "ud \<in> set (dl_elems d)"
  shows "\<exists>d'. Remove_from_DList_by_User_Data d ud = (Some ud, dl_elems d' = [], d') \<and> dl_inv d'
    \<and> dl_elems d' = remove1 ud (dl_elems d) \<and> dl_rest d' = remove1 ud (dl_rest d)"
proof -
  from assms(2) obtain a u nx ms where un: "unlink_first (\<lambda>u. u = ud) (dl_nodes d) = Some (a, u, nx, ms)"
    using unlink_first_None [of "\<lambda>u. u = ud" "dl_nodes d"]
    by (cases "unlink_first (\<lambda>u. u = ud) (dl_nodes d)") (auto simp: dl_elems_def)
  with dl_inv_unlink [OF assms(1) un]
  have "snd (snd (Remove_from_DList_by_User_Data d ud)) = Remove_DLNode_from_DList d a nx ms"
    by (auto simp: Remove_from_DList_by_User_Data_def Remove_DLNode_from_DList_def)
  with dl_rest_unlink [OF assms(1) un] Remove_by_User_Data_spec [OF assms(1), of ud] assms(2)
    dl_inv_unlink(5) [OF assms(1) un] show ?thesis by auto
qed

theorem DList_remove_during_iteration_witness:
  "\<exists>d'. Remove_from_DList_by_User_Data dl_ex 8 = (Some 8, False, d') \<and> dl_rest d' = [9]"
  using DList_remove_during_iteration [OF dl_ex_inv, of 8]
  by (auto simp: dl_ex_def dl_elems_def dl_rest_def)

text \<open>Removing by user data when nothing matches restarts an exhausted iteration:
  the check after the search loop then compares the iterator with the list head
  and moves it to the first node, so the iteration visits the whole list
  again.\<close>
theorem DList_remove_absent_restarts_iterator:
  assumes "ud \<notin> set (dl_elems d)" and "dl_next d = None"
  shows "Remove_from_DList_by_User_Data d ud
    = (None, Is_DList_Empty d, snd (Reset_DList_Iterator d))"
  using assms unlink_first_None [of "\<lambda>u. u = ud" "dl_nodes d"]
  by (auto simp: Remove_from_DList_by_User_Data_def Is_DList_Empty_def Reset_DList_Iterator_def dl_elems_def)

theorem DList_remove_absent_restarts_iterator_witness:
  "dl_rest (snd (snd (Remove_from_DList_by_User_Data (dl_ex\<lparr>dl_next := None\<rparr>) 5))) = [7, 8, 9]"
  using DList_remove_absent_restarts_iterator [of 5 "dl_ex\<lparr>dl_next := None\<rparr>"]
  by (simp add: dl_ex_def dl_elems_def dl_rest_def Reset_DList_Iterator_def)

end
