(* ===== verification/LB_List.thy ===== *)
theory LB_List
  imports DMS_Prelude
begin

text \<open>
  The list of logical blocks of an I/O, \<open>DriverCore/LogicalBlockList.c\<close>: an
  intrusive kernel list of block descriptors kept sorted by \<open>LBID\<close>, with an
  iterator \<open>next_node\<close>.  A node is the address of a descriptor and its fields.
  Removing a descriptor leaves the iterator as it is, unlike in \<open>DList.c\<close>, so
  the iterator may be left on a descriptor that is no longer in the list.
\<close>

section \<open>State\<close>

record lbmd =
  lb_LBID :: u64
  lb_HBID :: u64
  lb_bio :: "nat option"     \<comment> \<open>the bio the block comes from\<close>
  lb_vec_idx :: u16          \<comment> \<open>its segment in that bio\<close>

record lb_list =
  lb_nodes :: "(nat \<times> lbmd) list"
  lb_next :: "nat option"

definition Init_LogicalBlock_MetaData :: lbmd where
  "Init_LogicalBlock_MetaData = \<lparr>lb_LBID = 0, lb_HBID = 0, lb_bio = None, lb_vec_idx = 0\<rparr>"

definition Create_LogicalBlock_MetaData :: "nat \<Rightarrow> nat \<times> lbmd" where
  "Create_LogicalBlock_MetaData a = (a, Init_LogicalBlock_MetaData)"

text \<open>Initialisation sets the list head only: the iterator keeps what the
  allocated memory held.\<close>

definition Init_LogicalBlock_List :: "lb_list \<Rightarrow> int \<times> lb_list" where
  "Init_LogicalBlock_List mem = (DMS_OK, mem\<lparr>lb_nodes := []\<rparr>)"

definition Create_LogicalBlock_List :: "lb_list \<Rightarrow> lb_list option" where
  "Create_LogicalBlock_List mem =
     (case Init_LogicalBlock_List mem of (r, l) \<Rightarrow> if r < 0 then None else Some l)"

text \<open>Release: the addresses of the descriptors that are freed, in order.\<close>

definition Release_LogicalBlock_List :: "lb_list \<Rightarrow> nat list" where
  "Release_LogicalBlock_List l = map fst (lb_nodes l)"

section \<open>Lookups\<close>

definition Is_LB_List_Empty :: "lb_list \<Rightarrow> bool" where
  "Is_LB_List_Empty l \<longleftrightarrow> lb_nodes l = []"

definition Get_LogicalBlock_By_LBMD_ptr :: "lb_list \<Rightarrow> nat \<Rightarrow> (nat \<times> lbmd) option" where
  "Get_LogicalBlock_By_LBMD_ptr l lbmd = find (\<lambda>(tmp, _). tmp = lbmd) (lb_nodes l)"

definition Get_LogicalBlock_By_LBID :: "lb_list \<Rightarrow> u64 \<Rightarrow> (nat \<times> lbmd) option" where
  "Get_LogicalBlock_By_LBID l lbid = find (\<lambda>(_, m). lb_LBID m = lbid) (lb_nodes l)"

text \<open>From a node on; a NULL node is the front of the list.\<close>

definition Get_LBMD_from_Node_by_LBID ::
    "lb_list \<Rightarrow> nat option \<Rightarrow> u64 \<Rightarrow> (nat \<times> lbmd) option" where
  "Get_LBMD_from_Node_by_LBID l cur lbid =
     find (\<lambda>(_, m). lb_LBID m = lbid)
       (nodes_from (lb_nodes l)
          (case cur of None \<Rightarrow> first_addr (lb_nodes l) | Some a \<Rightarrow> Some a))"

section \<open>The iterator\<close>

text \<open>The outer \<open>None\<close> is a read through a descriptor that left the list.\<close>

definition Get_Next_LBMD :: "lb_list \<Rightarrow> ((nat \<times> lbmd) option \<times> lb_list) option" where
  "Get_Next_LBMD l =
     (case lb_next l of
        None \<Rightarrow> Some (None, l)
      | Some cur_node \<Rightarrow>
          (case map_of (lb_nodes l) cur_node of
             None \<Rightarrow> None
           | Some m \<Rightarrow> Some (Some (cur_node, m), l\<lparr>lb_next := next_of (lb_nodes l) cur_node\<rparr>)))"

definition Reset_LB_List_Iterator :: "lb_list \<Rightarrow> int \<times> lb_list" where
  "Reset_LB_List_Iterator l = (DMS_OK, l\<lparr>lb_next := first_addr (lb_nodes l)\<rparr>)"

section \<open>Insertion sort\<close>

text \<open>\<open>list_for_each_prev\<close> from the tail, on the reversed list: a duplicate
  stops the scan, and so does the first smaller LBID, after which the new
  descriptor is linked (after the head when there is none).\<close>

fun insert_prev :: "nat \<times> lbmd \<Rightarrow> (nat \<times> lbmd) list \<Rightarrow> (nat \<times> lbmd) list option" where
  "insert_prev n [] = Some [n]"
| "insert_prev n (p # ps) =
     (if lb_LBID (snd p) = lb_LBID (snd n) then None
      else if lb_LBID (snd p) < lb_LBID (snd n) then Some (n # p # ps)
      else map_option ((#) p) (insert_prev n ps))"

definition Add_to_LogicalBlock_List_by_Insertion_Sort ::
    "lb_list \<Rightarrow> nat \<times> lbmd \<Rightarrow> int \<times> lb_list" where
  "Add_to_LogicalBlock_List_by_Insertion_Sort l n =
     (case insert_prev n (rev (lb_nodes l)) of
        None \<Rightarrow> (- DMS_FAIL, l)
      | Some ps \<Rightarrow> (DMS_OK, l\<lparr>lb_nodes := rev ps\<rparr>))"

section \<open>Removal\<close>

text \<open>\<open>*empty\<close> is an argument and a result: the code leaves it alone when
  nothing matched.\<close>

definition Remove_from_LogicalBlock_List ::
    "(nat \<times> lbmd \<Rightarrow> bool) \<Rightarrow> lb_list \<Rightarrow> int \<Rightarrow> (nat \<times> lbmd) option \<times> int \<times> lb_list" where
  "Remove_from_LogicalBlock_List p l em =
     (case List.extract p (lb_nodes l) of
        None \<Rightarrow> (None, em, l)
      | Some (xs, n, ys) \<Rightarrow> (Some n, of_bool (xs @ ys = []), l\<lparr>lb_nodes := xs @ ys\<rparr>))"

definition Remove_from_LogicalBlock_List_by_LBMD ::
    "lb_list \<Rightarrow> nat \<Rightarrow> int \<Rightarrow> (nat \<times> lbmd) option \<times> int \<times> lb_list" where
  "Remove_from_LogicalBlock_List_by_LBMD l lbmd em =
     Remove_from_LogicalBlock_List (\<lambda>(tmp, _). tmp = lbmd) l em"

definition Remove_from_LogicalBlock_List_by_LBID ::
    "lb_list \<Rightarrow> u64 \<Rightarrow> int \<Rightarrow> (nat \<times> lbmd) option \<times> int \<times> lb_list" where
  "Remove_from_LogicalBlock_List_by_LBID l lbid em =
     Remove_from_LogicalBlock_List (\<lambda>(_, m). lb_LBID m = lbid) l em"

text \<open>The inner declaration of \<open>lbmd\<close> in the first of the two functions hides
  the parameter: what is removed is the block at the uninitialised inner pointer
  (\<open>inner\<close>; \<open>None\<close> is NULL, which the removal refuses).\<close>

definition Free_LogicalBlock_MetaData_from_LB_List_by_LBMD ::
    "nat option \<Rightarrow> lb_list \<Rightarrow> nat \<Rightarrow> int \<times> lb_list" where
  "Free_LogicalBlock_MetaData_from_LB_List_by_LBMD inner l lbmd =
     (case inner of
        None \<Rightarrow> (- DMS_FAIL, l)
      | Some x \<Rightarrow>
          (case Remove_from_LogicalBlock_List_by_LBMD l x (- DMS_FAIL) of
             (None, _, l') \<Rightarrow> (- DMS_FAIL, l')
           | (Some _, em, l') \<Rightarrow> (em, l')))"

definition Free_LogicalBlock_MetaData_from_LB_List_by_LBID :: "lb_list \<Rightarrow> u64 \<Rightarrow> int \<times> lb_list" where
  "Free_LogicalBlock_MetaData_from_LB_List_by_LBID l lbid =
     (case Remove_from_LogicalBlock_List_by_LBID l lbid (- DMS_FAIL) of
        (None, _, l') \<Rightarrow> (- DMS_FAIL, l')
      | (Some _, em, l') \<Rightarrow> (em, l'))"

section \<open>Commit of a range\<close>

text \<open>One pass over the list with the counter \<open>i\<close>: the remaining nodes and the
  final counter, which the code compares with \<open>nr_lbids\<close> for its log.\<close>

fun commit_scan :: "u64 \<Rightarrow> int \<Rightarrow> int \<Rightarrow> (nat \<times> lbmd) list \<Rightarrow> (nat \<times> lbmd) list \<times> int" where
  "commit_scan slbid nr_lbids i [] = ([], i)"
| "commit_scan slbid nr_lbids i (cur # ns) =
     (if lb_LBID (snd cur) = slbid + of_int i then
        (if i + 1 = nr_lbids then (ns, i + 1) else commit_scan slbid nr_lbids (i + 1) ns)
      else (case commit_scan slbid nr_lbids i ns of (rs, j) \<Rightarrow> (cur # rs, j)))"

definition Commit_LB_List_by_Range :: "lb_list \<Rightarrow> u64 \<Rightarrow> int \<Rightarrow> int \<times> lb_list" where
  "Commit_LB_List_by_Range l slbid nr_lbids =
     (case commit_scan slbid nr_lbids 0 (lb_nodes l) of
        (rs, i) \<Rightarrow> (of_bool (rs = []), l\<lparr>lb_nodes := rs\<rparr>))"

lemmas lb_defs = Init_LogicalBlock_MetaData_def Create_LogicalBlock_MetaData_def
  Init_LogicalBlock_List_def Create_LogicalBlock_List_def Is_LB_List_Empty_def
  Add_to_LogicalBlock_List_by_Insertion_Sort_def Remove_from_LogicalBlock_List_def
  Remove_from_LogicalBlock_List_by_LBMD_def Remove_from_LogicalBlock_List_by_LBID_def
  Free_LogicalBlock_MetaData_from_LB_List_by_LBMD_def
  Free_LogicalBlock_MetaData_from_LB_List_by_LBID_def Commit_LB_List_by_Range_def

section \<open>Invariant\<close>

text \<open>Addresses are distinct and the blocks are strictly sorted by LBID;
  \<open>lb_inv\<close> adds that the iterator is on the head or on a block of the list.\<close>

definition lb_ids :: "(nat \<times> lbmd) list \<Rightarrow> u64 list" where
  "lb_ids ns = map (\<lambda>(_, m). lb_LBID m) ns"

definition lb_wf :: "lb_list \<Rightarrow> bool" where
  "lb_wf l \<longleftrightarrow> distinct (addrs (lb_nodes l)) \<and> sorted_wrt (<) (lb_ids (lb_nodes l))"

definition lb_inv :: "lb_list \<Rightarrow> bool" where
  "lb_inv l \<longleftrightarrow> lb_wf l \<and> pos_ok (lb_nodes l) (lb_next l)"

definition lb_rest :: "lb_list \<Rightarrow> (nat \<times> lbmd) list" where
  "lb_rest l = nodes_from (lb_nodes l) (lb_next l)"

lemma lb_ids_simps [simp]: "lb_ids [] = []" "lb_ids (n # ns) = lb_LBID (snd n) # lb_ids ns"
  "lb_ids (xs @ ys) = lb_ids xs @ lb_ids ys" "lb_ids (rev xs) = rev (lb_ids xs)"
  by (auto simp: lb_ids_def rev_map split: prod.splits)

lemma lb_ids_snd: "lb_ids ns = map (\<lambda>n. lb_LBID (snd n)) ns"
  by (simp add: lb_ids_def split_def)

lemma lb_wf_sublist:
  assumes "lb_wf l" and "lb_nodes l = xs @ ys @ zs"
  shows "lb_wf (l\<lparr>lb_nodes := xs @ zs\<rparr>)"
  using assms by (auto simp: lb_wf_def sorted_wrt_append)

lemma addrs_rev [simp]: "addrs (rev ns) = rev (addrs ns)"
  by (simp add: addrs_def rev_map)

text \<open>The insertion step on the reversed (descending) list.\<close>

lemma insert_prev_None: "sorted_wrt (>) (lb_ids ps) \<Longrightarrow>
  insert_prev n ps = None \<longleftrightarrow> lb_LBID (snd n) \<in> set (lb_ids ps)"
  by (induction n ps rule: insert_prev.induct) auto

lemma insert_prev_Some: "sorted_wrt (>) (lb_ids ps) \<Longrightarrow> insert_prev n ps = Some qs \<Longrightarrow>
  sorted_wrt (>) (lb_ids qs) \<and> (\<exists>xs ys. ps = xs @ ys \<and> qs = xs @ n # ys)"
proof (induction n ps arbitrary: qs rule: insert_prev.induct)
  case (1 n)
  then show ?case by auto
next
  case (2 n p ps)
  consider (here) "lb_LBID (snd p) < lb_LBID (snd n)" "qs = n # p # ps"
    | (later) qs' where "lb_LBID (snd n) < lb_LBID (snd p)" "qs = p # qs'" "insert_prev n ps = Some qs'"
    using "2.prems"(2) by (fastforce split: if_splits)
  then show ?case
  proof cases
    case here
    with "2.prems"(1) show ?thesis by (auto intro: exI [of _ "[]"] dest: less_trans)
  next
    case later
    with "2.IH" "2.prems"(1) obtain xs ys where xy: "sorted_wrt (>) (lb_ids qs')"
      "ps = xs @ ys" "qs' = xs @ n # ys" by fastforce
    have "sorted_wrt (>) (lb_ids qs)" using xy later(1,2) "2.prems"(1) by auto
    moreover have "p # ps = (p # xs) @ ys \<and> qs = (p # xs) @ n # ys" using xy later(2) by simp
    ultimately show ?thesis by blast
  qed
qed

lemma sorted_wrt_rev_greater: "sorted_wrt (>) (rev xs) \<longleftrightarrow> sorted_wrt (<) (xs :: 'a :: order list)"
  by (simp add: sorted_wrt_rev)

lemma Add_spec:
  assumes "lb_wf l" and "a \<notin> set (addrs (lb_nodes l))"
    and "Add_to_LogicalBlock_List_by_Insertion_Sort l (a, m) = (r, l')"
  shows "lb_wf l'" and "r = (if lb_LBID m \<in> set (lb_ids (lb_nodes l)) then - DMS_FAIL else DMS_OK)"
    and "set (lb_nodes l') = (if r = DMS_OK then insert (a, m) (set (lb_nodes l)) else set (lb_nodes l))"
    and "lb_next l' = lb_next l"
proof -
  have srt: "sorted_wrt (>) (lb_ids (rev (lb_nodes l)))"
    using assms(1) by (simp add: lb_wf_def sorted_wrt_rev_greater)
  have "lb_wf l' \<and> r = (if lb_LBID m \<in> set (lb_ids (lb_nodes l)) then - DMS_FAIL else DMS_OK) \<and>
    set (lb_nodes l') = (if r = DMS_OK then insert (a, m) (set (lb_nodes l)) else set (lb_nodes l)) \<and>
    lb_next l' = lb_next l"
  proof (cases "insert_prev (a, m) (rev (lb_nodes l))")
    case None
    with insert_prev_None [OF srt] assms show ?thesis
      by (auto simp: Add_to_LogicalBlock_List_by_Insertion_Sort_def ret_defs)
  next
    case (Some qs)
    from insert_prev_Some [OF srt Some] obtain xs ys where q: "sorted_wrt (>) (lb_ids qs)"
      "rev (lb_nodes l) = xs @ ys" "qs = xs @ (a, m) # ys" by blast
    from q(2) have ns: "lb_nodes l = rev ys @ rev xs"
      by (metis rev_append rev_rev_ident)
    have "lb_LBID m \<notin> set (lb_ids (lb_nodes l))"
      using insert_prev_None [OF srt, of "(a, m)"] Some by simp
    moreover have "lb_wf (l\<lparr>lb_nodes := rev qs\<rparr>)"
      using q(1,3) ns assms(1,2) by (auto simp: lb_wf_def simp flip: sorted_wrt_rev_greater)
    ultimately show ?thesis using Some assms(3) q(3) ns
      by (auto simp: Add_to_LogicalBlock_List_by_Insertion_Sort_def ret_defs)
  qed
  then show "lb_wf l'" and "r = (if lb_LBID m \<in> set (lb_ids (lb_nodes l)) then - DMS_FAIL else DMS_OK)"
    and "set (lb_nodes l') = (if r = DMS_OK then insert (a, m) (set (lb_nodes l)) else set (lb_nodes l))"
    and "lb_next l' = lb_next l"
    by blast+
qed

section \<open>Commit of a range: what is removed\<close>

text \<open>\<open>run_from s nr i ns\<close>: how many of the blocks \<open>s + i, s + i + 1, \<dots>\<close> (below
  \<open>s + nr\<close>) are in the list before the first one that is not.\<close>

definition run_from :: "nat \<Rightarrow> nat \<Rightarrow> nat \<Rightarrow> (nat \<times> lbmd) list \<Rightarrow> nat" where
  "run_from s nr i ns = length (takeWhile (\<lambda>j. s + j \<in> set (map unat (lb_ids ns))) [i..<nr])"

text \<open>The blocks outside a range of LBIDs.\<close>

definition outside :: "nat \<Rightarrow> nat \<Rightarrow> (nat \<times> lbmd) list \<Rightarrow> (nat \<times> lbmd) list" where
  "outside lo hi ns = filter (\<lambda>n. \<not> (lo \<le> unat (lb_LBID (snd n)) \<and> unat (lb_LBID (snd n)) < hi)) ns"

lemma run_from_out: "s + i \<notin> set (map unat (lb_ids ns)) \<Longrightarrow> run_from s nr i ns = 0"
  by (cases "i < nr") (auto simp: run_from_def upt_conv_Cons)

lemma run_from_end: "run_from s nr nr ns = 0"
  by (simp add: run_from_def)

lemma run_from_hit: "i < nr \<Longrightarrow> unat (lb_LBID (snd n)) = s + i \<Longrightarrow>
  run_from s nr i (n # ns) = Suc (run_from s nr (Suc i) ns)"
  by (auto simp: run_from_def upt_conv_Cons intro!: arg_cong [of _ _ length] takeWhile_cong)

lemma run_from_below: "unat (lb_LBID (snd n)) < s + i \<Longrightarrow> run_from s nr i (n # ns) = run_from s nr i ns"
  by (auto simp: run_from_def intro!: arg_cong [of _ _ length] takeWhile_cong)

lemma outside_above: "\<forall>m \<in> set ns. lo < unat (lb_LBID (snd m)) \<Longrightarrow> outside lo hi ns = outside (Suc lo) hi ns"
  unfolding outside_def by (rule filter_cong) auto

lemma outside_Cons: "outside lo hi (n # ns) =
  (if lo \<le> unat (lb_LBID (snd n)) \<and> unat (lb_LBID (snd n)) < hi then outside lo hi ns
   else n # outside lo hi ns)"
  by (simp add: outside_def)

lemma outside_empty: "hi \<le> lo \<Longrightarrow> outside lo hi ns = ns"
  by (simp add: outside_def filter_id_conv)

lemma commit_scan_spec:
  assumes "sorted_wrt (<) (lb_ids ns)" and "unat s + nr < 2 ^ 64" and "i < nr"
  shows "commit_scan s (int nr) (int i) ns =
    (outside (unat s + i) (unat s + i + run_from (unat s) nr i ns) ns,
     int (i + run_from (unat s) nr i ns))"
  using assms
proof (induction ns arbitrary: i)
  case Nil
  then show ?case by (simp add: run_from_out outside_def)
next
  case (Cons n ns)
  let ?h = "unat (lb_LBID (snd n))"
  have above: "\<forall>m \<in> set ns. ?h < unat (lb_LBID (snd m))"
    using Cons.prems(1) by (auto simp: lb_ids_def word_less_nat_alt split_def)
  have off: "lb_LBID (snd n) = s + of_int (int i) \<longleftrightarrow> ?h = unat s + i"
    using unat_plus_nat [of s i] Cons.prems(2,3) by (simp add: word_unat_eq_iff)
  have srt: "sorted_wrt (<) (lb_ids ns)" using Cons.prems(1) by simp
  consider (last) "?h = unat s + i" "Suc i = nr" | (hit) "?h = unat s + i" "Suc i < nr"
    | (below) "?h < unat s + i" | (above) "unat s + i < ?h"
    using Cons.prems(3) by linarith
  then show ?case
  proof cases
    case last
    have "outside (unat s + i) (Suc (unat s + i)) ns = ns"
      using above last by (subst outside_above) (auto simp: outside_empty)
    with last off Cons.prems(3) show ?thesis
      by (simp add: run_from_hit run_from_end outside_Cons)
  next
    case hit
    then have "commit_scan s (int nr) (int i) (n # ns) = commit_scan s (int nr) (int (Suc i)) ns"
      using off by (simp add: add.commute)
    also have "\<dots> = (outside (unat s + Suc i) (unat s + Suc i + run_from (unat s) nr (Suc i) ns) ns,
        int (Suc i + run_from (unat s) nr (Suc i) ns))"
      by (rule Cons.IH [OF srt Cons.prems(2) hit(2)])
    finally show ?thesis using hit above
      by (simp add: run_from_hit outside_Cons outside_above [of ns "unat s + i"])
  next
    case below
    with Cons.IH [OF srt Cons.prems(2,3)] off show ?thesis
      by (simp add: run_from_below outside_Cons)
  next
    case above': above
    with above have no: "\<forall>m \<in> set ns. unat (lb_LBID (snd m)) \<noteq> unat s + i" by fastforce
    with above' have out: "run_from (unat s) nr i (n # ns) = 0" "run_from (unat s) nr i ns = 0"
      by (intro run_from_out; force simp: lb_ids_def split_def)+
    from Cons.IH [OF srt Cons.prems(2,3)] off above' out show ?thesis
      by (simp add: outside_empty)
  qed
qed

text \<open>A count that is not positive is never reached by the counter: the commit
  then behaves like one for more blocks than the list has.\<close>

lemma commit_scan_no_break: "nr \<le> i \<Longrightarrow> i + int (length ns) < nr' \<Longrightarrow>
  commit_scan s nr i ns = commit_scan s nr' i ns"
  by (induction ns arbitrary: i) auto

lemma lb_wf_filter: "lb_wf l \<Longrightarrow> lb_wf (l\<lparr>lb_nodes := filter P (lb_nodes l)\<rparr>)"
proof -
  have "distinct (addrs ns) \<Longrightarrow> distinct (addrs (filter P ns))"
    and "sorted_wrt (<) (lb_ids ns) \<Longrightarrow> sorted_wrt (<) (lb_ids (filter P ns))" for ns :: "(nat \<times> lbmd) list"
    by (auto simp: addrs_def distinct_map_filter lb_ids_def sorted_wrt_map sorted_wrt_filter)
  then show "lb_wf l \<Longrightarrow> ?thesis" by (simp add: lb_wf_def)
qed

lemma Commit_range_run:
  assumes "lb_wf l" and "unat s + nr < 2 ^ 64" and "0 < nr"
  shows "Commit_LB_List_by_Range l s (int nr) =
    (let ns = outside (unat s) (unat s + run_from (unat s) nr 0 (lb_nodes l)) (lb_nodes l)
     in (of_bool (ns = []), l\<lparr>lb_nodes := ns\<rparr>))"
  using commit_scan_spec [of "lb_nodes l" s nr 0] assms
  by (simp add: Commit_LB_List_by_Range_def lb_wf_def Let_def)

text \<open>When the whole range is in the list, the run is the whole range.\<close>

lemma run_from_all: "(\<forall>j < nr. s + j \<in> set (map unat (lb_ids ns))) \<Longrightarrow> run_from s nr 0 ns = nr"
proof -
  assume "\<forall>j < nr. s + j \<in> set (map unat (lb_ids ns))"
  then have "takeWhile (\<lambda>j. s + j \<in> set (map unat (lb_ids ns))) [0..<nr] = [0..<nr]"
    by (subst takeWhile_eq_all_conv) auto
  then show ?thesis by (simp only: run_from_def length_upt diff_zero)
qed

section \<open>The block list provides the iteration interface\<close>

definition lb_reset :: "lb_list \<Rightarrow> lb_list" where
  "lb_reset l = snd (Reset_LB_List_Iterator l)"

lemma lb_next_step:
  assumes "lb_inv l" and "lb_rest l = x # xs"
  shows "\<exists>l'. Get_Next_LBMD l = Some (Some x, l') \<and> lb_inv l' \<and> lb_rest l' = xs
      \<and> lb_nodes l' = lb_nodes l"
proof -
  obtain b m where x: "x = (b, m)" by (cases x)
  with assms(2) have ns: "nodes_from (lb_nodes l) (lb_next l) = (b, m) # xs"
    by (simp add: lb_rest_def)
  then obtain a where a: "lb_next l = Some a" by (cases "lb_next l") auto
  from assms(1) have "distinct (addrs (lb_nodes l))" by (simp add: lb_inv_def lb_wf_def)
  from map_of_addrs [OF this ns [unfolded a]] a x assms(1) show ?thesis
    by (cases xs rule: first_addr.cases)
      (auto simp: Get_Next_LBMD_def lb_rest_def lb_inv_def lb_wf_def pos_ok_def)
qed

interpretation lbw: iter_list lb_inv lb_nodes lb_rest lb_reset Get_Next_LBMD
proof unfold_locales
  fix l x xs
  assume l: "lb_inv l"
  show "lb_inv (lb_reset l)" using l
    by (simp add: lb_reset_def Reset_LB_List_Iterator_def lb_inv_def lb_wf_def)
  show "lb_nodes (lb_reset l) = lb_nodes l" "lb_rest (lb_reset l) = lb_nodes l"
    by (simp_all add: lb_reset_def Reset_LB_List_Iterator_def lb_rest_def)
  show "Get_Next_LBMD l = Some (None, l)" if "lb_rest l = []"
    using that l nodes_from_Nil_iff [of "lb_nodes l" "lb_next l"]
    by (simp add: lb_rest_def lb_inv_def Get_Next_LBMD_def)
  show "\<exists>l'. Get_Next_LBMD l = Some (Some x, l') \<and> lb_inv l' \<and> lb_rest l' = xs
      \<and> lb_nodes l' = lb_nodes l" if "lb_rest l = x # xs"
    by (rule lb_next_step [OF l that])
qed

lemma insort_key_split: "\<forall>x \<in> set xs. f x < f n \<Longrightarrow> \<forall>y \<in> set ys. f n < f y \<Longrightarrow>
  insort_key f n (xs @ ys) = xs @ n # ys"
  by (induction xs) (cases ys; auto)+

lemma Add_insort:
  assumes "lb_wf l" and "lb_LBID m \<notin> set (lb_ids (lb_nodes l))"
  shows "Add_to_LogicalBlock_List_by_Insertion_Sort l (a, m) =
    (DMS_OK, l\<lparr>lb_nodes := insort_key (\<lambda>(_, m). lb_LBID m) (a, m) (lb_nodes l)\<rparr>)"
proof -
  have srt: "sorted_wrt (>) (lb_ids (rev (lb_nodes l)))"
    using assms(1) by (simp add: lb_wf_def sorted_wrt_rev_greater)
  from insert_prev_None [OF srt, of "(a, m)"] assms(2)
  obtain qs where qs: "insert_prev (a, m) (rev (lb_nodes l)) = Some qs" by auto
  from insert_prev_Some [OF srt qs] obtain xs ys where q: "sorted_wrt (>) (lb_ids qs)"
    "rev (lb_nodes l) = xs @ ys" "qs = xs @ (a, m) # ys" by blast
  from q(2) have ns: "lb_nodes l = rev ys @ rev xs" by (metis rev_append rev_rev_ident)
  have "insort_key (\<lambda>(_, m). lb_LBID m) (a, m) (rev ys @ rev xs) = rev ys @ (a, m) # rev xs"
    using q(1,3) by (intro insort_key_split) (auto simp: sorted_wrt_append lb_ids_def)
  with qs q(3) ns show ?thesis
    by (simp add: Add_to_LogicalBlock_List_by_Insertion_Sort_def)
qed

section \<open>Properties\<close>

text \<open>C27: Inserting a block into a well-formed block list is insertion in sorted
  position: a block whose LBID is already present is refused with the list
  unchanged, any other one is put where \<open>insort_key\<close> puts it, and the list stays
  well-formed (strictly sorted, distinct addresses).\<close>
theorem Add_insertion_sort_correct:
  assumes "lb_wf l" and "a \<notin> set (addrs (lb_nodes l))"
  shows "Add_to_LogicalBlock_List_by_Insertion_Sort l (a, m) =
      (if lb_LBID m \<in> set (lb_ids (lb_nodes l)) then (- DMS_FAIL, l)
       else (DMS_OK, l\<lparr>lb_nodes := insort_key (\<lambda>(_, m). lb_LBID m) (a, m) (lb_nodes l)\<rparr>))
    \<and> lb_wf (snd (Add_to_LogicalBlock_List_by_Insertion_Sort l (a, m)))"
proof -
  have wf: "lb_wf (snd (Add_to_LogicalBlock_List_by_Insertion_Sort l (a, m)))"
    using Add_spec(1) [OF assms] by (metis prod.collapse)
  show ?thesis
  proof (cases "lb_LBID m \<in> set (lb_ids (lb_nodes l))")
    case True
    with assms(1) insert_prev_None [of "rev (lb_nodes l)" "(a, m)"] wf show ?thesis
      by (simp add: Add_to_LogicalBlock_List_by_Insertion_Sort_def lb_wf_def sorted_wrt_rev_greater)
  next
    case False
    with Add_insort [OF assms(1) False, of a] wf show ?thesis by simp
  qed
qed

definition lb_ex :: "nat \<Rightarrow> u64 \<Rightarrow> nat \<times> lbmd" where
  "lb_ex a i = (a, Init_LogicalBlock_MetaData\<lparr>lb_LBID := i\<rparr>)"

definition lbl_ex :: lb_list where
  "lbl_ex = \<lparr>lb_nodes = [lb_ex 10 3, lb_ex 11 4, lb_ex 12 6], lb_next = None\<rparr>"

lemma lbl_ex_wf: "lb_wf lbl_ex"
  by (simp add: lbl_ex_def lb_wf_def lb_ex_def)

theorem Add_insertion_sort_correct_witness:
  "Add_to_LogicalBlock_List_by_Insertion_Sort lbl_ex (lb_ex 20 5) =
     (DMS_OK, lbl_ex\<lparr>lb_nodes := [lb_ex 10 3, lb_ex 11 4, lb_ex 20 5, lb_ex 12 6]\<rparr>)"
  using Add_insertion_sort_correct [of lbl_ex 20 "snd (lb_ex 20 5)"] lbl_ex_wf
  by (simp add: lbl_ex_def lb_ex_def)

text \<open>C26: Committing \<open>nr > 0\<close> blocks from \<open>slbid\<close> removes exactly the consecutive
  blocks \<open>slbid, slbid + 1, \<dots>\<close> up to the first one missing, at most \<open>nr\<close> of them,
  keeps every other block in order, and reports whether the list became empty.\<close>
theorem Commit_LB_List_by_Range_correct:
  assumes "lb_wf l" and "0 < nr" and "unat s + nr < 2 ^ 64"
  shows "let ids = set (map unat (lb_ids (lb_nodes l)));
             k = length (takeWhile (\<lambda>j. unat s + j \<in> ids) [0..<nr]);
             ns = filter (\<lambda>n. unat (lb_LBID (snd n)) \<notin> {unat s..<unat s + k}) (lb_nodes l)
         in Commit_LB_List_by_Range l s (int nr) = (of_bool (ns = []), l\<lparr>lb_nodes := ns\<rparr>)
            \<and> lb_wf (l\<lparr>lb_nodes := ns\<rparr>)"
  using Commit_range_run [OF assms(1,3,2)] lb_wf_filter [OF assms(1)]
  by (simp add: Let_def outside_def run_from_def)

theorem Commit_LB_List_by_Range_correct_witness:
  "Commit_LB_List_by_Range lbl_ex 3 3 = (0, lbl_ex\<lparr>lb_nodes := [lb_ex 12 6]\<rparr>)"
  using Commit_LB_List_by_Range_correct [of lbl_ex 3 3, OF lbl_ex_wf]
  by (simp add: lbl_ex_def lb_ex_def Let_def upt_conv_Cons)

text \<open>A count that is zero or negative does not mean "nothing": the commit loop
  then never reaches it and removes the whole run of consecutive blocks from
  \<open>slbid\<close> on, as a commit of more blocks than the list has would.\<close>
theorem Commit_LB_List_nonpositive_count:
  assumes "nr \<le> 0"
  shows "Commit_LB_List_by_Range l s nr = Commit_LB_List_by_Range l s (int (length (lb_nodes l)) + 1)"
  using commit_scan_no_break [of nr 0 "lb_nodes l" "int (length (lb_nodes l)) + 1" s] assms
  by (simp add: Commit_LB_List_by_Range_def)

theorem Commit_LB_List_nonpositive_count_witness:
  "Commit_LB_List_by_Range lbl_ex 3 0 = (0, lbl_ex\<lparr>lb_nodes := [lb_ex 12 6]\<rparr>)"
  using Commit_LB_List_nonpositive_count [of 0 lbl_ex 3]
  by (simp add: lbl_ex_def lb_ex_def Commit_LB_List_by_Range_def)

end
