(* ===== verification/DIO_Range.thy ===== *)
theory DIO_Range
  imports DMS_Prelude "HOL-Library.Monad_Syntax"
begin

text \<open>
  How far a write extends with one operation code: the allocation flags of
  \<open>DriverCore/Allocation_Flag.c\<close> and the range functions of \<open>DriverCore/DIO.c\<close>.

  The allocation map is a placeholder in the code (all zero, or a fixed test
  pattern), so the range functions take the map \<open>alf\<close> as an argument and are
  instantiated with \<open>Get_Allocation_Flag\<close> of both builds.  \<open>sh1 k\<close> is what the
  compiled code yields for the C expression \<open>1 << k\<close> widened to 64 bits; C
  fixes it for \<open>k < 31\<close> only, because the literal is a 32-bit \<open>int\<close>.  Signed
  overflow wraps (the kernel is built with \<open>-fwrapv\<close>).
\<close>

section \<open>Allocation flags\<close>

definition Init_Allocation_Flag_Map :: int where
  "Init_Allocation_Flag_Map = DMS_OK"

definition Create_Allocation_Flag_Map :: int where
  "Create_Allocation_Flag_Map = DMS_OK"

definition Get_Allocation_Flag :: "bool \<Rightarrow> u64 \<Rightarrow> u64" where
  "Get_Allocation_Flag dms_utest start_LBID =
     (if \<not> dms_utest then 0
      else if start_LBID mod 3 = 0 then 0
      else if start_LBID mod 3 = 1 then 0xffffffffffffffff
      else if start_LBID mod 3 = 2 then 0xaaffaaffaaffaaff
      else 0)"

definition Set_Allocation_Flag :: "u64 \<Rightarrow> int \<Rightarrow> int" where
  "Set_Allocation_Flag start_LBID len = DMS_OK"

definition Clear_Allocation_Flag :: "u64 \<Rightarrow> int" where
  "Clear_Allocation_Flag volid = DMS_OK"

section \<open>Bit searches of the kernel\<close>

definition CHUNK_SIZE :: nat where "CHUNK_SIZE = 64"
definition BITS_PER_LONG :: nat where "BITS_PER_LONG = 64"

definition find_next_where :: "(nat \<Rightarrow> bool) \<Rightarrow> nat \<Rightarrow> nat" where
  "find_next_where P start =
     (case find P [start..<BITS_PER_LONG] of None \<Rightarrow> BITS_PER_LONG | Some i \<Rightarrow> i)"

definition find_next_bit :: "u64 \<Rightarrow> nat \<Rightarrow> nat" where
  "find_next_bit w start = find_next_where (\<lambda>i. bit w i) start"

definition find_next_zero_bit :: "u64 \<Rightarrow> nat \<Rightarrow> nat" where
  "find_next_zero_bit w start = find_next_where (\<lambda>i. \<not> bit w i) start"

section \<open>Continuous ranges\<close>

text \<open>The recursion over the chunks does not end when the count is a positive
  multiple of \<open>2 ^ 32\<close>; not returning is \<open>None\<close>.\<close>

partial_function (option) Get_Continuous_Range ::
    "(u64 \<Rightarrow> u64) \<Rightarrow> int \<Rightarrow> u64 \<Rightarrow> u64 \<Rightarrow> int option" where
  "Get_Continuous_Range alf op sLBID nr_LBIDs =
     (let start_index = unat (sLBID mod 64);
          range_index = c_int (uint (of_nat start_index + nr_LBIDs - 1));
          flags = alf sLBID;
          next_index = (if op = DMS_OP_WRITE then find_next_bit flags start_index
                        else if op = DMS_OP_OVERWRITE then find_next_zero_bit flags start_index
                        else 0);
          end_index = (if int next_index - 1 > range_index then range_index else int next_index - 1);
          len = (end_index - int start_index) + 1
      in if nr_LBIDs > word_of_int len \<and> next_index = BITS_PER_LONG
         then do {
           rest \<leftarrow> Get_Continuous_Range alf op (sLBID + word_of_int len) (nr_LBIDs - word_of_int len);
           Some (c_int (len + rest))
         }
         else Some len)"

definition Get_Allocation_Range ::
    "(u64 \<Rightarrow> u64) \<Rightarrow> (nat \<Rightarrow> u64) \<Rightarrow> u64 \<Rightarrow> u64 \<Rightarrow> (int \<times> int) option" where
  "Get_Allocation_Range alf sh1 sLBID nr_LBIDs =
     (let op = (if alf sLBID AND sh1 (unat (sLBID mod 64)) \<noteq> 0 then DMS_OP_OVERWRITE else DMS_OP_WRITE)
      in do {
        len \<leftarrow> Get_Continuous_Range alf op sLBID nr_LBIDs;
        Some (op, len)
      })"

text \<open>The shift as C fixes it, and as the x86-64 instruction computes it: the
  32-bit count is taken modulo 32 and the \<open>int\<close> result is sign-extended.\<close>

definition sh1_c :: "(nat \<Rightarrow> u64) \<Rightarrow> bool" where
  "sh1_c sh1 \<longleftrightarrow> (\<forall>k < 31. sh1 k = 2 ^ k)"

definition sh1_64 :: "nat \<Rightarrow> u64" where
  "sh1_64 k = 2 ^ k"

definition sh1_x86 :: "nat \<Rightarrow> u64" where
  "sh1_x86 k = word_of_int (c_int (2 ^ (k mod 32)))"

section \<open>What the range is\<close>

text \<open>The flag of a block, and a map that gives every block of a chunk the same
  word.\<close>

definition blk_flag :: "(u64 \<Rightarrow> u64) \<Rightarrow> u64 \<Rightarrow> bool" where
  "blk_flag alf b \<longleftrightarrow> bit (alf b) (unat (b mod 64))"

definition chunked :: "(u64 \<Rightarrow> u64) \<Rightarrow> bool" where
  "chunked alf \<longleftrightarrow> (\<forall>a b. a div 64 = b div 64 \<longrightarrow> alf a = alf b)"

text \<open>How many of the \<open>n\<close> blocks from \<open>s\<close> on have the flag \<open>f\<close>, up to the first that
  does not.\<close>

definition flag_run :: "(u64 \<Rightarrow> u64) \<Rightarrow> bool \<Rightarrow> u64 \<Rightarrow> nat \<Rightarrow> nat" where
  "flag_run alf f s n = length (takeWhile (\<lambda>j. blk_flag alf (s + of_nat j) = f) [0..<n])"

lemma find_next_where_spec:
  assumes "st < 64" and "N = find_next_where P st"
  shows "st \<le> N" and "N \<le> 64" and "\<And>i. st \<le> i \<Longrightarrow> i < N \<Longrightarrow> \<not> P i" and "N < 64 \<Longrightarrow> P N"
proof -
  have "st \<le> N \<and> N \<le> 64 \<and> (\<forall>i. st \<le> i \<longrightarrow> i < N \<longrightarrow> \<not> P i) \<and> (N < 64 \<longrightarrow> P N)"
  proof (cases "find P [st..<64]")
    case None
    with assms show ?thesis
      by (auto simp: find_next_where_def BITS_PER_LONG_def find_None_iff)
  next
    case (Some i)
    then obtain k where k: "k < 64 - st" "P (st + k)" "i = st + k" "\<forall>j<k. \<not> P (st + j)"
      by (auto simp: find_Some_iff)
    have "\<not> P m" if "st \<le> m" "m < i" for m
      using k(3,4) that by (metis add_diff_inverse_nat nat_add_left_cancel_less not_le)
    with Some k assms(2) show ?thesis
      by (auto simp: find_next_where_def BITS_PER_LONG_def)
  qed
  then show "st \<le> N" and "N \<le> 64" and "\<And>i. st \<le> i \<Longrightarrow> i < N \<Longrightarrow> \<not> P i" and "N < 64 \<Longrightarrow> P N"
    by auto
qed

text \<open>Runs are characterised by what they contain and where they stop.\<close>

lemma takeWhile_len: "k \<le> n \<Longrightarrow> (\<And>j. j < k \<Longrightarrow> P j) \<Longrightarrow> (k < n \<Longrightarrow> \<not> P k) \<Longrightarrow>
  length (takeWhile P [0..<n]) = k"
proof -
  assume k: "k \<le> n" "\<And>j. j < k \<Longrightarrow> P j" "k < n \<Longrightarrow> \<not> P k"
  have "[0..<n] = [0..<k] @ [k..<n]" using upt_add_eq_append [of 0 k "n - k"] k(1) by simp
  then have "takeWhile P [0..<n] = [0..<k] @ takeWhile P [k..<n]"
    using k(2) by (simp add: takeWhile_append)
  moreover have "takeWhile P [k..<n] = []"
    using k(1,3) by (cases "k < n") (auto simp: upt_conv_Cons)
  ultimately show ?thesis by simp
qed

lemma flag_run_bounds:
  shows "flag_run alf f s n \<le> n"
    and "j < flag_run alf f s n \<Longrightarrow> blk_flag alf (s + of_nat j) = f"
    and "flag_run alf f s n < n \<Longrightarrow> blk_flag alf (s + of_nat (flag_run alf f s n)) \<noteq> f"
proof -
  show "flag_run alf f s n \<le> n"
    using length_takeWhile_le [of "\<lambda>j. blk_flag alf (s + of_nat j) = f" "[0..<n]"]
    by (simp add: flag_run_def)
  show "blk_flag alf (s + of_nat j) = f" if "j < flag_run alf f s n"
    using that nth_mem [of j "takeWhile (\<lambda>j. blk_flag alf (s + of_nat j) = f) [0..<n]"]
      length_takeWhile_le [of "\<lambda>j. blk_flag alf (s + of_nat j) = f" "[0..<n]"]
    by (auto simp: flag_run_def takeWhile_nth dest: set_takeWhileD)
  show "blk_flag alf (s + of_nat (flag_run alf f s n)) \<noteq> f" if "flag_run alf f s n < n"
    using that nth_length_takeWhile [of "\<lambda>j. blk_flag alf (s + of_nat j) = f" "[0..<n]"]
    by (auto simp: flag_run_def)
qed

lemma unat_numeral_64: "unat (64 :: u64) = 64"
  by simp

lemma nat_chunk: "(a :: nat) mod 64 + j < 64 \<Longrightarrow>
  (a + j) div 64 = a div 64 \<and> (a + j) mod 64 = a mod 64 + j"
  using mod_add_left_eq [of a 64 j] by (simp add: div_add1_eq)

text \<open>Within a chunk: the block \<open>j\<close> after \<open>s\<close> reads bit \<open>s mod 64 + j\<close> of the word
  of \<open>s\<close>.\<close>

lemma blk_flag_in_chunk:
  assumes "chunked alf" and "unat s + j < 2 ^ 64" and "unat (s mod 64) + j < 64"
  shows "blk_flag alf (s + of_nat j) = bit (alf s) (unat (s mod 64) + j)"
proof -
  have u: "unat (s + of_nat j) = unat s + j" using assms(2) by (rule unat_plus_nat)
  have m: "unat s mod 64 + j < 64" using assms(3) by (simp add: unat_mod_distrib)
  then have "(unat s + j) div 64 = unat s div 64" "(unat s + j) mod 64 = unat s mod 64 + j"
    by (simp_all add: nat_chunk)
  then have "unat ((s + of_nat j) div 64) = unat (s div 64)"
    and mod: "unat ((s + of_nat j) mod 64) = unat (s mod 64) + j"
    by (simp_all only: unat_div_distrib unat_mod_distrib u unat_numeral_64)
  then have "(s + of_nat j) div 64 = s div 64" by (simp only: word_unat_eq_iff)
  with assms(1) have "alf (s + of_nat j) = alf s" unfolding chunked_def by blast
  with mod show ?thesis by (simp only: blk_flag_def)
qed

definition op_flag :: "int \<Rightarrow> bool" where
  "op_flag op \<longleftrightarrow> op = DMS_OP_OVERWRITE"

lemma next_index_op:
  assumes "op = DMS_OP_WRITE \<or> op = DMS_OP_OVERWRITE"
  shows "(if op = DMS_OP_WRITE then find_next_bit w st
          else if op = DMS_OP_OVERWRITE then find_next_zero_bit w st else 0)
       = find_next_where (\<lambda>i. bit w i \<noteq> op_flag op) st"
  using assms by (auto simp: find_next_bit_def find_next_zero_bit_def op_flag_def op_defs)

text \<open>The word arithmetic of one round, when nothing wraps.\<close>

lemma range_index_no_wrap:
  assumes "st < 64" and "0 < n" and "n < 2 ^ 31 - 64"
  shows "c_int (uint (of_nat st + of_nat n - 1 :: u64)) = int st + int n - 1"
proof -
  have "of_nat st + of_nat n - 1 = (of_nat (st + n - 1) :: u64)"
    using assms(2) by (simp add: of_nat_diff)
  moreover have "uint (of_nat (st + n - 1) :: u64) = int (st + n - 1)"
    using assms by (intro uint_of_nat64) simp
  ultimately show ?thesis using assms by (simp add: c_int_id of_nat_diff)
qed

lemma nr_gt_len:
  assumes "k \<le> n" and "n < 2 ^ 31"
  shows "(of_nat n :: u64) > of_nat k \<longleftrightarrow> k < n"
  using assms by (simp add: word_less_nat_alt unat_of_nat take_bit_nat_eq_self)

lemma nr_minus_len: "k \<le> n \<Longrightarrow> (of_nat n :: u64) - of_nat k = of_nat (n - k)"
  by (simp add: of_nat_diff)

text \<open>One round, with the numbers as naturals.\<close>

lemma Get_Continuous_Range_step:
  assumes op: "op = DMS_OP_WRITE \<or> op = DMS_OP_OVERWRITE" and n: "0 < n" "n < 2 ^ 31 - 64"
    and st: "st = unat (s mod 64)" and N: "N = find_next_where (\<lambda>i. bit (alf s) i \<noteq> op_flag op) st"
    and k: "k = min N (st + n) - st"
  shows "Get_Continuous_Range alf op s (of_nat n) =
    (if k < n \<and> N = 64
     then do { rest \<leftarrow> Get_Continuous_Range alf op (s + of_nat k) (of_nat (n - k));
               Some (c_int (int k + rest)) }
     else Some (int k))"
proof -
  have st64: "st < 64" unfolding st by (simp add: unat_mod_distrib)
  from find_next_where_spec(1,2) [OF st64 N] have "st \<le> N" "N \<le> 64" .
  then have len: "(if int N - 1 > int st + int n - 1 then int st + int n - 1 else int N - 1) - int st + 1 = int k"
    by (auto simp: k)
  have kn: "k \<le> n" by (simp add: k)
  have conds: "(of_nat n > (of_nat k :: u64)) = (k < n)"
    using nr_gt_len [OF kn] n(2) by simp
  show ?thesis
    by (subst Get_Continuous_Range.simps)
      (simp only: Let_def next_index_op [OF op] range_index_no_wrap [OF st64 n] len conds
        nr_minus_len [OF kn] of_int_of_nat_eq BITS_PER_LONG_def st [symmetric] N [symmetric])
qed

text \<open>A range is the run of its operation's flag.\<close>

lemma Get_Continuous_Range_run:
  assumes "chunked alf" and "op = DMS_OP_WRITE \<or> op = DMS_OP_OVERWRITE"
    and "0 < n" and "n < 2 ^ 31 - 64" and "unat s + n \<le> 2 ^ 64"
  shows "Get_Continuous_Range alf op s (of_nat n) = Some (int (flag_run alf (op_flag op) s n))"
  using assms(3-5)
proof (induction n arbitrary: s rule: less_induct)
  case (less n s)
  define st where "st = unat (s mod 64)"
  define N where "N = find_next_where (\<lambda>i. bit (alf s) i \<noteq> op_flag op) st"
  define k where "k = min N (st + n) - st"
  let ?run = "flag_run alf (op_flag op)"
  have st: "st < 64" unfolding st_def by (simp add: unat_mod_distrib)
  note nx = find_next_where_spec [OF st N_def]
  note step = Get_Continuous_Range_step [where alf = alf, OF assms(2) less.prems(1,2) st_def N_def k_def]
  have flag: "blk_flag alf (s + of_nat j) = bit (alf s) (st + j)" if "j < n" "st + j < 64" for j
    using blk_flag_in_chunk [OF assms(1), of s j] that less.prems(3) by (simp add: st_def)
  have hit: "blk_flag alf (s + of_nat j) = op_flag op" if "j < k" for j
    using that nx(2) nx(3) [of "st + j"] flag [of j] by (auto simp: k_def)
  show ?case
  proof (cases "k < n \<and> N = 64")
    case False
    have "blk_flag alf (s + of_nat k) \<noteq> op_flag op" if "k < n"
      using that False nx(1,2,4) flag [of k] by (auto simp: k_def min_def split: if_splits)
    then have "?run s n = k" unfolding flag_run_def
      using hit by (intro takeWhile_len) (auto simp: k_def)
    with False step show ?thesis by auto
  next
    case True
    have k: "0 < k" "k < n" using True st by (auto simp: k_def)
    have us: "unat (s + of_nat k) = unat s + k"
      using k less.prems(3) by (intro unat_plus_nat) simp
    have IH: "Get_Continuous_Range alf op (s + of_nat k) (of_nat (n - k)) =
        Some (int (?run (s + of_nat k) (n - k)))"
      using k us less.prems by (intro less.IH) auto
    have run: "?run s n = k + ?run (s + of_nat k) (n - k)"
      unfolding flag_run_def [of _ _ s]
    proof (rule takeWhile_len)
      note b = flag_run_bounds [where alf = alf and f = "op_flag op" and s = "s + of_nat k" and n = "n - k"]
      show "k + ?run (s + of_nat k) (n - k) \<le> n" using b(1) k by simp
      show "blk_flag alf (s + of_nat j) = op_flag op" if "j < k + ?run (s + of_nat k) (n - k)" for j
      proof (cases "j < k")
        case False
        with that b(2) [where j = "j - k"] show ?thesis by (simp add: add.assoc flip: of_nat_add)
      qed (rule hit)
      show "blk_flag alf (s + of_nat (k + ?run (s + of_nat k) (n - k))) \<noteq> op_flag op"
        if "k + ?run (s + of_nat k) (n - k) < n"
        using that b(3) by (simp add: add.assoc)
    qed
    have "c_int (int k + int (?run (s + of_nat k) (n - k))) = int (?run s n)"
      using flag_run_bounds(1) [of alf "op_flag op" s n] less.prems(2) run by (simp add: c_int_id)
    with True step IH show ?thesis by simp
  qed
qed

end
