(* ===== verification/DIO.thy ===== *)
theory DIO
  imports DList LB_List DIO_Range
begin

text \<open>
  From a block-layer request to DMS I/Os: \<open>DriverCore/IO_Request.c\<close> and
  \<open>DriverCore/DIO.c\<close>, with \<open>DMS_End_Request_Handler\<close> of \<open>DMS_VDDriver.c\<close>.

  Objects live in maps from addresses; \<open>s_next\<close> supplies fresh addresses for the
  mempool allocations (which wait and do not fail), and an access to an address
  that is not mapped is a fault (\<open>None\<close>).  \<open>mem\<close> is what the memory of a newly
  allocated block list holds.  \<open>end_first kreq result nsectors\<close> is the answer of
  the block layer's \<open>end_that_request_first\<close>, 0 when nothing of the request
  remains; \<open>s_ended\<close> logs the requests that \<open>end_that_request_last\<close> gave back.
\<close>

section \<open>State\<close>

record dms_io =
  d_did :: u64
  d_volume :: nat
  d_io_req :: nat
  d_sLBID :: u64
  d_nr_LBIDs :: u64
  d_op :: int
  d_LB_list :: "lb_list option"
  d_state :: int
  d_retry_count :: int
  d_result :: int
  d_magic :: u32

record io_request =
  r_rid :: u64
  r_kreq :: nat
  r_diolist :: "nat dlist"     \<comment> \<open>the user data are the addresses of the DIOs\<close>
  r_result :: int
  r_ref_cnt :: int

record bio =
  b_sector :: u64              \<comment> \<open>\<open>bi_sector\<close>\<close>
  b_vcnt :: nat                \<comment> \<open>number of segments, one block each\<close>

record krequest =
  k_dir :: int                 \<comment> \<open>\<open>rq_data_dir\<close>\<close>
  k_sector :: u64
  k_nr_sectors :: u64
  k_bios :: "bio list"
  k_special :: "nat option"    \<comment> \<open>\<open>special\<close>: the I/O request, or NULL\<close>
  k_volume :: nat              \<comment> \<open>\<open>rq_disk->private_data\<close>\<close>

record io_st =
  s_next :: nat
  s_dio_id_gen :: u64
  s_ior_id_gen :: u64
  s_dios :: "nat \<rightharpoonup> dms_io"
  s_iors :: "nat \<rightharpoonup> io_request"
  s_kreqs :: "nat \<rightharpoonup> krequest"
  s_ended :: "(nat \<times> int) list"

definition DIO_MAGIC :: u32 where "DIO_MAGIC = 0xd10a116e"
definition DIO_INIT :: int where "DIO_INIT = 1"

definition alloc :: "io_st \<Rightarrow> nat \<times> io_st" where
  "alloc st = (s_next st, st\<lparr>s_next := s_next st + 1\<rparr>)"

definition Get_DMS_Volume_from_KRequest :: "krequest \<Rightarrow> nat" where
  "Get_DMS_Volume_from_KRequest kreq = k_volume kreq"

section \<open>DIO objects\<close>

definition Init_DIO :: "nat \<Rightarrow> int \<Rightarrow> io_st \<Rightarrow> (dms_io \<times> io_st) option" where
  "Init_DIO ior op st = do {
     r \<leftarrow> s_iors st ior;
     kreq \<leftarrow> s_kreqs st (r_kreq r);
     let did = s_dio_id_gen st + 1;
     Some (\<lparr>d_did = did, d_volume = Get_DMS_Volume_from_KRequest kreq, d_io_req = ior,
            d_sLBID = 0, d_nr_LBIDs = 0, d_op = op, d_LB_list = None, d_state = 0,
            d_retry_count = 1, d_result = 1, d_magic = DIO_MAGIC\<rparr>,
           st\<lparr>s_dio_id_gen := did\<rparr>)
   }"

definition Create_DIO :: "nat \<Rightarrow> int \<Rightarrow> io_st \<Rightarrow> (nat \<times> io_st) option" where
  "Create_DIO ior op st =
     (case alloc st of (dio, st) \<Rightarrow> do {
        (d, st) \<leftarrow> Init_DIO ior op st;
        Some (dio, st\<lparr>s_dios := (s_dios st)(dio \<mapsto> d)\<rparr>)
      })"

text \<open>Releasing a DIO frees its block list and the DIO.\<close>

definition Release_DIO :: "nat \<Rightarrow> io_st \<Rightarrow> io_st option" where
  "Release_DIO dio st =
     (case s_dios st dio of
        None \<Rightarrow> None
      | Some d \<Rightarrow> Some (st\<lparr>s_dios := (s_dios st)(dio := None)\<rparr>))"

section \<open>I/O requests\<close>

definition Init_IO_Request :: "nat \<Rightarrow> io_st \<Rightarrow> (io_request \<times> io_st) option" where
  "Init_IO_Request kreq st = do {
     let rid = s_ior_id_gen st + 1;
     dl \<leftarrow> Create_DList;
     Some (\<lparr>r_rid = rid, r_kreq = kreq, r_diolist = dl, r_result = 1, r_ref_cnt = 0\<rparr>,
           st\<lparr>s_ior_id_gen := rid\<rparr>)
   }"

definition Create_IO_Request :: "nat \<Rightarrow> io_st \<Rightarrow> (nat \<times> io_st) option" where
  "Create_IO_Request kreq st =
     (case alloc st of (ior, st) \<Rightarrow> do {
        (r, st) \<leftarrow> Init_IO_Request kreq st;
        Some (ior, st\<lparr>s_iors := (s_iors st)(ior \<mapsto> r)\<rparr>)
      })"

fun release_dios :: "nat list \<Rightarrow> io_st \<Rightarrow> io_st option" where
  "release_dios [] st = Some st"
| "release_dios (dio # ds) st = do { st \<leftarrow> Release_DIO dio st; release_dios ds st }"

definition Release_IO_Request :: "nat \<Rightarrow> io_st \<Rightarrow> io_st option" where
  "Release_IO_Request ior st = do {
     r \<leftarrow> s_iors st ior;
     let (ds, _) = Release_DList_and_User_Data (r_diolist r);
     st \<leftarrow> release_dios ds st;
     Some (st\<lparr>s_iors := (s_iors st)(ior := None)\<rparr>)
   }"

text \<open>A NULL \<open>ior\<close> is refused, but the debug print that follows reads
  \<open>ior->rid\<close>: a fault in the debug build.  The result is always \<open>-DMS_FAIL\<close>.\<close>

definition Add_IO_Reqeust_to_KRequest :: "nat \<Rightarrow> nat option \<Rightarrow> io_st \<Rightarrow> (int \<times> io_st) option" where
  "Add_IO_Reqeust_to_KRequest kreq ior st =
     (case ior of
        None \<Rightarrow> None
      | Some i \<Rightarrow> do {
          k \<leftarrow> s_kreqs st kreq;
          r \<leftarrow> s_iors st i;
          Some (- DMS_FAIL, st\<lparr>s_kreqs := (s_kreqs st)(kreq \<mapsto> k\<lparr>k_special := Some i\<rparr>)\<rparr>)
        })"

definition Add_DIO_to_IO_Reqeust :: "nat \<Rightarrow> nat \<Rightarrow> io_st \<Rightarrow> (int \<times> io_st) option" where
  "Add_DIO_to_IO_Reqeust ior dio st =
     (case alloc st of (node, st) \<Rightarrow> do {
        r \<leftarrow> s_iors st ior;
        d \<leftarrow> s_dios st dio;
        let (retcode, dl) = Insert_User_Data_to_DList_Tail node (r_diolist r) dio;
        let r = r\<lparr>r_diolist := dl\<rparr>;
        let r = (if retcode = DMS_OK then r\<lparr>r_ref_cnt := r_ref_cnt r + 1\<rparr> else r);
        Some (retcode, st\<lparr>s_iors := (s_iors st)(ior \<mapsto> r)\<rparr>)
      })"

definition Remove_DIO_from_IO_Reqeust ::
    "nat \<Rightarrow> nat \<Rightarrow> io_st \<Rightarrow> (nat option \<times> bool \<times> io_st) option" where
  "Remove_DIO_from_IO_Reqeust ior dio st = do {
     r \<leftarrow> s_iors st ior;
     let (m, empty_now, dl) = Remove_from_DList_by_User_Data (r_diolist r) dio;
     Some (m, empty_now, st\<lparr>s_iors := (s_iors st)(ior \<mapsto> r\<lparr>r_diolist := dl\<rparr>)\<rparr>)
   }"

definition Remove_and_Release_DIO_from_IO_Reqeust ::
    "nat \<Rightarrow> nat \<Rightarrow> io_st \<Rightarrow> (int \<times> io_st) option" where
  "Remove_and_Release_DIO_from_IO_Reqeust ior dio st = do {
     (m, empty_now, st) \<leftarrow> Remove_DIO_from_IO_Reqeust ior dio st;
     case m of
       None \<Rightarrow> Some (- DMS_FAIL, st)
     | Some d \<Rightarrow> do { st \<leftarrow> Release_DIO d st; Some (of_bool empty_now, st) }
   }"

definition Reset_IO_Request_Iterator :: "nat option \<Rightarrow> io_st \<Rightarrow> (int \<times> io_st) option" where
  "Reset_IO_Request_Iterator ior st =
     (case ior of
        None \<Rightarrow> Some (- DMS_FAIL, st)
      | Some i \<Rightarrow> do {
          r \<leftarrow> s_iors st i;
          let (retcode, dl) = Reset_DList_Iterator (r_diolist r);
          Some (retcode, st\<lparr>s_iors := (s_iors st)(i \<mapsto> r\<lparr>r_diolist := dl\<rparr>)\<rparr>)
        })"

definition Get_Next_DIO_from_IO_Request :: "nat option \<Rightarrow> io_st \<Rightarrow> (nat option \<times> io_st) option" where
  "Get_Next_DIO_from_IO_Request ior st =
     (case ior of
        None \<Rightarrow> Some (None, st)
      | Some i \<Rightarrow> do {
          r \<leftarrow> s_iors st i;
          (dio, dl) \<leftarrow> Get_Next_User_Data (r_diolist r);
          Some (dio, st\<lparr>s_iors := (s_iors st)(i \<mapsto> r\<lparr>r_diolist := dl\<rparr>)\<rparr>)
        })"

section \<open>Ending a request\<close>

text \<open>A request with a NULL \<open>special\<close> is refused; an answer other than 0 of the
  block layer leaves the request in flight.\<close>

definition DMS_End_Request_Handler ::
    "(nat \<Rightarrow> int \<Rightarrow> u64 \<Rightarrow> int) \<Rightarrow> nat \<Rightarrow> u64 \<Rightarrow> int \<Rightarrow> io_st \<Rightarrow> (int \<times> io_st) option" where
  "DMS_End_Request_Handler end_first kreq nsectors result st = do {
     k \<leftarrow> s_kreqs st kreq;
     case k_special k of
       None \<Rightarrow> Some (- DMS_FAIL, st)
     | Some i \<Rightarrow> do {
         r \<leftarrow> s_iors st i;
         let retcode = end_first kreq result nsectors;
         Some (retcode,
           if retcode = 0
           then st\<lparr>s_kreqs := (s_kreqs st)(kreq \<mapsto> k\<lparr>k_special := None\<rparr>),
                   s_ended := s_ended st @ [(kreq, result)]\<rparr>
           else st)
       }
   }"

section \<open>The blocks of a request\<close>

text \<open>One descriptor per segment of each bio; a descriptor whose LBID is already in
  the list is not linked (the result of the insertion is ignored).\<close>

definition add_segment :: "nat \<Rightarrow> u64 \<Rightarrow> nat \<Rightarrow> lb_list \<times> io_st \<Rightarrow> lb_list \<times> io_st" where
  "add_segment bio bi_sLBID j =
     (\<lambda>(l, st). case alloc st of (a, st) \<Rightarrow>
        (let m = (snd (Create_LogicalBlock_MetaData a))
               \<lparr>lb_LBID := bi_sLBID + of_nat j, lb_bio := Some bio, lb_vec_idx := of_nat j\<rparr>
         in (snd (Add_to_LogicalBlock_List_by_Insertion_Sort l (a, m)), st)))"

definition add_bio :: "nat \<times> bio \<Rightarrow> lb_list \<times> io_st \<Rightarrow> lb_list \<times> io_st" where
  "add_bio = (\<lambda>(i, b). fold (add_segment i (KSECTORS_TO_DSECTORS (b_sector b))) [0..<b_vcnt b])"

definition Generate_All_LogicalBlocks :: "lb_list \<Rightarrow> krequest \<Rightarrow> io_st \<Rightarrow> (lb_list \<times> io_st) option" where
  "Generate_All_LogicalBlocks mem kreq st = do {
     l \<leftarrow> Create_LogicalBlock_List mem;
     Some (fold add_bio (enumerate 0 (k_bios kreq)) (l, st))
   }"

section \<open>Cutting a list\<close>

text \<open>\<open>move_loop r len pre ns\<close>: the walk with \<open>retcode = r\<close> past the nodes \<open>pre\<close>.
  Results: the final \<open>retcode\<close>, the nodes of the original list, of the new one.\<close>

fun move_loop :: "int \<Rightarrow> int \<Rightarrow> 'a list \<Rightarrow> 'a list \<Rightarrow> int \<times> 'a list \<times> 'a list" where
  "move_loop r len pre [] = (r, pre, [])"
| "move_loop r len pre (cur # ns) =
     (if r + 1 = len then (r + 1, ns, pre @ [cur]) else move_loop (r + 1) len (pre @ [cur]) ns)"

definition Move_Sub_List :: "'a list \<Rightarrow> int \<Rightarrow> int \<times> 'a list \<times> 'a list" where
  "Move_Sub_List ns len = move_loop 0 len [] ns"

text \<open>The sub list (NULL when the list is too short) and the rest of the list.\<close>

definition Get_Next_DIO_Request_LB_List :: "lb_list \<Rightarrow> lb_list \<Rightarrow> int \<Rightarrow> (lb_list option \<times> lb_list) option" where
  "Get_Next_DIO_Request_LB_List mem l len = do {
     sub \<leftarrow> Create_LogicalBlock_List mem;
     let (retcode, orig, new) = Move_Sub_List (lb_nodes l) len;
     Some (if retcode \<noteq> len then None else Some (sub\<lparr>lb_nodes := new\<rparr>), l\<lparr>lb_nodes := orig\<rparr>)
   }"

section \<open>Making the DIOs of a request\<close>

text \<open>The variables of the loop of \<open>__Make_DIO_Requst\<close>.\<close>

record mk =
  m_sLBID :: u64
  m_nr :: u64
  m_op :: int
  m_lbs :: "lb_list option"
  m_st :: io_st

text \<open>The block list of the DIO that is being made, and what is left: the whole list
  when the range is all that remains, a cut of it otherwise.\<close>

definition take_lbs :: "lb_list \<Rightarrow> int \<Rightarrow> u64 \<Rightarrow> lb_list option \<Rightarrow> (lb_list option \<times> lb_list option) option" where
  "take_lbs mem len nr lbs =
     (if word_of_int len = nr then Some (lbs, None)
      else do {
        l \<leftarrow> lbs;
        (sub, l) \<leftarrow> Get_Next_DIO_Request_LB_List mem l len;
        Some (sub, Some l)
      })"

definition put_dio :: "nat \<Rightarrow> (dms_io \<Rightarrow> dms_io) \<Rightarrow> io_st \<Rightarrow> io_st option" where
  "put_dio dio f st = do { d \<leftarrow> s_dios st dio; Some (st\<lparr>s_dios := (s_dios st)(dio \<mapsto> f d)\<rparr>) }"

text \<open>One round; \<open>False\<close> is the jump to \<open>CREATE_DIO_FAIL\<close>.\<close>

definition make_step ::
    "(u64 \<Rightarrow> u64) \<Rightarrow> (nat \<Rightarrow> u64) \<Rightarrow> lb_list \<Rightarrow> nat \<Rightarrow> mk \<Rightarrow> (bool \<times> mk) option" where
  "make_step alf sh1 mem ior v = do {
     (dio, st) \<leftarrow> Create_DIO ior (m_op v) (m_st v);
     if m_op v \<noteq> 0 then do {
       (op, len) \<leftarrow> Get_Allocation_Range alf sh1 (m_sLBID v) (m_nr v);
       (sub, rest) \<leftarrow> take_lbs mem len (m_nr v) (m_lbs v);
       st \<leftarrow> put_dio dio (\<lambda>d. d\<lparr>d_op := op, d_LB_list := sub\<rparr>) st;
       case sub of
         None \<Rightarrow> Some (False, v\<lparr>m_op := op, m_lbs := rest, m_st := st\<rparr>)
       | Some _ \<Rightarrow> do {
           st \<leftarrow> put_dio dio (\<lambda>d. d\<lparr>d_sLBID := m_sLBID v, d_nr_LBIDs := word_of_int len,
                                    d_state := DIO_INIT\<rparr>) st;
           (_, st) \<leftarrow> Add_DIO_to_IO_Reqeust ior dio st;
           Some (True, \<lparr>m_sLBID = m_sLBID v + word_of_int len, m_nr = m_nr v - word_of_int len,
                        m_op = op, m_lbs = rest, m_st = st\<rparr>)
         }
     } else do {
       st \<leftarrow> put_dio dio (\<lambda>d. d\<lparr>d_LB_list := m_lbs v, d_sLBID := m_sLBID v, d_nr_LBIDs := m_nr v,
                                d_state := DIO_INIT\<rparr>) st;
       (_, st) \<leftarrow> Add_DIO_to_IO_Reqeust ior dio st;
       Some (True, v\<lparr>m_nr := 0, m_st := st\<rparr>)
     }
   }"

partial_function (option) make_loop ::
    "(u64 \<Rightarrow> u64) \<Rightarrow> (nat \<Rightarrow> u64) \<Rightarrow> lb_list \<Rightarrow> nat \<Rightarrow> mk \<Rightarrow> (bool \<times> mk) option" where
  "make_loop alf sh1 mem ior v =
     (if m_nr v = 0 then Some (True, v)
      else do {
        r \<leftarrow> make_step alf sh1 mem ior v;
        if fst r then make_loop alf sh1 mem ior (snd r) else Some r
      })"

text \<open>The whole function: the I/O request, or NULL after a failure.  On the failure
  path \<open>kreq->special\<close> has not been set yet.\<close>

definition Make_DIO_Requst ::
    "(u64 \<Rightarrow> u64) \<Rightarrow> (nat \<Rightarrow> u64) \<Rightarrow> lb_list \<Rightarrow> (nat \<Rightarrow> int \<Rightarrow> u64 \<Rightarrow> int) \<Rightarrow> nat \<Rightarrow> io_st
      \<Rightarrow> (nat option \<times> io_st) option" where
  "Make_DIO_Requst alf sh1 mem end_first kreq st = do {
     k \<leftarrow> s_kreqs st kreq;
     (ior, st) \<leftarrow> Create_IO_Request kreq st;
     (lbs, st) \<leftarrow> Generate_All_LogicalBlocks mem k st;
     (ok, v) \<leftarrow> make_loop alf sh1 mem ior
        \<lparr>m_sLBID = KSECTORS_TO_DSECTORS (k_sector k), m_nr = KSECTORS_TO_DSECTORS (k_nr_sectors k),
         m_op = k_dir k, m_lbs = Some lbs, m_st = st\<rparr>;
     if ok then Some (Some ior, m_st v)
     else do {
       st \<leftarrow> Release_IO_Request ior (m_st v);
       (_, st) \<leftarrow> DMS_End_Request_Handler end_first kreq (k_nr_sectors k) 0 st;
       Some (None, st)
     }
   }"

text \<open>\<open>__VolumeIO_Handler\<close> of \<open>Driver_Core.c\<close>: make the DIOs, attach them to the
  request, and walk over them (the handling of each is compiled out).\<close>

definition VolumeIO_Handler ::
    "(u64 \<Rightarrow> u64) \<Rightarrow> (nat \<Rightarrow> u64) \<Rightarrow> lb_list \<Rightarrow> (nat \<Rightarrow> int \<Rightarrow> u64 \<Rightarrow> int) \<Rightarrow> nat \<Rightarrow> nat \<Rightarrow> io_st
      \<Rightarrow> (int \<times> nat list \<times> io_st) option" where
  "VolumeIO_Handler alf sh1 mem end_first fuel kreq st = do {
     (ior, st) \<leftarrow> Make_DIO_Requst alf sh1 mem end_first kreq st;
     (_, st) \<leftarrow> Add_IO_Reqeust_to_KRequest kreq ior st;
     (_, st) \<leftarrow> Reset_IO_Request_Iterator ior st;
     (ds, st) \<leftarrow> drain fuel (Get_Next_DIO_from_IO_Request ior) st;
     Some (DMS_OK, ds, st)
   }"

section \<open>Well-formed states\<close>

text \<open>Every address in use is below the supply; the list of an I/O request is a
  well-formed DList of DIOs that exist and point back to it, and its request
  exists.\<close>

definition ior_wf :: "io_st \<Rightarrow> nat \<Rightarrow> io_request \<Rightarrow> bool" where
  "ior_wf st i r \<longleftrightarrow> i < s_next st \<and> dl_inv (r_diolist r) \<and> s_kreqs st (r_kreq r) \<noteq> None
     \<and> (\<forall>a \<in> set (addrs (dl_nodes (r_diolist r))). a < s_next st)
     \<and> (\<forall>dio \<in> set (dl_elems (r_diolist r)). \<exists>d. s_dios st dio = Some d \<and> d_io_req d = i)"

definition io_wf :: "io_st \<Rightarrow> bool" where
  "io_wf st \<longleftrightarrow> (\<forall>dio d. s_dios st dio = Some d \<longrightarrow> dio < s_next st)
     \<and> (\<forall>i r. s_iors st i = Some r \<longrightarrow> ior_wf st i r)"

lemma io_wf_ior: "io_wf st \<Longrightarrow> s_iors st i = Some r \<Longrightarrow> ior_wf st i r"
  by (simp add: io_wf_def)

lemma io_wf_dio: "io_wf st \<Longrightarrow> s_dios st dio = Some d \<Longrightarrow> dio < s_next st"
  by (simp add: io_wf_def)

text \<open>Creating a DIO.\<close>

definition new_dio :: "nat \<Rightarrow> krequest \<Rightarrow> int \<Rightarrow> io_st \<Rightarrow> dms_io" where
  "new_dio ior k op st = \<lparr>d_did = s_dio_id_gen st + 1, d_volume = k_volume k, d_io_req = ior,
     d_sLBID = 0, d_nr_LBIDs = 0, d_op = op, d_LB_list = None, d_state = 0,
     d_retry_count = 1, d_result = 1, d_magic = DIO_MAGIC\<rparr>"

lemma Create_DIO_eq:
  assumes "s_iors st ior = Some r" and "s_kreqs st (r_kreq r) = Some k"
  shows "Create_DIO ior op st = Some (s_next st,
    st\<lparr>s_next := s_next st + 1, s_dio_id_gen := s_dio_id_gen st + 1,
       s_dios := (s_dios st)(s_next st \<mapsto> new_dio ior k op st)\<rparr>)"
  using assms by (simp add: Create_DIO_def Init_DIO_def alloc_def new_dio_def Get_DMS_Volume_from_KRequest_def Let_def)

text \<open>Adding a DIO that is in no list to the request it points to.\<close>

lemma Add_DIO_spec:
  assumes wf: "io_wf st" and r: "s_iors st ior = Some r" and d: "s_dios st dio = Some d"
    and own: "d_io_req d = ior" and new: "dio \<notin> set (dl_elems (r_diolist r))"
  shows "\<exists>dl st'. Add_DIO_to_IO_Reqeust ior dio st = Some (DMS_OK, st') \<and> io_wf st'
    \<and> st' = st\<lparr>s_next := s_next st + 1,
        s_iors := (s_iors st)(ior \<mapsto> r\<lparr>r_diolist := dl, r_ref_cnt := r_ref_cnt r + 1\<rparr>)\<rparr>
    \<and> dl_elems dl = dl_elems (r_diolist r) @ [dio] \<and> dl_inv dl"
proof -
  from io_wf_ior [OF wf r] have rw: "dl_inv (r_diolist r)" "dl_fresh (s_next st) (r_diolist r)"
    by (auto simp: ior_wf_def dl_fresh_def)
  from dlw.insert_new [OF rw new] obtain dl where
    ins: "Insert_User_Data_to_DList_Tail (s_next st) (r_diolist r) dio = (DMS_OK, dl)"
    and dl: "dl_inv dl" "dl_elems dl = dl_elems (r_diolist r) @ [dio]" by blast
  have ad: "set (addrs (dl_nodes dl)) \<subseteq> insert (s_next st) (set (addrs (dl_nodes (r_diolist r))))"
    using ins by (auto simp: Insert_User_Data_to_DList_Tail_def Insert_User_Data_to_DList_def
        DL_ADD_HEAD_def DL_ADD_TAIL_def Create_DLNode_def ret_defs split: if_splits)
  let ?st = "st\<lparr>s_next := s_next st + 1,
        s_iors := (s_iors st)(ior \<mapsto> r\<lparr>r_diolist := dl, r_ref_cnt := r_ref_cnt r + 1\<rparr>)\<rparr>"
  have "io_wf ?st" unfolding io_wf_def
  proof (intro conjI allI impI)
    show "dio < s_next ?st" if "s_dios ?st dio = Some d" for dio d
      using that io_wf_dio [OF wf, of dio d] by simp
    show "ior_wf ?st i r'" if "s_iors ?st i = Some r'" for i r'
    proof (cases "i = ior")
      case True
      with that io_wf_ior [OF wf r] dl d own ad show ?thesis
        by (fastforce simp: ior_wf_def)
    next
      case False
      with that io_wf_ior [OF wf, of i r'] show ?thesis
        by (fastforce simp: ior_wf_def)
    qed
  qed
  moreover have "Add_DIO_to_IO_Reqeust ior dio st = Some (DMS_OK, ?st)"
    using r d ins by (simp add: Add_DIO_to_IO_Reqeust_def alloc_def Let_def)
  ultimately show ?thesis using dl by blast
qed

text \<open>Changing the fields of a DIO, or adding one, keeps the state well-formed.\<close>

lemma io_wf_put:
  assumes "io_wf st" and "\<And>d'. s_dios st dio = Some d' \<Longrightarrow> d_io_req d' = d_io_req d"
    and "dio < n" and "s_next st \<le> n"
  shows "io_wf (st\<lparr>s_next := n, s_dio_id_gen := g, s_dios := (s_dios st)(dio \<mapsto> d)\<rparr>)"
  unfolding io_wf_def
proof (intro conjI allI impI)
  let ?st = "st\<lparr>s_next := n, s_dio_id_gen := g, s_dios := (s_dios st)(dio \<mapsto> d)\<rparr>"
  show "a < s_next ?st" if "s_dios ?st a = Some d'" for a d'
    using that assms(3,4) io_wf_dio [OF assms(1), of a d'] by (auto split: if_splits)
  show "ior_wf ?st i r" if "s_iors ?st i = Some r" for i r
    using that io_wf_ior [OF assms(1), of i r] assms(2-4) by (fastforce simp: ior_wf_def)
qed

section \<open>Making one DIO of a write\<close>

lemma move_loop_eq: "0 < m \<Longrightarrow> m \<le> length ns \<Longrightarrow>
  move_loop r (r + int m) pre ns = (r + int m, drop m ns, pre @ take m ns)"
proof (induction ns arbitrary: r m pre)
  case (Cons n ns)
  then obtain m' where m: "m = Suc m'" by (cases m) auto
  show ?case
  proof (cases "m' = 0")
    case False
    with Cons.IH [of m' "r + 1" "pre @ [n]"] Cons.prems m show ?thesis by (simp add: add.assoc)
  qed (simp add: m)
qed simp

lemma Move_Sub_List_eq: "0 < m \<Longrightarrow> m \<le> length ns \<Longrightarrow>
  Move_Sub_List ns (int m) = (int m, drop m ns, take m ns)"
  using move_loop_eq [of m ns 0 "[]"] by (simp add: Move_Sub_List_def)

lemma take_lbs_eq:
  assumes "0 < k" "k \<le> n" "n < 2 ^ 31" "length (lb_nodes l) = n"
  shows "\<exists>sub. take_lbs mem (int k) (of_nat n) (Some l) =
    Some (Some sub, if k = n then None else Some (l\<lparr>lb_nodes := drop k (lb_nodes l)\<rparr>))
    \<and> lb_nodes sub = take k (lb_nodes l)"
proof -
  have "(of_nat k = (of_nat n :: u64)) = (k = n)"
    using assms(2,3) by (intro of_nat_eq64) simp_all
  then show ?thesis using assms Move_Sub_List_eq [of k "lb_nodes l"]
    by (auto simp: take_lbs_def Get_Next_DIO_Request_LB_List_def Create_LogicalBlock_List_def
        Init_LogicalBlock_List_def ret_defs)
qed

text \<open>What a DIO says of itself: first block, number of blocks, operation, blocks.\<close>

definition dio_view :: "dms_io \<Rightarrow> u64 \<times> u64 \<times> int \<times> u64 list option" where
  "dio_view d = (d_sLBID d, d_nr_LBIDs d, d_op d, map_option (\<lambda>l. lb_ids (lb_nodes l)) (d_LB_list d))"

text \<open>The effect of a successful round: DIO \<open>a\<close> is appended to the request.\<close>

definition dio_added :: "io_st \<Rightarrow> nat \<Rightarrow> io_request \<Rightarrow> nat \<Rightarrow> dms_io \<Rightarrow> io_st \<Rightarrow> io_request \<Rightarrow> bool" where
  "dio_added st ior r a d st' r' \<longleftrightarrow> io_wf st' \<and> s_dios st a = None \<and> d_result d = 1
     \<and> s_dios st' = (s_dios st)(a \<mapsto> d) \<and> s_iors st' = (s_iors st)(ior \<mapsto> r')
     \<and> s_kreqs st' = s_kreqs st \<and> s_ended st' = s_ended st
     \<and> dl_elems (r_diolist r') = dl_elems (r_diolist r) @ [a]
     \<and> r_kreq r' = r_kreq r \<and> r_result r' = r_result r \<and> r_rid r' = r_rid r"

lemma dio_round:
  assumes wf: "io_wf st" and r: "s_iors st ior = Some r" and k: "s_kreqs st (r_kreq r) = Some kq"
    and f: "d_io_req (f (new_dio ior kq op st)) = ior" "d_result (f (new_dio ior kq op st)) = 1"
  shows "\<exists>st1 st2 st' r'. Create_DIO ior op st = Some (s_next st, st1)
    \<and> put_dio (s_next st) f st1 = Some st2
    \<and> Add_DIO_to_IO_Reqeust ior (s_next st) st2 = Some (DMS_OK, st')
    \<and> dio_added st ior r (s_next st) (f (new_dio ior kq op st)) st' r'"
proof -
  let ?a = "s_next st" and ?d = "new_dio ior kq op st"
  let ?st1 = "st\<lparr>s_next := ?a + 1, s_dio_id_gen := s_dio_id_gen st + 1, s_dios := (s_dios st)(?a \<mapsto> ?d)\<rparr>"
  let ?st2 = "st\<lparr>s_next := ?a + 1, s_dio_id_gen := s_dio_id_gen st + 1, s_dios := (s_dios st)(?a \<mapsto> f ?d)\<rparr>"
  have fresh: "s_dios st ?a = None" using io_wf_dio [OF wf, of ?a] by (cases "s_dios st ?a") auto
  have wf2: "io_wf ?st2" using fresh by (intro io_wf_put [OF wf]) auto
  from io_wf_ior [OF wf r] fresh have new: "?a \<notin> set (dl_elems (r_diolist r))"
    by (auto simp: ior_wf_def)
  from Add_DIO_spec [OF wf2, of ior r ?a "f ?d"] r f new obtain dl st' where
    add: "Add_DIO_to_IO_Reqeust ior ?a ?st2 = Some (DMS_OK, st')" "io_wf st'"
    and st': "st' = ?st2\<lparr>s_next := s_next ?st2 + 1, s_iors := (s_iors ?st2)(ior \<mapsto> r\<lparr>r_diolist := dl, r_ref_cnt := r_ref_cnt r + 1\<rparr>)\<rparr>"
    and dl: "dl_elems dl = dl_elems (r_diolist r) @ [?a]" by auto
  have "dio_added st ior r ?a (f ?d) st' (r\<lparr>r_diolist := dl, r_ref_cnt := r_ref_cnt r + 1\<rparr>)"
    using add(2) fresh dl f(2) by (simp add: dio_added_def st')
  moreover have "put_dio ?a f ?st1 = Some ?st2" by (simp add: put_dio_def)
  ultimately show ?thesis using add(1) Create_DIO_eq [OF r k, of op] by blast
qed

lemma put_dio_comp:
  "put_dio a f st = Some st1 \<Longrightarrow> put_dio a g st1 = put_dio a (g \<circ> f) st"
  by (auto simp: put_dio_def split: Option.bind_splits)

lemma put_dio_ok: "put_dio a g st = Some st' \<Longrightarrow> \<exists>st1. put_dio a f st = Some st1"
  by (auto simp: put_dio_def split: Option.bind_splits)

lemma make_step_write:
  assumes wf: "io_wf (m_st v)" and r: "s_iors (m_st v) ior = Some r"
    and kq: "s_kreqs (m_st v) (r_kreq r) = Some kq" and op: "m_op v \<noteq> 0"
    and range: "Get_Allocation_Range alf sh1 (m_sLBID v) (m_nr v) = Some (op', int k)"
    and n: "m_nr v = of_nat n" "n < 2 ^ 31" and k: "0 < k" "k \<le> n"
    and l: "m_lbs v = Some l" "length (lb_nodes l) = n"
  shows "\<exists>st' r' d. make_step alf sh1 mem ior v = Some (True,
        \<lparr>m_sLBID = m_sLBID v + of_nat k, m_nr = of_nat (n - k), m_op = op',
         m_lbs = (if k = n then None else Some (l\<lparr>lb_nodes := drop k (lb_nodes l)\<rparr>)), m_st = st'\<rparr>)
    \<and> dio_added (m_st v) ior r (s_next (m_st v)) d st' r'
    \<and> dio_view d = (m_sLBID v, of_nat k, op', Some (take k (lb_ids (lb_nodes l))))"
proof -
  from take_lbs_eq [OF k n(2) l(2)] obtain sub where
    sub: "take_lbs mem (int k) (of_nat n) (Some l) =
      Some (Some sub, if k = n then None else Some (l\<lparr>lb_nodes := drop k (lb_nodes l)\<rparr>))"
    "lb_nodes sub = take k (lb_nodes l)" by blast
  define f where "f = (\<lambda>d :: dms_io. d\<lparr>d_op := op', d_LB_list := Some sub\<rparr>)"
  define g where "g = (\<lambda>d :: dms_io. d\<lparr>d_sLBID := m_sLBID v, d_nr_LBIDs := of_nat k, d_state := DIO_INIT\<rparr>)"
  have own: "d_io_req ((g \<circ> f) (new_dio ior kq (m_op v) (m_st v))) = ior"
    "d_result ((g \<circ> f) (new_dio ior kq (m_op v) (m_st v))) = 1"
    by (simp_all add: f_def g_def new_dio_def)
  from dio_round [where f = "g \<circ> f", OF wf r kq own] obtain st1 st2 st' r' where
    c: "Create_DIO ior (m_op v) (m_st v) = Some (s_next (m_st v), st1)"
    "put_dio (s_next (m_st v)) (g \<circ> f) st1 = Some st2"
    "Add_DIO_to_IO_Reqeust ior (s_next (m_st v)) st2 = Some (DMS_OK, st')"
    "dio_added (m_st v) ior r (s_next (m_st v)) ((g \<circ> f) (new_dio ior kq (m_op v) (m_st v))) st' r'"
    by blast
  from put_dio_ok [OF c(2), of f] obtain st1' where p: "put_dio (s_next (m_st v)) f st1 = Some st1'" ..
  with put_dio_comp [OF p, of g] c(2) have p2: "put_dio (s_next (m_st v)) g st1' = Some st2" by simp
  have "make_step alf sh1 mem ior v = Some (True,
        \<lparr>m_sLBID = m_sLBID v + of_nat k, m_nr = of_nat (n - k), m_op = op',
         m_lbs = (if k = n then None else Some (l\<lparr>lb_nodes := drop k (lb_nodes l)\<rparr>)), m_st = st'\<rparr>)"
    unfolding make_step_def using op
    by (simp only: c(1,3) p p2 sub(1) range [unfolded n(1)] n(1) l(1) nr_minus_len [OF k(2)] bind.bind_lunit
        case_prod_conv if_True not_False_eq_True option.case of_int_of_nat_eq f_def [symmetric] g_def [symmetric])
  moreover have "dio_view ((g \<circ> f) (new_dio ior kq (m_op v) (m_st v))) =
    (m_sLBID v, of_nat k, op', Some (take k (lb_ids (lb_nodes l))))"
    using sub(2) by (simp add: dio_view_def f_def g_def lb_ids_def take_map)
  ultimately show ?thesis using c(4) by blast
qed

section \<open>Making all DIOs of a write\<close>

lemma flag_run_pos: "0 < n \<Longrightarrow> 0 < flag_run alf (blk_flag alf s) s n"
  by (simp add: flag_run_def upt_conv_Cons)

text \<open>The reference: the maximal runs of equal flags, as first block and length.\<close>

function blk_runs :: "(u64 \<Rightarrow> u64) \<Rightarrow> u64 \<Rightarrow> nat \<Rightarrow> (u64 \<times> nat) list" where
  "blk_runs alf s n =
     (if n = 0 then []
      else (s, flag_run alf (blk_flag alf s) s n)
        # blk_runs alf (s + of_nat (flag_run alf (blk_flag alf s) s n)) (n - flag_run alf (blk_flag alf s) s n))"
  by pat_completeness auto
termination by (relation "measure (\<lambda>(_, _, n). n)") (auto simp: flag_run_pos)

declare blk_runs.simps [simp del]

definition flag_op :: "bool \<Rightarrow> int" where
  "flag_op f = (if f then DMS_OP_OVERWRITE else DMS_OP_WRITE)"

definition run_view :: "(u64 \<Rightarrow> u64) \<Rightarrow> u64 \<times> nat \<Rightarrow> u64 \<times> u64 \<times> int \<times> u64 list option" where
  "run_view alf = (\<lambda>(s, k). (s, of_nat k, flag_op (blk_flag alf s), Some (map (\<lambda>j. s + of_nat j) [0..<k])))"

text \<open>The test of a block's flag by the shifted bit says what the flag is.\<close>

definition shift_ok :: "(u64 \<Rightarrow> u64) \<Rightarrow> (nat \<Rightarrow> u64) \<Rightarrow> bool" where
  "shift_ok alf sh1 \<longleftrightarrow> (\<forall>b. (alf b AND sh1 (unat (b mod 64)) \<noteq> 0) = blk_flag alf b)"

lemma shift_ok_64: "shift_ok alf sh1_64"
  unfolding shift_ok_def sh1_64_def blk_flag_def
  by (simp add: bit_iff_and_push_bit_not_eq_0 push_bit_of_1)

lemma shift_ok_zero: "shift_ok (\<lambda>_. 0) sh1"
  by (simp add: shift_ok_def blk_flag_def)

lemma op_flag_flag_op [simp]: "op_flag (flag_op f) = f"
  by (simp add: op_flag_def flag_op_def op_defs)

lemma Get_Allocation_Range_run:
  assumes "chunked alf" and "shift_ok alf sh1"
    and "0 < n" and "n < 2 ^ 31 - 64" and "unat s + n \<le> 2 ^ 64"
  shows "Get_Allocation_Range alf sh1 s (of_nat n) =
    Some (flag_op (blk_flag alf s), int (flag_run alf (blk_flag alf s) s n))"
proof -
  have "flag_op (blk_flag alf s) = DMS_OP_WRITE \<or> flag_op (blk_flag alf s) = DMS_OP_OVERWRITE"
    by (simp add: flag_op_def)
  from Get_Continuous_Range_run [OF assms(1) this assms(3-5)]
  have "Get_Continuous_Range alf (flag_op (blk_flag alf s)) s (of_nat n) =
    Some (int (flag_run alf (blk_flag alf s) s n))" by simp
  moreover have "(if alf s AND sh1 (unat (s mod 64)) \<noteq> 0 then DMS_OP_OVERWRITE else DMS_OP_WRITE)
    = flag_op (blk_flag alf s)"
    using assms(2) by (simp add: shift_ok_def flag_op_def)
  ultimately show ?thesis by (simp add: Get_Allocation_Range_def Let_def)
qed

lemma drop_block_map: "drop k (map (\<lambda>j. s + of_nat j) [0..<n]) = map (\<lambda>j. (s :: u64) + of_nat k + of_nat j) [0..<n - k]"
proof (rule nth_equalityI)
  show "drop k (map (\<lambda>j. s + of_nat j) [0..<n]) ! i = map (\<lambda>j. s + of_nat k + of_nat j) [0..<n - k] ! i"
    if "i < length (drop k (map (\<lambda>j. s + of_nat j) [0..<n]))" for i
  proof -
    from that have "k + i < n" by simp
    with that show ?thesis by (simp add: add.assoc)
  qed
qed simp

lemma dio_addedD:
  assumes "dio_added st ior r a d st' r'"
  shows "io_wf st'" "s_iors st' = (s_iors st)(ior \<mapsto> r')" "s_kreqs st' = s_kreqs st"
    "s_ended st' = s_ended st" "dl_elems (r_diolist r') = dl_elems (r_diolist r) @ [a]"
    "r_kreq r' = r_kreq r" "r_result r' = r_result r" "s_dios st' a = Some d"
    "s_dios st b = Some e \<Longrightarrow> s_dios st' b = Some e" "s_dios st' = (s_dios st)(a \<mapsto> d)" "d_result d = 1"
  using assms by (auto simp: dio_added_def)

text \<open>What a loop does to the state: it appends the DIOs \<open>new\<close> to the request.\<close>

definition dios_added :: "io_st \<Rightarrow> nat \<Rightarrow> io_request \<Rightarrow> nat list \<Rightarrow> io_st \<Rightarrow> io_request \<Rightarrow> bool" where
  "dios_added st ior r new st' r' \<longleftrightarrow> io_wf st'
     \<and> s_iors st' = (s_iors st)(ior \<mapsto> r') \<and> s_kreqs st' = s_kreqs st \<and> s_ended st' = s_ended st
     \<and> dl_elems (r_diolist r') = dl_elems (r_diolist r) @ new
     \<and> r_kreq r' = r_kreq r \<and> r_result r' = r_result r
     \<and> (\<forall>b e. s_dios st b = Some e \<longrightarrow> s_dios st' b = Some e)
     \<and> (\<forall>a \<in> set new. \<exists>d. s_dios st' a = Some d \<and> d_result d = 1)"

lemma dios_added_step:
  assumes "dio_added st ior r a d st1 r1" and "dios_added st1 ior r1 new st' r'"
  shows "dios_added st ior r (a # new) st' r'" and "s_dios st' a = Some d"
  using assms(2) dio_addedD [OF assms(1)] by (auto simp: dios_added_def)

lemma make_loop_write:
  assumes alf: "chunked alf" "shift_ok alf sh1"
  shows "io_wf (m_st v) \<Longrightarrow> s_iors (m_st v) ior = Some r \<Longrightarrow> s_kreqs (m_st v) (r_kreq r) = Some kq \<Longrightarrow>
    m_op v \<noteq> 0 \<Longrightarrow> m_nr v = of_nat n \<Longrightarrow> n < 2 ^ 31 - 64 \<Longrightarrow> unat (m_sLBID v) + n \<le> 2 ^ 64 \<Longrightarrow>
    n = 0 \<or> (\<exists>l. m_lbs v = Some l \<and> lb_ids (lb_nodes l) = map (\<lambda>j. m_sLBID v + of_nat j) [0..<n]) \<Longrightarrow>
    \<exists>v' r' new. make_loop alf sh1 mem ior v = Some (True, v') \<and> dios_added (m_st v) ior r new (m_st v') r'
      \<and> map (\<lambda>a. map_option dio_view (s_dios (m_st v') a)) new
        = map (\<lambda>x. Some (run_view alf x)) (blk_runs alf (m_sLBID v) n)"
proof (induction n arbitrary: v r rule: less_induct)
  case (less n v r)
  show ?case
  proof (cases "n = 0")
    case True
    with less.prems show ?thesis
      by (intro exI [of _ v] exI [of _ r] exI [of _ "[]"])
        (auto simp: make_loop.simps [of _ _ _ _ v] blk_runs.simps dios_added_def)
  next
    case False
    let ?s = "m_sLBID v"
    define k where "k = flag_run alf (blk_flag alf ?s) ?s n"
    have k: "0 < k" "k \<le> n" using False flag_run_bounds(1) by (auto simp: k_def flag_run_pos)
    from less.prems(8) False obtain l where
      l: "m_lbs v = Some l" "lb_ids (lb_nodes l) = map (\<lambda>j. ?s + of_nat j) [0..<n]" by blast
    then have len: "length (lb_nodes l) = n" by (metis length_map length_upt diff_zero lb_ids_def)
    have range: "Get_Allocation_Range alf sh1 ?s (m_nr v) = Some (flag_op (blk_flag alf ?s), int k)"
      using Get_Allocation_Range_run [OF alf] False less.prems(5-7) by (simp add: k_def)
    have n31: "n < 2 ^ 31" using less.prems(6) by simp
    from make_step_write [OF less.prems(1-4) range less.prems(5) n31 k l(1) len, of mem]
    obtain st1 r1 d where step: "make_step alf sh1 mem ior v = Some (True,
        \<lparr>m_sLBID = ?s + of_nat k, m_nr = of_nat (n - k), m_op = flag_op (blk_flag alf ?s),
         m_lbs = (if k = n then None else Some (l\<lparr>lb_nodes := drop k (lb_nodes l)\<rparr>)), m_st = st1\<rparr>)"
      and add: "dio_added (m_st v) ior r (s_next (m_st v)) d st1 r1"
      and view: "dio_view d = (?s, of_nat k, flag_op (blk_flag alf ?s), Some (take k (lb_ids (lb_nodes l))))"
      by blast
    note ad = dio_addedD [OF add]
    define v1 where "v1 = \<lparr>m_sLBID = ?s + of_nat k, m_nr = of_nat (n - k), m_op = flag_op (blk_flag alf ?s),
         m_lbs = (if k = n then None else Some (l\<lparr>lb_nodes := drop k (lb_nodes l)\<rparr>)), m_st = st1\<rparr>"
    have rest: "n - k = 0 \<or> (\<exists>l. m_lbs v1 = Some l
        \<and> lb_ids (lb_nodes l) = map (\<lambda>j. m_sLBID v1 + of_nat j) [0..<n - k])"
    proof (cases "k = n")
      case False
      have "lb_ids (drop k (lb_nodes l)) = map (\<lambda>j. ?s + of_nat k + of_nat j) [0..<n - k]"
        using drop_block_map [of k ?s n] l(2)
        by (metis drop_map lb_ids_def)
      with False show ?thesis by (simp add: v1_def)
    qed simp
    have b: "k = n \<or> unat (?s + of_nat k) = unat ?s + k"
      using less.prems(7) k by (cases "k = n") (auto intro!: unat_plus_nat)
    have "unat (m_sLBID v1) + (n - k) \<le> 2 ^ 64"
      using b less.prems(7) k unat_less64 [of "m_sLBID v1"] by (auto simp: v1_def)
    moreover have "n - k < n" "io_wf (m_st v1)" "s_iors (m_st v1) ior = Some r1"
      "s_kreqs (m_st v1) (r_kreq r1) = Some kq" "m_nr v1 = of_nat (n - k)" "n - k < 2 ^ 31 - 64"
      using k ad less.prems(3,6) by (auto simp: v1_def)
    moreover have "m_op v1 \<noteq> 0" by (simp add: v1_def flag_op_def op_defs)
    ultimately have "\<exists>v' r' new. make_loop alf sh1 mem ior v1 = Some (True, v')
      \<and> dios_added (m_st v1) ior r1 new (m_st v') r'
      \<and> map (\<lambda>a. map_option dio_view (s_dios (m_st v') a)) new
        = map (\<lambda>x. Some (run_view alf x)) (blk_runs alf (m_sLBID v1) (n - k))"
      using rest by (intro less.IH)
    then obtain v' r' new where IH: "make_loop alf sh1 mem ior v1 = Some (True, v')"
      "dios_added st1 ior r1 new (m_st v') r'"
      "map (\<lambda>a. map_option dio_view (s_dios (m_st v') a)) new
        = map (\<lambda>x. Some (run_view alf x)) (blk_runs alf (?s + of_nat k) (n - k))"
      by (auto simp: v1_def)
    have "m_nr v \<noteq> 0" using less.prems(5,6) False of_nat_eq64 [of n 0] by simp
    then have "make_loop alf sh1 mem ior v = Some (True, v')"
      using step IH(1) by (subst make_loop.simps) (simp add: v1_def)
    moreover note dios_added_step [OF add IH(2)]
    moreover have "take k (lb_ids (lb_nodes l)) = map (\<lambda>j. ?s + of_nat j) [0..<k]"
      using l(2) k by (simp add: take_map)
    ultimately show ?thesis using IH(3) view False
      by (intro exI [of _ v'] exI [of _ r'] exI [of _ "s_next (m_st v) # new"])
        (simp add: blk_runs.simps [of alf ?s n] run_view_def flip: k_def)
  qed
qed

section \<open>The blocks a request generates\<close>

definition lbs_ok :: "lb_list \<times> io_st \<Rightarrow> bool" where
  "lbs_ok p \<longleftrightarrow> lb_wf (fst p) \<and> (\<forall>a \<in> set (addrs (lb_nodes (fst p))). a < s_next (snd p))"

text \<open>The states differ in the address supply only.\<close>

definition supply_step :: "io_st \<Rightarrow> io_st \<Rightarrow> bool" where
  "supply_step st st' \<longleftrightarrow> (\<exists>n \<ge> s_next st. st' = st\<lparr>s_next := n\<rparr>)"

lemma supply_stepI [intro]: "s_next st \<le> n \<Longrightarrow> supply_step st (st\<lparr>s_next := n\<rparr>)"
  unfolding supply_step_def by blast

lemma supply_stepE:
  assumes "supply_step st st'"
  obtains n where "s_next st \<le> n" "st' = st\<lparr>s_next := n\<rparr>"
  using assms unfolding supply_step_def by blast

lemma supply_step_refl [simp]: "supply_step st st"
  using supply_stepI [of st "s_next st"] by simp

lemma supply_step_trans: "supply_step st st1 \<Longrightarrow> supply_step st1 st2 \<Longrightarrow> supply_step st st2"
  by (elim supply_stepE) (simp add: supply_stepI)

definition blocks_of :: "bio \<Rightarrow> u64 list" where
  "blocks_of b = map (\<lambda>j. KSECTORS_TO_DSECTORS (b_sector b) + of_nat j) [0..<b_vcnt b]"

lemma add_segment_spec:
  assumes "lbs_ok (l, st)" and "add_segment i s j (l, st) = (l', st')"
  shows "lbs_ok (l', st') \<and> supply_step st st'
    \<and> set (lb_ids (lb_nodes l')) = insert (s + of_nat j) (set (lb_ids (lb_nodes l)))"
proof -
  define m where "m = (snd (Create_LogicalBlock_MetaData (s_next st)))
    \<lparr>lb_LBID := s + of_nat j, lb_bio := Some i, lb_vec_idx := of_nat j\<rparr>"
  have new: "s_next st \<notin> set (addrs (lb_nodes l))" using assms(1) by (auto simp: lbs_ok_def)
  have l': "l' = snd (Add_to_LogicalBlock_List_by_Insertion_Sort l (s_next st, m))"
    and st': "st' = st\<lparr>s_next := s_next st + 1\<rparr>"
    using assms(2) by (auto simp: add_segment_def alloc_def m_def Let_def)
  obtain r where add: "Add_to_LogicalBlock_List_by_Insertion_Sort l (s_next st, m) = (r, l')"
    using l' by (metis prod.collapse)
  have wf: "lb_wf l" using assms(1) by (simp add: lbs_ok_def)
  note sp = Add_spec [OF wf new add]
  have id: "lb_LBID m = s + of_nat j" by (simp add: m_def)
  have ids: "set (lb_ids ns) = (\<lambda>(_, m). lb_LBID m) ` set ns" for ns by (simp add: lb_ids_def)
  have "set (lb_ids (lb_nodes l')) = insert (s + of_nat j) (set (lb_ids (lb_nodes l)))"
    using sp(2,3) id by (auto simp: ids ret_defs split: if_splits)
  moreover have "set (addrs (lb_nodes l')) \<subseteq> insert (s_next st) (set (addrs (lb_nodes l)))"
    using sp(3) by (auto simp: addrs_def split: if_splits)
  then have "lbs_ok (l', st')" using sp(1) assms(1) st' by (fastforce simp: lbs_ok_def)
  moreover have "supply_step st st'" unfolding st' by (rule supply_stepI) simp
  ultimately show ?thesis by blast
qed

lemma add_segments_spec:
  "lbs_ok (l, st) \<Longrightarrow> fold (add_segment i s) js (l, st) = (l', st') \<Longrightarrow>
   lbs_ok (l', st') \<and> supply_step st st'
    \<and> set (lb_ids (lb_nodes l')) = (\<lambda>j. s + of_nat j) ` set js \<union> set (lb_ids (lb_nodes l))"
proof (induction js arbitrary: l st)
  case (Cons j js)
  obtain l1 st1 where 1: "add_segment i s j (l, st) = (l1, st1)" by (cases "add_segment i s j (l, st)")
  from add_segment_spec [OF Cons.prems(1) 1] Cons.IH [of l1 st1] Cons.prems(2) 1
  show ?case by (auto intro: supply_step_trans)
qed simp

lemma add_bios_spec:
  "lbs_ok (l, st) \<Longrightarrow> fold add_bio bs (l, st) = (l', st') \<Longrightarrow>
   lbs_ok (l', st') \<and> supply_step st st'
    \<and> set (lb_ids (lb_nodes l')) = (\<Union>b \<in> set bs. set (blocks_of (snd b))) \<union> set (lb_ids (lb_nodes l))"
proof (induction bs arbitrary: l st)
  case (Cons b bs)
  obtain l1 st1 where 1: "add_bio b (l, st) = (l1, st1)" by (cases "add_bio b (l, st)")
  from 1 add_segments_spec [OF Cons.prems(1), of "fst b" "KSECTORS_TO_DSECTORS (b_sector (snd b))" "[0..<b_vcnt (snd b)]" l1 st1]
  have "lbs_ok (l1, st1) \<and> supply_step st st1
    \<and> set (lb_ids (lb_nodes l1)) = set (blocks_of (snd b)) \<union> set (lb_ids (lb_nodes l))"
    by (simp add: add_bio_def blocks_of_def split_def)
  with Cons.IH [of l1 st1] Cons.prems(2) 1 show ?case by (auto intro: supply_step_trans)
qed simp

lemma Generate_spec:
  obtains l st' where "Generate_All_LogicalBlocks mem k st = Some (l, st')" "lb_wf l"
    "supply_step st st'" "lb_ids (lb_nodes l) = sorted_list_of_set (set (concat (map blocks_of (k_bios k))))"
proof -
  let ?l0 = "mem\<lparr>lb_nodes := []\<rparr>"
  obtain l st' where f: "fold add_bio (enumerate 0 (k_bios k)) (?l0, st) = (l, st')"
    by (cases "fold add_bio (enumerate 0 (k_bios k)) (?l0, st)")
  have "lbs_ok (?l0, st)" by (simp add: lbs_ok_def lb_wf_def)
  from add_bios_spec [OF this f] have sp: "lb_wf l" "supply_step st st'"
    "set (lb_ids (lb_nodes l)) = (\<Union>b \<in> set (enumerate 0 (k_bios k)). set (blocks_of (snd b)))"
    by (auto simp: lbs_ok_def)
  have "snd ` set (enumerate 0 (k_bios k)) = set (k_bios k)"
    by (metis map_snd_enumerate set_map)
  then have "set (lb_ids (lb_nodes l)) = set (concat (map blocks_of (k_bios k)))"
  proof -
    have "set (lb_ids (lb_nodes l)) = (\<Union>b \<in> snd ` set (enumerate 0 (k_bios k)). set (blocks_of b))"
      unfolding sp(3) by simp
    also assume "snd ` set (enumerate 0 (k_bios k)) = set (k_bios k)"
    finally show ?thesis by simp
  qed
  then have "lb_ids (lb_nodes l) = sorted_list_of_set (set (concat (map blocks_of (k_bios k))))"
    using sp(1) by (intro strict_sorted_equal [OF strict_sorted_list_of_set]) (simp_all add: lb_wf_def)
  moreover have "Generate_All_LogicalBlocks mem k st = Some (l, st')"
    using f by (simp add: Generate_All_LogicalBlocks_def Create_LogicalBlock_List_def
        Init_LogicalBlock_List_def ret_defs)
  ultimately show ?thesis using that sp by blast
qed

lemma io_wf_supply: "io_wf st \<Longrightarrow> supply_step st st' \<Longrightarrow> io_wf st'"
  by (elim supply_stepE) (fastforce simp: io_wf_def ior_wf_def)

text \<open>The blocks \<open>s, \<dots>, s + n - 1\<close>, as a set and as the sorted list.\<close>

lemma sorted_blocks:
  assumes "unat s + n \<le> 2 ^ 64" and "A = (\<lambda>j. (s :: u64) + of_nat j) ` {..<n}"
  shows "sorted_list_of_set A = map (\<lambda>j. s + of_nat j) [0..<n]"
proof (rule strict_sorted_equal [OF _ strict_sorted_list_of_set])
  have "sorted_wrt (\<lambda>i j. s + of_nat i < s + of_nat j) [0..<n]"
  proof (rule sorted_wrt_mono_rel [OF _ sorted_wrt_upt])
    fix i j assume "i \<in> set [0..<n]" "j \<in> set [0..<n]" "i < j"
    with assms(1) show "s + of_nat i < s + of_nat j"
      by (auto simp: word_less_nat_alt unat_plus_nat)
  qed
  then show "sorted_wrt (<) (map (\<lambda>j. s + of_nat j) [0..<n])" by (simp add: sorted_wrt_map)
  show "set (sorted_list_of_set A) = set (map (\<lambda>j. s + of_nat j) [0..<n])"
    using assms(2) by (simp add: atLeast0LessThan)
qed

text \<open>The bios of a request cover exactly its blocks.\<close>

definition request_covers :: "krequest \<Rightarrow> u64 \<Rightarrow> nat \<Rightarrow> bool" where
  "request_covers k s n \<longleftrightarrow> KSECTORS_TO_DSECTORS (k_sector k) = s
     \<and> KSECTORS_TO_DSECTORS (k_nr_sectors k) = of_nat n \<and> n < 2 ^ 31 - 64 \<and> unat s + n \<le> 2 ^ 64
     \<and> set (concat (map blocks_of (k_bios k))) = (\<lambda>j. s + of_nat j) ` {..<n}"

lemma Create_IO_Request_eq:
  assumes "io_wf st" and "s_kreqs st kreq = Some k"
  shows "\<exists>r. Create_IO_Request kreq st = Some (s_next st,
      st\<lparr>s_next := s_next st + 1, s_ior_id_gen := s_ior_id_gen st + 1, s_iors := (s_iors st)(s_next st \<mapsto> r)\<rparr>)
    \<and> io_wf (st\<lparr>s_next := s_next st + 1, s_ior_id_gen := s_ior_id_gen st + 1, s_iors := (s_iors st)(s_next st \<mapsto> r)\<rparr>)
    \<and> dl_elems (r_diolist r) = [] \<and> r_kreq r = kreq \<and> r_result r = 1"
proof -
  define dl where "dl = (\<lparr>dl_nodes = [], dl_next = None\<rparr> :: nat dlist)"
  then have dl': "dl_inv dl" "dl_nodes dl = []" by (auto simp: dl_inv_def)
  define r where "r = \<lparr>r_rid = s_ior_id_gen st + 1, r_kreq = kreq, r_diolist = dl, r_result = 1, r_ref_cnt = 0\<rparr>"
  let ?st = "st\<lparr>s_next := s_next st + 1, s_ior_id_gen := s_ior_id_gen st + 1, s_iors := (s_iors st)(s_next st \<mapsto> r)\<rparr>"
  have "io_wf ?st" unfolding io_wf_def
  proof (intro conjI allI impI)
    show "a < s_next ?st" if "s_dios ?st a = Some d'" for a d'
      using that io_wf_dio [OF assms(1), of a d'] by simp
    show "ior_wf ?st i r'" if "s_iors ?st i = Some r'" for i r'
    proof (cases "i = s_next st")
      case True
      with that dl' assms(2) show ?thesis by (auto simp: ior_wf_def r_def dl_elems_def)
    next
      case False
      with that io_wf_ior [OF assms(1), of i r'] show ?thesis by (fastforce simp: ior_wf_def)
    qed
  qed
  moreover have "Create_IO_Request kreq st = Some (s_next st, ?st)"
    by (simp add: Create_IO_Request_def Init_IO_Request_def alloc_def Create_DList_eq r_def dl_def Let_def)
  moreover have "dl_elems (r_diolist r) = []" "r_kreq r = kreq" "r_result r = 1"
    using dl'(2) by (simp_all add: r_def dl_elems_def)
  ultimately show ?thesis by blast
qed

text \<open>Reading a request before and after the descriptors were allocated.\<close>

lemma supply_step_sel:
  assumes "supply_step st st'"
  shows "s_iors st' = s_iors st" "s_kreqs st' = s_kreqs st" "s_dios st' = s_dios st" "s_ended st' = s_ended st"
  using assms by (auto elim: supply_stepE)

lemma Make_DIO_start:
  assumes wf: "io_wf st" and k: "s_kreqs st kreq = Some k" and cov: "request_covers k s n"
  shows "\<exists>r l st1 st2. Create_IO_Request kreq st = Some (s_next st, st1)
    \<and> Generate_All_LogicalBlocks mem k st1 = Some (l, st2) \<and> io_wf st2
    \<and> s_iors st2 = (s_iors st)(s_next st \<mapsto> r) \<and> s_kreqs st2 = s_kreqs st \<and> s_dios st2 = s_dios st
    \<and> s_ended st2 = s_ended st \<and> dl_elems (r_diolist r) = [] \<and> r_kreq r = kreq \<and> r_result r = 1
    \<and> lb_ids (lb_nodes l) = map (\<lambda>j. s + of_nat j) [0..<n]"
proof -
  from Create_IO_Request_eq [OF wf k] obtain r where
    c: "Create_IO_Request kreq st = Some (s_next st,
      st\<lparr>s_next := s_next st + 1, s_ior_id_gen := s_ior_id_gen st + 1, s_iors := (s_iors st)(s_next st \<mapsto> r)\<rparr>)"
    "io_wf (st\<lparr>s_next := s_next st + 1, s_ior_id_gen := s_ior_id_gen st + 1, s_iors := (s_iors st)(s_next st \<mapsto> r)\<rparr>)"
    and r: "dl_elems (r_diolist r) = []" "r_kreq r = kreq" "r_result r = 1" by blast
  let ?st1 = "st\<lparr>s_next := s_next st + 1, s_ior_id_gen := s_ior_id_gen st + 1, s_iors := (s_iors st)(s_next st \<mapsto> r)\<rparr>"
  obtain l st2 where g: "Generate_All_LogicalBlocks mem k ?st1 = Some (l, st2)" "supply_step ?st1 st2"
    "lb_ids (lb_nodes l) = sorted_list_of_set (set (concat (map blocks_of (k_bios k))))"
    using Generate_spec [of mem k ?st1] by blast
  have "lb_ids (lb_nodes l) = map (\<lambda>j. s + of_nat j) [0..<n]"
    using cov unfolding g(3) request_covers_def by (intro sorted_blocks) auto
  with c(1) g(1) io_wf_supply [OF c(2) g(2)] supply_step_sel [OF g(2)] r show ?thesis
    by (intro exI [of _ r] exI [of _ l] exI [of _ ?st1] exI [of _ st2]) simp
qed

lemma Make_DIO_write:
  assumes "chunked alf" and "shift_ok alf sh1" and "io_wf st"
    and "s_kreqs st kreq = Some k" and "k_dir k = DMS_OP_WRITE" and "request_covers k s n"
  shows "\<exists>ior st' r ds. Make_DIO_Requst alf sh1 mem end_first kreq st = Some (Some ior, st') \<and> io_wf st'
    \<and> s_iors st' = (s_iors st)(ior \<mapsto> r) \<and> r_kreq r = kreq \<and> r_result r = 1 \<and> dl_elems (r_diolist r) = ds
    \<and> map (\<lambda>a. map_option dio_view (s_dios st' a)) ds = map (\<lambda>x. Some (run_view alf x)) (blk_runs alf s n)
    \<and> (\<forall>b e. s_dios st b = Some e \<longrightarrow> s_dios st' b = Some e)
    \<and> s_kreqs st' = s_kreqs st \<and> s_ended st' = s_ended st
    \<and> (\<forall>a \<in> set ds. \<exists>d. s_dios st' a = Some d \<and> d_result d = 1) \<and> ior = s_next st"
proof -
  from Make_DIO_start [OF assms(3,4,6), of mem] obtain r l st1 st2 where
    c: "Create_IO_Request kreq st = Some (s_next st, st1)" "Generate_All_LogicalBlocks mem k st1 = Some (l, st2)"
    and st2: "io_wf st2" "s_iors st2 = (s_iors st)(s_next st \<mapsto> r)" "s_kreqs st2 = s_kreqs st"
      "s_dios st2 = s_dios st" "s_ended st2 = s_ended st"
    and r: "dl_elems (r_diolist r) = []" "r_kreq r = kreq" "r_result r = 1"
    and l: "lb_ids (lb_nodes l) = map (\<lambda>j. s + of_nat j) [0..<n]" by blast
  define v where "v = \<lparr>m_sLBID = KSECTORS_TO_DSECTORS (k_sector k), m_nr = KSECTORS_TO_DSECTORS (k_nr_sectors k),
         m_op = k_dir k, m_lbs = Some l, m_st = st2\<rparr>"
  from assms(6) have cov: "m_sLBID v = s" "m_nr v = of_nat n" "n < 2 ^ 31 - 64" "unat s + n \<le> 2 ^ 64"
    by (auto simp: request_covers_def v_def)
  have "\<exists>v' r' new. make_loop alf sh1 mem (s_next st) v = Some (True, v')
      \<and> dios_added (m_st v) (s_next st) r new (m_st v') r'
      \<and> map (\<lambda>a. map_option dio_view (s_dios (m_st v') a)) new
        = map (\<lambda>x. Some (run_view alf x)) (blk_runs alf (m_sLBID v) n)"
    using st2 r l cov assms(4,5) by (intro make_loop_write [OF assms(1,2)]) (auto simp: v_def op_defs)
  then obtain v' r' new where lp: "make_loop alf sh1 mem (s_next st) v = Some (True, v')"
    "dios_added (m_st v) (s_next st) r new (m_st v') r'"
    "map (\<lambda>a. map_option dio_view (s_dios (m_st v') a)) new = map (\<lambda>x. Some (run_view alf x)) (blk_runs alf s n)"
    using cov(1) by auto
  have "Make_DIO_Requst alf sh1 mem end_first kreq st = Some (Some (s_next st), m_st v')"
    using assms(4) c lp(1) by (simp add: Make_DIO_Requst_def flip: v_def)
  with lp(2,3) st2 r show ?thesis
    by (intro exI [of _ "s_next st"] exI [of _ "m_st v'"] exI [of _ r'] exI [of _ new])
      (auto simp: dios_added_def v_def)
qed

text \<open>The runs tile the blocks, have one flag each, and neighbours differ.\<close>

lemma blk_runs_concat:
  "concat (map (\<lambda>(t, k). map (\<lambda>j. t + of_nat j) [0..<k]) (blk_runs alf s n)) = map (\<lambda>j. s + of_nat j) [0..<n]"
proof (induction alf s n rule: blk_runs.induct)
  case (1 alf s n)
  let ?k = "flag_run alf (blk_flag alf s) s n"
  show ?case
  proof (cases "n = 0")
    case False
    have "take ?k (map (\<lambda>j. s + of_nat j) [0..<n]) = map (\<lambda>j. s + of_nat j) [0..<?k]"
      using flag_run_bounds(1) [of alf "blk_flag alf s" s n] by (simp add: take_map)
    with 1 [OF False] False drop_block_map [of ?k s n] show ?thesis
      by (subst blk_runs.simps) (simp, metis append_take_drop_id)
  qed (simp add: blk_runs.simps)
qed

lemma blk_runs_flag:
  "(t, k) \<in> set (blk_runs alf s n) \<Longrightarrow> j < k \<Longrightarrow> blk_flag alf (t + of_nat j) = blk_flag alf t"
proof (induction alf s n rule: blk_runs.induct)
  case (1 alf s n)
  show ?case
  proof (cases "n = 0")
    case False
    with 1 flag_run_bounds(2) [where alf = alf and f = "blk_flag alf s" and s = s and n = n and j = j]
    show ?thesis by (auto simp: blk_runs.simps [of alf s n])
  qed (use 1 in \<open>simp add: blk_runs.simps\<close>)
qed

lemma blk_runs_alternate:
  "successively (\<lambda>(t, _) (u, _). blk_flag alf t \<noteq> blk_flag alf u) (blk_runs alf s n)"
proof (induction alf s n rule: blk_runs.induct)
  case (1 alf s n)
  let ?k = "flag_run alf (blk_flag alf s) s n"
  show ?case
  proof (cases "n = 0 \<or> ?k = n")
    case True
    then show ?thesis by (auto simp: blk_runs.simps [of alf s n] blk_runs.simps [of alf _ 0])
  next
    case False
    then have "?k < n" using flag_run_bounds(1) [of alf "blk_flag alf s" s n] by linarith
    with 1 False flag_run_bounds(3) [of alf "blk_flag alf s" s n] show ?thesis
      by (subst blk_runs.simps) (auto simp: blk_runs.simps [of alf "s + of_nat ?k" "n - ?k"])
  qed
qed

text \<open>The read path: one DIO with everything.\<close>

lemma make_step_read:
  assumes wf: "io_wf (m_st v)" and r: "s_iors (m_st v) ior = Some r"
    and kq: "s_kreqs (m_st v) (r_kreq r) = Some kq" and op: "m_op v = 0"
  shows "\<exists>st' r' d. make_step alf sh1 mem ior v = Some (True, v\<lparr>m_nr := 0, m_st := st'\<rparr>)
    \<and> dio_added (m_st v) ior r (s_next (m_st v)) d st' r'
    \<and> dio_view d = (m_sLBID v, m_nr v, 0, map_option (\<lambda>l. lb_ids (lb_nodes l)) (m_lbs v))"
proof -
  define f where "f = (\<lambda>d :: dms_io. d\<lparr>d_LB_list := m_lbs v, d_sLBID := m_sLBID v, d_nr_LBIDs := m_nr v,
                                d_state := DIO_INIT\<rparr>)"
  have own: "d_io_req (f (new_dio ior kq 0 (m_st v))) = ior" "d_result (f (new_dio ior kq 0 (m_st v))) = 1"
    by (simp_all add: f_def new_dio_def)
  from dio_round [where f = f, OF wf r kq own] obtain st1 st2 st' r' where
    c: "Create_DIO ior 0 (m_st v) = Some (s_next (m_st v), st1)"
    "put_dio (s_next (m_st v)) f st1 = Some st2"
    "Add_DIO_to_IO_Reqeust ior (s_next (m_st v)) st2 = Some (DMS_OK, st')"
    "dio_added (m_st v) ior r (s_next (m_st v)) (f (new_dio ior kq 0 (m_st v))) st' r'" by blast
  have "make_step alf sh1 mem ior v = Some (True, v\<lparr>m_nr := 0, m_st := st'\<rparr>)"
    unfolding make_step_def using op
    by (simp add: c(1,3) c(2) [unfolded f_def])
  moreover have "dio_view (f (new_dio ior kq 0 (m_st v))) =
      (m_sLBID v, m_nr v, 0, map_option (\<lambda>l. lb_ids (lb_nodes l)) (m_lbs v))"
    by (simp add: dio_view_def f_def new_dio_def)
  ultimately show ?thesis using c(4) by blast
qed

section \<open>The failure path\<close>

lemma move_loop_never: "len \<le> r \<Longrightarrow> move_loop r len pre ns = (r + int (length ns), pre @ ns, [])"
  by (induction ns arbitrary: r pre) auto

lemma take_lbs_zero:
  assumes "0 < n" "n < 2 ^ 31" "length (lb_nodes l) = n"
  shows "take_lbs mem 0 (of_nat n) (Some l) = Some (None, Some l)"
proof -
  have "(0 :: u64) \<noteq> of_nat n" using assms(1,2) of_nat_eq64 [of 0 n] by simp
  moreover have "lb_nodes l \<noteq> []" using assms(1,3) by auto
  ultimately show ?thesis using assms
    by (simp add: take_lbs_def Get_Next_DIO_Request_LB_List_def Create_LogicalBlock_List_def
        Init_LogicalBlock_List_def ret_defs Move_Sub_List_def move_loop_never)
qed

lemma make_step_fail:
  assumes wf: "io_wf (m_st v)" and r: "s_iors (m_st v) ior = Some r"
    and kq: "s_kreqs (m_st v) (r_kreq r) = Some kq" and op: "m_op v \<noteq> 0"
    and range: "Get_Allocation_Range alf sh1 (m_sLBID v) (m_nr v) = Some (op', 0)"
    and n: "m_nr v = of_nat n" "n < 2 ^ 31" "0 < n" and l: "m_lbs v = Some l" "length (lb_nodes l) = n"
  shows "\<exists>v' d. make_step alf sh1 mem ior v = Some (False, v') \<and> d_io_req d = ior
    \<and> s_dios (m_st v') = (s_dios (m_st v))(s_next (m_st v) \<mapsto> d)
    \<and> s_iors (m_st v') = s_iors (m_st v) \<and> s_kreqs (m_st v') = s_kreqs (m_st v)
    \<and> s_ended (m_st v') = s_ended (m_st v)"
proof -
  let ?d = "(new_dio ior kq (m_op v) (m_st v))\<lparr>d_op := op', d_LB_list := None\<rparr>"
  let ?st = "(m_st v)\<lparr>s_next := s_next (m_st v) + 1, s_dio_id_gen := s_dio_id_gen (m_st v) + 1,
    s_dios := (s_dios (m_st v))(s_next (m_st v) \<mapsto> ?d)\<rparr>"
  have "make_step alf sh1 mem ior v = Some (False, v\<lparr>m_op := op', m_lbs := Some l, m_st := ?st\<rparr>)"
    unfolding make_step_def using op range n l take_lbs_zero [OF n(3,2) l(2), of mem]
    by (simp add: Create_DIO_eq [OF r kq] put_dio_def)
  then show ?thesis
    by (intro exI [of _ "v\<lparr>m_op := op', m_lbs := Some l, m_st := ?st\<rparr>"] exI [of _ ?d]) (simp add: new_dio_def)
qed

text \<open>When the shifted bit disagrees with the flag of the first block, the range is
  empty.\<close>

lemma Get_Allocation_Range_mismatch:
  assumes "chunked alf" and "0 < n" and "n < 2 ^ 31 - 64" and "unat s + n \<le> 2 ^ 64"
    and "(alf s AND sh1 (unat (s mod 64)) \<noteq> 0) \<noteq> blk_flag alf s"
  shows "\<exists>op. Get_Allocation_Range alf sh1 s (of_nat n) = Some (op, 0)"
proof -
  let ?op = "flag_op (\<not> blk_flag alf s)"
  have op: "?op = DMS_OP_WRITE \<or> ?op = DMS_OP_OVERWRITE" by (simp add: flag_op_def)
  have "flag_run alf (\<not> blk_flag alf s) s n = 0"
    using assms(2) by (simp add: flag_run_def upt_conv_Cons)
  with Get_Continuous_Range_run [OF assms(1) op assms(2-4)]
  have "Get_Continuous_Range alf ?op s (of_nat n) = Some 0" by simp
  moreover have "(if alf s AND sh1 (unat (s mod 64)) \<noteq> 0 then DMS_OP_OVERWRITE else DMS_OP_WRITE) = ?op"
    using assms(5) by (auto simp: flag_op_def)
  ultimately show ?thesis by (simp add: Get_Allocation_Range_def Let_def)
qed

section \<open>Properties\<close>


definition alf_ex :: "u64 \<Rightarrow> u64" where
  "alf_ex b = (if b div 64 = 0 then 0xff0000000c else 0)"

definition kreq_ex :: krequest where
  "kreq_ex = \<lparr>k_dir = 1, k_sector = 8, k_nr_sectors = 32,
     k_bios = [\<lparr>b_sector = 24, b_vcnt = 2\<rparr>, \<lparr>b_sector = 8, b_vcnt = 2\<rparr>], k_special = None, k_volume = 0\<rparr>"

definition st_ex :: "krequest \<Rightarrow> io_st" where
  "st_ex k = \<lparr>s_next = 100, s_dio_id_gen = 0, s_ior_id_gen = 0, s_dios = Map.empty, s_iors = Map.empty,
     s_kreqs = [7 \<mapsto> k], s_ended = []\<rparr>"

lemma alf_ex_chunked: "chunked alf_ex"
  by (simp add: chunked_def alf_ex_def)

lemma st_ex_wf: "io_wf (st_ex k)" "s_kreqs (st_ex k) 7 = Some k"
  by (simp_all add: io_wf_def st_ex_def)

lemma lessThan_4: "{..<4 :: nat} = {0, 1, 2, 3}"
  by auto

lemma kreq_ex_covers: "request_covers kreq_ex 1 4"
  by (auto simp: request_covers_def kreq_ex_def KSECTORS_TO_DSECTORS_def DMSBLK_SHIFT_BITS_def blocks_of_def
      lessThan_4 upt_conv_Cons)

lemma blk_runs_ex: "blk_runs alf_ex 1 4 = [(1, 1), (2, 2), (4, 1)]"
  by (simp add: blk_runs.simps flag_run_def blk_flag_def alf_ex_def upt_conv_Cons)

definition mem_ex :: lb_list where
  "mem_ex = \<lparr>lb_nodes = [], lb_next = None\<rparr>"


lemma Make_DIO_read:
  assumes "io_wf st" and "s_kreqs st kreq = Some k" and "k_dir k = DMS_OP_READ"
    and "request_covers k s n" and "0 < n"
  shows "\<exists>ior st' r a d. Make_DIO_Requst alf sh1 mem end_first kreq st = Some (Some ior, st') \<and> io_wf st'
    \<and> s_iors st' = (s_iors st)(ior \<mapsto> r) \<and> dl_elems (r_diolist r) = [a] \<and> s_dios st' a = Some d
    \<and> dio_view d = (s, of_nat n, DMS_OP_READ, Some (map (\<lambda>j. s + of_nat j) [0..<n]))
    \<and> r_kreq r = kreq \<and> (\<forall>b e. s_dios st b = Some e \<longrightarrow> s_dios st' b = Some e)
    \<and> s_kreqs st' = s_kreqs st \<and> s_ended st' = s_ended st \<and> ior = s_next st"
proof -
  from Make_DIO_start [OF assms(1,2,4), of mem] obtain r l st1 st2 where
    c: "Create_IO_Request kreq st = Some (s_next st, st1)" "Generate_All_LogicalBlocks mem k st1 = Some (l, st2)"
    and st2: "io_wf st2" "s_iors st2 = (s_iors st)(s_next st \<mapsto> r)" "s_kreqs st2 = s_kreqs st"
      "s_dios st2 = s_dios st" "s_ended st2 = s_ended st"
    and r: "dl_elems (r_diolist r) = []" "r_kreq r = kreq"
    and l: "lb_ids (lb_nodes l) = map (\<lambda>j. s + of_nat j) [0..<n]" by blast
  define v where "v = \<lparr>m_sLBID = KSECTORS_TO_DSECTORS (k_sector k), m_nr = KSECTORS_TO_DSECTORS (k_nr_sectors k),
         m_op = k_dir k, m_lbs = Some l, m_st = st2\<rparr>"
  from assms(4) have cov: "m_sLBID v = s" "m_nr v = of_nat n" "n < 2 ^ 31"
    by (auto simp: request_covers_def v_def)
  have "m_nr v \<noteq> 0" using cov(2,3) assms(5) of_nat_eq64 [of n 0] by simp
  moreover from make_step_read [of v "s_next st" r k alf sh1 mem] st2 r assms(2,3)
  obtain st' r' d where step: "make_step alf sh1 mem (s_next st) v = Some (True, v\<lparr>m_nr := 0, m_st := st'\<rparr>)"
    "dio_added st2 (s_next st) r (s_next st2) d st' r'"
    "dio_view d = (m_sLBID v, m_nr v, 0, map_option (\<lambda>l. lb_ids (lb_nodes l)) (m_lbs v))"
    by (auto simp: v_def op_defs)
  ultimately have "make_loop alf sh1 mem (s_next st) v = Some (True, v\<lparr>m_nr := 0, m_st := st'\<rparr>)"
    by (subst make_loop.simps, simp) (subst make_loop.simps, simp)
  then have "Make_DIO_Requst alf sh1 mem end_first kreq st = Some (Some (s_next st), st')"
    using assms(2) c by (simp add: Make_DIO_Requst_def flip: v_def)
  with step(2,3) st2 r l cov show ?thesis
    by (intro exI [of _ "s_next st"] exI [of _ st'] exI [of _ r'] exI [of _ "s_next st2"] exI [of _ d])
      (auto simp: v_def op_defs dio_added_def)
qed

text \<open>A read request whose bios cover its blocks makes exactly one DIO, a read of
  all its blocks in order.\<close>
theorem Make_DIO_Requst_read_one:
  assumes "io_wf st" and "s_kreqs st kreq = Some k" and "k_dir k = DMS_OP_READ"
    and "request_covers k s n" and "0 < n"
  shows "\<exists>ior st' r a d. Make_DIO_Requst alf sh1 mem end_first kreq st = Some (Some ior, st') \<and> io_wf st'
    \<and> s_iors st' = (s_iors st)(ior \<mapsto> r) \<and> dl_elems (r_diolist r) = [a] \<and> s_dios st' a = Some d
    \<and> dio_view d = (s, of_nat n, DMS_OP_READ, Some (map (\<lambda>j. s + of_nat j) [0..<n]))"
  using Make_DIO_read [OF assms, of alf sh1 mem end_first] by blast

theorem Make_DIO_Requst_read_one_witness:
  "\<exists>ior st' r a d. Make_DIO_Requst alf_ex sh1_x86 mem_ex (\<lambda>_ _ _. 0) 7 (st_ex (kreq_ex\<lparr>k_dir := 0\<rparr>)) = Some (Some ior, st')
    \<and> s_iors st' ior = Some r \<and> dl_elems (r_diolist r) = [a] \<and> s_dios st' a = Some d
    \<and> dio_view d = (1, 4, 0, Some [1, 2, 3, 4])"
proof -
  have "request_covers (kreq_ex\<lparr>k_dir := 0\<rparr>) 1 4" "k_dir (kreq_ex\<lparr>k_dir := 0\<rparr>) = DMS_OP_READ"
    using kreq_ex_covers by (simp_all add: request_covers_def op_defs)
  from Make_DIO_Requst_read_one [OF st_ex_wf this(2,1), of alf_ex sh1_x86 mem_ex "\<lambda>_ _ _. 0"]
  show ?thesis by (fastforce simp: upt_conv_Cons op_defs)
qed

text \<open>In the production build, whose allocation map is all zero, every covered
  write of at least one block makes exactly one DIO, a write of all its blocks,
  whatever the compiled shift yields.\<close>
theorem Make_DIO_Requst_production:
  assumes "io_wf st" and "s_kreqs st kreq = Some k" and "k_dir k = DMS_OP_WRITE"
    and "request_covers k s n" and "0 < n"
  shows "\<exists>ior st' r a d. Make_DIO_Requst (Get_Allocation_Flag False) sh1 mem end_first kreq st = Some (Some ior, st')
    \<and> s_iors st' = (s_iors st)(ior \<mapsto> r) \<and> dl_elems (r_diolist r) = [a] \<and> s_dios st' a = Some d
    \<and> dio_view d = (s, of_nat n, DMS_OP_WRITE, Some (map (\<lambda>j. s + of_nat j) [0..<n]))"
proof -
  have alf: "Get_Allocation_Flag False = (\<lambda>_. 0)" by (simp add: fun_eq_iff Get_Allocation_Flag_def)
  have ch: "chunked (\<lambda>_. 0)" by (simp add: chunked_def)
  have no: "\<not> blk_flag (\<lambda>_. 0) b" for b by (simp add: blk_flag_def)
  have "flag_run (\<lambda>_. 0) False s n = n"
    unfolding flag_run_def by (intro takeWhile_len) (auto simp: no)
  then have "blk_runs (\<lambda>_. 0) s n = [(s, n)]"
    using assms(5) by (simp add: no blk_runs.simps [of _ s n] blk_runs.simps [of _ _ 0])
  with Make_DIO_write [OF ch shift_ok_zero assms(1-4), of sh1 mem end_first] show ?thesis
    unfolding alf by (fastforce simp: run_view_def no flag_op_def)
qed

theorem Make_DIO_Requst_production_witness:
  "\<exists>ior st' r a d. Make_DIO_Requst (Get_Allocation_Flag False) sh1_x86 mem_ex (\<lambda>_ _ _. 0) 7 (st_ex kreq_ex)
      = Some (Some ior, st')
    \<and> s_iors st' ior = Some r \<and> dl_elems (r_diolist r) = [a] \<and> s_dios st' a = Some d
    \<and> dio_view d = (1, 4, 1, Some [1, 2, 3, 4])"
proof -
  have "k_dir kreq_ex = DMS_OP_WRITE" by (simp add: kreq_ex_def op_defs)
  from Make_DIO_Requst_production [OF st_ex_wf this kreq_ex_covers, of sh1_x86 mem_ex "\<lambda>_ _ _. 0"]
  show ?thesis by (fastforce simp: upt_conv_Cons op_defs)
qed

text \<open>When the compiled shift misreads the flag of the first block (the literal
  \<open>1\<close> of \<open>Get_Allocation_Range\<close> is a 32-bit \<open>int\<close>), the range is empty and the
  function fails: it returns NULL, the request is not ended (its \<open>special\<close> is
  still NULL, so the end handler refuses it), the DIO that was being made stays
  allocated with no owner, and the caller then reads through the NULL result.\<close>
theorem Make_DIO_Requst_shift_failure:
  assumes "chunked alf" and "io_wf st" and "s_kreqs st kreq = Some k" and "k_dir k = DMS_OP_WRITE"
    and "request_covers k s n" and "0 < n" and "k_special k = None"
    and "(alf s AND sh1 (unat (s mod 64)) \<noteq> 0) \<noteq> blk_flag alf s"
  shows "\<exists>st' a d. Make_DIO_Requst alf sh1 mem end_first kreq st = Some (None, st')
    \<and> s_ended st' = s_ended st \<and> s_kreqs st' = s_kreqs st
    \<and> s_dios st a = None \<and> s_dios st' a = Some d \<and> s_iors st' (d_io_req d) = None
    \<and> VolumeIO_Handler alf sh1 mem end_first fuel kreq st = None"
proof -
  from Make_DIO_start [OF assms(2,3,5), of mem] obtain r l st1 st2 where
    c: "Create_IO_Request kreq st = Some (s_next st, st1)" "Generate_All_LogicalBlocks mem k st1 = Some (l, st2)"
    and st2: "io_wf st2" "s_iors st2 = (s_iors st)(s_next st \<mapsto> r)" "s_kreqs st2 = s_kreqs st"
      "s_dios st2 = s_dios st" "s_ended st2 = s_ended st"
    and r: "dl_elems (r_diolist r) = []" "r_kreq r = kreq"
    and l: "lb_ids (lb_nodes l) = map (\<lambda>j. s + of_nat j) [0..<n]" by blast
  define v where "v = \<lparr>m_sLBID = KSECTORS_TO_DSECTORS (k_sector k), m_nr = KSECTORS_TO_DSECTORS (k_nr_sectors k),
         m_op = k_dir k, m_lbs = Some l, m_st = st2\<rparr>"
  from assms(5) have cov: "m_sLBID v = s" "m_nr v = of_nat n" "n < 2 ^ 31 - 64" "unat s + n \<le> 2 ^ 64"
    by (auto simp: request_covers_def v_def)
  have len: "length (lb_nodes l) = n" using l by (metis length_map length_upt diff_zero lb_ids_def)
  from Get_Allocation_Range_mismatch [of alf n s sh1, OF assms(1,6) cov(3,4) assms(8)] obtain op where
    "Get_Allocation_Range alf sh1 (m_sLBID v) (m_nr v) = Some (op, 0)" using cov by auto
  then have "\<exists>v' d. make_step alf sh1 mem (s_next st) v = Some (False, v') \<and> d_io_req d = s_next st
    \<and> s_dios (m_st v') = (s_dios (m_st v))(s_next (m_st v) \<mapsto> d)
    \<and> s_iors (m_st v') = s_iors (m_st v) \<and> s_kreqs (m_st v') = s_kreqs (m_st v)
    \<and> s_ended (m_st v') = s_ended (m_st v)"
    using st2 r assms(3,4,6) cov(2,3) len
    by (intro make_step_fail [where n = n and r = r and l = l and kq = k]) (auto simp: v_def op_defs)
  then obtain v' d where step: "make_step alf sh1 mem (s_next st) v = Some (False, v')" "d_io_req d = s_next st"
    "s_dios (m_st v') = (s_dios st)(s_next st2 \<mapsto> d)" "s_iors (m_st v') = (s_iors st)(s_next st \<mapsto> r)"
    "s_kreqs (m_st v') = s_kreqs st" "s_ended (m_st v') = s_ended st"
    using st2 by (auto simp: v_def)
  have "m_nr v \<noteq> 0" using cov(2,3) assms(6) of_nat_eq64 [of n 0] by simp
  then have lp: "make_loop alf sh1 mem (s_next st) v = Some (False, v')"
    using step(1) by (subst make_loop.simps) simp
  define st3 where "st3 = (m_st v')\<lparr>s_iors := (s_iors (m_st v'))(s_next st := None)\<rparr>"
  have "Release_IO_Request (s_next st) (m_st v') = Some st3"
    using step(4) r(1)
    by (simp add: Release_IO_Request_def Release_DList_and_User_Data_def Release_All_User_Data_def st3_def flip: dl_elems_def)
  moreover have "DMS_End_Request_Handler end_first kreq (k_nr_sectors k) 0 st3 = Some (- DMS_FAIL, st3)"
    using step(5) assms(3,7) by (simp add: DMS_End_Request_Handler_def st3_def)
  ultimately have mk: "Make_DIO_Requst alf sh1 mem end_first kreq st = Some (None, st3)"
    using assms(3) c lp by (simp add: Make_DIO_Requst_def flip: v_def)
  have "s_dios st (s_next st2) = None"
    using io_wf_dio [OF st2(1), of "s_next st2"] st2(4) by (cases "s_dios st (s_next st2)") auto
  with mk step show ?thesis
    by (intro exI [of _ st3] exI [of _ "s_next st2"] exI [of _ d])
      (simp add: st3_def VolumeIO_Handler_def Add_IO_Reqeust_to_KRequest_def)
qed

definition kreq_32 :: krequest where
  "kreq_32 = \<lparr>k_dir = 1, k_sector = 256, k_nr_sectors = 8,
     k_bios = [\<lparr>b_sector = 256, b_vcnt = 1\<rparr>], k_special = None, k_volume = 0\<rparr>"

theorem Make_DIO_Requst_shift_failure_witness:
  "\<exists>st'. Make_DIO_Requst alf_ex sh1_x86 mem_ex (\<lambda>_ _ _. 0) 7 (st_ex kreq_32) = Some (None, st')
    \<and> s_ended st' = [] \<and> VolumeIO_Handler alf_ex sh1_x86 mem_ex (\<lambda>_ _ _. 0) 5 7 (st_ex kreq_32) = None"
proof -
  have cov: "request_covers kreq_32 32 1"
    by (auto simp: request_covers_def kreq_32_def KSECTORS_TO_DSECTORS_def DMSBLK_SHIFT_BITS_def blocks_of_def)
  have k: "k_dir kreq_32 = DMS_OP_WRITE" "k_special kreq_32 = None"
    by (simp_all add: kreq_32_def op_defs)
  have shift: "(alf_ex 32 AND sh1_x86 (unat (32 mod 64 :: u64)) \<noteq> 0) \<noteq> blk_flag alf_ex 32"
    by (simp add: alf_ex_def sh1_x86_def blk_flag_def c_int_def)
  from Make_DIO_Requst_shift_failure [of alf_ex "st_ex kreq_32" 7 kreq_32 32 1 sh1_x86 mem_ex "\<lambda>_ _ _. 0" 5,
      OF alf_ex_chunked st_ex_wf k(1) cov _ k(2) shift]
  show ?thesis by (auto simp: st_ex_def)
qed

text \<open>The DIOs of a covered write tile the request: their blocks, taken in order,
  are the blocks of the request, each once; every block of a DIO has the
  allocation flag that the DIO's operation stands for; and neighbouring DIOs have
  different operations, so no split is superfluous.\<close>
theorem Make_DIO_Requst_tiles_request:
  assumes "chunked alf" and "shift_ok alf sh1" and "io_wf st"
    and "s_kreqs st kreq = Some k" and "k_dir k = DMS_OP_WRITE" and "request_covers k s n"
  shows "\<exists>ior st' r vs. Make_DIO_Requst alf sh1 mem end_first kreq st = Some (Some ior, st')
    \<and> s_iors st' ior = Some r \<and> map (\<lambda>a. map_option dio_view (s_dios st' a)) (dl_elems (r_diolist r)) = map Some vs
    \<and> concat (map (\<lambda>(_, _, _, bs). the bs) vs) = map (\<lambda>j. s + of_nat j) [0..<n]
    \<and> (\<forall>(_, _, op, bs) \<in> set vs. \<forall>b \<in> set (the bs). blk_flag alf b = (op = DMS_OP_OVERWRITE))
    \<and> successively (\<lambda>(_, _, op, _) (_, _, op', _). op \<noteq> op') vs"
proof -
  let ?vs = "map (run_view alf) (blk_runs alf s n)"
  have op: "(flag_op f = DMS_OP_OVERWRITE) = f" "flag_op f = flag_op g \<longleftrightarrow> f = g" for f g
    by (auto simp: flag_op_def op_defs)
  have "concat (map (\<lambda>(_, _, _, bs). the bs) ?vs) = map (\<lambda>j. s + of_nat j) [0..<n]"
    unfolding blk_runs_concat [of alf s n, symmetric] by (simp add: run_view_def split_def comp_def)
  moreover have "\<forall>(_, _, op, bs) \<in> set ?vs. \<forall>b \<in> set (the bs). blk_flag alf b = (op = DMS_OP_OVERWRITE)"
    by (auto simp: run_view_def op blk_runs_flag)
  moreover have "successively (\<lambda>(_, _, op, _) (_, _, op', _). op \<noteq> op') ?vs"
    using blk_runs_alternate [of alf s n] by (simp add: successively_map run_view_def split_def op)
  moreover obtain ior st' r where "Make_DIO_Requst alf sh1 mem end_first kreq st = Some (Some ior, st')"
    "s_iors st' ior = Some r"
    "map (\<lambda>a. map_option dio_view (s_dios st' a)) (dl_elems (r_diolist r)) = map Some ?vs"
    using Make_DIO_write [OF assms, of mem end_first] by (auto simp: comp_def)
  ultimately show ?thesis by blast
qed

theorem Make_DIO_Requst_tiles_request_witness:
  "\<exists>ior st' vs. Make_DIO_Requst alf_ex sh1_64 mem_ex (\<lambda>_ _ _. 0) 7 (st_ex kreq_ex) = Some (Some ior, st')
    \<and> concat (map (\<lambda>(_, _, _, bs). the bs) vs) = [1 :: u64, 2, 3, 4]
    \<and> successively (\<lambda>(_, _, op, _) (_, _, op', _). op \<noteq> op') (vs :: (u64 \<times> u64 \<times> int \<times> u64 list option) list)"
proof -
  have "k_dir kreq_ex = DMS_OP_WRITE" by (simp add: kreq_ex_def op_defs)
  from Make_DIO_Requst_tiles_request [OF alf_ex_chunked shift_ok_64 st_ex_wf this kreq_ex_covers, of mem_ex "\<lambda>_ _ _. 0"]
  show ?thesis by (auto simp: upt_conv_Cons)
qed

end
