(* ===== verification/IO_Commit.thy ===== *)
theory IO_Commit
  imports DIO
begin

text \<open>
  Committing blocks to the user: \<open>Commit_LB_to_DMS_IO\<close> of \<open>DriverCore/DIO.c\<close> and
  \<open>Commit_DIO_to_IO_Request\<close> of \<open>DriverCore/IO_Request.c\<close>.  A DIO is released when
  its block list becomes empty, and the block-layer request is ended when the
  list of DIOs becomes empty.
\<close>

section \<open>Commit\<close>

text \<open>\<open>atomic_cmpxchg(&result, true, new)\<close>: the first result other than 1 stays.\<close>

definition cmpxchg_true :: "int \<Rightarrow> int \<Rightarrow> int" where
  "cmpxchg_true cur new = (if cur = 1 then new else cur)"

text \<open>An answer other than 0 of the block layer is only printed.\<close>

definition Commit_DIO_to_IO_Request ::
    "(nat \<Rightarrow> int \<Rightarrow> u64 \<Rightarrow> int) \<Rightarrow> nat \<Rightarrow> int \<Rightarrow> io_st \<Rightarrow> (int \<times> io_st) option" where
  "Commit_DIO_to_IO_Request end_first dio result st = do {
     d \<leftarrow> s_dios st dio;
     r \<leftarrow> s_iors st (d_io_req d);
     let r = r\<lparr>r_result := cmpxchg_true (r_result r) result\<rparr>;
     let st = st\<lparr>s_iors := (s_iors st)(d_io_req d \<mapsto> r)\<rparr>;
     (em, st) \<leftarrow> Remove_and_Release_DIO_from_IO_Reqeust (d_io_req d) dio st;
     if em = 1 then do {
       k \<leftarrow> s_kreqs st (r_kreq r);
       (_, st) \<leftarrow> DMS_End_Request_Handler end_first (r_kreq r) (k_nr_sectors k) (r_result r) st;
       Some (em, st)
     } else Some (em, st)
   }"

definition Commit_LB_to_DMS_IO ::
    "(nat \<Rightarrow> int \<Rightarrow> u64 \<Rightarrow> int) \<Rightarrow> nat \<Rightarrow> u64 \<Rightarrow> int \<Rightarrow> int \<Rightarrow> io_st \<Rightarrow> (int \<times> io_st) option" where
  "Commit_LB_to_DMS_IO end_first dio slbid nr_lbids result st = do {
     d \<leftarrow> s_dios st dio;
     let d = d\<lparr>d_result := cmpxchg_true (d_result d) result\<rparr>;
     let (em, lbs) = (case d_LB_list d of
                        None \<Rightarrow> (- DMS_FAIL, None)
                      | Some l \<Rightarrow> (case Commit_LB_List_by_Range l slbid nr_lbids of (e, l') \<Rightarrow> (e, Some l')));
     let st = st\<lparr>s_dios := (s_dios st)(dio \<mapsto> d\<lparr>d_LB_list := lbs\<rparr>)\<rparr>;
     if em = 1 then do {
       (_, st) \<leftarrow> Commit_DIO_to_IO_Request end_first dio (d_result d) st;
       Some (em, st)
     } else Some (em, st)
   }"

section \<open>Committing a whole DIO\<close>

text \<open>A DIO that holds all its blocks.\<close>

definition dio_complete :: "dms_io \<Rightarrow> bool" where
  "dio_complete d \<longleftrightarrow> (case d_LB_list d of
      None \<Rightarrow> False
    | Some l \<Rightarrow> 0 < d_nr_LBIDs d \<and> unat (d_sLBID d) + unat (d_nr_LBIDs d) < 2 ^ 64
        \<and> lb_ids (lb_nodes l) = map (\<lambda>j. d_sLBID d + of_nat j) [0..<unat (d_nr_LBIDs d)])"

lemma sorted_blocks_wrt:
  assumes "unat s + n \<le> 2 ^ 64"
  shows "sorted_wrt (<) (map (\<lambda>j. (s :: u64) + of_nat j) [0..<n])"
  using sorted_blocks [OF assms refl] strict_sorted_list_of_set [of "(\<lambda>j. s + of_nat j) ` {..<n}"] by simp

lemma Commit_whole_list:
  assumes "0 < n" and "unat s + n < 2 ^ 64" and "lb_ids (lb_nodes l) = map (\<lambda>j. s + of_nat j) [0..<n]"
  shows "Commit_LB_List_by_Range l s (int n) = (1, l\<lparr>lb_nodes := []\<rparr>)"
proof -
  have srt: "sorted_wrt (<) (lb_ids (lb_nodes l))"
    unfolding assms(3) using assms(2) by (intro sorted_blocks_wrt) simp
  have ids: "map unat (lb_ids (lb_nodes l)) = map (\<lambda>j. unat s + j) [0..<n]"
    using assms(2,3) by (simp add: unat_plus_nat comp_def)
  then have "run_from (unat s) n 0 (lb_nodes l) = n"
    by (intro run_from_all) (auto simp: ids)
  with commit_scan_spec [OF srt assms(2,1)] have
    "commit_scan s (int n) 0 (lb_nodes l) = (outside (unat s) (unat s + n) (lb_nodes l), int n)" by simp
  moreover have "outside (unat s) (unat s + n) (lb_nodes l) = []"
  proof -
    have "unat (lb_LBID (snd x)) \<in> set (map unat (lb_ids (lb_nodes l)))" if "x \<in> set (lb_nodes l)" for x
      using that by (simp add: lb_ids_snd)
    then show ?thesis unfolding ids by (force simp: outside_def filter_empty_conv)
  qed
  ultimately show ?thesis by (simp add: Commit_LB_List_by_Range_def)
qed

lemma Remove_and_Release_spec:
  assumes wf: "io_wf st" and r: "s_iors st ior = Some r" and dio: "dio \<in> set (dl_elems (r_diolist r))"
  shows "\<exists>dl. Remove_and_Release_DIO_from_IO_Reqeust ior dio st =
      Some (of_bool (remove1 dio (dl_elems (r_diolist r)) = []),
        st\<lparr>s_iors := (s_iors st)(ior \<mapsto> r\<lparr>r_diolist := dl\<rparr>), s_dios := (s_dios st)(dio := None)\<rparr>)
    \<and> dl_inv dl \<and> dl_elems dl = remove1 dio (dl_elems (r_diolist r))
    \<and> set (addrs (dl_nodes dl)) \<subseteq> set (addrs (dl_nodes (r_diolist r)))"
proof -
  from io_wf_ior [OF wf r] dio have inv: "dl_inv (r_diolist r)" and d: "s_dios st dio \<noteq> None"
    by (auto simp: ior_wf_def)
  from Remove_by_User_Data_spec [OF inv, of dio] dio obtain dl where
    rm: "Remove_from_DList_by_User_Data (r_diolist r) dio =
      (Some dio, remove1 dio (dl_elems (r_diolist r)) = [], dl)"
    "dl_inv dl" "dl_elems dl = remove1 dio (dl_elems (r_diolist r))" by auto
  have "set (addrs (dl_nodes dl)) \<subseteq> set (addrs (dl_nodes (r_diolist r)))"
    using rm(1) by (rule Remove_by_User_Data_addrs)
  with rm r d show ?thesis
    by (intro exI [of _ dl])
      (auto simp: Remove_and_Release_DIO_from_IO_Reqeust_def Remove_DIO_from_IO_Reqeust_def Release_DIO_def)
qed

text \<open>Removing a DIO that only its own request lists keeps the state well-formed.\<close>

lemma io_wf_removed:
  assumes wf: "io_wf st" and r: "s_iors st ior = Some r" and own: "s_dios st dio = Some d" "d_io_req d = ior"
    and dl: "dl_inv dl" "dl_elems dl = remove1 dio (dl_elems (r_diolist r))"
      "set (addrs (dl_nodes dl)) \<subseteq> set (addrs (dl_nodes (r_diolist r)))"
  shows "io_wf (st\<lparr>s_iors := (s_iors st)(ior \<mapsto> r\<lparr>r_result := res, r_diolist := dl\<rparr>), s_dios := (s_dios st)(dio := None)\<rparr>)"
    (is "io_wf ?st")
  unfolding io_wf_def
proof (intro conjI allI impI)
  show "a < s_next ?st" if "s_dios ?st a = Some d'" for a d'
    using that io_wf_dio [OF wf, of a d'] by (auto split: if_splits)
  show "ior_wf ?st i r'" if "s_iors ?st i = Some r'" for i r'
  proof (cases "i = ior")
    case True
    have "distinct (dl_elems (r_diolist r))" using io_wf_ior [OF wf r] by (auto simp: ior_wf_def dl_inv_def dl_elems_def)
    with that True io_wf_ior [OF wf r] dl show ?thesis by (auto simp: ior_wf_def)
  next
    case False
    with that io_wf_ior [OF wf, of i r'] own show ?thesis by (fastforce simp: ior_wf_def)
  qed
qed

lemma io_wf_kreqs:
  "io_wf st \<Longrightarrow> (\<And>x. s_kreqs st x \<noteq> None \<Longrightarrow> kq x \<noteq> None) \<Longrightarrow> io_wf (st\<lparr>s_kreqs := kq, s_ended := e\<rparr>)"
  by (auto simp: io_wf_def ior_wf_def)

text \<open>The last blocks of a DIO committed: it is gone, its result joined the request's, and
  the request is ended exactly when it was the last one.\<close>

lemma commit_last_blocks:
  assumes wf: "io_wf st" and r: "s_iors st ior = Some r" and dio: "dio \<in> set (dl_elems (r_diolist r))"
    and d: "s_dios st dio = Some d" "d_LB_list d = Some l" "Commit_LB_List_by_Range l s n = (1, l\<lparr>lb_nodes := []\<rparr>)"
    and k: "s_kreqs st (r_kreq r) = Some k" "k_special k = Some ior"
    and ok: "\<And>res. end_first (r_kreq r) res (k_nr_sectors k) = 0"
  shows "\<exists>st' r'. Commit_LB_to_DMS_IO end_first dio s n res st = Some (1, st')
    \<and> io_wf st' \<and> s_iors st' = (s_iors st)(ior \<mapsto> r') \<and> s_dios st' = (s_dios st)(dio := None)
    \<and> dl_elems (r_diolist r') = remove1 dio (dl_elems (r_diolist r)) \<and> r_kreq r' = r_kreq r
    \<and> r_result r' = cmpxchg_true (r_result r) (cmpxchg_true (d_result d) res)
    \<and> (if remove1 dio (dl_elems (r_diolist r)) = []
       then s_ended st' = s_ended st @ [(r_kreq r, r_result r')]
       else s_ended st' = s_ended st \<and> s_kreqs st' = s_kreqs st)"
proof -
  let ?res = "cmpxchg_true (d_result d) res"
  from io_wf_ior [OF wf r] dio d(1) have own: "d_io_req d = ior" by (auto simp: ior_wf_def)
  define d1 where "d1 = d\<lparr>d_result := ?res, d_LB_list := Some (l\<lparr>lb_nodes := []\<rparr>)\<rparr>"
  define r1 where "r1 = r\<lparr>r_result := cmpxchg_true (r_result r) ?res\<rparr>"
  let ?st1 = "st\<lparr>s_dios := (s_dios st)(dio \<mapsto> d1), s_iors := (s_iors st)(ior \<mapsto> r1)\<rparr>"
  have "io_wf (st\<lparr>s_next := s_next st, s_dio_id_gen := s_dio_id_gen st, s_dios := (s_dios st)(dio \<mapsto> d1)\<rparr>)"
    using d(1) by (intro io_wf_put [OF wf]) (auto simp: d1_def own io_wf_dio [OF wf])
  then have "io_wf (st\<lparr>s_dios := (s_dios st)(dio \<mapsto> d1)\<rparr>)" by simp
  then have wf1: "io_wf ?st1" using r by (auto simp: io_wf_def ior_wf_def r1_def)
  have r1: "s_iors ?st1 ior = Some r1" "dio \<in> set (dl_elems (r_diolist r1))"
    using dio by (simp_all add: r1_def)
  from Remove_and_Release_spec [OF wf1 r1] obtain dl where
    rr: "Remove_and_Release_DIO_from_IO_Reqeust ior dio ?st1 =
      Some (of_bool (remove1 dio (dl_elems (r_diolist r1)) = []),
        ?st1\<lparr>s_iors := (s_iors ?st1)(ior \<mapsto> r1\<lparr>r_diolist := dl\<rparr>), s_dios := (s_dios ?st1)(dio := None)\<rparr>)"
    and dl: "dl_inv dl" "dl_elems dl = remove1 dio (dl_elems (r_diolist r1))"
      "set (addrs (dl_nodes dl)) \<subseteq> set (addrs (dl_nodes (r_diolist r1)))" by blast
  let ?r2 = "r1\<lparr>r_diolist := dl\<rparr>"
  let ?st2 = "st\<lparr>s_iors := (s_iors st)(ior \<mapsto> ?r2), s_dios := (s_dios st)(dio := None)\<rparr>"
  have rm: "remove1 dio (dl_elems (r_diolist r1)) = remove1 dio (dl_elems (r_diolist r))" by (simp add: r1_def)
  have rr2: "Remove_and_Release_DIO_from_IO_Reqeust ior dio ?st1 =
      Some (of_bool (remove1 dio (dl_elems (r_diolist r)) = []), ?st2)"
    using rr unfolding rm by simp
  have wf2: "io_wf ?st2"
    using io_wf_removed [OF wf r d(1) own dl(1), of "cmpxchg_true (r_result r) ?res"] dl(2,3)
    by (simp add: r1_def)
  have start: "Commit_LB_to_DMS_IO end_first dio s n res st =
    (do { (_, st) \<leftarrow> Commit_DIO_to_IO_Request end_first dio ?res (st\<lparr>s_dios := (s_dios st)(dio \<mapsto> d1)\<rparr>);
          Some (1, st) })"
    using d by (simp add: Commit_LB_to_DMS_IO_def d1_def Let_def)
  have mid: "Commit_DIO_to_IO_Request end_first dio ?res (st\<lparr>s_dios := (s_dios st)(dio \<mapsto> d1)\<rparr>) =
    (do { (em, st) \<leftarrow> Remove_and_Release_DIO_from_IO_Reqeust ior dio ?st1;
          if em = 1 then do {
            k \<leftarrow> s_kreqs st (r_kreq r1);
            (_, st) \<leftarrow> DMS_End_Request_Handler end_first (r_kreq r1) (k_nr_sectors k) (r_result r1) st;
            Some (em, st)
          } else Some (em, st) })"
  proof -
    have "d_io_req d1 = ior" using own by (simp add: d1_def)
    with r show ?thesis by (simp add: Commit_DIO_to_IO_Request_def Let_def r1_def cong: if_cong)
  qed
  show ?thesis
  proof (cases "remove1 dio (dl_elems (r_diolist r)) = []")
    case False
    with start mid rr2 wf2 dl(2) show ?thesis
      by (intro exI [of _ ?st2] exI [of _ ?r2]) (simp add: r1_def)
  next
    case True
    let ?st3 = "?st2\<lparr>s_kreqs := (s_kreqs st)(r_kreq r \<mapsto> k\<lparr>k_special := None\<rparr>),
      s_ended := s_ended st @ [(r_kreq r, r_result r1)]\<rparr>"
    have "DMS_End_Request_Handler end_first (r_kreq r1) (k_nr_sectors k) (r_result r1) ?st2 = Some (0, ?st3)"
      using k ok by (simp add: DMS_End_Request_Handler_def r1_def)
    moreover have "io_wf ?st3" using k(1) by (intro io_wf_kreqs [OF wf2]) auto
    ultimately show ?thesis using True start mid rr2 dl(2) k
      by (intro exI [of _ ?st3] exI [of _ ?r2]) (simp add: r1_def)
  qed
qed

lemma commit_whole_dio:
  assumes wf: "io_wf st" and r: "s_iors st ior = Some r" and dio: "dio \<in> set (dl_elems (r_diolist r))"
    and d: "s_dios st dio = Some d" "dio_complete d" "d_result d = 1"
    and k: "s_kreqs st (r_kreq r) = Some k" "k_special k = Some ior"
    and ok: "\<And>res. end_first (r_kreq r) res (k_nr_sectors k) = 0"
  shows "\<exists>st' r'. Commit_LB_to_DMS_IO end_first dio (d_sLBID d) (uint (d_nr_LBIDs d)) res st = Some (1, st')
    \<and> io_wf st' \<and> s_iors st' = (s_iors st)(ior \<mapsto> r') \<and> s_dios st' = (s_dios st)(dio := None)
    \<and> dl_elems (r_diolist r') = remove1 dio (dl_elems (r_diolist r)) \<and> r_kreq r' = r_kreq r
    \<and> r_result r' = cmpxchg_true (r_result r) res
    \<and> (if remove1 dio (dl_elems (r_diolist r)) = []
       then s_ended st' = s_ended st @ [(r_kreq r, r_result r')]
       else s_ended st' = s_ended st \<and> s_kreqs st' = s_kreqs st)"
proof -
  from d(2) obtain l where l: "d_LB_list d = Some l" and n: "0 < d_nr_LBIDs d"
    "unat (d_sLBID d) + unat (d_nr_LBIDs d) < 2 ^ 64"
    "lb_ids (lb_nodes l) = map (\<lambda>j. d_sLBID d + of_nat j) [0..<unat (d_nr_LBIDs d)]"
    by (auto simp: dio_complete_def split: option.splits)
  have "0 < unat (d_nr_LBIDs d)" using n(1) by (simp add: unat_gt_0)
  from Commit_whole_list [OF this n(2,3)]
  have cl: "Commit_LB_List_by_Range l (d_sLBID d) (uint (d_nr_LBIDs d)) = (1, l\<lparr>lb_nodes := []\<rparr>)" by simp
  have "cmpxchg_true (d_result d) res = res" using d(3) by (simp add: cmpxchg_true_def)
  with commit_last_blocks [of st ior r dio d l "d_sLBID d" "uint (d_nr_LBIDs d)" k end_first res, OF wf r dio d(1) l cl k ok]
  show ?thesis by simp
qed

section \<open>Committing all DIOs of a request\<close>

text \<open>The acknowledgements of whole DIOs, in the order they arrive.\<close>

fun commit_dios :: "(nat \<Rightarrow> int \<Rightarrow> u64 \<Rightarrow> int) \<Rightarrow> (nat \<times> int) list \<Rightarrow> io_st \<Rightarrow> io_st option" where
  "commit_dios end_first [] st = Some st"
| "commit_dios end_first ((dio, res) # xs) st = do {
     d \<leftarrow> s_dios st dio;
     (_, st) \<leftarrow> Commit_LB_to_DMS_IO end_first dio (d_sLBID d) (uint (d_nr_LBIDs d)) res st;
     commit_dios end_first xs st
   }"

text \<open>The result the request ends with: the first one that is not 1.\<close>

definition first_result :: "int \<Rightarrow> int list \<Rightarrow> int" where
  "first_result cur rs = fold (\<lambda>new cur. cmpxchg_true cur new) rs cur"

lemma first_result_simps: "first_result cur [] = cur"
  "first_result cur (r # rs) = first_result (cmpxchg_true cur r) rs"
  by (simp_all add: first_result_def)

lemma first_result_find: "first_result 1 rs = (case find (\<lambda>r. r \<noteq> 1) rs of None \<Rightarrow> 1 | Some r \<Rightarrow> r)"
proof (induction rs)
  case (Cons r rs)
  have "c \<noteq> 1 \<Longrightarrow> first_result c rs = c" for c
    by (induction rs) (simp_all add: first_result_simps cmpxchg_true_def)
  with Cons show ?case by (simp add: first_result_simps cmpxchg_true_def)
qed (simp add: first_result_simps)

lemma commit_dios_all:
  "io_wf st \<Longrightarrow> s_iors st ior = Some r \<Longrightarrow> s_kreqs st (r_kreq r) = Some k \<Longrightarrow> k_special k = Some ior \<Longrightarrow>
   (\<And>res. end_first (r_kreq r) res (k_nr_sectors k) = 0) \<Longrightarrow>
   (\<And>dio. dio \<in> set (dl_elems (r_diolist r)) \<Longrightarrow> \<exists>d. s_dios st dio = Some d \<and> dio_complete d \<and> d_result d = 1) \<Longrightarrow>
   distinct (map fst xs) \<Longrightarrow> set (map fst xs) = set (dl_elems (r_diolist r)) \<Longrightarrow> xs \<noteq> [] \<Longrightarrow>
   \<exists>st'. commit_dios end_first xs st = Some st' \<and> io_wf st'
     \<and> s_ended st' = s_ended st @ [(r_kreq r, first_result (r_result r) (map snd xs))]
     \<and> (\<forall>a. s_dios st' a = (if a \<in> fst ` set xs then None else s_dios st a))"
proof (induction xs arbitrary: st r)
  case Nil
  then show ?case by simp
next
  case (Cons x xs)
  obtain dio res where x: "x = (dio, res)" by (cases x)
  have dio: "dio \<in> set (dl_elems (r_diolist r))"
    using Cons.prems(8) unfolding x by (metis fst_conv list.set_intros(1) list.simps(9))
  from Cons.prems(6) [OF dio] obtain d where d: "s_dios st dio = Some d" "dio_complete d" "d_result d = 1"
    by blast
  from commit_whole_dio [of st ior r dio d k end_first res, OF Cons.prems(1,2) dio d Cons.prems(3,4,5)]
  obtain st1 r1 where c: "Commit_LB_to_DMS_IO end_first dio (d_sLBID d) (uint (d_nr_LBIDs d)) res st = Some (1, st1)"
    and st1: "io_wf st1" "s_iors st1 = (s_iors st)(ior \<mapsto> r1)" "s_dios st1 = (s_dios st)(dio := None)"
    and r1: "dl_elems (r_diolist r1) = remove1 dio (dl_elems (r_diolist r))" "r_kreq r1 = r_kreq r"
      "r_result r1 = cmpxchg_true (r_result r) res"
    and fin: "if remove1 dio (dl_elems (r_diolist r)) = []
       then s_ended st1 = s_ended st @ [(r_kreq r, r_result r1)]
       else s_ended st1 = s_ended st \<and> s_kreqs st1 = s_kreqs st" by blast
  have dist: "distinct (dl_elems (r_diolist r))"
    using io_wf_ior [OF Cons.prems(1,2)] by (auto simp: ior_wf_def dl_inv_def dl_elems_def)
  then have set1: "set (map fst xs) = set (dl_elems (r_diolist r1))"
    using Cons.prems(7,8) x by (auto simp: r1(1) set_remove1_eq)
  show ?case
  proof (cases "xs = []")
    case True
    with set1 r1(1) have "remove1 dio (dl_elems (r_diolist r)) = []" by simp
    with True fin c d st1 r1 show ?thesis
      by (intro exI [of _ st1]) (simp add: x first_result_simps)
  next
    case False
    with set1 have "remove1 dio (dl_elems (r_diolist r)) \<noteq> []" using r1(1) by auto
    with fin have fin1: "s_ended st1 = s_ended st" "s_kreqs st1 = s_kreqs st" by auto
    have "dio \<notin> set (dl_elems (r_diolist r1))" using dist by (simp add: r1(1))
    then have live: "\<exists>e. s_dios st1 a = Some e \<and> dio_complete e \<and> d_result e = 1"
      if "a \<in> set (dl_elems (r_diolist r1))" for a
      using that Cons.prems(6) [of a] notin_set_remove1 [of a _ dio] st1(3) unfolding r1(1)
      by (metis fun_upd_other)
    have "\<exists>st'. commit_dios end_first xs st1 = Some st' \<and> io_wf st'
     \<and> s_ended st' = s_ended st1 @ [(r_kreq r1, first_result (r_result r1) (map snd xs))]
     \<and> (\<forall>a. s_dios st' a = (if a \<in> fst ` set xs then None else s_dios st1 a))"
      using Cons.prems(3,4,5,7) st1 r1(2) fin1 live set1 False by (intro Cons.IH) (simp_all add: x)
    with c d fin1 st1(3) r1 show ?thesis
      by (fastforce simp: x first_result_simps)
  qed
qed

section \<open>From making to ending a request\<close>

text \<open>Every run lies inside the blocks it is a run of.\<close>

lemma blk_runs_bounds:
  "(t, k) \<in> set (blk_runs alf s n) \<Longrightarrow> unat s + n < 2 ^ 64 \<Longrightarrow> 0 < k \<and> unat t + k \<le> unat s + n"
proof (induction alf s n rule: blk_runs.induct)
  case (1 alf s n)
  let ?k = "flag_run alf (blk_flag alf s) s n"
  show ?case
  proof (cases "n = 0")
    case False
    have k: "0 < ?k" "?k \<le> n" using False by (simp_all add: flag_run_pos flag_run_bounds(1))
    have u: "unat (s + of_nat ?k) = unat s + ?k" using "1.prems"(2) k by (intro unat_plus_nat) simp
    consider "t = s" "k = ?k" | "(t, k) \<in> set (blk_runs alf (s + of_nat ?k) (n - ?k))"
      using "1.prems"(1) False by (auto simp: blk_runs.simps [of alf s n])
    then show ?thesis
    proof cases
      case 2
      from "1.IH" [OF False this] u k "1.prems"(2) show ?thesis by simp
    qed (use k in simp)
  qed (use "1.prems" in \<open>simp add: blk_runs.simps\<close>)
qed

lemma view_complete:
  assumes "dio_view d = run_view alf (t, k)" and "0 < k" and "unat t + k < 2 ^ 64"
  shows "dio_complete d"
proof -
  from assms obtain l where "d_LB_list d = Some l" "lb_ids (lb_nodes l) = map (\<lambda>j. t + of_nat j) [0..<k]"
    "d_sLBID d = t" "d_nr_LBIDs d = of_nat k" by (auto simp: dio_view_def run_view_def)
  moreover have u: "unat (of_nat k :: u64) = k" using assms(3) by (intro unat_of_nat64) simp
  moreover have "0 < (of_nat k :: u64)" using u assms(2) by (simp add: word_less_nat_alt)
  ultimately show ?thesis using assms(3) by (simp add: dio_complete_def)
qed

section \<open>Properties\<close>



text \<open>Once a result other than 1 is recorded in an I/O request, the results of its
  later DIOs make no difference.  The acknowledgement codes the commit path
  passes down (101 to 107) are such results, so an I/O error of a later DIO is
  lost and the request is ended as the first acknowledgement.\<close>
theorem late_error_is_lost:
  assumes "s_dios st dio = Some d" and "s_iors st (d_io_req d) = Some r" and "r_result r \<noteq> 1"
  shows "Commit_DIO_to_IO_Request end_first dio result st = Commit_DIO_to_IO_Request end_first dio 1 st"
  using assms by (simp add: Commit_DIO_to_IO_Request_def cmpxchg_true_def Let_def cong: if_cong)

definition dio_acked :: dms_io where
  "dio_acked = \<lparr>d_did = 1, d_volume = 0, d_io_req = 10, d_sLBID = 5, d_nr_LBIDs = 1, d_op = 1,
     d_LB_list = Some mem_ex, d_state = 1, d_retry_count = 1, d_result = 1, d_magic = DIO_MAGIC\<rparr>"

definition ior_acked :: io_request where
  "ior_acked = \<lparr>r_rid = 1, r_kreq = 7, r_diolist = \<lparr>dl_nodes = [(30, 20)], dl_next = None\<rparr>,
     r_result = 102, r_ref_cnt = 2\<rparr>"

definition st_acked :: io_st where
  "st_acked = \<lparr>s_next = 100, s_dio_id_gen = 1, s_ior_id_gen = 1, s_dios = [20 \<mapsto> dio_acked],
     s_iors = [10 \<mapsto> ior_acked], s_kreqs = [7 \<mapsto> kreq_ex\<lparr>k_special := Some 10\<rparr>], s_ended = []\<rparr>"

theorem late_error_is_lost_witness:
  "map_option (\<lambda>(em, st). (em, s_ended st)) (Commit_DIO_to_IO_Request (\<lambda>_ _ _. 0) 20 (- 1003) st_acked)
    = Some (1, [(7, 102)])"
proof -
  have "Commit_DIO_to_IO_Request (\<lambda>_ _ _. 0) 20 (- 1003) st_acked = Commit_DIO_to_IO_Request (\<lambda>_ _ _. 0) 20 1 st_acked"
    by (rule late_error_is_lost [where d = dio_acked and r = ior_acked])
      (simp_all add: st_acked_def dio_acked_def ior_acked_def)
  then show ?thesis
    by (simp add: Commit_DIO_to_IO_Request_def st_acked_def dio_acked_def ior_acked_def Remove_and_Release_DIO_from_IO_Reqeust_def
        Remove_DIO_from_IO_Reqeust_def Remove_from_DList_by_User_Data_def Remove_DLNode_from_DList_def
        Release_DIO_def DMS_End_Request_Handler_def cmpxchg_true_def Let_def)
qed

end
