(* ===== verification/Volume.thy ===== *)
theory Volume
  imports DMS_Prelude "HOL-Library.Monad_Syntax"
begin

text \<open>
  One volume, \<open>DriverCore/Volume.c\<close> and \<open>include/Volume.h\<close>: its state, creation
  with the kernel's queue and disk, attach and detach, open and close, and the
  geometry it reports.  The kernel's answers (whether a queue and a disk could be
  allocated) are the argument \<open>kern\<close>; a disk is up once \<open>add_disk\<close> has run.
  Queue tuning, the handler pointers and the commit queue carry no state here.
\<close>

section \<open>State\<close>

record request_statistic =
  wreq_counter :: int
  rreq_counter :: int
  ovwreq_counter :: int

record gendisk =
  g_first_minor :: int
  g_capacity :: u64       \<comment> \<open>in kernel sectors\<close>
  g_up :: bool            \<comment> \<open>\<open>GENHD_FL_UP\<close>\<close>

record volume =
  v_volumeID :: int
  v_replica_factor :: int
  v_state :: u32
  v_minor_index :: int
  v_open_counter :: int
  v_r_queue :: bool                \<comment> \<open>a queue is set\<close>
  v_disk :: "gendisk option"
  v_dsectors :: u64
  v_io_statistic :: request_statistic
  v_linger_io :: request_statistic

definition ATTACHED_BIT :: nat where "ATTACHED_BIT = 0"
definition DETACHING_BIT :: nat where "DETACHING_BIT = 1"
definition DMS_DISK_MINORS :: int where "DMS_DISK_MINORS = 16"
definition EVMGR_OUT_OF_RANGE :: int where "EVMGR_OUT_OF_RANGE = 1101"
definition EVMGR_DEC_MAX :: int where "EVMGR_DEC_MAX = 1102"
definition EVMGR_CKS :: int where "EVMGR_CKS = 1103"
definition EFAULT :: int where "EFAULT = 14"

lemmas vol_consts = ATTACHED_BIT_def DETACHING_BIT_def DMS_DISK_MINORS_def EVMGR_OUT_OF_RANGE_def
  EVMGR_DEC_MAX_def EVMGR_CKS_def EFAULT_def

definition IS_DS_ATTACHED :: "volume \<Rightarrow> bool" where
  "IS_DS_ATTACHED v \<longleftrightarrow> bit (v_state v) ATTACHED_BIT"

definition IS_DS_DETACHING :: "volume \<Rightarrow> bool" where
  "IS_DS_DETACHING v \<longleftrightarrow> bit (v_state v) DETACHING_BIT"

definition SET_DS_ATTACHED :: "volume \<Rightarrow> volume" where
  "SET_DS_ATTACHED v = v\<lparr>v_state := set_bit ATTACHED_BIT (v_state v)\<rparr>"

definition SET_DS_DETACHING :: "volume \<Rightarrow> volume" where
  "SET_DS_DETACHING v = v\<lparr>v_state := set_bit DETACHING_BIT (v_state v)\<rparr>"

definition SET_DS_NOT_ATTACH :: "volume \<Rightarrow> volume" where
  "SET_DS_NOT_ATTACH v = v\<lparr>v_state := unset_bit DETACHING_BIT (unset_bit ATTACHED_BIT (v_state v))\<rparr>"

definition OPEN_COUNTER_IN_VOL :: "volume \<Rightarrow> int" where
  "OPEN_COUNTER_IN_VOL v = v_open_counter v"

definition IS_OPEN_COUNTER_EMPTY_IN_VOL :: "volume \<Rightarrow> bool" where
  "IS_OPEN_COUNTER_EMPTY_IN_VOL v \<longleftrightarrow> OPEN_COUNTER_IN_VOL v = 0"

definition NUM_LINGER_IO_IN_VOL :: "request_statistic \<Rightarrow> int" where
  "NUM_LINGER_IO_IN_VOL rs = wreq_counter rs + rreq_counter rs + ovwreq_counter rs"

definition IS_IOREQ_EMPTY_IN_VOL :: "request_statistic \<Rightarrow> bool" where
  "IS_IOREQ_EMPTY_IN_VOL rs \<longleftrightarrow> wreq_counter rs = 0 \<and> rreq_counter rs = 0 \<and> ovwreq_counter rs = 0"

section \<open>Creation\<close>

definition Init_Volume_Statistic :: request_statistic where
  "Init_Volume_Statistic = \<lparr>wreq_counter = 0, rreq_counter = 0, ovwreq_counter = 0\<rparr>"

definition Init_DMS_Volume :: "int \<Rightarrow> u64 \<Rightarrow> volume" where
  "Init_DMS_Volume volumeID dsectors =
     \<lparr>v_volumeID = volumeID, v_replica_factor = 0, v_state = 0, v_minor_index = - 1,
      v_open_counter = 0, v_r_queue = False, v_disk = None, v_dsectors = dsectors,
      v_io_statistic = Init_Volume_Statistic, v_linger_io = Init_Volume_Statistic\<rparr>"

text \<open>What the kernel answers: memory for the volume, a queue, a disk.\<close>

record kernel_answers =
  kern_mem :: bool
  kern_queue :: bool
  kern_disk :: bool

definition DMS_Create_Request_Queue :: "kernel_answers \<Rightarrow> bool" where
  "DMS_Create_Request_Queue kern = kern_queue kern"

definition DMS_Create_gendisk :: "kernel_answers \<Rightarrow> volume \<Rightarrow> int \<Rightarrow> gendisk option" where
  "DMS_Create_gendisk kern v index =
     (if kern_disk kern
      then Some \<lparr>g_first_minor = index * DMS_DISK_MINORS,
                 g_capacity = DSECTORS_TO_KSECTORS (v_dsectors v), g_up = False\<rparr>
      else None)"

definition Create_Kernel_Device_Structure :: "kernel_answers \<Rightarrow> volume \<Rightarrow> int \<times> volume" where
  "Create_Kernel_Device_Structure kern v =
     (if \<not> DMS_Create_Request_Queue kern then (- EVMGR_CKS, v)
      else (case DMS_Create_gendisk kern v (v_minor_index v) of
              None \<Rightarrow> (- EVMGR_CKS, v)
            | Some disk \<Rightarrow> (DMS_OK, v\<lparr>v_r_queue := True, v_disk := Some disk\<rparr>)))"

definition Create_Volume :: "kernel_answers \<Rightarrow> int \<Rightarrow> u64 \<Rightarrow> int \<Rightarrow> volume option" where
  "Create_Volume kern volumeID dsectors index =
     (if \<not> kern_mem kern then None
      else (case Create_Kernel_Device_Structure kern
                   ((Init_DMS_Volume volumeID dsectors)\<lparr>v_minor_index := index\<rparr>) of
              (retcode, v) \<Rightarrow> if retcode < 0 then None else Some v))"

text \<open>Releasing the kernel structures: the queue is synchronised first; a disk that is
  not up is left alone.  The code never changes its initial \<open>retcode\<close>.  \<open>None\<close>
  reads through a NULL queue or disk.\<close>

definition Sync_Disk_Queue :: "volume \<Rightarrow> unit option" where
  "Sync_Disk_Queue v = (if v_r_queue v then Some () else None)"

definition Release_Kernel_Device_Structure :: "volume \<Rightarrow> (int \<times> bool) option" where
  "Release_Kernel_Device_Structure v = do {
     _ \<leftarrow> Sync_Disk_Queue v;
     disk \<leftarrow> v_disk v;
     Some (- EVMGR_CKS, g_up disk)
   }"

section \<open>Attach, detach, open, close\<close>

definition Attach_Volume :: "volume \<Rightarrow> int \<times> volume" where
  "Attach_Volume v =
     (DMS_OK, (SET_DS_ATTACHED v)\<lparr>v_disk := map_option (\<lambda>g. g\<lparr>g_up := True\<rparr>) (v_disk v)\<rparr>)"

text \<open>\<open>nr_detach_cmds\<close> is threaded as an argument and a result.\<close>

definition Detach_Volume_Prep :: "int \<Rightarrow> volume \<Rightarrow> int \<times> int \<times> volume" where
  "Detach_Volume_Prep nr_detach_cmds v = (DMS_OK, nr_detach_cmds + 1, SET_DS_DETACHING v)"

definition Detach_Volume :: "int \<Rightarrow> volume \<Rightarrow> (int \<times> int \<times> volume) option" where
  "Detach_Volume nr_detach_cmds v = do {
     _ \<leftarrow> Sync_Disk_Queue v;
     let (_, n, v) = Detach_Volume_Prep nr_detach_cmds v;
     Some (DMS_OK, n - 1, SET_DS_NOT_ATTACH v)
   }"

definition Open_Volume :: "volume \<Rightarrow> int \<times> volume" where
  "Open_Volume v =
     (if \<not> bit (v_state v) DETACHING_BIT then (0, v\<lparr>v_open_counter := v_open_counter v + 1\<rparr>)
      else (- EFAULT, v))"

definition Close_Volume :: "volume \<Rightarrow> int \<times> volume" where
  "Close_Volume v = (0, v\<lparr>v_open_counter := v_open_counter v - 1\<rparr>)"

section \<open>Geometry\<close>

record hd_geometry =
  hg_heads :: u8
  hg_sectors :: u8
  hg_cylinders :: u16

definition DMS_getgeo :: "u64 \<Rightarrow> hd_geometry" where
  "DMS_getgeo nsect =
     (let heads = (0xff :: u8); sectors = (0x3f :: u8);
          cylinders = (ucast (nsect div (ucast heads * ucast sectors)) :: u16)
      in \<lparr>hg_heads = heads, hg_sectors = sectors,
          hg_cylinders = (if (ucast cylinders + 1) * ucast heads * ucast sectors < nsect
                          then 0xffff else cylinders)\<rparr>)"

text \<open>The geometry reported for a disk of \<open>nsect\<close> sectors is 255 heads, 63 sectors
  per track and the number of whole cylinders, saturated at 65535: the 16-bit
  field never shows a wrapped count.\<close>
theorem DMS_getgeo_cylinders:
  "hg_heads (DMS_getgeo nsect) = 255 \<and> hg_sectors (DMS_getgeo nsect) = 63
   \<and> unat (hg_cylinders (DMS_getgeo nsect)) = min (unat nsect div (255 * 63)) 65535"
proof -
  define q where "q = unat nsect div 16065"
  have q: "unat (nsect div 16065) = q" by (simp add: q_def unat_div_distrib)
  define cy where "cy = (ucast (nsect div 16065) :: u16)"
  have c: "unat cy = q mod 65536"
    by (simp add: cy_def unsigned_ucast_eq q take_bit_eq_mod)
  have up: "unat (ucast cy :: u64) = q mod 65536"
    using c by (simp add: unsigned_ucast_eq take_bit_eq_mod)
  then have s: "unat (ucast cy + 1 :: u64) = q mod 65536 + 1"
    using unat_plus_nat [of "ucast cy" 1] by simp
  have n: "unat (16065 :: u64) = 16065" by simp
  have "(q mod 65536 + 1) * 16065 < 2 ^ 64" using mod_less_divisor [of 65536 q] by simp
  then have m: "unat ((ucast cy + 1) * 16065 :: u64) = (q mod 65536 + 1) * 16065"
    using unat_times_nat [of "ucast cy + 1" 16065] unfolding s n by blast
  have lt: "((ucast cy + 1) * 16065 < nsect) = ((q mod 65536 + 1) * 16065 < unat nsect)"
    by (simp only: word_less_nat_alt m)
  have "unat nsect < (q + 1) * 16065" "q * 16065 \<le> unat nsect" unfolding q_def by simp_all
  then have small: "q < 65536 \<Longrightarrow> \<not> (q mod 65536 + 1) * 16065 < unat nsect" by simp
  have big: "(q mod 65536 + 1) * 16065 < unat nsect" if "65536 \<le> q"
  proof -
    have "q mod 65536 + 1 < q"
    proof (cases "q = 65536")
      case False
      with that have "65536 < q" by simp
      moreover have "q mod 65536 < 65536" by simp
      ultimately show ?thesis by linarith
    qed simp
    then have "(q mod 65536 + 1) * 16065 < q * 16065" by simp
    with \<open>q * 16065 \<le> unat nsect\<close> show ?thesis by linarith
  qed
  have "unat (hg_cylinders (DMS_getgeo nsect)) = (if (q mod 65536 + 1) * 16065 < unat nsect then 65535 else q mod 65536)"
    using lt c by (simp add: DMS_getgeo_def Let_def mult.assoc flip: cy_def)
  also have "\<dots> = min q 65535"
    using small big by (cases "q < 65536") auto
  finally show ?thesis by (simp add: DMS_getgeo_def Let_def q_def)
qed

end
