(* ===== verification/Slot_Table.thy ===== *)
theory Slot_Table
  imports Main
begin

text \<open>
  The interface of a table of slots with unique keys, which the volume table
  (\<open>Volume_Manager.c\<close>) and the socket table (\<open>SSockets_Manager.c\<close>) provide: a
  lookup by key, the insertion of a new key in the first free slot, and the
  removal of a key.  \<open>entries s i\<close> is the key in slot \<open>i\<close>.
\<close>

locale slot_table =
  fixes inv :: "'s \<Rightarrow> bool"
    and entries :: "'s \<Rightarrow> nat \<Rightarrow> 'k option"
    and lookup :: "'k \<Rightarrow> 's \<Rightarrow> nat option"
    and insert :: "'k \<Rightarrow> 's \<Rightarrow> (bool \<times> 's)"
    and remove :: "'k \<Rightarrow> 's \<Rightarrow> (bool \<times> 's)"
  assumes unique: "inv s \<Longrightarrow> entries s i = Some k \<Longrightarrow> entries s j = Some k \<Longrightarrow> i = j"
    and lookup_Some: "inv s \<Longrightarrow> lookup k s = Some i \<longleftrightarrow> entries s i = Some k"
    and insert_old: "inv s \<Longrightarrow> k \<in> ran (entries s) \<Longrightarrow> insert k s = (b, s') \<Longrightarrow>
      \<not> b \<and> inv s' \<and> entries s' = entries s"
    and insert_new: "inv s \<Longrightarrow> k \<notin> ran (entries s) \<Longrightarrow> insert k s = (b, s') \<Longrightarrow>
      inv s' \<and> (if b then \<exists>i. entries s i = None \<and> entries s' = (entries s)(i \<mapsto> k) else entries s' = entries s)"
    and remove_spec: "inv s \<Longrightarrow> remove k s = (b, s') \<Longrightarrow>
      inv s' \<and> (if b then \<exists>i. entries s i = Some k \<and> entries s' = (entries s)(i := None) else entries s' = entries s)"
begin

definition keys :: "'s \<Rightarrow> 'k set" where
  "keys s = ran (entries s)"

lemma lookup_None: "inv s \<Longrightarrow> lookup k s = None \<longleftrightarrow> k \<notin> keys s"
  using lookup_Some [of s k] by (cases "lookup k s") (auto simp: keys_def ran_def)

lemma keys_insert: "inv s \<Longrightarrow> insert k s = (b, s') \<Longrightarrow>
  keys s' = (if b then Set.insert k (keys s) else keys s) \<and> inv s' \<and> (b \<longrightarrow> k \<notin> keys s)"
proof -
  assume inv: "inv s" and i: "insert k s = (b, s')"
  show ?thesis
  proof (cases "k \<in> ran (entries s)")
    case False
    from insert_new [OF inv False i] False show ?thesis
      by (cases b) (auto simp: keys_def)
  next
    case True
    from insert_old [OF inv True i] show ?thesis by (simp add: keys_def)
  qed
qed

lemma keys_remove: "inv s \<Longrightarrow> remove k s = (b, s') \<Longrightarrow>
  keys s' = (if b then keys s - {k} else keys s) \<and> inv s' \<and> (b \<longrightarrow> k \<in> keys s)"
proof -
  assume inv: "inv s" and r: "remove k s = (b, s')"
  show ?thesis
  proof (cases b)
    case True
    with remove_spec [OF inv r] obtain i where "inv s'" "entries s i = Some k" "entries s' = (entries s)(i := None)"
      by auto
    moreover from this have "ran (entries s') = ran (entries s) - {k}"
      using unique [OF inv] by (auto simp: ran_def split: if_splits) (metis option.inject)
    ultimately show ?thesis using True by (auto simp: keys_def ran_def)
  next
    case False
    with remove_spec [OF inv r] show ?thesis by (simp add: keys_def)
  qed
qed

lemma lookup_insert: "inv s \<Longrightarrow> insert k s = (True, s') \<Longrightarrow>
  \<exists>i. entries s i = None \<and> lookup k s' = Some i \<and> (\<forall>l. l \<noteq> k \<longrightarrow> lookup l s' = lookup l s)"
proof -
  assume inv: "inv s" and i: "insert k s = (True, s')"
  then have new: "k \<notin> ran (entries s)" using insert_old by blast
  from insert_new [OF inv new i] obtain j where
    j: "inv s'" "entries s j = None" "entries s' = (entries s)(j \<mapsto> k)" by auto
  have "lookup l s' = lookup l s" if "l \<noteq> k" for l
  proof (cases "lookup l s")
    case None
    with inv have "l \<notin> keys s" by (simp add: lookup_None)
    with keys_insert [OF inv i] that have "lookup l s' = None" by (simp add: lookup_None)
    with None show ?thesis by simp
  next
    case (Some m)
    with inv have "entries s m = Some l" by (simp add: lookup_Some)
    with j that Some show ?thesis by (auto simp: lookup_Some)
  qed
  with j show ?thesis by (auto simp: lookup_Some)
qed

lemma lookup_remove: "inv s \<Longrightarrow> remove k s = (True, s') \<Longrightarrow>
  lookup k s' = None \<and> (\<forall>l. l \<noteq> k \<longrightarrow> lookup l s' = lookup l s)"
proof -
  assume inv: "inv s" and r: "remove k s = (True, s')"
  from remove_spec [OF this] obtain j where
    j: "inv s'" "entries s j = Some k" "entries s' = (entries s)(j := None)" by auto
  from keys_remove [OF inv r] j(1) have "lookup k s' = None" by (simp add: lookup_None)
  moreover have "lookup l s' = lookup l s" if "l \<noteq> k" for l
  proof (cases "lookup l s")
    case None
    with inv have "l \<notin> keys s" by (simp add: lookup_None)
    with keys_remove [OF inv r] have "lookup l s' = None" by (simp add: lookup_None)
    with None show ?thesis by simp
  next
    case (Some m)
    with inv have m: "entries s m = Some l" by (simp add: lookup_Some)
    with j that have "m \<noteq> j" by auto
    with j m Some show ?thesis by (simp add: lookup_Some)
  qed
  ultimately show ?thesis by simp
qed

text \<open>A run of commands: the keys are those inserted with success and not removed
  since.\<close>

fun run :: "(bool \<times> 'k) list \<Rightarrow> 's \<Rightarrow> bool list \<times> 's" where
  "run [] s = ([], s)"
| "run ((ins, k) # cs) s =
     (case (if ins then insert k s else remove k s) of (b, s') \<Rightarrow>
       (case run cs s' of (bs, t) \<Rightarrow> (b # bs, t)))"

fun replay :: "(bool \<times> 'k) list \<Rightarrow> bool list \<Rightarrow> 'k set \<Rightarrow> 'k set" where
  "replay ((ins, k) # cs) (b # bs) K =
     replay cs bs (if b then (if ins then Set.insert k K else K - {k}) else K)"
| "replay _ _ K = K"

lemma run_keys: "inv s \<Longrightarrow> run cs s = (bs, t) \<Longrightarrow> inv t \<and> keys t = replay cs bs (keys s)"
proof (induction cs arbitrary: s bs)
  case Nil
  then show ?case by simp
next
  case (Cons c cs)
  obtain ins k where c: "c = (ins, k)" by (cases c)
  obtain b s1 where 1: "(if ins then insert k s else remove k s) = (b, s1)" by fastforce
  obtain bs' where 2: "run cs s1 = (bs', t)" "bs = b # bs'"
    using Cons.prems(2) 1 by (auto simp: c split: prod.splits)
  have "inv s1 \<and> keys s1 = (if b then (if ins then Set.insert k (keys s) else keys s - {k}) else keys s)"
    using keys_insert [OF Cons.prems(1)] keys_remove [OF Cons.prems(1)] 1 by (auto split: if_splits)
  with Cons.IH [of s1 bs'] 2 c show ?case by auto
qed

end

end
