(* ===== verification/Volume_Manager.thy ===== *)
theory Volume_Manager
  imports Volume Slot_Table
begin

text \<open>
  The table of attached volumes, \<open>DriverCore/Volume_Manager.c\<close>, and the entry
  points of \<open>DMS_VDDriver.c\<close> that use it.  A slot of \<open>all_volumes\<close> is NULL, a
  volume ID stored as a pointer (while the volume is being created), or a
  pointer to a volume.  Reading through an ID, or indexing past the allocated
  array, is a fault (\<open>None\<close>).
\<close>

section \<open>State\<close>

datatype vslot = Slot_Null | Slot_Cookie int | Slot_Ptr nat

record vmgr =
  vm_slots :: "vslot list"               \<comment> \<open>the array \<open>all_volumes\<close> points to\<close>
  vm_max :: nat                          \<comment> \<open>\<open>dms_max_nr_volumes\<close>\<close>
  vm_vols :: "nat \<rightharpoonup> volume"
  vm_next :: nat                         \<comment> \<open>supply of addresses\<close>
  vm_nr_detach_cmds :: int

definition DMS_MINOR_START :: nat where "DMS_MINOR_START = 1"
definition EEXIST :: int where "EEXIST = 17"
definition ENODEV :: int where "ENODEV = 19"
definition EBUSY :: int where "EBUSY = 16"
definition ATTACH_FAIL :: int where "ATTACH_FAIL = EFAULT"
definition DETACH_FAIL :: int where "DETACH_FAIL = EFAULT"

definition IS_IN_ALL_VOLUME_RANGE :: "vmgr \<Rightarrow> int \<Rightarrow> bool" where
  "IS_IN_ALL_VOLUME_RANGE m index = IS_IN_RANGE index (int DMS_MINOR_START) (int (vm_max m) - 1)"

definition GET_DMS_VOLUMES_INDEX_BY_MINOR :: "int \<Rightarrow> int" where
  "GET_DMS_VOLUMES_INDEX_BY_MINOR minor = minor div DMS_DISK_MINORS"

text \<open>\<open>(struct DMS_Volume *)volumeID\<close> and \<open>(long64)slot\<close>; the ID 0 is NULL.\<close>

definition cookie :: "int \<Rightarrow> vslot" where
  "cookie volumeID = (if volumeID = 0 then Slot_Null else Slot_Cookie volumeID)"

fun slot_as_int :: "vslot \<Rightarrow> int" where
  "slot_as_int Slot_Null = 0"
| "slot_as_int (Slot_Cookie c) = c"
| "slot_as_int (Slot_Ptr a) = int a"

text \<open>\<open>CHECK_PTR\<close>: not NULL and not in the error range of \<open>IS_ERR\<close>.\<close>

fun check_slot :: "vslot \<Rightarrow> bool" where
  "check_slot Slot_Null = False"
| "check_slot (Slot_Cookie c) = (\<not> (- 4095 \<le> c \<and> c < 0))"
| "check_slot (Slot_Ptr a) = True"

definition read_slot :: "vmgr \<Rightarrow> nat \<Rightarrow> vslot option" where
  "read_slot m i = (if i < length (vm_slots m) then Some (vm_slots m ! i) else None)"

definition write_slot :: "vmgr \<Rightarrow> nat \<Rightarrow> vslot \<Rightarrow> vmgr option" where
  "write_slot m i s = (if i < length (vm_slots m) then Some (m\<lparr>vm_slots := (vm_slots m)[i := s]\<rparr>) else None)"

fun slot_volume :: "vmgr \<Rightarrow> vslot \<Rightarrow> volume option" where
  "slot_volume m (Slot_Ptr a) = vm_vols m a"
| "slot_volume m _ = None"

definition put_volume :: "nat \<Rightarrow> volume \<Rightarrow> vmgr \<Rightarrow> vmgr" where
  "put_volume a v m = m\<lparr>vm_vols := (vm_vols m)(a \<mapsto> v)\<rparr>"

section \<open>Lookup\<close>

text \<open>The loop over \<open>DMS_MINOR_START .. dms_max_nr_volumes - 1\<close> that both lookups share:
  the first slot whose volume has the ID.\<close>

fun search_volume :: "vmgr \<Rightarrow> int \<Rightarrow> nat list \<Rightarrow> nat option option" where
  "search_volume m volumeID [] = Some None"
| "search_volume m volumeID (i # is) = do {
     s \<leftarrow> read_slot m i;
     if check_slot s then do {
       v \<leftarrow> slot_volume m s;
       if v_volumeID v = volumeID then Some (Some i) else search_volume m volumeID is
     } else search_volume m volumeID is
   }"

definition Get_DMS_Volume_Index_by_VolumeID :: "int \<Rightarrow> vmgr \<Rightarrow> int option" where
  "Get_DMS_Volume_Index_by_VolumeID volumeID m = do {
     r \<leftarrow> search_volume m volumeID [DMS_MINOR_START..<vm_max m];
     Some (case r of None \<Rightarrow> - 1 | Some i \<Rightarrow> int i)
   }"

definition Get_Volume_ptr_by_VolumeID :: "int \<Rightarrow> vmgr \<Rightarrow> vslot option" where
  "Get_Volume_ptr_by_VolumeID volumeID m = do {
     r \<leftarrow> search_volume m volumeID [DMS_MINOR_START..<vm_max m];
     case r of None \<Rightarrow> Some Slot_Null | Some i \<Rightarrow> read_slot m i
   }"

definition Get_Volume_ptr_by_gendisk :: "gendisk \<Rightarrow> vmgr \<Rightarrow> vslot option" where
  "Get_Volume_ptr_by_gendisk disk m =
     read_slot m (nat (GET_DMS_VOLUMES_INDEX_BY_MINOR (g_first_minor disk)))"

definition Check_Volume_Existence :: "int \<Rightarrow> vmgr \<Rightarrow> bool option" where
  "Check_Volume_Existence volumeID m = do {
     index \<leftarrow> Get_DMS_Volume_Index_by_VolumeID volumeID m;
     Some (IS_IN_ALL_VOLUME_RANGE m index)
   }"

section \<open>Slots\<close>

fun search_free :: "vmgr \<Rightarrow> nat list \<Rightarrow> nat option option" where
  "search_free m [] = Some None"
| "search_free m (i # is) = do {
     s \<leftarrow> read_slot m i;
     if s = Slot_Null then Some (Some i) else search_free m is
   }"

definition Occupy_in_All_Volumes :: "int \<Rightarrow> vmgr \<Rightarrow> (int \<times> vmgr) option" where
  "Occupy_in_All_Volumes volumeID m = do {
     r \<leftarrow> search_free m [DMS_MINOR_START..<vm_max m];
     case r of
       None \<Rightarrow> Some (- EVMGR_OUT_OF_RANGE, m)
     | Some i \<Rightarrow> do { m \<leftarrow> write_slot m i (cookie volumeID); Some (int i, m) }
   }"

definition Insert_Volume_to_All_Volumes :: "nat \<Rightarrow> vmgr \<Rightarrow> (int \<times> vmgr) option" where
  "Insert_Volume_to_All_Volumes a m = do {
     v \<leftarrow> vm_vols m a;
     let index = v_minor_index v;
     if IS_IN_ALL_VOLUME_RANGE m index then do {
       s \<leftarrow> read_slot m (nat index);
       if slot_as_int s = v_volumeID v
       then do { m \<leftarrow> write_slot m (nat index) (Slot_Ptr a); Some (index, m) }
       else Some (- DMS_FAIL, m)
     } else Some (- EVMGR_OUT_OF_RANGE, m)
   }"

definition Remove_Volume_from_All_Volumes :: "int \<Rightarrow> vmgr \<Rightarrow> (int \<times> vmgr) option" where
  "Remove_Volume_from_All_Volumes index m =
     (if IS_IN_ALL_VOLUME_RANGE m index
      then do { m \<leftarrow> write_slot m (nat index) Slot_Null; Some (DMS_OK, m) }
      else Some (- EVMGR_OUT_OF_RANGE, m))"

text \<open>Releasing a volume frees it after its kernel structures.\<close>

definition Release_Volume :: "nat \<Rightarrow> vmgr \<Rightarrow> vmgr option" where
  "Release_Volume a m = do {
     v \<leftarrow> vm_vols m a;
     _ \<leftarrow> Release_Kernel_Device_Structure v;
     Some (m\<lparr>vm_vols := (vm_vols m)(a := None)\<rparr>)
   }"

definition Create_and_Insert_DMS_Volume ::
    "kernel_answers \<Rightarrow> int \<Rightarrow> u64 \<Rightarrow> vmgr \<Rightarrow> (nat option \<times> vmgr) option" where
  "Create_and_Insert_DMS_Volume kern volumeID dsectors m = do {
     (index, m) \<leftarrow> Occupy_in_All_Volumes volumeID m;
     if IS_IN_ALL_VOLUME_RANGE m index then
       (case Create_Volume kern volumeID dsectors index of
          None \<Rightarrow> do { (_, m) \<leftarrow> Remove_Volume_from_All_Volumes index m; Some (None, m) }
        | Some v \<Rightarrow> do {
            let a = vm_next m;
            let m = put_volume a v (m\<lparr>vm_next := a + 1\<rparr>);
            (index, m) \<leftarrow> Insert_Volume_to_All_Volumes a m;
            if IS_IN_ALL_VOLUME_RANGE m index then Some (Some a, m)
            else do { m \<leftarrow> Release_Volume a m; Some (None, m) }
          })
     else Some (None, m)
   }"

definition Remove_and_Release_DMS_Volume :: "nat \<Rightarrow> vmgr \<Rightarrow> vmgr option" where
  "Remove_and_Release_DMS_Volume a m = do {
     v \<leftarrow> vm_vols m a;
     (_, m) \<leftarrow> Remove_Volume_from_All_Volumes (v_minor_index v) m;
     Release_Volume a m
   }"

section \<open>Initialisation and resizing\<close>

text \<open>Resizing copies the table to a new array and raises the limit, but never makes
  \<open>all_volumes\<close> point to the new array.\<close>

definition Dynamic_Change_Max_Volume_Size :: "bool \<Rightarrow> nat \<Rightarrow> vmgr \<Rightarrow> int \<times> vmgr" where
  "Dynamic_Change_Max_Volume_Size malloc_ok new_size m =
     (if \<not> malloc_ok then (- DMS_FAIL, m)
      else if new_size > vm_max m then (DMS_OK, m\<lparr>vm_max := new_size\<rparr>)
      else (- EVMGR_DEC_MAX, m))"

definition Init_DMS_Volume_Manager :: "bool \<Rightarrow> vmgr \<Rightarrow> int \<times> vmgr" where
  "Init_DMS_Volume_Manager malloc_ok m =
     (if malloc_ok then (DMS_OK, m\<lparr>vm_slots := replicate (vm_max m) Slot_Null, vm_nr_detach_cmds := 0\<rparr>)
      else (- DMS_FAIL, m))"

fun release_slots :: "nat list \<Rightarrow> vmgr \<Rightarrow> vmgr option" where
  "release_slots [] m = Some m"
| "release_slots (i # is) m = do {
     s \<leftarrow> read_slot m i;
     if check_slot s then do {
       (_, m) \<leftarrow> Remove_Volume_from_All_Volumes (int i) m;
       (case s of Slot_Ptr a \<Rightarrow> do { m \<leftarrow> Release_Volume a m; release_slots is m } | _ \<Rightarrow> None)
     } else release_slots is m
   }"

definition Release_DMS_Volume_Manager :: "vmgr \<Rightarrow> vmgr option" where
  "Release_DMS_Volume_Manager m = release_slots [DMS_MINOR_START..<vm_max m] m"

section \<open>Attach, detach, open, close\<close>

definition DMS_Attach_Volume :: "kernel_answers \<Rightarrow> int \<Rightarrow> u64 \<Rightarrow> vmgr \<Rightarrow> (int \<times> vmgr) option" where
  "DMS_Attach_Volume kern volumeID dsectors m = do {
     e \<leftarrow> Check_Volume_Existence volumeID m;
     if \<not> e then do {
       (r, m) \<leftarrow> Create_and_Insert_DMS_Volume kern volumeID dsectors m;
       case r of
         None \<Rightarrow> Some (- ATTACH_FAIL, m)
       | Some a \<Rightarrow> do {
           v \<leftarrow> vm_vols m a;
           let (retcode, v) = Attach_Volume v;
           Some (retcode, put_volume a v m)
         }
     } else Some (- EEXIST, m)
   }"

definition DMS_Detach_Volume :: "int \<Rightarrow> vmgr \<Rightarrow> (int \<times> vmgr) option" where
  "DMS_Detach_Volume volumeID m = do {
     s \<leftarrow> Get_Volume_ptr_by_VolumeID volumeID m;
     case s of
       Slot_Null \<Rightarrow> Some (- ENODEV, m)
     | Slot_Cookie _ \<Rightarrow> None
     | Slot_Ptr a \<Rightarrow> do {
         v \<leftarrow> vm_vols m a;
         if \<not> IS_OPEN_COUNTER_EMPTY_IN_VOL v then Some (- EBUSY, m)
         else do {
           (retcode, n, v) \<leftarrow> Detach_Volume (vm_nr_detach_cmds m) v;
           let m = (put_volume a v m)\<lparr>vm_nr_detach_cmds := n\<rparr>;
           if retcode = DMS_OK
           then do { m \<leftarrow> Remove_and_Release_DMS_Volume a m; Some (retcode, m) }
           else Some (retcode, m)
         }
       }
   }"

text \<open>Open and close by minor number; an index out of range answers 0.\<close>

definition on_minor :: "(volume \<Rightarrow> int \<times> volume) \<Rightarrow> int \<Rightarrow> int \<Rightarrow> vmgr \<Rightarrow> (int \<times> vmgr) option" where
  "on_minor f null_code unit m =
     (let index = GET_DMS_VOLUMES_INDEX_BY_MINOR unit
      in if IS_IN_ALL_VOLUME_RANGE m index then do {
           s \<leftarrow> read_slot m (nat index);
           if check_slot s then (case s of
               Slot_Ptr a \<Rightarrow> do { v \<leftarrow> vm_vols m a; let (r, v) = f v; Some (r, put_volume a v m) }
             | _ \<Rightarrow> None)
           else Some (null_code, m)
         } else Some (0, m))"

definition Open_DMS_Volume :: "int \<Rightarrow> vmgr \<Rightarrow> (int \<times> vmgr) option" where
  "Open_DMS_Volume unit m = on_minor Open_Volume (- EFAULT) unit m"

definition Close_DMS_Volume :: "int \<Rightarrow> vmgr \<Rightarrow> (int \<times> vmgr) option" where
  "Close_DMS_Volume unit m = on_minor Close_Volume 0 unit m"

section \<open>Control commands\<close>

datatype ioctl_cmd =
    IOCTL_RESET_DRIVER
  | IOCTL_ATTACH_VOL int u64       \<comment> \<open>volume ID, capacity in bytes\<close>
  | IOCTL_DETATCH_VOL int
  | IOCTL_FLUSH_VOL int
  | IOCTL_RESETOVERWRITTEN int
  | IOCTL_INVALIDCACHE
  | IOCTL_RELEASE_DRIVER
  | IOCTL_UNKNOWN

definition EPERM :: int where "EPERM = 1"
definition ENOTTY :: int where "ENOTTY = 25"
definition DMS_DRIVER_STATE_WORKING_BIT :: nat where "DMS_DRIVER_STATE_WORKING_BIT = 0"

definition IOCTL_AttachVolume :: "kernel_answers \<Rightarrow> int \<Rightarrow> u64 \<Rightarrow> vmgr \<Rightarrow> (int \<times> vmgr) option" where
  "IOCTL_AttachVolume kern volid capacity_in_bytes m =
     DMS_Attach_Volume kern volid (CAL_NR_DMSBLKS capacity_in_bytes) m"

definition IOCTL_DetachVolume :: "int \<Rightarrow> vmgr \<Rightarrow> (int \<times> vmgr) option" where
  "IOCTL_DetachVolume ioctl_param m = DMS_Detach_Volume ioctl_param m"

text \<open>\<open>g_dms_state\<close> is threaded as a word.\<close>

definition DMS_IOCTL_Handler ::
    "kernel_answers \<Rightarrow> bool \<Rightarrow> ioctl_cmd \<Rightarrow> u64 \<times> vmgr \<Rightarrow> (int \<times> u64 \<times> vmgr) option" where
  "DMS_IOCTL_Handler kern cap_sys_admin cmd = (\<lambda>(g_dms_state, m).
     if \<not> cap_sys_admin then Some (- EPERM, g_dms_state, m)
     else (case cmd of
        IOCTL_RESET_DRIVER \<Rightarrow> Some (DMS_OK, unset_bit DMS_DRIVER_STATE_WORKING_BIT g_dms_state, m)
      | IOCTL_ATTACH_VOL volid capacity \<Rightarrow>
          map_option (\<lambda>(r, m). (r, g_dms_state, m)) (IOCTL_AttachVolume kern volid capacity m)
      | IOCTL_DETATCH_VOL volid \<Rightarrow>
          map_option (\<lambda>(r, m). (r, g_dms_state, m)) (IOCTL_DetachVolume volid m)
      | _ \<Rightarrow> Some (- ENOTTY, g_dms_state, m)))"

section \<open>Invariant\<close>

text \<open>Between commands: the array has the length of the limit, slot 0 is unused, no
  volume is half created, a volume knows its slot and has its queue and a disk
  that is up, and no two slots hold the same volume ID or the same volume.\<close>

definition vol_ok :: "nat \<Rightarrow> volume \<Rightarrow> bool" where
  "vol_ok i v \<longleftrightarrow> v_minor_index v = int i \<and> v_r_queue v \<and> (\<exists>g. v_disk v = Some g \<and> g_up g)"

definition vm_entries :: "vmgr \<Rightarrow> nat \<Rightarrow> int option" where
  "vm_entries m i = (if 1 \<le> i \<and> i < vm_max m
     then map_option v_volumeID (slot_volume m (vm_slots m ! i)) else None)"

definition vm_wf :: "vmgr \<Rightarrow> bool" where
  "vm_wf m \<longleftrightarrow> length (vm_slots m) = vm_max m
     \<and> (\<forall>a v. vm_vols m a = Some v \<longrightarrow> a < vm_next m)
     \<and> (\<forall>i. 1 \<le> i \<and> i < vm_max m \<longrightarrow> vm_slots m ! i = Slot_Null \<or>
          (\<exists>a v. vm_slots m ! i = Slot_Ptr a \<and> vm_vols m a = Some v \<and> vol_ok i v))
     \<and> (\<forall>i j k. vm_entries m i = Some k \<longrightarrow> vm_entries m j = Some k \<longrightarrow> i = j)"

lemma vm_wf_slot:
  assumes "vm_wf m" and "1 \<le> i" and "i < vm_max m"
  obtains (free) "vm_slots m ! i = Slot_Null" "vm_entries m i = None" "read_slot m i = Some Slot_Null"
    | (used) a v where "vm_slots m ! i = Slot_Ptr a" "vm_vols m a = Some v" "vol_ok i v"
        "vm_entries m i = Some (v_volumeID v)" "read_slot m i = Some (Slot_Ptr a)"
proof -
  have rd: "read_slot m i = Some (vm_slots m ! i)" using assms by (simp add: read_slot_def vm_wf_def)
  from assms have "vm_slots m ! i = Slot_Null \<or>
      (\<exists>a v. vm_slots m ! i = Slot_Ptr a \<and> vm_vols m a = Some v \<and> vol_ok i v)"
    by (simp add: vm_wf_def)
  then show ?thesis
  proof
    assume "vm_slots m ! i = Slot_Null"
    with rd assms show ?thesis by (intro free) (simp_all add: vm_entries_def)
  next
    assume "\<exists>a v. vm_slots m ! i = Slot_Ptr a \<and> vm_vols m a = Some v \<and> vol_ok i v"
    then obtain a v where "vm_slots m ! i = Slot_Ptr a" "vm_vols m a = Some v" "vol_ok i v" by blast
    with rd assms show ?thesis by (intro used [of a v]) (simp_all add: vm_entries_def)
  qed
qed

lemma vm_entries_range: "vm_entries m i = Some k \<Longrightarrow> 1 \<le> i \<and> i < vm_max m"
  by (simp add: vm_entries_def split: if_splits)

lemma vm_wf_entry:
  assumes "vm_wf m" and "vm_entries m i = Some k"
  obtains a v where "1 \<le> i" "i < vm_max m" "vm_slots m ! i = Slot_Ptr a" "vm_vols m a = Some v" "vol_ok i v"
    "v_volumeID v = k" "read_slot m i = Some (Slot_Ptr a)"
proof -
  from vm_entries_range [OF assms(2)] have i: "1 \<le> i" "i < vm_max m" by auto
  from assms(1) i show ?thesis
  proof (cases rule: vm_wf_slot)
    case (used a v)
    with i assms(2) that show ?thesis by auto
  qed (use assms(2) in auto)
qed

lemma search_volume_find:
  assumes "vm_wf m" and "\<forall>i \<in> set is. 1 \<le> i \<and> i < vm_max m"
  shows "search_volume m vid is = Some (find (\<lambda>i. vm_entries m i = Some vid) is)"
  using assms(2)
proof (induction "is")
  case (Cons i "is")
  from Cons.prems have i: "1 \<le> i" "i < vm_max m" by auto
  from assms(1) i show ?case
    by (cases rule: vm_wf_slot) (use Cons in \<open>auto\<close>)
qed simp

lemma search_free_find:
  assumes "vm_wf m" and "\<forall>i \<in> set is. 1 \<le> i \<and> i < vm_max m"
  shows "search_free m is = Some (find (\<lambda>i. vm_entries m i = None) is)"
  using assms(2)
proof (induction "is")
  case (Cons i "is")
  from Cons.prems have i: "1 \<le> i" "i < vm_max m" by auto
  from assms(1) i show ?case
    by (cases rule: vm_wf_slot) (use Cons in \<open>auto\<close>)
qed simp

definition vm_lookup :: "int \<Rightarrow> vmgr \<Rightarrow> nat option" where
  "vm_lookup vid m = find (\<lambda>i. vm_entries m i = Some vid) [1..<vm_max m]"

definition vm_free :: "vmgr \<Rightarrow> nat option" where
  "vm_free m = find (\<lambda>i. vm_entries m i = None) [1..<vm_max m]"

lemma vm_lookup_Some: "vm_wf m \<Longrightarrow> vm_lookup vid m = Some i \<longleftrightarrow> vm_entries m i = Some vid"
proof -
  assume wf: "vm_wf m"
  have "vm_entries m i = Some vid" if "vm_lookup vid m = Some i" for i
    using that by (auto simp: vm_lookup_def find_Some_iff)
  moreover have "vm_lookup vid m \<noteq> None" if "vm_entries m i = Some vid" for i
    using that vm_entries_range [OF that] by (auto simp: vm_lookup_def find_None_iff)
  ultimately show ?thesis using wf unfolding vm_wf_def by (metis not_None_eq)
qed

lemma vm_free_Some:
  assumes "vm_free m = Some i"
  shows "1 \<le> i" "i < vm_max m" "vm_entries m i = None"
  using assms by (auto simp: vm_free_def find_Some_iff)

lemma Check_Volume_Existence_eq:
  assumes "vm_wf m"
  shows "Check_Volume_Existence vid m = Some (vm_lookup vid m \<noteq> None)"
proof -
  have "search_volume m vid [DMS_MINOR_START..<vm_max m] = Some (vm_lookup vid m)"
    by (subst search_volume_find [OF assms]) (auto simp: vm_lookup_def DMS_MINOR_START_def)
  moreover have "IS_IN_ALL_VOLUME_RANGE m (int i)" if "vm_lookup vid m = Some i" for i
    using that vm_entries_range [of m i vid] assms
    by (auto simp: vm_lookup_Some IS_IN_ALL_VOLUME_RANGE_def IS_IN_RANGE_def DMS_MINOR_START_def)
  ultimately show ?thesis
    by (auto simp: Check_Volume_Existence_def Get_DMS_Volume_Index_by_VolumeID_def IS_IN_ALL_VOLUME_RANGE_def
        IS_IN_RANGE_def DMS_MINOR_START_def split: option.splits)
qed

section \<open>Attach\<close>

definition kern_ok :: "kernel_answers \<Rightarrow> bool" where
  "kern_ok kern \<longleftrightarrow> kern_mem kern \<and> kern_queue kern \<and> kern_disk kern"

definition new_volume :: "int \<Rightarrow> u64 \<Rightarrow> nat \<Rightarrow> volume" where
  "new_volume vid ds i = (Init_DMS_Volume vid ds)\<lparr>v_minor_index := int i, v_r_queue := True,
     v_disk := Some \<lparr>g_first_minor = int i * DMS_DISK_MINORS, g_capacity = DSECTORS_TO_KSECTORS ds, g_up = False\<rparr>\<rparr>"

definition attached_volume :: "int \<Rightarrow> u64 \<Rightarrow> nat \<Rightarrow> volume" where
  "attached_volume vid ds i = snd (Attach_Volume (new_volume vid ds i))"

lemma Create_Volume_eq:
  "Create_Volume kern vid ds (int i) = (if kern_ok kern then Some (new_volume vid ds i) else None)"
  by (simp add: Create_Volume_def Create_Kernel_Device_Structure_def DMS_Create_Request_Queue_def
      DMS_Create_gendisk_def kern_ok_def new_volume_def Init_DMS_Volume_def vol_consts ret_defs)

lemma slot_as_int_cookie [simp]: "slot_as_int (cookie vid) = vid"
  by (simp add: cookie_def)

lemma Occupy_eq:
  assumes "vm_wf m"
  shows "Occupy_in_All_Volumes vid m = (case vm_free m of
      None \<Rightarrow> Some (- EVMGR_OUT_OF_RANGE, m)
    | Some i \<Rightarrow> Some (int i, m\<lparr>vm_slots := (vm_slots m)[i := cookie vid]\<rparr>))"
proof -
  have "search_free m [DMS_MINOR_START..<vm_max m] = Some (vm_free m)"
    by (subst search_free_find [OF assms]) (auto simp: vm_free_def DMS_MINOR_START_def)
  with assms vm_free_Some(2) [of m] show ?thesis
    by (auto simp: Occupy_in_All_Volumes_def write_slot_def vm_wf_def split: option.splits)
qed

lemma in_range: "IS_IN_ALL_VOLUME_RANGE m (int i) \<longleftrightarrow> 1 \<le> i \<and> i < vm_max m"
  by (auto simp: IS_IN_ALL_VOLUME_RANGE_def IS_IN_RANGE_def DMS_MINOR_START_def)

lemma out_of_range_code: "\<not> IS_IN_ALL_VOLUME_RANGE m (- EVMGR_OUT_OF_RANGE)"
  by (simp add: IS_IN_ALL_VOLUME_RANGE_def IS_IN_RANGE_def DMS_MINOR_START_def vol_consts)

lemma Create_and_Insert_eq:
  assumes wf: "vm_wf m"
  shows "Create_and_Insert_DMS_Volume kern vid ds m = (case vm_free m of
      None \<Rightarrow> Some (None, m)
    | Some i \<Rightarrow> if kern_ok kern
        then Some (Some (vm_next m), m\<lparr>vm_next := vm_next m + 1,
               vm_vols := (vm_vols m)(vm_next m \<mapsto> new_volume vid ds i),
               vm_slots := (vm_slots m)[i := Slot_Ptr (vm_next m)]\<rparr>)
        else Some (None, m))"
proof (cases "vm_free m")
  case None
  then show ?thesis
    using Occupy_eq [OF wf, of vid] by (simp add: Create_and_Insert_DMS_Volume_def out_of_range_code)
next
  case (Some i)
  note i = vm_free_Some [OF Some]
  let ?m1 = "m\<lparr>vm_slots := (vm_slots m)[i := cookie vid]\<rparr>"
  have len: "i < length (vm_slots m)" using wf i by (simp add: vm_wf_def)
  have rng: "IS_IN_ALL_VOLUME_RANGE ?m1 (int i)" using i by (simp add: in_range)
  have occ: "Occupy_in_All_Volumes vid m = Some (int i, ?m1)" using Occupy_eq [OF wf] Some by simp
  show ?thesis
  proof (cases "kern_ok kern")
    case False
    from wf i have "vm_slots m ! i = Slot_Null" by (cases rule: vm_wf_slot) auto
    then have "(vm_slots m)[i := Slot_Null] = vm_slots m" by (metis list_update_id)
    then have "Remove_Volume_from_All_Volumes (int i) ?m1 = Some (DMS_OK, m)"
      using rng len by (simp add: Remove_Volume_from_All_Volumes_def write_slot_def)
    with occ rng False Some show ?thesis
      by (simp add: Create_and_Insert_DMS_Volume_def Create_Volume_eq)
  next
    case True
    let ?v = "new_volume vid ds i" and ?a = "vm_next m"
    let ?m2 = "put_volume ?a ?v (?m1\<lparr>vm_next := ?a + 1\<rparr>)"
    have "Insert_Volume_to_All_Volumes ?a ?m2 = Some (int i, ?m2\<lparr>vm_slots := (vm_slots m)[i := Slot_Ptr ?a]\<rparr>)"
      using i len by (simp add: Insert_Volume_to_All_Volumes_def put_volume_def new_volume_def in_range
          read_slot_def write_slot_def Init_DMS_Volume_def Let_def)
    with occ rng True Some i show ?thesis
      by (simp add: Create_and_Insert_DMS_Volume_def Create_Volume_eq Let_def in_range put_volume_def)
  qed
qed

text \<open>Attach, on every branch.\<close>

definition vm_attached :: "vmgr \<Rightarrow> nat \<Rightarrow> int \<Rightarrow> u64 \<Rightarrow> vmgr" where
  "vm_attached m i vid ds = m\<lparr>vm_next := vm_next m + 1,
     vm_slots := (vm_slots m)[i := Slot_Ptr (vm_next m)],
     vm_vols := (vm_vols m)(vm_next m \<mapsto> attached_volume vid ds i)\<rparr>"

lemma Attach_eq:
  assumes wf: "vm_wf m"
  shows "DMS_Attach_Volume kern vid ds m = Some (
    if vm_lookup vid m \<noteq> None then (- EEXIST, m)
    else (case vm_free m of
        None \<Rightarrow> (- ATTACH_FAIL, m)
      | Some i \<Rightarrow> if kern_ok kern then (DMS_OK, vm_attached m i vid ds) else (- ATTACH_FAIL, m)))"
  using Create_and_Insert_eq [OF wf, of kern vid ds] Check_Volume_Existence_eq [OF wf, of vid]
  by (auto simp: DMS_Attach_Volume_def vm_attached_def attached_volume_def Attach_Volume_def put_volume_def
      Let_def split: option.splits)

lemma attached_volume_ok: "vol_ok i (attached_volume vid ds i)" "v_volumeID (attached_volume vid ds i) = vid"
  "v_open_counter (attached_volume vid ds i) = 0" "IS_DS_ATTACHED (attached_volume vid ds i)"
  by (simp_all add: vol_ok_def attached_volume_def Attach_Volume_def new_volume_def Init_DMS_Volume_def
      SET_DS_ATTACHED_def IS_DS_ATTACHED_def ATTACHED_BIT_def bit_simps)

lemma vm_attached_entries:
  assumes wf: "vm_wf m" and i: "1 \<le> i" "i < vm_max m"
  shows "vm_entries (vm_attached m i vid ds) = (vm_entries m)(i \<mapsto> vid)"
proof
  fix j
  have len: "length (vm_slots m) = vm_max m" using wf by (simp add: vm_wf_def)
  show "vm_entries (vm_attached m i vid ds) j = ((vm_entries m)(i \<mapsto> vid)) j"
  proof (cases "1 \<le> j \<and> j < vm_max m \<and> j \<noteq> i")
    case True
    then have j: "1 \<le> j" "j < vm_max m" by auto
    from wf j show ?thesis
    proof (cases rule: vm_wf_slot)
      case (used a v)
      then have "a \<noteq> vm_next m" using wf by (auto simp: vm_wf_def)
      with used True show ?thesis by (simp add: vm_entries_def vm_attached_def)
    qed (use True in \<open>simp add: vm_entries_def vm_attached_def\<close>)
  next
    case False
    show ?thesis
    proof (cases "j = i")
      case True
      with i len show ?thesis by (simp add: vm_entries_def vm_attached_def attached_volume_ok)
    next
      case out: False
      with False have "vm_entries m j = None" "vm_entries (vm_attached m i vid ds) j = None"
        by (auto simp: vm_entries_def vm_attached_def)
      with out show ?thesis by simp
    qed
  qed
qed

lemma vm_attached_wf:
  assumes wf: "vm_wf m" and i: "1 \<le> i" "i < vm_max m" and new: "vm_lookup vid m = None"
  shows "vm_wf (vm_attached m i vid ds)"
proof -
  have fresh: "vid \<noteq> k" if "vm_entries m j = Some k" for j k
    using new that vm_lookup_Some [OF wf, of vid j] by auto
  have "vm_slots (vm_attached m i vid ds) ! j = Slot_Null \<or> (\<exists>a v. vm_slots (vm_attached m i vid ds) ! j = Slot_Ptr a
      \<and> vm_vols (vm_attached m i vid ds) a = Some v \<and> vol_ok j v)"
    if j: "1 \<le> j" "j < vm_max m" for j
  proof (cases "j = i")
    case True
    with i wf show ?thesis by (simp add: vm_attached_def vm_wf_def attached_volume_ok)
  next
    case False
    from wf j show ?thesis
    proof (cases rule: vm_wf_slot)
      case (used a v)
      then have "a \<noteq> vm_next m" using wf by (auto simp: vm_wf_def)
      with used False show ?thesis by (simp add: vm_attached_def)
    qed (use False in \<open>simp add: vm_attached_def\<close>)
  qed
  moreover have "a = b" if "vm_entries (vm_attached m i vid ds) a = Some k" "vm_entries (vm_attached m i vid ds) b = Some k" for a b k
    using that fresh wf unfolding vm_attached_entries [OF wf i]
    by (auto simp: vm_wf_def split: if_splits)
  ultimately show ?thesis using wf
    by (auto simp: vm_wf_def vm_attached_def less_SucI)
qed

section \<open>Detach\<close>

definition vm_detached :: "vmgr \<Rightarrow> nat \<Rightarrow> nat \<Rightarrow> vmgr" where
  "vm_detached m i a = m\<lparr>vm_slots := (vm_slots m)[i := Slot_Null], vm_vols := (vm_vols m)(a := None)\<rparr>"

lemma Get_Volume_ptr_eq:
  assumes "vm_wf m"
  shows "Get_Volume_ptr_by_VolumeID vid m =
    (case vm_lookup vid m of None \<Rightarrow> Some Slot_Null | Some i \<Rightarrow> read_slot m i)"
proof -
  have "search_volume m vid [DMS_MINOR_START..<vm_max m] = Some (vm_lookup vid m)"
    by (subst search_volume_find [OF assms]) (auto simp: vm_lookup_def DMS_MINOR_START_def)
  then show ?thesis by (simp add: Get_Volume_ptr_by_VolumeID_def)
qed

lemma Detach_eq:
  assumes wf: "vm_wf m" and e: "vm_entries m i = Some vid" and a: "vm_slots m ! i = Slot_Ptr a" "vm_vols m a = Some v"
  shows "DMS_Detach_Volume vid m = Some (
    if v_open_counter v = 0 then (DMS_OK, vm_detached m i a) else (- EBUSY, m))"
proof -
  from wf e obtain b w where i: "1 \<le> i" "i < vm_max m" "vm_slots m ! i = Slot_Ptr b" "vm_vols m b = Some w" "vol_ok i w"
    "v_volumeID w = vid" "read_slot m i = Some (Slot_Ptr b)" by (rule vm_wf_entry)
  with a have bw: "b = a" "w = v" by auto
  have ptr: "Get_Volume_ptr_by_VolumeID vid m = Some (Slot_Ptr a)"
    using Get_Volume_ptr_eq [OF wf, of vid] vm_lookup_Some [OF wf, of vid i] e i bw by simp
  define v1 where "v1 = SET_DS_NOT_ATTACH (SET_DS_DETACHING v)"
  have v1: "v_minor_index v1 = int i" "v_r_queue v1" "v_disk v1 = v_disk v"
    using i(5) bw by (simp_all add: v1_def SET_DS_NOT_ATTACH_def SET_DS_DETACHING_def vol_ok_def)
  have det: "Detach_Volume (vm_nr_detach_cmds m) v = Some (DMS_OK, vm_nr_detach_cmds m, v1)"
    using i(5) bw by (simp add: Detach_Volume_def Sync_Disk_Queue_def vol_ok_def Detach_Volume_Prep_def v1_def)
  have len: "i < length (vm_slots m)" using wf i by (simp add: vm_wf_def)
  have "Remove_and_Release_DMS_Volume a (put_volume a v1 m) = Some (vm_detached m i a)"
    using i len v1 bw
    by (simp add: Remove_and_Release_DMS_Volume_def put_volume_def Remove_Volume_from_All_Volumes_def in_range
        write_slot_def Release_Volume_def Release_Kernel_Device_Structure_def Sync_Disk_Queue_def vm_detached_def vol_ok_def)
      auto
  moreover have "(put_volume a v1 m)\<lparr>vm_nr_detach_cmds := vm_nr_detach_cmds m\<rparr> = put_volume a v1 m"
    by (simp add: put_volume_def)
  ultimately show ?thesis using ptr det a(2)
    by (simp add: DMS_Detach_Volume_def IS_OPEN_COUNTER_EMPTY_IN_VOL_def OPEN_COUNTER_IN_VOL_def Let_def)
qed

lemma Detach_none: "vm_wf m \<Longrightarrow> vm_lookup vid m = None \<Longrightarrow> DMS_Detach_Volume vid m = Some (- ENODEV, m)"
  by (simp add: DMS_Detach_Volume_def Get_Volume_ptr_eq)

text \<open>Two slots never share a volume: a volume knows its slot.\<close>

lemma vm_wf_inj:
  assumes "vm_wf m" and "1 \<le> i" "i < vm_max m" "vm_slots m ! i = Slot_Ptr a"
    and "1 \<le> j" "j < vm_max m" "vm_slots m ! j = Slot_Ptr a"
  shows "i = j"
proof -
  obtain v where "vm_vols m a = Some v" "vol_ok i v" using assms(1-4) by (elim vm_wf_slot [of m i]) auto
  moreover obtain w where "vm_vols m a = Some w" "vol_ok j w" using assms(1,5-7) by (elim vm_wf_slot [of m j]) auto
  ultimately show ?thesis by (simp add: vol_ok_def)
qed

lemma vm_detached_entries:
  assumes wf: "vm_wf m" and e: "vm_entries m i = Some vid" and a: "vm_slots m ! i = Slot_Ptr a"
  shows "vm_entries (vm_detached m i a) = (vm_entries m)(i := None)"
proof
  fix j
  note i = vm_entries_range [OF e]
  have len: "length (vm_slots m) = vm_max m" using wf by (simp add: vm_wf_def)
  show "vm_entries (vm_detached m i a) j = ((vm_entries m)(i := None)) j"
  proof (cases "1 \<le> j \<and> j < vm_max m \<and> j \<noteq> i")
    case True
    then have j: "1 \<le> j" "j < vm_max m" by auto
    from wf j show ?thesis
    proof (cases rule: vm_wf_slot)
      case (used b v)
      have "b \<noteq> a" using used vm_wf_inj [OF wf, of i a j] i a j True by auto
      with used True show ?thesis by (simp add: vm_entries_def vm_detached_def)
    qed (use True in \<open>simp add: vm_entries_def vm_detached_def\<close>)
  next
    case False
    show ?thesis
    proof (cases "j = i")
      case True
      with i len show ?thesis by (simp add: vm_entries_def vm_detached_def)
    next
      case out: False
      with False have "vm_entries m j = None" "vm_entries (vm_detached m i a) j = None"
        by (auto simp: vm_entries_def vm_detached_def)
      with out show ?thesis by simp
    qed
  qed
qed

lemma vm_detached_wf:
  assumes wf: "vm_wf m" and e: "vm_entries m i = Some vid" and a: "vm_slots m ! i = Slot_Ptr a"
  shows "vm_wf (vm_detached m i a)"
proof -
  note i = vm_entries_range [OF e]
  have "vm_slots (vm_detached m i a) ! j = Slot_Null \<or> (\<exists>b v. vm_slots (vm_detached m i a) ! j = Slot_Ptr b
      \<and> vm_vols (vm_detached m i a) b = Some v \<and> vol_ok j v)"
    if j: "1 \<le> j" "j < vm_max m" for j
  proof (cases "j = i")
    case True
    with i wf show ?thesis by (simp add: vm_detached_def vm_wf_def)
  next
    case False
    from wf j show ?thesis
    proof (cases rule: vm_wf_slot)
      case (used b v)
      have "b \<noteq> a" using used vm_wf_inj [OF wf, of i a j] i a j False by auto
      with used False show ?thesis by (simp add: vm_detached_def)
    qed (use False in \<open>simp add: vm_detached_def\<close>)
  qed
  moreover have "p = q" if "vm_entries (vm_detached m i a) p = Some k" "vm_entries (vm_detached m i a) q = Some k" for p q k
    using that wf unfolding vm_detached_entries [OF assms] by (auto simp: vm_wf_def split: if_splits)
  ultimately show ?thesis using wf by (auto simp: vm_wf_def vm_detached_def)
qed

section \<open>The volume table is a slot table\<close>

definition attach_cmd :: "kernel_answers \<Rightarrow> u64 \<Rightarrow> int \<Rightarrow> vmgr \<Rightarrow> bool \<times> vmgr" where
  "attach_cmd kern ds vid m = (case DMS_Attach_Volume kern vid ds m of
     None \<Rightarrow> (False, m) | Some (r, m') \<Rightarrow> (r = DMS_OK, m'))"

definition detach_cmd :: "int \<Rightarrow> vmgr \<Rightarrow> bool \<times> vmgr" where
  "detach_cmd vid m = (case DMS_Detach_Volume vid m of
     None \<Rightarrow> (False, m) | Some (r, m') \<Rightarrow> (r = DMS_OK, m'))"

lemma codes_not_ok: "- EEXIST \<noteq> DMS_OK" "- ATTACH_FAIL \<noteq> DMS_OK" "- EBUSY \<noteq> DMS_OK" "- ENODEV \<noteq> DMS_OK"
  by (simp_all add: EEXIST_def ATTACH_FAIL_def EBUSY_def ENODEV_def EFAULT_def ret_defs)

lemma lookup_ran: "vm_wf m \<Longrightarrow> vm_lookup k m = None \<longleftrightarrow> k \<notin> ran (vm_entries m)"
  using vm_lookup_Some [of m k] by (cases "vm_lookup k m") (auto simp: ran_def)

lemma Detach_cases:
  assumes wf: "vm_wf m"
  obtains (none) "k \<notin> ran (vm_entries m)" "DMS_Detach_Volume k m = Some (- ENODEV, m)"
    | (busy) "DMS_Detach_Volume k m = Some (- EBUSY, m)"
    | (gone) i a where "vm_entries m i = Some k" "vm_slots m ! i = Slot_Ptr a"
        "DMS_Detach_Volume k m = Some (DMS_OK, vm_detached m i a)"
proof (cases "vm_lookup k m")
  case None
  with none Detach_none [OF wf None] lookup_ran [OF wf, of k] show ?thesis by simp
next
  case (Some i)
  with wf have e: "vm_entries m i = Some k" by (simp add: vm_lookup_Some)
  with wf obtain a v where a: "vm_slots m ! i = Slot_Ptr a" "vm_vols m a = Some v" by (elim vm_wf_entry)
  from Detach_eq [OF wf e a] busy gone e a(1) show ?thesis by (auto split: if_splits)
qed

interpretation vmt: slot_table vm_wf vm_entries vm_lookup "attach_cmd kern ds" detach_cmd for kern ds
proof unfold_locales
  fix m :: vmgr and i j k b m'
  assume wf: "vm_wf m"
  show "i = j" if "vm_entries m i = Some k" "vm_entries m j = Some k"
    using wf that by (auto simp: vm_wf_def)
  show "vm_lookup k m = Some i \<longleftrightarrow> vm_entries m i = Some k" by (rule vm_lookup_Some [OF wf])
  show "\<not> b \<and> vm_wf m' \<and> vm_entries m' = vm_entries m"
    if "k \<in> ran (vm_entries m)" "attach_cmd kern ds k m = (b, m')"
    using that wf Attach_eq [OF wf, of kern k ds] lookup_ran [OF wf, of k]
    by (auto simp: attach_cmd_def codes_not_ok)
  show "vm_wf m' \<and> (if b then \<exists>i. vm_entries m i = None \<and> vm_entries m' = (vm_entries m)(i \<mapsto> k)
      else vm_entries m' = vm_entries m)" if "k \<notin> ran (vm_entries m)" "attach_cmd kern ds k m = (b, m')"
  proof -
    have new: "vm_lookup k m = None" using that(1) lookup_ran [OF wf, of k] by simp
    show ?thesis
    proof (cases "\<exists>i. vm_free m = Some i \<and> kern_ok kern")
      case True
      then obtain i where i: "vm_free m = Some i" "kern_ok kern" by blast
      from vm_free_Some [OF i(1)] i Attach_eq [OF wf, of kern k ds] new that(2) wf
      show ?thesis by (auto simp: attach_cmd_def vm_attached_wf vm_attached_entries)
    next
      case False
      with Attach_eq [OF wf, of kern k ds] new that(2) wf show ?thesis
        by (auto simp: attach_cmd_def codes_not_ok split: option.splits if_splits)
    qed
  qed
  show "vm_wf m' \<and> (if b then \<exists>i. vm_entries m i = Some k \<and> vm_entries m' = (vm_entries m)(i := None) else vm_entries m' = vm_entries m)"
    if "detach_cmd k m = (b, m')"
    using wf
  proof (cases rule: Detach_cases [where k = k])
    case (gone i a)
    with that wf vm_detached_wf [OF wf gone(1,2)] vm_detached_entries [OF wf gone(1,2)]
    show ?thesis by (auto simp: detach_cmd_def)
  qed (use that wf in \<open>auto simp: detach_cmd_def codes_not_ok\<close>)
qed

section \<open>Open and close\<close>

lemma on_minor_spec:
  assumes wf: "vm_wf m" and "0 \<le> unit"
    and f: "\<And>v. v_volumeID (snd (f v)) = v_volumeID v \<and> (\<forall>i. vol_ok i v \<longrightarrow> vol_ok i (snd (f v)))"
  shows "\<exists>r m'. on_minor f c unit m = Some (r, m') \<and> vm_wf m' \<and> vm_entries m' = vm_entries m"
proof -
  let ?i = "nat (GET_DMS_VOLUMES_INDEX_BY_MINOR unit)"
  have pos: "0 \<le> GET_DMS_VOLUMES_INDEX_BY_MINOR unit"
    using assms(2) by (simp add: GET_DMS_VOLUMES_INDEX_BY_MINOR_def DMS_DISK_MINORS_def)
  show ?thesis
  proof (cases "IS_IN_ALL_VOLUME_RANGE m (GET_DMS_VOLUMES_INDEX_BY_MINOR unit)")
    case True
    with pos have i: "1 \<le> ?i" "?i < vm_max m" using in_range [of m ?i] by auto
    from wf i show ?thesis
    proof (cases rule: vm_wf_slot)
      case free
      with True wf show ?thesis by (simp add: on_minor_def)
    next
      case (used a v)
      let ?m = "put_volume a (snd (f v)) m"
      have ent: "vm_entries ?m = vm_entries m"
      proof
        fix j
        show "vm_entries ?m j = vm_entries m j"
          using f [of v] used(2) by (cases "vm_slots m ! j") (auto simp: vm_entries_def put_volume_def)
      qed
      moreover have "vm_wf ?m"
        using wf f [of v] used(2) ent unfolding vm_wf_def
        by (auto simp: put_volume_def) (metis option.inject)+
      ultimately show ?thesis using True used
        by (auto simp: on_minor_def Let_def split: prod.splits)
    qed
  qed (use wf in \<open>simp add: on_minor_def\<close>)
qed

lemma Open_keeps: "v_volumeID (snd (Open_Volume v)) = v_volumeID v \<and> (\<forall>i. vol_ok i v \<longrightarrow> vol_ok i (snd (Open_Volume v)))"
  by (simp add: Open_Volume_def vol_ok_def)

lemma Close_keeps: "v_volumeID (snd (Close_Volume v)) = v_volumeID v \<and> (\<forall>i. vol_ok i v \<longrightarrow> vol_ok i (snd (Close_Volume v)))"
  by (simp add: Close_Volume_def vol_ok_def)

section \<open>Sequences of commands\<close>

datatype vcmd =
    Cmd_Attach kernel_answers int u64
  | Cmd_Detach int
  | Cmd_Open nat
  | Cmd_Close nat

fun run_vcmd :: "vcmd \<Rightarrow> vmgr \<Rightarrow> (int \<times> vmgr) option" where
  "run_vcmd (Cmd_Attach kern vid ds) m = DMS_Attach_Volume kern vid ds m"
| "run_vcmd (Cmd_Detach vid) m = DMS_Detach_Volume vid m"
| "run_vcmd (Cmd_Open unit) m = Open_DMS_Volume (int unit) m"
| "run_vcmd (Cmd_Close unit) m = Close_DMS_Volume (int unit) m"

fun run_vcmds :: "vcmd list \<Rightarrow> vmgr \<Rightarrow> (int list \<times> vmgr) option" where
  "run_vcmds [] m = Some ([], m)"
| "run_vcmds (c # cs) m = do {
     (r, m) \<leftarrow> run_vcmd c m;
     (rs, m) \<leftarrow> run_vcmds cs m;
     Some (r # rs, m)
   }"

text \<open>The IDs that the answers say are attached.\<close>

fun attached_by :: "vcmd list \<Rightarrow> int list \<Rightarrow> int set \<Rightarrow> int set" where
  "attached_by (Cmd_Attach _ vid _ # cs) (r # rs) K = attached_by cs rs (if r = DMS_OK then Set.insert vid K else K)"
| "attached_by (Cmd_Detach vid # cs) (r # rs) K = attached_by cs rs (if r = DMS_OK then K - {vid} else K)"
| "attached_by (_ # cs) (r # rs) K = attached_by cs rs K"
| "attached_by _ _ K = K"

lemma run_vcmd_spec:
  assumes wf: "vm_wf m"
  shows "\<exists>r m'. run_vcmd c m = Some (r, m') \<and> vm_wf m'
    \<and> (\<forall>cs rs. attached_by (c # cs) (r # rs) (ran (vm_entries m)) = attached_by cs rs (ran (vm_entries m')))"
proof (cases c)
  case (Cmd_Attach kern vid ds)
  obtain r m' where a: "DMS_Attach_Volume kern vid ds m = Some (r, m')"
    using Attach_eq [OF wf, of kern vid ds] by fastforce
  then have "attach_cmd kern ds vid m = (r = DMS_OK, m')" by (simp add: attach_cmd_def)
  from vmt.keys_insert [OF wf this] a Cmd_Attach show ?thesis by (simp add: vmt.keys_def)
next
  case (Cmd_Detach vid)
  obtain r m' where a: "DMS_Detach_Volume vid m = Some (r, m')"
    using Detach_cases [OF wf, of vid] by metis
  then have "detach_cmd vid m = (r = DMS_OK, m')" by (simp add: detach_cmd_def)
  from vmt.keys_remove [OF wf this] a Cmd_Detach show ?thesis by (simp add: vmt.keys_def)
next
  case (Cmd_Open u)
  with on_minor_spec [where f = Open_Volume, OF wf _ Open_keeps, of "int u" "- EFAULT"] show ?thesis
    by (auto simp: Open_DMS_Volume_def)
next
  case (Cmd_Close u)
  with on_minor_spec [where f = Close_Volume, OF wf _ Close_keeps, of "int u" 0] show ?thesis
    by (auto simp: Close_DMS_Volume_def)
qed

lemma Init_wf:
  assumes "Init_DMS_Volume_Manager True m = (r, m')" and "vm_vols m = Map.empty"
  shows "vm_wf m' \<and> ran (vm_entries m') = {} \<and> r = DMS_OK"
proof -
  have m': "m' = m\<lparr>vm_slots := replicate (vm_max m) Slot_Null, vm_nr_detach_cmds := 0\<rparr>" "r = DMS_OK"
    using assms(1) by (simp_all add: Init_DMS_Volume_Manager_def)
  then have "vm_entries m' = Map.empty" by (auto simp: vm_entries_def)
  with m' assms(2) show ?thesis by (simp add: vm_wf_def)
qed

section \<open>Properties\<close>

text \<open>C10: Whatever sequence of attach, detach, open and close commands is run on an
  initialised volume manager, one after the other, no command faults, the table
  stays well-formed (every slot free or holding a volume that knows its slot, no
  volume ID twice), and the attached IDs are exactly those whose attach was
  answered 0 and whose detach was not since.\<close>
theorem volume_commands_safe:
  assumes "Init_DMS_Volume_Manager True m = (r, m0)" and "vm_vols m = Map.empty"
  shows "\<exists>rs m'. run_vcmds cs m0 = Some (rs, m') \<and> vm_wf m' \<and> ran (vm_entries m') = attached_by cs rs {}"
proof -
  have "\<exists>rs m'. run_vcmds cs m = Some (rs, m') \<and> vm_wf m'
      \<and> ran (vm_entries m') = attached_by cs rs (ran (vm_entries m))" if "vm_wf m" for m
    using that
  proof (induction cs arbitrary: m)
    case (Cons c cs)
    from run_vcmd_spec [OF Cons.prems, of c] obtain r m1 where
      1: "run_vcmd c m = Some (r, m1)" "vm_wf m1"
      "\<forall>cs rs. attached_by (c # cs) (r # rs) (ran (vm_entries m)) = attached_by cs rs (ran (vm_entries m1))" by blast
    from Cons.IH [OF 1(2)] 1 show ?case by auto
  qed simp
  from this [of m0] Init_wf [OF assms] show ?thesis by auto
qed

definition vm0 :: vmgr where
  "vm0 = \<lparr>vm_slots = [], vm_max = 4, vm_vols = Map.empty, vm_next = 50, vm_nr_detach_cmds = 0\<rparr>"

definition kern_yes :: kernel_answers where
  "kern_yes = \<lparr>kern_mem = True, kern_queue = True, kern_disk = True\<rparr>"

theorem volume_commands_safe_witness:
  "\<exists>rs m'. run_vcmds [Cmd_Attach kern_yes 7 10, Cmd_Open 16, Cmd_Detach 7, Cmd_Attach kern_yes 7 10]
      (snd (Init_DMS_Volume_Manager True vm0)) = Some (rs, m') \<and> vm_wf m'"
  using volume_commands_safe [of vm0 _ _ "[Cmd_Attach kern_yes 7 10, Cmd_Open 16, Cmd_Detach 7, Cmd_Attach kern_yes 7 10]",
      OF prod.collapse [symmetric]]
  by (auto simp: vm0_def)

text \<open>C33: Attach on every branch: an attached ID is refused with \<open>-EEXIST\<close>; with no free
  slot, or when the kernel cannot provide memory, queue or disk, the answer is
  \<open>-ATTACH_FAIL\<close> and the table is unchanged (an occupied slot is given back);
  otherwise the answer is 0 and the first free slot, no other, holds the new
  volume: attached, unopened, with its queue and a disk that is up.\<close>
theorem DMS_Attach_Volume_correct:
  assumes "vm_wf m"
  shows "\<exists>r m'. DMS_Attach_Volume kern vid ds m = Some (r, m') \<and>
    (if vid \<in> ran (vm_entries m) then r = - EEXIST \<and> m' = m
     else if find (\<lambda>i. vm_entries m i = None) [1..<vm_max m] = None \<or> \<not> kern_ok kern
     then r = - ATTACH_FAIL \<and> m' = m
     else (\<exists>i v. find (\<lambda>i. vm_entries m i = None) [1..<vm_max m] = Some i \<and> r = DMS_OK
       \<and> vm_entries m' = (vm_entries m)(i \<mapsto> vid) \<and> slot_volume m' (vm_slots m' ! i) = Some v
       \<and> vol_ok i v \<and> IS_DS_ATTACHED v \<and> v_open_counter v = 0 \<and> v_dsectors v = ds))"
proof -
  have v: "v_dsectors (attached_volume vid ds i) = ds" for i
    by (simp add: attached_volume_def Attach_Volume_def new_volume_def Init_DMS_Volume_def SET_DS_ATTACHED_def)
  show ?thesis
  proof (cases "vid \<in> ran (vm_entries m) \<or> vm_free m = None \<or> \<not> kern_ok kern")
    case True
    then show ?thesis using Attach_eq [OF assms, of kern vid ds] lookup_ran [OF assms, of vid]
      by (auto simp: vm_free_def split: option.splits)
  next
    case False
    then obtain i where i: "vm_free m = Some i" by auto
    have len: "i < length (vm_slots m)" using vm_free_Some(2) [OF i] assms by (simp add: vm_wf_def)
    have "DMS_Attach_Volume kern vid ds m = Some (DMS_OK, vm_attached m i vid ds)"
      using False i Attach_eq [OF assms, of kern vid ds] lookup_ran [OF assms, of vid] by simp
    moreover have "slot_volume (vm_attached m i vid ds) (vm_slots (vm_attached m i vid ds) ! i) = Some (attached_volume vid ds i)"
      using len by (simp add: vm_attached_def)
    ultimately show ?thesis
      using False i v attached_volume_ok vm_attached_entries [OF assms vm_free_Some(1,2) [OF i]]
      by (auto simp: vm_free_def)
  qed
qed

definition vm1 :: vmgr where
  "vm1 = snd (Init_DMS_Volume_Manager True vm0)"

lemma vm1_wf: "vm_wf vm1" "ran (vm_entries vm1) = {}"
  using Init_wf [of vm0, OF prod.collapse [symmetric]] by (auto simp: vm1_def vm0_def)

theorem DMS_Attach_Volume_correct_witness:
  "\<exists>m'. DMS_Attach_Volume kern_yes 7 10 vm1 = Some (0, m') \<and> vm_entries m' 1 = Some 7"
proof -
  have "vm_entries vm1 = Map.empty" using vm1_wf(2)
    by (intro ext) (metis not_None_eq ranI empty_iff)
  then have "find (\<lambda>i. vm_entries vm1 i = None) [1..<vm_max vm1] = Some 1"
    by (simp add: vm1_def vm0_def Init_DMS_Volume_Manager_def upt_conv_Cons)
  with DMS_Attach_Volume_correct [OF vm1_wf(1), of kern_yes 7 10] vm1_wf(2) show ?thesis
    by (auto simp: kern_ok_def kern_yes_def ret_defs)
qed

text \<open>C34: Detach on every branch: an ID that is not attached is answered \<open>-ENODEV\<close>, a
  volume that is open \<open>-EBUSY\<close>, both without a change; otherwise the answer is 0,
  the slot is free again, the volume is released, and every other volume is
  untouched.\<close>
theorem DMS_Detach_Volume_correct:
  assumes "vm_wf m"
  shows "\<exists>r m'. DMS_Detach_Volume vid m = Some (r, m') \<and>
    (case vm_lookup vid m of
       None \<Rightarrow> r = - ENODEV \<and> m' = m
     | Some i \<Rightarrow> (\<exists>a v. vm_slots m ! i = Slot_Ptr a \<and> vm_vols m a = Some v \<and> v_volumeID v = vid \<and>
         (if v_open_counter v \<noteq> 0 then r = - EBUSY \<and> m' = m
          else r = DMS_OK \<and> vm_entries m' = (vm_entries m)(i := None) \<and> vm_vols m' = (vm_vols m)(a := None))))"
proof (cases "vm_lookup vid m")
  case None
  with Detach_none [OF assms None] show ?thesis by simp
next
  case (Some i)
  with assms have e: "vm_entries m i = Some vid" by (simp add: vm_lookup_Some)
  with assms obtain a v where a: "vm_slots m ! i = Slot_Ptr a" "vm_vols m a = Some v" "v_volumeID v = vid"
    by (elim vm_wf_entry)
  from Detach_eq [OF assms e a(1,2)] vm_detached_entries [OF assms e a(1)] Some a
  show ?thesis by (simp add: vm_detached_def)
qed

theorem DMS_Detach_Volume_correct_witness:
  "DMS_Detach_Volume 9 vm1 = Some (- ENODEV, vm1)"
proof -
  have "vm_lookup 9 vm1 = None" using lookup_ran [OF vm1_wf(1)] vm1_wf(2) by simp
  with DMS_Detach_Volume_correct [OF vm1_wf(1), of 9] show ?thesis by auto
qed

section \<open>Concurrent attaches\<close>

text \<open>
  Attach takes the table's lock for each of its accesses, not across them.  A
  task that attaches is at one of the points between those critical sections;
  a step runs one section.
\<close>

datatype attach_pc =
    At_Check
  | At_Occupy
  | At_Insert int             \<comment> \<open>the index it occupied\<close>
  | At_Attach nat             \<comment> \<open>the volume it inserted\<close>
  | At_Return int
  | At_Fault

record task =
  t_vid :: int
  t_pc :: attach_pc

definition attach_step :: "kernel_answers \<Rightarrow> u64 \<Rightarrow> task \<Rightarrow> vmgr \<Rightarrow> attach_pc \<times> vmgr" where
  "attach_step kern ds t m = (case t_pc t of
     At_Check \<Rightarrow> (case Check_Volume_Existence (t_vid t) m of
        None \<Rightarrow> (At_Fault, m)
      | Some e \<Rightarrow> (if e then At_Return (- EEXIST) else At_Occupy, m))
   | At_Occupy \<Rightarrow> (case Occupy_in_All_Volumes (t_vid t) m of
        None \<Rightarrow> (At_Fault, m)
      | Some (i, m) \<Rightarrow> (if IS_IN_ALL_VOLUME_RANGE m i then At_Insert i else At_Return (- ATTACH_FAIL), m))
   | At_Insert i \<Rightarrow> (case Create_Volume kern (t_vid t) ds i of
        None \<Rightarrow> (case Remove_Volume_from_All_Volumes i m of
             None \<Rightarrow> (At_Fault, m) | Some (_, m) \<Rightarrow> (At_Return (- ATTACH_FAIL), m))
      | Some v \<Rightarrow>
          (let a = vm_next m; m1 = put_volume a v (m\<lparr>vm_next := a + 1\<rparr>)
           in (case Insert_Volume_to_All_Volumes a m1 of
                 None \<Rightarrow> (At_Fault, m1)
               | Some (j, m2) \<Rightarrow>
                   if IS_IN_ALL_VOLUME_RANGE m2 j then (At_Attach a, m2)
                   else (case Release_Volume a m2 of
                           None \<Rightarrow> (At_Fault, m2) | Some m3 \<Rightarrow> (At_Return (- ATTACH_FAIL), m3)))))
   | At_Attach a \<Rightarrow> (case vm_vols m a of
        None \<Rightarrow> (At_Fault, m)
      | Some v \<Rightarrow> (At_Return DMS_OK, put_volume a (snd (Attach_Volume v)) m))
   | pc \<Rightarrow> (pc, m))"

inductive attach_steps :: "kernel_answers \<Rightarrow> u64 \<Rightarrow> task list \<times> vmgr \<Rightarrow> task list \<times> vmgr \<Rightarrow> bool"
  for kern ds where
  stop: "attach_steps kern ds s s"
| step: "attach_steps kern ds s (ts, m) \<Longrightarrow> i < length ts \<Longrightarrow> attach_step kern ds (ts ! i) m = (pc, m') \<Longrightarrow>
     attach_steps kern ds s (ts[i := (ts ! i)\<lparr>t_pc := pc\<rparr>], m')"

inductive_cases attach_stepsE: "attach_steps kern ds s (ts, m)"

text \<open>The slots an interleaving can produce: in range, a volume knows its slot.\<close>

definition slots_ok :: "vmgr \<Rightarrow> bool" where
  "slots_ok m \<longleftrightarrow> length (vm_slots m) = vm_max m
     \<and> (\<forall>a v. vm_vols m a = Some v \<longrightarrow> a < vm_next m)
     \<and> (\<forall>i a. 1 \<le> i \<and> i < vm_max m \<and> vm_slots m ! i = Slot_Ptr a \<longrightarrow>
          (\<exists>v. vm_vols m a = Some v \<and> v_minor_index v = int i))"

lemma slots_ok_put:
  assumes "slots_ok m" and "vm_vols m a = Some v0" and "v_minor_index v = v_minor_index v0"
  shows "slots_ok (put_volume a v m)"
  unfolding slots_ok_def
proof (intro conjI allI impI)
  show "length (vm_slots (put_volume a v m)) = vm_max (put_volume a v m)"
    using assms(1) by (simp add: slots_ok_def put_volume_def)
  show "b < vm_next (put_volume a v m)" if "vm_vols (put_volume a v m) b = Some w" for b w
    using that assms(1,2) by (cases "b = a") (auto simp: slots_ok_def put_volume_def)
  show "\<exists>w. vm_vols (put_volume a v m) b = Some w \<and> v_minor_index w = int i"
    if "1 \<le> i \<and> i < vm_max (put_volume a v m) \<and> vm_slots (put_volume a v m) ! i = Slot_Ptr b" for i b
    using that assms by (cases "b = a") (fastforce simp: slots_ok_def put_volume_def)+
qed

lemma slots_ok_set:
  assumes "slots_ok m" and "vm_vols m a = Some v" and "v_minor_index v = int i"
  shows "slots_ok (m\<lparr>vm_slots := (vm_slots m)[i := Slot_Ptr a]\<rparr>)"
proof -
  have "\<exists>w. vm_vols m b = Some w \<and> v_minor_index w = int j"
    if "1 \<le> j" "j < vm_max m" "(vm_slots m)[i := Slot_Ptr a] ! j = Slot_Ptr b" for j b
  proof (cases "j = i")
    case True
    with that assms have "b = a" by (simp add: slots_ok_def)
    with True assms show ?thesis by simp
  next
    case False
    with that assms(1) show ?thesis by (simp add: slots_ok_def)
  qed
  with assms(1) show ?thesis by (simp add: slots_ok_def)
qed

lemma Attach_Volume_minor: "v_minor_index (snd (Attach_Volume v)) = v_minor_index v"
  by (simp add: Attach_Volume_def SET_DS_ATTACHED_def)

lemma slots_ok_step:
  assumes ok: "slots_ok m" and st: "attach_step kern ds t m = (pc, m')"
  shows "slots_ok m'"
proof (cases "t_pc t")
  case At_Occupy
  with ok st show ?thesis
    by (auto simp: attach_step_def Occupy_in_All_Volumes_def write_slot_def slots_ok_def cookie_def nth_list_update
        split: option.splits Option.bind_splits if_splits)
next
  case (At_Attach a)
  with ok st show ?thesis
    by (auto simp: attach_step_def slots_ok_put [OF _ _ Attach_Volume_minor] split: option.splits)
next
  case (At_Insert i)
  show ?thesis
  proof (cases "Create_Volume kern (t_vid t) ds i")
    case None
    with ok st At_Insert show ?thesis
      by (auto simp: attach_step_def Remove_Volume_from_All_Volumes_def write_slot_def slots_ok_def nth_list_update
          split: option.splits Option.bind_splits if_splits)
  next
    case (Some v)
    let ?a = "vm_next m"
    define m1 where "m1 = put_volume ?a v (m\<lparr>vm_next := ?a + 1\<rparr>)"
    have free: "vm_slots m ! j \<noteq> Slot_Ptr ?a" if "1 \<le> j" "j < vm_max m" for j
      using ok that by (fastforce simp: slots_ok_def)
    have ok1: "slots_ok m1" using ok by (fastforce simp: m1_def put_volume_def slots_ok_def)
    have v1: "vm_vols m1 ?a = Some v" by (simp add: m1_def put_volume_def)
    have st': "(case Insert_Volume_to_All_Volumes ?a m1 of
                 None \<Rightarrow> (At_Fault, m1)
               | Some (j, m2) \<Rightarrow>
                   if IS_IN_ALL_VOLUME_RANGE m2 j then (At_Attach ?a, m2)
                   else (case Release_Volume ?a m2 of
                           None \<Rightarrow> (At_Fault, m2) | Some m3 \<Rightarrow> (At_Return (- ATTACH_FAIL), m3))) = (pc, m')"
      using st At_Insert Some unfolding m1_def by (simp add: attach_step_def Let_def cong: if_cong option.case_cong)
    show ?thesis
    proof (cases "Insert_Volume_to_All_Volumes ?a m1")
      case None
      with st' ok1 show ?thesis by simp
    next
      case ins: (Some r)
      obtain j m2 where r: "r = (j, m2)" by (cases r)
      consider (put) "m2 = m1\<lparr>vm_slots := (vm_slots m1)[nat (v_minor_index v) := Slot_Ptr ?a]\<rparr>" "j = v_minor_index v"
          "IS_IN_ALL_VOLUME_RANGE m1 j"
        | (bad) "m2 = m1" "\<not> IS_IN_ALL_VOLUME_RANGE m1 j"
        using ins v1 unfolding r
        by (auto simp: Insert_Volume_to_All_Volumes_def Let_def write_slot_def IS_IN_ALL_VOLUME_RANGE_def IS_IN_RANGE_def
            DMS_MINOR_START_def ret_defs vol_consts split: Option.bind_splits if_splits)
      then show ?thesis
      proof cases
        case put
        then have "v_minor_index v = int (nat (v_minor_index v))"
          by (simp add: IS_IN_ALL_VOLUME_RANGE_def IS_IN_RANGE_def DMS_MINOR_START_def)
        from slots_ok_set [OF ok1 v1 this] put have "slots_ok m2" by simp
        moreover have "IS_IN_ALL_VOLUME_RANGE m2 j" using put by (simp add: IS_IN_ALL_VOLUME_RANGE_def)
        ultimately show ?thesis using st' ins r by simp
      next
        case bad
        have "slots_ok (m1\<lparr>vm_vols := (vm_vols m1)(?a := None)\<rparr>)"
          using ok free by (fastforce simp: slots_ok_def m1_def put_volume_def)
        with st' ins r bad ok1 show ?thesis
          by (auto simp: Release_Volume_def split: option.splits Option.bind_splits)
      qed
    qed
  qed
qed (use ok st in \<open>auto simp: attach_step_def split: option.splits\<close>)

lemma replicate_4: "replicate 4 x = [x, x, x, x]"
  by (simp add: eval_nat_numeral)

text \<open>The states of the example interleavings: four slots, two tasks.\<close>

definition vm_at :: "vslot \<Rightarrow> vslot \<Rightarrow> (nat \<rightharpoonup> volume) \<Rightarrow> nat \<Rightarrow> vmgr" where
  "vm_at s1 s2 vols next = \<lparr>vm_slots = [Slot_Null, s1, s2, Slot_Null], vm_max = 4, vm_vols = vols,
     vm_next = next, vm_nr_detach_cmds = 0\<rparr>"

lemma vm1_at: "vm1 = vm_at Slot_Null Slot_Null Map.empty 50"
  by (simp add: vm1_def vm0_def Init_DMS_Volume_Manager_def replicate_4 vm_at_def)

lemma new_volume_sel: "v_minor_index (new_volume vid ds i) = int i" "v_volumeID (new_volume vid ds i) = vid"
  by (simp_all add: new_volume_def Init_DMS_Volume_def)

lemma Attach_Volume_sel: "v_volumeID (snd (Attach_Volume v)) = v_volumeID v"
  by (simp add: Attach_Volume_def SET_DS_ATTACHED_def)

lemmas attach_eval = attach_step_def Check_Volume_Existence_def Get_DMS_Volume_Index_by_VolumeID_def read_slot_def
  DMS_MINOR_START_def IS_IN_ALL_VOLUME_RANGE_def IS_IN_RANGE_def upt_conv_Cons Occupy_in_All_Volumes_def write_slot_def
  cookie_def Create_Volume_eq [of _ _ _ 1, simplified] Create_Volume_eq [of _ _ _ 2, simplified] kern_ok_def kern_yes_def
  Insert_Volume_to_All_Volumes_def put_volume_def Let_def new_volume_sel vm_at_def

text \<open>Two tasks that attach the same volume at the same time can both succeed: both
  check before either occupies a slot, and the table then holds the volume ID
  twice.  The comment at the occupation ("to prevent reentrant race condition")
  says it cannot happen.\<close>
theorem attach_race_duplicates_volume:
  "\<exists>m'. attach_steps kern_yes 10
      ([\<lparr>t_vid = 7, t_pc = At_Check\<rparr>, \<lparr>t_vid = 7, t_pc = At_Check\<rparr>], vm1)
      ([\<lparr>t_vid = 7, t_pc = At_Return DMS_OK\<rparr>, \<lparr>t_vid = 7, t_pc = At_Return DMS_OK\<rparr>], m')
    \<and> vm_entries m' 1 = Some 7 \<and> vm_entries m' 2 = Some 7"
proof -
  let ?t = "\<lambda>pc. \<lparr>t_vid = 7, t_pc = pc\<rparr>"
  let ?S = "attach_steps kern_yes 10 ([?t At_Check, ?t At_Check], vm_at Slot_Null Slot_Null Map.empty 50)"
  let ?v = "\<lambda>i. new_volume 7 10 i" and ?w = "\<lambda>i. snd (Attach_Volume (new_volume 7 10 i))"
  have one: "(1 :: nat) < length [x, y]" for x y :: task by simp
  have zero: "(0 :: nat) < length [x, y]" for x y :: task by simp
  note s0 = step [where i = 0, OF _ zero] and s1 = step [where i = 1, OF _ one]
  have "?S ([?t At_Check, ?t At_Check], vm_at Slot_Null Slot_Null Map.empty 50)" by (rule stop)
  from s0 [OF this, of At_Occupy "vm_at Slot_Null Slot_Null Map.empty 50"]
  have "?S ([?t At_Occupy, ?t At_Check], vm_at Slot_Null Slot_Null Map.empty 50)"
    by (simp add: attach_eval)
  from s1 [OF this, of At_Occupy "vm_at Slot_Null Slot_Null Map.empty 50"]
  have "?S ([?t At_Occupy, ?t At_Occupy], vm_at Slot_Null Slot_Null Map.empty 50)"
    by (simp add: attach_eval)
  from s0 [OF this, of "At_Insert 1" "vm_at (Slot_Cookie 7) Slot_Null Map.empty 50"]
  have "?S ([?t (At_Insert 1), ?t At_Occupy], vm_at (Slot_Cookie 7) Slot_Null Map.empty 50)"
    by (simp add: attach_eval)
  from s1 [OF this, of "At_Insert 2" "vm_at (Slot_Cookie 7) (Slot_Cookie 7) Map.empty 50"]
  have "?S ([?t (At_Insert 1), ?t (At_Insert 2)], vm_at (Slot_Cookie 7) (Slot_Cookie 7) Map.empty 50)"
    by (simp add: attach_eval)
  from s0 [OF this, of "At_Attach 50" "vm_at (Slot_Ptr 50) (Slot_Cookie 7) [50 \<mapsto> ?v 1] 51"]
  have "?S ([?t (At_Attach 50), ?t (At_Insert 2)], vm_at (Slot_Ptr 50) (Slot_Cookie 7) [50 \<mapsto> ?v 1] 51)"
    by (simp add: attach_eval)
  from s1 [OF this, of "At_Attach 51" "vm_at (Slot_Ptr 50) (Slot_Ptr 51) [50 \<mapsto> ?v 1, 51 \<mapsto> ?v 2] 52"]
  have "?S ([?t (At_Attach 50), ?t (At_Attach 51)], vm_at (Slot_Ptr 50) (Slot_Ptr 51) [50 \<mapsto> ?v 1, 51 \<mapsto> ?v 2] 52)"
    by (simp add: attach_eval)
  from s0 [OF this, of "At_Return DMS_OK" "vm_at (Slot_Ptr 50) (Slot_Ptr 51) [50 \<mapsto> ?w 1, 51 \<mapsto> ?v 2] 52"]
  have "?S ([?t (At_Return DMS_OK), ?t (At_Attach 51)], vm_at (Slot_Ptr 50) (Slot_Ptr 51) [50 \<mapsto> ?w 1, 51 \<mapsto> ?v 2] 52)"
    by (simp add: attach_eval fun_upd_twist)
  from s1 [OF this, of "At_Return DMS_OK" "vm_at (Slot_Ptr 50) (Slot_Ptr 51) [50 \<mapsto> ?w 1, 51 \<mapsto> ?w 2] 52"]
  have "?S ([?t (At_Return DMS_OK), ?t (At_Return DMS_OK)], vm_at (Slot_Ptr 50) (Slot_Ptr 51) [50 \<mapsto> ?w 1, 51 \<mapsto> ?w 2] 52)"
    by (simp add: attach_eval)
  then show ?thesis unfolding vm1_at
    by (intro exI [of _ "vm_at (Slot_Ptr 50) (Slot_Ptr 51) [50 \<mapsto> ?w 1, 51 \<mapsto> ?w 2] 52"] conjI)
      (simp_all add: vm_entries_def vm_at_def Attach_Volume_sel new_volume_sel)
qed

text \<open>An attach or lookup of any volume faults while another task is between
  occupying a slot and inserting its volume: the lookup takes the ID stored in
  the slot for a volume pointer and reads through it.\<close>
theorem lookup_reads_cookie:
  assumes "vm_wf m" and "find (\<lambda>i. vm_entries m i = None) [1..<vm_max m] = Some i"
    and "vid \<noteq> 0" and "\<not> (- 4095 \<le> vid \<and> vid < 0)" and "other \<notin> ran (vm_entries m)"
  shows "\<exists>m'. Occupy_in_All_Volumes vid m = Some (int i, m')
    \<and> Check_Volume_Existence other m' = None \<and> DMS_Attach_Volume kern other ds m' = None
    \<and> DMS_Detach_Volume other m' = None"
proof -
  have i: "1 \<le> i" "i < vm_max m" "vm_entries m i = None" using assms(2) by (auto simp: find_Some_iff)
  let ?m = "m\<lparr>vm_slots := (vm_slots m)[i := Slot_Cookie vid]\<rparr>"
  have occ: "Occupy_in_All_Volumes vid m = Some (int i, ?m)"
    using Occupy_eq [OF assms(1), of vid] assms(2,3) by (simp add: vm_free_def cookie_def)
  have len: "length (vm_slots m) = vm_max m" using assms(1) by (simp add: vm_wf_def)
  have "search_volume ?m other js = None" if "i \<in> set js" "\<forall>j \<in> set js. 1 \<le> j \<and> j < vm_max m" for js
    using that
  proof (induction js)
    case (Cons j js)
    show ?case
    proof (cases "j = i")
      case True
      with i len assms(4) show ?thesis by (auto simp: read_slot_def)
    next
      case False
      with Cons have IH: "search_volume ?m other js = None" by simp
      have j: "1 \<le> j" "j < vm_max m" using Cons.prems by auto
      from assms(1) j show ?thesis
      proof (cases rule: vm_wf_slot)
        case (used a v)
        then have "v_volumeID v \<noteq> other" using assms(5) by (auto simp: ran_def)
        with used False IH len j show ?thesis by (simp add: read_slot_def)
      qed (use False IH len j in \<open>simp add: read_slot_def\<close>)
    qed
  qed simp
  from this [of "[1..<vm_max m]"] i have "search_volume ?m other [DMS_MINOR_START..<vm_max ?m] = None"
    by (simp add: DMS_MINOR_START_def)
  with occ show ?thesis
    by (simp add: Check_Volume_Existence_def Get_DMS_Volume_Index_by_VolumeID_def DMS_Attach_Volume_def
        DMS_Detach_Volume_def Get_Volume_ptr_by_VolumeID_def)
qed

theorem lookup_reads_cookie_witness:
  "\<exists>m'. Occupy_in_All_Volumes 7 vm1 = Some (1, m') \<and> Check_Volume_Existence 8 m' = None"
proof -
  have e: "vm_entries vm1 i = None" for i using vm1_wf(2) by (metis not_None_eq ranI empty_iff)
  then have f: "find (\<lambda>i. vm_entries vm1 i = None) [1..<vm_max vm1] = Some 1"
    by (simp add: vm1_at vm_at_def upt_conv_Cons)
  have r: "8 \<notin> ran (vm_entries vm1)" by (simp add: vm1_wf(2))
  have "\<not> (- 4095 \<le> (7 :: int) \<and> (7 :: int) < 0)" "(7 :: int) \<noteq> 0" by simp_all
  from lookup_reads_cookie [OF vm1_wf(1) f this(2,1) r, of kern_yes 10] show ?thesis by auto
qed



text \<open>Raising the limit of the volume table breaks it: the limit grows but the array
  in use does not, so once the old slots are full the next attach reads past the
  end of the array.\<close>
theorem Dynamic_Change_overruns:
  assumes "vm_wf m" and "vm_max m < new_size" and "1 \<le> vm_max m"
    and "vid \<notin> ran (vm_entries m)" and "vm_free m = None"
  shows "\<exists>m'. Dynamic_Change_Max_Volume_Size True new_size m = (DMS_OK, m')
    \<and> DMS_Attach_Volume kern vid ds m' = None"
proof -
  let ?m = "m\<lparr>vm_max := new_size\<rparr>"
  have len: "length (vm_slots m) = vm_max m" using assms(1) by (simp add: vm_wf_def)
  have "search_volume ?m vid (js @ [vm_max m..<new_size]) = None" if "\<forall>j \<in> set js. 1 \<le> j \<and> j < vm_max m" for js
    using that
  proof (induction js)
    case Nil
    with assms(2) len show ?case by (simp add: upt_conv_Cons read_slot_def)
  next
    case (Cons j js)
    then have IH: "search_volume ?m vid (js @ [vm_max m..<new_size]) = None" by simp
    have j: "1 \<le> j" "j < vm_max m" using Cons.prems by auto
    from assms(1) j show ?case
    proof (cases rule: vm_wf_slot)
      case (used a v)
      then have "v_volumeID v \<noteq> vid" using assms(4) by (auto simp: ran_def)
      with used IH show ?thesis by (simp add: read_slot_def)
    qed (use IH in \<open>simp add: read_slot_def\<close>)
  qed
  from this [of "[1..<vm_max m]"] have "search_volume ?m vid [1..<new_size] = None"
    using assms(2,3) upt_add_eq_append [of 1 "vm_max m" "new_size - vm_max m"] by simp
  then show ?thesis using assms(2)
    by (simp add: Dynamic_Change_Max_Volume_Size_def DMS_Attach_Volume_def Check_Volume_Existence_def
        Get_DMS_Volume_Index_by_VolumeID_def DMS_MINOR_START_def)
qed

definition vm_full :: vmgr where
  "vm_full = \<lparr>vm_slots = [Slot_Null], vm_max = 1, vm_vols = Map.empty, vm_next = 50, vm_nr_detach_cmds = 0\<rparr>"

theorem Dynamic_Change_overruns_witness:
  "\<exists>m'. Dynamic_Change_Max_Volume_Size True 8 vm_full = (DMS_OK, m') \<and> DMS_Attach_Volume kern_yes 7 10 m' = None"
proof -
  have "vm_entries vm_full = Map.empty" by (auto simp: vm_entries_def vm_full_def)
  then have "vm_wf vm_full" "7 \<notin> ran (vm_entries vm_full)" "vm_free vm_full = None"
    by (simp_all add: vm_wf_def vm_free_def) (simp_all add: vm_full_def)
  from Dynamic_Change_overruns [OF this(1) _ _ this(2,3), of 8 kern_yes 10] show ?thesis
    by (simp add: vm_full_def)
qed

section \<open>Control commands are safe\<close>

lemma Attach_result:
  assumes wf: "vm_wf m"
  obtains r m' where "DMS_Attach_Volume kern vid ds m = Some (r, m')" "vm_wf m'"
    "r = DMS_OK \<longrightarrow> (\<exists>i v. vm_entries m' i = Some vid \<and> slot_volume m' (vm_slots m' ! i) = Some v \<and> v_dsectors v = ds)"
proof (cases "vm_lookup vid m = None \<and> vm_free m \<noteq> None \<and> kern_ok kern")
  case True
  then obtain i where i: "vm_free m = Some i" by auto
  note f = vm_free_Some [OF i]
  have len: "i < length (vm_slots m)" using f wf by (simp add: vm_wf_def)
  have new: "vid \<notin> ran (vm_entries m)" using True lookup_ran [OF wf] by simp
  have "v_dsectors (attached_volume vid ds i) = ds"
    by (simp add: attached_volume_def Attach_Volume_def new_volume_def Init_DMS_Volume_def SET_DS_ATTACHED_def)
  moreover have "slot_volume (vm_attached m i vid ds) (vm_slots (vm_attached m i vid ds) ! i) = Some (attached_volume vid ds i)"
    using len by (simp add: vm_attached_def)
  moreover have "vm_entries (vm_attached m i vid ds) i = Some vid"
    using vm_attached_entries [OF wf f(1,2)] i True by simp
  moreover have "DMS_Attach_Volume kern vid ds m = Some (DMS_OK, vm_attached m i vid ds)"
    using True i Attach_eq [OF wf, of kern vid ds] by simp
  moreover have "vm_wf (vm_attached m i vid ds)" using vm_attached_wf [OF wf f(1,2)] True by simp
  ultimately show ?thesis using that by blast
next
  case False
  then have "\<exists>r. r \<noteq> DMS_OK \<and> DMS_Attach_Volume kern vid ds m = Some (r, m)"
    using Attach_eq [OF wf, of kern vid ds] by (auto simp: codes_not_ok split: option.splits)
  with that wf show ?thesis by blast
qed

text \<open>A control command on a well-formed table never faults and keeps the table
  well-formed; without \<open>CAP_SYS_ADMIN\<close> it answers \<open>-EPERM\<close> and changes nothing; and
  an attach that answers 0 leaves the ID on a volume whose size in blocks is the
  capacity in bytes rounded up, in 64-bit arithmetic.\<close>
theorem DMS_IOCTL_Handler_safe:
  assumes "vm_wf m"
  shows "\<exists>r g' m'. DMS_IOCTL_Handler kern cap_sys_admin cmd (g, m) = Some (r, g', m') \<and> vm_wf m'
    \<and> (cap_sys_admin \<or> r = - EPERM \<and> g' = g \<and> m' = m)
    \<and> (case cmd of
         IOCTL_ATTACH_VOL vid capacity \<Rightarrow> cap_sys_admin \<and> r = DMS_OK \<longrightarrow>
           (\<exists>i v. vm_entries m' i = Some vid \<and> slot_volume m' (vm_slots m' ! i) = Some v
              \<and> unat (v_dsectors v) = (unat capacity + 4095) mod 2 ^ 64 div 4096)
       | _ \<Rightarrow> True)"
proof (cases "cap_sys_admin")
  case True
  then show ?thesis
  proof (cases cmd)
    case (IOCTL_ATTACH_VOL vid capacity)
    obtain r m' where r: "DMS_Attach_Volume kern vid (CAL_NR_DMSBLKS capacity) m = Some (r, m')" "vm_wf m'"
      "r = DMS_OK \<longrightarrow> (\<exists>i v. vm_entries m' i = Some vid \<and> slot_volume m' (vm_slots m' ! i) = Some v
        \<and> v_dsectors v = CAL_NR_DMSBLKS capacity)"
      using assms by (rule Attach_result)
    then have "r = DMS_OK \<longrightarrow> (\<exists>i v. vm_entries m' i = Some vid \<and> slot_volume m' (vm_slots m' ! i) = Some v
        \<and> unat (v_dsectors v) = (unat capacity + 4095) mod 2 ^ 64 div 4096)"
      by (metis unat_CAL_NR_DMSBLKS)
    with r True IOCTL_ATTACH_VOL show ?thesis
      by (simp add: DMS_IOCTL_Handler_def IOCTL_AttachVolume_def)
  next
    case (IOCTL_DETATCH_VOL vid)
    have "\<exists>r m'. DMS_Detach_Volume vid m = Some (r, m') \<and> vm_wf m'"
      using assms by (cases rule: Detach_cases [where k = vid]) (use assms vm_detached_wf [OF assms] in blast)+
    with True IOCTL_DETATCH_VOL show ?thesis by (auto simp: DMS_IOCTL_Handler_def IOCTL_DetachVolume_def)
  qed (use assms in \<open>simp_all add: DMS_IOCTL_Handler_def\<close>)
qed (use assms in \<open>simp add: DMS_IOCTL_Handler_def split: ioctl_cmd.splits\<close>)

theorem DMS_IOCTL_Handler_safe_witness:
  "\<exists>r g' m'. DMS_IOCTL_Handler kern_yes True (IOCTL_ATTACH_VOL 7 5000) (0, vm1) = Some (r, g', m') \<and> vm_wf m'"
  using DMS_IOCTL_Handler_safe [OF vm1_wf(1), of kern_yes True "IOCTL_ATTACH_VOL 7 5000" 0] by auto

end
