(* ===== verification/Node_Container.thy ===== *)
theory Node_Container
  imports DMS_Prelude Slot_Table "HOL-Library.Monad_Syntax"
begin

text \<open>
  The connections to the other nodes, \<open>DriverCore/SSocket.c\<close> and
  \<open>SSockets_Manager.c\<close>: the state machine of a node container (socket, status,
  retries), the delayed works that drive it, and the table \<open>dms_nodes\<close> of all
  containers.  Containers live in a store of addresses; a freed address faults
  (\<open>None\<close>), as does setting up a work again while its timer runs.  What the network
  answers (creating a socket, setting its options, connecting, its TCP state,
  starting the receiver) is the argument \<open>net\<close>.
\<close>

section \<open>State\<close>

definition EDNC_CONNECT :: int where "EDNC_CONNECT = 1601"
definition EDNC_FORMAT :: int where "EDNC_FORMAT = 1602"
definition EDNC_RC_OVTIME :: int where "EDNC_RC_OVTIME = 1603"
definition EISCONN :: int where "EISCONN = 106"
definition EALREADY :: int where "EALREADY = 114"

definition DNODE_INIT :: int where "DNODE_INIT = 1"
definition DNODE_BUILDING :: int where "DNODE_BUILDING = 2"
definition DNODE_CONNECTED :: int where "DNODE_CONNECTED = 3"
definition DNODE_DISCONNECTED :: int where "DNODE_DISCONNECTED = 4"

lemmas dnode_defs = DNODE_INIT_def DNODE_BUILDING_def DNODE_CONNECTED_def DNODE_DISCONNECTED_def
lemmas ednc_defs = EDNC_CONNECT_def EDNC_FORMAT_def EDNC_RC_OVTIME_def EISCONN_def EALREADY_def

definition DMS_MAX_NODES :: nat where "DMS_MAX_NODES = 255"
definition CONNECTION_RETRY_INTERVAL :: int where "CONNECTION_RETRY_INTERVAL = 5"
definition CONNECTION_RETRY_INTERVAL_MAX :: int where "CONNECTION_RETRY_INTERVAL_MAX = 20"
definition CONNECTION_RETRY_MAX_TRY :: int where
  "CONNECTION_RETRY_MAX_TRY = 60 * 60 * 24 div CONNECTION_RETRY_INTERVAL_MAX"

definition DNC_IN_RANGE :: "int \<Rightarrow> bool" where
  "DNC_IN_RANGE i = IS_IN_RANGE i 0 (int DMS_MAX_NODES - 1)"

record dnc =
  n_ip :: int
  n_port :: u16
  n_sock :: "bool option"     \<comment> \<open>NULL, or a socket with (\<open>True\<close>) or without the callbacks\<close>
  n_status :: int
  n_retry_count :: int
  n_recver :: bool
  n_crecv_fn :: bool          \<comment> \<open>a receiver function was given\<close>
  n_index :: int

datatype nwork = Work_Connect | Work_Rebuild

record dncs =
  dn_nodes :: "nat option list"           \<comment> \<open>\<open>dms_nodes\<close>\<close>
  dn_heap :: "nat \<rightharpoonup> dnc"
  dn_next :: nat
  dn_work :: "(nat \<times> nwork) list"         \<comment> \<open>works whose timer runs\<close>

record net =
  na_mem :: bool             \<comment> \<open>memory for a container\<close>
  na_create :: int           \<comment> \<open>\<open>sock_create\<close>\<close>
  na_options :: int          \<comment> \<open>\<open>__Set_DMS_TCP_Options\<close>\<close>
  na_connect :: int          \<comment> \<open>\<open>connect\<close>\<close>
  na_established :: bool     \<comment> \<open>\<open>sk_state == TCP_ESTABLISHED\<close>\<close>
  na_receiver :: bool        \<comment> \<open>the receiver could be created\<close>

definition put_dnc :: "nat \<Rightarrow> dnc \<Rightarrow> dncs \<Rightarrow> dncs" where
  "put_dnc a d s = s\<lparr>dn_heap := (dn_heap s)(a \<mapsto> d)\<rparr>"

definition delayed_work_pending :: "nat \<Rightarrow> dncs \<Rightarrow> bool" where
  "delayed_work_pending a s = (a \<in> fst ` set (dn_work s))"

text \<open>\<open>INIT_WORK\<close> followed by \<open>queue_delayed_work\<close>; the container is not to have a
  running timer.\<close>

definition init_and_queue_work :: "nat \<Rightarrow> nwork \<Rightarrow> dncs \<Rightarrow> dncs option" where
  "init_and_queue_work a w s =
     (if delayed_work_pending a s then None else Some (s\<lparr>dn_work := dn_work s @ [(a, w)]\<rparr>))"

section \<open>Sockets\<close>

definition DNC_Create_Socket :: "net \<Rightarrow> nat \<Rightarrow> dncs \<Rightarrow> (int \<times> dncs) option" where
  "DNC_Create_Socket na a s = do {
     d \<leftarrow> dn_heap s a;
     if n_sock d = None then
       if na_create na \<ge> 0 then
         if na_options na = 0 then Some (0, put_dnc a (d\<lparr>n_sock := Some False\<rparr>) s)
         else Some (na_options na, s)
       else Some (na_create na, s)
     else Some (- DMS_FAIL, s)
   }"

definition DNC_Release_Socket :: "nat \<Rightarrow> dncs \<Rightarrow> dncs option" where
  "DNC_Release_Socket a s = do {
     d \<leftarrow> dn_heap s a;
     Some (if n_sock d = None then s else put_dnc a (d\<lparr>n_sock := None, n_recver := False\<rparr>) s)
   }"

section \<open>Release and destroy\<close>

text \<open>The transition to \<open>DNODE_DISCONNECTED\<close>.\<close>

definition To_Disconnected :: "nat \<Rightarrow> dncs \<Rightarrow> (int \<times> dncs) option" where
  "To_Disconnected a s = do {
     d \<leftarrow> dn_heap s a;
     s \<leftarrow> DNC_Release_Socket a (put_dnc a (d\<lparr>n_status := DNODE_DISCONNECTED\<rparr>) s);
     Some (DMS_OK, s)
   }"

text \<open>A running timer is stopped and the work dropped.\<close>

definition Cancel_from_Node_Builder_Workq :: "nat \<Rightarrow> dncs \<Rightarrow> (int \<times> dncs) option" where
  "Cancel_from_Node_Builder_Workq a s = do {
     d \<leftarrow> dn_heap s a;
     if n_sock d \<noteq> None then
       if delayed_work_pending a s then Some (1, s\<lparr>dn_work := filter (\<lambda>(b, _). b \<noteq> a) (dn_work s)\<rparr>)
       else Some (DMS_OK, s)
     else Some (- DMS_FAIL, s)
   }"

definition Free_DMS_Node_Container :: "nat \<Rightarrow> dncs \<Rightarrow> dncs" where
  "Free_DMS_Node_Container a s = s\<lparr>dn_heap := (dn_heap s)(a := None)\<rparr>"

definition Release_DMS_Node_Container :: "nat \<Rightarrow> dncs \<Rightarrow> dncs option" where
  "Release_DMS_Node_Container a s = do {
     d \<leftarrow> dn_heap s a;
     (_, s) \<leftarrow> (if n_status d = DNODE_BUILDING then Cancel_from_Node_Builder_Workq a s else Some (0, s));
     (_, s) \<leftarrow> (if n_status d \<in> {DNODE_BUILDING, DNODE_INIT, DNODE_CONNECTED} then To_Disconnected a s
                else Some (0, s));
     Some (Free_DMS_Node_Container a s)
   }"

definition Clean_One_Index :: "int \<Rightarrow> dncs \<Rightarrow> nat option \<times> dncs" where
  "Clean_One_Index node_index s =
     (if DNC_IN_RANGE node_index then
        (case dn_nodes s ! nat node_index of
           None \<Rightarrow> (None, s)
         | Some a \<Rightarrow> (Some a, s\<lparr>dn_nodes := (dn_nodes s)[nat node_index := None]\<rparr>))
      else (None, s))"

definition Destroy_DMS_Node_Container :: "int \<Rightarrow> dncs \<Rightarrow> dncs option" where
  "Destroy_DMS_Node_Container node_index s =
     (case Clean_One_Index node_index s of
        (None, s) \<Rightarrow> Some s
      | (Some a, s) \<Rightarrow> Release_DMS_Node_Container a s)"

section \<open>Transitions\<close>

text \<open>The delay before the next try, in jiffies; \<open>hz\<close> is the kernel's \<open>HZ\<close>.\<close>

definition delay_interval :: "int \<Rightarrow> int \<Rightarrow> int" where
  "delay_interval hz retry_count =
     (let delay = hz * CONNECTION_RETRY_INTERVAL * retry_count
      in if delay \<ge> hz * CONNECTION_RETRY_INTERVAL_MAX then hz * CONNECTION_RETRY_INTERVAL_MAX else delay)"

definition Schedule_to_Node_Builder_Workq :: "nat \<Rightarrow> dncs \<Rightarrow> (int \<times> dncs) option" where
  "Schedule_to_Node_Builder_Workq a s = do {
     d \<leftarrow> dn_heap s a;
     if n_sock d \<noteq> None then
       if \<not> delayed_work_pending a s then
         if n_retry_count d \<le> CONNECTION_RETRY_MAX_TRY then do {
           s \<leftarrow> init_and_queue_work a Work_Connect (put_dnc a (d\<lparr>n_retry_count := n_retry_count d + 1\<rparr>) s);
           Some (1, s)
         } else do {
           s \<leftarrow> Destroy_DMS_Node_Container (n_index d) s;
           Some (- EDNC_RC_OVTIME, s)
         }
       else Some (DMS_OK, s)
     else Some (- DMS_FAIL, s)
   }"

definition set_status :: "nat \<Rightarrow> int \<Rightarrow> dncs \<Rightarrow> dncs option" where
  "set_status a st s = do { d \<leftarrow> dn_heap s a; Some (put_dnc a (d\<lparr>n_status := st\<rparr>) s) }"

definition DNC_State_Transition :: "net \<Rightarrow> nat \<Rightarrow> int \<Rightarrow> dncs \<Rightarrow> (int \<times> dncs) option" where
  "DNC_State_Transition na a tstate s =
     (if tstate = DNODE_INIT then do {
        (retcode, s) \<leftarrow> DNC_Create_Socket na a s;
        if retcode \<ge> 0 then do { s \<leftarrow> set_status a DNODE_INIT s; Some (retcode, s) } else Some (retcode, s)
      } else if tstate = DNODE_BUILDING then do {
        (retcode, s) \<leftarrow> Schedule_to_Node_Builder_Workq a s;
        if retcode \<ge> 0 then do { s \<leftarrow> set_status a DNODE_BUILDING s; Some (retcode, s) } else Some (retcode, s)
      } else if tstate = DNODE_CONNECTED then do {
        d \<leftarrow> dn_heap s a;
        _ \<leftarrow> n_sock d;
        if na_established na then
          let d = d\<lparr>n_status := DNODE_CONNECTED\<rparr>
          in if n_crecv_fn d \<and> \<not> n_recver d \<and> na_receiver na
             then Some (DMS_OK, put_dnc a (d\<lparr>n_recver := True\<rparr>) s)
             else Some (- DMS_FAIL, put_dnc a d s)
        else Some (- DMS_FAIL, s)
      } else if tstate = DNODE_DISCONNECTED then To_Disconnected a s
      else do { _ \<leftarrow> dn_heap s a; Some (- DMS_FAIL, s) })"

definition Build_Connection :: "net \<Rightarrow> nat \<Rightarrow> dncs \<Rightarrow> (int \<times> dncs) option" where
  "Build_Connection na a s = do {
     d \<leftarrow> dn_heap s a;
     if n_sock d \<noteq> None \<and> n_status d = DNODE_INIT then DNC_State_Transition na a DNODE_BUILDING s
     else Some (- DMS_FAIL, s)
   }"

section \<open>Works and callbacks\<close>

text \<open>The handler tries to connect; it holds the container's lock again after a failed
  try was scheduled.\<close>

definition Node_Connection_Handler :: "net \<Rightarrow> nat \<Rightarrow> dncs \<Rightarrow> dncs option" where
  "Node_Connection_Handler na a s = do {
     d \<leftarrow> dn_heap s a;
     (_, s) \<leftarrow> (if n_sock d = None then DNC_Create_Socket na a s else Some (0, s));
     d \<leftarrow> dn_heap s a;
     if n_sock d \<noteq> None \<and> n_status d = DNODE_BUILDING then
       if na_connect na = DMS_OK then do {
         (_, s) \<leftarrow> DNC_State_Transition na a DNODE_CONNECTED (put_dnc a (d\<lparr>n_sock := Some True\<rparr>) s);
         Some s
       } else if na_connect na = - EDNC_FORMAT then Destroy_DMS_Node_Container (n_index d) s
       else if na_connect na \<in> {- EISCONN, - EALREADY} then Some s
       else do {
         (_, s) \<leftarrow> Schedule_to_Node_Builder_Workq a s;
         _ \<leftarrow> dn_heap s a;
         Some s
       }
     else Some s
   }"

definition Rebuild_Connection :: "net \<Rightarrow> nat \<Rightarrow> dncs \<Rightarrow> dncs option" where
  "Rebuild_Connection na a s = do {
     (_, s) \<leftarrow> DNC_State_Transition na a DNODE_DISCONNECTED s;
     (_, s) \<leftarrow> DNC_State_Transition na a DNODE_INIT s;
     (_, s) \<leftarrow> Build_Connection na a s;
     Some s
   }"

text \<open>A timer that expires takes its work from the list and runs it.\<close>

definition run_work :: "net \<Rightarrow> nat \<Rightarrow> nwork \<Rightarrow> dncs \<Rightarrow> dncs option" where
  "run_work na a w s =
     (let s = s\<lparr>dn_work := remove1 (a, w) (dn_work s)\<rparr>
      in case w of Work_Connect \<Rightarrow> Node_Connection_Handler na a s | Work_Rebuild \<Rightarrow> Rebuild_Connection na a s)"

definition TCP_ESTABLISHED :: nat where "TCP_ESTABLISHED = 1"
definition TCP_SYN_SENT :: nat where "TCP_SYN_SENT = 2"
definition TCP_SYN_RECV :: nat where "TCP_SYN_RECV = 3"

definition DNC_Socket_State_Change :: "nat \<Rightarrow> nat \<Rightarrow> dncs \<Rightarrow> dncs option" where
  "DNC_Socket_State_Change sk_state a s =
     (if sk_state \<in> {TCP_SYN_SENT, TCP_SYN_RECV, TCP_ESTABLISHED} then Some s
      else init_and_queue_work a Work_Rebuild s)"

section \<open>Creation\<close>

definition Init_DMS_Node_Container :: "net \<Rightarrow> nat \<Rightarrow> int \<Rightarrow> u16 \<Rightarrow> bool \<Rightarrow> dncs \<Rightarrow> (int \<times> dncs) option" where
  "Init_DMS_Node_Container na a node_ip port crecv_fn s =
     DNC_State_Transition na a DNODE_INIT
       (put_dnc a \<lparr>n_ip = node_ip, n_port = port, n_sock = None, n_status = 0, n_retry_count = 0,
                   n_recver = False, n_crecv_fn = crecv_fn, n_index = 0\<rparr> s)"

definition Create_DMS_Node_Container :: "net \<Rightarrow> int \<Rightarrow> u16 \<Rightarrow> bool \<Rightarrow> dncs \<Rightarrow> (nat option \<times> dncs) option" where
  "Create_DMS_Node_Container na node_ip port crecv_fn s =
     (if \<not> na_mem na then Some (None, s)
      else do {
        let a = dn_next s;
        (retcode, s) \<leftarrow> Init_DMS_Node_Container na a node_ip port crecv_fn (s\<lparr>dn_next := a + 1\<rparr>);
        if retcode \<noteq> DMS_OK then do { s \<leftarrow> Release_DMS_Node_Container a s; Some (None, s) }
        else Some (Some a, s)
      })"

section \<open>The table\<close>

definition endpoint :: "dnc \<Rightarrow> int \<times> u16" where
  "endpoint d = (n_ip d, n_port d)"

text \<open>The two searches of the table: the first container with a property, and the last
  (\<open>retcode\<close> is overwritten at each match).\<close>

fun first_node :: "(dnc \<Rightarrow> bool) \<Rightarrow> dncs \<Rightarrow> nat list \<Rightarrow> nat option option" where
  "first_node P s [] = Some None"
| "first_node P s (i # is) = (case dn_nodes s ! i of
     None \<Rightarrow> first_node P s is
   | Some a \<Rightarrow> do { d \<leftarrow> dn_heap s a; if P d then Some (Some i) else first_node P s is })"

fun last_node :: "(dnc \<Rightarrow> bool) \<Rightarrow> dncs \<Rightarrow> int \<Rightarrow> nat list \<Rightarrow> int option" where
  "last_node P s retcode [] = Some retcode"
| "last_node P s retcode (i # is) = (case dn_nodes s ! i of
     None \<Rightarrow> last_node P s retcode is
   | Some a \<Rightarrow> do { d \<leftarrow> dn_heap s a; last_node P s (if P d then int i else retcode) is })"

definition DNC_Check_Duplicate :: "dnc \<Rightarrow> dncs \<Rightarrow> nat option option" where
  "DNC_Check_Duplicate d s = first_node (\<lambda>e. n_ip d = n_ip e \<and> n_port d = n_port e) s [0..<DMS_MAX_NODES]"

definition Occupy_One_Index :: "nat \<Rightarrow> dncs \<Rightarrow> (int \<times> dncs) option" where
  "Occupy_One_Index a s = do {
     d \<leftarrow> dn_heap s a;
     dup \<leftarrow> DNC_Check_Duplicate d s;
     Some (if dup = None then
       (case find (\<lambda>i. dn_nodes s ! i = None) [0..<DMS_MAX_NODES] of
          None \<Rightarrow> (- 1, s)
        | Some i \<Rightarrow> (int i, s\<lparr>dn_nodes := (dn_nodes s)[i := Some a]\<rparr>))
       else (- 1, s))
   }"

definition Node_Index_to_DNC :: "int \<Rightarrow> dncs \<Rightarrow> nat option" where
  "Node_Index_to_DNC node_index s = (if DNC_IN_RANGE node_index then dn_nodes s ! nat node_index else None)"

text \<open>A container that gets no slot is not released.\<close>

definition Build_DMS_Node_Container :: "net \<Rightarrow> int \<Rightarrow> u16 \<Rightarrow> bool \<Rightarrow> dncs \<Rightarrow> (int \<times> dncs) option" where
  "Build_DMS_Node_Container na node_ip port crecv_fn s = do {
     (r, s) \<leftarrow> Create_DMS_Node_Container na node_ip port crecv_fn s;
     case r of
       None \<Rightarrow> Some (- DMS_FAIL, s)
     | Some a \<Rightarrow> do {
         (index, s) \<leftarrow> Occupy_One_Index a s;
         if DNC_IN_RANGE index then do {
           d \<leftarrow> dn_heap s a;
           (rc, s) \<leftarrow> Build_Connection na a (put_dnc a (d\<lparr>n_index := index\<rparr>) s);
           Some (if rc > 0 then index else - DMS_FAIL, s)
         } else Some (- DMS_FAIL, s)
       }
   }"

text \<open>The port of the first search is a \<open>short\<close>, the stored one an \<open>unsigned short\<close>;
  the comparison promotes both to \<open>int\<close>.\<close>

definition Get_Node_Index_by_IP_Port :: "int \<Rightarrow> u16 \<Rightarrow> dncs \<Rightarrow> int option" where
  "Get_Node_Index_by_IP_Port ip port s =
     last_node (\<lambda>d. n_ip d = ip \<and> uint (n_port d) = sint port) s (- 1) [0..<DMS_MAX_NODES]"

definition Get_Node_Index_by_SSocket :: "int \<times> u16 \<Rightarrow> dncs \<Rightarrow> int option" where
  "Get_Node_Index_by_SSocket ssk s =
     last_node (\<lambda>d. n_ip d = fst ssk \<and> n_port d = snd ssk) s (- 1) [0..<DMS_MAX_NODES]"

definition Get_Size_of_DNCS :: "dncs \<Rightarrow> int" where
  "Get_Size_of_DNCS s = fold (\<lambda>i retcode. if dn_nodes s ! i \<noteq> None then retcode + 1 else retcode) [0..<DMS_MAX_NODES] 0"

definition Get_IP_Int :: "int \<Rightarrow> dncs \<Rightarrow> int option" where
  "Get_IP_Int node_index s = (case Node_Index_to_DNC node_index s of
     None \<Rightarrow> Some (- 1) | Some a \<Rightarrow> map_option n_ip (dn_heap s a))"

definition Get_Port :: "int \<Rightarrow> dncs \<Rightarrow> u16 option" where
  "Get_Port node_index s = (case Node_Index_to_DNC node_index s of
     None \<Rightarrow> Some (- 1) | Some a \<Rightarrow> map_option n_port (dn_heap s a))"

definition Init_DNCS_Manager :: "dncs \<Rightarrow> dncs" where
  "Init_DNCS_Manager s = s\<lparr>dn_nodes := replicate DMS_MAX_NODES None\<rparr>"

section \<open>The table's invariant\<close>

text \<open>The endpoint of the container in a slot; \<open>None\<close> for an empty slot.\<close>

definition dn_entries :: "dncs \<Rightarrow> nat \<Rightarrow> (int \<times> u16) option" where
  "dn_entries s i = (if i < DMS_MAX_NODES
     then Option.bind (dn_nodes s ! i) (\<lambda>a. map_option endpoint (dn_heap s a)) else None)"

definition dn_wf :: "dncs \<Rightarrow> bool" where
  "dn_wf s \<longleftrightarrow> length (dn_nodes s) = DMS_MAX_NODES
     \<and> (\<forall>a d. dn_heap s a = Some d \<longrightarrow> a < dn_next s)
     \<and> (\<forall>i a. i < DMS_MAX_NODES \<and> dn_nodes s ! i = Some a \<longrightarrow> (\<exists>d. dn_heap s a = Some d \<and> n_index d = int i))
     \<and> (\<forall>i j k. dn_entries s i = Some k \<longrightarrow> dn_entries s j = Some k \<longrightarrow> i = j)"

lemma dn_wf_unique: "dn_wf s \<Longrightarrow> dn_entries s i = Some k \<Longrightarrow> dn_entries s j = Some k \<Longrightarrow> i = j"
  unfolding dn_wf_def by blast

lemma dn_wf_slot:
  assumes "dn_wf s" and "i < DMS_MAX_NODES"
  obtains (free) "dn_nodes s ! i = None" "dn_entries s i = None"
    | (used) a d where "dn_nodes s ! i = Some a" "dn_heap s a = Some d" "n_index d = int i"
        "dn_entries s i = Some (endpoint d)"
proof (cases "dn_nodes s ! i")
  case None
  with assms(2) free show ?thesis by (simp add: dn_entries_def)
next
  case (Some a)
  with assms obtain d where "dn_heap s a = Some d" "n_index d = int i" unfolding dn_wf_def by blast
  with used Some assms(2) show ?thesis by (simp add: dn_entries_def)
qed

lemma first_node_find:
  assumes "dn_wf s" and "\<forall>i \<in> set is. i < DMS_MAX_NODES"
  shows "first_node (\<lambda>d. Q (endpoint d)) s is = Some (find (\<lambda>i. case dn_entries s i of None \<Rightarrow> False | Some k \<Rightarrow> Q k) is)"
  using assms(2)
proof (induction "is")
  case (Cons i "is")
  then have "i < DMS_MAX_NODES" by simp
  with assms(1) show ?case by (cases rule: dn_wf_slot) (use Cons in simp_all)
qed simp

lemma last_node_find:
  assumes "dn_wf s" and "\<forall>i \<in> set is. i < DMS_MAX_NODES"
  shows "last_node (\<lambda>d. Q (endpoint d)) s r is = Some (case find (\<lambda>i. case dn_entries s i of None \<Rightarrow> False | Some k \<Rightarrow> Q k) (rev is) of
    None \<Rightarrow> r | Some i \<Rightarrow> int i)"
  using assms(2)
proof (induction "is" arbitrary: r)
  case (Cons i "is")
  then have i: "i < DMS_MAX_NODES" by simp
  have split: "find P (xs @ [x]) = (case find P xs of None \<Rightarrow> if P x then Some x else None | Some y \<Rightarrow> Some y)"
    for P xs and x :: nat by (induction xs) simp_all
  from assms(1) i show ?case
    by (cases rule: dn_wf_slot) (use Cons in \<open>simp_all add: split split: option.splits\<close>)
qed simp

definition dn_lookup :: "int \<times> u16 \<Rightarrow> dncs \<Rightarrow> nat option" where
  "dn_lookup k s = find (\<lambda>i. dn_entries s i = Some k) [0..<DMS_MAX_NODES]"

lemma dn_entries_range: "dn_entries s i = Some k \<Longrightarrow> i < DMS_MAX_NODES"
  by (simp add: dn_entries_def split: if_splits)

lemma dn_lookup_Some: "dn_wf s \<Longrightarrow> dn_lookup k s = Some i \<longleftrightarrow> dn_entries s i = Some k"
proof
  assume "dn_lookup k s = Some i"
  then show "dn_entries s i = Some k" by (auto simp: dn_lookup_def find_Some_iff)
next
  assume wf: "dn_wf s" and e: "dn_entries s i = Some k"
  then obtain j where "dn_lookup k s = Some j" "dn_entries s j = Some k"
    using dn_entries_range [OF e] unfolding dn_lookup_def
    by (cases "find (\<lambda>i. dn_entries s i = Some k) [0..<DMS_MAX_NODES]") (auto simp: find_None_iff find_Some_iff)
  with wf e show "dn_lookup k s = Some i" unfolding dn_wf_def by metis
qed

lemma find_the:
  assumes "x \<in> set xs" and "P x" and u: "\<And>y. y \<in> set xs \<Longrightarrow> P y \<Longrightarrow> y = x"
  shows "find P xs = Some x"
proof -
  have "find P xs \<noteq> None" using assms(1,2) unfolding find_None_iff by blast
  then obtain y where y: "find P xs = Some y" by blast
  then obtain n where "n < length xs" "P (xs ! n)" "y = xs ! n" unfolding find_Some_iff by blast
  with u [of y] have "y = x" by simp
  with y show ?thesis by simp
qed

lemma last_node_the:
  assumes wf: "dn_wf s" and Q: "\<And>k. Q k \<Longrightarrow> k = e"
  shows "last_node (\<lambda>d. Q (endpoint d)) s (- 1) [0..<DMS_MAX_NODES] = Some (case dn_lookup e s of
    None \<Rightarrow> - 1 | Some i \<Rightarrow> if Q e then int i else - 1)"
proof -
  let ?P = "\<lambda>i. case dn_entries s i of None \<Rightarrow> False | Some k \<Rightarrow> Q k"
  have "find ?P (rev [0..<DMS_MAX_NODES]) = (case dn_lookup e s of None \<Rightarrow> None | Some i \<Rightarrow> if Q e then Some i else None)"
  proof (cases "dn_lookup e s")
    case None
    then have "dn_entries s i \<noteq> Some e" if "i < DMS_MAX_NODES" for i
      using that by (auto simp: dn_lookup_def find_None_iff)
    with None Q show ?thesis by (auto simp: find_None_iff split: option.splits)
  next
    case (Some i)
    with wf have e: "dn_entries s i = Some e" by (simp add: dn_lookup_Some)
    show ?thesis
    proof (cases "Q e")
      case True
      have "j = i" if "?P j" for j
      proof -
        from that obtain k where "dn_entries s j = Some k" "Q k" by (cases "dn_entries s j") simp_all
        with Q e have "dn_entries s j = Some e" "dn_entries s i = Some e" by simp_all
        with wf show ?thesis unfolding dn_wf_def by blast
      qed
      moreover have "i \<in> set (rev [0..<DMS_MAX_NODES])" "?P i"
        using True e dn_entries_range [OF e] by simp_all
      ultimately have "find ?P (rev [0..<DMS_MAX_NODES]) = Some i" by (intro find_the) blast+
      with Some True show ?thesis by simp
    next
      case False
      with Some Q show ?thesis by (auto simp: find_None_iff split: option.splits)
    qed
  qed
  with last_node_find [OF wf, of "[0..<DMS_MAX_NODES]" Q "- 1"] show ?thesis
    by (auto split: option.splits)
qed

section \<open>The operations in closed form\<close>

definition disconnected :: "dnc \<Rightarrow> dnc" where
  "disconnected d = (if n_sock d = None then d\<lparr>n_status := DNODE_DISCONNECTED\<rparr>
     else d\<lparr>n_status := DNODE_DISCONNECTED, n_sock := None, n_recver := False\<rparr>)"

definition released :: "nat \<Rightarrow> dnc \<Rightarrow> dncs \<Rightarrow> dncs" where
  "released a d s = s\<lparr>dn_heap := (dn_heap s)(a := None),
     dn_work := (if n_status d = DNODE_BUILDING \<and> n_sock d \<noteq> None
                 then filter (\<lambda>(b, _). b \<noteq> a) (dn_work s) else dn_work s)\<rparr>"

lemma put_dnc_sel [simp]: "dn_heap (put_dnc a d s) = (dn_heap s)(a \<mapsto> d)" "dn_nodes (put_dnc a d s) = dn_nodes s"
  "dn_next (put_dnc a d s) = dn_next s" "dn_work (put_dnc a d s) = dn_work s"
  by (simp_all add: put_dnc_def)

lemma put_put [simp]: "put_dnc a d (put_dnc a e s) = put_dnc a d s"
  by (simp add: put_dnc_def)

lemma put_work [simp]: "(put_dnc a d s)\<lparr>dn_work := ws\<rparr> = put_dnc a d (s\<lparr>dn_work := ws\<rparr>)"
  by (cases s) (simp add: put_dnc_def)

lemma put_nodes [simp]: "(put_dnc a d s)\<lparr>dn_nodes := ns\<rparr> = put_dnc a d (s\<lparr>dn_nodes := ns\<rparr>)"
  by (cases s) (simp add: put_dnc_def)

lemma pending_put [simp]: "delayed_work_pending a (put_dnc b d s) = delayed_work_pending a s"
  by (simp add: delayed_work_pending_def)

lemma disconnected_sel [simp]: "n_index (disconnected d) = n_index d" "endpoint (disconnected d) = endpoint d"
  "n_status (disconnected d) = DNODE_DISCONNECTED" "n_sock (disconnected d) = None"
  "n_retry_count (disconnected d) = n_retry_count d" "n_ip (disconnected d) = n_ip d" "n_port (disconnected d) = n_port d"
  by (simp_all add: disconnected_def endpoint_def)

lemma To_Disconnected_eq:
  "dn_heap s a = Some d \<Longrightarrow> To_Disconnected a s = Some (DMS_OK, put_dnc a (disconnected d) s)"
  by (simp add: To_Disconnected_def DNC_Release_Socket_def disconnected_def)

lemma Cancel_eq:
  assumes "dn_heap s a = Some d" and "n_sock d \<noteq> None"
  shows "\<exists>r. Cancel_from_Node_Builder_Workq a s = Some (r, s\<lparr>dn_work := filter (\<lambda>(b, _). b \<noteq> a) (dn_work s)\<rparr>)"
proof -
  have "filter (\<lambda>(b, _). b \<noteq> a) (dn_work s) = dn_work s" if "\<not> delayed_work_pending a s"
    using that by (force simp: delayed_work_pending_def filter_id_conv)
  with assms show ?thesis by (auto simp: Cancel_from_Node_Builder_Workq_def)
qed

lemma Release_eq:
  assumes "dn_heap s a = Some d"
  shows "Release_DMS_Node_Container a s = Some (released a d s)"
proof (cases "n_status d = DNODE_BUILDING \<and> n_sock d \<noteq> None")
  case True
  with assms Cancel_eq [OF assms] show ?thesis
    by (auto simp: Release_DMS_Node_Container_def To_Disconnected_eq Free_DMS_Node_Container_def released_def put_dnc_def)
next
  case False
  then show ?thesis using assms
    by (auto simp: Release_DMS_Node_Container_def Cancel_from_Node_Builder_Workq_def To_Disconnected_eq
        Free_DMS_Node_Container_def released_def put_dnc_def dnode_defs)
qed

lemma in_range_nat: "DNC_IN_RANGE j \<longleftrightarrow> 0 \<le> j \<and> nat j < DMS_MAX_NODES"
  by (auto simp: DNC_IN_RANGE_def IS_IN_RANGE_def DMS_MAX_NODES_def)

lemma Destroy_used:
  assumes "i < DMS_MAX_NODES" and "dn_nodes s ! i = Some a" and "dn_heap s a = Some d"
  shows "Destroy_DMS_Node_Container (int i) s = Some (released a d (s\<lparr>dn_nodes := (dn_nodes s)[i := None]\<rparr>))"
  using assms by (simp add: Destroy_DMS_Node_Container_def Clean_One_Index_def in_range_nat Release_eq)

lemma Destroy_unused:
  "(DNC_IN_RANGE j \<Longrightarrow> dn_nodes s ! nat j = None) \<Longrightarrow> Destroy_DMS_Node_Container j s = Some s"
  by (simp add: Destroy_DMS_Node_Container_def Clean_One_Index_def)

section \<open>The invariant of the containers\<close>

text \<open>A container has a socket exactly in the states \<open>INIT\<close>, \<open>BUILDING\<close> and
  \<open>CONNECTED\<close>; it has at most one work; and while its connecting work waits it is
  \<open>BUILDING\<close>.\<close>

definition node_ok :: "dnc \<Rightarrow> bool" where
  "node_ok d \<longleftrightarrow> (n_sock d \<noteq> None \<longleftrightarrow> n_status d \<in> {DNODE_INIT, DNODE_BUILDING, DNODE_CONNECTED})"

definition in_table :: "dncs \<Rightarrow> nat \<Rightarrow> bool" where
  "in_table s a \<longleftrightarrow> (\<exists>i < DMS_MAX_NODES. dn_nodes s ! i = Some a)"

definition dn_inv :: "dncs \<Rightarrow> bool" where
  "dn_inv s \<longleftrightarrow> dn_wf s
     \<and> (\<forall>a d. dn_heap s a = Some d \<longrightarrow> node_ok d \<and> (n_sock d = Some True \<longrightarrow> in_table s a))
     \<and> distinct (map fst (dn_work s))
     \<and> (\<forall>a w. (a, w) \<in> set (dn_work s) \<longrightarrow> a < dn_next s \<and> (dn_heap s a \<noteq> None \<longrightarrow> in_table s a)
          \<and> (w = Work_Connect \<longrightarrow> (\<exists>d. dn_heap s a = Some d \<and> n_status d = DNODE_BUILDING)))"

lemma in_table_put [simp]: "in_table (put_dnc b d s) a = in_table s a"
  by (simp add: in_table_def)

lemma in_table_work [simp]: "in_table (s\<lparr>dn_work := ws\<rparr>) a = in_table s a"
  by (simp add: in_table_def)

lemma entries_put: "dn_heap s a = Some d \<Longrightarrow> endpoint d' = endpoint d \<Longrightarrow>
  dn_entries (put_dnc a d' s) = dn_entries s"
  by (auto simp: dn_entries_def fun_eq_iff split: Option.bind_splits)

lemma wf_put:
  assumes wf: "dn_wf s" and d: "dn_heap s a = Some d" "endpoint d' = endpoint d" "n_index d' = n_index d"
  shows "dn_wf (put_dnc a d' s)"
proof -
  have "\<exists>e. dn_heap (put_dnc a d' s) b = Some e \<and> n_index e = int i"
    if "i < DMS_MAX_NODES" "dn_nodes s ! i = Some b" for i b
    using wf that d by (cases "b = a") (fastforce simp: dn_wf_def)+
  with wf d show ?thesis unfolding dn_wf_def entries_put [OF d(1,2)] by auto
qed

lemma inv_put:
  assumes "dn_inv s" and d: "dn_heap s a = Some d" "endpoint d' = endpoint d" "n_index d' = n_index d"
    and "node_ok d'" and "(a, Work_Connect) \<in> set (dn_work s) \<Longrightarrow> n_status d' = DNODE_BUILDING"
    and "n_sock d' = Some True \<Longrightarrow> in_table s a"
  shows "dn_inv (put_dnc a d' s)"
  using assms wf_put [OF _ d] unfolding dn_inv_def by auto

lemma entries_work: "dn_entries (s\<lparr>dn_work := ws\<rparr>) = dn_entries s"
  by (rule ext) (simp add: dn_entries_def)

lemma wf_work: "dn_wf s \<Longrightarrow> dn_wf (s\<lparr>dn_work := ws\<rparr>)"
  by (simp add: dn_wf_def entries_work)

lemma inv_work_less: "dn_inv s \<Longrightarrow> set ws \<subseteq> set (dn_work s) \<Longrightarrow> distinct (map fst ws) \<Longrightarrow> dn_inv (s\<lparr>dn_work := ws\<rparr>)"
  unfolding dn_inv_def by (auto simp: wf_work)

lemma inv_queue:
  assumes "dn_inv s" and "\<not> delayed_work_pending a s" and "dn_heap s a = Some d" and "in_table s a"
    and "w = Work_Connect \<Longrightarrow> n_status d = DNODE_BUILDING"
  shows "dn_inv (s\<lparr>dn_work := dn_work s @ [(a, w)]\<rparr>)"
proof -
  have "a < dn_next s" using assms(1,3) by (auto simp: dn_inv_def dn_wf_def)
  with assms show ?thesis unfolding dn_inv_def delayed_work_pending_def by (auto simp: wf_work)
qed

lemma wf_free:
  assumes wf: "dn_wf s" and i: "i < DMS_MAX_NODES" "dn_nodes s ! i = Some a" "dn_heap s a = Some d"
  defines "t \<equiv> released a d (s\<lparr>dn_nodes := (dn_nodes s)[i := None]\<rparr>)"
  shows "dn_wf t" and "dn_entries t = (dn_entries s)(i := None)"
proof -
  have len: "length (dn_nodes s) = DMS_MAX_NODES" using wf by (simp add: dn_wf_def)
  have other: "b \<noteq> a" if "j < DMS_MAX_NODES" "dn_nodes s ! j = Some b" "j \<noteq> i" for j b
  proof
    assume "b = a"
    with wf that i have "n_index d = int j" "n_index d = int i" unfolding dn_wf_def by (metis option.inject)+
    with that(3) show False by simp
  qed
  have n: "dn_nodes t = (dn_nodes s)[i := None]" "dn_heap t = (dn_heap s)(a := None)" "dn_next t = dn_next s"
    by (simp_all add: t_def released_def)
  show e: "dn_entries t = (dn_entries s)(i := None)"
  proof
    fix j
    show "dn_entries t j = ((dn_entries s)(i := None)) j"
      using other [of j] i(1) len by (cases "j = i"; cases "dn_nodes s ! j") (simp_all add: dn_entries_def n)
  qed
  have "\<exists>e. dn_heap t b = Some e \<and> n_index e = int j" if "j < DMS_MAX_NODES" "dn_nodes t ! j = Some b" for j b
  proof -
    from that i(1) len have j: "j \<noteq> i" "dn_nodes s ! j = Some b" by (auto simp: n nth_list_update split: if_splits)
    with wf that(1) obtain e where "dn_heap s b = Some e" "n_index e = int j" unfolding dn_wf_def by blast
    with other [OF that(1) j(2,1)] show ?thesis by (simp add: n)
  qed
  moreover have "j = l" if "dn_entries t j = Some k" "dn_entries t l = Some k" for j l k
    using that dn_wf_unique [OF wf] by (auto simp: e split: if_splits)
  moreover have "b < dn_next t" if "dn_heap t b = Some e" for b e
    using that wf by (auto simp: n dn_wf_def split: if_splits)
  ultimately show "dn_wf t" unfolding dn_wf_def using len by (auto simp: n)
qed

lemma index_in_table:
  assumes "dn_wf s" and "in_table s a" and "dn_heap s a = Some d"
  obtains i where "i < DMS_MAX_NODES" "dn_nodes s ! i = Some a" "n_index d = int i"
  using assms unfolding in_table_def dn_wf_def by (metis option.inject)

lemma inv_free:
  assumes "dn_inv s" and i: "i < DMS_MAX_NODES" "dn_nodes s ! i = Some a" "dn_heap s a = Some d"
  shows "dn_inv (released a d (s\<lparr>dn_nodes := (dn_nodes s)[i := None]\<rparr>))"
proof -
  let ?t = "released a d (s\<lparr>dn_nodes := (dn_nodes s)[i := None]\<rparr>)"
  have swf: "dn_wf s" using assms(1) by (simp add: dn_inv_def)
  have wf: "dn_wf ?t" using wf_free(1) assms by (simp add: dn_inv_def)
  have ok: "node_ok d" using assms(1,4) by (simp add: dn_inv_def)
  have h: "dn_heap ?t = (dn_heap s)(a := None)" "dn_next ?t = dn_next s" by (simp_all add: released_def)
  have ws: "dn_work ?t = (if n_status d = DNODE_BUILDING then filter (\<lambda>(b, _). b \<noteq> a) (dn_work s) else dn_work s)"
    using ok by (auto simp: released_def node_ok_def)
  have sub: "set (dn_work ?t) \<subseteq> set (dn_work s)" unfolding ws by auto
  have "distinct (map fst (dn_work s))" using assms(1) by (simp add: dn_inv_def)
  then have dist: "distinct (map fst (dn_work ?t))" unfolding ws by (auto simp: distinct_map_filter)
  have tab: "in_table ?t b" if "in_table s b" "b \<noteq> a" for b
  proof -
    from that(1) obtain j where j: "j < DMS_MAX_NODES" "dn_nodes s ! j = Some b" by (auto simp: in_table_def)
    with that(2) i(2) have "j \<noteq> i" by auto
    with j show ?thesis by (auto simp: in_table_def released_def)
  qed
  have "\<exists>e. dn_heap ?t b = Some e \<and> n_status e = DNODE_BUILDING" if "(b, Work_Connect) \<in> set (dn_work ?t)" for b
  proof -
    from that sub assms(1) obtain e where "dn_heap s b = Some e" "n_status e = DNODE_BUILDING"
      unfolding dn_inv_def by blast
    moreover from this that i(3) have "b \<noteq> a" unfolding ws by (auto split: if_splits)
    ultimately show ?thesis by (simp add: h)
  qed
  moreover have "node_ok e \<and> (n_sock e = Some True \<longrightarrow> in_table ?t b)" if "dn_heap ?t b = Some e" for b e
    using that assms(1) tab [of b] by (auto simp: h dn_inv_def split: if_splits)
  moreover have "b < dn_next ?t \<and> (dn_heap ?t b \<noteq> None \<longrightarrow> in_table ?t b)" if "(b, w) \<in> set (dn_work ?t)" for b w
  proof -
    from that sub assms(1) have "b < dn_next s" "dn_heap s b \<noteq> None \<longrightarrow> in_table s b" unfolding dn_inv_def by blast+
    with tab [of b] show ?thesis by (auto simp: h split: if_splits)
  qed
  ultimately show ?thesis using wf dist unfolding dn_inv_def by blast
qed

section \<open>The works in closed form\<close>

lemma Schedule_eq:
  assumes "dn_heap s a = Some d" and "n_sock d \<noteq> None" and "\<not> delayed_work_pending a s"
  shows "Schedule_to_Node_Builder_Workq a s =
    (if n_retry_count d \<le> CONNECTION_RETRY_MAX_TRY
     then Some (1, put_dnc a (d\<lparr>n_retry_count := n_retry_count d + 1\<rparr>) (s\<lparr>dn_work := dn_work s @ [(a, Work_Connect)]\<rparr>))
     else map_option (\<lambda>s. (- EDNC_RC_OVTIME, s)) (Destroy_DMS_Node_Container (n_index d) s))"
  using assms by (cases "Destroy_DMS_Node_Container (n_index d) s")
    (auto simp: Schedule_to_Node_Builder_Workq_def init_and_queue_work_def)

text \<open>The node that is destroyed is gone.\<close>

lemma Destroy_own:
  assumes "dn_wf s" and "in_table s a" and "dn_heap s a = Some d"
  obtains i where "i < DMS_MAX_NODES" "dn_nodes s ! i = Some a" "n_index d = int i"
    "Destroy_DMS_Node_Container (n_index d) s = Some (released a d (s\<lparr>dn_nodes := (dn_nodes s)[i := None]\<rparr>))"
proof -
  obtain i where i: "i < DMS_MAX_NODES" "dn_nodes s ! i = Some a" "n_index d = int i"
    using index_in_table [OF assms] .
  with that Destroy_used [OF i(1,2) assms(3)] show ?thesis by simp
qed

definition connected :: "net \<Rightarrow> dnc \<Rightarrow> dnc" where
  "connected na d = (if \<not> na_established na then d\<lparr>n_sock := Some True\<rparr>
     else if n_crecv_fn d \<and> \<not> n_recver d \<and> na_receiver na
     then d\<lparr>n_sock := Some True, n_status := DNODE_CONNECTED, n_recver := True\<rparr>
     else d\<lparr>n_sock := Some True, n_status := DNODE_CONNECTED\<rparr>)"

lemma Handler_eq:
  assumes wf: "dn_wf s" and tab: "in_table s a" and d: "dn_heap s a = Some d" "n_sock d \<noteq> None"
    "n_status d = DNODE_BUILDING" and np: "\<not> delayed_work_pending a s"
  shows "Node_Connection_Handler na a s =
    (if na_connect na = DMS_OK then Some (put_dnc a (connected na d) s)
     else if na_connect na = - EDNC_FORMAT then Destroy_DMS_Node_Container (n_index d) s
     else if na_connect na \<in> {- EISCONN, - EALREADY} then Some s
     else if n_retry_count d \<le> CONNECTION_RETRY_MAX_TRY
     then Some (put_dnc a (d\<lparr>n_retry_count := n_retry_count d + 1\<rparr>) (s\<lparr>dn_work := dn_work s @ [(a, Work_Connect)]\<rparr>))
     else None)"
proof (cases "na_connect na \<in> {DMS_OK, - EDNC_FORMAT, - EISCONN, - EALREADY}")
  case True
  then show ?thesis using d
    by (auto simp: Node_Connection_Handler_def DNC_State_Transition_def dnode_defs connected_def Let_def ret_defs ednc_defs)
next
  case False
  obtain i where i: "i < DMS_MAX_NODES" "dn_nodes s ! i = Some a"
    "Destroy_DMS_Node_Container (n_index d) s = Some (released a d (s\<lparr>dn_nodes := (dn_nodes s)[i := None]\<rparr>))"
    using Destroy_own [OF wf tab d(1)] by metis
  have "dn_heap (released a d t) a = None" for t by (simp add: released_def)
  with False d i Schedule_eq [OF d(1,2) np] show ?thesis
    by (auto simp: Node_Connection_Handler_def)
qed

lemma Rebuild_eq:
  assumes d: "dn_heap s a = Some d" and np: "\<not> delayed_work_pending a s" and na: "na_options na \<le> 0"
  shows "Rebuild_Connection na a s =
    (if na_create na \<ge> 0 \<and> na_options na = 0 then
       if n_retry_count d \<le> CONNECTION_RETRY_MAX_TRY
       then Some (put_dnc a ((disconnected d)\<lparr>n_sock := Some False, n_retry_count := n_retry_count d + 1,
                    n_status := DNODE_BUILDING\<rparr>) (s\<lparr>dn_work := dn_work s @ [(a, Work_Connect)]\<rparr>))
       else Destroy_DMS_Node_Container (n_index d)
              (put_dnc a ((disconnected d)\<lparr>n_sock := Some False, n_status := DNODE_INIT\<rparr>) s)
     else Some (put_dnc a (disconnected d) s))"
proof -
  let ?d = "disconnected d" and ?i = "(disconnected d)\<lparr>n_sock := Some False, n_status := DNODE_INIT\<rparr>"
  let ?s = "put_dnc a ?i s"
  have t1: "DNC_State_Transition na a DNODE_DISCONNECTED s = Some (DMS_OK, put_dnc a ?d s)"
    using d by (simp add: DNC_State_Transition_def To_Disconnected_eq dnode_defs)
  show ?thesis
  proof (cases "na_create na \<ge> 0 \<and> na_options na = 0")
    case True
    then have t2: "DNC_State_Transition na a DNODE_INIT (put_dnc a ?d s) = Some (0, ?s)"
      by (simp add: DNC_State_Transition_def DNC_Create_Socket_def set_status_def)
    have h: "dn_heap ?s a = Some ?i" "n_sock ?i \<noteq> None" "\<not> delayed_work_pending a ?s" using np by simp_all
    have b: "Build_Connection na a ?s = (if n_retry_count d \<le> CONNECTION_RETRY_MAX_TRY
       then Some (1, put_dnc a ((disconnected d)\<lparr>n_sock := Some False, n_retry_count := n_retry_count d + 1,
                    n_status := DNODE_BUILDING\<rparr>) (s\<lparr>dn_work := dn_work s @ [(a, Work_Connect)]\<rparr>))
       else map_option (\<lambda>s. (- EDNC_RC_OVTIME, s)) (Destroy_DMS_Node_Container (n_index d) ?s))"
      using Schedule_eq [OF h]
      by (cases "Destroy_DMS_Node_Container (n_index d) ?s")
        (auto simp: Build_Connection_def DNC_State_Transition_def dnode_defs set_status_def ednc_defs)
    from t1 t2 b True show ?thesis
      by (cases "Destroy_DMS_Node_Container (n_index d) ?s") (simp_all add: Rebuild_Connection_def)
  next
    case False
    then obtain r where "DNC_State_Transition na a DNODE_INIT (put_dnc a ?d s) = Some (r, put_dnc a ?d s)"
      using na by (cases "na_create na \<ge> 0") (auto simp: DNC_State_Transition_def DNC_Create_Socket_def dnode_defs)
    with t1 False show ?thesis by (auto simp: Rebuild_Connection_def Build_Connection_def)
  qed
qed

section \<open>Building a connection\<close>

definition new_dnc :: "int \<Rightarrow> u16 \<Rightarrow> bool \<Rightarrow> dnc" where
  "new_dnc node_ip port crecv_fn = \<lparr>n_ip = node_ip, n_port = port, n_sock = Some False, n_status = DNODE_INIT,
     n_retry_count = 0, n_recver = False, n_crecv_fn = crecv_fn, n_index = 0\<rparr>"

definition socket_ok :: "net \<Rightarrow> bool" where
  "socket_ok na \<longleftrightarrow> na_mem na \<and> na_create na \<ge> 0 \<and> na_options na = 0"

lemma heap_next: "dn_wf s \<Longrightarrow> dn_heap s (dn_next s) = None"
  unfolding dn_wf_def by (cases "dn_heap s (dn_next s)") auto

lemma Create_eq:
  assumes "dn_wf s" and "na_options na \<le> 0"
  shows "Create_DMS_Node_Container na node_ip port crecv_fn s = Some (
    if socket_ok na then (Some (dn_next s), put_dnc (dn_next s) (new_dnc node_ip port crecv_fn) (s\<lparr>dn_next := dn_next s + 1\<rparr>))
    else (None, if na_mem na then s\<lparr>dn_next := dn_next s + 1\<rparr> else s))"
proof (cases "socket_ok na")
  case True
  then show ?thesis
    by (simp add: Create_DMS_Node_Container_def Init_DMS_Node_Container_def DNC_State_Transition_def
        DNC_Create_Socket_def set_status_def socket_ok_def new_dnc_def ret_defs Let_def)
next
  case False
  have h: "(dn_heap s)(dn_next s := None) = dn_heap s" using heap_next [OF assms(1)] by (simp add: fun_upd_idem)
  have "s\<lparr>dn_next := n, dn_heap := dn_heap s, dn_work := dn_work s\<rparr> = s\<lparr>dn_next := n\<rparr>" for n by (cases s) simp
  with False assms(2) h show ?thesis
    by (cases "na_create na \<ge> 0")
      (auto simp: Create_DMS_Node_Container_def Init_DMS_Node_Container_def DNC_State_Transition_def
        DNC_Create_Socket_def set_status_def socket_ok_def Release_eq released_def put_dnc_def ret_defs dnode_defs Let_def)
qed

lemma entries_alloc:
  assumes "dn_wf s"
  shows "dn_entries (put_dnc (dn_next s) d (s\<lparr>dn_next := n\<rparr>)) = dn_entries s"
proof
  fix i
  show "dn_entries (put_dnc (dn_next s) d (s\<lparr>dn_next := n\<rparr>)) i = dn_entries s i"
  proof (cases "i < DMS_MAX_NODES")
    case True
    from assms True show ?thesis
      by (cases rule: dn_wf_slot) (use heap_next [OF assms] True in \<open>auto simp: dn_entries_def\<close>)
  qed (simp add: dn_entries_def)
qed

lemma inv_next: "dn_inv s \<Longrightarrow> dn_inv (s\<lparr>dn_next := dn_next s + 1\<rparr>)" "dn_entries (s\<lparr>dn_next := n\<rparr>) = dn_entries s"
proof -
  show e: "dn_entries (s\<lparr>dn_next := n\<rparr>) = dn_entries s" for n by (rule ext) (simp add: dn_entries_def)
  assume "dn_inv s"
  then show "dn_inv (s\<lparr>dn_next := dn_next s + 1\<rparr>)"
    unfolding dn_inv_def dn_wf_def e in_table_def by (fastforce simp: less_Suc_eq)
qed

lemma inv_alloc:
  assumes "dn_inv s" and "node_ok d" and "n_sock d \<noteq> Some True"
  shows "dn_inv (put_dnc (dn_next s) d (s\<lparr>dn_next := dn_next s + 1\<rparr>))"
proof -
  let ?t = "put_dnc (dn_next s) d (s\<lparr>dn_next := dn_next s + 1\<rparr>)"
  have wf: "dn_wf s" using assms(1) by (simp add: dn_inv_def)
  have old: "dn_heap ?t b = dn_heap s b" if "b < dn_next s" for b using that by simp
  have less: "b < dn_next s" if "dn_heap s b = Some e" for b e using that wf by (auto simp: dn_wf_def)
  have "dn_wf ?t" unfolding dn_wf_def entries_alloc [OF wf]
  proof (intro conjI allI impI)
    show "length (dn_nodes ?t) = DMS_MAX_NODES" using wf by (simp add: dn_wf_def)
    show "b < dn_next ?t" if "dn_heap ?t b = Some e" for b e
      using that less [of b e] by (auto split: if_splits)
    show "\<exists>e. dn_heap ?t b = Some e \<and> n_index e = int i" if "i < DMS_MAX_NODES \<and> dn_nodes ?t ! i = Some b" for i b
    proof -
      from that have "i < DMS_MAX_NODES \<and> dn_nodes s ! i = Some b" by simp
      with wf obtain e where "dn_heap s b = Some e" "n_index e = int i" unfolding dn_wf_def by blast
      with less [of b e] show ?thesis by auto
    qed
    show "i = j" if "dn_entries s i = Some k" "dn_entries s j = Some k" for i j k
      using dn_wf_unique [OF wf that] .
  qed
  moreover have "node_ok e \<and> (n_sock e = Some True \<longrightarrow> in_table ?t b)" if "dn_heap ?t b = Some e" for b e
    using that assms by (auto simp: dn_inv_def in_table_def split: if_splits)
  moreover have "b < dn_next ?t \<and> (dn_heap ?t b \<noteq> None \<longrightarrow> in_table ?t b)
      \<and> (w = Work_Connect \<longrightarrow> (\<exists>e. dn_heap ?t b = Some e \<and> n_status e = DNODE_BUILDING))"
    if "(b, w) \<in> set (dn_work ?t)" for b w
  proof -
    from that assms(1) have b: "b < dn_next s" "dn_heap s b \<noteq> None \<longrightarrow> in_table s b"
      "w = Work_Connect \<longrightarrow> (\<exists>e. dn_heap s b = Some e \<and> n_status e = DNODE_BUILDING)"
      unfolding dn_inv_def by auto
    then show ?thesis using old [OF b(1)] by (simp add: in_table_def less_Suc_eq)
  qed
  ultimately show ?thesis using assms(1) unfolding dn_inv_def by simp
qed

lemma inv_occupy:
  assumes "dn_inv s" and d: "dn_heap s a = Some d" "n_index d = int i" and i: "i < DMS_MAX_NODES" "dn_nodes s ! i = None"
    and new: "endpoint d \<notin> ran (dn_entries s)"
  shows "dn_inv (s\<lparr>dn_nodes := (dn_nodes s)[i := Some a]\<rparr>)"
    and "dn_entries (s\<lparr>dn_nodes := (dn_nodes s)[i := Some a]\<rparr>) = (dn_entries s)(i \<mapsto> endpoint d)"
proof -
  let ?t = "s\<lparr>dn_nodes := (dn_nodes s)[i := Some a]\<rparr>"
  have wf: "dn_wf s" using assms(1) by (simp add: dn_inv_def)
  then have len: "length (dn_nodes s) = DMS_MAX_NODES" by (simp add: dn_wf_def)
  show e: "dn_entries ?t = (dn_entries s)(i \<mapsto> endpoint d)"
  proof
    fix j
    show "dn_entries ?t j = ((dn_entries s)(i \<mapsto> endpoint d)) j"
      using d i len by (cases "j = i") (simp_all add: dn_entries_def)
  qed
  have tab: "in_table ?t b" if "in_table s b" for b
  proof -
    from that obtain j where j: "j < DMS_MAX_NODES" "dn_nodes s ! j = Some b" by (auto simp: in_table_def)
    with i have "j \<noteq> i" by auto
    with j show ?thesis by (auto simp: in_table_def)
  qed
  have "dn_wf ?t" unfolding dn_wf_def
  proof (intro conjI allI impI)
    show "\<exists>e. dn_heap ?t b = Some e \<and> n_index e = int j" if "j < DMS_MAX_NODES \<and> dn_nodes ?t ! j = Some b" for j b
      using that wf d i len by (cases "j = i") (auto simp: dn_wf_def)
    show "j = l" if "dn_entries ?t j = Some k" "dn_entries ?t l = Some k" for j l k
      using that new dn_wf_unique [OF wf, of j k l] by (auto simp: e ran_def split: if_splits)
  qed (use wf len in \<open>auto simp: dn_wf_def\<close>)
  with assms(1) tab show "dn_inv ?t" unfolding dn_inv_def by auto
qed

definition dn_free :: "dncs \<Rightarrow> nat option" where
  "dn_free s = find (\<lambda>i. dn_nodes s ! i = None) [0..<DMS_MAX_NODES]"

lemma dn_free_Some: "dn_free s = Some i \<Longrightarrow> i < DMS_MAX_NODES \<and> dn_nodes s ! i = None"
  unfolding dn_free_def by (auto simp: find_Some_iff)

text \<open>The state after a container of a failed or a successful build is made.\<close>

definition leaked :: "int \<Rightarrow> u16 \<Rightarrow> bool \<Rightarrow> dncs \<Rightarrow> dncs" where
  "leaked node_ip port crecv_fn s =
     put_dnc (dn_next s) (new_dnc node_ip port crecv_fn) (s\<lparr>dn_next := dn_next s + 1\<rparr>)"

definition built :: "nat \<Rightarrow> int \<Rightarrow> u16 \<Rightarrow> bool \<Rightarrow> dncs \<Rightarrow> dncs" where
  "built i node_ip port crecv_fn s = put_dnc (dn_next s)
     ((new_dnc node_ip port crecv_fn)\<lparr>n_index := int i, n_retry_count := 1, n_status := DNODE_BUILDING\<rparr>)
     (s\<lparr>dn_next := dn_next s + 1, dn_nodes := (dn_nodes s)[i := Some (dn_next s)],
        dn_work := dn_work s @ [(dn_next s, Work_Connect)]\<rparr>)"

lemma new_dnc_ok: "node_ok (new_dnc ip port c)" "n_sock (new_dnc ip port c) = Some False" "endpoint (new_dnc ip port c) = (ip, port)"
  by (simp_all add: node_ok_def new_dnc_def endpoint_def)

lemma not_pending_next: "dn_inv s \<Longrightarrow> \<not> delayed_work_pending (dn_next s) s"
  by (force simp: dn_inv_def delayed_work_pending_def)

lemma Occupy_leaked:
  assumes "dn_inv s"
  shows "Occupy_One_Index (dn_next s) (leaked ip port c s) = Some (
    case dn_lookup (ip, port) s of
      Some _ \<Rightarrow> (- 1, leaked ip port c s)
    | None \<Rightarrow> (case dn_free s of
        None \<Rightarrow> (- 1, leaked ip port c s)
      | Some i \<Rightarrow> (int i, (leaked ip port c s)\<lparr>dn_nodes := (dn_nodes s)[i := Some (dn_next s)]\<rparr>)))"
proof -
  let ?s = "leaked ip port c s"
  have wf: "dn_wf s" and inv: "dn_inv ?s"
    using assms inv_alloc [OF assms new_dnc_ok(1)] by (simp_all add: dn_inv_def leaked_def new_dnc_ok)
  have e: "dn_entries ?s = dn_entries s" unfolding leaked_def by (rule entries_alloc [OF wf])
  have "(\<lambda>i. case dn_entries s i of None \<Rightarrow> False | Some k \<Rightarrow> (ip, port) = k) = (\<lambda>i. dn_entries s i = Some (ip, port))"
    by (rule ext) (auto split: option.splits)
  then have "first_node (\<lambda>d. (ip, port) = endpoint d) ?s [0..<DMS_MAX_NODES] = Some (dn_lookup (ip, port) s)"
    using first_node_find [of ?s "[0..<DMS_MAX_NODES]" "\<lambda>k. (ip, port) = k"] inv
    by (simp add: e dn_lookup_def dn_inv_def)
  then have "DNC_Check_Duplicate (new_dnc ip port c) ?s = Some (dn_lookup (ip, port) s)"
    by (simp add: DNC_Check_Duplicate_def endpoint_def new_dnc_def)
  moreover have "dn_heap ?s (dn_next s) = Some (new_dnc ip port c)" "dn_nodes ?s = dn_nodes s" by (simp_all add: leaked_def)
  ultimately show ?thesis
    by (auto simp: Occupy_One_Index_def dn_free_def split: option.splits)
qed

lemma Build_eq:
  assumes inv: "dn_inv s" and na: "na_options na \<le> 0"
  shows "Build_DMS_Node_Container na ip port c s = Some (
    if \<not> socket_ok na then (- DMS_FAIL, if na_mem na then s\<lparr>dn_next := dn_next s + 1\<rparr> else s)
    else (case dn_lookup (ip, port) s of
        Some _ \<Rightarrow> (- DMS_FAIL, leaked ip port c s)
      | None \<Rightarrow> (case dn_free s of
          None \<Rightarrow> (- DMS_FAIL, leaked ip port c s)
        | Some i \<Rightarrow> (int i, built i ip port c s))))"
proof (cases "socket_ok na")
  case False
  with Create_eq [OF _ na] inv show ?thesis
    by (simp add: Build_DMS_Node_Container_def dn_inv_def)
next
  case True
  let ?s = "leaked ip port c s" and ?a = "dn_next s"
  have cr: "Create_DMS_Node_Container na ip port c s = Some (Some ?a, ?s)"
    using Create_eq [OF _ na, of s ip port c] inv True by (simp add: dn_inv_def leaked_def)
  have neg: "\<not> DNC_IN_RANGE (- 1)" by (simp add: in_range_nat)
  show ?thesis
  proof (cases "dn_lookup (ip, port) s = None \<and> dn_free s \<noteq> None")
    case False
    with True cr neg Occupy_leaked [OF inv, of ip port c] show ?thesis
      by (auto simp: Build_DMS_Node_Container_def split: option.splits)
  next
    case free: True
    then obtain i where i: "dn_free s = Some i" by auto
    let ?t = "?s\<lparr>dn_nodes := (dn_nodes s)[i := Some ?a]\<rparr>" and ?d = "(new_dnc ip port c)\<lparr>n_index := int i\<rparr>"
    have rng: "DNC_IN_RANGE (int i)" using dn_free_Some [OF i] by (simp add: in_range_nat)
    have h: "dn_heap (put_dnc ?a ?d ?t) ?a = Some ?d" "n_sock ?d \<noteq> None" "\<not> delayed_work_pending ?a (put_dnc ?a ?d ?t)"
      using not_pending_next [OF inv] by (simp_all add: leaked_def delayed_work_pending_def new_dnc_ok)
    have "n_retry_count ?d \<le> CONNECTION_RETRY_MAX_TRY"
      by (simp add: new_dnc_def CONNECTION_RETRY_MAX_TRY_def CONNECTION_RETRY_INTERVAL_MAX_def)
    with Schedule_eq [OF h] h have "Build_Connection na ?a (put_dnc ?a ?d ?t) = Some (1, built i ip port c s)"
      by (auto simp: Build_Connection_def DNC_State_Transition_def dnode_defs set_status_def leaked_def built_def new_dnc_def)
    with True cr rng free i Occupy_leaked [OF inv, of ip port c] show ?thesis
      by (simp add: Build_DMS_Node_Container_def) (simp add: leaked_def)
  qed
qed

lemma inv_leaked: "dn_inv s \<Longrightarrow> dn_inv (leaked ip port c s)" "dn_inv s \<Longrightarrow> dn_entries (leaked ip port c s) = dn_entries s"
  using inv_alloc [OF _ new_dnc_ok(1)] entries_alloc by (simp_all add: leaked_def new_dnc_ok dn_inv_def)

lemma inv_built:
  assumes inv: "dn_inv s" and i: "dn_free s = Some i" and new: "(ip, port) \<notin> ran (dn_entries s)"
  shows "dn_inv (built i ip port c s)" and "dn_entries (built i ip port c s) = (dn_entries s)(i \<mapsto> (ip, port))"
proof -
  let ?a = "dn_next s" and ?d = "(new_dnc ip port c)\<lparr>n_index := int i\<rparr>"
  let ?s = "put_dnc ?a ?d (s\<lparr>dn_next := dn_next s + 1\<rparr>)"
  let ?t = "?s\<lparr>dn_nodes := (dn_nodes ?s)[i := Some ?a]\<rparr>"
  let ?e = "(new_dnc ip port c)\<lparr>n_index := int i, n_retry_count := 1, n_status := DNODE_BUILDING\<rparr>"
  have wf: "dn_wf s" using inv by (simp add: dn_inv_def)
  have ep: "endpoint ?d = (ip, port)" "endpoint ?e = (ip, port)" by (simp_all add: endpoint_def new_dnc_def)
  have "node_ok ?d" by (simp add: node_ok_def new_dnc_def)
  with inv have s: "dn_inv ?s" by (intro inv_alloc) (simp_all add: new_dnc_ok)
  have es: "dn_entries ?s = dn_entries s" by (rule entries_alloc [OF wf])
  have t: "dn_inv ?t" "dn_entries ?t = (dn_entries s)(i \<mapsto> (ip, port))"
    using inv_occupy [OF s, of ?a ?d i] dn_free_Some [OF i] new unfolding es by (simp_all add: es [simplified] ep)
  have tab: "in_table ?t ?a"
    using dn_free_Some [OF i] wf by (auto simp: in_table_def dn_wf_def intro!: exI [of _ i])
  have np: "\<not> delayed_work_pending ?a ?t" using not_pending_next [OF inv] by (simp add: delayed_work_pending_def)
  then have "(?a, Work_Connect) \<notin> set (dn_work ?t)" by (force simp: delayed_work_pending_def)
  then have u: "dn_inv (put_dnc ?a ?e ?t)"
    by (intro inv_put [OF t(1), of ?a ?d]) (simp_all add: ep, simp_all add: node_ok_def new_dnc_def)
  have "dn_inv ((put_dnc ?a ?e ?t)\<lparr>dn_work := dn_work (put_dnc ?a ?e ?t) @ [(?a, Work_Connect)]\<rparr>)"
    by (rule inv_queue [OF u, of ?a ?e]) (use np tab in simp_all)
  then show "dn_inv (built i ip port c s)" by (simp add: built_def)
  have "dn_entries (put_dnc ?a ?e ?t) = dn_entries ?t" by (rule entries_put [of _ _ ?d]) (simp_all add: ep)
  with t(2) have "dn_entries ((put_dnc ?a ?e ?t)\<lparr>dn_work := dn_work s @ [(?a, Work_Connect)]\<rparr>) = (dn_entries s)(i \<mapsto> (ip, port))"
    by (simp only: entries_work)
  then show "dn_entries (built i ip port c s) = (dn_entries s)(i \<mapsto> (ip, port))" by (simp add: built_def)
qed

section \<open>The table as a slot table\<close>

definition node_insert :: "net \<Rightarrow> bool \<Rightarrow> int \<times> u16 \<Rightarrow> dncs \<Rightarrow> bool \<times> dncs" where
  "node_insert na c k s = (case Build_DMS_Node_Container (na\<lparr>na_options := min (na_options na) 0\<rparr>) (fst k) (snd k) c s of
     None \<Rightarrow> (False, s) | Some (r, s') \<Rightarrow> (r \<ge> 0, s'))"

definition node_lookup :: "int \<times> u16 \<Rightarrow> dncs \<Rightarrow> nat option" where
  "node_lookup k s = (case Get_Node_Index_by_SSocket k s of
     Some r \<Rightarrow> if r \<ge> 0 then Some (nat r) else None | None \<Rightarrow> None)"

definition node_remove :: "int \<times> u16 \<Rightarrow> dncs \<Rightarrow> bool \<times> dncs" where
  "node_remove k s = (case node_lookup k s of
     None \<Rightarrow> (False, s)
   | Some i \<Rightarrow> (case Destroy_DMS_Node_Container (int i) s of None \<Rightarrow> (False, s) | Some s' \<Rightarrow> (True, s')))"

lemma SSocket_eq: "dn_wf s \<Longrightarrow> Get_Node_Index_by_SSocket k s = Some (case dn_lookup k s of None \<Rightarrow> - 1 | Some i \<Rightarrow> int i)"
  using last_node_the [of s "\<lambda>e. fst e = fst k \<and> snd e = snd k" k]
  by (auto simp: Get_Node_Index_by_SSocket_def endpoint_def prod_eq_iff split: option.splits)

lemma node_lookup_eq: "dn_wf s \<Longrightarrow> node_lookup k s = dn_lookup k s"
  by (simp add: node_lookup_def SSocket_eq split: option.splits)

lemma Destroy_entry:
  assumes "dn_inv s" and "dn_entries s i = Some k"
  obtains t where "Destroy_DMS_Node_Container (int i) s = Some t" "dn_inv t" "dn_entries t = (dn_entries s)(i := None)"
proof -
  have wf: "dn_wf s" using assms(1) by (simp add: dn_inv_def)
  have i: "i < DMS_MAX_NODES" using dn_entries_range [OF assms(2)] .
  from wf i show ?thesis
  proof (cases rule: dn_wf_slot)
    case (used a d)
    with that Destroy_used [OF i used(1,2)] inv_free [OF assms(1) i used(1,2)] wf_free [OF wf i used(1,2)]
    show ?thesis by blast
  qed (use assms(2) in simp)
qed

lemma lookup_none: "dn_wf s \<Longrightarrow> dn_lookup k s = None \<longleftrightarrow> k \<notin> ran (dn_entries s)"
  using dn_lookup_Some [of s k] by (cases "dn_lookup k s") (auto simp: ran_def)

lemma free_entries: "dn_free s = Some i \<Longrightarrow> dn_entries s i = None"
  using dn_free_Some [of s i] by (simp add: dn_entries_def)

interpretation dnt: slot_table dn_inv dn_entries node_lookup "node_insert na c" node_remove for na c
proof unfold_locales
  fix s t :: dncs and k :: "int \<times> u16" and i j b
  assume inv: "dn_inv s"
  then have wf: "dn_wf s" by (simp add: dn_inv_def)
  obtain ip port where k: "k = (ip, port)" by (cases k)
  let ?na = "na\<lparr>na_options := min (na_options na) 0\<rparr>"
  have le: "na_options ?na \<le> 0" by simp
  note B = Build_eq [OF inv le, of ip port c]
  show "i = j" if "dn_entries s i = Some k" "dn_entries s j = Some k" using dn_wf_unique [OF wf that] .
  show "node_lookup k s = Some i \<longleftrightarrow> dn_entries s i = Some k"
    using wf by (simp add: node_lookup_eq dn_lookup_Some)
  show "\<not> b \<and> dn_inv t \<and> dn_entries t = dn_entries s" if "k \<in> ran (dn_entries s)" "node_insert na c k s = (b, t)"
  proof -
    from that(1) lookup_none [OF wf] obtain l where "dn_lookup (ip, port) s = Some l" unfolding k by fastforce
    with that(2) B inv show ?thesis
      by (auto simp: node_insert_def k inv_leaked inv_next [simplified] ret_defs split: if_splits)
  qed
  show "dn_inv t \<and> (if b then \<exists>i. dn_entries s i = None \<and> dn_entries t = (dn_entries s)(i \<mapsto> k) else dn_entries t = dn_entries s)"
    if "k \<notin> ran (dn_entries s)" "node_insert na c k s = (b, t)"
  proof -
    have l: "dn_lookup (ip, port) s = None" using that(1) lookup_none [OF wf] by (simp add: k)
    show ?thesis
    proof (cases "socket_ok ?na \<and> dn_free s \<noteq> None")
      case True
      then obtain i where i: "dn_free s = Some i" by auto
      with True l B that have "b" "t = built i ip port c s" by (simp_all add: node_insert_def k)
      with inv_built [OF inv i] free_entries [OF i] that(1) show ?thesis by (auto simp: k)
    next
      case False
      with that(2) B inv l show ?thesis
        by (auto simp: node_insert_def k inv_leaked inv_next [simplified] ret_defs split: if_splits)
    qed
  qed
  show "dn_inv t \<and> (if b then \<exists>i. dn_entries s i = Some k \<and> dn_entries t = (dn_entries s)(i := None) else dn_entries t = dn_entries s)"
    if "node_remove k s = (b, t)"
  proof (cases "dn_lookup k s")
    case None
    with that inv wf show ?thesis by (simp add: node_remove_def node_lookup_eq)
  next
    case (Some i)
    with wf have e: "dn_entries s i = Some k" by (simp add: dn_lookup_Some)
    from Destroy_entry [OF inv e] obtain u where
      "Destroy_DMS_Node_Container (int i) s = Some u" "dn_inv u" "dn_entries u = (dn_entries s)(i := None)" .
    with that Some wf e show ?thesis by (auto simp: node_remove_def node_lookup_eq)
  qed
qed

section \<open>Reachable states\<close>

datatype nevent =
    Ev_Build net int u16 bool
  | Ev_Destroy int
  | Ev_Work net nat nwork      \<comment> \<open>a timer expires\<close>
  | Ev_State nat nat           \<comment> \<open>TCP state, container of the socket\<close>

text \<open>A work runs only when it waits, the state callback only where it is installed;
  setting a socket option answers 0 or an error.\<close>

fun enabled :: "nevent \<Rightarrow> dncs \<Rightarrow> bool" where
  "enabled (Ev_Build na _ _ _) s = (na_options na \<le> 0)"
| "enabled (Ev_Destroy _) s = True"
| "enabled (Ev_Work na a w) s = (na_options na \<le> 0 \<and> (a, w) \<in> set (dn_work s))"
| "enabled (Ev_State _ a) s = (case dn_heap s a of None \<Rightarrow> False | Some d \<Rightarrow> n_sock d = Some True)"

fun run_event :: "nevent \<Rightarrow> dncs \<Rightarrow> dncs option" where
  "run_event (Ev_Build na ip port c) s = map_option snd (Build_DMS_Node_Container na ip port c s)"
| "run_event (Ev_Destroy i) s = Destroy_DMS_Node_Container i s"
| "run_event (Ev_Work na a w) s = run_work na a w s"
| "run_event (Ev_State sk_state a) s = DNC_Socket_State_Change sk_state a s"

definition no_nodes :: dncs where
  "no_nodes = Init_DNCS_Manager \<lparr>dn_nodes = [], dn_heap = Map.empty, dn_next = 0, dn_work = []\<rparr>"

inductive dn_steps :: "dncs \<Rightarrow> nevent list \<Rightarrow> dncs \<Rightarrow> bool" where
  stay: "dn_steps s [] s"
| event: "dn_steps s es t \<Longrightarrow> enabled e t \<Longrightarrow> run_event e t = Some u \<Longrightarrow> dn_steps s (es @ [e]) u"

inductive_cases dn_stepsE: "dn_steps s es t"

lemma inv_dnc: "dn_inv s \<Longrightarrow> dn_heap s a = Some d \<Longrightarrow> node_ok d" "dn_inv s \<Longrightarrow> dn_heap s a = Some d \<Longrightarrow> n_sock d = Some True \<Longrightarrow> in_table s a"
  by (auto simp: dn_inv_def)

lemma map_fst_remove1:
  "distinct (map fst xs) \<Longrightarrow> (a, w) \<in> set xs \<Longrightarrow> map fst (remove1 (a, w) xs) = remove1 a (map fst xs)"
proof (induction xs)
  case (Cons x xs)
  show ?case
  proof (cases "x = (a, w)")
    case False
    with Cons.prems have "(a, w) \<in> set xs" by simp
    then have "a \<in> fst ` set xs" by force
    with Cons.prems(1) have "fst x \<noteq> a" by auto
    with Cons False \<open>(a, w) \<in> set xs\<close> show ?thesis by simp
  qed simp
qed simp

lemma inv_work:
  assumes "dn_inv s" and "(a, w) \<in> set (dn_work s)"
  defines "t \<equiv> s\<lparr>dn_work := remove1 (a, w) (dn_work s)\<rparr>"
  shows "dn_inv t" and "\<not> delayed_work_pending a t" and "dn_heap s a \<noteq> None \<Longrightarrow> in_table t a"
    and "w = Work_Connect \<Longrightarrow> \<exists>d. dn_heap s a = Some d \<and> n_status d = DNODE_BUILDING"
proof -
  have d: "distinct (map fst (dn_work s))" using assms(1) by (simp add: dn_inv_def)
  note m = map_fst_remove1 [OF d assms(2)]
  show "dn_inv t" unfolding t_def using assms(1) d m by (intro inv_work_less) (auto simp: set_remove1_subset distinct_remove1)
  show "\<not> delayed_work_pending a t" using d m by (simp add: delayed_work_pending_def t_def flip: set_map)
  show "in_table t a" if "dn_heap s a \<noteq> None" using assms(1,2) that by (auto simp: dn_inv_def t_def)
  show "\<exists>d. dn_heap s a = Some d \<and> n_status d = DNODE_BUILDING" if "w = Work_Connect" using assms(1,2) that by (auto simp: dn_inv_def)
qed

lemma inv_connected:
  assumes inv: "dn_inv s" and d: "dn_heap s a = Some d" "n_status d = DNODE_BUILDING"
    and "in_table s a" and "\<not> delayed_work_pending a s"
  shows "dn_inv (put_dnc a (connected na d) s)"
proof -
  have "(a, Work_Connect) \<notin> set (dn_work s)" using assms(5) by (force simp: delayed_work_pending_def)
  then show ?thesis using assms
    by (intro inv_put [OF inv d(1)]) (auto simp: connected_def node_ok_def endpoint_def dnode_defs)
qed

lemma inv_requeued:
  assumes inv: "dn_inv s" and d: "dn_heap s a = Some d" and tab: "in_table s a" and np: "\<not> delayed_work_pending a s"
    and d': "endpoint d' = endpoint d" "n_index d' = n_index d" "node_ok d'" "n_sock d' = Some True \<Longrightarrow> n_sock d = Some True"
      "n_status d' = DNODE_BUILDING"
  shows "dn_inv (put_dnc a d' (s\<lparr>dn_work := dn_work s @ [(a, Work_Connect)]\<rparr>))"
proof -
  have "(a, Work_Connect) \<notin> set (dn_work s)" using np by (force simp: delayed_work_pending_def)
  with inv_put [OF inv d d'(1-3)] d'(4,5) inv_dnc(2) [OF inv d] tab have "dn_inv (put_dnc a d' s)" by simp
  from inv_queue [OF this, of a d' Work_Connect] np tab d'(5) show ?thesis by simp
qed

lemma inv_destroy:
  assumes "dn_inv s"
  shows "\<exists>t. Destroy_DMS_Node_Container j s = Some t \<and> dn_inv t"
proof (cases "DNC_IN_RANGE j \<and> dn_nodes s ! nat j \<noteq> None")
  case True
  then obtain i where i: "j = int i" "i < DMS_MAX_NODES" "dn_nodes s ! i \<noteq> None"
    by (auto simp: in_range_nat) (metis int_nat_eq)
  have wf: "dn_wf s" using assms by (simp add: dn_inv_def)
  from wf i(2) show ?thesis
  proof (cases rule: dn_wf_slot)
    case (used a d)
    with Destroy_used [OF i(2) used(1,2)] inv_free [OF assms i(2) used(1,2)] i(1) show ?thesis by simp
  qed (use i in simp)
next
  case False
  with Destroy_unused [of j s] assms show ?thesis by auto
qed

lemma inv_event:
  assumes inv: "dn_inv s" and en: "enabled e s" and run: "run_event e s = Some t"
  shows "dn_inv t"
proof (cases e)
  case (Ev_Build na ip port c)
  with en have le: "na_options na \<le> 0" by simp
  note B = Build_eq [OF inv le, of ip port c]
  show ?thesis
  proof (cases "socket_ok na \<and> dn_lookup (ip, port) s = None \<and> dn_free s \<noteq> None")
    case True
    then obtain i where i: "dn_free s = Some i" by auto
    have "(ip, port) \<notin> ran (dn_entries s)" using True lookup_none inv by (simp add: dn_inv_def)
    from inv_built(1) [OF inv i this] True i B run Ev_Build show ?thesis by auto
  next
    case False
    with B run Ev_Build inv inv_leaked inv_next(1) [OF inv] show ?thesis by (auto split: option.splits if_splits)
  qed
next
  case (Ev_Destroy i)
  with inv_destroy [OF inv, of i] run show ?thesis by auto
next
  case (Ev_State st a)
  then obtain d where d: "dn_heap s a = Some d" "n_sock d = Some True" using en by (auto split: option.splits)
  with inv_queue [OF inv _ d(1) inv_dnc(2) [OF inv d], of Work_Rebuild] inv run Ev_State show ?thesis
    by (auto simp: DNC_Socket_State_Change_def init_and_queue_work_def split: if_splits)
next
  case (Ev_Work na a w)
  then have w: "(a, w) \<in> set (dn_work s)" "na_options na \<le> 0" using en by auto
  let ?s = "s\<lparr>dn_work := remove1 (a, w) (dn_work s)\<rparr>"
  note W = inv_work [OF inv w(1)]
  have wf: "dn_wf ?s" using W(1) by (simp add: dn_inv_def)
  show ?thesis
  proof (cases w)
    case Work_Connect
    with W(4) obtain d where d: "dn_heap ?s a = Some d" "n_status d = DNODE_BUILDING" by auto
    have tab: "in_table ?s a" using W(3) d(1) by simp
    have ok: "node_ok d" using inv_dnc(1) [OF W(1) d(1)] .
    then have sock: "n_sock d \<noteq> None" using d(2) by (simp add: node_ok_def)
    have r: "Node_Connection_Handler na a ?s = Some t" using run Ev_Work Work_Connect by (simp add: run_work_def)
    have "dn_inv (put_dnc a (d\<lparr>n_retry_count := n_retry_count d + 1\<rparr>) (?s\<lparr>dn_work := dn_work ?s @ [(a, Work_Connect)]\<rparr>))"
      by (rule inv_requeued [OF W(1) d(1) tab W(2)]) (use ok d in \<open>simp_all add: endpoint_def node_ok_def\<close>)
    with r Handler_eq [OF wf tab d(1) sock d(2) W(2), of na] inv_connected [OF W(1) d tab W(2), of na] W(1)
      inv_destroy [OF W(1), of "n_index d"]
    show ?thesis by (auto split: if_splits)
  next
    case Work_Rebuild
    have r: "Rebuild_Connection na a ?s = Some t" using run Ev_Work Work_Rebuild by (simp add: run_work_def)
    then obtain d where d: "dn_heap ?s a = Some d"
      by (cases "dn_heap ?s a") (auto simp: Rebuild_Connection_def DNC_State_Transition_def To_Disconnected_def dnode_defs)
    have tab: "in_table ?s a" using W(3) d by simp
    have nc: "(a, Work_Connect) \<notin> set (dn_work ?s)" using W(2) by (force simp: delayed_work_pending_def)
    let ?d = "disconnected d"
    have 1: "dn_inv (put_dnc a ?d ?s)"
      by (rule inv_put [OF W(1) d]) (use nc in \<open>simp_all add: node_ok_def dnode_defs\<close>)
    have 2: "dn_inv (put_dnc a (?d\<lparr>n_sock := Some False, n_status := DNODE_INIT\<rparr>) ?s)"
      by (rule inv_put [OF W(1) d]) (use nc in \<open>simp_all add: node_ok_def endpoint_def\<close>)
    have 3: "dn_inv (put_dnc a (?d\<lparr>n_sock := Some False, n_retry_count := n_retry_count d + 1, n_status := DNODE_BUILDING\<rparr>)
        (?s\<lparr>dn_work := dn_work ?s @ [(a, Work_Connect)]\<rparr>))"
      by (rule inv_requeued [OF W(1) d tab W(2)]) (simp_all add: node_ok_def endpoint_def)
    from r Rebuild_eq [OF d W(2) w(2)] 1 3 inv_destroy [OF 2, of "n_index d"] show ?thesis
      by (auto split: if_splits)
  qed
qed

lemma no_nodes_inv: "dn_inv no_nodes"
proof -
  have "dn_entries no_nodes i = None" for i by (simp add: dn_entries_def no_nodes_def Init_DNCS_Manager_def)
  then show ?thesis
    unfolding dn_inv_def dn_wf_def by (auto simp: no_nodes_def Init_DNCS_Manager_def)
qed

lemma steps_inv: "dn_steps s es t \<Longrightarrow> dn_inv s \<Longrightarrow> dn_inv t"
  by (induction rule: dn_steps.induct) (auto intro: inv_event)

section \<open>Lemmas for the properties\<close>

lemma reach_inv: "dn_steps no_nodes es s \<Longrightarrow> dn_inv s"
  using steps_inv no_nodes_inv by blast

lemma SSocket_node_lookup: "dn_inv s \<Longrightarrow>
  Get_Node_Index_by_SSocket k s = Some (case node_lookup k s of None \<Rightarrow> - 1 | Some i \<Rightarrow> int i)"
  by (simp add: SSocket_eq node_lookup_eq dn_inv_def)

lemma node_insert_eq: "na_options na \<le> 0 \<Longrightarrow> Build_DMS_Node_Container na ip port c s = Some (r, t) \<Longrightarrow>
  node_insert na c (ip, port) s = (r \<ge> 0, t)"
  by (simp add: node_insert_def)

text \<open>A connect that fails with an error the handler retries.\<close>

definition refused :: "net \<Rightarrow> bool" where
  "refused na \<longleftrightarrow> na_connect na \<notin> {DMS_OK, - EDNC_FORMAT, - EISCONN, - EALREADY}"

lemma run_work_eq:
  assumes inv: "dn_inv s" and w: "(a, w) \<in> set (dn_work s)" and na: "na_options na \<le> 0"
  shows "run_work na a w s = None \<longleftrightarrow> (case w of
      Work_Connect \<Rightarrow> refused na \<and> (\<exists>d. dn_heap s a = Some d \<and> n_retry_count d > CONNECTION_RETRY_MAX_TRY)
    | Work_Rebuild \<Rightarrow> dn_heap s a = None)"
proof -
  let ?s = "s\<lparr>dn_work := remove1 (a, w) (dn_work s)\<rparr>"
  note W = inv_work [OF inv w]
  have wf: "dn_wf ?s" using W(1) by (simp add: dn_inv_def)
  show ?thesis
  proof (cases w)
    case Work_Connect
    with W(4) obtain d where d: "dn_heap ?s a = Some d" "n_status d = DNODE_BUILDING" by auto
    have tab: "in_table ?s a" using W(3) d(1) by simp
    have sock: "n_sock d \<noteq> None" using inv_dnc(1) [OF W(1) d(1)] d(2) by (simp add: node_ok_def)
    obtain u where "Destroy_DMS_Node_Container (n_index d) ?s = Some u" using inv_destroy [OF W(1)] by blast
    with Handler_eq [OF wf tab d(1) sock d(2) W(2), of na] d(1) show ?thesis
      by (auto simp: run_work_def Work_Connect refused_def)
  next
    case Work_Rebuild
    show ?thesis
    proof (cases "dn_heap s a")
      case None
      then show ?thesis
        by (simp add: run_work_def Work_Rebuild Rebuild_Connection_def DNC_State_Transition_def To_Disconnected_def dnode_defs)
    next
      case (Some d)
      then have d: "dn_heap ?s a = Some d" by simp
      have nc: "(a, Work_Connect) \<notin> set (dn_work ?s)" using W(2) by (force simp: delayed_work_pending_def)
      have "dn_inv (put_dnc a ((disconnected d)\<lparr>n_sock := Some False, n_status := DNODE_INIT\<rparr>) ?s)"
        by (rule inv_put [OF W(1) d]) (use nc in \<open>simp_all add: node_ok_def endpoint_def\<close>)
      from inv_destroy [OF this, of "n_index d"] Rebuild_eq [OF d W(2) na] Some show ?thesis
        by (auto simp: run_work_def Work_Rebuild)
    qed
  qed
qed

text \<open>Repeated tries of one container.\<close>

fun retries :: "net \<Rightarrow> nat \<Rightarrow> nat \<Rightarrow> dncs \<Rightarrow> dncs option" where
  "retries na a 0 s = Some s"
| "retries na a (Suc n) s = do { s \<leftarrow> retries na a n s; run_work na a Work_Connect s }"

definition trying :: "nat \<Rightarrow> nat \<Rightarrow> nat \<Rightarrow> dncs \<Rightarrow> bool" where
  "trying n a i s \<longleftrightarrow> dn_inv s \<and> (a, Work_Connect) \<in> set (dn_work s) \<and> i < DMS_MAX_NODES \<and> dn_nodes s ! i = Some a
     \<and> (\<exists>d. dn_heap s a = Some d \<and> n_status d = DNODE_BUILDING \<and> n_retry_count d = int n)"

lemma trying_step:
  assumes t: "trying n a i s" and r: "refused na" "na_options na \<le> 0"
  shows "if int n \<le> CONNECTION_RETRY_MAX_TRY
    then \<exists>u. run_work na a Work_Connect s = Some u \<and> trying (Suc n) a i u \<and> dn_entries u = dn_entries s
    else run_work na a Work_Connect s = None"
proof -
  let ?s = "s\<lparr>dn_work := remove1 (a, Work_Connect) (dn_work s)\<rparr>"
  from t have inv: "dn_inv s" and w: "(a, Work_Connect) \<in> set (dn_work s)" by (simp_all add: trying_def)
  note W = inv_work [OF inv w]
  from t obtain d where d: "dn_heap ?s a = Some d" "n_status d = DNODE_BUILDING" "n_retry_count d = int n"
    by (auto simp: trying_def)
  have wf: "dn_wf ?s" using W(1) by (simp add: dn_inv_def)
  have tab: "in_table ?s a" using W(3) d(1) by simp
  have ok: "node_ok d" using inv_dnc(1) [OF W(1) d(1)] .
  then have sock: "n_sock d \<noteq> None" using d(2) by (simp add: node_ok_def)
  let ?d = "d\<lparr>n_retry_count := n_retry_count d + 1\<rparr>"
  let ?u = "put_dnc a ?d (?s\<lparr>dn_work := dn_work ?s @ [(a, Work_Connect)]\<rparr>)"
  note H = Handler_eq [OF wf tab d(1) sock d(2) W(2), of na]
  have inv': "dn_inv ?u"
    by (rule inv_requeued [OF W(1) d(1) tab W(2)]) (use ok d(2) in \<open>simp_all add: endpoint_def node_ok_def\<close>)
  have "dn_entries ?u = dn_entries (?s\<lparr>dn_work := dn_work ?s @ [(a, Work_Connect)]\<rparr>)"
    by (rule entries_put [of _ _ d]) (use d(1) in \<open>simp_all add: endpoint_def\<close>)
  then have e: "dn_entries ?u = dn_entries s" by (simp add: entries_work)
  have "trying (Suc n) a i ?u" using inv' t d by (simp add: trying_def)
  with H r(1) d(3) e show ?thesis by (simp add: run_work_def refused_def)
qed

lemma retries_refused:
  assumes t: "trying 1 a i s" and r: "refused na" "na_options na \<le> 0"
  shows "int n \<le> CONNECTION_RETRY_MAX_TRY \<Longrightarrow>
    \<exists>u. retries na a n s = Some u \<and> trying (Suc n) a i u \<and> dn_entries u = dn_entries s"
proof (induction n)
  case 0
  with t show ?case by simp
next
  case (Suc n)
  then obtain u where u: "retries na a n s = Some u" "trying (Suc n) a i u" "dn_entries u = dn_entries s" by auto
  from trying_step [OF u(2) r] Suc.prems u show ?case by auto
qed

lemma retries_give_up:
  assumes t: "trying 1 a i s" and r: "refused na" "na_options na \<le> 0"
  shows "CONNECTION_RETRY_MAX_TRY < int n \<Longrightarrow> retries na a n s = None"
proof (induction n)
  case 0
  then show ?case by (simp add: CONNECTION_RETRY_MAX_TRY_def CONNECTION_RETRY_INTERVAL_MAX_def)
next
  case (Suc n)
  show ?case
  proof (cases "CONNECTION_RETRY_MAX_TRY < int n")
    case False
    then obtain u where u: "retries na a n s = Some u" "trying (Suc n) a i u"
      using retries_refused [OF t r, of n] by auto
    from trying_step [OF u(2) r] Suc.prems u(1) show ?thesis by simp
  qed (use Suc.IH in simp)
qed

lemma built_trying:
  assumes inv: "dn_inv s" and na: "na_options na \<le> 0"
    and b: "Build_DMS_Node_Container na ip port c s = Some (r, t)" "0 \<le> r"
  shows "trying 1 (dn_next s) (nat r) t" "t = built (nat r) ip port c s"
proof -
  have ok: "socket_ok na" "dn_lookup (ip, port) s = None" "dn_free s = Some (nat r)" "t = built (nat r) ip port c s"
    using Build_eq [OF inv na, of ip port c] b by (auto simp: ret_defs split: if_splits option.splits)
  have "(ip, port) \<notin> ran (dn_entries s)" using ok(2) inv by (simp add: lookup_none dn_inv_def)
  from inv_built(1) [OF inv ok(3) this] dn_free_Some [OF ok(3)] inv show "trying 1 (dn_next s) (nat r) t"
    unfolding ok(4) by (auto simp: trying_def built_def dn_inv_def dn_wf_def)
  show "t = built (nat r) ip port c s" by (rule ok(4))
qed

text \<open>A container without a socket and without a work is left alone by every event but
  its own destruction.\<close>

lemma released_other: "b \<noteq> a \<Longrightarrow> dn_heap (released b e t) a = dn_heap t a"
  "\<not> delayed_work_pending a t \<Longrightarrow> \<not> delayed_work_pending a (released b e t)"
  by (auto simp: released_def delayed_work_pending_def)

lemma pending_nodes [simp]: "delayed_work_pending a (s\<lparr>dn_nodes := ns\<rparr>) = delayed_work_pending a s"
  by (simp add: delayed_work_pending_def)

lemma pending_remove1: "\<not> delayed_work_pending a s \<Longrightarrow> \<not> delayed_work_pending a (s\<lparr>dn_work := remove1 x (dn_work s)\<rparr>)"
  using set_remove1_subset [of x "dn_work s"] by (auto simp: delayed_work_pending_def)

lemma Destroy_other:
  assumes "dn_inv s" and d: "dn_heap s a = Some d" and j: "j \<noteq> n_index d"
    and r: "Destroy_DMS_Node_Container j s = Some t"
  shows "dn_heap t a = Some d" and "\<not> delayed_work_pending a s \<Longrightarrow> \<not> delayed_work_pending a t"
proof -
  have wf: "dn_wf s" using assms(1) by (simp add: dn_inv_def)
  have "t = s \<or> (\<exists>b e ns. b \<noteq> a \<and> t = released b e (s\<lparr>dn_nodes := ns\<rparr>))"
  proof (cases "DNC_IN_RANGE j \<and> dn_nodes s ! nat j \<noteq> None")
    case True
    then obtain i where i: "j = int i" "i < DMS_MAX_NODES" "dn_nodes s ! i \<noteq> None"
      by (auto simp: in_range_nat) (metis int_nat_eq)
    from wf i(2) show ?thesis
    proof (cases rule: dn_wf_slot)
      case (used b e)
      with i(1) j d have "b \<noteq> a" by auto
      with Destroy_used [OF i(2) used(1,2)] i(1) r show ?thesis by auto
    qed (use i in simp)
  next
    case False
    with Destroy_unused [of j s] r show ?thesis by auto
  qed
  then show "dn_heap t a = Some d" "\<not> delayed_work_pending a s \<Longrightarrow> \<not> delayed_work_pending a t"
    using d released_other(1) [of _ a] released_other(2) [of a] by auto
qed

lemma Handler_other:
  assumes inv: "dn_inv s" and w: "(b, w) \<in> set (dn_work s)" and na: "na_options na \<le> 0"
    and r: "run_work na b w s = Some t" and ba: "b \<noteq> a" and d: "dn_heap s a = Some d"
    and np: "\<not> delayed_work_pending a s"
  shows "dn_heap t a = Some d \<and> \<not> delayed_work_pending a t"
proof -
  let ?s = "s\<lparr>dn_work := remove1 (b, w) (dn_work s)\<rparr>"
  note W = inv_work [OF inv w]
  have wf: "dn_wf ?s" using W(1) by (simp add: dn_inv_def)
  have np': "\<not> delayed_work_pending a ?s" using pending_remove1 [OF np] .
  have da: "dn_heap ?s a = Some d" using d by simp
  from r obtain e where e: "dn_heap ?s b = Some e"
    by (cases "dn_heap ?s b"; cases w) (auto simp: run_work_def Rebuild_Connection_def DNC_State_Transition_def
        To_Disconnected_def Node_Connection_Handler_def dnode_defs Let_def)
  have tab: "in_table ?s b" using W(3) e by simp
  have own: "dn_heap u' a = Some d \<and> \<not> delayed_work_pending a u'"
    if "Destroy_DMS_Node_Container (n_index e) u = Some u'" "dn_wf u" "dn_heap u a = Some d" "in_table u b"
      "dn_heap u b = Some e'" "n_index e' = n_index e" "\<not> delayed_work_pending a u" for u u' e'
  proof -
    note p = that
    obtain i where "Destroy_DMS_Node_Container (n_index e') u = Some (released b e' (u\<lparr>dn_nodes := (dn_nodes u)[i := None]\<rparr>))"
      using Destroy_own [OF p(2,4,5)] by metis
    with p have "u' = released b e' (u\<lparr>dn_nodes := (dn_nodes u)[i := None]\<rparr>)" by simp
    with released_other(1) [of b a] released_other(2) [of a] ba p(3,7) show ?thesis by simp
  qed
  show ?thesis
  proof (cases w)
    case Work_Connect
    with W(4) e have b: "n_status e = DNODE_BUILDING" by auto
    then have sock: "n_sock e \<noteq> None" using inv_dnc(1) [OF W(1) e] by (simp add: node_ok_def)
    have h: "Node_Connection_Handler na b ?s = Some t" using r Work_Connect by (simp add: run_work_def)
    show ?thesis using h Handler_eq [OF wf tab e sock b W(2), of na] da np' ba own [OF _ wf da tab e refl np']
      by (auto simp: delayed_work_pending_def split: if_splits)
  next
    case Work_Rebuild
    have h: "Rebuild_Connection na b ?s = Some t" using r Work_Rebuild by (simp add: run_work_def)
    let ?e = "(disconnected e)\<lparr>n_sock := Some False, n_status := DNODE_INIT\<rparr>"
    have wf': "dn_wf (put_dnc b ?e ?s)" by (rule wf_put [OF wf e]) (simp_all add: endpoint_def)
    show ?thesis using h Rebuild_eq [OF e W(2) na] da np' ba own [OF _ wf', of _ ?e] tab
      by (auto simp: delayed_work_pending_def split: if_splits)
  qed
qed

lemma event_other:
  assumes inv: "dn_inv s" and en: "enabled e s" and run: "run_event e s = Some t"
    and d: "dn_heap s a = Some d" "n_sock d = None" and np: "\<not> delayed_work_pending a s"
    and nd: "e \<noteq> Ev_Destroy (n_index d)"
  shows "dn_heap t a = Some d \<and> \<not> delayed_work_pending a t"
proof (cases e)
  case (Ev_Build na ip port c)
  then have le: "na_options na \<le> 0" using en by simp
  have "a < dn_next s" using inv d(1) by (auto simp: dn_inv_def dn_wf_def)
  with Build_eq [OF inv le, of ip port c] run Ev_Build d(1) np show ?thesis
    by (auto simp: leaked_def built_def delayed_work_pending_def split: if_splits option.splits)
next
  case (Ev_Destroy j)
  with Destroy_other [OF inv d(1), of j t] run nd np show ?thesis by auto
next
  case (Ev_State st b)
  with en d(2,1) have "b \<noteq> a" by (auto split: option.splits)
  with run Ev_State d(1) np show ?thesis
    by (auto simp: DNC_Socket_State_Change_def init_and_queue_work_def delayed_work_pending_def split: if_splits)
next
  case (Ev_Work na b w)
  then have w: "(b, w) \<in> set (dn_work s)" "na_options na \<le> 0" using en by auto
  then have "b \<noteq> a" using np by (force simp: delayed_work_pending_def)
  with Handler_other [OF inv w _ this d(1) np] run Ev_Work show ?thesis by simp
qed

lemma steps_other:
  assumes "dn_steps s es t" and "dn_inv s" and "dn_heap s a = Some d" and "n_sock d = None"
    and "\<not> delayed_work_pending a s" and "Ev_Destroy (n_index d) \<notin> set es"
  shows "dn_heap t a = Some d \<and> \<not> delayed_work_pending a t"
  using assms
proof (induction rule: dn_steps.induct)
  case (event s es t e u)
  then have IH: "dn_heap t a = Some d" "\<not> delayed_work_pending a t" by auto
  have "dn_inv t" using steps_inv [OF event.hyps(1) event.prems(1)] .
  from event_other [OF this event.hyps(2,3) IH(1) event.prems(3) IH(2)] event.prems(5) show ?case by auto
qed simp

section \<open>Properties\<close>

text \<open>C8: In every state reachable from the initialised table by builds, destroys,
  expiring works and state callbacks, every pointer of the table is a live
  container that knows its slot, no two containers in the table have the same
  endpoint, a container has a socket exactly in the states \<open>INIT\<close>, \<open>BUILDING\<close> and
  \<open>CONNECTED\<close>, and has at most one waiting work.\<close>
theorem node_table_invariant:
  assumes "dn_steps no_nodes es s"
  shows "length (dn_nodes s) = DMS_MAX_NODES
    \<and> (\<forall>i < DMS_MAX_NODES. \<forall>a. dn_nodes s ! i = Some a \<longrightarrow> (\<exists>d. dn_heap s a = Some d \<and> n_index d = int i))
    \<and> (\<forall>i j k. dn_entries s i = Some k \<longrightarrow> dn_entries s j = Some k \<longrightarrow> i = j)
    \<and> (\<forall>a d. dn_heap s a = Some d \<longrightarrow>
         (n_sock d \<noteq> None \<longleftrightarrow> n_status d \<in> {DNODE_INIT, DNODE_BUILDING, DNODE_CONNECTED}))
    \<and> distinct (map fst (dn_work s))"
  using steps_inv [OF assms no_nodes_inv] unfolding dn_inv_def dn_wf_def node_ok_def by blast

definition net_yes :: net where
  "net_yes = \<lparr>na_mem = True, na_create = 0, na_options = 0, na_connect = 0, na_established = True, na_receiver = True\<rparr>"

lemma build_first: "Build_DMS_Node_Container net_yes ip port c no_nodes = Some (0, built 0 ip port c no_nodes)"
proof -
  have upt: "[0..<DMS_MAX_NODES] = 0 # [1..<DMS_MAX_NODES]" by (simp add: upt_conv_Cons DMS_MAX_NODES_def)
  have "dn_free no_nodes = Some 0"
    unfolding dn_free_def upt by (simp add: no_nodes_def Init_DNCS_Manager_def DMS_MAX_NODES_def)
  moreover have "dn_entries no_nodes i = None" for i by (simp add: dn_entries_def no_nodes_def Init_DNCS_Manager_def)
  then have "dn_lookup (ip, port) no_nodes = None" by (simp add: dn_lookup_def find_None_iff)
  ultimately show ?thesis
    using Build_eq [OF no_nodes_inv, of net_yes ip port c] by (simp add: net_yes_def socket_ok_def)
qed

lemma first_step: "dn_steps no_nodes [Ev_Build net_yes ip port c] (built 0 ip port c no_nodes)"
  using event [OF stay, of "Ev_Build net_yes ip port c" no_nodes "built 0 ip port c no_nodes"] build_first
  by (simp add: net_yes_def)

theorem node_table_invariant_witness:
  "distinct (map fst (dn_work (built 0 7 80 True no_nodes)))"
  using node_table_invariant [OF first_step] by blast

text \<open>Building a connection on every branch: without memory or a socket the answer
  is -1 and no container remains; for an endpoint that is in the table, or when
  the table is full, it is -1 and the new container stays allocated, reachable
  from nowhere; otherwise the answer is the first free slot, which then holds a
  container in state \<open>BUILDING\<close> with its first try waiting.\<close>
theorem Build_DMS_Node_Container_correct:
  assumes "dn_steps no_nodes es s" and "na_options na \<le> 0"
  shows "\<exists>r t. Build_DMS_Node_Container na ip port c s = Some (r, t) \<and>
    (if \<not> socket_ok na then r = - DMS_FAIL \<and> dn_heap t = dn_heap s \<and> dn_nodes t = dn_nodes s
     else if (ip, port) \<in> ran (dn_entries s) \<or> (\<forall>i < DMS_MAX_NODES. dn_nodes s ! i \<noteq> None)
     then r = - DMS_FAIL \<and> dn_nodes t = dn_nodes s \<and> dn_heap s (dn_next s) = None
       \<and> dn_heap t = (dn_heap s)(dn_next s \<mapsto> new_dnc ip port c)
     else \<exists>i d. find (\<lambda>i. dn_nodes s ! i = None) [0..<DMS_MAX_NODES] = Some i \<and> r = int i
       \<and> dn_nodes t = (dn_nodes s)[i := Some (dn_next s)] \<and> dn_heap t = (dn_heap s)(dn_next s \<mapsto> d)
       \<and> endpoint d = (ip, port) \<and> n_status d = DNODE_BUILDING \<and> n_index d = int i
       \<and> dn_work t = dn_work s @ [(dn_next s, Work_Connect)])"
proof -
  have inv: "dn_inv s" using steps_inv [OF assms(1) no_nodes_inv] .
  then have wf: "dn_wf s" by (simp add: dn_inv_def)
  have full: "dn_free s = None \<longleftrightarrow> (\<forall>i < DMS_MAX_NODES. dn_nodes s ! i \<noteq> None)"
    by (auto simp: dn_free_def find_None_iff)
  note B = Build_eq [OF inv assms(2), of ip port c] and L = lookup_none [OF wf, of "(ip, port)"]
  show ?thesis
  proof (cases "socket_ok na \<and> dn_lookup (ip, port) s = None \<and> dn_free s \<noteq> None")
    case True
    then obtain i where i: "dn_free s = Some i" by auto
    let ?d = "(new_dnc ip port c)\<lparr>n_index := int i, n_retry_count := 1, n_status := DNODE_BUILDING\<rparr>"
    have d: "endpoint ?d = (ip, port)" "n_index ?d = int i" "n_status ?d = DNODE_BUILDING"
      by (simp_all add: endpoint_def new_dnc_def)
    have c: "\<not> ((ip, port) \<in> ran (dn_entries s) \<or> (\<forall>i < DMS_MAX_NODES. dn_nodes s ! i \<noteq> None))" "socket_ok na"
      using True L full by auto
    have r: "Build_DMS_Node_Container na ip port c s = Some (int i, built i ip port c s)" using B True i by simp
    show ?thesis using c d i
      by (intro exI [of _ "int i"] exI [of _ "built i ip port c s"]) (auto simp: r built_def dn_free_def)
  next
    case False
    then show ?thesis using B L full heap_next [OF wf]
      by (cases "socket_ok na"; cases "dn_lookup (ip, port) s"; cases "dn_free s") (auto simp: leaked_def)
  qed
qed

theorem Build_DMS_Node_Container_correct_witness:
  "\<exists>t. Build_DMS_Node_Container net_yes 7 80 True no_nodes = Some (0, t)"
proof -
  obtain r t where "Build_DMS_Node_Container net_yes 7 80 True no_nodes = Some (r, t)"
    using Build_DMS_Node_Container_correct [OF stay, of net_yes 7 80 True] by (auto simp: net_yes_def)
  with build_first [of 7 80 True] show ?thesis by simp
qed

text \<open>C29: Build, look up, destroy: after a successful build the lookup by socket returns
  the answer of the build, where it had found nothing; destroying that index
  succeeds and makes the lookup fail again; lookups of all other endpoints give
  the same answer throughout.\<close>
theorem build_lookup_destroy:
  assumes "dn_steps no_nodes es s" and "na_options na \<le> 0"
    and "Build_DMS_Node_Container na ip port c s = Some (r, t)" and "0 \<le> r"
  shows "Get_Node_Index_by_SSocket (ip, port) s = Some (- 1)
    \<and> Get_Node_Index_by_SSocket (ip, port) t = Some r
    \<and> (\<exists>u. Destroy_DMS_Node_Container r t = Some u \<and> Get_Node_Index_by_SSocket (ip, port) u = Some (- 1)
      \<and> (\<forall>k. k \<noteq> (ip, port) \<longrightarrow> Get_Node_Index_by_SSocket k t = Get_Node_Index_by_SSocket k s
           \<and> Get_Node_Index_by_SSocket k u = Get_Node_Index_by_SSocket k s))"
proof -
  have inv: "dn_inv s" using reach_inv [OF assms(1)] .
  have ins: "node_insert na c (ip, port) s = (True, t)" using node_insert_eq [OF assms(2,3)] assms(4) by simp
  from dnt.keys_insert [OF inv ins] have t: "dn_inv t" and s: "node_lookup (ip, port) s = None"
    using dnt.lookup_None [OF inv] by auto
  from dnt.lookup_insert [OF inv ins] have lt: "\<forall>k. k \<noteq> (ip, port) \<longrightarrow> node_lookup k t = node_lookup k s" by blast
  have "dn_nodes t ! nat r = Some (dn_next s)" "nat r < DMS_MAX_NODES" "dn_heap t (dn_next s) \<noteq> None"
    using built_trying(1) [OF inv assms(2-4)] by (auto simp: trying_def)
  moreover have "endpoint (the (dn_heap t (dn_next s))) = (ip, port)"
    using built_trying(2) [OF inv assms(2-4)] by (simp add: built_def endpoint_def new_dnc_def)
  ultimately have e: "dn_entries t (nat r) = Some (ip, port)" by (auto simp: dn_entries_def)
  then have l: "node_lookup (ip, port) t = Some (nat r)" using t by (simp add: dnt.lookup_Some)
  from Destroy_entry [OF t e] assms(4) obtain u where u: "Destroy_DMS_Node_Container r t = Some u" by auto
  with l assms(4) have rem: "node_remove (ip, port) t = (True, u)" by (simp add: node_remove_def)
  have ui: "dn_inv u" using dnt.keys_remove [OF t rem] by simp
  from dnt.lookup_remove [OF t rem] lt u s l inv t ui assms(4) show ?thesis
    by (simp add: SSocket_node_lookup)
qed

theorem build_lookup_destroy_witness:
  "Get_Node_Index_by_SSocket (7, 80) (built 0 7 80 True no_nodes) = Some 0"
  using build_lookup_destroy [OF stay _ build_first, of 7 80 True] by (simp add: net_yes_def)

text \<open>Searching by address and a signed port agrees with the search by socket for
  ports below 32768, and finds no container with a port from 32768 on: the
  stored port is promoted from an unsigned short, the argument from a short.\<close>
theorem Get_Node_Index_by_IP_Port_signed:
  assumes "dn_steps no_nodes es s"
  shows "Get_Node_Index_by_IP_Port ip port s =
    (if uint port < 32768 then Get_Node_Index_by_SSocket (ip, port) s else Some (- 1))"
proof -
  have wf: "dn_wf s" using reach_inv [OF assms] by (simp add: dn_inv_def)
  have eq: "p = port" if "uint p = sint port" for p :: u16
    using arg_cong [OF that, of "of_int :: int \<Rightarrow> u16"] by simp
  have "uint port = sint port \<longleftrightarrow> uint port < 32768"
  proof (cases "uint port < 32768")
    case True
    have "- (2 ^ 15) \<le> (0 :: int)" by simp
    then have "- (2 ^ 15) \<le> uint port" using uint_ge_0 [of port] by (rule order_trans)
    with True show ?thesis by (simp add: sint_uint signed_take_bit_int_eq_self)
  next
    case False
    moreover have "sint port < 32768" using sint_lt [of port] by simp
    ultimately show ?thesis by auto
  qed
  with last_node_the [OF wf, of "\<lambda>k. fst k = ip \<and> uint (snd k) = sint port" "(ip, port)"] eq SSocket_eq [OF wf, of "(ip, port)"]
  show ?thesis by (auto simp: Get_Node_Index_by_IP_Port_def endpoint_def split: option.splits)
qed

theorem Get_Node_Index_by_IP_Port_signed_witness:
  "Get_Node_Index_by_IP_Port 7 40000 (built 0 7 40000 True no_nodes) = Some (- 1)"
  using Get_Node_Index_by_IP_Port_signed [OF first_step, of 7 40000 7 40000 True] by simp

text \<open>A node whose connects are refused is tried 4320 times, one day of 20-second
  waits, staying in the table in state \<open>BUILDING\<close>; the next refusal gives it up, and
  the handler then takes the lock of the container it has just freed.\<close>
theorem refused_connection_given_up:
  assumes "dn_steps no_nodes es s" and "na_options na \<le> 0"
    and "Build_DMS_Node_Container na ip port c s = Some (r, t)" and "0 \<le> r"
    and "refused na'" and "na_options na' \<le> 0"
  shows "(\<forall>n \<le> 4320. \<exists>u d. retries na' (dn_next s) n t = Some u \<and> Node_Index_to_DNC r u = Some (dn_next s)
      \<and> dn_heap u (dn_next s) = Some d \<and> n_status d = DNODE_BUILDING \<and> n_retry_count d = int n + 1)
    \<and> retries na' (dn_next s) 4321 t = None"
proof -
  have inv: "dn_inv s" using reach_inv [OF assms(1)] .
  have t: "trying 1 (dn_next s) (nat r) t" using built_trying(1) [OF inv assms(2-4)] .
  have max: "CONNECTION_RETRY_MAX_TRY = 4320"
    by (simp add: CONNECTION_RETRY_MAX_TRY_def CONNECTION_RETRY_INTERVAL_MAX_def)
  have "\<exists>u d. retries na' (dn_next s) n t = Some u \<and> Node_Index_to_DNC r u = Some (dn_next s)
      \<and> dn_heap u (dn_next s) = Some d \<and> n_status d = DNODE_BUILDING \<and> n_retry_count d = int n + 1" if "n \<le> 4320" for n
    using retries_refused [OF t assms(5,6), of n] that assms(4)
    by (auto simp: max trying_def Node_Index_to_DNC_def in_range_nat)
  with retries_give_up [OF t assms(5,6), of 4321] show ?thesis by (simp add: max)
qed

definition net_refused :: net where
  "net_refused = net_yes\<lparr>na_connect := - 111\<rparr>"

theorem refused_connection_given_up_witness:
  "retries net_refused 0 4321 (built 0 7 80 True no_nodes) = None"
proof -
  have "refused net_refused" "na_options net_refused \<le> 0"
    by (simp_all add: refused_def net_refused_def net_yes_def ret_defs ednc_defs)
  moreover have "dn_next no_nodes = 0" by (simp add: no_nodes_def Init_DNCS_Manager_def)
  ultimately show ?thesis
    using refused_connection_given_up [OF stay _ build_first, of net_refused 7 80 True] by (simp add: net_yes_def)
qed

text \<open>C36: A work that expires in a reachable state faults in exactly two cases: the
  connecting work when the connect is refused and the tries are used up, and the
  rebuilding work when its container has been freed.\<close>
theorem work_faults_iff:
  assumes "dn_steps no_nodes es s" and "(a, w) \<in> set (dn_work s)" and "na_options na \<le> 0"
  shows "run_work na a w s = None \<longleftrightarrow> (case w of
      Work_Connect \<Rightarrow> na_connect na \<notin> {DMS_OK, - EDNC_FORMAT, - EISCONN, - EALREADY}
        \<and> (\<exists>d. dn_heap s a = Some d \<and> n_retry_count d > 4320)
    | Work_Rebuild \<Rightarrow> dn_heap s a = None)"
  using run_work_eq [OF reach_inv [OF assms(1)] assms(2,3)]
  by (cases w) (simp_all add: refused_def CONNECTION_RETRY_MAX_TRY_def CONNECTION_RETRY_INTERVAL_MAX_def)

theorem work_faults_iff_witness:
  "run_work net_yes 0 Work_Connect (built 0 7 80 True no_nodes) \<noteq> None"
proof -
  have "(0, Work_Connect) \<in> set (dn_work (built 0 7 80 True no_nodes))"
    by (simp add: built_def no_nodes_def Init_DNCS_Manager_def)
  from work_faults_iff [OF first_step this, of net_yes] show ?thesis by (simp add: net_yes_def ret_defs)
qed

text \<open>A connection that goes down: the callback queues the rebuild.  A second state
  change before it runs sets up the work again while its timer runs, which is a
  fault; and destroying the connected node meanwhile frees it but leaves the
  work, which then runs on the freed container.\<close>
theorem rebuild_after_destroy_faults:
  assumes "dn_steps no_nodes es s" and "dn_heap s a = Some d" and "n_sock d = Some True"
    and "n_status d = DNODE_CONNECTED" and "a \<notin> fst ` set (dn_work s)"
    and "sk_state \<notin> {TCP_SYN_SENT, TCP_SYN_RECV, TCP_ESTABLISHED}"
  shows "\<exists>t u. DNC_Socket_State_Change sk_state a s = Some t
    \<and> DNC_Socket_State_Change sk_state a t = None
    \<and> Destroy_DMS_Node_Container (n_index d) t = Some u
    \<and> dn_heap u a = None \<and> (a, Work_Rebuild) \<in> set (dn_work u) \<and> run_work na a Work_Rebuild u = None"
proof -
  have inv: "dn_inv s" using reach_inv [OF assms(1)] .
  let ?t = "s\<lparr>dn_work := dn_work s @ [(a, Work_Rebuild)]\<rparr>"
  have tab: "in_table s a" using inv_dnc(2) [OF inv assms(2,3)] .
  have wf: "dn_wf ?t" using inv by (simp add: wf_work dn_inv_def)
  obtain i where u: "Destroy_DMS_Node_Container (n_index d) ?t = Some (released a d (?t\<lparr>dn_nodes := (dn_nodes ?t)[i := None]\<rparr>))"
  proof -
    have "in_table ?t a" "dn_heap ?t a = Some d" using tab assms(2) by simp_all
    from Destroy_own [OF wf this] that show ?thesis by metis
  qed
  let ?u = "released a d (?t\<lparr>dn_nodes := (dn_nodes ?t)[i := None]\<rparr>)"
  have h: "dn_heap ?u a = None" "(a, Work_Rebuild) \<in> set (dn_work ?u)"
    using assms(4) by (simp_all add: released_def dnode_defs)
  then have "run_work na a Work_Rebuild ?u = None"
    by (simp add: run_work_def Rebuild_Connection_def DNC_State_Transition_def To_Disconnected_def dnode_defs)
  moreover have "DNC_Socket_State_Change sk_state a s = Some ?t"
    using assms(5,6) by (simp add: DNC_Socket_State_Change_def init_and_queue_work_def delayed_work_pending_def)
  moreover have "DNC_Socket_State_Change sk_state a ?t = None"
    using assms(6) by (simp add: DNC_Socket_State_Change_def init_and_queue_work_def delayed_work_pending_def)
  ultimately show ?thesis using u h by blast
qed

definition one_connected :: dncs where
  "one_connected = the (run_work net_yes 0 Work_Connect (built 0 7 80 True no_nodes))"

lemma one_connected:
  "run_work net_yes 0 Work_Connect (built 0 7 80 True no_nodes) = Some one_connected"
  "\<exists>d. dn_heap one_connected 0 = Some d \<and> n_sock d = Some True \<and> n_status d = DNODE_CONNECTED \<and> n_index d = 0
     \<and> n_retry_count d = 1"
  "dn_work one_connected = []"
  by (auto simp: one_connected_def run_work_def built_def no_nodes_def Init_DNCS_Manager_def Let_def
      Node_Connection_Handler_def new_dnc_def net_yes_def DNC_State_Transition_def dnode_defs ret_defs)

lemma one_connected_reach: "dn_steps no_nodes [Ev_Build net_yes 7 80 True, Ev_Work net_yes 0 Work_Connect] one_connected"
  using event [OF first_step [of 7 80 True], of "Ev_Work net_yes 0 Work_Connect" one_connected] one_connected(1)
  by (simp add: built_def no_nodes_def Init_DNCS_Manager_def net_yes_def)

theorem rebuild_after_destroy_faults_witness:
  "\<exists>t u. DNC_Socket_State_Change 7 0 one_connected = Some t \<and> Destroy_DMS_Node_Container 0 t = Some u
     \<and> run_work net_yes 0 Work_Rebuild u = None"
proof -
  obtain d where d: "dn_heap one_connected 0 = Some d" "n_sock d = Some True" "n_status d = DNODE_CONNECTED" "n_index d = 0"
    using one_connected(2) by blast
  from rebuild_after_destroy_faults [OF one_connected_reach d(1-3), of 7 net_yes] d(4) show ?thesis
    by (auto simp: one_connected(3) TCP_SYN_SENT_def TCP_SYN_RECV_def TCP_ESTABLISHED_def)
qed

text \<open>A connection whose socket cannot be created again is lost for good: after the
  rebuild the node is \<open>DISCONNECTED\<close>, without a socket and without a work, and no
  sequence of events other than its own destruction changes that.\<close>
theorem failed_rebuild_is_final:
  assumes "dn_steps no_nodes es s" and "(a, Work_Rebuild) \<in> set (dn_work s)" and "dn_heap s a = Some d"
    and "na_create na < 0" and "na_options na \<le> 0"
    and "run_work na a Work_Rebuild s = Some t" and "dn_steps t es' u" and "Ev_Destroy (n_index d) \<notin> set es'"
  shows "\<exists>e. dn_heap u a = Some e \<and> n_status e = DNODE_DISCONNECTED \<and> n_sock e = None \<and> a \<notin> fst ` set (dn_work u)"
proof -
  have inv: "dn_inv s" using reach_inv [OF assms(1)] .
  have t: "dn_inv t" using inv_event [OF inv, of "Ev_Work na a Work_Rebuild" t] assms(2,5,6) by simp
  let ?s = "s\<lparr>dn_work := remove1 (a, Work_Rebuild) (dn_work s)\<rparr>"
  have np: "\<not> delayed_work_pending a ?s" using inv_work(2) [OF inv assms(2)] .
  have "dn_heap ?s a = Some d" using assms(3) by simp
  from Rebuild_eq [OF this np assms(5)] assms(4,6) have "t = put_dnc a (disconnected d) ?s"
    by (simp add: run_work_def)
  then have "dn_heap t a = Some (disconnected d)" "\<not> delayed_work_pending a t" using np by simp_all
  from steps_other [OF assms(7) t this(1) _ this(2)] assms(8) show ?thesis
    by (simp add: delayed_work_pending_def)
qed

definition one_down :: dncs where
  "one_down = one_connected\<lparr>dn_work := [(0, Work_Rebuild)]\<rparr>"

definition net_no_socket :: net where
  "net_no_socket = net_yes\<lparr>na_create := - 12\<rparr>"

theorem failed_rebuild_is_final_witness:
  "\<exists>t d. run_work net_no_socket 0 Work_Rebuild one_down = Some t \<and> dn_heap t 0 = Some d \<and> n_status d = DNODE_DISCONNECTED"
proof -
  obtain d where d: "dn_heap one_connected 0 = Some d" "n_sock d = Some True" "n_index d = 0"
    using one_connected(2) by blast
  have e: "enabled (Ev_State 7 0) one_connected" using d by simp
  have "run_event (Ev_State 7 0) one_connected = Some one_down"
    by (simp add: DNC_Socket_State_Change_def init_and_queue_work_def delayed_work_pending_def one_connected(3)
        one_down_def TCP_SYN_SENT_def TCP_SYN_RECV_def TCP_ESTABLISHED_def)
  note r = event [OF one_connected_reach e this]
  have h: "dn_heap one_down 0 = Some d" "(0, Work_Rebuild) \<in> set (dn_work one_down)" by (simp_all add: one_down_def d)
  have n: "na_create net_no_socket < 0" "na_options net_no_socket \<le> 0" by (simp_all add: net_no_socket_def net_yes_def)
  have "run_work net_no_socket 0 Work_Rebuild one_down \<noteq> None"
    using run_work_eq [OF reach_inv [OF r] h(2) n(2)] h(1) by simp
  then obtain t where t: "run_work net_no_socket 0 Work_Rebuild one_down = Some t" by blast
  from failed_rebuild_is_final [OF r h(2,1) n t stay] t show ?thesis by auto
qed

end
