(* ===== verification/Sock_Xmit.thy ===== *)
theory Sock_Xmit
  imports Node_Container
begin

text \<open>
  Sending and receiving on a connection (\<open>sock_xmit\<close> and its error handling in
  \<open>DriverCore/SSocket.c\<close>, \<open>Send_Msg\<close> and \<open>Recv_Msg\<close> in \<open>SSockets_Manager.c\<close>), and
  the textual form of an address (\<open>_inet_str2n\<close>, the \<open>ip_str\<close> of a container).
  What the kernel's socket calls answer is a list; a call with no answer left
  does not return (\<open>None\<close>).
\<close>

section \<open>The transfer loop\<close>

definition EPIPE :: int where "EPIPE = 32"
definition EAGAIN :: int where "EAGAIN = 11"
definition ETIMEDOUT :: int where "ETIMEDOUT = 110"
definition EDNC_SNDTIMEO :: int where "EDNC_SNDTIMEO = 1604"

lemmas xmit_defs = EPIPE_def EAGAIN_def ETIMEDOUT_def EDNC_SNDTIMEO_def EDNC_CONNECT_def DMS_OK_def DMS_FAIL_def

record kanswer =
  k_stop :: bool            \<comment> \<open>\<open>kthread_should_stop\<close> before the call\<close>
  k_result :: int           \<comment> \<open>what \<open>kernel_sendmsg\<close> or \<open>kernel_recvmsg\<close> returns\<close>
  k_established :: bool     \<comment> \<open>the TCP state afterwards\<close>

definition DMS_Sock_ErrorHandling :: "bool \<Rightarrow> bool \<Rightarrow> int \<Rightarrow> int" where
  "DMS_Sock_ErrorHandling established send errno =
     (if errno \<in> {DMS_OK, - EAGAIN, - ETIMEDOUT} then
        if established then (if \<not> send then 0 else errno)
        else if send then - EDNC_SNDTIMEO else - EDNC_CONNECT
      else errno)"

text \<open>The inner loop of a receive.\<close>

fun recv_wait :: "kanswer list \<Rightarrow> (int \<times> bool \<times> kanswer list) option" where
  "recv_wait [] = None"
| "recv_wait (k # ks) =
     (if k_stop k then Some (- EPIPE, k_established k, ks)
      else if k_result k \<in> {0, - EAGAIN, - ETIMEDOUT} then recv_wait ks
      else Some (k_result k, k_established k, ks))"

fun send_once :: "int \<Rightarrow> kanswer list \<Rightarrow> (int \<times> bool \<times> kanswer list) option" where
  "send_once len [] = None"
| "send_once len (k # ks) =
     Some (if k_result k \<noteq> len \<and> k_result k > 0 then - EDNC_SNDTIMEO else k_result k, k_established k, ks)"

lemma recv_wait_shorter: "recv_wait ks = Some (r, e, ks') \<Longrightarrow> List.length ks' < List.length ks"
  by (induction ks) (auto split: if_splits)

lemma send_once_shorter: "send_once len ks = Some (r, e, ks') \<Longrightarrow> List.length ks' < List.length ks"
  by (cases ks) auto

text \<open>The result, the bytes \<open>buf\<close> was advanced by, and the answers not used.\<close>

function sock_xmit :: "bool \<Rightarrow> int \<Rightarrow> int \<Rightarrow> kanswer list \<Rightarrow> (int \<times> int \<times> kanswer list) option" where
  "sock_xmit send buf len ks =
     (case (if send then send_once len ks else recv_wait ks) of
        None \<Rightarrow> None
      | Some (result, established, ks') \<Rightarrow>
          let r = (if result \<le> 0 then DMS_Sock_ErrorHandling established send result else result)
          in if result \<le> 0 \<and> r < 0 then Some (r, buf, ks')
             else if len - r > 0 then sock_xmit send (buf + r) (len - r) ks'
             else Some (r, buf + r, ks'))"
  by auto
termination
  by (relation "measure (\<lambda>(_, _, _, ks). List.length ks)")
    (auto dest: recv_wait_shorter send_once_shorter split: if_splits)

declare sock_xmit.simps [simp del]

definition Send_Msg :: "kanswer list \<Rightarrow> int \<Rightarrow> int \<Rightarrow> dncs \<Rightarrow> int option" where
  "Send_Msg ks node_index len s =
     (case Node_Index_to_DNC node_index s of
        None \<Rightarrow> Some (- DMS_FAIL)
      | Some a \<Rightarrow> do {
          d \<leftarrow> dn_heap s a;
          if n_status d = DNODE_CONNECTED
          then do { _ \<leftarrow> n_sock d; (r, _, _) \<leftarrow> sock_xmit True 0 len ks; Some r }
          else Some (- EDNC_CONNECT)
        })"

definition Recv_Msg :: "kanswer list \<Rightarrow> int \<Rightarrow> int \<Rightarrow> dncs \<Rightarrow> int option" where
  "Recv_Msg ks node_index len s =
     (case Node_Index_to_DNC node_index s of
        None \<Rightarrow> Some (- DMS_FAIL)
      | Some a \<Rightarrow> do {
          d \<leftarrow> dn_heap s a;
          if n_status d = DNODE_CONNECTED
          then do { _ \<leftarrow> n_sock d; (r, _, _) \<leftarrow> sock_xmit False 0 len ks; Some r }
          else Some (- EDNC_CONNECT)
        })"

section \<open>Lemmas on the loop\<close>

text \<open>\<open>kernel_recvmsg\<close> returns at most the bytes that are asked for.\<close>

fun fits :: "int \<Rightarrow> kanswer list \<Rightarrow> bool" where
  "fits len [] = True"
| "fits len (k # ks) = (k_result k \<le> len \<and> fits (if k_result k > 0 then len - k_result k else len) ks)"

lemma recv_wait_fits: "recv_wait ks = Some (r, e, ks') \<Longrightarrow> fits len ks \<Longrightarrow>
  r \<le> len \<or> r < 0" and recv_wait_rest: "recv_wait ks = Some (r, e, ks') \<Longrightarrow> fits len ks \<Longrightarrow> 0 < r \<Longrightarrow> fits (len - r) ks'"
  and recv_wait_code: "recv_wait ks = Some (r, e, ks') \<Longrightarrow> r \<notin> {0, - EAGAIN, - ETIMEDOUT}"
  by (induction ks) (auto simp: xmit_defs split: if_splits)

lemma recv_step:
  "sock_xmit False buf len ks = (case recv_wait ks of
     None \<Rightarrow> None
   | Some (r, _, ks') \<Rightarrow> if r < 0 then Some (r, buf, ks')
       else if len - r > 0 then sock_xmit False (buf + r) (len - r) ks' else Some (r, buf + r, ks'))"
proof (cases "recv_wait ks")
  case None
  then show ?thesis by (simp add: sock_xmit.simps [of False])
next
  case (Some x)
  obtain r e ks' where x: "x = (r, e, ks')" by (cases x)
  have n: "r \<notin> {0, - EAGAIN, - ETIMEDOUT}" by (rule recv_wait_code [OF Some [unfolded x]])
  then have "DMS_Sock_ErrorHandling e False r = r" by (simp add: DMS_Sock_ErrorHandling_def DMS_OK_def)
  with n show ?thesis by (subst sock_xmit.simps) (auto simp: Some x Let_def)
qed

lemma recv_result:
  "sock_xmit False buf len ks = Some (r, buf', ks') \<Longrightarrow> 0 < len \<Longrightarrow> fits len ks \<Longrightarrow>
     0 < r \<and> buf' = buf + len \<or> r < 0 \<and> buf \<le> buf' \<and> buf' < buf + len"
proof (induction "List.length ks" arbitrary: buf len ks rule: less_induct)
  case less
  from less.prems(1) obtain q e us where w: "recv_wait ks = Some (q, e, us)"
    by (cases "recv_wait ks") (auto simp: recv_step [of buf])
  show ?case
  proof (cases "q < 0")
    case True
    with less.prems w show ?thesis by (simp add: recv_step [of buf])
  next
    case False
    with recv_wait_code [OF w] have q: "0 < q" by auto
    with recv_wait_fits [OF w less.prems(3)] recv_wait_rest [OF w less.prems(3)]
    have le: "q \<le> len" and f: "fits (len - q) us" by auto
    show ?thesis
    proof (cases "q = len")
      case True
      with less.prems w q show ?thesis by (simp add: recv_step [of buf])
    next
      case False
      with le have l: "0 < len - q" by simp
      with less.prems(1) w q have "sock_xmit False (buf + q) (len - q) us = Some (r, buf', ks')"
        by (simp add: recv_step [of buf])
      from less.hyps [OF recv_wait_shorter [OF w] this l f] q show ?thesis by auto
    qed
  qed
qed

lemma send_step:
  "sock_xmit True buf len (k # ks) =
    (if k_result k = len \<and> 0 < len then Some (len, buf + len, ks)
     else if k_result k > 0 then Some (- EDNC_SNDTIMEO, buf, ks)
     else if k_result k = 0 \<and> k_established k \<and> 0 < len then sock_xmit True buf len ks
     else if k_result k = 0 \<and> k_established k then Some (0, buf, ks)
     else Some (if k_result k \<in> {0, - EAGAIN, - ETIMEDOUT} \<and> \<not> k_established k then - EDNC_SNDTIMEO else k_result k, buf, ks))"
  by (subst sock_xmit.simps) (auto simp: DMS_Sock_ErrorHandling_def Let_def xmit_defs)

lemma sock_xmit_Nil: "sock_xmit send buf len [] = None"
  by (simp add: sock_xmit.simps)

lemma send_result:
  "0 < len \<Longrightarrow> sock_xmit True buf len ks = Some (r, buf', ks') \<Longrightarrow> r = len \<and> buf' = buf + len \<or> r < 0 \<and> buf' = buf"
proof (induction ks)
  case Nil
  then show ?case by (simp add: sock_xmit_Nil)
next
  case (Cons k ks)
  then show ?case by (auto simp: send_step xmit_defs split: if_splits)
qed

section \<open>Transfers\<close>

text \<open>A receive of \<open>len\<close> bytes that returns is positive exactly when the whole buffer
  was filled, whatever the kernel answers; and when it receives the bytes in
  pieces, the value returned is the size of the last piece, not the length that
  the comment of \<open>Recv_Msg\<close> promises.\<close>
theorem recv_positive_iff_full:
  assumes "0 < len" and "fits len ks"
  shows "(\<forall>r n us. sock_xmit False 0 len ks = Some (r, n, us) \<longrightarrow> (0 < r \<longleftrightarrow> n = len) \<and> r \<noteq> 0)
    \<and> (\<forall>ks' k. ks = ks' @ [k] \<and> (\<forall>x \<in> set ks. \<not> k_stop x \<and> (k_result x \<in> {0, - EAGAIN, - ETIMEDOUT} \<or> 0 < k_result x))
        \<and> 0 < k_result k \<and> sum_list (filter (\<lambda>r. 0 < r) (map k_result ks)) = len
        \<longrightarrow> sock_xmit False 0 len ks = Some (k_result k, len, []))"
proof -
  have pieces: "sock_xmit False buf len (ks @ [k]) = Some (k_result k, buf + len, [])"
    if "\<forall>x \<in> set (ks @ [k]). \<not> k_stop x \<and> (k_result x \<in> {0, - EAGAIN, - ETIMEDOUT} \<or> 0 < k_result x)"
      "0 < k_result k" "sum_list (filter (\<lambda>r. 0 < r) (map k_result (ks @ [k]))) = len" for buf len ks k
    using that
  proof (induction ks arbitrary: buf len)
    case Nil
    then show ?case by (simp add: recv_step [of buf] xmit_defs)
  next
    case (Cons x ks)
    have pos: "0 \<le> sum_list (filter (\<lambda>r. 0 < r) (map k_result ks))" by (rule sum_list_nonneg) simp
    show ?case
    proof (cases "0 < k_result x")
      case True
      have "recv_wait (x # ks @ [k]) = Some (k_result x, k_established x, ks @ [k])"
        using Cons.prems(1) True by (simp add: xmit_defs)
      moreover have "sock_xmit False (buf + k_result x) (len - k_result x) (ks @ [k])
          = Some (k_result k, buf + k_result x + (len - k_result x), [])"
        by (rule Cons.IH) (use Cons.prems True in auto)
      moreover have "0 < len - k_result x" using Cons.prems True pos by simp
      ultimately show ?thesis using True by (simp add: recv_step [of buf])
    next
      case False
      with Cons.prems(1) have "recv_wait (x # ks @ [k]) = recv_wait (ks @ [k])" by auto
      then have "sock_xmit False buf len (x # ks @ [k]) = sock_xmit False buf len (ks @ [k])"
        by (simp add: recv_step [of buf] del: recv_wait.simps)
      also have "\<dots> = Some (k_result k, buf + len, [])" by (rule Cons.IH) (use Cons.prems False in auto)
      finally show ?thesis by simp
    qed
  qed
  have "(0 < r \<longleftrightarrow> n = len) \<and> r \<noteq> 0" if "sock_xmit False 0 len ks = Some (r, n, us)" for r n us
    using recv_result [OF that assms] by auto
  then show ?thesis
  proof (intro conjI allI impI)
    fix ks' k
    assume a: "ks = ks' @ [k] \<and> (\<forall>x \<in> set ks. \<not> k_stop x \<and> (k_result x \<in> {0, - EAGAIN, - ETIMEDOUT} \<or> 0 < k_result x))
      \<and> 0 < k_result k \<and> sum_list (filter (\<lambda>r. 0 < r) (map k_result ks)) = len"
    then have p: "\<forall>x \<in> set (ks' @ [k]). \<not> k_stop x \<and> (k_result x \<in> {0, - EAGAIN, - ETIMEDOUT} \<or> 0 < k_result x)"
      "0 < k_result k" "sum_list (filter (\<lambda>r. 0 < r) (map k_result (ks' @ [k]))) = len" by blast+
    from pieces [OF p, of 0] a show "sock_xmit False 0 len ks = Some (k_result k, len, [])" by simp
  qed blast+
qed

definition kans :: "int \<Rightarrow> kanswer" where
  "kans r = \<lparr>k_stop = False, k_result = r, k_established = True\<rparr>"

theorem recv_positive_iff_full_witness:
  "sock_xmit False 0 100 [kans 60, kans (- 11), kans 40] = Some (40, 100, [])"
proof -
  have "fits 100 [kans 60, kans (- 11), kans 40]" by (simp add: kans_def)
  from recv_positive_iff_full [OF _ this] show ?thesis
    by (auto simp: kans_def xmit_defs dest!: spec [of _ "[kans 60, kans (- 11)]"])
qed

text \<open>A send of \<open>len\<close> bytes that returns has either passed all of them to the kernel in
  one call and returns \<open>len\<close>, or returns an error with \<open>buf\<close> where it was: a short
  send is reported as an error, never as a length.  While the kernel takes no
  byte of an established connection (answer 0), the send does not return.\<close>
theorem send_all_or_error:
  assumes "0 < len"
  shows "(\<forall>r n us. sock_xmit True 0 len ks = Some (r, n, us) \<longrightarrow> r = len \<and> n = len \<or> r < 0 \<and> n = 0)
    \<and> (list_all (\<lambda>k. k_result k = 0 \<and> k_established k) ks \<longrightarrow> sock_xmit True 0 len ks = None)"
proof -
  have "list_all (\<lambda>k. k_result k = 0 \<and> k_established k) ks \<longrightarrow> sock_xmit True 0 len ks = None"
    using assms by (induction ks) (simp_all add: sock_xmit_Nil send_step)
  moreover have "r = len \<and> n = len \<or> r < 0 \<and> n = 0" if "sock_xmit True 0 len ks = Some (r, n, us)" for r n us
    using send_result [OF assms that] by simp
  ultimately show ?thesis by blast
qed

theorem send_all_or_error_witness:
  "sock_xmit True 0 100 [kans 0, kans 0, kans 0] = None"
  using send_all_or_error [of 100 "[kans 0, kans 0, kans 0]"] by (simp add: kans_def)

section \<open>Addresses as text\<close>

text \<open>\<open>isdigit\<close> and \<open>isspace\<close> are only applied to ASCII characters; a string ends at
  its NUL, so the end of the list.\<close>

definition isdigit :: "char \<Rightarrow> bool" where
  "isdigit c \<longleftrightarrow> 48 \<le> (of_char c :: int) \<and> (of_char c :: int) \<le> 57"

definition isspace :: "char \<Rightarrow> bool" where
  "isspace c \<longleftrightarrow> (of_char c :: int) = 32 \<or> 9 \<le> (of_char c :: int) \<and> (of_char c :: int) \<le> 13"

fun read_number :: "int \<Rightarrow> string \<Rightarrow> int \<times> string" where
  "read_number value [] = (value, [])"
| "read_number value (c # cp) =
     (if isdigit c then read_number (c_int (value * 10 + of_char c - 48)) cp else (value, c # cp))"

lemma read_number_shorter: "read_number v cp = (w, cp') \<Longrightarrow> List.length cp' \<le> List.length cp"
  by (induction v cp rule: read_number.induct) (auto split: if_splits dest: le_SucI)

definition addr_class_max :: "int list" where
  "addr_class_max = [- 1, 0xffffff, 0xffff, 0xff]"

text \<open>The address in host order: the bytes before the last number from the top, the
  last number or-ed in.\<close>

definition inet_value :: "u8 list \<Rightarrow> int \<Rightarrow> u32" where
  "inet_value bytes value =
     fold (\<lambda>(i, b) w. w OR push_bit (24 - 8 * i) (ucast b)) (enumerate 0 bytes) (word_of_int value)"

definition end_ok :: "string \<Rightarrow> bool" where
  "end_ok cp \<longleftrightarrow> cp = [] \<or> isspace (hd cp) \<or> hd cp = CHR 0x5C \<or> hd cp = CHR ''/''"

function inet_loop :: "u8 list \<Rightarrow> string \<Rightarrow> int" where
  "inet_loop bytes cp =
     (if cp = [] \<or> \<not> isdigit (hd cp) then 0
      else case read_number 0 cp of (value, cp) \<Rightarrow>
        if cp \<noteq> [] \<and> hd cp = CHR ''.'' then
          if List.length bytes > 2 \<or> value > 255 then 0 else inet_loop (bytes @ [word_of_int value]) (tl cp)
        else if cp \<noteq> [] \<and> hd cp = CHR '':'' then - 1
        else if \<not> end_ok cp then 0
        else if value > addr_class_max ! List.length bytes then 0
        else sint (inet_value bytes value))"
  by auto
termination
  by (relation "measure (\<lambda>(_, cp). List.length cp)")
    (auto dest!: read_number_shorter[OF sym] simp: neq_Nil_conv)

declare inet_loop.simps [simp del]

definition inet_str2n :: "string \<Rightarrow> int" where
  "inet_str2n cp = inet_loop [] cp"

text \<open>\<open>%d\<close>, and the text that a container keeps of its address: the bytes are read
  through a \<open>char *\<close>, so as signed numbers.\<close>

fun dec :: "nat \<Rightarrow> string" where
  "dec n = (if n < 10 then [char_of (48 + n)] else dec (n div 10) @ [char_of (48 + n mod 10)])"

declare dec.simps [simp del]

definition sprintf_d :: "int \<Rightarrow> string" where
  "sprintf_d i = (if i < 0 then CHR ''-'' # dec (nat (- i)) else dec (nat i))"

definition ip_c :: "u32 \<Rightarrow> nat \<Rightarrow> int" where
  "ip_c node_ip i = sint (ucast (drop_bit (8 * i) node_ip) :: u8)"

definition ip_str :: "u32 \<Rightarrow> u16 \<Rightarrow> string" where
  "ip_str node_ip port = sprintf_d (ip_c node_ip 3) @ ''.'' @ sprintf_d (ip_c node_ip 2) @ ''.''
     @ sprintf_d (ip_c node_ip 1) @ ''.'' @ sprintf_d (ip_c node_ip 0) @ '':'' @ sprintf_d (sint port)"

definition DMS_IP_STR_LEN :: nat where "DMS_IP_STR_LEN = 24"

lemma dec_small: "n < 10 \<Longrightarrow> dec n = [char_of (48 + n)]"
  "\<not> n < 10 \<Longrightarrow> dec n = dec (n div 10) @ [char_of (48 + n mod 10)]"
  by (simp_all add: dec.simps [of n])

lemma length_dec: "n < 10 ^ Suc k \<Longrightarrow> List.length (dec n) \<le> Suc k"
proof (induction k arbitrary: n)
  case (Suc k)
  show ?case
  proof (cases "n < 10")
    case False
    have "n div 10 < 10 ^ Suc k" using Suc.prems by (simp add: less_mult_imp_div_less mult.commute)
    from Suc.IH [OF this] False show ?thesis by (simp add: dec_small)
  qed (simp add: dec_small)
qed (simp add: dec_small)

lemma of_char_digit: "n < 10 \<Longrightarrow> (of_char (char_of (48 + n) :: char) :: int) = 48 + int n"
  for n :: nat
proof -
  assume "n < 10"
  have e: "(of_char c :: int) = int (of_char c)" for c :: char by (rule of_nat_of_char [symmetric])
  have "(of_char (char_of (48 + n) :: char) :: nat) = 48 + n" using \<open>n < 10\<close> by simp
  then show ?thesis by (subst e) simp
qed

lemma read_number_dec:
  assumes "n < 2 ^ 31" and "cp = [] \<or> \<not> isdigit (hd cp)"
  shows "read_number 0 (dec n @ cp) = (int n, cp)"
proof -
  have stop: "read_number v cp = (v, cp)" for v using assms(2) by (cases cp) simp_all
  have "read_number 0 (dec n @ xs) = read_number (int n) xs" if "n < 2 ^ 31" for n xs
    using that
  proof (induction n arbitrary: xs rule: less_induct)
    case (less n)
    show ?case
    proof (cases "n < 10")
      case True
      then show ?thesis using of_char_digit [of n]
        by (simp add: dec_small isdigit_def c_int_id)
    next
      case False
      have "read_number 0 (dec n @ xs) = read_number (int (n div 10)) (char_of (48 + n mod 10) # xs)"
        using less.IH [of "n div 10"] less.prems False by (simp add: dec_small)
      also have "\<dots> = read_number (c_int (int (n div 10) * 10 + int (n mod 10))) xs"
      proof -
        have d: "(of_char (char_of (48 + n mod 10) :: char) :: int) = 48 + int (n mod 10)"
          by (rule of_char_digit) simp
        have "int (n mod 10) \<le> 9" by presburger
        with d have "isdigit (char_of (48 + n mod 10))" by (simp add: isdigit_def)
        with d show ?thesis by simp
      qed
      also have "int (n div 10) * 10 + int (n mod 10) = int n" by presburger
      also have "c_int (int n) = int n" using less.prems by (intro c_int_id) simp_all
      finally show ?thesis .
    qed
  qed
  with assms(1) stop show ?thesis by simp
qed

lemma dec_ne: "dec n \<noteq> []"
  by (cases "n < 10") (simp_all add: dec_small)

lemma dec_hd: "isdigit (hd (dec n))"
proof (induction n rule: less_induct)
  case (less n)
  show ?case
  proof (cases "n < 10")
    case True
    then show ?thesis using of_char_digit [of n] by (simp add: dec_small isdigit_def)
  next
    case False
    with less.IH [of "n div 10"] show ?thesis by (simp add: dec_small dec_ne)
  qed
qed

lemma not_digit: "\<not> isdigit CHR ''.''" "\<not> isdigit CHR '':''"
  by (simp_all add: isdigit_def)

lemma inet_loop_dot:
  assumes "n < 256" and "List.length bytes \<le> 2"
  shows "inet_loop bytes (dec n @ CHR ''.'' # cp) = inet_loop (bytes @ [of_nat n]) cp"
proof -
  have "read_number 0 (dec n @ CHR ''.'' # cp) = (int n, CHR ''.'' # cp)"
    using assms(1) by (intro read_number_dec) (simp_all add: not_digit)
  with assms dec_hd [of n] show ?thesis
    by (subst inet_loop.simps) (simp add: dec_ne)
qed

lemma inet_loop_last:
  assumes "n < 256" and "List.length bytes = 3" and "end_ok cp" "cp = [] \<or> \<not> isdigit (hd cp)"
    "cp \<noteq> [] \<Longrightarrow> hd cp \<noteq> CHR ''.'' \<and> hd cp \<noteq> CHR '':''"
  shows "inet_loop bytes (dec n @ cp) = sint (inet_value bytes (int n))"
proof -
  have "read_number 0 (dec n @ cp) = (int n, cp)" using assms(1,4) by (intro read_number_dec) simp_all
  with assms dec_hd [of n] show ?thesis
    by (subst inet_loop.simps) (auto simp: dec_ne addr_class_max_def)
qed

text \<open>Parsing the dotted decimal text of four bytes gives the address: the round
  trip for every address, with or without text after it that starts with a
  space.\<close>
theorem inet_str2n_dotted:
  assumes "a < 256" "b < 256" "c < 256" "d < 256" and "cp = [] \<or> isspace (hd cp)"
  shows "inet_str2n (dec a @ ''.'' @ dec b @ ''.'' @ dec c @ ''.'' @ dec d @ cp)
    = sint (push_bit 24 (of_nat a) OR push_bit 16 (of_nat b) OR push_bit 8 (of_nat c) OR of_nat d :: u32)"
proof -
  have sp: "\<not> isdigit x \<and> x \<noteq> CHR ''.'' \<and> x \<noteq> CHR '':''" if "isspace x" for x
    using that by (auto simp: isspace_def isdigit_def)
  have "inet_str2n (dec a @ ''.'' @ dec b @ ''.'' @ dec c @ ''.'' @ dec d @ cp)
      = sint (inet_value [of_nat a, of_nat b, of_nat c] (int d))"
    unfolding inet_str2n_def using assms(1-4) assms(5) sp [of "hd cp"]
    by (simp add: inet_loop_dot) (rule inet_loop_last, auto simp: end_ok_def)
  moreover have u: "(ucast (of_nat n :: u8) :: u32) = of_nat n" if "n < 256" for n
    using that by (simp add: unsigned_of_nat take_bit_nat_eq_self)
  ultimately show ?thesis using assms(1-4)
    by (simp add: inet_value_def u ac_simps)
qed

theorem inet_str2n_dotted_witness:
  "inet_str2n (dec 10 @ ''.'' @ dec 0 @ ''.'' @ dec 0 @ ''.'' @ dec 7 @ '' '') = 0x0A000007"
proof -
  have "inet_str2n (dec 10 @ ''.'' @ dec 0 @ ''.'' @ dec 0 @ ''.'' @ dec 7 @ '' '')
      = sint (push_bit 24 (of_nat 10) OR push_bit 16 (of_nat 0) OR push_bit 8 (of_nat 0) OR of_nat 7 :: u32)"
    by (rule inet_str2n_dotted) (simp_all add: isspace_def)
  then show ?thesis by simp
qed

lemma length_sprintf_d:
  assumes "i < 10 ^ Suc k" and "- i < 10 ^ Suc k"
  shows "List.length (sprintf_d i) \<le> Suc k + (if i < 0 then 1 else 0)"
proof (cases "i < 0")
  case True
  then have "nat (- i) < 10 ^ Suc k" using assms(2) by (simp add: nat_less_iff)
  from length_dec [OF this] True show ?thesis by (simp add: sprintf_d_def)
next
  case False
  then have "nat i < 10 ^ Suc k" using assms(1) by (simp add: nat_less_iff)
  from length_dec [OF this] False show ?thesis by (simp add: sprintf_d_def)
qed

lemma ip_c_range: "- 128 \<le> ip_c node_ip i" "ip_c node_ip i < 128"
  using sint_ge [of "ucast (drop_bit (8 * i) node_ip) :: u8"] sint_lt [of "ucast (drop_bit (8 * i) node_ip) :: u8"]
  by (simp_all add: ip_c_def)

text \<open>The text a container keeps of its address needs at most 27 bytes with its NUL,
  and needs 27 for 128.128.128.128 and port 32768, where the buffer has 24: the
  bytes are printed as signed numbers.  With bytes below 128 and a port below
  32768 it fits.\<close>
theorem ip_str_bounds:
  "List.length (ip_str node_ip port) + 1 \<le> 27
   \<and> List.length (ip_str 0x80808080 0x8000) + 1 = 27 \<and> DMS_IP_STR_LEN = 24
   \<and> ((\<forall>i < 4. 0 \<le> ip_c node_ip i) \<and> 0 \<le> sint port \<longrightarrow> List.length (ip_str node_ip port) + 1 \<le> DMS_IP_STR_LEN)"
proof -
  have port: "- 32768 \<le> sint port" "sint port < 32768" using sint_ge [of port] sint_lt [of port] by simp_all
  have p: "List.length (sprintf_d (sint port)) \<le> 5 + (if sint port < 0 then 1 else 0)"
    using length_sprintf_d [of "sint port" 4] port by simp
  have q: "List.length (sprintf_d (ip_c node_ip i)) \<le> 3 + (if ip_c node_ip i < 0 then 1 else 0)" for i
    using length_sprintf_d [of "ip_c node_ip i" 2] ip_c_range [of node_ip i] by simp
  have 1: "List.length (ip_str node_ip port) + 1 \<le> 27"
    using p q [of 0] q [of 1] q [of 2] q [of 3] by (simp add: ip_str_def split: if_splits)
  have 2: "List.length (ip_str node_ip port) + 1 \<le> 24" if "\<forall>i < 4. 0 \<le> ip_c node_ip i" "0 \<le> sint port"
    using p q [of 0] q [of 1] q [of 2] q [of 3] that by (simp add: ip_str_def not_less [symmetric])
  have "ip_c 0x80808080 i = - 128" if "i \<in> {0, 1, 2, 3}" for i using that by (auto simp: ip_c_def)
  then have 3: "List.length (ip_str 0x80808080 0x8000) + 1 = 27"
    by (simp add: ip_str_def sprintf_d_def dec.simps)
  from 1 2 3 show ?thesis by (simp add: DMS_IP_STR_LEN_def)
qed

theorem ip_str_bounds_witness:
  "List.length (ip_str 0x0A000007 80) + 1 \<le> 24"
proof -
  have "0 \<le> ip_c 0x0A000007 i" if "i \<in> {0, 1, 2, 3}" for i using that by (auto simp: ip_c_def)
  moreover have "i \<in> {0, 1, 2, 3}" if "i < 4" for i :: nat using that by auto
  ultimately show ?thesis using ip_str_bounds [of "0x0A000007" 80] by (simp add: DMS_IP_STR_LEN_def)
qed

end
