(* ===== verification/Mem_Pool.thy ===== *)
theory Mem_Pool
  imports DMS_Prelude "HOL-Library.Monad_Syntax"
begin

text \<open>
  The memory pools of the driver (\<open>DMS_Mem_Pool.c\<close>): the table \<open>dmp_manager\<close> with
  one kernel pool for each kind of object, its set-up with the roll-back of a failed
  set-up, its release, and the allocation functions.

  The kernel's side is its documented interface: a cache counts the objects taken
  from it, can be destroyed only when it has none left, and reports a failure
  otherwise; a pool takes \<open>mn\<close> objects from its cache when it is created
  (\<open>BLKDEV_MIN_RQ\<close>, a constant of the kernel's headers) and gives them back when it is
  destroyed, which is allowed only when every object handed out has come back; an
  allocation that may wait does not fail.  Which creations fail is an argument.
\<close>

section \<open>The kernel's caches and pools\<close>

record kcache =
  kc_name :: string
  kc_size :: nat
  kc_objs :: nat

record kpool =
  kp_cache :: nat
  kp_min :: nat
  kp_out :: "nat list"

record DMS_Mempool =
  cachep :: "nat option"
  poolp :: "nat option"

record kmem =
  k_caches :: "nat \<rightharpoonup> kcache"
  k_pools :: "nat \<rightharpoonup> kpool"
  k_dmps :: "nat \<rightharpoonup> DMS_Mempool"
  k_next :: nat

definition kzalloc_dmp :: "bool \<Rightarrow> kmem \<Rightarrow> nat option \<times> kmem" where
  "kzalloc_dmp ok k =
    (if ok then (Some (k_next k),
       k\<lparr>k_dmps := (k_dmps k)(k_next k \<mapsto> \<lparr>cachep = None, poolp = None\<rparr>), k_next := Suc (k_next k)\<rparr>)
     else (None, k))"

definition kfree_dmp :: "nat option \<Rightarrow> kmem \<Rightarrow> kmem" where
  "kfree_dmp dmp k = (case dmp of None \<Rightarrow> k | Some d \<Rightarrow> k\<lparr>k_dmps := (k_dmps k)(d := None)\<rparr>)"

definition kmem_cache_create :: "bool \<Rightarrow> string \<Rightarrow> nat \<Rightarrow> kmem \<Rightarrow> nat option \<times> kmem" where
  "kmem_cache_create ok nm sz k =
    (if ok then (Some (k_next k),
       k\<lparr>k_caches := (k_caches k)(k_next k \<mapsto> \<lparr>kc_name = nm, kc_size = sz, kc_objs = 0\<rparr>),
         k_next := Suc (k_next k)\<rparr>)
     else (None, k))"

definition kmem_cache_destroy :: "nat \<Rightarrow> kmem \<Rightarrow> (int \<times> kmem) option" where
  "kmem_cache_destroy c k =
    (case k_caches k c of
       None \<Rightarrow> None
     | Some kc \<Rightarrow> if kc_objs kc = 0 then Some (0, k\<lparr>k_caches := (k_caches k)(c := None)\<rparr>)
                  else Some (1, k))"

definition take_objs :: "nat \<Rightarrow> nat \<Rightarrow> kmem \<Rightarrow> kmem option" where
  "take_objs c n k =
    (case k_caches k c of
       None \<Rightarrow> None
     | Some kc \<Rightarrow> Some (k\<lparr>k_caches := (k_caches k)(c \<mapsto> kc\<lparr>kc_objs := kc_objs kc + n\<rparr>)\<rparr>))"

definition give_objs :: "nat \<Rightarrow> nat \<Rightarrow> kmem \<Rightarrow> kmem option" where
  "give_objs c n k =
    (case k_caches k c of
       None \<Rightarrow> None
     | Some kc \<Rightarrow> Some (k\<lparr>k_caches := (k_caches k)(c \<mapsto> kc\<lparr>kc_objs := kc_objs kc - n\<rparr>)\<rparr>))"

definition mempool_create_slab_pool :: "bool \<Rightarrow> nat \<Rightarrow> nat \<Rightarrow> kmem \<Rightarrow> (nat option \<times> kmem) option" where
  "mempool_create_slab_pool ok mn c k =
    (if ok then do {
       k \<leftarrow> take_objs c mn k;
       Some (Some (k_next k),
         k\<lparr>k_pools := (k_pools k)(k_next k \<mapsto> \<lparr>kp_cache = c, kp_min = mn, kp_out = []\<rparr>),
           k_next := Suc (k_next k)\<rparr>) }
     else Some (None, k))"

definition mempool_destroy :: "nat \<Rightarrow> kmem \<Rightarrow> kmem option" where
  "mempool_destroy p k =
    (case k_pools k p of
       None \<Rightarrow> None
     | Some kp \<Rightarrow>
         if kp_out kp = [] then
           do { k \<leftarrow> give_objs (kp_cache kp) (kp_min kp) k; Some (k\<lparr>k_pools := (k_pools k)(p := None)\<rparr>) }
         else None)"

definition mempool_alloc :: "nat \<Rightarrow> kmem \<Rightarrow> (nat \<times> kmem) option" where
  "mempool_alloc p k =
    (case k_pools k p of
       None \<Rightarrow> None
     | Some kp \<Rightarrow> do {
         k \<leftarrow> take_objs (kp_cache kp) 1 k;
         Some (k_next k,
           k\<lparr>k_pools := (k_pools k)(p \<mapsto> kp\<lparr>kp_out := k_next k # kp_out kp\<rparr>),
             k_next := Suc (k_next k)\<rparr>) })"

definition mempool_free :: "nat \<Rightarrow> nat \<Rightarrow> kmem \<Rightarrow> kmem option" where
  "mempool_free a p k =
    (case k_pools k p of
       None \<Rightarrow> None
     | Some kp \<Rightarrow>
         if a \<in> set (kp_out kp) then do {
           k \<leftarrow> give_objs (kp_cache kp) 1 k;
           Some (k\<lparr>k_pools := (k_pools k)(p \<mapsto> kp\<lparr>kp_out := remove1 a (kp_out kp)\<rparr>)\<rparr>) }
         else None)"

lemmas kernel_mem_defs = kzalloc_dmp_def kfree_dmp_def kmem_cache_create_def kmem_cache_destroy_def
  take_objs_def give_objs_def mempool_create_slab_pool_def mempool_destroy_def

section \<open>The table of pools\<close>

record DMP_Manager =
  dmp_name :: "string option"
  obj_size :: nat
  dmpp :: "nat option"

text \<open>The kinds of objects; \<open>sizeof\<close> gives the size of their C structures.\<close>

datatype dmp_obj = DLN | DLIST | DIO | LBLIST | LBMD | IOREQ | DNLOC | LOCREQ | DMETA | PHEADER | DNTAG | PALTAG

definition dmp_manager :: "(dmp_obj \<Rightarrow> nat) \<Rightarrow> DMP_Manager list" where
  "dmp_manager sizeof =
    [\<lparr>dmp_name = Some ''dms_mpool/dlist_node'', obj_size = sizeof DLN, dmpp = None\<rparr>,
     \<lparr>dmp_name = Some ''dms_mpool/dlist'', obj_size = sizeof DLIST, dmpp = None\<rparr>,
     \<lparr>dmp_name = Some ''dms_mpool/dio'', obj_size = sizeof DIO, dmpp = None\<rparr>,
     \<lparr>dmp_name = Some ''dms_mpool/LB_list'', obj_size = sizeof LBLIST, dmpp = None\<rparr>,
     \<lparr>dmp_name = Some ''dms_mpool/LBMD'', obj_size = sizeof LBMD, dmpp = None\<rparr>,
     \<lparr>dmp_name = Some ''dms_mpool/ioreq'', obj_size = sizeof IOREQ, dmpp = None\<rparr>,
     \<lparr>dmp_name = Some ''dms_mpool/dn_locs'', obj_size = sizeof DNLOC, dmpp = None\<rparr>,
     \<lparr>dmp_name = Some ''dms_mpool/loc_req'', obj_size = sizeof LOCREQ, dmpp = None\<rparr>,
     \<lparr>dmp_name = Some ''dms_mpool/dmeta'', obj_size = sizeof DMETA, dmpp = None\<rparr>,
     \<lparr>dmp_name = Some ''dms_mpool/pheader'', obj_size = sizeof PHEADER, dmpp = None\<rparr>,
     \<lparr>dmp_name = Some ''dms_mpool/dntag'', obj_size = sizeof DNTAG, dmpp = None\<rparr>,
     \<lparr>dmp_name = Some ''dms_mpool/paltag'', obj_size = sizeof PALTAG, dmpp = None\<rparr>,
     \<lparr>dmp_name = None, obj_size = 0, dmpp = None\<rparr>]"

definition DM_INDEX_DLN :: nat where "DM_INDEX_DLN = 0"
definition DM_INDEX_DLIST :: nat where "DM_INDEX_DLIST = 1"
definition DM_INDEX_DIO :: nat where "DM_INDEX_DIO = 2"
definition DM_INDEX_LBLIST :: nat where "DM_INDEX_LBLIST = 3"
definition DM_INDEX_LBMD :: nat where "DM_INDEX_LBMD = 4"
definition DM_INDEX_IOREQ :: nat where "DM_INDEX_IOREQ = 5"
definition DM_INDEX_DNLOC :: nat where "DM_INDEX_DNLOC = 6"
definition DM_INDEX_LOCREQ :: nat where "DM_INDEX_LOCREQ = 7"
definition DM_INDEX_DMETA :: nat where "DM_INDEX_DMETA = 8"
definition DM_INDEX_PHEADER :: nat where "DM_INDEX_PHEADER = 9"
definition DM_INDEX_DNTAG :: nat where "DM_INDEX_DNTAG = 10"
definition DM_INDEX_PALTAG :: nat where "DM_INDEX_PALTAG = 11"

lemmas dm_index_defs = DM_INDEX_DLN_def DM_INDEX_DLIST_def DM_INDEX_DIO_def DM_INDEX_LBLIST_def
  DM_INDEX_LBMD_def DM_INDEX_IOREQ_def DM_INDEX_DNLOC_def DM_INDEX_LOCREQ_def DM_INDEX_DMETA_def
  DM_INDEX_PHEADER_def DM_INDEX_DNTAG_def DM_INDEX_PALTAG_def

record mpst =
  mp_tab :: "DMP_Manager list"
  mp_mem :: kmem

section \<open>One pool\<close>

text \<open>
  \<open>ans\<close> says which of the three requests the kernel grants: the structure, the cache
  and the pool.  The result of \<open>kzalloc\<close> is not tested, so a refused structure is a
  write through NULL once the cache exists.
\<close>

definition Init_Pool :: "nat \<Rightarrow> bool \<times> bool \<times> bool \<Rightarrow> string \<Rightarrow> nat \<Rightarrow> kmem \<Rightarrow> (nat option \<times> kmem) option" where
  "Init_Pool mn ans cache_name sz k =
    (case ans of (ok_dmp, ok_cache, ok_pool) \<Rightarrow>
     let (dmp, k) = kzalloc_dmp ok_dmp k;
         (cp, k) = kmem_cache_create ok_cache cache_name sz k
     in case cp of
       None \<Rightarrow> Some (None, kfree_dmp dmp k)
     | Some c \<Rightarrow>
        (case dmp of
           None \<Rightarrow> None
         | Some d \<Rightarrow> do {
             let k = k\<lparr>k_dmps := (k_dmps k)(d \<mapsto> \<lparr>cachep = Some c, poolp = None\<rparr>)\<rparr>;
             (pp, k) \<leftarrow> mempool_create_slab_pool ok_pool mn c k;
             case pp of
               None \<Rightarrow> do { (_, k) \<leftarrow> kmem_cache_destroy c k; Some (None, kfree_dmp dmp k) }
             | Some p \<Rightarrow>
                 Some (Some d, k\<lparr>k_dmps := (k_dmps k)(d \<mapsto> \<lparr>cachep = Some c, poolp = Some p\<rparr>)\<rparr>) }))"

definition Release_Pool :: "nat \<Rightarrow> kmem \<Rightarrow> kmem option" where
  "Release_Pool d k =
    (case k_dmps k d of
       None \<Rightarrow> None
     | Some dm \<Rightarrow> do {
         k \<leftarrow> (case poolp dm of None \<Rightarrow> Some k | Some p \<Rightarrow> mempool_destroy p k);
         k \<leftarrow> (case cachep dm of None \<Rightarrow> Some k
               | Some c \<Rightarrow> do { (_, k) \<leftarrow> kmem_cache_destroy c k; Some k });
         Some (kfree_dmp (Some d) k) })"

section \<open>All pools\<close>

text \<open>The loops run over the entries of the table; reading past its end is a fault.\<close>

fun release_from :: "DMP_Manager list \<Rightarrow> kmem \<Rightarrow> (DMP_Manager list \<times> kmem) option" where
  "release_from [] k = None"
| "release_from (e # es) k =
    (case dmpp e of
       None \<Rightarrow> Some (e # es, k)
     | Some d \<Rightarrow> do {
         k \<leftarrow> Release_Pool d k;
         (es, k) \<leftarrow> release_from es k;
         Some (e\<lparr>dmpp := None\<rparr> # es, k) })"

definition Release_DMP_Manager :: "mpst \<Rightarrow> mpst option" where
  "Release_DMP_Manager s = do {
     (es, k) \<leftarrow> release_from (mp_tab s) (mp_mem s);
     Some \<lparr>mp_tab = es, mp_mem = k\<rparr> }"

fun init_from :: "nat \<Rightarrow> (nat \<Rightarrow> bool \<times> bool \<times> bool) \<Rightarrow> nat \<Rightarrow> DMP_Manager list \<Rightarrow> kmem
    \<Rightarrow> (int \<times> DMP_Manager list \<times> kmem) option" where
  "init_from mn ans i [] k = None"
| "init_from mn ans i (e # es) k =
    (case dmp_name e of
       None \<Rightarrow> Some (DMS_OK, e # es, k)
     | Some nm \<Rightarrow> do {
         (dmp, k) \<leftarrow> Init_Pool mn (ans i) nm (obj_size e) k;
         case dmp of
           Some d \<Rightarrow> do {
             (r, es, k) \<leftarrow> init_from mn ans (Suc i) es k;
             Some (r, e\<lparr>dmpp := Some d\<rparr> # es, k) }
         | None \<Rightarrow> Some (- ENOMEM, e # es, k) })"

definition Init_DMP_Manager :: "nat \<Rightarrow> (nat \<Rightarrow> bool \<times> bool \<times> bool) \<Rightarrow> mpst \<Rightarrow> (int \<times> mpst) option" where
  "Init_DMP_Manager mn ans s = do {
     (r, es, k) \<leftarrow> init_from mn ans 0 (mp_tab s) (mp_mem s);
     let s = \<lparr>mp_tab = es, mp_mem = k\<rparr>;
     if r = DMS_OK then Some (r, s)
     else do { s \<leftarrow> Release_DMP_Manager s; Some (r, s) } }"

section \<open>Allocation\<close>

definition GET_MEMPOOL :: "nat \<Rightarrow> mpst \<Rightarrow> nat option" where
  "GET_MEMPOOL i s =
    (if i < length (mp_tab s) then do {
       d \<leftarrow> dmpp (mp_tab s ! i);
       dm \<leftarrow> k_dmps (mp_mem s) d;
       poolp dm }
     else None)"

definition malloc_from :: "nat \<Rightarrow> mpst \<Rightarrow> (nat \<times> mpst) option" where
  "malloc_from i s = do {
     p \<leftarrow> GET_MEMPOOL i s;
     (a, k) \<leftarrow> mempool_alloc p (mp_mem s);
     Some (a, s\<lparr>mp_mem := k\<rparr>) }"

definition free_to :: "nat \<Rightarrow> nat \<Rightarrow> mpst \<Rightarrow> mpst option" where
  "free_to i a s = do {
     p \<leftarrow> GET_MEMPOOL i s;
     k \<leftarrow> mempool_free a p (mp_mem s);
     Some (s\<lparr>mp_mem := k\<rparr>) }"

definition Malloc_DLN :: "mpst \<Rightarrow> (nat \<times> mpst) option" where "Malloc_DLN = malloc_from DM_INDEX_DLN"
definition Free_DLN :: "nat \<Rightarrow> mpst \<Rightarrow> mpst option" where "Free_DLN = free_to DM_INDEX_DLN"
definition Malloc_DList :: "mpst \<Rightarrow> (nat \<times> mpst) option" where "Malloc_DList = malloc_from DM_INDEX_DLIST"
definition Free_DList :: "nat \<Rightarrow> mpst \<Rightarrow> mpst option" where "Free_DList = free_to DM_INDEX_DLIST"
definition Malloc_DIO :: "mpst \<Rightarrow> (nat \<times> mpst) option" where "Malloc_DIO = malloc_from DM_INDEX_DIO"
definition Free_DIO :: "nat \<Rightarrow> mpst \<Rightarrow> mpst option" where "Free_DIO = free_to DM_INDEX_DIO"
definition Malloc_LBMD :: "mpst \<Rightarrow> (nat \<times> mpst) option" where "Malloc_LBMD = malloc_from DM_INDEX_LBMD"
definition Free_LBMD :: "nat \<Rightarrow> mpst \<Rightarrow> mpst option" where "Free_LBMD = free_to DM_INDEX_LBMD"
definition Malloc_LB_List :: "mpst \<Rightarrow> (nat \<times> mpst) option" where "Malloc_LB_List = malloc_from DM_INDEX_LBLIST"
definition Free_LB_List :: "nat \<Rightarrow> mpst \<Rightarrow> mpst option" where "Free_LB_List = free_to DM_INDEX_LBLIST"
definition Malloc_IO_Request :: "mpst \<Rightarrow> (nat \<times> mpst) option" where "Malloc_IO_Request = malloc_from DM_INDEX_IOREQ"
definition Free_IO_Request :: "nat \<Rightarrow> mpst \<Rightarrow> mpst option" where "Free_IO_Request = free_to DM_INDEX_IOREQ"
definition Malloc_Datanode_Location :: "mpst \<Rightarrow> (nat \<times> mpst) option" where "Malloc_Datanode_Location = malloc_from DM_INDEX_DNLOC"
definition Free_Datanode_Location :: "nat \<Rightarrow> mpst \<Rightarrow> mpst option" where "Free_Datanode_Location = free_to DM_INDEX_DNLOC"
definition Malloc_Located_Request :: "mpst \<Rightarrow> (nat \<times> mpst) option" where "Malloc_Located_Request = malloc_from DM_INDEX_LOCREQ"
definition Free_Located_Request :: "nat \<Rightarrow> mpst \<Rightarrow> mpst option" where "Free_Located_Request = free_to DM_INDEX_LOCREQ"
definition Malloc_DMS_Metadata :: "mpst \<Rightarrow> (nat \<times> mpst) option" where "Malloc_DMS_Metadata = malloc_from DM_INDEX_DMETA"
definition Free_DMS_Metadata :: "nat \<Rightarrow> mpst \<Rightarrow> mpst option" where "Free_DMS_Metadata = free_to DM_INDEX_DMETA"
definition Malloc_Protocol_Header :: "mpst \<Rightarrow> (nat \<times> mpst) option" where "Malloc_Protocol_Header = malloc_from DM_INDEX_PHEADER"
definition Free_Protocol_Header :: "nat \<Rightarrow> mpst \<Rightarrow> mpst option" where "Free_Protocol_Header = free_to DM_INDEX_PHEADER"
definition Malloc_DMS_Datanode_Tag :: "mpst \<Rightarrow> (nat \<times> mpst) option" where "Malloc_DMS_Datanode_Tag = malloc_from DM_INDEX_DNTAG"
definition Free_DMS_Datanode_Tag :: "nat \<Rightarrow> mpst \<Rightarrow> mpst option" where "Free_DMS_Datanode_Tag = free_to DM_INDEX_DNTAG"
definition Malloc_DMS_Payload_Tag :: "mpst \<Rightarrow> (nat \<times> mpst) option" where "Malloc_DMS_Payload_Tag = malloc_from DM_INDEX_PALTAG"
definition Free_DMS_Payload_Tag :: "nat \<Rightarrow> mpst \<Rightarrow> mpst option" where "Free_DMS_Payload_Tag = free_to DM_INDEX_PALTAG"

lemmas alloc_defs = Malloc_DLN_def Malloc_DList_def Malloc_DIO_def Malloc_LBMD_def Malloc_LB_List_def
  Malloc_IO_Request_def Malloc_Datanode_Location_def Malloc_Located_Request_def Malloc_DMS_Metadata_def
  Malloc_Protocol_Header_def Malloc_DMS_Datanode_Tag_def Malloc_DMS_Payload_Tag_def
lemmas free_defs = Free_DLN_def Free_DList_def Free_DIO_def Free_LBMD_def Free_LB_List_def
  Free_IO_Request_def Free_Datanode_Location_def Free_Located_Request_def Free_DMS_Metadata_def
  Free_Protocol_Header_def Free_DMS_Datanode_Tag_def Free_DMS_Payload_Tag_def

text \<open>Memory outside the pools: zeroed when the kernel grants it.\<close>

definition DMS_Malloc_Generic :: "bool \<Rightarrow> nat \<Rightarrow> u8 list option" where
  "DMS_Malloc_Generic granted sz = (if granted then Some (replicate sz 0) else None)"

definition DMS_Malloc :: "bool \<Rightarrow> nat \<Rightarrow> u8 list option" where "DMS_Malloc = DMS_Malloc_Generic"
definition DMS_Malloc_NOWAIT :: "bool \<Rightarrow> nat \<Rightarrow> u8 list option" where "DMS_Malloc_NOWAIT = DMS_Malloc_Generic"
definition DMS_Volume_Malloc :: "bool \<Rightarrow> nat \<Rightarrow> u8 list option" where "DMS_Volume_Malloc = DMS_Malloc_NOWAIT"

section \<open>Which function serves which object\<close>

fun malloc_of :: "dmp_obj \<Rightarrow> mpst \<Rightarrow> (nat \<times> mpst) option" where
  "malloc_of DLN = Malloc_DLN"
| "malloc_of DLIST = Malloc_DList"
| "malloc_of DIO = Malloc_DIO"
| "malloc_of LBLIST = Malloc_LB_List"
| "malloc_of LBMD = Malloc_LBMD"
| "malloc_of IOREQ = Malloc_IO_Request"
| "malloc_of DNLOC = Malloc_Datanode_Location"
| "malloc_of LOCREQ = Malloc_Located_Request"
| "malloc_of DMETA = Malloc_DMS_Metadata"
| "malloc_of PHEADER = Malloc_Protocol_Header"
| "malloc_of DNTAG = Malloc_DMS_Datanode_Tag"
| "malloc_of PALTAG = Malloc_DMS_Payload_Tag"

fun free_of :: "dmp_obj \<Rightarrow> nat \<Rightarrow> mpst \<Rightarrow> mpst option" where
  "free_of DLN = Free_DLN"
| "free_of DLIST = Free_DList"
| "free_of DIO = Free_DIO"
| "free_of LBLIST = Free_LB_List"
| "free_of LBMD = Free_LBMD"
| "free_of IOREQ = Free_IO_Request"
| "free_of DNLOC = Free_Datanode_Location"
| "free_of LOCREQ = Free_Located_Request"
| "free_of DMETA = Free_DMS_Metadata"
| "free_of PHEADER = Free_Protocol_Header"
| "free_of DNTAG = Free_DMS_Datanode_Tag"
| "free_of PALTAG = Free_DMS_Payload_Tag"

section \<open>What a table owns\<close>

text \<open>Two memories are the same when they hold the same caches, pools and structures.\<close>

definition same_mem :: "kmem \<Rightarrow> kmem \<Rightarrow> bool" where
  "same_mem a b \<longleftrightarrow> k_caches a = k_caches b \<and> k_pools a = k_pools b \<and> k_dmps a = k_dmps b"

definition fresh :: "kmem \<Rightarrow> bool" where
  "fresh k \<longleftrightarrow> (\<forall>x \<ge> k_next k. k_caches k x = None \<and> k_pools k x = None \<and> k_dmps k x = None)"

text \<open>One pool with its cache, and what remains of the memory without it.\<close>

definition holds :: "nat \<Rightarrow> string \<Rightarrow> nat \<Rightarrow> nat \<Rightarrow> nat \<Rightarrow> nat \<Rightarrow> nat list \<Rightarrow> kmem \<Rightarrow> bool" where
  "holds mn nm sz d c p l k \<longleftrightarrow>
    k_dmps k d = Some \<lparr>cachep = Some c, poolp = Some p\<rparr> \<and>
    k_caches k c = Some \<lparr>kc_name = nm, kc_size = sz, kc_objs = mn + length l\<rparr> \<and>
    k_pools k p = Some \<lparr>kp_cache = c, kp_min = mn, kp_out = l\<rparr>"

definition drop_pool :: "nat \<Rightarrow> nat \<Rightarrow> nat \<Rightarrow> kmem \<Rightarrow> kmem" where
  "drop_pool d c p k = k\<lparr>k_caches := (k_caches k)(c := None), k_pools := (k_pools k)(p := None),
     k_dmps := (k_dmps k)(d := None)\<rparr>"

definition set_pool :: "nat \<Rightarrow> string \<Rightarrow> nat \<Rightarrow> nat \<Rightarrow> nat \<Rightarrow> nat list \<Rightarrow> kmem \<Rightarrow> kmem" where
  "set_pool mn nm sz c p l k =
     k\<lparr>k_caches := (k_caches k)(c \<mapsto> \<lparr>kc_name = nm, kc_size = sz, kc_objs = mn + length l\<rparr>),
       k_pools := (k_pools k)(p \<mapsto> \<lparr>kp_cache = c, kp_min = mn, kp_out = l\<rparr>)\<rparr>"

text \<open>
  \<open>own mn es os base k\<close>: the filled entries of the table are pools of \<open>k\<close>, the pool of
  the \<open>i\<close>-th entry has handed out \<open>os ! i\<close>, and without them \<open>k\<close> is \<open>base\<close>.
\<close>

fun own :: "nat \<Rightarrow> DMP_Manager list \<Rightarrow> nat list list \<Rightarrow> kmem \<Rightarrow> kmem \<Rightarrow> bool" where
  "own mn [] os base k \<longleftrightarrow> False"
| "own mn (e # es) os base k \<longleftrightarrow>
    (case os of
       [] \<Rightarrow> (\<forall>x \<in> set (e # es). dmpp x = None) \<and> same_mem base k
     | l # ls \<Rightarrow> \<exists>d c p nm. dmpp e = Some d \<and> dmp_name e = Some nm \<and>
                 holds mn nm (obj_size e) d c p l k \<and> own mn es ls base (drop_pool d c p k))"

lemma same_mem_refl [simp]: "same_mem k k"
  by (simp add: same_mem_def)

lemma same_mem_sym: "same_mem a b \<Longrightarrow> same_mem b a"
  by (simp add: same_mem_def)

lemma same_mem_trans: "same_mem a b \<Longrightarrow> same_mem b c \<Longrightarrow> same_mem a c"
  by (simp add: same_mem_def)

lemma same_mem_next [simp]: "same_mem a (b\<lparr>k_next := n\<rparr>) = same_mem a b" "same_mem (a\<lparr>k_next := n\<rparr>) b = same_mem a b"
  by (simp_all add: same_mem_def)

lemma same_mem_drop: "same_mem a b \<Longrightarrow> same_mem (drop_pool d c p a) (drop_pool d c p b)"
  by (simp add: same_mem_def drop_pool_def)

lemma holds_same: "same_mem a b \<Longrightarrow> holds mn nm sz d c p l a = holds mn nm sz d c p l b"
  by (simp add: same_mem_def holds_def)

lemma own_same: "own mn es os base k \<Longrightarrow> same_mem base base' \<Longrightarrow> same_mem k k' \<Longrightarrow> own mn es os base' k'"
proof (induction es arbitrary: os k k')
  case (Cons e es)
  show ?case
  proof (cases os)
    case Nil
    then show ?thesis using Cons.prems by (auto intro: same_mem_trans same_mem_sym)
  next
    case (Cons l ls)
    then obtain d c p nm where "dmpp e = Some d" "dmp_name e = Some nm" "holds mn nm (obj_size e) d c p l k"
      "own mn es ls base (drop_pool d c p k)"
      using Cons.prems(1) by auto
    moreover have "own mn es ls base' (drop_pool d c p k')"
      using Cons.IH [OF calculation(4)] Cons.prems(2,3) same_mem_drop by blast
    moreover have "holds mn nm (obj_size e) d c p l k'" using calculation(3) Cons.prems(3) holds_same by blast
    ultimately show ?thesis using Cons by auto
  qed
qed simp

text \<open>The owned pools are disjoint from the base.\<close>

lemma own_base:
  "own mn es os base k \<Longrightarrow> k_dmps base \<subseteq>\<^sub>m k_dmps k \<and> k_caches base \<subseteq>\<^sub>m k_caches k \<and> k_pools base \<subseteq>\<^sub>m k_pools k"
proof (induction es arbitrary: os k)
  case (Cons e es)
  show ?case
  proof (cases os)
    case Nil
    then show ?thesis using Cons.prems by (simp add: same_mem_def)
  next
    case (Cons l ls)
    then obtain d c p where "own mn es ls base (drop_pool d c p k)" using Cons.prems by auto
      from Cons.IH [OF this] show ?thesis
      by (simp add: drop_pool_def del: fun_upd_apply) (blast intro: map_le_trans [OF _ upd_None_map_le])
  qed
qed simp

lemma upd_None_twist: "m(x := None, y := None) = m(y := None, x := None)"
  by auto

lemma drop_pool_commute: "drop_pool d c p (drop_pool d' c' p' k) = drop_pool d' c' p' (drop_pool d c p k)"
  by (simp add: drop_pool_def upd_None_twist [of _ c' c] upd_None_twist [of _ p' p] upd_None_twist [of _ d' d]
      del: fun_upd_apply)

lemma holds_drop:
  "d \<noteq> d' \<Longrightarrow> c \<noteq> c' \<Longrightarrow> p \<noteq> p' \<Longrightarrow> holds mn nm sz d c p l (drop_pool d' c' p' k) = holds mn nm sz d c p l k"
  by (simp add: holds_def drop_pool_def)

lemma own_frame:
  "own mn es os base k \<Longrightarrow> d \<in> dom (k_dmps base) \<Longrightarrow> c \<in> dom (k_caches base) \<Longrightarrow> p \<in> dom (k_pools base) \<Longrightarrow>
   own mn es os (drop_pool d c p base) (drop_pool d c p k)"
proof (induction es arbitrary: os k)
  case (Cons e es)
  show ?case
  proof (cases os)
    case Nil
    then show ?thesis using Cons.prems by (auto intro: same_mem_drop)
  next
    case (Cons l ls)
    then obtain d' c' p' nm where o: "dmpp e = Some d'" "dmp_name e = Some nm"
      "holds mn nm (obj_size e) d' c' p' l k" "own mn es ls base (drop_pool d' c' p' k)"
      using Cons.prems(1) by auto
    have ne: "d \<noteq> d'" "c \<noteq> c'" "p \<noteq> p'"
      using own_base [OF o(4)] Cons.prems(2-4) by (auto simp: drop_pool_def map_le_def dom_def)
    have "own mn es ls (drop_pool d c p base) (drop_pool d' c' p' (drop_pool d c p k))"
      using Cons.IH [OF o(4) Cons.prems(2-4)] by (simp add: drop_pool_commute)
    moreover have "holds mn nm (obj_size e) d' c' p' l (drop_pool d c p k)"
      using o(3) ne by (auto simp: holds_drop)
    ultimately show ?thesis using o(1,2) Cons by auto
  qed
qed simp

section \<open>One pool\<close>

lemma freshD: "fresh k \<Longrightarrow> k_caches k (k_next k) = None" "fresh k \<Longrightarrow> k_pools k (k_next k) = None"
    "fresh k \<Longrightarrow> k_dmps k (k_next k) = None"
  by (simp_all add: fresh_def)

text \<open>
  Setting up a pool either adds one pool of fresh memory, with its cache and its
  structure, or leaves the memory as it was.
\<close>

definition new_pool :: "nat \<Rightarrow> string \<Rightarrow> nat \<Rightarrow> kmem \<Rightarrow> kmem" where
  "new_pool mn nm sz k =
    (let d = k_next k; c = Suc d; p = Suc c in
     k\<lparr>k_caches := (k_caches k)(c \<mapsto> \<lparr>kc_name = nm, kc_size = sz, kc_objs = mn\<rparr>),
       k_pools := (k_pools k)(p \<mapsto> \<lparr>kp_cache = c, kp_min = mn, kp_out = []\<rparr>),
       k_dmps := (k_dmps k)(d \<mapsto> \<lparr>cachep = Some c, poolp = Some p\<rparr>), k_next := Suc p\<rparr>)"

lemma Init_Pool_granted: "Init_Pool mn (True, True, True) nm sz k = Some (Some (k_next k), new_pool mn nm sz k)"
  by (simp add: Init_Pool_def kernel_mem_defs new_pool_def Let_def)

lemma Init_Pool_refused:
  assumes "fresh k" and "\<not> (g2 \<and> g3)"
  obtains k' where "Init_Pool mn (True, g2, g3) nm sz k = Some (None, k')" and "same_mem k' k" and "fresh k'"
proof -
  have "\<exists>k'. Init_Pool mn (True, g2, g3) nm sz k = Some (None, k') \<and> same_mem k' k \<and> fresh k'"
    using assms
    by (cases g2; cases g3)
      (auto simp: Init_Pool_def kernel_mem_defs same_mem_def fresh_def Let_def intro!: ext)
  with that show ?thesis by blast
qed

text \<open>When the kernel refuses the structure, \<open>dmp\<close> is NULL and it is written to.\<close>

lemma Init_Pool_null: "Init_Pool mn (False, g2, g3) nm sz k = (if g2 then None else Some (None, k))"
  by (simp add: Init_Pool_def kernel_mem_defs Let_def)

lemma new_pool_props:
  assumes "fresh k"
  shows "holds mn nm sz (k_next k) (Suc (k_next k)) (Suc (Suc (k_next k))) [] (new_pool mn nm sz k)"
    and "same_mem (drop_pool (k_next k) (Suc (k_next k)) (Suc (Suc (k_next k))) (new_pool mn nm sz k)) k"
    and "fresh (new_pool mn nm sz k)"
  using assms by (auto simp: holds_def drop_pool_def same_mem_def new_pool_def fresh_def Let_def intro!: ext)

text \<open>Releasing a pool takes its cache with it, because the pool goes first.\<close>

lemma Release_Pool_idle:
  "holds mn nm sz d c p [] k \<Longrightarrow> \<exists>k'. Release_Pool d k = Some k' \<and> same_mem k' (drop_pool d c p k)"
  by (auto simp: Release_Pool_def kernel_mem_defs holds_def same_mem_def drop_pool_def)

lemma Release_Pool_busy: "holds mn nm sz d c p l k \<Longrightarrow> l \<noteq> [] \<Longrightarrow> Release_Pool d k = None"
  by (simp add: Release_Pool_def kernel_mem_defs holds_def)

section \<open>The table\<close>

definition clear :: "DMP_Manager list \<Rightarrow> DMP_Manager list" where
  "clear es = map (\<lambda>e. e\<lparr>dmpp := None\<rparr>) es"

lemma clear_id: "\<forall>x \<in> set es. dmpp x = None \<Longrightarrow> clear es = es"
  unfolding clear_def by (rule map_idI) simp

lemma clear_idem [simp]: "clear (clear es) = clear es"
  by (simp add: clear_def)

lemma clear_Cons [simp]: "clear (e # es) = e\<lparr>dmpp := None\<rparr> # clear es"
  by (simp add: clear_def)

lemma release_from_own:
  "own mn es os base k \<Longrightarrow> \<forall>l \<in> set os. l = [] \<Longrightarrow>
   \<exists>k'. release_from es k = Some (clear es, k') \<and> same_mem k' base"
proof (induction es arbitrary: os k)
  case (Cons e es)
  show ?case
  proof (cases os)
    case Nil
    then show ?thesis using Cons.prems clear_id [of "e # es"] by (auto intro: same_mem_sym)
  next
    case (Cons l ls)
    then obtain d c p nm where o: "dmpp e = Some d" "holds mn nm (obj_size e) d c p [] k"
      "own mn es ls base (drop_pool d c p k)"
      using Cons.prems by auto
    obtain k1 where k1: "Release_Pool d k = Some k1" "same_mem k1 (drop_pool d c p k)"
      using Release_Pool_idle [OF o(2)] by blast
    have "own mn es ls base k1" by (rule own_same [OF o(3) same_mem_refl same_mem_sym [OF k1(2)]])
    from Cons.IH [OF this] Cons.prems(2) Cons show ?thesis using o(1) k1(1) by auto
  qed
qed simp

lemma release_from_busy:
  "own mn es os base k \<Longrightarrow> l \<in> set os \<Longrightarrow> l \<noteq> [] \<Longrightarrow> release_from es k = None"
proof (induction es arbitrary: os k)
  case (Cons e es)
  obtain l0 ls where os: "os = l0 # ls" using Cons.prems(2) by (cases os) auto
  obtain d c p nm where o: "dmpp e = Some d" "holds mn nm (obj_size e) d c p l0 k"
    "own mn es ls base (drop_pool d c p k)"
    using Cons.prems(1) os by auto
  show ?case
  proof (cases "l0 = []")
    case True
    obtain k1 where k1: "Release_Pool d k = Some k1" "same_mem k1 (drop_pool d c p k)"
      using Release_Pool_idle o(2) True by blast
    have "own mn es ls base k1" by (rule own_same [OF o(3) same_mem_refl same_mem_sym [OF k1(2)]])
    from Cons.IH [OF this] Cons.prems(2,3) os True show ?thesis using o(1) k1(1) by auto
  next
    case False
    with Release_Pool_busy [OF o(2)] o(1) show ?thesis by simp
  qed
qed simp

text \<open>The granted prefix of the requests, as the loop sees it.\<close>

definition granted :: "(nat \<Rightarrow> bool \<times> bool \<times> bool) \<Rightarrow> nat \<Rightarrow> bool" where
  "granted ans i \<longleftrightarrow> (case ans i of (g1, g2, g3) \<Rightarrow> g1 \<and> g2 \<and> g3)"

definition named :: "DMP_Manager list \<Rightarrow> nat" where
  "named es = length (takeWhile (\<lambda>e. dmp_name e \<noteq> None) es)"

lemma named_Cons [simp]: "named (e # es) = (if dmp_name e = None then 0 else Suc (named es))"
  by (auto simp: named_def)

lemma init_from_own:
  assumes "fresh k" and "\<forall>x \<in> set es. dmpp x = None" and "\<exists>x \<in> set es. dmp_name x = None"
    and "\<forall>j. fst (ans j)"
  shows "\<exists>n es' k'. init_from mn ans i es k =
      Some (if \<forall>j < named es. granted ans (i + j) then DMS_OK else - ENOMEM, es', k') \<and>
      own mn es' (replicate n []) k k' \<and> fresh k' \<and> clear es' = es \<and>
      ((\<forall>j < named es. granted ans (i + j)) \<longrightarrow> n = named es)"
  using assms(1-3)
proof (induction es arbitrary: i k)
  case (Cons e es)
  show ?case
  proof (cases "dmp_name e")
    case None
    then show ?thesis using Cons.prems clear_id [of "e # es"]
      by (intro exI [of _ 0] exI [of _ "e # es"] exI [of _ k]) auto
  next
    case (Some nm)
    have split: "(\<forall>j < named (e # es). granted ans (i + j)) \<longleftrightarrow>
        granted ans i \<and> (\<forall>j < named es. granted ans (Suc i + j))"
      using Some by (auto simp: less_Suc_eq_0_disj)
    obtain g2 g3 where ans: "ans i = (True, g2, g3)" using assms(4) by (metis prod.collapse)
    show ?thesis
    proof (cases "g2 \<and> g3")
      case True
      let ?k = "new_pool mn nm (obj_size e) k"
      note np = new_pool_props [OF Cons.prems(1), of mn nm "obj_size e"]
      obtain n es' k' where r: "init_from mn ans (Suc i) es ?k =
          Some (if \<forall>j < named es. granted ans (Suc i + j) then DMS_OK else - ENOMEM, es', k')"
        "own mn es' (replicate n []) ?k k'" "fresh k'" "clear es' = es"
        "(\<forall>j < named es. granted ans (Suc i + j)) \<longrightarrow> n = named es"
        using Cons.IH [OF np(3), of "Suc i"] Cons.prems(2,3) Some by auto
      let ?d = "k_next k" let ?c = "Suc ?d" let ?p = "Suc ?c"
      have in_base: "?d \<in> dom (k_dmps ?k)" "?c \<in> dom (k_caches ?k)" "?p \<in> dom (k_pools ?k)"
        using np(1) by (auto simp: holds_def)
      have "own mn es' (replicate n []) k (drop_pool ?d ?c ?p k')"
        using own_frame [OF r(2) in_base] np(2) by (rule own_same) simp
      moreover have "holds mn nm (obj_size e) ?d ?c ?p [] k'"
        using np(1) own_base [OF r(2)] in_base by (auto simp: holds_def map_le_def)
      ultimately have "own mn (e\<lparr>dmpp := Some ?d\<rparr> # es') (replicate (Suc n) []) k k'"
        using Some by auto
      moreover have "init_from mn ans i (e # es) k =
          Some (if \<forall>j < named (e # es). granted ans (i + j) then DMS_OK else - ENOMEM,
                e\<lparr>dmpp := Some ?d\<rparr> # es', k')"
        using True ans Some r(1) Init_Pool_granted [of mn nm "obj_size e" k] split
        by (simp add: granted_def)
      moreover have "(\<forall>j < named (e # es). granted ans (i + j)) \<longrightarrow> Suc n = named (e # es)"
      proof
        assume "\<forall>j < named (e # es). granted ans (i + j)"
        with split have "\<forall>j < named es. granted ans (Suc i + j)" by blast
        with r(5) Some show "Suc n = named (e # es)" by simp
      qed
      moreover have "clear (e\<lparr>dmpp := Some ?d\<rparr> # es') = e # es" using r(4) Cons.prems(2) by simp
      ultimately show ?thesis using r(3)
        by (intro exI [of _ "Suc n"] exI [of _ "e\<lparr>dmpp := Some ?d\<rparr> # es'"] exI [of _ k']) (intro conjI)
    next
      case False
      obtain k' where k': "Init_Pool mn (True, g2, g3) nm (obj_size e) k = Some (None, k')" "same_mem k' k" "fresh k'"
        using Init_Pool_refused [OF Cons.prems(1) False] by metis
      then show ?thesis
        using False ans Some Cons.prems(2) clear_id [of "e # es"]
        by (intro exI [of _ 0] exI [of _ "e # es"] exI [of _ k'])
          (auto simp: split granted_def intro: same_mem_sym)
    qed
  qed
qed simp

section \<open>Allocation\<close>

lemma set_drop:
  "c \<noteq> c' \<Longrightarrow> p \<noteq> p' \<Longrightarrow> drop_pool d c p (set_pool mn nm sz c' p' l k) = set_pool mn nm sz c' p' l (drop_pool d c p k)"
  by (auto simp: drop_pool_def set_pool_def fun_upd_twist)

lemma drop_set: "same_mem (drop_pool d c p k) (drop_pool d c p (set_pool mn nm sz c p l k))"
  by (simp add: drop_pool_def set_pool_def same_mem_def)

lemma holds_set: "holds mn nm sz d c p l k \<Longrightarrow> holds mn nm sz d c p l' (set_pool mn nm sz c p l' k)"
  by (simp add: holds_def set_pool_def)

lemma holds_set_other:
  "c \<noteq> c' \<Longrightarrow> p \<noteq> p' \<Longrightarrow> holds mn nm sz d c p l k \<Longrightarrow> holds mn nm sz d c p l (set_pool mn nm' sz' c' p' l' k)"
  by (simp add: holds_def set_pool_def)

lemma holds_of_drop:
  "holds mn nm sz d c p l (drop_pool d' c' p' k) \<Longrightarrow> d \<noteq> d' \<and> c \<noteq> c' \<and> p \<noteq> p' \<and> holds mn nm sz d c p l k"
  by (auto simp: holds_def drop_pool_def split: if_splits)

text \<open>The pool of an entry can be replaced by one that has handed out something else.\<close>

lemma own_at:
  "own mn es os base k \<Longrightarrow> i < length os \<Longrightarrow>
   \<exists>d c p nm. i < length es \<and> dmpp (es ! i) = Some d \<and> holds mn nm (obj_size (es ! i)) d c p (os ! i) k \<and>
     (\<forall>l'. own mn es (os[i := l']) base (set_pool mn nm (obj_size (es ! i)) c p l' k))"
proof (induction es arbitrary: os k i)
  case (Cons e es)
  obtain l0 ls where os: "os = l0 # ls" using Cons.prems(2) by (cases os) auto
  obtain d0 c0 p0 nm0 where o: "dmpp e = Some d0" "dmp_name e = Some nm0"
    "holds mn nm0 (obj_size e) d0 c0 p0 l0 k" "own mn es ls base (drop_pool d0 c0 p0 k)"
    using Cons.prems(1) os by auto
  show ?case
  proof (cases i)
    case 0
    have "own mn es ls base (drop_pool d0 c0 p0 (set_pool mn nm0 (obj_size e) c0 p0 l' k))" for l'
      by (rule own_same [OF o(4) same_mem_refl drop_set])
    then have "own mn (e # es) (l' # ls) base (set_pool mn nm0 (obj_size e) c0 p0 l' k)" for l'
      using o(1,2) holds_set [OF o(3)] unfolding own.simps list.case by blast
    with 0 os o(1,3) show ?thesis
      by (intro exI [of _ d0] exI [of _ c0] exI [of _ p0] exI [of _ nm0]) (simp del: own.simps)
  next
    case (Suc j)
    obtain d c p nm where r: "j < length es" "dmpp (es ! j) = Some d"
      "holds mn nm (obj_size (es ! j)) d c p (ls ! j) (drop_pool d0 c0 p0 k)"
      "\<forall>l'. own mn es (ls[j := l']) base (set_pool mn nm (obj_size (es ! j)) c p l' (drop_pool d0 c0 p0 k))"
      using Cons.IH [OF o(4), of j] Cons.prems(2) Suc os by auto
    note ne = holds_of_drop [OF r(3)]
    have "own mn (e # es) (l0 # ls[j := l']) base (set_pool mn nm (obj_size (es ! j)) c p l' k)" for l'
    proof -
      let ?k = "set_pool mn nm (obj_size (es ! j)) c p l' k"
      have "holds mn nm0 (obj_size e) d0 c0 p0 l0 ?k" using o(3) ne by (auto intro: holds_set_other)
      moreover have "own mn es (ls[j := l']) base (drop_pool d0 c0 p0 ?k)"
        using r(4) ne by (simp add: set_drop)
      ultimately show ?thesis using o(1,2) by auto
    qed
    then show ?thesis using Suc os r(1,2) ne
      by (intro exI [of _ d] exI [of _ c] exI [of _ p] exI [of _ nm]) auto
  qed
qed simp

lemma mempool_alloc_holds:
  "holds mn nm sz d c p l k \<Longrightarrow>
   mempool_alloc p k = Some (k_next k, (set_pool mn nm sz c p (k_next k # l) k)\<lparr>k_next := Suc (k_next k)\<rparr>)"
  by (simp add: mempool_alloc_def take_objs_def holds_def set_pool_def)

lemma mempool_free_holds:
  "holds mn nm sz d c p l k \<Longrightarrow>
   mempool_free a p k = (if a \<in> set l then Some (set_pool mn nm sz c p (remove1 a l) k) else None)"
proof (cases "a \<in> set l")
  case True
  assume h: "holds mn nm sz d c p l k"
  have len: "length (remove1 a l) = length l - 1" using True by (simp add: length_remove1)
  have "mn + length l - 1 = mn + length (remove1 a l)"
    using length_pos_if_in_set [OF True] len by linarith
  with True h show ?thesis by (simp add: mempool_free_def give_objs_def holds_def set_pool_def)
qed (simp add: mempool_free_def holds_def)

lemma own_next: "own mn es os base (k\<lparr>k_next := n\<rparr>) = own mn es os base k"
  by (auto intro: own_same)

section \<open>The contract of the pools\<close>

definition all_objs :: "dmp_obj list" where
  "all_objs = [DLN, DLIST, DIO, LBLIST, LBMD, IOREQ, DNLOC, LOCREQ, DMETA, PHEADER, DNTAG, PALTAG]"

text \<open>
  \<open>pools_ok mn sizeof base outs s\<close>: the table is complete, the pool of kind \<open>t\<close> has handed
  out \<open>outs t\<close>, no object was handed out twice, and the rest of the memory is \<open>base\<close>.
\<close>

definition pools_ok :: "nat \<Rightarrow> (dmp_obj \<Rightarrow> nat) \<Rightarrow> kmem \<Rightarrow> (dmp_obj \<Rightarrow> nat list) \<Rightarrow> mpst \<Rightarrow> bool" where
  "pools_ok mn sizeof base outs s \<longleftrightarrow>
     own mn (mp_tab s) (map outs all_objs) base (mp_mem s) \<and> fresh (mp_mem s) \<and>
     clear (mp_tab s) = dmp_manager sizeof \<and>
     (\<forall>t. \<forall>a \<in> set (outs t). a < k_next (mp_mem s)) \<and>
     (\<forall>t. distinct (outs t)) \<and> (\<forall>t u a. a \<in> set (outs t) \<longrightarrow> a \<in> set (outs u) \<longrightarrow> t = u)"

text \<open>An object stands for kind \<open>t\<close> when it comes from a cache of objects of that size.\<close>

definition backed :: "(dmp_obj \<Rightarrow> nat) \<Rightarrow> dmp_obj \<Rightarrow> nat \<Rightarrow> kmem \<Rightarrow> bool" where
  "backed sizeof t a k \<longleftrightarrow> (\<exists>p kp kc. k_pools k p = Some kp \<and> a \<in> set (kp_out kp) \<and>
     k_caches k (kp_cache kp) = Some kc \<and> kc_size kc = sizeof t)"

fun obj_index :: "dmp_obj \<Rightarrow> nat" where
  "obj_index DLN = DM_INDEX_DLN"
| "obj_index DLIST = DM_INDEX_DLIST"
| "obj_index DIO = DM_INDEX_DIO"
| "obj_index LBLIST = DM_INDEX_LBLIST"
| "obj_index LBMD = DM_INDEX_LBMD"
| "obj_index IOREQ = DM_INDEX_IOREQ"
| "obj_index DNLOC = DM_INDEX_DNLOC"
| "obj_index LOCREQ = DM_INDEX_LOCREQ"
| "obj_index DMETA = DM_INDEX_DMETA"
| "obj_index PHEADER = DM_INDEX_PHEADER"
| "obj_index DNTAG = DM_INDEX_DNTAG"
| "obj_index PALTAG = DM_INDEX_PALTAG"

lemma malloc_of_index: "malloc_of t = malloc_from (obj_index t)" "free_of t = free_to (obj_index t)"
  by (cases t; simp add: alloc_defs free_defs)+

lemma obj_index_less: "obj_index t < length all_objs"
  by (cases t) (simp_all add: all_objs_def dm_index_defs)

lemma all_objs_index: "all_objs ! obj_index t = t"
  by (cases t) (simp_all add: all_objs_def dm_index_defs)

lemma all_objs_update: "(map f all_objs)[obj_index t := l] = map (f(t := l)) all_objs"
  by (cases t) (simp_all add: all_objs_def dm_index_defs)

lemma dmp_manager_size: "obj_size (dmp_manager sizeof ! obj_index t) = sizeof t"
  by (cases t) (simp_all add: dmp_manager_def dm_index_defs)

lemma named_dmp_manager: "named (dmp_manager sizeof) = 12"
  by (simp add: dmp_manager_def)

lemma clear_size: "clear es = dmp_manager sizeof \<Longrightarrow> i < length es \<Longrightarrow> obj_size (es ! i) = obj_size (dmp_manager sizeof ! i)"
  by (metis DMP_Manager.select_convs(2) DMP_Manager.surjective DMP_Manager.update_convs(3) clear_def nth_map)

text \<open>The pool that the functions of a kind use.\<close>

lemma pools_ok_at:
  assumes "pools_ok mn sizeof base outs s"
  obtains d c p nm where "GET_MEMPOOL (obj_index t) s = Some p"
    and "holds mn nm (sizeof t) d c p (outs t) (mp_mem s)"
    and "\<forall>l. own mn (mp_tab s) (map (outs(t := l)) all_objs) base (set_pool mn nm (sizeof t) c p l (mp_mem s))"
proof -
  let ?i = "obj_index t"
  have own: "own mn (mp_tab s) (map outs all_objs) base (mp_mem s)" and
    clr: "clear (mp_tab s) = dmp_manager sizeof" using assms by (simp_all add: pools_ok_def)
  obtain d c p nm where at: "?i < length (mp_tab s)" "dmpp (mp_tab s ! ?i) = Some d"
    "holds mn nm (obj_size (mp_tab s ! ?i)) d c p (map outs all_objs ! ?i) (mp_mem s)"
    "\<forall>l'. own mn (mp_tab s) ((map outs all_objs)[?i := l']) base
       (set_pool mn nm (obj_size (mp_tab s ! ?i)) c p l' (mp_mem s))"
    using own_at [OF own, of ?i] obj_index_less by auto
  have sz: "obj_size (mp_tab s ! ?i) = sizeof t" using clear_size [OF clr at(1)] dmp_manager_size by simp
  have "map outs all_objs ! ?i = outs t" using obj_index_less all_objs_index by simp
  moreover have "GET_MEMPOOL ?i s = Some p" using at(1-3) by (simp add: GET_MEMPOOL_def holds_def)
  ultimately show ?thesis using at(3,4) that sz by (simp add: all_objs_update)
qed

lemma malloc_of_ok:
  assumes "pools_ok mn sizeof base outs s"
  shows "\<exists>a s'. malloc_of t s = Some (a, s') \<and> pools_ok mn sizeof base (outs(t := a # outs t)) s' \<and>
    (\<forall>u. a \<notin> set (outs u))"
proof -
  let ?k = "mp_mem s" and ?a = "k_next (mp_mem s)"
  obtain d c p nm where at: "GET_MEMPOOL (obj_index t) s = Some p"
    "holds mn nm (sizeof t) d c p (outs t) ?k"
    "\<forall>l. own mn (mp_tab s) (map (outs(t := l)) all_objs) base (set_pool mn nm (sizeof t) c p l ?k)"
    by (rule pools_ok_at [OF assms])
  let ?k' = "(set_pool mn nm (sizeof t) c p (?a # outs t) ?k)\<lparr>k_next := Suc ?a\<rparr>"
  have "malloc_of t s = Some (?a, s\<lparr>mp_mem := ?k'\<rparr>)"
    using at(1) mempool_alloc_holds [OF at(2)] by (simp add: malloc_of_index malloc_from_def)
  moreover have nin: "\<forall>u. ?a \<notin> set (outs u)" using assms by (auto simp: pools_ok_def)
  moreover have "fresh ?k'" using assms at(2) by (auto simp: pools_ok_def fresh_def set_pool_def holds_def)
  moreover have "own mn (mp_tab s) (map (outs(t := ?a # outs t)) all_objs) base ?k'"
    using at(3) by (simp only: own_next)
  ultimately show ?thesis using assms by (auto simp: pools_ok_def less_Suc_eq set_pool_def)
qed

lemma free_of_ok:
  assumes "pools_ok mn sizeof base outs s"
  shows "a \<in> set (outs t) \<Longrightarrow> \<exists>s'. free_of t a s = Some s' \<and> pools_ok mn sizeof base (outs(t := remove1 a (outs t))) s'"
    and "a \<notin> set (outs t) \<Longrightarrow> free_of t a s = None"
proof -
  let ?k = "mp_mem s"
  obtain d c p nm where at: "GET_MEMPOOL (obj_index t) s = Some p"
    "holds mn nm (sizeof t) d c p (outs t) ?k"
    "\<forall>l. own mn (mp_tab s) (map (outs(t := l)) all_objs) base (set_pool mn nm (sizeof t) c p l ?k)"
    by (rule pools_ok_at [OF assms])
  show "free_of t a s = None" if "a \<notin> set (outs t)"
    using that at(1) mempool_free_holds [OF at(2)] by (simp add: malloc_of_index free_to_def)
  let ?k' = "set_pool mn nm (sizeof t) c p (remove1 a (outs t)) ?k"
  assume a: "a \<in> set (outs t)"
  then have "free_of t a s = Some (s\<lparr>mp_mem := ?k'\<rparr>)"
    using at(1) mempool_free_holds [OF at(2)] by (simp add: malloc_of_index free_to_def)
  moreover have "fresh ?k'" using assms at(2) by (auto simp: pools_ok_def fresh_def set_pool_def holds_def)
  moreover have "k_next ?k' = k_next ?k" by (simp add: set_pool_def)
  moreover have "own mn (mp_tab s) (map (outs(t := remove1 a (outs t))) all_objs) base ?k'" using at(3) by blast
  moreover have "set (remove1 a (outs t)) \<subseteq> set (outs t)" by (rule set_remove1_subset)
  ultimately show "\<exists>s'. free_of t a s = Some s' \<and> pools_ok mn sizeof base (outs(t := remove1 a (outs t))) s'"
    using assms by (auto simp: pools_ok_def dest!: subsetD [OF set_remove1_subset])
qed

lemma pools_ok_backed: "pools_ok mn sizeof base outs s \<Longrightarrow> a \<in> set (outs t) \<Longrightarrow> backed sizeof t a (mp_mem s)"
proof (erule pools_ok_at [of _ _ _ _ _ t])
  fix d c p nm
  assume "a \<in> set (outs t)" and "holds mn nm (sizeof t) d c p (outs t) (mp_mem s)"
  then show "backed sizeof t a (mp_mem s)" unfolding backed_def holds_def
    by (intro exI [of _ p] exI) auto
qed

section \<open>Sequences of calls\<close>

text \<open>
  A run of allocations and releases by a client: \<open>run_calls\<close> performs them and collects
  the addresses, \<open>spec_calls\<close> keeps only what is outstanding for each kind.
\<close>

datatype 't mp_call = Alloc 't | Free 't nat

fun run_calls :: "('t \<Rightarrow> 's \<Rightarrow> (nat \<times> 's) option) \<Rightarrow> ('t \<Rightarrow> nat \<Rightarrow> 's \<Rightarrow> 's option)
    \<Rightarrow> 't mp_call list \<Rightarrow> 's \<Rightarrow> (nat list \<times> 's) option" where
  "run_calls al fr [] s = Some ([], s)"
| "run_calls al fr (Alloc t # cs) s =
    do { (a, s) \<leftarrow> al t s; (as, s) \<leftarrow> run_calls al fr cs s; Some (a # as, s) }"
| "run_calls al fr (Free t a # cs) s = do { s \<leftarrow> fr t a s; run_calls al fr cs s }"

fun spec_calls :: "'t mp_call list \<Rightarrow> nat list \<Rightarrow> ('t \<Rightarrow> nat list) \<Rightarrow> ('t \<Rightarrow> nat list) option" where
  "spec_calls [] as outs = Some outs"
| "spec_calls (Alloc t # cs) as outs =
    (case as of [] \<Rightarrow> None | a # as \<Rightarrow> spec_calls cs as (outs(t := a # outs t)))"
| "spec_calls (Free t a # cs) as outs =
    (if a \<in> set (outs t) then spec_calls cs as (outs(t := remove1 a (outs t))) else None)"

locale typed_pools =
  fixes inv :: "('t \<Rightarrow> nat list) \<Rightarrow> 's \<Rightarrow> bool"
    and al :: "'t \<Rightarrow> 's \<Rightarrow> (nat \<times> 's) option"
    and fr :: "'t \<Rightarrow> nat \<Rightarrow> 's \<Rightarrow> 's option"
  assumes al_ok: "inv outs s \<Longrightarrow> \<exists>a s'. al t s = Some (a, s') \<and> inv (outs(t := a # outs t)) s'"
    and fr_ok: "inv outs s \<Longrightarrow> a \<in> set (outs t) \<Longrightarrow>
      \<exists>s'. fr t a s = Some s' \<and> inv (outs(t := remove1 a (outs t))) s'"
    and fr_bad: "inv outs s \<Longrightarrow> a \<notin> set (outs t) \<Longrightarrow> fr t a s = None"
begin

lemma run_spec:
  "inv outs s \<Longrightarrow> run_calls al fr cs s = Some (as, s') \<Longrightarrow> \<exists>outs'. spec_calls cs as outs = Some outs' \<and> inv outs' s'"
proof (induction cs arbitrary: outs s as)
  case (Cons c cs)
  show ?case
  proof (cases c)
    case (Alloc t)
    with al_ok [OF Cons.prems(1), of t] Cons.prems(2) Cons.IH show ?thesis
      by (fastforce split: Option.bind_splits)
  next
    case (Free t a)
    have "a \<in> set (outs t)" using fr_bad [OF Cons.prems(1)] Cons.prems(2) Free by (cases "a \<in> set (outs t)") auto
    with fr_ok [OF Cons.prems(1)] Cons.prems(2) Cons.IH Free show ?thesis by fastforce
  qed
qed auto

text \<open>The only call that goes wrong is a release of an object that is not outstanding.\<close>

lemma run_fault:
  "inv outs s \<Longrightarrow> run_calls al fr cs s = None \<Longrightarrow>
   \<exists>pre t a post as outs'. cs = pre @ Free t a # post \<and> spec_calls pre as outs = Some outs' \<and> a \<notin> set (outs' t)"
proof (induction cs arbitrary: outs s)
  case (Cons c cs)
  show ?case
  proof (cases c)
    case (Alloc t)
    obtain a s1 where a: "al t s = Some (a, s1)" "inv (outs(t := a # outs t)) s1"
      using al_ok [OF Cons.prems(1)] by blast
    have "run_calls al fr cs s1 = None" using Cons.prems(2) Alloc a(1) by (auto split: Option.bind_splits)
    from Cons.IH [OF a(2) this] obtain pre t' b post as outs' where
      "cs = pre @ Free t' b # post" "spec_calls pre as (outs(t := a # outs t)) = Some outs'" "b \<notin> set (outs' t')"
      by blast
    with Alloc show ?thesis
      by (intro exI [of _ "c # pre"] exI [of _ t'] exI [of _ b] exI [of _ post] exI [of _ "a # as"] exI [of _ outs'])
        simp
  next
    case (Free t a)
    show ?thesis
    proof (cases "a \<in> set (outs t)")
      case True
      obtain s1 where s1: "fr t a s = Some s1" "inv (outs(t := remove1 a (outs t))) s1"
        using fr_ok [OF Cons.prems(1) True] by blast
      have "run_calls al fr cs s1 = None" using Cons.prems(2) Free s1(1) by simp
      from Cons.IH [OF s1(2) this] obtain pre t' b post as outs' where
        "cs = pre @ Free t' b # post" "spec_calls pre as (outs(t := remove1 a (outs t))) = Some outs'"
        "b \<notin> set (outs' t')"
        by blast
      with Free True show ?thesis
        by (intro exI [of _ "c # pre"] exI [of _ t'] exI [of _ b] exI [of _ post] exI [of _ as] exI [of _ outs'])
          simp
    next
      case False
      with Free show ?thesis by (intro exI [of _ "[]"]) auto
    qed
  qed
qed auto

end

interpretation pools: typed_pools "pools_ok mn sizeof base" malloc_of free_of for mn sizeof base
proof
  show "\<exists>a s'. malloc_of t s = Some (a, s') \<and> pools_ok mn sizeof base (outs(t := a # outs t)) s'"
    if "pools_ok mn sizeof base outs s" for outs s t using malloc_of_ok [OF that] by blast
qed (rule free_of_ok; assumption)+

text \<open>The driver starts on memory without pools of its own.\<close>

definition pools_start :: "(dmp_obj \<Rightarrow> nat) \<Rightarrow> kmem \<Rightarrow> mpst" where
  "pools_start sizeof k = \<lparr>mp_tab = dmp_manager sizeof, mp_mem = k\<rparr>"

lemma dmp_manager_empty: "\<forall>x \<in> set (dmp_manager sizeof). dmpp x = None" "\<exists>x \<in> set (dmp_manager sizeof). dmp_name x = None"
  by (simp_all add: dmp_manager_def)

lemma Release_DMP_Manager_own:
  "own mn (mp_tab s) os base (mp_mem s) \<Longrightarrow> \<forall>l \<in> set os. l = [] \<Longrightarrow>
   \<exists>s'. Release_DMP_Manager s = Some s' \<and> mp_tab s' = clear (mp_tab s) \<and> same_mem (mp_mem s') base"
  using release_from_own by (fastforce simp: Release_DMP_Manager_def)

lemma Init_DMP_Manager_spec:
  assumes "fresh k" and "\<forall>j. fst (ans j)"
  shows "if \<forall>j < 12. granted ans j
     then \<exists>s. Init_DMP_Manager mn ans (pools_start sizeof k) = Some (DMS_OK, s) \<and> pools_ok mn sizeof k (\<lambda>_. []) s
     else \<exists>s. Init_DMP_Manager mn ans (pools_start sizeof k) = Some (- ENOMEM, s) \<and>
       mp_tab s = dmp_manager sizeof \<and> same_mem (mp_mem s) k"
proof -
  obtain n es k' where i: "init_from mn ans 0 (dmp_manager sizeof) k =
      Some (if \<forall>j < 12. granted ans j then DMS_OK else - ENOMEM, es, k')"
    "own mn es (replicate n []) k k'" "fresh k'" "clear es = dmp_manager sizeof"
    "(\<forall>j < 12. granted ans j) \<longrightarrow> n = 12"
    using init_from_own [OF assms(1) dmp_manager_empty(1) [of sizeof] dmp_manager_empty(2) [of sizeof] assms(2), of mn 0]
    by (auto simp: named_dmp_manager)
  show ?thesis
  proof (cases "\<forall>j < 12. granted ans j")
    case True
    then have "replicate n ([] :: nat list) = map (\<lambda>_. []) all_objs" using i(5) by (simp add: all_objs_def numeral_eq_Suc)
    with True i show ?thesis by (auto simp: Init_DMP_Manager_def pools_start_def pools_ok_def)
  next
    case False
    obtain s' where "Release_DMP_Manager \<lparr>mp_tab = es, mp_mem = k'\<rparr> = Some s'" "mp_tab s' = clear es"
      "same_mem (mp_mem s') k"
      using Release_DMP_Manager_own [of mn "\<lparr>mp_tab = es, mp_mem = k'\<rparr>" "replicate n []" k] i(2) by auto
    moreover have "init_from mn ans 0 (dmp_manager sizeof) k = Some (- ENOMEM, es, k')" using i(1) False by simp
    ultimately show ?thesis using i(4) unfolding if_not_P [OF False]
      by (simp add: Init_DMP_Manager_def pools_start_def DMS_OK_def ENOMEM_def)
  qed
qed

section \<open>Properties\<close>

text \<open>Setting up the pools is all or nothing.  When every structure can be allocated,
  \<open>Init_DMP_Manager\<close> returns: with the twelve caches and pools granted it reports
  \<open>DMS_OK\<close> and the table holds one idle pool for each kind of object; when any cache or
  pool is refused it reports \<open>-ENOMEM\<close>, the table is empty again and every pool, cache
  and structure created before the refusal is gone.\<close>

theorem Init_DMP_Manager_all_or_nothing:
  assumes "fresh k" and "\<forall>j. fst (ans j)"
  shows "if \<forall>j < 12. granted ans j
     then \<exists>s. Init_DMP_Manager mn ans (pools_start sizeof k) = Some (DMS_OK, s) \<and> pools_ok mn sizeof k (\<lambda>_. []) s
     else \<exists>s. Init_DMP_Manager mn ans (pools_start sizeof k) = Some (- ENOMEM, s) \<and>
       mp_tab s = dmp_manager sizeof \<and> same_mem (mp_mem s) k"
  by (rule Init_DMP_Manager_spec [OF assms])

definition no_mem :: kmem where
  "no_mem = \<lparr>k_caches = Map.empty, k_pools = Map.empty, k_dmps = Map.empty, k_next = 0\<rparr>"

lemma fresh_no_mem: "fresh no_mem"
  by (simp add: fresh_def no_mem_def)

theorem Init_DMP_Manager_all_or_nothing_witness:
  "\<exists>s. Init_DMP_Manager 4 (\<lambda>j. (True, True, j \<noteq> 5)) (pools_start (\<lambda>_. 64) no_mem) = Some (- ENOMEM, s) \<and>
     mp_tab s = dmp_manager (\<lambda>_. 64) \<and> same_mem (mp_mem s) no_mem"
proof -
  have "\<not> (\<forall>j < 12. granted (\<lambda>j. (True, True, j \<noteq> 5)) j)" by (auto simp: granted_def intro: exI [of _ 5])
  with Init_DMP_Manager_all_or_nothing [OF fresh_no_mem, of "\<lambda>j. (True, True, j \<noteq> 5)" 4 "\<lambda>_. 64"]
  show ?thesis by simp
qed

text \<open>C16: Every object has the type its allocator promises.  After a successful set-up and
  any sequence of calls that returns, the objects outstanding for a kind \<open>t\<close> (handed out
  by its \<open>Malloc\<close> function and not yet returned to its \<open>Free\<close> function) come from a
  cache whose objects have the size of \<open>t\<close>'s structure, and no object is outstanding
  twice or for two kinds; a call sequence goes wrong only at a \<open>Free\<close> of an object that is
  not outstanding for that kind.\<close>

theorem pool_calls_typed:
  assumes "fresh k" and "\<forall>j. fst (ans j)"
    and "Init_DMP_Manager mn ans (pools_start sizeof k) = Some (DMS_OK, s)"
  shows "case run_calls malloc_of free_of cs s of
     Some (as, s') \<Rightarrow> \<exists>outs. spec_calls cs as (\<lambda>_. []) = Some outs \<and>
       (\<forall>t. distinct (outs t) \<and> (\<forall>a \<in> set (outs t). backed sizeof t a (mp_mem s'))) \<and>
       (\<forall>t u a. a \<in> set (outs t) \<and> a \<in> set (outs u) \<longrightarrow> t = u)
   | None \<Rightarrow> \<exists>pre t a post as outs. cs = pre @ Free t a # post \<and>
       spec_calls pre as (\<lambda>_. []) = Some outs \<and> a \<notin> set (outs t)"
proof -
  have ok: "pools_ok mn sizeof k (\<lambda>_. []) s"
    using Init_DMP_Manager_spec [OF assms(1,2), of mn sizeof] assms(3)
    by (auto simp: DMS_OK_def ENOMEM_def split: if_splits)
  show ?thesis
  proof (cases "run_calls malloc_of free_of cs s")
    case None
    with pools.run_fault [OF ok None] show ?thesis by auto
  next
    case (Some r)
    obtain as s' where r: "r = (as, s')" by (cases r)
    obtain outs where "spec_calls cs as (\<lambda>_. []) = Some outs" "pools_ok mn sizeof k outs s'"
      using pools.run_spec [OF ok] Some r by blast
    moreover from this(2) have "(\<forall>t. distinct (outs t)) \<and> (\<forall>t u a. a \<in> set (outs t) \<longrightarrow> a \<in> set (outs u) \<longrightarrow> t = u)"
      by (simp add: pools_ok_def)
    ultimately show ?thesis using Some r pools_ok_backed by fastforce
  qed
qed

lemma no_mem_init:
  obtains s where "Init_DMP_Manager 4 (\<lambda>_. (True, True, True)) (pools_start (\<lambda>_. 64) no_mem) = Some (DMS_OK, s)"
    and "pools_ok 4 (\<lambda>_. 64) no_mem (\<lambda>_. []) s"
  using Init_DMP_Manager_spec [OF fresh_no_mem, of "\<lambda>_. (True, True, True)" 4 "\<lambda>_. 64"] by (auto simp: granted_def)

theorem pool_calls_typed_witness:
  "\<exists>s as s' a. Init_DMP_Manager 4 (\<lambda>_. (True, True, True)) (pools_start (\<lambda>_. 64) no_mem) = Some (DMS_OK, s) \<and>
     run_calls malloc_of free_of [Alloc DIO] s = Some (as, s') \<and> as = [a] \<and> backed (\<lambda>_. 64) DIO a (mp_mem s')"
proof (rule no_mem_init)
  fix s
  assume i: "Init_DMP_Manager 4 (\<lambda>_. (True, True, True)) (pools_start (\<lambda>_. 64) no_mem) = Some (DMS_OK, s)"
    and "pools_ok 4 (\<lambda>_. 64) no_mem (\<lambda>_. []) s"
  from malloc_of_ok [OF this(2), of DIO] obtain a s' where "malloc_of DIO s = Some (a, s')" by blast
  then have r: "run_calls malloc_of free_of [Alloc DIO] s = Some ([a], s')" by (simp del: malloc_of.simps)
  from pool_calls_typed [OF fresh_no_mem _ i, of "[Alloc DIO]"] r
  have "backed (\<lambda>_. 64) DIO a (mp_mem s')" by (auto simp del: malloc_of.simps)
  with i r show ?thesis by blast
qed

text \<open>C17: Releasing the pools after a successful set-up and any sequence of calls gives back
  exactly the memory from before the set-up and empties the table, provided every object
  was returned; with an object still outstanding the release destroys a pool in use.\<close>

theorem Release_DMP_Manager_restores:
  assumes "fresh k" and "\<forall>j. fst (ans j)"
    and "Init_DMP_Manager mn ans (pools_start sizeof k) = Some (DMS_OK, s)"
    and "run_calls malloc_of free_of cs s = Some (as, s')"
  shows "\<exists>outs. spec_calls cs as (\<lambda>_. []) = Some outs \<and>
     (if \<forall>t. outs t = []
      then \<exists>s''. Release_DMP_Manager s' = Some s'' \<and> mp_tab s'' = dmp_manager sizeof \<and> same_mem (mp_mem s'') k
      else Release_DMP_Manager s' = None)"
proof -
  have "pools_ok mn sizeof k (\<lambda>_. []) s"
    using Init_DMP_Manager_spec [OF assms(1,2), of mn sizeof] assms(3)
    by (auto simp: DMS_OK_def ENOMEM_def split: if_splits)
  from pools.run_spec [OF this assms(4)] obtain outs where
    o: "spec_calls cs as (\<lambda>_. []) = Some outs" "pools_ok mn sizeof k outs s'" by blast
  then have own: "own mn (mp_tab s') (map outs all_objs) k (mp_mem s')" and clr: "clear (mp_tab s') = dmp_manager sizeof"
    by (simp_all add: pools_ok_def)
  have "if \<forall>t. outs t = []
      then \<exists>s''. Release_DMP_Manager s' = Some s'' \<and> mp_tab s'' = dmp_manager sizeof \<and> same_mem (mp_mem s'') k
      else Release_DMP_Manager s' = None"
  proof (cases "\<forall>t. outs t = []")
    case True
    then show ?thesis using Release_DMP_Manager_own [OF own] clr by auto
  next
    case False
    then obtain t where t: "outs t \<noteq> []" by blast
    have "outs t \<in> set (map outs all_objs)"
      using obj_index_less [of t] all_objs_index [of t] nth_mem [of "obj_index t" all_objs] by simp
    with release_from_busy [OF own _ t] False show ?thesis by (auto simp: Release_DMP_Manager_def)
  qed
  with o(1) show ?thesis by blast
qed

theorem Release_DMP_Manager_restores_witness:
  "\<exists>s s''. Init_DMP_Manager 4 (\<lambda>_. (True, True, True)) (pools_start (\<lambda>_. 64) no_mem) = Some (DMS_OK, s) \<and>
     Release_DMP_Manager s = Some s'' \<and> same_mem (mp_mem s'') no_mem"
proof (rule no_mem_init)
  fix s
  assume i: "Init_DMP_Manager 4 (\<lambda>_. (True, True, True)) (pools_start (\<lambda>_. 64) no_mem) = Some (DMS_OK, s)"
  from Release_DMP_Manager_restores [OF fresh_no_mem _ i, of "[]" "[]" s] i show ?thesis by auto
qed

end
