(* ===== verification/Driver_Module.thy ===== *)
theory Driver_Module
  imports Volume_Manager Node_Container Mem_Pool
begin

text \<open>
  Loading and unloading the driver (\<open>DMS_VDDriver.c\<close>): the managers are set up in
  order (memory pools, volumes, connections with their work queue, the connection to
  the namenode), then the two devices are registered; unloading takes the managers
  down in the opposite order.  The set-up and release of each manager is the one of
  its theory.
\<close>

section \<open>State\<close>

record driver =
  drv_pools :: mpst
  drv_vols :: vmgr
  drv_nodes :: dncs
  drv_workq :: bool          \<comment> \<open>\<open>node_builder_workq\<close> exists\<close>
  drv_nn :: int              \<comment> \<open>\<open>nn_node_index\<close>\<close>
  drv_state :: u64           \<comment> \<open>\<open>g_dms_state\<close>\<close>
  drv_chr :: bool            \<comment> \<open>the control device is registered\<close>
  drv_blk :: bool            \<comment> \<open>the block device is registered\<close>

text \<open>What the kernel grants during a load, and the parameters of the module.\<close>

record load_answers =
  la_pools :: "nat \<Rightarrow> bool \<times> bool \<times> bool"
  la_volumes :: bool
  la_nodes :: bool
  la_workq :: bool
  la_net :: net
  la_ip :: int
  la_port :: u16
  la_chr :: bool
  la_blk :: bool

definition EIO :: int where "EIO = 5"
definition INIT_STATE :: nat where "INIT_STATE = 0"

section \<open>The managers\<close>

definition Init_Node_Builder :: "bool \<Rightarrow> driver \<Rightarrow> int \<times> driver" where
  "Init_Node_Builder ok d =
     (if ok then (DMS_OK, d\<lparr>drv_workq := True\<rparr>) else (- DMS_FAIL, d\<lparr>drv_workq := False\<rparr>))"

definition Release_Node_Builder :: "driver \<Rightarrow> driver" where
  "Release_Node_Builder d = (if drv_workq d then d\<lparr>drv_workq := False\<rparr> else d)"

text \<open>The table of connections is not tested; the empty list is the NULL table.\<close>

definition Init_DNCS :: "load_answers \<Rightarrow> driver \<Rightarrow> int \<times> driver" where
  "Init_DNCS la d =
     (let nodes = (if la_nodes la then Init_DNCS_Manager (drv_nodes d) else (drv_nodes d)\<lparr>dn_nodes := []\<rparr>)
      in Init_Node_Builder (la_workq la) (d\<lparr>drv_nodes := nodes\<rparr>))"

fun release_nodes :: "nat list \<Rightarrow> dncs \<Rightarrow> dncs option" where
  "release_nodes [] s = Some s"
| "release_nodes (i # is) s =
     (case dn_nodes s ! i of
        None \<Rightarrow> release_nodes is s
      | Some a \<Rightarrow> do { s \<leftarrow> Release_DMS_Node_Container a s; release_nodes is s })"

definition Release_DNCS_Manager :: "driver \<Rightarrow> driver option" where
  "Release_DNCS_Manager d =
     (if dn_nodes (drv_nodes d) = [] then None
      else do {
        s \<leftarrow> release_nodes [0..<DMS_MAX_NODES] (drv_nodes d);
        Some (Release_Node_Builder (d\<lparr>drv_nodes := s\<rparr>)) })"

text \<open>The index that building the connection returns is stored, an error too, and the
  result is \<open>DMS_OK\<close> in any case.\<close>

definition Init_Metadata_Manager :: "net \<Rightarrow> int \<Rightarrow> u16 \<Rightarrow> driver \<Rightarrow> (int \<times> driver) option" where
  "Init_Metadata_Manager na nn_ip port d = do {
     (index, s) \<leftarrow>
       (if dn_nodes (drv_nodes d) = [] then do {
          (r, s) \<leftarrow> Create_DMS_Node_Container na nn_ip port True (drv_nodes d);
          if r = None then Some (- DMS_FAIL, s) else None }
        else Build_DMS_Node_Container na nn_ip port True (drv_nodes d));
     Some (DMS_OK, d\<lparr>drv_nodes := s, drv_nn := index\<rparr>) }"

definition Release_Metadata_Manager :: "driver \<Rightarrow> driver option" where
  "Release_Metadata_Manager d = do {
     s \<leftarrow> Destroy_DMS_Node_Container (drv_nn d) (drv_nodes d);
     Some (d\<lparr>drv_nodes := s\<rparr>) }"

definition Init_DMS_VDD_Resources :: int where
  "Init_DMS_VDD_Resources = DMS_OK"

section \<open>Load and unload\<close>

definition Init_All_Modules :: "nat \<Rightarrow> load_answers \<Rightarrow> driver \<Rightarrow> (int \<times> driver) option" where
  "Init_All_Modules mn la d =
    (if Init_DMS_VDD_Resources < 0 then Some (Init_DMS_VDD_Resources, d) else do {
       (retcode, pools) \<leftarrow> Init_DMP_Manager mn (la_pools la) (drv_pools d);
       let d = d\<lparr>drv_pools := pools\<rparr>;
       if retcode < 0 then Some (retcode, d) else do {
         let (retcode, vols) = Init_DMS_Volume_Manager (la_volumes la) (drv_vols d);
         let d = d\<lparr>drv_vols := vols\<rparr>;
         if retcode < 0 then Some (retcode, d) else do {
           let (retcode, d) = Init_DNCS la d;
           if retcode < 0 then Some (retcode, d)
           else Init_Metadata_Manager (la_net la) (la_ip la) (la_port la) d } } })"

definition Release_All_Modules :: "driver \<Rightarrow> driver option" where
  "Release_All_Modules d = do {
     d \<leftarrow> Release_Metadata_Manager d;
     d \<leftarrow> Release_DNCS_Manager d;
     vols \<leftarrow> Release_DMS_Volume_Manager (drv_vols d);
     let d = d\<lparr>drv_vols := vols\<rparr>;
     pools \<leftarrow> Release_DMP_Manager (drv_pools d);
     Some (d\<lparr>drv_pools := pools\<rparr>) }"

definition Init_DMS_VDDriver :: "nat \<Rightarrow> load_answers \<Rightarrow> driver \<Rightarrow> (int \<times> driver) option" where
  "Init_DMS_VDDriver mn la d = do {
     (retcode, d) \<leftarrow> Init_All_Modules mn la d;
     if retcode < 0 then Some (- EIO, d) else do {
       let d = d\<lparr>drv_state := set_bit INIT_STATE 0\<rparr>;
       if \<not> la_chr la then Some (- EIO, d) else do {
         let d = d\<lparr>drv_chr := True\<rparr>;
         if \<not> la_blk la then Some (- EIO, d\<lparr>drv_chr := False\<rparr>)
         else Some (retcode, d\<lparr>drv_blk := True\<rparr>) } } }"

definition Exit_DMS_VDDriver :: "driver \<Rightarrow> driver option" where
  "Exit_DMS_VDDriver d = do {
     d \<leftarrow> Release_All_Modules d;
     Some (d\<lparr>drv_chr := False, drv_blk := False\<rparr>) }"

section \<open>Releasing the volumes\<close>

text \<open>The volumes in the slots of a list, by address.\<close>

definition slot_ptrs :: "vmgr \<Rightarrow> nat list \<Rightarrow> nat set" where
  "slot_ptrs m is = {a. \<exists>i \<in> set is. vm_slots m ! i = Slot_Ptr a}"

lemma release_slot:
  assumes "vm_wf m" and "1 \<le> i" and "i < vm_max m" and "vm_slots m ! i = Slot_Ptr a"
  shows "release_slots (i # is) m = release_slots is (vm_detached m i a)"
    and "vm_wf (vm_detached m i a)"
proof -
  from assms obtain v where v: "vm_vols m a = Some v" "vol_ok i v" "vm_entries m i = Some (v_volumeID v)"
    "read_slot m i = Some (Slot_Ptr a)" by (cases rule: vm_wf_slot) auto
  have len: "i < length (vm_slots m)" using assms by (simp add: vm_wf_def)
  with v assms(2,3) show "release_slots (i # is) m = release_slots is (vm_detached m i a)"
    by (auto simp: Remove_Volume_from_All_Volumes_def in_range write_slot_def Release_Volume_def
        Release_Kernel_Device_Structure_def Sync_Disk_Queue_def vm_detached_def vol_ok_def)
  show "vm_wf (vm_detached m i a)" by (rule vm_detached_wf [OF assms(1) v(3) assms(4)])
qed

lemma wf_slots_inj:
  assumes "vm_wf m" and "1 \<le> i" "i < vm_max m" "1 \<le> j" "j < vm_max m"
    and "vm_slots m ! i = Slot_Ptr a" and "vm_slots m ! j = Slot_Ptr a"
  shows "i = j"
  using assms unfolding vm_wf_def vol_ok_def by (metis of_nat_eq_iff option.inject vslot.distinct(3) vslot.inject(2))

lemma release_slots_wf:
  "vm_wf m \<Longrightarrow> \<forall>i \<in> set is. 1 \<le> i \<and> i < vm_max m \<Longrightarrow>
   \<exists>m'. release_slots is m = Some m' \<and> vm_wf m' \<and> vm_max m' = vm_max m \<and>
     (\<forall>i \<in> set is. vm_slots m' ! i = Slot_Null) \<and>
     (\<forall>i. vm_slots m ! i = Slot_Null \<longrightarrow> vm_slots m' ! i = Slot_Null) \<and>
     vm_vols m' = vm_vols m |` (- slot_ptrs m is)"
proof (induction "is" arbitrary: m)
  case (Cons i "is")
  then have i: "1 \<le> i" "i < vm_max m" by auto
  show ?case
  proof (cases "vm_slots m ! i")
    case (Slot_Ptr a)
    let ?m = "vm_detached m i a"
    note r = release_slot [OF Cons.prems(1) i Slot_Ptr]
    have len: "i < length (vm_slots m)" using Cons.prems(1) i by (simp add: vm_wf_def)
    have sel: "vm_max ?m = vm_max m" "vm_slots ?m = (vm_slots m)[i := Slot_Null]" "vm_vols ?m = (vm_vols m)(a := None)"
      by (simp_all add: vm_detached_def)
    obtain m' where m': "release_slots is ?m = Some m'" "vm_wf m'" "vm_max m' = vm_max m"
      "\<forall>j \<in> set is. vm_slots m' ! j = Slot_Null"
      "\<forall>j. vm_slots ?m ! j = Slot_Null \<longrightarrow> vm_slots m' ! j = Slot_Null"
      "vm_vols m' = vm_vols ?m |` (- slot_ptrs ?m is)"
      using Cons.IH [OF r(2)] Cons.prems(2) sel(1) by auto
    have "slot_ptrs m (i # is) = insert a (slot_ptrs ?m is)"
    proof -
      have "vm_slots ?m ! j = Slot_Ptr b \<longleftrightarrow> vm_slots m ! j = Slot_Ptr b \<and> b \<noteq> a" if "j \<in> set is" for j b
        using wf_slots_inj [OF Cons.prems(1) i _ _ Slot_Ptr, of j] that Cons.prems(2) Slot_Ptr len sel(2)
        by (auto simp: nth_list_update)
      with Slot_Ptr show ?thesis by (auto simp: slot_ptrs_def)
    qed
    with m'(6) sel(3) have "vm_vols m' = vm_vols m |` (- slot_ptrs m (i # is))"
      by (auto simp: restrict_map_def intro!: ext)
    moreover have "vm_slots m' ! j = Slot_Null" if "j = i \<or> vm_slots m ! j = Slot_Null" for j
      using that m'(5) sel(2) len by (metis nth_list_update_eq nth_list_update_neq)
    ultimately show ?thesis using m' r(1) by auto
  next
    case Slot_Null
    then have "read_slot m i = Some Slot_Null" using Cons.prems(1) i by (simp add: read_slot_def vm_wf_def)
    moreover have "slot_ptrs m (i # is) = slot_ptrs m is" using Slot_Null by (auto simp: slot_ptrs_def)
    ultimately show ?thesis using Cons.IH [OF Cons.prems(1)] Cons.prems(2) Slot_Null by auto
  next
    case (Slot_Cookie c)
    from Cons.prems(1) i Slot_Cookie show ?thesis by (cases rule: vm_wf_slot) auto
  qed
qed (auto simp: slot_ptrs_def restrict_map_def)

section \<open>Releasing the connections\<close>

definition node_ptrs :: "dncs \<Rightarrow> nat list \<Rightarrow> nat set" where
  "node_ptrs s is = {a. \<exists>i \<in> set is. dn_nodes s ! i = Some a}"

lemma released_sel [simp]: "dn_nodes (released a d s) = dn_nodes s" "dn_heap (released a d s) = (dn_heap s)(a := None)"
  by (simp_all add: released_def)

lemma release_nodes_live:
  assumes "distinct is"
    and "\<forall>i \<in> set is. \<forall>a. dn_nodes s ! i = Some a \<longrightarrow> dn_heap s a \<noteq> None"
    and "\<forall>i \<in> set is. \<forall>j \<in> set is. \<forall>a. dn_nodes s ! i = Some a \<longrightarrow> dn_nodes s ! j = Some a \<longrightarrow> i = j"
  shows "\<exists>t. release_nodes is s = Some t \<and> dn_heap t = dn_heap s |` (- node_ptrs s is) \<and>
     set (dn_work t) \<subseteq> set (dn_work s) \<and>
     (\<forall>a \<in> node_ptrs s is. \<forall>d w. dn_heap s a = Some d \<longrightarrow> n_status d = DNODE_BUILDING \<longrightarrow> n_sock d \<noteq> None \<longrightarrow>
        (a, w) \<notin> set (dn_work t))"
  using assms
proof (induction "is" arbitrary: s)
  case (Cons i "is")
  show ?case
  proof (cases "dn_nodes s ! i")
    case None
    then have "node_ptrs s (i # is) = node_ptrs s is" by (auto simp: node_ptrs_def)
    with None Cons.IH [of s] Cons.prems show ?thesis by simp
  next
    case (Some a)
    then obtain d where d: "dn_heap s a = Some d" using Cons.prems(2) by fastforce
    let ?s = "released a d s"
    have step: "release_nodes (i # is) s = release_nodes is ?s" using Some Release_eq [OF d] by simp
    have na: "\<forall>j \<in> set is. dn_nodes s ! j \<noteq> Some a" using Cons.prems(1,3) Some by auto
    have dis: "distinct is" using Cons.prems(1) by simp
    have live: "\<forall>j \<in> set is. \<forall>b. dn_nodes ?s ! j = Some b \<longrightarrow> dn_heap ?s b \<noteq> None"
      using Cons.prems(2) na by auto
    have inj: "\<forall>j \<in> set is. \<forall>k \<in> set is. \<forall>b. dn_nodes ?s ! j = Some b \<longrightarrow> dn_nodes ?s ! k = Some b \<longrightarrow> j = k"
      using Cons.prems(3) by simp
    obtain t where t: "release_nodes is ?s = Some t" "dn_heap t = dn_heap ?s |` (- node_ptrs ?s is)"
      "set (dn_work t) \<subseteq> set (dn_work ?s)"
      "\<forall>b \<in> node_ptrs ?s is. \<forall>e w. dn_heap ?s b = Some e \<longrightarrow> n_status e = DNODE_BUILDING \<longrightarrow> n_sock e \<noteq> None \<longrightarrow>
         (b, w) \<notin> set (dn_work t)"
      using Cons.IH [OF dis live inj] by blast
    have ptrs: "node_ptrs s (i # is) = insert a (node_ptrs ?s is)" using Some by (auto simp: node_ptrs_def)
    have "a \<notin> node_ptrs ?s is" using na by (auto simp: node_ptrs_def)
    have "dn_heap t = dn_heap s |` (- node_ptrs s (i # is))"
      using t(2) ptrs by (auto simp: restrict_map_def intro!: ext)
    moreover have "set (dn_work t) \<subseteq> set (dn_work s)" using t(3) by (auto simp: released_def split: if_splits)
    moreover have "(b, w) \<notin> set (dn_work t)"
      if "b \<in> node_ptrs s (i # is)" "dn_heap s b = Some e" "n_status e = DNODE_BUILDING" "n_sock e \<noteq> None" for b e w
    proof (cases "b = a")
      case True
      with that(2-4) d have "(b, w) \<notin> set (dn_work ?s)" by (simp add: released_def)
      with t(3) show ?thesis by blast
    next
      case False
      with that ptrs t(4) show ?thesis by simp
    qed
    ultimately show ?thesis using step t(1) by auto
  qed
qed (auto simp: node_ptrs_def restrict_map_def)

lemma node_ptrs_table: "node_ptrs s [0..<DMS_MAX_NODES] = {a. in_table s a}"
  by (auto simp: node_ptrs_def in_table_def)

lemma release_nodes_inv:
  assumes "dn_inv s"
  shows "\<exists>t. release_nodes [0..<DMS_MAX_NODES] s = Some t \<and> (\<forall>a. in_table s a \<longrightarrow> dn_heap t a = None) \<and>
     (\<forall>a. dn_heap s a = None \<longrightarrow> dn_heap t a = None) \<and> (\<forall>a w. (a, w) \<in> set (dn_work t) \<longrightarrow> w = Work_Rebuild)"
proof -
  let ?is = "[0..<DMS_MAX_NODES]"
  have wf: "dn_wf s" using assms by (simp add: dn_inv_def)
  have live: "\<forall>i \<in> set ?is. \<forall>a. dn_nodes s ! i = Some a \<longrightarrow> dn_heap s a \<noteq> None"
    using wf unfolding dn_wf_def by fastforce
  have inj: "\<forall>i \<in> set ?is. \<forall>j \<in> set ?is. \<forall>a. dn_nodes s ! i = Some a \<longrightarrow> dn_nodes s ! j = Some a \<longrightarrow> i = j"
    using wf unfolding dn_wf_def by (auto) (metis of_nat_eq_iff option.inject)
  obtain t where t: "release_nodes ?is s = Some t" "dn_heap t = dn_heap s |` (- {a. in_table s a})"
    "set (dn_work t) \<subseteq> set (dn_work s)"
    "\<forall>a. in_table s a \<longrightarrow> (\<forall>d w. dn_heap s a = Some d \<longrightarrow> n_status d = DNODE_BUILDING \<longrightarrow> n_sock d \<noteq> None \<longrightarrow>
        (a, w) \<notin> set (dn_work t))"
    using release_nodes_live [OF distinct_upt live inj] by (auto simp: node_ptrs_table)
  have "w = Work_Rebuild" if "(a, w) \<in> set (dn_work t)" for a w
  proof (rule ccontr)
    assume "w \<noteq> Work_Rebuild"
    then have w: "w = Work_Connect" by (cases w) auto
    with that t(3) assms obtain d where d: "dn_heap s a = Some d" "n_status d = DNODE_BUILDING" "in_table s a"
      unfolding dn_inv_def by blast
    with assms have "n_sock d \<noteq> None" unfolding dn_inv_def node_ok_def by blast
    with d t(4) that show False by blast
  qed
  with t(1,2) show ?thesis by (auto simp: restrict_map_def)
qed

lemma Destroy_gone:
  assumes "dn_inv s"
  obtains t where "Destroy_DMS_Node_Container j s = Some t" and "dn_inv t"
    and "\<forall>a. in_table s a \<longrightarrow> in_table t a \<or> dn_heap t a = None"
    and "\<forall>a. dn_heap s a = None \<longrightarrow> dn_heap t a = None"
proof -
  obtain t where t: "Destroy_DMS_Node_Container j s = Some t" "dn_inv t" using inv_destroy [OF assms] by blast
  have "(\<forall>a. in_table s a \<longrightarrow> in_table t a \<or> dn_heap t a = None) \<and> (\<forall>a. dn_heap s a = None \<longrightarrow> dn_heap t a = None)"
  proof (cases "DNC_IN_RANGE j \<and> dn_nodes s ! nat j \<noteq> None")
    case True
    then obtain i a where i: "j = int i" "i < DMS_MAX_NODES" "dn_nodes s ! i = Some a"
      by (auto simp: in_range_nat) (metis int_nat_eq)
    have "dn_wf s" using assms by (simp add: dn_inv_def)
    then obtain d where "dn_heap s a = Some d" using i(2,3) unfolding dn_wf_def by blast
    with Destroy_used [OF i(2,3)] t(1) i(1)
    have teq: "t = released a d (s\<lparr>dn_nodes := (dn_nodes s)[i := None]\<rparr>)" by simp
    have "in_table t b" if "in_table s b" "b \<noteq> a" for b
    proof -
      from that(1) obtain k where k: "k < DMS_MAX_NODES" "dn_nodes s ! k = Some b" by (auto simp: in_table_def)
      with that(2) i(3) have "k \<noteq> i" by auto
      with k show ?thesis by (auto simp: in_table_def teq)
    qed
    then show ?thesis by (auto simp: teq)
  next
    case False
    with Destroy_unused [of j s] t(1) have "t = s" by auto
    then show ?thesis by simp
  qed
  with t that show ?thesis by blast
qed

section \<open>The load\<close>

text \<open>The state before a load: no manager has set anything up.\<close>

definition unloaded :: "(dmp_obj \<Rightarrow> nat) \<Rightarrow> kmem \<Rightarrow> driver \<Rightarrow> bool" where
  "unloaded sizeof k d \<longleftrightarrow> drv_pools d = pools_start sizeof k \<and> vm_vols (drv_vols d) = Map.empty \<and>
     dn_heap (drv_nodes d) = Map.empty \<and> dn_work (drv_nodes d) = [] \<and> \<not> drv_chr d \<and> \<not> drv_blk d"

lemma Init_DNCS_inv:
  "dn_heap s = Map.empty \<Longrightarrow> dn_work s = [] \<Longrightarrow> dn_inv (Init_DNCS_Manager s)"
proof -
  assume h: "dn_heap s = Map.empty" "dn_work s = []"
  then have "dn_entries (Init_DNCS_Manager s) i = None" for i by (simp add: dn_entries_def Init_DNCS_Manager_def)
  with h show ?thesis unfolding dn_inv_def dn_wf_def by (auto simp: Init_DNCS_Manager_def)
qed

lemma Build_inv:
  assumes "dn_inv s" and "na_options na \<le> 0"
  obtains r t where "Build_DMS_Node_Container na ip port c s = Some (r, t)" and "dn_inv t"
proof -
  obtain r t where b: "Build_DMS_Node_Container na ip port c s = Some (r, t)"
    using Build_eq [OF assms] by fastforce
  from inv_event [OF assms(1), of "Ev_Build na ip port c" t] assms(2) b have "dn_inv t" by simp
  with b that show ?thesis by blast
qed

lemma inv_nodes_nonempty: "dn_inv s \<Longrightarrow> dn_nodes s \<noteq> []"
  by (auto simp: dn_inv_def dn_wf_def DMS_MAX_NODES_def)

text \<open>What a load leaves behind: \<open>granted\<close> requests decide the result and how far it came.\<close>

definition all_pools :: "load_answers \<Rightarrow> bool" where
  "all_pools la \<longleftrightarrow> (\<forall>j < 12. granted (la_pools la) j)"

definition loaded :: "nat \<Rightarrow> (dmp_obj \<Rightarrow> nat) \<Rightarrow> kmem \<Rightarrow> driver \<Rightarrow> bool" where
  "loaded mn sizeof k d \<longleftrightarrow> pools_ok mn sizeof k (\<lambda>_. []) (drv_pools d) \<and> vm_wf (drv_vols d) \<and>
     dn_inv (drv_nodes d) \<and> drv_workq d \<and> drv_chr d \<and> drv_blk d"

lemma Init_All_Modules_spec:
  assumes "fresh k" and "\<forall>j. fst (la_pools la j)" and "la_nodes la" and "na_options (la_net la) \<le> 0"
    and "unloaded sizeof k d"
  shows "\<exists>r e. Init_All_Modules mn la d = Some (r, e) \<and> drv_chr e = drv_chr d \<and> drv_blk e = drv_blk d \<and>
     (if all_pools la then pools_ok mn sizeof k (\<lambda>_. []) (drv_pools e) else same_mem (mp_mem (drv_pools e)) k) \<and>
     (if all_pools la \<and> la_volumes la \<and> la_workq la
      then r = DMS_OK \<and> vm_wf (drv_vols e) \<and> dn_inv (drv_nodes e) \<and> drv_workq e else r < 0)"
proof (cases "all_pools la")
  case False
  then obtain ps where ps: "Init_DMP_Manager mn (la_pools la) (drv_pools d) = Some (- ENOMEM, ps)"
    "same_mem (mp_mem ps) k"
    using Init_DMP_Manager_spec [OF assms(1,2), of mn sizeof] assms(5)
    unfolding unloaded_def all_pools_def by (simp only: if_False) blast
  then have "Init_All_Modules mn la d = Some (- ENOMEM, d\<lparr>drv_pools := ps\<rparr>)"
    by (simp add: Init_All_Modules_def Init_DMS_VDD_Resources_def DMS_OK_def ENOMEM_def)
  with False ps(2) show ?thesis by (simp add: ENOMEM_def)
next
  case True
  obtain ps where ps: "Init_DMP_Manager mn (la_pools la) (drv_pools d) = Some (DMS_OK, ps)"
    "pools_ok mn sizeof k (\<lambda>_. []) ps"
    using Init_DMP_Manager_spec [OF assms(1,2), of mn sizeof] assms(5) True by (auto simp: unloaded_def all_pools_def)
  obtain vm where vols: "Init_DMS_Volume_Manager (la_volumes la) (drv_vols d) = (if la_volumes la then DMS_OK else - DMS_FAIL, vm)"
    by (cases "la_volumes la") (simp_all add: Init_DMS_Volume_Manager_def)
  have vwf: "vm_wf vm" if "la_volumes la"
    using that Init_wf [of "drv_vols d" DMS_OK vm] vols assms(5) by (simp add: unloaded_def)
  let ?nodes = "Init_DNCS_Manager (drv_nodes d)"
  have "dn_inv ?nodes" using Init_DNCS_inv assms(5) by (simp add: unloaded_def)
  from Build_inv [OF this assms(4)] obtain i t where
    b: "Build_DMS_Node_Container (la_net la) (la_ip la) (la_port la) True ?nodes = Some (i, t)" "dn_inv t" by blast
  have ne: "dn_nodes ?nodes \<noteq> []" by (simp add: Init_DNCS_Manager_def DMS_MAX_NODES_def)
  show ?thesis
  proof (cases "la_volumes la \<and> la_workq la")
    case ok: True
    with vols have "Init_DMS_Volume_Manager True (drv_vols d) = (DMS_OK, vm)" by simp
    with ok ps(1) b(1) ne assms(3)
    have "Init_All_Modules mn la d = Some (DMS_OK,
        d\<lparr>drv_pools := ps, drv_vols := vm, drv_nodes := t, drv_workq := True, drv_nn := i\<rparr>)"
      by (simp add: Init_All_Modules_def Init_DMS_VDD_Resources_def Init_DNCS_def Init_Node_Builder_def
          Init_Metadata_Manager_def DMS_OK_def)
    with ok True ps(2) b(2) vwf show ?thesis by simp
  next
    case fail: False
    then show ?thesis
      by (cases "la_volumes la")
        (use ps vols True in \<open>auto simp: Init_All_Modules_def Init_DMS_VDD_Resources_def Init_DNCS_def
          Init_Node_Builder_def ret_defs Let_def split: prod.splits\<close>)
  qed
qed

lemma Init_DMS_VDDriver_granted:
  assumes "fresh k" and "\<forall>j. fst (la_pools la j)" and "la_nodes la" and "na_options (la_net la) \<le> 0"
    and "unloaded sizeof k d" and "all_pools la \<and> la_volumes la \<and> la_workq la \<and> la_chr la \<and> la_blk la"
  shows "\<exists>e. Init_DMS_VDDriver mn la d = Some (0, e) \<and> loaded mn sizeof k e"
  using Init_All_Modules_spec [OF assms(1-5), of mn] assms(6)
  by (auto simp: Init_DMS_VDDriver_def DMS_OK_def loaded_def Let_def)


definition demo_answers :: "bool \<Rightarrow> load_answers" where
  "demo_answers blk = \<lparr>la_pools = \<lambda>_. (True, True, True), la_volumes = True, la_nodes = True, la_workq = True,
     la_net = net_yes, la_ip = 7, la_port = 80, la_chr = True, la_blk = blk\<rparr>"

definition demo_driver :: driver where
  "demo_driver = \<lparr>drv_pools = pools_start (\<lambda>_. 64) no_mem, drv_vols = vm0, drv_nodes = no_nodes,
     drv_workq = False, drv_nn = 0, drv_state = 0, drv_chr = False, drv_blk = False\<rparr>"

lemma demo_unloaded: "unloaded (\<lambda>_. 64) no_mem demo_driver"
  by (simp add: unloaded_def demo_driver_def vm0_def no_nodes_def Init_DNCS_Manager_def)

lemma demo_answers_ok: "\<forall>j. fst (la_pools (demo_answers b) j)" "la_nodes (demo_answers b)"
    "na_options (la_net (demo_answers b)) \<le> 0" "all_pools (demo_answers b)"
  by (simp_all add: demo_answers_def net_yes_def all_pools_def granted_def)


section \<open>The unload\<close>

lemma Release_DMP_Manager_idle:
  assumes "pools_ok mn sizeof k (\<lambda>_. []) s"
  obtains s' where "Release_DMP_Manager s = Some s'" and "mp_tab s' = dmp_manager sizeof" and "same_mem (mp_mem s') k"
proof -
  have "own mn (mp_tab s) (map (\<lambda>_. []) all_objs) k (mp_mem s)" "clear (mp_tab s) = dmp_manager sizeof"
    using assms by (simp_all add: pools_ok_def)
  with Release_DMP_Manager_own [OF this(1)] that show ?thesis by auto
qed



end
