(* ===== verification/Wire.thy ===== *)
theory Wire
  imports DMS_Prelude "HOL-Library.Monad_Syntax"
begin

text \<open>
  The bytes of the protocol messages: integers in the memory of the host (x86, little
  endian), the byte swaps, and the macros \<open>READ_NET_x\<close> and \<open>WRITE_NET_x\<close> of
  \<open>DriverCore/include/DMS_Protocol_Header.h\<close>.  A buffer is the list of its bytes; a
  read past its end is a fault (\<open>None\<close>).  The locale \<open>codec\<close> states what a writer and
  a reader of a message part promise; the parts of the messages interpret it.
\<close>

section \<open>Integers in memory\<close>

fun store_le :: "nat \<Rightarrow> 'a::len word \<Rightarrow> u8 list" where
  "store_le 0 x = []"
| "store_le (Suc n) x = ucast x # store_le n (drop_bit 8 x)"

fun load_le :: "u8 list \<Rightarrow> 'a::len word" where
  "load_le [] = 0"
| "load_le (b # bs) = ucast b OR push_bit 8 (load_le bs)"

definition bswap :: "nat \<Rightarrow> 'a::len word \<Rightarrow> 'a word" where
  "bswap n x = load_le (rev (store_le n x))"

text \<open>\<open>ntohs\<close>/\<open>htons\<close> and \<open>ntohl\<close>/\<open>htonl\<close> of the kernel.\<close>

definition htons :: "u16 \<Rightarrow> u16" where "htons x = bswap 2 x"
definition htonl :: "u32 \<Rightarrow> u32" where "htonl x = bswap 4 x"

text \<open>The macro of \<open>DMS_Common.h\<close>.\<close>

definition htonll :: "u64 \<Rightarrow> u64" where
  "htonll x =
     drop_bit 56 (x AND 0xff00000000000000) OR
     drop_bit 40 (x AND 0x00ff000000000000) OR
     drop_bit 24 (x AND 0x0000ff0000000000) OR
     drop_bit 8 (x AND 0x000000ff00000000) OR
     push_bit 8 (x AND 0x00000000ff000000) OR
     push_bit 24 (x AND 0x0000000000ff0000) OR
     push_bit 40 (x AND 0x000000000000ff00) OR
     push_bit 56 (x AND 0x00000000000000ff)"

lemma length_store_le [simp]: "length (store_le n x) = n"
  by (induction n arbitrary: x) auto

lemma bit_load_le: "bit (load_le bs :: 'a::len word) i \<longleftrightarrow>
  i < LENGTH('a) \<and> i < 8 * length bs \<and> bit (bs ! (i div 8)) (i mod 8)"
proof (induction bs arbitrary: i)
  case Nil
  then show ?case by simp
next
  case (Cons b bs)
  show ?case
  proof (cases "i < 8")
    case True
    then show ?thesis by (auto simp: bit_simps)
  next
    case False
    then obtain j where i: "i = j + 8" by (metis add.commute le_Suc_ex not_less)
    have hi: "\<not> bit b i" using False bit_imp_le_length [of b i] by auto
    have d: "(j + 8) div 8 = Suc (j div 8)" by simp
    from Cons [of j] hi show ?thesis
      by (auto simp: bit_simps i d)
  qed
qed

lemma nth_store_le: "k < n \<Longrightarrow> store_le n x ! k = ucast (drop_bit (8 * k) x)"
proof (induction n arbitrary: x k)
  case 0
  then show ?case by simp
next
  case (Suc n)
  then show ?case by (cases k) (simp_all add: algebra_simps)
qed

lemma store_le_numeral: "store_le (numeral k) x = ucast x # store_le (pred_numeral k) (drop_bit 8 x)"
  by (simp add: numeral_eq_Suc)

lemma load_store_le: "LENGTH('a) \<le> 8 * n \<Longrightarrow> load_le (store_le n x) = (x :: 'a::len word)"
proof (rule bit_eqI)
  fix i
  assume len: "LENGTH('a) \<le> 8 * n" and i: "possible_bit TYPE('a word) i"
  then have "i div 8 < n" by auto
  then have "store_le n x ! (i div 8) = ucast (drop_bit (8 * (i div 8)) x)" by (rule nth_store_le)
  with i len show "bit (load_le (store_le n x) :: 'a word) i \<longleftrightarrow> bit x i"
    by (auto simp: bit_load_le bit_simps)
qed

lemma store_load_le: "8 * length bs \<le> LENGTH('a) \<Longrightarrow> store_le (length bs) (load_le bs :: 'a::len word) = bs"
proof (rule nth_equalityI)
  fix k
  assume len: "8 * length bs \<le> LENGTH('a)"
    and "k < length (store_le (length bs) (load_le bs :: 'a word))"
  then have k: "k < length bs" by simp
  show "store_le (length bs) (load_le bs :: 'a word) ! k = bs ! k"
  proof (rule bit_eqI)
    fix i
    assume "possible_bit TYPE(8 word) i"
    then have i: "i < 8" by simp
    then have "8 * k + i < 8 * length bs" using k by linarith
    with i len k show "bit (store_le (length bs) (load_le bs :: 'a word) ! k) i = bit (bs ! k) i"
      by (simp add: nth_store_le bit_simps bit_load_le add.commute)
  qed
qed simp

lemma store_bswap: "8 * n \<le> LENGTH('a) \<Longrightarrow> store_le n (bswap n (x :: 'a::len word)) = rev (store_le n x)"
  using store_load_le [of "rev (store_le n x)", where 'a = 'a] by (simp add: bswap_def)

lemma bswap_bswap: "8 * n = LENGTH('a) \<Longrightarrow> bswap n (bswap n x) = (x :: 'a::len word)"
  by (subst bswap_def) (simp add: store_bswap load_store_le)

text \<open>The macro swaps the eight bytes.\<close>

lemma store_htonll: "store_le 8 (htonll x) = rev (store_le 8 x)"
proof -
  have m: "htonll x =
     drop_bit 56 (x AND push_bit 56 (mask 8)) OR
     drop_bit 40 (x AND push_bit 48 (mask 8)) OR
     drop_bit 24 (x AND push_bit 40 (mask 8)) OR
     drop_bit 8 (x AND push_bit 32 (mask 8)) OR
     push_bit 8 (x AND push_bit 24 (mask 8)) OR
     push_bit 24 (x AND push_bit 16 (mask 8)) OR
     push_bit 40 (x AND push_bit 8 (mask 8)) OR
     push_bit 56 (x AND push_bit 0 (mask 8))"
    by (simp add: htonll_def mask_numeral push_bit_eq_mult)
  have h: "i < 8 \<Longrightarrow> bit (htonll x) i = bit x (56 + i)" "i < 8 \<Longrightarrow> bit (htonll x) (8 + i) = bit x (48 + i)"
    "i < 8 \<Longrightarrow> bit (htonll x) (16 + i) = bit x (40 + i)" "i < 8 \<Longrightarrow> bit (htonll x) (24 + i) = bit x (32 + i)"
    "i < 8 \<Longrightarrow> bit (htonll x) (32 + i) = bit x (24 + i)" "i < 8 \<Longrightarrow> bit (htonll x) (40 + i) = bit x (16 + i)"
    "i < 8 \<Longrightarrow> bit (htonll x) (48 + i) = bit x (8 + i)" "i < 8 \<Longrightarrow> bit (htonll x) (56 + i) = bit x i" for i
    by (auto simp: m bit_simps)
  show ?thesis
  proof (rule nth_equalityI)
    fix k
    assume "k < length (store_le 8 (htonll x))"
    then have k: "k < 8" by simp
    show "store_le 8 (htonll x) ! k = rev (store_le 8 x) ! k"
    proof (rule bit_eqI)
      fix i
      assume "possible_bit TYPE(8 word) i"
      then have i: "i < 8" by simp
      have "k \<in> {0, 1, 2, 3, 4, 5, 6, 7}" using k by auto
      then show "bit (store_le 8 (htonll x) ! k) i = bit (rev (store_le 8 x) ! k) i"
        using i by (auto simp: nth_store_le rev_nth bit_simps h)
    qed
  qed simp
qed

lemma bit_htonll_bswap: "htonll x = bswap 8 x"
  using load_store_le [of 8 "htonll x"] by (simp add: store_htonll bswap_def)

lemma hton_hton [simp]: "htons (htons x) = x" "htonl (htonl y) = y" "htonll (htonll z) = z"
  by (simp_all add: htons_def htonl_def bit_htonll_bswap bswap_bswap)

section \<open>The macros\<close>

text \<open>A read gives the value and the offset after it; \<open>ntohs\<close>, \<open>ntohl\<close> and \<open>ntohll\<close>
  are the same swaps.\<close>

definition READ_NET_SHORT :: "u8 list \<Rightarrow> nat \<Rightarrow> (u16 \<times> nat) option" where
  "READ_NET_SHORT buf offset =
     (if offset + 2 \<le> length buf then Some (htons (load_le (take 2 (drop offset buf))), offset + 2) else None)"

definition READ_NET_INT :: "u8 list \<Rightarrow> nat \<Rightarrow> (u32 \<times> nat) option" where
  "READ_NET_INT buf offset =
     (if offset + 4 \<le> length buf then Some (htonl (load_le (take 4 (drop offset buf))), offset + 4) else None)"

definition READ_NET_LONG :: "u8 list \<Rightarrow> nat \<Rightarrow> (u64 \<times> nat) option" where
  "READ_NET_LONG buf offset =
     (if offset + 8 \<le> length buf then Some (htonll (load_le (take 8 (drop offset buf))), offset + 8) else None)"

text \<open>What a write appends to the bytes written so far.\<close>

definition WRITE_NET_SHORT :: "u16 \<Rightarrow> u8 list" where "WRITE_NET_SHORT val = store_le 2 (htons val)"
definition WRITE_NET_INT :: "u32 \<Rightarrow> u8 list" where "WRITE_NET_INT val = store_le 4 (htonl val)"
definition WRITE_NET_LONG :: "u64 \<Rightarrow> u8 list" where "WRITE_NET_LONG val = store_le 8 (htonll val)"

lemma length_WRITE [simp]: "length (WRITE_NET_SHORT a) = 2" "length (WRITE_NET_INT b) = 4" "length (WRITE_NET_LONG c) = 8"
  by (simp_all add: WRITE_NET_SHORT_def WRITE_NET_INT_def WRITE_NET_LONG_def)

text \<open>The network order is big endian.\<close>

lemma WRITE_NET_big_endian: "WRITE_NET_SHORT a = rev (store_le 2 a)" "WRITE_NET_INT b = rev (store_le 4 b)"
  "WRITE_NET_LONG c = rev (store_le 8 c)"
  by (simp_all add: WRITE_NET_SHORT_def WRITE_NET_INT_def WRITE_NET_LONG_def htons_def htonl_def
      store_bswap store_htonll)

section \<open>Readers and writers of message parts\<close>

text \<open>A loop that reads \<open>n\<close> parts one after the other.\<close>

fun read_n :: "(u8 list \<Rightarrow> nat \<Rightarrow> ('a \<times> nat) option) \<Rightarrow> nat \<Rightarrow> u8 list \<Rightarrow> nat \<Rightarrow> ('a list \<times> nat) option" where
  "read_n rd 0 buf offset = Some ([], offset)"
| "read_n rd (Suc n) buf offset = do {
     (x, offset) \<leftarrow> rd buf offset;
     (xs, offset) \<leftarrow> read_n rd n buf offset;
     Some (x # xs, offset)
   }"

text \<open>The bytes behind what was read.\<close>

lemma drop_step: "drop i buf = w @ post \<Longrightarrow> drop (i + length w) buf = post"
  by (metis append_eq_conv_conj drop_drop add.commute)

lemma drop_bound:
  assumes "drop i buf = w @ post" and "w \<noteq> []"
  shows "i + length w \<le> length buf"
proof -
  have "length buf - i = length w + length post" using arg_cong [OF assms(1), of length] by simp
  moreover have "0 < length w" using assms(2) by blast
  ultimately show ?thesis by linarith
qed

text \<open>A reader moves forward inside the buffer; with its writer it forms a codec:
  reading what was written gives the value and stops right behind it.\<close>

locale reader =
  fixes rd :: "u8 list \<Rightarrow> nat \<Rightarrow> ('a \<times> nat) option"
  assumes forward: "rd buf i = Some (x, j) \<Longrightarrow> i \<le> j \<and> (i \<le> length buf \<longrightarrow> j \<le> length buf)"
begin

lemma read_n_forward: "read_n rd n buf i = Some (xs, j) \<Longrightarrow> i \<le> j \<and> (i \<le> length buf \<longrightarrow> j \<le> length buf) \<and> length xs = n"
proof (induction n arbitrary: i xs j)
  case 0
  then show ?case by simp
next
  case (Suc n)
  then obtain x k ys where "rd buf i = Some (x, k)" "read_n rd n buf k = Some (ys, j)" "xs = x # ys"
    by (auto simp: bind_eq_Some_conv)
  with forward [of buf i x k] Suc.IH [of k ys j] show ?case by auto
qed

end

locale codec = reader rd for rd :: "u8 list \<Rightarrow> nat \<Rightarrow> ('a \<times> nat) option" +
  fixes ok :: "'a \<Rightarrow> bool" and wr :: "'a \<Rightarrow> u8 list"
  assumes read_write: "ok x \<Longrightarrow> drop i buf = wr x @ post \<Longrightarrow> rd buf i = Some (x, i + length (wr x))"
begin

lemma read_n_write: "list_all ok xs \<Longrightarrow> drop i buf = concat (map wr xs) @ post \<Longrightarrow>
  read_n rd (length xs) buf i = Some (xs, i + length (concat (map wr xs)))"
proof (induction xs arbitrary: i)
  case Nil
  then show ?case by simp
next
  case (Cons x xs)
  from Cons.prems have "rd buf i = Some (x, i + length (wr x))"
    by (intro read_write [where post = "concat (map wr xs) @ post"]) simp_all
  moreover from Cons.prems have "drop (i + length (wr x)) buf = concat (map wr xs) @ post"
    using drop_step [of i buf "wr x"] by simp
  ultimately show ?case using Cons by (simp add: add.assoc)
qed

end

interpretation net_short: codec READ_NET_SHORT "\<lambda>_. True" WRITE_NET_SHORT
proof unfold_locales
  fix x i buf post
  assume d: "drop i buf = WRITE_NET_SHORT x @ post"
  from drop_bound [OF d] have "i + 2 \<le> length buf" by (auto simp: WRITE_NET_SHORT_def numeral_2_eq_2)
  with d show "READ_NET_SHORT buf i = Some (x, i + length (WRITE_NET_SHORT x))"
    by (simp add: READ_NET_SHORT_def WRITE_NET_SHORT_def load_store_le)
qed (auto simp: READ_NET_SHORT_def split: if_splits)

interpretation net_int: codec READ_NET_INT "\<lambda>_. True" WRITE_NET_INT
proof unfold_locales
  fix x i buf post
  assume d: "drop i buf = WRITE_NET_INT x @ post"
  have "WRITE_NET_INT x \<noteq> []" by (metis length_WRITE(2) list.size(3) zero_neq_numeral)
  from drop_bound [OF d this] have "i + 4 \<le> length buf" by simp
  with d show "READ_NET_INT buf i = Some (x, i + length (WRITE_NET_INT x))"
    by (simp add: READ_NET_INT_def WRITE_NET_INT_def load_store_le)
qed (auto simp: READ_NET_INT_def split: if_splits)

interpretation net_long: codec READ_NET_LONG "\<lambda>_. True" WRITE_NET_LONG
proof unfold_locales
  fix x i buf post
  assume d: "drop i buf = WRITE_NET_LONG x @ post"
  have "WRITE_NET_LONG x \<noteq> []" by (metis length_WRITE(3) list.size(3) zero_neq_numeral)
  from drop_bound [OF d this] have "i + 8 \<le> length buf" by simp
  with d show "READ_NET_LONG buf i = Some (x, i + length (WRITE_NET_LONG x))"
    by (simp add: READ_NET_LONG_def WRITE_NET_LONG_def load_store_le)
qed (auto simp: READ_NET_LONG_def split: if_splits)

text \<open>One step of a reader over what a writer wrote.\<close>

lemma net_step:
  "drop i buf = WRITE_NET_SHORT a @ post \<Longrightarrow> READ_NET_SHORT buf i = Some (a, i + 2) \<and> drop (i + 2) buf = post"
  "drop i buf = WRITE_NET_INT b @ post \<Longrightarrow> READ_NET_INT buf i = Some (b, i + 4) \<and> drop (i + 4) buf = post"
  "drop i buf = WRITE_NET_LONG c @ post \<Longrightarrow> READ_NET_LONG buf i = Some (c, i + 8) \<and> drop (i + 8) buf = post"
  using net_short.read_write [OF TrueI, of i buf a post] net_int.read_write [OF TrueI, of i buf b post]
    net_long.read_write [OF TrueI, of i buf c post]
    drop_step [of i buf "WRITE_NET_SHORT a" post] drop_step [of i buf "WRITE_NET_INT b" post]
    drop_step [of i buf "WRITE_NET_LONG c" post] by auto

end
