(* ===== verification/Namenode_Protocol.thy ===== *)
theory Namenode_Protocol
  imports Wire
begin

text \<open>
  The namenode protocol (\<open>DriverCore/Namenode_Protocol.c\<close>) and the data it carries
  (\<open>Metadata.h\<close>): parsing a metadata response, packing one, and the triplets that
  name a place on a datanode.  The arrays \<open>HBIDs\<close> and \<open>triplets\<close> have room for the
  blocks of one kernel request; writing past them is a fault.  Allocations succeed.
\<close>

section \<open>Data\<close>

definition MAX_BLKS :: nat where
  "MAX_BLKS = unat (KSECTORS_TO_DSECTORS 128)"   \<comment> \<open>\<open>KSECTORS_TO_DSECTORS(MAX_KSECTORS)\<close>\<close>

lemma MAX_BLKS_16 [simp]: "MAX_BLKS = 16"
  by (simp add: MAX_BLKS_def KSECTORS_TO_DSECTORS_def blk_defs)

record datanode_location =
  dl_ip :: u32
  dl_port :: u16
  dl_nr_triplets :: int
  dl_triplets :: "u64 list"
  dl_result :: int             \<comment> \<open>\<open>dn_result\<close>\<close>

record located_request =
  lr_slbid :: u64
  lr_nr_lbids :: int
  lr_state :: int
  lr_nr_hbids :: int
  lr_HBIDs :: "u64 list"
  lr_nr_dn_locs :: int
  lr_dn_locs :: "datanode_location list"
  lr_wmem_ack :: int
  lr_wdisk_ack :: int
  lr_commit_state :: nat

text \<open>\<open>qmeta_res\<close> of the body union.\<close>

record nn_body =
  q_volumeID :: u64
  q_start_LBID :: u64
  q_nr_LBIDs :: int
  q_commit_ID :: u64
  q_nr_lrs :: int
  q_lrs :: "located_request list"

definition lr_zero :: located_request where
  "lr_zero = \<lparr>lr_slbid = 0, lr_nr_lbids = 0, lr_state = 0, lr_nr_hbids = 0, lr_HBIDs = [], lr_nr_dn_locs = 0,
     lr_dn_locs = [], lr_wmem_ack = 0, lr_wdisk_ack = 0, lr_commit_state = 0\<rparr>"

definition Create_Located_Requests :: "int \<Rightarrow> located_request list" where
  "Create_Located_Requests nr_lrs = replicate (nat nr_lrs) lr_zero"

definition QUERY_FOR_READ :: int where "QUERY_FOR_READ = DMS_OP_READ"
definition QUERY_FOR_WRITE :: int where "QUERY_FOR_WRITE = DMS_OP_WRITE"
definition QUERY_FOR_OVERWRITE :: int where "QUERY_FOR_OVERWRITE = DMS_OP_OVERWRITE"
definition SERVICE :: int where "SERVICE = 1"
definition RESPONSE :: int where "RESPONSE = 2"

lemmas nn_defs = QUERY_FOR_READ_def QUERY_FOR_WRITE_def QUERY_FOR_OVERWRITE_def SERVICE_def RESPONSE_def op_defs ret_defs

text \<open>The triplet of \<open>Metadata.h\<close>: which resource block, how many blocks, from which one on.\<close>

definition compose_triple :: "int \<Rightarrow> int \<Rightarrow> int \<Rightarrow> u64" where
  "compose_triple rbid len offset =
     push_bit 32 (word_of_int rbid) OR push_bit 20 (word_of_int len) OR word_of_int offset"

definition decompose_triple :: "u64 \<Rightarrow> int \<times> int \<times> int" where
  "decompose_triple val =
     (let tmp = push_bit 32 val in
      (sint (ucast (drop_bit 32 val) :: u32),
       sint (ucast (drop_bit 32 tmp) :: u32) div 2 ^ 20,
       sint (ucast (val AND 0xffff) :: u32)))"

section \<open>Parsing\<close>

text \<open>The loops over the arrays; a \<open>short\<close> of the message is a signed count.\<close>

definition read_array :: "int \<Rightarrow> u8 list \<Rightarrow> nat \<Rightarrow> (u64 list \<times> nat) option" where
  "read_array n buf offset = (if n > int MAX_BLKS then None else read_n READ_NET_LONG (nat n) buf offset)"

definition Parse_Datanode_Location :: "u8 list \<Rightarrow> nat \<Rightarrow> (datanode_location \<times> nat) option" where
  "Parse_Datanode_Location buf offset = do {
     (ip, offset) \<leftarrow> READ_NET_INT buf offset;
     (port, offset) \<leftarrow> READ_NET_SHORT buf offset;
     (nr, offset) \<leftarrow> READ_NET_INT buf offset;
     (ts, offset) \<leftarrow> read_array (sint (ucast nr :: u16)) buf offset;
     Some (\<lparr>dl_ip = ip, dl_port = port, dl_nr_triplets = sint (ucast nr :: u16), dl_triplets = ts, dl_result = 0\<rparr>, offset)
   }"

definition Parse_Datanode_Locations :: "int \<Rightarrow> u8 list \<Rightarrow> (datanode_location list \<times> int) option" where
  "Parse_Datanode_Locations nr_dn_locs buf = do {
     (dls, offset) \<leftarrow> read_n Parse_Datanode_Location (nat nr_dn_locs) buf 0;
     Some (dls, int offset)
   }"

definition Parse_Located_Request :: "located_request \<Rightarrow> u8 list \<Rightarrow> u64 \<Rightarrow> (located_request \<times> int) option" where
  "Parse_Located_Request lr buf slbid = do {
     (state, offset) \<leftarrow> READ_NET_SHORT buf 0;
     (nr, offset) \<leftarrow> READ_NET_SHORT buf offset;
     (hbids, offset) \<leftarrow> read_array (sint nr) buf offset;
     (nr_dn, offset) \<leftarrow> READ_NET_SHORT buf offset;
     (dls, retcode) \<leftarrow> Parse_Datanode_Locations (sint nr_dn) (drop offset buf);
     Some (lr\<lparr>lr_slbid := slbid, lr_nr_lbids := sint nr, lr_state := sint state, lr_nr_hbids := sint nr,
              lr_HBIDs := hbids, lr_nr_dn_locs := sint nr_dn, lr_dn_locs := dls\<rparr>,
           if retcode > 0 then retcode + int offset else retcode)
   }"

fun Parse_Located_Requests_from :: "located_request list \<Rightarrow> u64 \<Rightarrow> u8 list \<Rightarrow> int \<Rightarrow> int \<Rightarrow> (located_request list \<times> int) option" where
  "Parse_Located_Requests_from [] slbid buf buf_offset lbid_offset = Some ([], buf_offset)"
| "Parse_Located_Requests_from (lr # lrs) slbid buf buf_offset lbid_offset = do {
     (lr, retcode) \<leftarrow> Parse_Located_Request lr (drop (nat buf_offset) buf) (slbid + word_of_int lbid_offset);
     if retcode > 0 then do {
       (lrs, retcode) \<leftarrow> Parse_Located_Requests_from lrs slbid buf (buf_offset + retcode)
           (c_short (lbid_offset + lr_nr_lbids lr));
       Some (lr # lrs, retcode)
     } else Some (lr # lrs, retcode)
   }"

definition Parse_Located_Requests :: "located_request list \<Rightarrow> u64 \<Rightarrow> u8 list \<Rightarrow> (located_request list \<times> int) option" where
  "Parse_Located_Requests lrs slbid buf = Parse_Located_Requests_from lrs slbid buf 0 0"

definition Parse_Metadata_Response :: "u8 list \<Rightarrow> (int \<times> nn_body) option" where
  "Parse_Metadata_Response buf = do {
     (volumeID, offset) \<leftarrow> READ_NET_LONG buf 0;
     (start_LBID, offset) \<leftarrow> READ_NET_LONG buf offset;
     (nr_LBIDs, offset) \<leftarrow> READ_NET_SHORT buf offset;
     (commit_ID, offset) \<leftarrow> READ_NET_LONG buf offset;
     (nr_lrs, offset) \<leftarrow> READ_NET_SHORT buf offset;
     (lrs, retcode) \<leftarrow> Parse_Located_Requests (Create_Located_Requests (uint nr_lrs)) start_LBID (drop offset buf);
     Some (if retcode > 0 then retcode + int offset else retcode,
       \<lparr>q_volumeID = volumeID, q_start_LBID = start_LBID, q_nr_LBIDs = sint nr_LBIDs, q_commit_ID = commit_ID,
        q_nr_lrs = uint nr_lrs, q_lrs = lrs\<rparr>)
   }"

text \<open>The body is only written by a response that is parsed.\<close>

definition Parse_NN_Protocol_Body :: "int \<Rightarrow> int \<Rightarrow> u8 list \<Rightarrow> nn_body \<Rightarrow> (int \<times> nn_body) option" where
  "Parse_NN_Protocol_Body service_type sub_type buf body =
     (if sub_type \<noteq> RESPONSE then
        if service_type \<in> {QUERY_FOR_READ, QUERY_FOR_WRITE, QUERY_FOR_OVERWRITE}
        then Parse_Metadata_Response buf
        else Some (- DMS_FAIL, body)
      else Some (- DMS_FAIL, body))"

section \<open>Packing\<close>

text \<open>
  Writing goes to a buffer that is large enough.  \<open>nr_triplets\<close> is a local \<open>short\<close>:
  \<open>WRITE_NET_INT\<close> stores the swapped \<open>int\<close> in it, which keeps the low half, and then
  copies four bytes from it; \<open>nb\<close> are the two bytes of the stack behind it.
\<close>

definition Pack_nr_triplets :: "u8 list \<Rightarrow> int \<Rightarrow> u8 list" where
  "Pack_nr_triplets nb nr = store_le 2 (ucast (htonl (word_of_int nr)) :: u16) @ nb"

definition Pack_Datanode_Location :: "u8 list \<Rightarrow> datanode_location \<Rightarrow> u8 list" where
  "Pack_Datanode_Location nb l =
     WRITE_NET_INT (dl_ip l) @ WRITE_NET_SHORT (dl_port l) @ Pack_nr_triplets nb (dl_nr_triplets l)
     @ concat (map WRITE_NET_LONG (take (nat (dl_nr_triplets l)) (dl_triplets l)))"

definition Pack_Datanode_Locations :: "u8 list \<Rightarrow> located_request \<Rightarrow> u8 list" where
  "Pack_Datanode_Locations nb lr =
     WRITE_NET_SHORT (word_of_int (lr_nr_dn_locs lr))
     @ concat (map (Pack_Datanode_Location nb) (take (nat (lr_nr_dn_locs lr)) (lr_dn_locs lr)))"

definition Pack_Located_Request :: "u8 list \<Rightarrow> located_request \<Rightarrow> u8 list" where
  "Pack_Located_Request nb lr =
     WRITE_NET_SHORT (word_of_int (lr_state lr)) @ WRITE_NET_SHORT (word_of_int (lr_nr_hbids lr))
     @ concat (map WRITE_NET_LONG (take (nat (lr_nr_hbids lr)) (lr_HBIDs lr)))
     @ WRITE_NET_SHORT (word_of_int (lr_nr_dn_locs lr)) @ Pack_Datanode_Locations nb lr"

definition Pack_Located_Requests :: "u8 list \<Rightarrow> int \<Rightarrow> located_request list \<Rightarrow> u8 list" where
  "Pack_Located_Requests nb nr_lrs lrs = concat (map (Pack_Located_Request nb) (take (nat nr_lrs) lrs))"

text \<open>The bytes and the value returned.\<close>

definition Pack_Metadata_Response :: "u8 list \<Rightarrow> nn_body \<Rightarrow> u8 list \<times> int" where
  "Pack_Metadata_Response nb b =
     (let head = WRITE_NET_LONG (q_volumeID b) @ WRITE_NET_LONG (q_start_LBID b) @ WRITE_NET_SHORT (word_of_int (q_nr_LBIDs b))
            @ WRITE_NET_LONG (q_commit_ID b) @ WRITE_NET_SHORT (word_of_int (q_nr_lrs b));
          lrs = Pack_Located_Requests nb (q_nr_lrs b) (q_lrs b)
      in (head @ lrs, if 0 < length lrs then int (length lrs) + int (length head) else int (length lrs)))"

section \<open>The wire format that the parser reads\<close>

definition encode_location :: "datanode_location \<Rightarrow> u8 list" where
  "encode_location l = WRITE_NET_INT (dl_ip l) @ WRITE_NET_SHORT (dl_port l) @ WRITE_NET_INT (word_of_int (dl_nr_triplets l))
     @ concat (map WRITE_NET_LONG (dl_triplets l))"

definition encode_request :: "located_request \<Rightarrow> u8 list" where
  "encode_request lr = WRITE_NET_SHORT (word_of_int (lr_state lr)) @ WRITE_NET_SHORT (word_of_int (lr_nr_hbids lr))
     @ concat (map WRITE_NET_LONG (lr_HBIDs lr)) @ WRITE_NET_SHORT (word_of_int (lr_nr_dn_locs lr))
     @ concat (map encode_location (lr_dn_locs lr))"

definition encode_response :: "nn_body \<Rightarrow> u8 list" where
  "encode_response b = WRITE_NET_LONG (q_volumeID b) @ WRITE_NET_LONG (q_start_LBID b) @ WRITE_NET_SHORT (word_of_int (q_nr_LBIDs b))
     @ WRITE_NET_LONG (q_commit_ID b) @ WRITE_NET_SHORT (word_of_int (q_nr_lrs b)) @ concat (map encode_request (q_lrs b))"

definition location_ok :: "datanode_location \<Rightarrow> bool" where
  "location_ok l \<longleftrightarrow> dl_nr_triplets l = int (length (dl_triplets l)) \<and> length (dl_triplets l) \<le> MAX_BLKS \<and> dl_result l = 0"

definition request_ok :: "located_request \<Rightarrow> bool" where
  "request_ok lr \<longleftrightarrow> - 32768 \<le> lr_state lr \<and> lr_state lr < 32768
     \<and> lr_nr_hbids lr = int (length (lr_HBIDs lr)) \<and> length (lr_HBIDs lr) \<le> MAX_BLKS \<and> lr_nr_lbids lr = lr_nr_hbids lr
     \<and> lr_nr_dn_locs lr = int (length (lr_dn_locs lr)) \<and> length (lr_dn_locs lr) < 32768
     \<and> list_all location_ok (lr_dn_locs lr)
     \<and> lr_wmem_ack lr = 0 \<and> lr_wdisk_ack lr = 0 \<and> lr_commit_state lr = 0"

text \<open>The requests of a response follow each other in the volume.\<close>

fun numbered :: "u64 \<Rightarrow> located_request list \<Rightarrow> bool" where
  "numbered s [] = True"
| "numbered s (lr # lrs) = (lr_slbid lr = s \<and> numbered (s + word_of_int (lr_nr_lbids lr)) lrs)"

definition response_ok :: "nn_body \<Rightarrow> bool" where
  "response_ok b \<longleftrightarrow> - 32768 \<le> q_nr_LBIDs b \<and> q_nr_LBIDs b < 32768
     \<and> q_nr_lrs b = int (length (q_lrs b)) \<and> length (q_lrs b) < 65536 \<and> list_all request_ok (q_lrs b)
     \<and> numbered (q_start_LBID b) (q_lrs b) \<and> (\<Sum>lr \<leftarrow> q_lrs b. lr_nr_lbids lr) < 32768"

text \<open>What the parser delivers: everything up to and including the first request without a
  datanode location.\<close>

fun cut_requests :: "located_request list \<Rightarrow> located_request list" where
  "cut_requests [] = []"
| "cut_requests (lr # lrs) =
     (if lr_dn_locs lr = [] then lr # replicate (length lrs) lr_zero else lr # cut_requests lrs)"

section \<open>The readers of the parts\<close>

lemma sint_short: "- 32768 \<le> x \<Longrightarrow> x < 32768 \<Longrightarrow> sint (word_of_int x :: u16) = x"
  by (simp add: sint_sbintrunc' signed_take_bit_int_eq_self)

lemma sint_len: "n < 32768 \<Longrightarrow> sint (of_nat n :: u16) = int n"
  using sint_short [of "int n"] by simp

lemma sint_ucast_len: "n < 32768 \<Longrightarrow> sint (ucast (of_nat n :: u32) :: u16) = int n"
proof -
  assume n: "n < 32768"
  have "(ucast (of_nat n :: u32) :: u16) = of_nat n"
    by (rule word_unat_eq_iff [THEN iffD2]) (use n in \<open>simp add: unsigned_of_nat unsigned_ucast_eq take_bit_nat_eq_self\<close>)
  with n show ?thesis by (simp only: sint_len)
qed

lemma read_array_write: "length xs \<le> MAX_BLKS \<Longrightarrow> drop i buf = concat (map WRITE_NET_LONG xs) @ post \<Longrightarrow>
  read_array (int (length xs)) buf i = Some (xs, i + length (concat (map WRITE_NET_LONG xs)))
  \<and> drop (i + length (concat (map WRITE_NET_LONG xs))) buf = post"
  using net_long.read_n_write [of xs i buf post] drop_step [of i buf "concat (map WRITE_NET_LONG xs)" post]
  by (simp add: read_array_def list_all_iff)

interpretation location: codec Parse_Datanode_Location location_ok encode_location
proof unfold_locales
  fix buf i x j
  assume "Parse_Datanode_Location buf i = Some (x, j)"
  then show "i \<le> j \<and> (i \<le> length buf \<longrightarrow> j \<le> length buf)"
    by (auto simp: Parse_Datanode_Location_def bind_eq_Some_conv read_array_def split: if_splits
        dest!: net_int.forward net_short.forward net_long.read_n_forward)
next
  fix l i buf post
  assume ok: "location_ok l" and d: "drop i buf = encode_location l @ post"
  let ?ts = "concat (map WRITE_NET_LONG (dl_triplets l))"
  from d have 1: "drop i buf = WRITE_NET_INT (dl_ip l) @ WRITE_NET_SHORT (dl_port l)
      @ WRITE_NET_INT (word_of_int (dl_nr_triplets l)) @ ?ts @ post" by (simp add: encode_location_def)
  note s1 = net_step(2) [OF 1] and s2 = net_step(1) [OF net_step(2) [OF 1, THEN conjunct2]]
  note s3 = net_step(2) [OF s2 [THEN conjunct2]]
  have len: "length (dl_triplets l) \<le> MAX_BLKS" "dl_nr_triplets l = int (length (dl_triplets l))" "dl_result l = 0"
    using ok by (simp_all add: location_ok_def)
  note s4 = read_array_write [OF len(1) s3 [THEN conjunct2]]
  show "Parse_Datanode_Location buf i = Some (l, i + length (encode_location l))"
    using s1 s2 s3 s4 len by (simp add: Parse_Datanode_Location_def encode_location_def sint_ucast_len)
qed

lemma encode_location_ne: "concat (map encode_location ls) = [] \<longleftrightarrow> ls = []"
proof (cases ls)
  case (Cons l ls')
  have "length (encode_location l) > 0" by (simp add: encode_location_def)
  with Cons show ?thesis by auto
qed simp

lemma parse_request:
  assumes ok: "request_ok lr" and buf: "buf = encode_request lr @ post"
  shows "Parse_Located_Request lr_zero buf s
    = Some (lr\<lparr>lr_slbid := s\<rparr>, if lr_dn_locs lr = [] then 0 else int (length (encode_request lr)))"
proof -
  let ?hb = "concat (map WRITE_NET_LONG (lr_HBIDs lr))" and ?dl = "concat (map encode_location (lr_dn_locs lr))"
  have len: "length (lr_HBIDs lr) \<le> MAX_BLKS" "length (lr_dn_locs lr) < 32768" "list_all location_ok (lr_dn_locs lr)"
    "lr_nr_hbids lr = int (length (lr_HBIDs lr))" "lr_nr_dn_locs lr = int (length (lr_dn_locs lr))"
    and st: "sint (word_of_int (lr_state lr) :: u16) = lr_state lr"
    using ok sint_short [of "lr_state lr"] by (simp_all add: request_ok_def)
  from buf have 1: "drop 0 buf = WRITE_NET_SHORT (word_of_int (lr_state lr)) @ WRITE_NET_SHORT (word_of_int (lr_nr_hbids lr))
      @ ?hb @ WRITE_NET_SHORT (word_of_int (lr_nr_dn_locs lr)) @ ?dl @ post"
    by (simp add: encode_request_def)
  note s1 = net_step(1) [OF 1] and s2 = net_step(1) [OF net_step(1) [OF 1, THEN conjunct2]]
  note s3 = read_array_write [OF len(1) s2 [THEN conjunct2]]
  note s4 = net_step(1) [OF s3 [THEN conjunct2]]
  have s5: "read_n Parse_Datanode_Location (length (lr_dn_locs lr)) (?dl @ post) 0 = Some (lr_dn_locs lr, length ?dl)"
    using location.read_n_write [OF len(3), of 0 "?dl @ post" post] by simp
  have l: "length (encode_request lr) = 6 + length ?hb + length ?dl" by (simp add: encode_request_def)
  have lr: "lr = \<lparr>lr_slbid = lr_slbid lr, lr_nr_lbids = lr_nr_lbids lr, lr_state = lr_state lr, lr_nr_hbids = lr_nr_hbids lr,
     lr_HBIDs = lr_HBIDs lr, lr_nr_dn_locs = lr_nr_dn_locs lr, lr_dn_locs = lr_dn_locs lr, lr_wmem_ack = lr_wmem_ack lr,
     lr_wdisk_ack = lr_wdisk_ack lr, lr_commit_state = lr_commit_state lr\<rparr>" by simp
  show ?thesis
    using s1 s2 s3 s4 s5 len st ok l encode_location_ne [of "lr_dn_locs lr"]
    by (subst (2) lr) (auto simp: Parse_Located_Request_def Parse_Datanode_Locations_def lr_zero_def sint_len request_ok_def)
qed

lemma sum_lbids_nonneg: "list_all request_ok lrs \<Longrightarrow> 0 \<le> (\<Sum>lr \<leftarrow> lrs. lr_nr_lbids lr)"
  by (rule sum_list_nonneg) (auto simp: list_all_iff request_ok_def)

lemma parse_requests:
  "list_all request_ok lrs \<Longrightarrow> numbered (s + word_of_int off) lrs \<Longrightarrow> 0 \<le> off \<Longrightarrow>
   off + (\<Sum>lr \<leftarrow> lrs. lr_nr_lbids lr) < 32768 \<Longrightarrow>
   drop i buf = concat (map encode_request lrs) @ post \<Longrightarrow>
   Parse_Located_Requests_from (replicate (length lrs) lr_zero) s buf (int i) off
   = Some (cut_requests lrs, if list_all (\<lambda>lr. lr_dn_locs lr \<noteq> []) lrs
       then int i + int (length (concat (map encode_request lrs))) else 0)"
proof (induction lrs arbitrary: off i)
  case Nil
  then show ?case by simp
next
  case (Cons lr lrs)
  let ?e = "encode_request lr" and ?o = "off + lr_nr_lbids lr"
  have ok: "request_ok lr" and oks: "list_all request_ok lrs" using Cons.prems(1) by simp_all
  have buf: "drop i buf = ?e @ concat (map encode_request lrs) @ post" using Cons.prems(5) by simp
  have lr: "lr\<lparr>lr_slbid := s + word_of_int off\<rparr> = lr" using Cons.prems(2) by simp
  note p = parse_request [OF ok buf, of "s + word_of_int off", unfolded lr]
  show ?case
  proof (cases "lr_dn_locs lr = []")
    case True
    with p show ?thesis by simp
  next
    case False
    have pos: "0 < length ?e" by (simp add: encode_request_def)
    have nn: "0 \<le> lr_nr_lbids lr" using ok by (simp add: request_ok_def)
    with Cons.prems(3,4) sum_lbids_nonneg [OF oks] have o: "0 \<le> ?o" "c_short ?o = ?o"
      "?o + (\<Sum>lr \<leftarrow> lrs. lr_nr_lbids lr) < 32768" by (auto intro!: c_short_id)
    have num: "numbered (s + word_of_int ?o) lrs" using Cons.prems(2) by (simp add: add.assoc)
    from Cons.IH [OF oks num o(1,3) drop_step [OF buf]] p False pos o(2)
    show ?thesis by (simp add: list_all_iff)
  qed
qed

section \<open>Responses\<close>

lemma parse_encode:
  assumes ok: "response_ok b" and "service_type \<in> {QUERY_FOR_READ, QUERY_FOR_WRITE, QUERY_FOR_OVERWRITE}"
    and "sub_type \<noteq> RESPONSE"
  shows "Parse_NN_Protocol_Body service_type sub_type (encode_response b @ post) b0
    = Some (if q_lrs b \<noteq> [] \<and> list_all (\<lambda>lr. lr_dn_locs lr \<noteq> []) (q_lrs b) then int (length (encode_response b)) else 0,
            b\<lparr>q_lrs := cut_requests (q_lrs b)\<rparr>)"
proof -
  let ?buf = "encode_response b @ post" and ?lrs = "concat (map encode_request (q_lrs b))"
  have len: "length (q_lrs b) < 65536" "q_nr_lrs b = int (length (q_lrs b))" "list_all request_ok (q_lrs b)"
    "numbered (q_start_LBID b) (q_lrs b)" "(\<Sum>lr \<leftarrow> q_lrs b. lr_nr_lbids lr) < 32768"
    and n: "sint (word_of_int (q_nr_LBIDs b) :: u16) = q_nr_LBIDs b"
    using ok sint_short [of "q_nr_LBIDs b"] by (simp_all add: response_ok_def)
  have nr: "uint (of_nat (length (q_lrs b)) :: u16) = int (length (q_lrs b))" "unat (of_nat (length (q_lrs b)) :: u16) = length (q_lrs b)"
    using len(1) by (simp_all add: unsigned_of_nat take_bit_nat_eq_self)
  have 1: "drop 0 ?buf = WRITE_NET_LONG (q_volumeID b) @ WRITE_NET_LONG (q_start_LBID b)
      @ WRITE_NET_SHORT (word_of_int (q_nr_LBIDs b)) @ WRITE_NET_LONG (q_commit_ID b)
      @ WRITE_NET_SHORT (word_of_int (q_nr_lrs b)) @ ?lrs @ post" by (simp add: encode_response_def)
  note s1 = net_step(3) [OF 1] and s2 = net_step(3) [OF net_step(3) [OF 1, THEN conjunct2]]
  note s3 = net_step(1) [OF s2 [THEN conjunct2]]
  note s4 = net_step(3) [OF s3 [THEN conjunct2]]
  note s5 = net_step(1) [OF s4 [THEN conjunct2]]
  have p: "Parse_Located_Requests_from (replicate (length (q_lrs b)) lr_zero) (q_start_LBID b) (?lrs @ post) 0 0
    = Some (cut_requests (q_lrs b), if list_all (\<lambda>lr. lr_dn_locs lr \<noteq> []) (q_lrs b) then int (length ?lrs) else 0)"
    using parse_requests [OF len(3), of "q_start_LBID b" 0 0 "?lrs @ post" post] len(4,5) by simp
  have l: "length (encode_response b) = 28 + length ?lrs" by (simp add: encode_response_def)
  have ne: "0 < length ?lrs \<longleftrightarrow> q_lrs b \<noteq> []" by (cases "q_lrs b") (simp_all add: encode_request_def)
  have "Parse_Metadata_Response ?buf
    = Some (if q_lrs b \<noteq> [] \<and> list_all (\<lambda>lr. lr_dn_locs lr \<noteq> []) (q_lrs b) then int (length (encode_response b)) else 0,
            b\<lparr>q_lrs := cut_requests (q_lrs b)\<rparr>)"
    using s1 s2 s3 s4 s5 p ne
    by (simp add: Parse_Metadata_Response_def Parse_Located_Requests_def Create_Located_Requests_def nr l len(2) n del: length_concat length_greater_0_conv)
  with assms(2,3) show ?thesis by (simp add: Parse_NN_Protocol_Body_def)
qed



lemma read_array_bound: "read_array n buf i = Some (xs, j) \<Longrightarrow>
  i \<le> j \<and> (i \<le> length buf \<longrightarrow> j \<le> length buf) \<and> length xs \<le> MAX_BLKS"
  by (auto simp: read_array_def split: if_splits dest!: net_long.read_n_forward)

definition in_arrays :: "located_request \<Rightarrow> bool" where
  "in_arrays lr \<longleftrightarrow> length (lr_HBIDs lr) \<le> MAX_BLKS \<and> (\<forall>l \<in> set (lr_dn_locs lr). length (dl_triplets l) \<le> MAX_BLKS)"

lemma location_bound: "Parse_Datanode_Location buf i = Some (l, j) \<Longrightarrow> length (dl_triplets l) \<le> MAX_BLKS"
  by (auto simp: Parse_Datanode_Location_def bind_eq_Some_conv dest!: read_array_bound)

lemma triplets_bound: "read_n Parse_Datanode_Location n buf i = Some (ls, j) \<Longrightarrow>
  \<forall>l \<in> set ls. length (dl_triplets l) \<le> MAX_BLKS"
  by (induction n arbitrary: i ls j) (fastforce simp: bind_eq_Some_conv dest: location_bound)+

lemma locations_bound: "read_n Parse_Datanode_Location n buf i = Some (ls, j) \<Longrightarrow>
  (i \<le> length buf \<longrightarrow> j \<le> length buf) \<and> (\<forall>l \<in> set ls. length (dl_triplets l) \<le> MAX_BLKS)"
  using location.read_n_forward [of n buf i ls j] triplets_bound [of n buf i ls j] by simp

lemma request_bound: "Parse_Located_Request lr buf s = Some (lr', r) \<Longrightarrow> 0 \<le> r \<and> r \<le> int (length buf) \<and> in_arrays lr'"
  by (auto simp: Parse_Located_Request_def Parse_Datanode_Locations_def bind_eq_Some_conv in_arrays_def
      dest!: net_short.forward read_array_bound locations_bound split: if_splits)

lemma requests_bound:
  "Parse_Located_Requests_from lrs s buf i off = Some (lrs', r) \<Longrightarrow> 0 \<le> i \<Longrightarrow> i \<le> int (length buf) \<Longrightarrow> list_all in_arrays lrs \<Longrightarrow>
   0 \<le> r \<and> r \<le> int (length buf) \<and> list_all in_arrays lrs' \<and> length lrs' = length lrs"
proof (induction lrs arbitrary: i off lrs' r)
  case Nil
  then show ?case by simp
next
  case (Cons lr lrs)
  from Cons.prems(1) obtain lr1 r1 where p: "Parse_Located_Request lr (drop (nat i) buf) (s + word_of_int off) = Some (lr1, r1)"
    by (auto simp: bind_eq_Some_conv)
  with request_bound [OF p] Cons.prems(2,3) have b: "0 \<le> r1" "i + r1 \<le> int (length buf)" "in_arrays lr1" by auto
  show ?case
  proof (cases "r1 > 0")
    case True
    with Cons.prems(1) p obtain us where u: "Parse_Located_Requests_from lrs s buf (i + r1) (c_short (off + lr_nr_lbids lr1)) = Some (us, r)"
      "lrs' = lr1 # us" by (auto simp: bind_eq_Some_conv)
    from Cons.IH [OF u(1)] b Cons.prems(2,4) u(2) show ?thesis by simp
  next
    case False
    with Cons.prems p b show ?thesis by auto
  qed
qed

lemma zero_in_arrays: "list_all in_arrays (Create_Located_Requests n)"
  by (simp add: Create_Located_Requests_def list_all_iff in_arrays_def lr_zero_def)

lemma length_Create [simp]: "length (Create_Located_Requests n) = nat n"
  by (simp add: Create_Located_Requests_def)


section \<open>Witnesses\<close>

definition ex_location :: datanode_location where
  "ex_location = \<lparr>dl_ip = 0x0A000007, dl_port = 40010, dl_nr_triplets = 2, dl_triplets = [0x100000002, 7], dl_result = 0\<rparr>"

definition ex_request :: "u64 \<Rightarrow> datanode_location list \<Rightarrow> located_request" where
  "ex_request s ls = lr_zero\<lparr>lr_slbid := s, lr_nr_lbids := 2, lr_state := 1, lr_nr_hbids := 2, lr_HBIDs := [11, 12],
     lr_nr_dn_locs := int (length ls), lr_dn_locs := ls\<rparr>"

definition ex_response :: nn_body where
  "ex_response = \<lparr>q_volumeID = 123, q_start_LBID = 1, q_nr_LBIDs = 4, q_commit_ID = 9, q_nr_lrs = 2,
     q_lrs = [ex_request 1 [ex_location], ex_request 3 [ex_location, ex_location]]\<rparr>"

lemmas ex_defs = ex_location_def ex_request_def ex_response_def lr_zero_def

lemma ex_response_ok: "response_ok ex_response"
  by (simp add: ex_defs response_ok_def request_ok_def location_ok_def)



section \<open>Triplets\<close>

lemma sint_word_of_int: "sint (word_of_int x :: u32) = signed_take_bit 31 x"
  by (simp add: sint_sbintrunc')

lemma signed_take_12: "0 \<le> len \<Longrightarrow> len < 4096 \<Longrightarrow> signed_take_bit 11 len = (if len < 2048 then len else len - (4096 :: int))"
proof -
  assume l: "0 \<le> len" "len < 4096"
  have "(len + 2048) mod 4096 = (if len < 2048 then len + 2048 else len - 2048)"
  proof (cases "len < 2048")
    case False
    have "(len - 2048 + 4096) mod 4096 = (len - 2048) mod 4096" by (rule mod_add_self2)
    with False l show ?thesis by (simp add: add.commute)
  qed (use l in simp)
  then show ?thesis by (simp add: signed_take_bit_eq_take_bit_shift take_bit_eq_mod)
qed

lemma bit_small: "0 \<le> x \<Longrightarrow> x < 2 ^ n \<Longrightarrow> n \<le> i \<Longrightarrow> \<not> bit (x :: int) i"
  by (metis bit_take_bit_iff leD take_bit_int_eq_self)

text \<open>Taking a composed triplet apart gives the resource block back always, the number of
  blocks when it is below 2048 and 4096 too few otherwise, and the offset only
  modulo 65536: the round trip is exact for less than half of the 12 bits of the
  length and a sixteenth of the 20 bits of the offset.\<close>
theorem decompose_compose:
  assumes "- (2 ^ 31) \<le> rbid" "rbid < 2 ^ 31" "0 \<le> len" "len < 4096" "0 \<le> offset" "offset < 2 ^ 20"
  shows "decompose_triple (compose_triple rbid len offset)
    = (rbid, if len < 2048 then len else len - 4096, offset mod 65536)"
proof -
  let ?c = "compose_triple rbid len offset"
  have l: "12 \<le> i \<Longrightarrow> \<not> bit len i" and o: "20 \<le> i \<Longrightarrow> \<not> bit offset i" for i
    using bit_small [of len 12 i] bit_small [of offset 20 i] assms by simp_all
  have c: "bit ?c i \<longleftrightarrow> i < 64 \<and> (32 \<le> i \<and> bit rbid (i - 32) \<or> 20 \<le> i \<and> bit len (i - 20) \<or> bit offset i)" for i
    by (auto simp: compose_triple_def bit_simps)
  have "(ucast (drop_bit 32 ?c) :: u32) = word_of_int rbid"
    by (rule bit_eqI) (auto simp: bit_simps c l o)
  then have 1: "sint (ucast (drop_bit 32 ?c) :: u32) = rbid"
    using assms by (simp add: sint_sbintrunc' signed_take_bit_int_eq_self)
  have "(ucast (drop_bit 32 (push_bit 32 ?c)) :: u32) = word_of_int (push_bit 20 len OR offset)"
    by (rule bit_eqI) (auto simp: bit_simps c)
  then have "sint (ucast (drop_bit 32 (push_bit 32 ?c)) :: u32) div 2 ^ 20 = drop_bit 20 (signed_take_bit 31 (push_bit 20 len OR offset))"
    by (simp only: sint_word_of_int drop_bit_eq_div)
  also have "\<dots> = signed_take_bit 11 len"
  proof (rule bit_eqI)
    fix i
    have "min 31 (20 + i :: nat) = 20 + min 11 i" by simp
    then show "bit (drop_bit 20 (signed_take_bit 31 (push_bit 20 len OR offset))) i \<longleftrightarrow> bit (signed_take_bit 11 len) i"
      using o [of "20 + min 11 i"] by (simp only: bit_drop_bit_eq bit_signed_take_bit_iff bit_or_iff comp_def) (simp add: bit_push_bit_iff)
  qed
  also have "\<dots> = (if len < 2048 then len else len - 4096)"
    using assms(3,4) by (rule signed_take_12)
  finally have 2: "sint (ucast (drop_bit 32 (push_bit 32 ?c)) :: u32) div 2 ^ 20 = (if len < 2048 then len else len - 4096)" .
  have m: "(0xffff :: u64) = mask 16" by (simp add: mask_numeral)
  have "(ucast (?c AND 0xffff) :: u32) = word_of_int (take_bit 16 offset)"
    unfolding m by (rule bit_eqI) (auto simp: bit_simps c)
  moreover have "take_bit 16 offset = offset mod 65536" by (simp add: take_bit_eq_mod)
  moreover have "0 \<le> offset mod 65536" "offset mod 65536 < 65536" by simp_all
  ultimately have 3: "sint (ucast (?c AND 0xffff) :: u32) = offset mod 65536"
    by (simp add: sint_sbintrunc' signed_take_bit_int_eq_self)
  from 1 2 3 show ?thesis by (simp add: decompose_triple_def Let_def)
qed

theorem decompose_compose_witness:
  "decompose_triple (compose_triple 1009778692 4095 0x10005) = (1009778692, - 1, 5)"
  using decompose_compose [of 1009778692 4095 "0x10005"] by simp

section \<open>What the packer writes\<close>

lemma pack_shift:
  "WRITE_NET_SHORT nd @ WRITE_NET_INT ip @ WRITE_NET_SHORT port @ [0, 0]
   = WRITE_NET_INT (push_bit 16 (ucast nd) OR drop_bit 16 ip) @ WRITE_NET_SHORT (ucast ip) @ WRITE_NET_INT (push_bit 16 (ucast port))"
  apply (simp add: WRITE_NET_big_endian store_le_numeral del: push_bit_of_1 push_bit_numeral)
  apply (intro conjI)
  apply (rule bit_eqI, auto simp: bit_simps)+
  done

lemma Pack_nr: "0 \<le> nr \<Longrightarrow> nr < 32768 \<Longrightarrow> Pack_nr_triplets nb nr = [0, 0] @ nb"
  using bit_small [of nr 15]
  apply (simp add: Pack_nr_triplets_def htonl_def bswap_def store_le_numeral)
  apply (rule conjI)
  apply (rule bit_eqI, auto simp: bit_simps)+
  done

text \<open>How the first location comes back.\<close>

definition misread :: "datanode_location \<Rightarrow> int \<Rightarrow> datanode_location" where
  "misread l nr_dn_locs = \<lparr>dl_ip = push_bit 16 (word_of_int nr_dn_locs) OR drop_bit 16 (dl_ip l), dl_port = ucast (dl_ip l),
     dl_nr_triplets = 0, dl_triplets = [], dl_result = 0\<rparr>"

lemma parse_misread:
  assumes "drop i buf = WRITE_NET_SHORT (of_nat n) @ WRITE_NET_INT (dl_ip l) @ WRITE_NET_SHORT (dl_port l) @ [0, 0] @ post"
    and "n < 32768"
  shows "Parse_Datanode_Location buf i = Some (misread l (int n), i + 10)"
proof -
  have u: "(ucast (of_nat n :: u16) :: u32) = of_nat n"
    by (rule word_unat_eq_iff [THEN iffD2]) (use assms(2) in \<open>simp add: unsigned_of_nat unsigned_ucast_eq take_bit_nat_eq_self\<close>)
  have 1: "drop i buf = WRITE_NET_INT (push_bit 16 (of_nat n) OR drop_bit 16 (dl_ip l)) @ WRITE_NET_SHORT (ucast (dl_ip l))
      @ WRITE_NET_INT (push_bit 16 (ucast (dl_port l))) @ post"
    using assms(1) arg_cong [OF pack_shift [of "of_nat n" "dl_ip l" "dl_port l"], of "\<lambda>x. x @ post"] by (simp add: u)
  note s1 = net_step(2) [OF 1] and s2 = net_step(1) [OF net_step(2) [OF 1, THEN conjunct2]]
  note s3 = net_step(2) [OF s2 [THEN conjunct2]]
  have z: "(ucast (push_bit 16 (ucast (dl_port l)) :: u32) :: u16) = 0"
    by (rule bit_eqI) (auto simp: bit_simps)
  have r: "read_array 0 b j = Some ([], j)" for b j by (simp add: read_array_def)
  from s1 s2 s3 r show ?thesis by (simp add: Parse_Datanode_Location_def misread_def z del: push_bit_numeral)
qed

text \<open>The packer writes the number of locations twice and the number of triplets as four
  bytes of a two-byte variable, so the parser reads the first location of every
  packed request shifted by two bytes: its address is made of that number and
  the upper half of the real address, its port is the lower half, and its
  triplets are lost.  For a request with one location the whole parse succeeds
  with the wrong location.\<close>
theorem Pack_then_Parse_misreads:
  assumes ok: "request_ok lr" and ls: "lr_dn_locs lr = l # ls" and nb: "length nb = 2"
  shows "(\<forall>lr' r. Parse_Located_Request lr_zero (Pack_Located_Request nb lr @ post) s = Some (lr', r)
            \<longrightarrow> hd (lr_dn_locs lr') = misread l (lr_nr_dn_locs lr))
    \<and> (ls = [] \<longrightarrow> Parse_Located_Request lr_zero (Pack_Located_Request nb lr @ post) s
          = Some (lr\<lparr>lr_slbid := s, lr_dn_locs := [misread l 1]\<rparr>, 16 + 8 * lr_nr_hbids lr))"
proof -
  let ?buf = "Pack_Located_Request nb lr @ post" and ?hb = "concat (map WRITE_NET_LONG (lr_HBIDs lr))"
    and ?n = "length (lr_dn_locs lr)"
  have len: "length (lr_HBIDs lr) \<le> MAX_BLKS" "?n < 32768" "lr_nr_hbids lr = int (length (lr_HBIDs lr))"
    "lr_nr_dn_locs lr = int ?n" "location_ok l"
    and st: "sint (word_of_int (lr_state lr) :: u16) = lr_state lr"
    using ok sint_short [of "lr_state lr"] ls by (simp_all add: request_ok_def)
  have "0 \<le> dl_nr_triplets l" "dl_nr_triplets l < 32768" using len(5) by (simp_all add: location_ok_def)
  from Pack_nr [OF this, of nb] obtain tail where tail: "Pack_Datanode_Location nb l
      = WRITE_NET_INT (dl_ip l) @ WRITE_NET_SHORT (dl_port l) @ [0, 0] @ tail"
    by (simp add: Pack_Datanode_Location_def)
  let ?post = "tail @ concat (map (Pack_Datanode_Location nb) ls) @ post"
  have 1: "drop 0 ?buf = WRITE_NET_SHORT (word_of_int (lr_state lr)) @ WRITE_NET_SHORT (word_of_int (lr_nr_hbids lr))
      @ ?hb @ WRITE_NET_SHORT (word_of_int (lr_nr_dn_locs lr))
      @ WRITE_NET_SHORT (of_nat ?n) @ WRITE_NET_INT (dl_ip l) @ WRITE_NET_SHORT (dl_port l) @ [0, 0] @ ?post"
    using len(3,4) tail ls by (simp add: Pack_Located_Request_def Pack_Datanode_Locations_def)
  note s1 = net_step(1) [OF 1] and s2 = net_step(1) [OF net_step(1) [OF 1, THEN conjunct2]]
  note s3 = read_array_write [OF len(1) s2 [THEN conjunct2]]
  define b where "b = 0 + 2 + 2 + length ?hb"
  note s3 = s3 [folded b_def]
  note s4 = net_step(1) [OF s3 [THEN conjunct2]]
  have l8: "length ?hb = 8 * length (lr_HBIDs lr)" by (simp add: length_concat comp_def sum_list_triv)
  let ?rest = "drop (b + 2) ?buf"
  have r: "?rest = WRITE_NET_SHORT (of_nat ?n) @ WRITE_NET_INT (dl_ip l) @ WRITE_NET_SHORT (dl_port l) @ [0, 0] @ ?post"
    by (rule s4 [THEN conjunct2])
  have m: "Parse_Datanode_Location ?rest 0 = Some (misread l (int ?n), 10)"
    using parse_misread [of 0 ?rest, OF _ len(2), of l ?post] r by (simp only: drop_0 add_0)
  have P: "Parse_Located_Request lr_zero ?buf s = do {
      (dls, retcode) \<leftarrow> Parse_Datanode_Locations (int ?n) ?rest;
      Some (lr_zero\<lparr>lr_slbid := s, lr_nr_lbids := lr_nr_hbids lr, lr_state := lr_state lr, lr_nr_hbids := lr_nr_hbids lr,
          lr_HBIDs := lr_HBIDs lr, lr_nr_dn_locs := int ?n, lr_dn_locs := dls\<rparr>,
        if retcode > 0 then retcode + int (Suc (Suc b)) else retcode) }"
    using s1 [THEN conjunct1] s2 [THEN conjunct1] s3 [THEN conjunct1] s4 [THEN conjunct1] len st
    by (simp add: Parse_Located_Request_def sint_len del: length_concat drop_append)
  have sn: "nat (1 + int k) = Suc k" for k by simp
  have "hd (lr_dn_locs lr') = misread l (lr_nr_dn_locs lr)" if "Parse_Located_Request lr_zero ?buf s = Some (lr', r)" for lr' r
    using that m ls len(4) by (auto simp: P Parse_Datanode_Locations_def bind_eq_Some_conv sn simp del: drop_append)
  moreover have "Parse_Located_Request lr_zero ?buf s = Some (lr\<lparr>lr_slbid := s, lr_dn_locs := [misread l 1]\<rparr>, 16 + 8 * lr_nr_hbids lr)"
    if "ls = []"
  proof -
    have d: "Parse_Datanode_Locations (int ?n) ?rest = Some ([misread l 1], 10)"
      using that m ls by (simp add: Parse_Datanode_Locations_def del: drop_append)
    have b: "int b = 4 + 8 * lr_nr_hbids lr" using len(3) by (simp add: b_def l8)
    show ?thesis unfolding P d using len(4) ls that ok by (simp add: request_ok_def lr_zero_def b)
  qed
  ultimately show ?thesis by blast
qed
theorem Pack_then_Parse_misreads_witness:
  "Parse_Located_Request lr_zero (Pack_Located_Request [0xAA, 0xBB] (ex_request 1 [ex_location]) @ []) 1
   = Some (ex_request 1 [\<lparr>dl_ip = 0x00010A00, dl_port = 7, dl_nr_triplets = 0, dl_triplets = [], dl_result = 0\<rparr>], 32)"
proof -
  have "request_ok (ex_request 1 [ex_location])" by (simp add: ex_defs request_ok_def location_ok_def)
  from Pack_then_Parse_misreads [OF this, of ex_location "[]" "[0xAA, 0xBB]" "[]" 1]
  show ?thesis by (simp add: ex_defs misread_def)
qed

end
