(* ===== verification/Metadata_Manager.thy ===== *)
theory Metadata_Manager
  imports Namenode_Protocol Sock_Xmit DIO
begin

text \<open>
  Talking to the namenode: the message header (\<open>DMS_Protocol_Header.h\<close>), the query
  that is sent for a DIO, and the receiver thread that takes the responses
  (\<open>DriverCore/Metadata_Manager.c\<close>).  A buffer in memory is the list of its bytes; a
  receive is what \<open>Recv_Msg\<close> returned and the bytes it wrote.  A pointer to a DIO
  travels through the network in the header.
\<close>

section \<open>The header\<close>

record dms_header =
  h_magic :: u32
  h_version :: u8
  h_retry :: u8
  h_sender :: u8
  h_reserve :: u8
  h_service :: u16
  h_sub :: u16
  h_length :: u32
  h_serviceID :: u64
  h_time :: u64
  h_ext :: u64

definition MAGIC_NUM :: u32 where "MAGIC_NUM = 0xa5a5a5a5"
definition DMS_PROTO_VER :: u8 where "DMS_PROTO_VER = 1"
definition CLIENTNODE :: u8 where "CLIENTNODE = 0x0c"
definition SIZEOF_HEADER :: int where "SIZEOF_HEADER = 40"
definition SIZEOF_QUERY :: int where "SIZEOF_QUERY = 18"
definition SIZEOF_BODY :: int where "SIZEOF_BODY = 38"   \<comment> \<open>the largest member: \<open>qmeta_res\<close>\<close>

text \<open>The packed structure in memory.\<close>

definition header_image :: "dms_header \<Rightarrow> u8 list" where
  "header_image h = store_le 4 (h_magic h) @ [h_version h, h_retry h, h_sender h, h_reserve h]
     @ store_le 2 (h_service h) @ store_le 2 (h_sub h) @ store_le 4 (h_length h)
     @ store_le 8 (h_serviceID h) @ store_le 8 (h_time h) @ store_le 8 (h_ext h)"

definition load_header :: "u8 list \<Rightarrow> dms_header" where
  "load_header bs = \<lparr>h_magic = load_le (take 4 bs), h_version = bs ! 4, h_retry = bs ! 5, h_sender = bs ! 6,
     h_reserve = bs ! 7, h_service = load_le (take 2 (drop 8 bs)), h_sub = load_le (take 2 (drop 10 bs)),
     h_length = load_le (take 4 (drop 12 bs)), h_serviceID = load_le (take 8 (drop 16 bs)),
     h_time = load_le (take 8 (drop 24 bs)), h_ext = load_le (take 8 (drop 32 bs))\<rparr>"

definition Parse_DMS_Protocol_Header :: "dms_header \<Rightarrow> int \<times> dms_header" where
  "Parse_DMS_Protocol_Header h =
     (SIZEOF_HEADER, h\<lparr>h_magic := htonl (h_magic h), h_service := htons (h_service h), h_sub := htons (h_sub h),
        h_length := htonl (h_length h), h_serviceID := htonll (h_serviceID h), h_time := htonll (h_time h),
        h_ext := htonll (h_ext h)\<rparr>)"

definition Parse_NN_Protocol_Header :: "dms_header \<Rightarrow> int \<times> dms_header" where
  "Parse_NN_Protocol_Header h =
     (case Parse_DMS_Protocol_Header h of (retcode, h) \<Rightarrow>
        (if h_magic h \<noteq> MAGIC_NUM then - DMS_FAIL else retcode, h))"

definition Generate_DMS_Protocol_Header :: "u64 \<Rightarrow> u8 \<Rightarrow> u16 \<Rightarrow> u16 \<Rightarrow> u32 \<Rightarrow> u64 \<Rightarrow> u64 \<Rightarrow> int \<times> dms_header" where
  "Generate_DMS_Protocol_Header now retry service_type sub_type body_length pdata sid =
     (SIZEOF_HEADER, \<lparr>h_magic = htonl MAGIC_NUM, h_version = DMS_PROTO_VER, h_retry = retry, h_sender = CLIENTNODE,
        h_reserve = 0, h_service = htons service_type, h_sub = htons sub_type, h_length = htonl body_length,
        h_serviceID = htonll sid, h_time = htonll now, h_ext = htonll pdata\<rparr>)"

text \<open>The service id is the counter \<open>nnph_id_gen\<close> after its increment.\<close>

definition Generate_NN_Protocol_Header :: "u64 \<Rightarrow> u8 \<Rightarrow> u16 \<Rightarrow> u32 \<Rightarrow> u64 \<Rightarrow> u64 \<Rightarrow> int \<times> dms_header \<times> u64" where
  "Generate_NN_Protocol_Header now retry service_type body_length pdata nnph_id_gen =
     (case Generate_DMS_Protocol_Header now retry service_type (word_of_int SERVICE) body_length pdata (nnph_id_gen + 1) of
        (retcode, h) \<Rightarrow> (retcode, h, nnph_id_gen + 1))"

section \<open>The query\<close>

text \<open>The body union in memory.\<close>

definition Generate_NN_Protocol_Body :: "u64 \<Rightarrow> u64 \<Rightarrow> u64 \<Rightarrow> int \<times> u8 list" where
  "Generate_NN_Protocol_Body volumeID start_LBID nr_LBIDs =
     (SIZEOF_QUERY, store_le 8 (htonll volumeID) @ store_le 8 (htonll start_LBID) @ store_le 2 (htons (ucast nr_LBIDs))
        @ replicate 20 0)"

text \<open>\<open>dio\<close> at address \<open>p\<close> of a volume with id \<open>volumeID\<close>.\<close>

definition Generate_Query_Request_of_Namenode ::
  "u64 \<Rightarrow> u64 \<Rightarrow> u64 \<Rightarrow> dms_io \<Rightarrow> u64 \<Rightarrow> int \<times> dms_header \<times> u8 list \<times> dms_io \<times> u64" where
  "Generate_Query_Request_of_Namenode now volumeID p dio nnph_id_gen =
     (case Generate_NN_Protocol_Body volumeID (d_sLBID dio) (d_nr_LBIDs dio) of (retcode, body) \<Rightarrow>
      case Generate_NN_Protocol_Header now (word_of_int (d_retry_count dio)) (word_of_int (d_op dio)) (word_of_int retcode) p nnph_id_gen of
        (retcode, header, gen) \<Rightarrow>
          (retcode, header, body, dio\<lparr>d_retry_count := c_int (d_retry_count dio + 1)\<rparr>, gen))"

text \<open>A send of \<open>len\<close> bytes of an object of \<open>sz\<close> bytes that reaches the socket reads
  them all.\<close>

definition node_connected :: "int \<Rightarrow> dncs \<Rightarrow> bool" where
  "node_connected i s = (case Node_Index_to_DNC i s of None \<Rightarrow> False
     | Some a \<Rightarrow> (case dn_heap s a of None \<Rightarrow> False | Some d \<Rightarrow> n_status d = DNODE_CONNECTED))"

definition Send_object :: "kanswer list \<Rightarrow> int \<Rightarrow> int \<Rightarrow> int \<Rightarrow> dncs \<Rightarrow> int option" where
  "Send_object ks nn sz len s = (if node_connected nn s \<and> sz < len then None else Send_Msg ks nn len s)"

text \<open>\<open>s1\<close> and \<open>s2\<close> are the node table at the two sends.  The length of the second is the
  header's field, as it stands there.\<close>

definition Send_Query_Request_to_Namenode ::
  "kanswer list \<Rightarrow> kanswer list \<Rightarrow> int \<Rightarrow> dncs \<Rightarrow> dncs \<Rightarrow> u64 \<Rightarrow> u64 \<Rightarrow> u64 \<Rightarrow> dms_io \<Rightarrow> u64 \<Rightarrow> (int \<times> dms_io \<times> u64) option" where
  "Send_Query_Request_to_Namenode ks1 ks2 nn s1 s2 now volumeID p dio gen =
     (case Generate_Query_Request_of_Namenode now volumeID p dio gen of (retcode, header, body, dio, gen) \<Rightarrow>
        if retcode < 0 then Some (retcode, dio, gen)
        else do {
          retcode \<leftarrow> Send_object ks1 nn SIZEOF_HEADER SIZEOF_HEADER s1;
          if retcode < 0 then Some (retcode, dio, gen)
          else do {
            retcode \<leftarrow> Send_object ks2 nn SIZEOF_BODY (sint (h_length header)) s2;
            Some (retcode, dio, gen)
          }
        })"

definition Metadata_Handler ::
  "kanswer list \<Rightarrow> kanswer list \<Rightarrow> int \<Rightarrow> dncs \<Rightarrow> dncs \<Rightarrow> u64 \<Rightarrow> u64 \<Rightarrow> u64 \<Rightarrow> dms_io \<Rightarrow> u64 \<Rightarrow> (int \<times> dms_io \<times> u64) option" where
  "Metadata_Handler ks1 ks2 nn s1 s2 now volumeID p dio gen = Send_Query_Request_to_Namenode ks1 ks2 nn s1 s2 now volumeID p dio gen"

section \<open>The receiver\<close>

definition PAGE_SIZE :: int where "PAGE_SIZE = 4096"

record rx =
  x_header :: dms_header
  x_body :: nn_body
  x_buf :: "u8 list"

text \<open>What one turn of the loop gets: the two receives, and the memory that
  \<open>kmalloc\<close> returns if the buffer has to grow.\<close>

record rx_input =
  i_header :: "int \<times> u8 list"
  i_fresh :: "u8 list option"
  i_body :: "int \<times> u8 list"

definition overwrite :: "u8 list \<Rightarrow> u8 list \<Rightarrow> u8 list option" where
  "overwrite bs mem = (if length bs \<le> length mem then Some (bs @ drop (length bs) mem) else None)"

definition Grow_up_Buffer :: "u8 list option \<Rightarrow> u8 list \<Rightarrow> int \<Rightarrow> u8 list \<times> int" where
  "Grow_up_Buffer fresh old sz = (case fresh of Some new \<Rightarrow> (new, sz + PAGE_SIZE) | None \<Rightarrow> (old, sz))"

definition Recv_Query_Response_from_Namenode :: "rx_input \<Rightarrow> int \<Rightarrow> rx \<Rightarrow> (int \<times> rx) option" where
  "Recv_Query_Response_from_Namenode i buf_size x = do {
     mem \<leftarrow> overwrite (snd (i_header i)) (header_image (x_header x));
     let x = x\<lparr>x_header := load_header mem\<rparr>;
     if fst (i_header i) < 0 then Some (fst (i_header i), x)
     else (case Parse_NN_Protocol_Header (x_header x) of (retcode, h) \<Rightarrow>
       let x = x\<lparr>x_header := h\<rparr> in
       if retcode < 0 then Some (retcode, x)
       else do {
         let buf = (if sint (h_length h) > buf_size then fst (Grow_up_Buffer (i_fresh i) (x_buf x) buf_size) else x_buf x);
         buf \<leftarrow> overwrite (snd (i_body i)) buf;
         let x = x\<lparr>x_buf := buf\<rparr>;
         if fst (i_body i) < 0 then Some (fst (i_body i), x)
         else do {
           (retcode, body) \<leftarrow> Parse_NN_Protocol_Body (sint (h_service h)) (sint (h_sub h)) buf (x_body x);
           Some (retcode, x\<lparr>x_body := body\<rparr>)
         }
       })
   }"

record dms_metadata =
  md_op :: int
  md_nr_lrs :: int
  md_lrs :: "located_request list"
  md_commitID :: u64
  md_volume :: nat
  md_pdio :: "nat option"     \<comment> \<open>the parent DIO, or NULL\<close>
  md_nr_waiting_lrs :: int

definition IS_LEGAL_ptr :: "u64 \<Rightarrow> bool" where
  "IS_LEGAL_ptr p \<longleftrightarrow> p \<noteq> 0 \<and> unat p < 2 ^ 64 - 4095"

definition Create_DMS_Metadata :: "nat \<Rightarrow> dms_io \<Rightarrow> dms_metadata" where
  "Create_DMS_Metadata p dio = \<lparr>md_op = d_op dio, md_nr_lrs = 0, md_lrs = [], md_commitID = 0, md_volume = d_volume dio,
     md_pdio = Some p, md_nr_waiting_lrs = 0\<rparr>"

text \<open>The DIOs that exist, by address, and the \<open>dmeta\<close> of each; the pointer comes from the header.\<close>

definition Process_Namenode_Response :: "(nat \<rightharpoonup> dms_io) \<Rightarrow> dms_header \<Rightarrow> nn_body \<Rightarrow> (nat \<rightharpoonup> dms_metadata) \<Rightarrow> (int \<times> (nat \<rightharpoonup> dms_metadata)) option" where
  "Process_Namenode_Response dios h body dmetas =
     (let p = h_ext h in
      if \<not> IS_LEGAL_ptr p then Some (- DMS_FAIL, dmetas)
      else (case dios (unat p) of
        None \<Rightarrow> None
      | Some dio \<Rightarrow> Some (DMS_OK, dmetas(unat p \<mapsto> (Create_DMS_Metadata (unat p) dio)\<lparr>md_nr_lrs := q_nr_lrs body, md_lrs := q_lrs body,
            md_commitID := q_commit_ID body, md_nr_waiting_lrs := q_nr_lrs body\<rparr>))))"

definition body_zero :: nn_body where
  "body_zero = \<lparr>q_volumeID = 0, q_start_LBID = 0, q_nr_LBIDs = 0, q_commit_ID = 0, q_nr_lrs = 0, q_lrs = []\<rparr>"

text \<open>The loop until \<open>kthread_should_stop\<close>; \<open>buf_size\<close> stays one page, the size of the
  first buffer.\<close>

fun Namenode_Receiver :: "(nat \<rightharpoonup> dms_io) \<Rightarrow> rx_input list \<Rightarrow> rx \<Rightarrow> (nat \<rightharpoonup> dms_metadata) \<Rightarrow> (rx \<times> (nat \<rightharpoonup> dms_metadata)) option" where
  "Namenode_Receiver dios [] x dmetas = Some (x, dmetas)"
| "Namenode_Receiver dios (i # ins) x dmetas = do {
     buf \<leftarrow> overwrite (replicate (nat PAGE_SIZE) 0) (x_buf x);
     (retcode, x) \<leftarrow> Recv_Query_Response_from_Namenode i PAGE_SIZE (x\<lparr>x_body := body_zero, x_buf := buf\<rparr>);
     if retcode > 0 then do {
       (retcode, dmetas) \<leftarrow> Process_Namenode_Response dios (x_header x) (x_body x) dmetas;
       Namenode_Receiver dios ins x dmetas
     } else Namenode_Receiver dios ins x dmetas
   }"

section \<open>Lemmas\<close>

lemma length_header_image [simp]: "length (header_image h) = 40"
  by (simp add: header_image_def)

lemma load_header_image [simp]: "load_header (header_image h) = h"
  by (simp add: header_image_def load_header_def nth_append load_store_le)

lemma htonl_18: "sint (htonl 18) = 301989888"
  by (simp add: htonl_def bswap_def store_le_numeral)

text \<open>C39: A header that is generated for a query, sent byte for byte and parsed by the
  receiver gives back the service, the type, the length of the body, the service
  id, the time and the pointer to the DIO, with the protocol's version and sender;
  and every byte image with another magic number is refused.\<close>
theorem header_roundtrip:
  "(case Generate_NN_Protocol_Header now retry service_type body_length pdata gen of (r, h, gen') \<Rightarrow>
      r = 40 \<and> gen' = gen + 1 \<and> length (header_image h) = 40 \<and>
      Parse_NN_Protocol_Header (load_header (header_image h)) =
        (40, \<lparr>h_magic = 0xa5a5a5a5, h_version = 1, h_retry = retry, h_sender = 0x0c, h_reserve = 0, h_service = service_type,
              h_sub = word_of_int SERVICE, h_length = body_length, h_serviceID = gen + 1, h_time = now, h_ext = pdata\<rparr>))
   \<and> (htonl (h_magic h') = MAGIC_NUM \<or> fst (Parse_NN_Protocol_Header h') = - DMS_FAIL)"
  by (simp add: Generate_NN_Protocol_Header_def Generate_DMS_Protocol_Header_def Parse_NN_Protocol_Header_def
      Parse_DMS_Protocol_Header_def MAGIC_NUM_def SIZEOF_HEADER_def DMS_PROTO_VER_def CLIENTNODE_def)

text \<open>No query for metadata ever succeeds: the length of the body is read from the
  header after its bytes were swapped, 301989888 instead of 18.  Either the
  connection refuses the header or the body, and the result is an error, or the
  send reads past the end of the body.\<close>
theorem Metadata_Handler_never_succeeds:
  "(case Metadata_Handler ks1 ks2 nn s1 s2 now volumeID p dio gen of None \<Rightarrow> True | Some (r, _, _) \<Rightarrow> r < 0)
   \<and> (\<forall>r. Send_Msg ks1 nn 40 s1 = Some r \<and> 0 \<le> r \<and> node_connected nn s2 \<longrightarrow>
        Metadata_Handler ks1 ks2 nn s1 s2 now volumeID p dio gen = None)"
proof -
  have 40: "Send_object ks1 nn 40 40 s1 = Send_Msg ks1 nn 40 s1" by (simp add: Send_object_def)
  have b: "Send_object ks2 nn 38 301989888 s2 = (if node_connected nn s2 then None else Send_Msg ks2 nn 301989888 s2)"
    by (simp add: Send_object_def)
  have e: "Metadata_Handler ks1 ks2 nn s1 s2 now volumeID p dio gen = do {
      r \<leftarrow> Send_Msg ks1 nn 40 s1;
      if r < 0 then Some (r, dio\<lparr>d_retry_count := c_int (d_retry_count dio + 1)\<rparr>, gen + 1)
      else do {
        r \<leftarrow> (if node_connected nn s2 then None else Send_Msg ks2 nn 301989888 s2);
        Some (r, dio\<lparr>d_retry_count := c_int (d_retry_count dio + 1)\<rparr>, gen + 1)
      } }"
    by (simp add: Metadata_Handler_def Send_Query_Request_to_Namenode_def Generate_Query_Request_of_Namenode_def
        Generate_NN_Protocol_Body_def Generate_NN_Protocol_Header_def Generate_DMS_Protocol_Header_def
        SIZEOF_HEADER_def SIZEOF_QUERY_def SIZEOF_BODY_def 40 b htonl_18 cong: if_cong)
  have n: "r < 0" if "Send_Msg ks2 nn l s2 = Some r" "\<not> node_connected nn s2" for r l
    using that by (auto simp: Send_Msg_def node_connected_def xmit_defs bind_eq_Some_conv split: option.splits if_splits)
  show ?thesis unfolding e by (auto split: option.splits bind_splits dest: n)
qed

section \<open>Responses that arrive\<close>

text \<open>A whole response: the header as the namenode writes it, and the body.\<close>

definition arrives :: "dms_header \<Rightarrow> u8 list \<Rightarrow> rx_input \<Rightarrow> bool" where
  "arrives h body i \<longleftrightarrow> i_header i = (40, header_image (snd (Parse_DMS_Protocol_Header h)))
     \<and> i_body i = (int (length body), body) \<and> sint (h_length h) = int (length body)
     \<and> h_magic h = MAGIC_NUM"

definition metadata_of :: "nat \<Rightarrow> dms_io \<Rightarrow> nn_body \<Rightarrow> dms_metadata" where
  "metadata_of p dio b = \<lparr>md_op = d_op dio, md_nr_lrs = q_nr_lrs b, md_lrs = q_lrs b, md_commitID = q_commit_ID b,
     md_volume = d_volume dio, md_pdio = Some p, md_nr_waiting_lrs = q_nr_lrs b\<rparr>"

lemma Parse_twice: "Parse_NN_Protocol_Header (snd (Parse_DMS_Protocol_Header h)) =
  (if h_magic h = MAGIC_NUM then 40 else - DMS_FAIL, h)"
  by (simp add: Parse_NN_Protocol_Header_def Parse_DMS_Protocol_Header_def SIZEOF_HEADER_def)

lemma overwrite_all: "length bs = length mem \<Longrightarrow> overwrite bs mem = Some bs"
  by (simp add: overwrite_def)

lemma Recv_arrived:
  assumes "arrives h body i"
  shows "Recv_Query_Response_from_Namenode i bs x = do {
     buf \<leftarrow> overwrite body (if int (length body) > bs then fst (Grow_up_Buffer (i_fresh i) (x_buf x) bs) else x_buf x);
     (retcode, b) \<leftarrow> Parse_NN_Protocol_Body (sint (h_service h)) (sint (h_sub h)) buf (x_body x);
     Some (retcode, x\<lparr>x_header := h, x_buf := buf, x_body := b\<rparr>)
   }"
  using assms by (simp add: Recv_Query_Response_from_Namenode_def arrives_def overwrite_all Parse_twice Let_def
      cong: if_cong bind_option_cong)

text \<open>C11: One turn of the receiver on a response that fits the first page.  A response
  whose type is RESPONSE changes no metadata, whatever it says: the test of the
  type is the wrong way round.  One of any other type reaches its DIO, field by
  field, when every located request names a datanode; and when one does not, the
  whole response is dropped.\<close>
theorem Namenode_Receiver_turn:
  assumes arr: "arrives h (encode_response b) i" and ok: "response_ok b" "length (encode_response b) \<le> 4096"
    and svc: "sint (h_service h) \<in> {QUERY_FOR_READ, QUERY_FOR_WRITE, QUERY_FOR_OVERWRITE}"
    and mem: "length (x_buf x) \<ge> 4096" and dio: "IS_LEGAL_ptr (h_ext h)" "dios (unat (h_ext h)) = Some dio"
  shows "\<exists>x'. length (x_buf x') = length (x_buf x) \<and> Namenode_Receiver dios [i] x dmetas
    = Some (x', if sint (h_sub h) \<noteq> RESPONSE \<and> q_lrs b \<noteq> [] \<and> list_all (\<lambda>lr. lr_dn_locs lr \<noteq> []) (q_lrs b)
                then dmetas(unat (h_ext h) \<mapsto> metadata_of (unat (h_ext h)) dio b) else dmetas)"
proof -
  let ?e = "encode_response b" and ?z = "replicate 4096 (0 :: u8) @ drop 4096 (x_buf x)"
  let ?buf = "?e @ drop (length ?e) ?z"
  have z: "overwrite (replicate 4096 0) (x_buf x) = Some ?z" using mem by (simp add: overwrite_def)
  have l: "length ?z = length (x_buf x)" using mem by simp
  have o: "overwrite ?e ?z = Some ?buf" using ok(2) mem by (simp add: overwrite_def)
  have lb: "length ?buf = length (x_buf x)" using l ok(2) mem by simp
  let ?r = "if q_lrs b \<noteq> [] \<and> list_all (\<lambda>lr. lr_dn_locs lr \<noteq> []) (q_lrs b) then int (length ?e) else 0"
  have r: "Recv_Query_Response_from_Namenode i 4096 (x\<lparr>x_body := body_zero, x_buf := ?z\<rparr>) =
    (if sint (h_sub h) \<noteq> RESPONSE
     then Some (?r, x\<lparr>x_header := h, x_buf := ?buf, x_body := b\<lparr>q_lrs := cut_requests (q_lrs b)\<rparr>\<rparr>)
     else Some (- 1, x\<lparr>x_header := h, x_buf := ?buf, x_body := body_zero\<rparr>))"
  proof (cases "sint (h_sub h) = RESPONSE")
    case True
    then show ?thesis using o ok(2)
      by (simp add: Recv_arrived [OF arr] Parse_NN_Protocol_Body_def DMS_FAIL_def del: drop_append)
  next
    case False
    from parse_encode [OF ok(1) svc False, of "drop (length ?e) ?z" body_zero]
    show ?thesis using o ok(2) False by (simp add: Recv_arrived [OF arr] del: drop_append)
  qed
  have c: "list_all (\<lambda>lr. lr_dn_locs lr \<noteq> []) lrs \<Longrightarrow> cut_requests lrs = lrs" for lrs by (induction lrs) auto
  have p: "0 < length ?e" by (simp add: encode_response_def)
  show ?thesis
    using z r lb c p dio
    by (auto simp: PAGE_SIZE_def Process_Namenode_Response_def Create_DMS_Metadata_def metadata_of_def Let_def simp del: drop_append)
qed

text \<open>The buffer grows by one page at most, so a response whose body of more than two
  pages arrives writes past it; up to two pages the body is stored, whatever the
  size of the buffer was.\<close>
theorem Recv_Query_Response_overflow:
  assumes "arrives h body i" and "i_fresh i = Some new" "length new = 8192" and "length (x_buf x) = 4096 \<or> length (x_buf x) = 8192"
  shows "(8192 < length body \<longrightarrow> Recv_Query_Response_from_Namenode i PAGE_SIZE x = None)
    \<and> (length body \<le> 8192 \<longrightarrow> (\<exists>rest. Recv_Query_Response_from_Namenode i PAGE_SIZE x = do {
          (retcode, b) \<leftarrow> Parse_NN_Protocol_Body (sint (h_service h)) (sint (h_sub h)) (body @ rest) (x_body x);
          Some (retcode, x\<lparr>x_header := h, x_buf := body @ rest, x_body := b\<rparr>)}))"
proof (intro conjI impI)
  assume "8192 < length body"
  then show "Recv_Query_Response_from_Namenode i PAGE_SIZE x = None"
    using assms by (simp add: Recv_arrived PAGE_SIZE_def Grow_up_Buffer_def overwrite_def)
next
  assume "length body \<le> 8192"
  then have "\<exists>rest. overwrite body (if int (length body) > PAGE_SIZE then fst (Grow_up_Buffer (i_fresh i) (x_buf x) PAGE_SIZE) else x_buf x)
      = Some (body @ rest)"
    using assms by (auto simp: PAGE_SIZE_def Grow_up_Buffer_def overwrite_def)
  then show "\<exists>rest. Recv_Query_Response_from_Namenode i PAGE_SIZE x = do {
      (retcode, b) \<leftarrow> Parse_NN_Protocol_Body (sint (h_service h)) (sint (h_sub h)) (body @ rest) (x_body x);
      Some (retcode, x\<lparr>x_header := h, x_buf := body @ rest, x_body := b\<rparr>)}"
    by (auto simp: Recv_arrived [OF assms(1)])
qed

section \<open>Witnesses\<close>

definition ex_dio :: dms_io where
  "ex_dio = \<lparr>d_did = 1, d_volume = 0, d_io_req = 0, d_sLBID = 1, d_nr_LBIDs = 4, d_op = 0, d_LB_list = None, d_state = 1,
     d_retry_count = 0, d_result = 0, d_magic = DIO_MAGIC\<rparr>"

definition ex_nodes :: dncs where
  "ex_nodes = \<lparr>dn_nodes = [Some 0], dn_heap = [0 \<mapsto> \<lparr>n_ip = 7, n_port = 80, n_sock = Some True, n_status = DNODE_CONNECTED,
     n_retry_count = 0, n_recver = True, n_crecv_fn = True, n_index = 0\<rparr>], dn_next = 1, dn_work = []\<rparr>"

theorem Metadata_Handler_never_succeeds_witness:
  "Metadata_Handler [kans 40] [] 0 ex_nodes ex_nodes 5 123 0x1000 ex_dio 1 = None"
proof -
  have "Send_Msg [kans 40] 0 40 ex_nodes = Some 40"
    by (simp add: Send_Msg_def Node_Index_to_DNC_def DNC_IN_RANGE_def DMS_MAX_NODES_def IS_IN_RANGE_def ex_nodes_def send_step kans_def)
  moreover have "node_connected 0 ex_nodes"
    by (simp add: node_connected_def Node_Index_to_DNC_def DNC_IN_RANGE_def DMS_MAX_NODES_def IS_IN_RANGE_def ex_nodes_def)
  ultimately show ?thesis
    using Metadata_Handler_never_succeeds [of "[kans 40]" "[]" 0 ex_nodes ex_nodes 5 123 "0x1000" ex_dio 1] by auto
qed

definition ex_header :: "u16 \<Rightarrow> u32 \<Rightarrow> dms_header" where
  "ex_header sub len = \<lparr>h_magic = MAGIC_NUM, h_version = 1, h_retry = 0, h_sender = 9, h_reserve = 0, h_service = 0, h_sub = sub,
     h_length = len, h_serviceID = 2, h_time = 5, h_ext = 0x1000\<rparr>"

definition ex_input :: "dms_header \<Rightarrow> u8 list \<Rightarrow> rx_input" where
  "ex_input h body = \<lparr>i_header = (40, header_image (snd (Parse_DMS_Protocol_Header h))), i_fresh = Some (replicate 8192 0xAA),
     i_body = (int (length body), body)\<rparr>"

definition ex_rx :: rx where
  "ex_rx = \<lparr>x_header = ex_header 0 0, x_body = body_zero, x_buf = replicate 4096 0\<rparr>"

theorem Namenode_Receiver_turn_witness:
  "(\<exists>x'. Namenode_Receiver [0x1000 \<mapsto> ex_dio] [ex_input (ex_header 1 150) (encode_response ex_response)] ex_rx Map.empty
     = Some (x', [0x1000 \<mapsto> metadata_of 0x1000 ex_dio ex_response]))
   \<and> (\<exists>x'. Namenode_Receiver [0x1000 \<mapsto> ex_dio] [ex_input (ex_header 2 150) (encode_response ex_response)] ex_rx Map.empty
     = Some (x', Map.empty))"
proof -
  have l: "length (encode_response ex_response) = 150"
    by (simp add: ex_defs encode_response_def encode_request_def encode_location_def)
  have a: "arrives (ex_header s 150) (encode_response ex_response) (ex_input (ex_header s 150) (encode_response ex_response))" for s
    by (simp add: arrives_def ex_input_def ex_header_def l)
  have q: "q_lrs ex_response \<noteq> [] \<and> list_all (\<lambda>lr. lr_dn_locs lr \<noteq> []) (q_lrs ex_response)" by (simp add: ex_defs)
  note t = Namenode_Receiver_turn [OF a ex_response_ok, of _ ex_rx "[0x1000 \<mapsto> ex_dio]" ex_dio Map.empty]
  have "\<exists>x'. Namenode_Receiver [0x1000 \<mapsto> ex_dio] [ex_input (ex_header 1 150) (encode_response ex_response)] ex_rx Map.empty
     = Some (x', [0x1000 \<mapsto> metadata_of 0x1000 ex_dio ex_response])"
    using t [of 1] q by (auto simp: l ex_header_def nn_defs ex_rx_def IS_LEGAL_ptr_def simp del: Namenode_Receiver.simps)
  moreover have "\<exists>x'. Namenode_Receiver [0x1000 \<mapsto> ex_dio] [ex_input (ex_header 2 150) (encode_response ex_response)] ex_rx Map.empty
     = Some (x', Map.empty)"
    using t [of 2] by (auto simp: l ex_header_def nn_defs ex_rx_def IS_LEGAL_ptr_def simp del: Namenode_Receiver.simps)
  ultimately show ?thesis by (rule conjI)
qed

theorem Recv_Query_Response_overflow_witness:
  "Recv_Query_Response_from_Namenode (ex_input (ex_header 1 9000) (replicate 9000 0)) PAGE_SIZE ex_rx = None"
proof -
  have "arrives (ex_header 1 9000) (replicate 9000 0) (ex_input (ex_header 1 9000) (replicate 9000 0))"
    by (simp add: arrives_def ex_input_def ex_header_def)
  from Recv_Query_Response_overflow [OF this, of "replicate 8192 0xAA" ex_rx] show ?thesis
    by (simp add: ex_input_def ex_rx_def)
qed
end
