(* ===== verification/Commit_Policy.thy ===== *)
theory Commit_Policy
  imports Metadata_Manager IO_Commit
begin

text \<open>
  What an acknowledgement of a datanode does (\<open>DriverCore/Driver_Core.c\<close>): the
  counters of a located request, the decision to commit its blocks to the user, and
  the end of the metadata.  Located requests are the entries of \<open>dmeta->lrs\<close>; a
  payload tag names one of them and one of its locations.  The theory shows that the
  blocks left in the DIO are at every moment those of the located requests that the
  policy has not committed.
\<close>

section \<open>Data\<close>

definition WAITING :: int where "WAITING = 0"
definition ACT_CUSER :: int where "ACT_CUSER = 1"
definition ACT_LRDONE :: int where "ACT_LRDONE = 2"
definition ACT_CNAMENODE :: int where "ACT_CNAMENODE = 3"

definition READ_ACK :: int where "READ_ACK = 101"
definition WMEM_ACK :: int where "WMEM_ACK = 102"
definition WDISK_ACK :: int where "WDISK_ACK = 103"
definition PWMEM_ACK :: int where "PWMEM_ACK = 104"
definition PWDISK_ACK :: int where "PWDISK_ACK = 105"

text \<open>\<open>UNDEFINED\<close>, \<open>EXCEPTION\<close>, \<open>IOEXCEPTION\<close>, \<open>IOFAIL_BUT_LUN_OK_EXCEPTION\<close>,
  \<open>FAILED_LUN_EXCEPTION\<close>.\<close>

definition error_acks :: "int set" where
  "error_acks = {- 1000, - 1002, - 1003, - 1004, - 1005}"

definition COMMITTED_USER_BIT :: nat where "COMMITTED_USER_BIT = 1"

lemmas act_defs = WAITING_def ACT_CUSER_def ACT_LRDONE_def ACT_CNAMENODE_def
lemmas ack_defs = READ_ACK_def WMEM_ACK_def WDISK_ACK_def PWMEM_ACK_def PWDISK_ACK_def error_acks_def

text \<open>A metadata object with the tags that wait in it, the datanode tags and payload tags
  by address, and the I/O requests.\<close>

record cstate =
  c_dmeta :: dms_metadata
  c_dn_tags :: "nat dlist"              \<comment> \<open>\<open>dmeta->dn_tags\<close>\<close>
  c_ddts :: "nat \<rightharpoonup> nat dlist"          \<comment> \<open>\<open>payload_tags\<close> of a datanode tag\<close>
  c_dpts :: "nat \<rightharpoonup> nat \<times> nat"          \<comment> \<open>located request and location of a payload tag\<close>
  c_io :: io_st

section \<open>The policy\<close>

text \<open>\<open>atomic_dec_and_test\<close> on the two counters.\<close>

definition Dec_WMem_Ack :: "located_request \<Rightarrow> bool \<times> located_request" where
  "Dec_WMem_Ack lr = (let n = c_int (lr_wmem_ack lr - 1) in (n = 0, lr\<lparr>lr_wmem_ack := n\<rparr>))"

definition Dec_WDisk_Ack :: "located_request \<Rightarrow> bool \<times> located_request" where
  "Dec_WDisk_Ack lr = (let n = c_int (lr_wdisk_ack lr - 1) in (n = 0, lr\<lparr>lr_wdisk_ack := n\<rparr>))"

definition Update_Mem_Ack :: "located_request \<Rightarrow> int \<times> located_request" where
  "Update_Mem_Ack lr = (case Dec_WMem_Ack lr of (z, lr) \<Rightarrow> (if z then ACT_CUSER else WAITING, lr))"

definition Update_Disk_Ack :: "located_request \<Rightarrow> bool \<Rightarrow> int \<times> located_request" where
  "Update_Disk_Ack lr cuser =
     (case Dec_WDisk_Ack lr of (z, lr) \<Rightarrow> (if z then ACT_LRDONE else if cuser then ACT_CUSER else WAITING, lr))"

definition set_result :: "int \<Rightarrow> datanode_location \<Rightarrow> datanode_location" where
  "set_result ack dnl = (if dl_result dnl \<noteq> WDISK_ACK then dnl\<lparr>dl_result := ack\<rparr> else dnl)"

text \<open>\<open>__Update_and_Commit_to_User_Policy\<close>: the value and the located request; reading a
  location beyond the array is a fault.\<close>

definition Update_and_Commit_to_User_Policy :: "int \<Rightarrow> located_request \<Rightarrow> nat \<Rightarrow> int \<Rightarrow> (int \<times> located_request) option" where
  "Update_and_Commit_to_User_Policy op lr dnl_index ack =
     (if dnl_index \<ge> length (lr_dn_locs lr) then None
      else
        let lr = lr\<lparr>lr_dn_locs := (lr_dn_locs lr)[dnl_index := set_result ack (lr_dn_locs lr ! dnl_index)]\<rparr> in
        Some (if ack \<in> {WMEM_ACK, PWMEM_ACK} then Update_Mem_Ack lr
              else if ack \<in> {WDISK_ACK, PWDISK_ACK} then Update_Disk_Ack lr True
              else if ack = READ_ACK then Update_Disk_Ack lr True
              else if ack \<in> error_acks then
                (if op = DMS_OP_READ then (- DMS_FAIL, lr)
                 else (case Update_Mem_Ack lr of (retcode, lr) \<Rightarrow> Update_Disk_Ack lr (retcode \<noteq> 0)))
              else (- DMS_FAIL, lr)))"

text \<open>\<open>test_and_set_bit\<close> on \<open>commit_state\<close>; the DIO leaves the metadata when it is done.\<close>

definition Commit_LBs_to_DMS_IO :: "(nat \<Rightarrow> int \<Rightarrow> u64 \<Rightarrow> int) \<Rightarrow> nat \<Rightarrow> int \<Rightarrow> cstate \<Rightarrow> (int \<times> cstate) option" where
  "Commit_LBs_to_DMS_IO end_first i result cs =
     (let dm = c_dmeta cs; lr = md_lrs dm ! i in
      if bit (lr_commit_state lr) COMMITTED_USER_BIT then Some (- DMS_FAIL, cs)
      else
        let dm = dm\<lparr>md_lrs := (md_lrs dm)[i := lr\<lparr>lr_commit_state := set_bit COMMITTED_USER_BIT (lr_commit_state lr)\<rparr>]\<rparr> in
        (case md_pdio dm of
           None \<Rightarrow> Some (- DMS_FAIL, cs\<lparr>c_dmeta := dm\<rparr>)
         | Some dio \<Rightarrow> do {
             (retcode, io) \<leftarrow> Commit_LB_to_DMS_IO end_first dio (lr_slbid lr) (lr_nr_lbids lr) result (c_io cs);
             Some (retcode, cs\<lparr>c_dmeta := (if retcode = 1 then dm\<lparr>md_pdio := None\<rparr> else dm), c_io := io\<rparr>)
           }))"

text \<open>One payload tag: the value of the policy and the new state.\<close>

definition commit_payload_tag :: "(nat \<Rightarrow> int \<Rightarrow> u64 \<Rightarrow> int) \<Rightarrow> int \<Rightarrow> nat \<Rightarrow> cstate \<Rightarrow> (int \<times> cstate) option" where
  "commit_payload_tag end_first ack dpt cs = do {
     (i, dn_index) \<leftarrow> c_dpts cs dpt;
     let dm = c_dmeta cs;
     if i \<ge> length (md_lrs dm) then None
     else do {
       (retcode, lr) \<leftarrow> Update_and_Commit_to_User_Policy (md_op dm) (md_lrs dm ! i) dn_index ack;
       let cs = cs\<lparr>c_dmeta := dm\<lparr>md_lrs := (md_lrs dm)[i := lr]\<rparr>\<rparr>;
       if retcode \<in> {ACT_LRDONE, ACT_CUSER} then do {
         (_, cs) \<leftarrow> Commit_LBs_to_DMS_IO end_first i ack cs;
         Some (retcode, cs)
       } else Some (retcode, cs)
     }
   }"

text \<open>The loop over the payload tags of a datanode tag; the fuel is more than their
  number.\<close>

fun policy_loop :: "nat \<Rightarrow> (nat \<Rightarrow> int \<Rightarrow> u64 \<Rightarrow> int) \<Rightarrow> int \<Rightarrow> nat dlist \<Rightarrow> int \<Rightarrow> int \<Rightarrow> cstate \<Rightarrow> (int \<times> nat dlist \<times> cstate) option" where
  "policy_loop 0 end_first ack tags retcode done_lrs cs = None"
| "policy_loop (Suc n) end_first ack tags retcode done_lrs cs =
     (case Get_Next_User_Data tags of
        None \<Rightarrow> None
      | Some (None, tags) \<Rightarrow> Some (retcode, tags, cs)
      | Some (Some dpt, tags) \<Rightarrow> do {
          (r, cs) \<leftarrow> commit_payload_tag end_first ack dpt cs;
          let done_lrs = (if r = ACT_LRDONE then c_int (done_lrs + 1) else done_lrs);
          policy_loop n end_first ack tags done_lrs done_lrs cs
        })"

definition Default_Update_and_Commit_to_User_Policy :: "(nat \<Rightarrow> int \<Rightarrow> u64 \<Rightarrow> int) \<Rightarrow> nat \<Rightarrow> int \<Rightarrow> cstate \<Rightarrow> (int \<times> cstate) option" where
  "Default_Update_and_Commit_to_User_Policy end_first ddt ack cs = do {
     tags \<leftarrow> c_ddts cs ddt;
     (retcode, tags, cs) \<leftarrow> policy_loop (Suc (length (dl_nodes tags))) end_first ack (snd (Reset_DList_Iterator tags)) (- DMS_FAIL) 0 cs;
     Some (retcode, cs\<lparr>c_ddts := (c_ddts cs)(ddt \<mapsto> tags)\<rparr>)
   }"

text \<open>\<open>Dec_Waiting_LRs\<close>, once for every located request that is done.\<close>

fun Default_Update_and_Commit_to_Namenode_Policy :: "nat \<Rightarrow> int \<Rightarrow> dms_metadata \<Rightarrow> int \<times> dms_metadata" where
  "Default_Update_and_Commit_to_Namenode_Policy 0 retcode dm = (retcode, dm)"
| "Default_Update_and_Commit_to_Namenode_Policy (Suc n) retcode dm =
     (let w = c_int (md_nr_waiting_lrs dm - 1) in
      Default_Update_and_Commit_to_Namenode_Policy n (if w = 0 then ACT_CNAMENODE else retcode) (dm\<lparr>md_nr_waiting_lrs := w\<rparr>))"

text \<open>\<open>Commit_Datanode_Tags\<close> of \<open>Payload_Manager.c\<close>: a tag that waits for more goes back into
  the list, at a node of address \<open>new\<close>; a tag that is done is released with its payload
  tags.\<close>

definition Commit_Datanode_Tags :: "nat \<Rightarrow> nat \<Rightarrow> int \<Rightarrow> cstate \<Rightarrow> (int \<times> cstate) option" where
  "Commit_Datanode_Tags new ddt ack cs =
     (if ack = WMEM_ACK \<or> ack = PWMEM_ACK \<or> ack < 0
      then Some (ack, cs\<lparr>c_dn_tags := snd (Insert_User_Data_to_DList_Tail new (c_dn_tags cs) ddt)\<rparr>)
      else do {
        tags \<leftarrow> c_ddts cs ddt;
        Some (ack, cs\<lparr>c_dpts := (c_dpts cs) |` (- set (fst (Release_All_User_Data tags))), c_ddts := (c_ddts cs)(ddt := None)\<rparr>)
      })"

text \<open>\<open>Commit_to_Namenode\<close> does nothing yet.\<close>

definition VolumeIO_Commiter :: "(nat \<Rightarrow> int \<Rightarrow> u64 \<Rightarrow> int) \<Rightarrow> nat \<Rightarrow> nat \<Rightarrow> int \<Rightarrow> cstate \<Rightarrow> (int \<times> cstate) option" where
  "VolumeIO_Commiter end_first new ddt result cs = do {
     (done_lrs, cs) \<leftarrow> Default_Update_and_Commit_to_User_Policy end_first ddt result cs;
     let (retcode, dm) = (if done_lrs > 0
                          then Default_Update_and_Commit_to_Namenode_Policy (nat done_lrs) (- DMS_FAIL) (c_dmeta cs)
                          else (- DMS_FAIL, c_dmeta cs));
     (_, cs) \<leftarrow> Commit_Datanode_Tags new ddt result (cs\<lparr>c_dmeta := dm\<rparr>);
     Some (retcode, cs)
   }"

section \<open>The blocks of the located requests\<close>

definition user_committed :: "located_request \<Rightarrow> bool" where
  "user_committed lr \<longleftrightarrow> bit (lr_commit_state lr) COMMITTED_USER_BIT"

definition lr_ids :: "located_request \<Rightarrow> u64 list" where
  "lr_ids lr = map (\<lambda>j. lr_slbid lr + of_nat j) [0..<nat (lr_nr_lbids lr)]"

text \<open>The blocks that the user still waits for.\<close>

fun left :: "located_request list \<Rightarrow> u64 list" where
  "left [] = []"
| "left (lr # lrs) = (if user_committed lr then [] else lr_ids lr) @ left lrs"

definition total :: "located_request list \<Rightarrow> nat" where
  "total lrs = (\<Sum>lr \<leftarrow> lrs. nat (lr_nr_lbids lr))"

definition lrs_wf :: "u64 \<Rightarrow> located_request list \<Rightarrow> bool" where
  "lrs_wf s lrs \<longleftrightarrow> numbered s lrs \<and> (\<forall>lr \<in> set lrs. 0 < lr_nr_lbids lr) \<and> unat s + total lrs < 2 ^ 64"

lemma total_simps [simp]: "total [] = 0" "total (lr # lrs) = nat (lr_nr_lbids lr) + total lrs"
  by (simp_all add: total_def)

lemma lrs_wf_Cons:
  assumes "lrs_wf s (lr # lrs)"
  shows "lr_slbid lr = s" "0 < lr_nr_lbids lr" "unat (s + of_nat (nat (lr_nr_lbids lr))) = unat s + nat (lr_nr_lbids lr)"
    "lrs_wf (s + of_nat (nat (lr_nr_lbids lr))) lrs"
proof -
  have n: "0 < lr_nr_lbids lr" "unat s + nat (lr_nr_lbids lr) + total lrs < 2 ^ 64" "lr_slbid lr = s"
    using assms by (simp_all add: lrs_wf_def)
  then show "lr_slbid lr = s" "0 < lr_nr_lbids lr" by simp_all
  show u: "unat (s + of_nat (nat (lr_nr_lbids lr))) = unat s + nat (lr_nr_lbids lr)" using n by (intro unat_plus_nat) simp
  have "(of_nat (nat (lr_nr_lbids lr)) :: u64) = word_of_int (lr_nr_lbids lr)" using n(1) by simp
  then show "lrs_wf (s + of_nat (nat (lr_nr_lbids lr))) lrs" using assms n u by (simp add: lrs_wf_def)
qed

lemma unat_lr_ids: "unat (lr_slbid lr) + nat (lr_nr_lbids lr) \<le> 2 ^ 64 \<Longrightarrow>
  map unat (lr_ids lr) = map (\<lambda>j. unat (lr_slbid lr) + j) [0..<nat (lr_nr_lbids lr)]"
  by (simp add: lr_ids_def comp_def unat_plus_nat)

lemma set_lr_ids: "unat (lr_slbid lr) + nat (lr_nr_lbids lr) \<le> 2 ^ 64 \<Longrightarrow>
  x \<in> set (lr_ids lr) \<longleftrightarrow> unat (lr_slbid lr) \<le> unat x \<and> unat x < unat (lr_slbid lr) + nat (lr_nr_lbids lr)"
proof -
  assume "unat (lr_slbid lr) + nat (lr_nr_lbids lr) \<le> 2 ^ 64"
  from arg_cong [OF unat_lr_ids [OF this], of set]
  have i: "unat ` set (lr_ids lr) = (\<lambda>j. unat (lr_slbid lr) + j) ` {0..<nat (lr_nr_lbids lr)}" by simp
  have "x \<in> set (lr_ids lr) \<longleftrightarrow> unat x \<in> unat ` set (lr_ids lr)" by (auto dest: word_unat_eq_iff [THEN iffD2])
  also have "\<dots> \<longleftrightarrow> unat (lr_slbid lr) \<le> unat x \<and> unat x < unat (lr_slbid lr) + nat (lr_nr_lbids lr)"
    unfolding i by (auto simp: image_iff Bex_def intro!: exI [of _ "unat x - unat (lr_slbid lr)"])
  finally show ?thesis .
qed

lemma left_bounds: "lrs_wf s lrs \<Longrightarrow> x \<in> set (left lrs) \<Longrightarrow> unat s \<le> unat x \<and> unat x < unat s + total lrs"
proof (induction lrs arbitrary: s)
  case Nil
  then show ?case by simp
next
  case (Cons lr lrs)
  note wf = lrs_wf_Cons [OF Cons.prems(1)]
  have b: "unat (lr_slbid lr) + nat (lr_nr_lbids lr) \<le> 2 ^ 64" using Cons.prems(1) wf(1) by (simp add: lrs_wf_def)
  from Cons.prems(2) consider "x \<in> set (lr_ids lr)" | "x \<in> set (left lrs)" by (auto split: if_splits)
  then show ?case
  proof cases
    case 1
    with set_lr_ids [OF b] wf(1) show ?thesis by simp
  next
    case 2
    with Cons.IH [OF wf(4)] wf(3) show ?thesis by simp
  qed
qed

lemma left_sorted: "lrs_wf s lrs \<Longrightarrow> sorted_wrt (<) (left lrs)"
proof (induction lrs arbitrary: s)
  case Nil
  then show ?case by simp
next
  case (Cons lr lrs)
  note wf = lrs_wf_Cons [OF Cons.prems]
  have b: "unat (lr_slbid lr) + nat (lr_nr_lbids lr) \<le> 2 ^ 64" using Cons.prems wf(1) by (simp add: lrs_wf_def)
  then have "sorted_wrt (<) (lr_ids lr)" unfolding lr_ids_def by (rule sorted_blocks_wrt)
  moreover have "x < y" if "x \<in> set (lr_ids lr)" "y \<in> set (left lrs)" for x y
    using that set_lr_ids [OF b, of x] left_bounds [OF wf(4), of y] wf(1,3) by (simp add: word_less_nat_alt)
  ultimately show ?case using Cons.IH [OF wf(4)] by (simp add: sorted_wrt_append)
qed

text \<open>Changes that keep the range of a located request.\<close>

lemma lrs_wf_update:
  assumes "lrs_wf s lrs" and "i < length lrs" and "lr_slbid lr' = lr_slbid (lrs ! i)" and "lr_nr_lbids lr' = lr_nr_lbids (lrs ! i)"
  shows "lrs_wf s (lrs[i := lr'])"
proof -
  have "numbered t ls \<Longrightarrow> j < length ls \<Longrightarrow> lr_slbid lr' = lr_slbid (ls ! j) \<Longrightarrow> lr_nr_lbids lr' = lr_nr_lbids (ls ! j)
      \<Longrightarrow> numbered t (ls[j := lr'])" for t ls j
    by (induction ls arbitrary: t j) (auto split: nat.splits)
  moreover have "j < length ls \<Longrightarrow> lr_nr_lbids lr' = lr_nr_lbids (ls ! j) \<Longrightarrow> total (ls[j := lr']) = total ls" for ls j
    by (induction ls arbitrary: j) (auto split: nat.splits)
  moreover have "0 < lr_nr_lbids lr" if "lr \<in> set (lrs[i := lr'])" for lr
  proof -
    from that have "lr = lr' \<or> lr \<in> set lrs" using set_update_subset_insert [of lrs i lr'] by blast
    then show ?thesis using assms by (auto simp: lrs_wf_def)
  qed
  ultimately show ?thesis using assms unfolding lrs_wf_def by metis
qed

lemma left_update:
  assumes "i < length lrs" and "lr_slbid lr' = lr_slbid (lrs ! i)" and "lr_nr_lbids lr' = lr_nr_lbids (lrs ! i)"
    and "user_committed lr' = user_committed (lrs ! i)"
  shows "left (lrs[i := lr']) = left lrs"
  using assms by (induction lrs arbitrary: i) (auto simp: lr_ids_def split: nat.splits)

text \<open>Committing one located request takes exactly its range out.\<close>

lemma left_commit:
  assumes "lrs_wf s lrs" and "i < length lrs" and "\<not> user_committed (lrs ! i)" and "user_committed lr'"
  shows "left (lrs[i := lr']) = filter (\<lambda>x. \<not> (unat (lr_slbid (lrs ! i)) \<le> unat x
            \<and> unat x < unat (lr_slbid (lrs ! i)) + nat (lr_nr_lbids (lrs ! i)))) (left lrs)
    \<and> (\<forall>j < nat (lr_nr_lbids (lrs ! i)). unat (lr_slbid (lrs ! i)) + j \<in> unat ` set (left lrs))
    \<and> unat s \<le> unat (lr_slbid (lrs ! i))
    \<and> unat (lr_slbid (lrs ! i)) + nat (lr_nr_lbids (lrs ! i)) < 2 ^ 64 \<and> 0 < lr_nr_lbids (lrs ! i)"
  using assms
proof (induction lrs arbitrary: s i)
  case Nil
  then show ?case by simp
next
  case (Cons lr lrs)
  note wf = lrs_wf_Cons [OF Cons.prems(1)]
  have b: "unat (lr_slbid lr) + nat (lr_nr_lbids lr) \<le> 2 ^ 64" "unat s + nat (lr_nr_lbids lr) + total lrs < 2 ^ 64"
    using Cons.prems(1) wf(1) by (simp_all add: lrs_wf_def)
  note ids = set_lr_ids [OF b(1)]
  show ?case
  proof (cases i)
    case 0
    have "filter (\<lambda>x. \<not> (unat s \<le> unat x \<and> unat x < unat s + nat (lr_nr_lbids lr))) (left lrs) = left lrs"
      using left_bounds [OF wf(4)] wf(3) by (intro filter_True) fastforce
    moreover have "filter (\<lambda>x. \<not> (unat s \<le> unat x \<and> unat x < unat s + nat (lr_nr_lbids lr))) (lr_ids lr) = []"
      using ids wf(1) by (simp add: filter_empty_conv)
    moreover have "unat s + j \<in> unat ` set (lr_ids lr)" if "j < nat (lr_nr_lbids lr)" for j
      using arg_cong [OF unat_lr_ids [OF b(1)], of set] that wf(1) by (simp add: image_image)
    ultimately show ?thesis using 0 Cons.prems(3,4) wf(1,2) b(2) by auto
  next
    case (Suc k)
    note IH = Cons.IH [OF wf(4), of k]
    from Suc Cons.prems(2,3) have k: "k < length lrs" "\<not> user_committed (lrs ! k)" by simp_all
    note I = IH [OF k Cons.prems(4)]
    let ?lo = "unat (lr_slbid (lrs ! k))" and ?hi = "unat (lr_slbid (lrs ! k)) + nat (lr_nr_lbids (lrs ! k))"
    have "filter (\<lambda>x. \<not> (?lo \<le> unat x \<and> unat x < ?hi)) (lr_ids lr) = lr_ids lr"
      using ids wf(1,3) I by (intro filter_True) fastforce
    then show ?thesis using I Suc wf(3) by auto
  qed
qed

lemma lb_ids_outside: "lb_ids (outside lo hi ns) = filter (\<lambda>x. \<not> (lo \<le> unat x \<and> unat x < hi)) (lb_ids ns)"
  by (simp add: outside_def lb_ids_snd filter_map comp_def)

lemma commit_located_blocks:
  assumes wf: "lrs_wf s lrs" and i: "i < length lrs" "\<not> user_committed (lrs ! i)" "user_committed lr'"
    and l: "lb_ids (lb_nodes l) = left lrs"
  obtains ns where "Commit_LB_List_by_Range l (lr_slbid (lrs ! i)) (lr_nr_lbids (lrs ! i)) = (of_bool (ns = []), l\<lparr>lb_nodes := ns\<rparr>)"
    and "lb_ids ns = left (lrs[i := lr'])"
proof -
  note c = left_commit [OF wf i]
  let ?lo = "unat (lr_slbid (lrs ! i))" and ?n = "nat (lr_nr_lbids (lrs ! i))"
  have srt: "sorted_wrt (<) (lb_ids (lb_nodes l))" unfolding l by (rule left_sorted [OF wf])
  have "run_from ?lo ?n 0 (lb_nodes l) = ?n" using c by (intro run_from_all) (simp add: l)
  with commit_scan_spec [OF srt, of "lr_slbid (lrs ! i)" ?n 0] c
  have "commit_scan (lr_slbid (lrs ! i)) (lr_nr_lbids (lrs ! i)) 0 (lb_nodes l) = (outside ?lo (?lo + ?n) (lb_nodes l), lr_nr_lbids (lrs ! i))"
    by simp
  then show thesis
    using c by (intro that [of "outside ?lo (?lo + ?n) (lb_nodes l)"])
      (simp_all add: Commit_LB_List_by_Range_def lb_ids_outside l)
qed

section \<open>The DIO holds what is left\<close>

definition mark :: "located_request \<Rightarrow> located_request" where
  "mark lr = lr\<lparr>lr_commit_state := set_bit COMMITTED_USER_BIT (lr_commit_state lr)\<rparr>"

lemma mark_committed: "user_committed lr \<Longrightarrow> mark lr = lr"
proof -
  assume "user_committed lr"
  then have "set_bit COMMITTED_USER_BIT (lr_commit_state lr) = lr_commit_state lr"
    by (intro bit_eqI) (auto simp: user_committed_def bit_simps)
  then show ?thesis by (simp add: mark_def)
qed

lemma user_committed_mark [simp]: "user_committed (mark lr)"
  by (simp add: user_committed_def mark_def bit_simps)

text \<open>The DIO at \<open>a\<close> is in the list of its request, which the block layer knows, and holds
  exactly the blocks \<open>bs\<close>.\<close>

definition dio_holds :: "io_st \<Rightarrow> nat \<Rightarrow> u64 list \<Rightarrow> bool" where
  "dio_holds io a bs \<longleftrightarrow> (\<exists>d l r k. s_dios io a = Some d \<and> d_LB_list d = Some l \<and> lb_ids (lb_nodes l) = bs
     \<and> s_iors io (d_io_req d) = Some r \<and> a \<in> set (dl_elems (r_diolist r))
     \<and> s_kreqs io (r_kreq r) = Some k \<and> k_special k = Some (d_io_req d))"

definition cm_inv :: "u64 \<Rightarrow> cstate \<Rightarrow> bool" where
  "cm_inv s cs \<longleftrightarrow> io_wf (c_io cs) \<and> lrs_wf s (md_lrs (c_dmeta cs))
     \<and> (case md_pdio (c_dmeta cs) of
          None \<Rightarrow> left (md_lrs (c_dmeta cs)) = []
        | Some a \<Rightarrow> left (md_lrs (c_dmeta cs)) \<noteq> [] \<and> dio_holds (c_io cs) a (left (md_lrs (c_dmeta cs))))"

lemma commit_blocks:
  assumes wf: "io_wf io" and h: "dio_holds io a bs" and ok: "\<And>kq res n. end_first kq res n = 0"
    and c: "\<And>l. lb_ids (lb_nodes l) = bs \<Longrightarrow>
      \<exists>ns. Commit_LB_List_by_Range l t n = (of_bool (ns = []), l\<lparr>lb_nodes := ns\<rparr>) \<and> lb_ids ns = bs'"
  shows "\<exists>io'. Commit_LB_to_DMS_IO end_first a t n res io = Some (of_bool (bs' = []), io') \<and> io_wf io'
    \<and> (if bs' = [] then s_dios io' a = None else dio_holds io' a bs')"
proof -
  from h obtain d l r k where d: "s_dios io a = Some d" "d_LB_list d = Some l" "lb_ids (lb_nodes l) = bs"
    "s_iors io (d_io_req d) = Some r" "a \<in> set (dl_elems (r_diolist r))"
    "s_kreqs io (r_kreq r) = Some k" "k_special k = Some (d_io_req d)" by (auto simp: dio_holds_def)
  from c [OF d(3)] obtain ns where ns: "Commit_LB_List_by_Range l t n = (of_bool (ns = []), l\<lparr>lb_nodes := ns\<rparr>)" "lb_ids ns = bs'"
    by blast
  have e: "bs' = [] \<longleftrightarrow> ns = []" using ns(2) by (auto simp: lb_ids_def)
  show ?thesis
  proof (cases "ns = []")
    case True
    then have cl: "Commit_LB_List_by_Range l t n = (1, l\<lparr>lb_nodes := []\<rparr>)" using ns(1) by simp
    have k0: "end_first (r_kreq r) res (k_nr_sectors k) = 0" for res by (rule ok)
    from commit_last_blocks [of io "d_io_req d" r a d l t n k end_first res, OF wf d(4,5,1,2) cl d(6,7) k0]
    obtain st' r' where "Commit_LB_to_DMS_IO end_first a t n res io = Some (1, st')" "io_wf st'"
      "s_dios st' = (s_dios io)(a := None)" by blast
    with True e show ?thesis by (intro exI [of _ st']) simp
  next
    case False
    let ?d = "d\<lparr>d_result := cmpxchg_true (d_result d) res, d_LB_list := Some (l\<lparr>lb_nodes := ns\<rparr>)\<rparr>"
    let ?io = "io\<lparr>s_dios := (s_dios io)(a \<mapsto> ?d)\<rparr>"
    have "io_wf (io\<lparr>s_next := s_next io, s_dio_id_gen := s_dio_id_gen io, s_dios := (s_dios io)(a \<mapsto> ?d)\<rparr>)"
      using d(1) by (intro io_wf_put [OF wf]) (auto simp: io_wf_dio [OF wf])
    moreover have "Commit_LB_to_DMS_IO end_first a t n res io = Some (0, ?io)"
      using d(1,2) ns(1) False by (simp add: Commit_LB_to_DMS_IO_def Let_def)
    moreover have "dio_holds ?io a bs'"
      unfolding dio_holds_def using d ns(2) by (intro exI [of _ ?d] exI [of _ "l\<lparr>lb_nodes := ns\<rparr>"] exI [of _ r] exI [of _ k]) simp
    ultimately show ?thesis using False e by (intro exI [of _ ?io]) simp
  qed
qed

lemma Commit_LBs_spec:
  assumes inv: "cm_inv s cs" and i: "i < length (md_lrs (c_dmeta cs))" and ok: "\<And>kq res n. end_first kq res n = 0"
  shows "\<exists>r p io. Commit_LBs_to_DMS_IO end_first i ack cs =
      Some (r, cs\<lparr>c_dmeta := (c_dmeta cs)\<lparr>md_lrs := (md_lrs (c_dmeta cs))[i := mark (md_lrs (c_dmeta cs) ! i)], md_pdio := p\<rparr>, c_io := io\<rparr>)
    \<and> cm_inv s (cs\<lparr>c_dmeta := (c_dmeta cs)\<lparr>md_lrs := (md_lrs (c_dmeta cs))[i := mark (md_lrs (c_dmeta cs) ! i)], md_pdio := p\<rparr>, c_io := io\<rparr>)"
proof -
  let ?dm = "c_dmeta cs" and ?lrs = "md_lrs (c_dmeta cs)"
  let ?lr = "?lrs ! i"
  have wf: "io_wf (c_io cs)" "lrs_wf s ?lrs" using inv by (simp_all add: cm_inv_def)
  show ?thesis
  proof (cases "user_committed ?lr")
    case True
    then have "?lrs[i := mark ?lr] = ?lrs" by (simp add: mark_committed)
    then have "cs = cs\<lparr>c_dmeta := ?dm\<lparr>md_lrs := ?lrs[i := mark ?lr], md_pdio := md_pdio ?dm\<rparr>, c_io := c_io cs\<rparr>" by simp
    moreover have "Commit_LBs_to_DMS_IO end_first i ack cs = Some (- DMS_FAIL, cs)"
      using True by (simp add: Commit_LBs_to_DMS_IO_def Let_def user_committed_def)
    ultimately show ?thesis using inv by (intro exI [of _ "- DMS_FAIL"] exI [of _ "md_pdio ?dm"] exI [of _ "c_io cs"]) simp
  next
    case False
    note lc = left_commit [OF wf(2) i False user_committed_mark, of _]
    have "0 < nat (lr_nr_lbids ?lr)" and "\<forall>j < nat (lr_nr_lbids ?lr). unat (lr_slbid ?lr) + j \<in> unat ` set (left ?lrs)"
      using lc [of ?lr] by simp_all
    then have "left ?lrs \<noteq> []" by fastforce
    with inv obtain a where a: "md_pdio ?dm = Some a" "dio_holds (c_io cs) a (left ?lrs)"
      by (auto simp: cm_inv_def split: option.splits)
    let ?lrs' = "?lrs[i := mark ?lr]"
    have "\<exists>ns. Commit_LB_List_by_Range l (lr_slbid ?lr) (lr_nr_lbids ?lr) = (of_bool (ns = []), l\<lparr>lb_nodes := ns\<rparr>)
        \<and> lb_ids ns = left ?lrs'" if "lb_ids (lb_nodes l) = left ?lrs" for l
      using commit_located_blocks [OF wf(2) i False user_committed_mark that] by metis
    from commit_blocks [where end_first = end_first and res = ack, OF wf(1) a(2) ok this]
    obtain io' where io': "Commit_LB_to_DMS_IO end_first a (lr_slbid ?lr) (lr_nr_lbids ?lr) ack (c_io cs)
        = Some (of_bool (left ?lrs' = []), io')" "io_wf io'" "if left ?lrs' = [] then s_dios io' a = None else dio_holds io' a (left ?lrs')"
      by blast
    let ?p = "if left ?lrs' = [] then None else Some a"
    let ?cs = "cs\<lparr>c_dmeta := ?dm\<lparr>md_lrs := ?lrs', md_pdio := ?p\<rparr>, c_io := io'\<rparr>"
    have "lrs_wf s ?lrs'" by (rule lrs_wf_update [OF wf(2) i]) (simp_all add: mark_def)
    then have "cm_inv s ?cs" using io'(2,3) by (auto simp: cm_inv_def)
    moreover have "Commit_LBs_to_DMS_IO end_first i ack cs = Some (of_bool (left ?lrs' = []), ?cs)"
      using False a(1) io'(1) by (simp add: Commit_LBs_to_DMS_IO_def Let_def user_committed_def mark_def)
    ultimately show ?thesis by blast
  qed
qed

section \<open>What one payload tag does\<close>

text \<open>On the located requests alone: the counters, the results, the mark.\<close>

definition apply_tag :: "int \<Rightarrow> int \<Rightarrow> nat \<times> nat \<Rightarrow> located_request list \<Rightarrow> located_request list" where
  "apply_tag op ack t lrs =
     (case Update_and_Commit_to_User_Policy op (lrs ! fst t) (snd t) ack of
        None \<Rightarrow> lrs
      | Some (r, lr) \<Rightarrow> lrs[fst t := if r \<in> {ACT_LRDONE, ACT_CUSER} then mark lr else lr])"

definition tag_ok :: "located_request list \<Rightarrow> nat \<times> nat \<Rightarrow> bool" where
  "tag_ok lrs t \<longleftrightarrow> fst t < length lrs \<and> snd t < length (lr_dn_locs (lrs ! fst t))"

lemma policy_keeps:
  assumes "Update_and_Commit_to_User_Policy op lr j ack = Some (r, lr')"
  shows "lr_slbid lr' = lr_slbid lr" "lr_nr_lbids lr' = lr_nr_lbids lr" "lr_commit_state lr' = lr_commit_state lr"
    "length (lr_dn_locs lr') = length (lr_dn_locs lr)"
  using assms
  by (auto simp: Update_and_Commit_to_User_Policy_def Update_Mem_Ack_def Update_Disk_Ack_def Dec_WMem_Ack_def Dec_WDisk_Ack_def Let_def
      split: if_splits)

lemma policy_defined: "j < length (lr_dn_locs lr) \<Longrightarrow> \<exists>r lr'. Update_and_Commit_to_User_Policy op lr j ack = Some (r, lr')"
  by (simp add: Update_and_Commit_to_User_Policy_def Let_def split: prod.splits)

lemma tag_ok_apply: "tag_ok lrs t \<Longrightarrow> tag_ok (apply_tag op ack u lrs) t"
  by (cases "Update_and_Commit_to_User_Policy op (lrs ! fst u) (snd u) ack"; cases "fst u = fst t")
    (auto simp: apply_tag_def tag_ok_def mark_def dest: policy_keeps)

text \<open>The parts of the state that a commit changes.\<close>

definition with_lrs :: "located_request list \<Rightarrow> nat option \<Rightarrow> io_st \<Rightarrow> cstate \<Rightarrow> cstate" where
  "with_lrs lrs p io cs = cs\<lparr>c_dmeta := (c_dmeta cs)\<lparr>md_lrs := lrs, md_pdio := p\<rparr>, c_io := io\<rparr>"

lemma with_lrs_simps [simp]: "c_io (with_lrs lrs p io cs) = io" "md_lrs (c_dmeta (with_lrs lrs p io cs)) = lrs"
  "md_pdio (c_dmeta (with_lrs lrs p io cs)) = p" "md_op (c_dmeta (with_lrs lrs p io cs)) = md_op (c_dmeta cs)"
  "md_nr_waiting_lrs (c_dmeta (with_lrs lrs p io cs)) = md_nr_waiting_lrs (c_dmeta cs)"
  "c_dpts (with_lrs lrs p io cs) = c_dpts cs" "c_ddts (with_lrs lrs p io cs) = c_ddts cs"
  "c_dn_tags (with_lrs lrs p io cs) = c_dn_tags cs"
  "with_lrs lrs p io (with_lrs lrs' p' io' cs) = with_lrs lrs p io cs"
  by (simp_all add: with_lrs_def)

lemma commit_payload_tag_spec:
  assumes inv: "cm_inv s cs" and ok: "\<And>kq res n. end_first kq res n = 0"
    and t: "c_dpts cs dpt = Some t" "tag_ok (md_lrs (c_dmeta cs)) t"
  shows "\<exists>r p io. commit_payload_tag end_first ack dpt cs = Some (r,
        with_lrs (apply_tag (md_op (c_dmeta cs)) ack t (md_lrs (c_dmeta cs))) p io cs)
    \<and> cm_inv s (with_lrs (apply_tag (md_op (c_dmeta cs)) ack t (md_lrs (c_dmeta cs))) p io cs)"
proof -
  obtain i j where ij: "t = (i, j)" by (cases t)
  let ?dm = "c_dmeta cs" and ?lrs = "md_lrs (c_dmeta cs)"
  from t(2) ij have i: "i < length ?lrs" "j < length (lr_dn_locs (?lrs ! i))" by (simp_all add: tag_ok_def)
  from policy_defined [OF i(2), of "md_op ?dm" ack] obtain r lr where
    p: "Update_and_Commit_to_User_Policy (md_op ?dm) (?lrs ! i) j ack = Some (r, lr)" by blast
  note keep = policy_keeps [OF p]
  let ?cs = "cs\<lparr>c_dmeta := ?dm\<lparr>md_lrs := ?lrs[i := lr]\<rparr>\<rparr>"
  have "lrs_wf s (?lrs[i := lr])" using inv i(1) keep by (intro lrs_wf_update) (simp_all add: cm_inv_def)
  moreover have "left (?lrs[i := lr]) = left ?lrs" using i(1) keep by (intro left_update) (simp_all add: user_committed_def)
  ultimately have inv': "cm_inv s ?cs" using inv by (cases "md_pdio ?dm") (simp_all add: cm_inv_def)
  show ?thesis
  proof (cases "r \<in> {ACT_LRDONE, ACT_CUSER}")
    case True
    have "i < length (md_lrs (c_dmeta ?cs))" using i(1) by simp
    from Commit_LBs_spec [where end_first = end_first and ack = ack, OF inv' this ok] i(1)
    obtain ra p io where "Commit_LBs_to_DMS_IO end_first i ack ?cs = Some (ra, with_lrs (?lrs[i := mark lr]) p io cs)"
      "cm_inv s (with_lrs (?lrs[i := mark lr]) p io cs)" by (auto simp: with_lrs_def)
    with True p i(1) t(1) ij show ?thesis
      by (intro exI [of _ r] exI [of _ p] exI [of _ io]) (auto simp: commit_payload_tag_def apply_tag_def Let_def)
  next
    case False
    have "?cs = with_lrs (?lrs[i := lr]) (md_pdio ?dm) (c_io cs) cs" by (simp add: with_lrs_def)
    with False p i(1) t(1) ij inv' show ?thesis
      by (intro exI [of _ r] exI [of _ "md_pdio ?dm"] exI [of _ "c_io cs"])
        (simp add: commit_payload_tag_def apply_tag_def Let_def)
  qed
qed

text \<open>All payload tags of a datanode tag, in the order of the list.\<close>

definition apply_tags :: "cstate \<Rightarrow> int \<Rightarrow> nat list \<Rightarrow> located_request list \<Rightarrow> located_request list" where
  "apply_tags cs ack dpts lrs = fold (\<lambda>dpt. apply_tag (md_op (c_dmeta cs)) ack (the (c_dpts cs dpt))) dpts lrs"

definition dpt_ok :: "cstate \<Rightarrow> located_request list \<Rightarrow> nat \<Rightarrow> bool" where
  "dpt_ok cs lrs dpt \<longleftrightarrow> (case c_dpts cs dpt of None \<Rightarrow> False | Some t \<Rightarrow> tag_ok lrs t)"

lemma apply_tags_simps [simp]: "apply_tags cs ack [] lrs = lrs"
  "apply_tags cs ack (x # xs) lrs = apply_tags cs ack xs (apply_tag (md_op (c_dmeta cs)) ack (the (c_dpts cs x)) lrs)"
  by (simp_all add: apply_tags_def)

lemma apply_tags_with [simp]: "apply_tags (with_lrs l p io cs) = apply_tags cs" "dpt_ok (with_lrs l p io cs) = dpt_ok cs"
  by (intro ext; simp add: apply_tags_def dpt_ok_def)+

lemma policy_loop_spec:
  "dl_inv tags \<Longrightarrow> cm_inv s cs \<Longrightarrow> list_all (dpt_ok cs (md_lrs (c_dmeta cs))) (dl_rest tags) \<Longrightarrow>
   (\<And>kq res n. end_first kq res n = 0) \<Longrightarrow> length (dl_rest tags) < n \<Longrightarrow>
   \<exists>r tags' p io. policy_loop n end_first ack tags rc done_lrs cs
       = Some (r, tags', with_lrs (apply_tags cs ack (dl_rest tags) (md_lrs (c_dmeta cs))) p io cs)
     \<and> cm_inv s (with_lrs (apply_tags cs ack (dl_rest tags) (md_lrs (c_dmeta cs))) p io cs)"
proof (induction n arbitrary: tags rc done_lrs cs)
  case 0
  then show ?case by simp
next
  case (Suc n)
  show ?case
  proof (cases "dl_rest tags")
    case Nil
    have "cs = with_lrs (md_lrs (c_dmeta cs)) (md_pdio (c_dmeta cs)) (c_io cs) cs" by (simp add: with_lrs_def)
    with Nil Suc.prems(1,2) show ?thesis
      by (intro exI [of _ rc] exI [of _ tags] exI [of _ "md_pdio (c_dmeta cs)"] exI [of _ "c_io cs"]) (simp add: dlw.next_end)
  next
    case (Cons dpt dpts)
    from dlw.next_step [OF Suc.prems(1) Cons] obtain tags1 where
      g: "Get_Next_User_Data tags = Some (Some dpt, tags1)" "dl_inv tags1" "dl_rest tags1 = dpts" by blast
    from Suc.prems(3) Cons obtain t where t: "c_dpts cs dpt = Some t" "tag_ok (md_lrs (c_dmeta cs)) t"
      by (auto simp: dpt_ok_def split: option.splits)
    let ?lrs = "apply_tag (md_op (c_dmeta cs)) ack t (md_lrs (c_dmeta cs))"
    from commit_payload_tag_spec [where end_first = end_first and ack = ack, OF Suc.prems(2,4) t] obtain r p io where
      c: "commit_payload_tag end_first ack dpt cs = Some (r, with_lrs ?lrs p io cs)" "cm_inv s (with_lrs ?lrs p io cs)" by blast
    have "list_all (dpt_ok (with_lrs ?lrs p io cs) (md_lrs (c_dmeta (with_lrs ?lrs p io cs)))) (dl_rest tags1)"
      using Suc.prems(3) Cons g(3) by (auto simp: list_all_iff dpt_ok_def tag_ok_apply split: option.splits)
    from Suc.IH [OF g(2) c(2) this Suc.prems(4)] Suc.prems(5) Cons g c(1) t(1) show ?thesis
      by (simp add: Let_def)
  qed
qed

lemma length_dl_rest_reset: "dl_inv d \<Longrightarrow> length (dl_rest (dl_reset d)) < Suc (length (dl_nodes d))"
  using dlw.rest_reset [of d] by (simp add: dl_elems_def)

lemma namenode_policy_keeps:
  "\<exists>w. snd (Default_Update_and_Commit_to_Namenode_Policy n rc dm) = dm\<lparr>md_nr_waiting_lrs := w\<rparr>"
proof (induction n arbitrary: rc dm)
  case 0
  have "dm = dm\<lparr>md_nr_waiting_lrs := md_nr_waiting_lrs dm\<rparr>" by simp
  then show ?case by (metis Default_Update_and_Commit_to_Namenode_Policy.simps(1) snd_conv)
next
  case (Suc n)
  let ?w = "c_int (md_nr_waiting_lrs dm - 1)"
  from Suc.IH [of "if ?w = 0 then ACT_CNAMENODE else rc" "dm\<lparr>md_nr_waiting_lrs := ?w\<rparr>"] obtain v where
    "snd (Default_Update_and_Commit_to_Namenode_Policy n (if ?w = 0 then ACT_CNAMENODE else rc) (dm\<lparr>md_nr_waiting_lrs := ?w\<rparr>))
      = dm\<lparr>md_nr_waiting_lrs := v\<rparr>" by auto
  then show ?case by (intro exI [of _ v]) (simp add: Let_def)
qed

text \<open>Once marked, a located request stays marked; an acknowledgement of the disk or of a
  read marks every request it names.\<close>

lemma committed_mono: "user_committed (lrs ! i) \<Longrightarrow> user_committed (apply_tag op ack t lrs ! i)"
  by (cases "Update_and_Commit_to_User_Policy op (lrs ! fst t) (snd t) ack"; cases "fst t < length lrs"; cases "fst t = i")
    (auto simp: apply_tag_def user_committed_def mark_def bit_simps list_update_beyond not_less dest: policy_keeps)

lemma committed_mono_tags: "user_committed (lrs ! i) \<Longrightarrow> user_committed (apply_tags cs ack xs lrs ! i)"
  by (induction xs arbitrary: lrs) (simp_all add: committed_mono)

lemma disk_ack_marks: "ack \<in> {READ_ACK, WDISK_ACK, PWDISK_ACK} \<Longrightarrow> tag_ok lrs t \<Longrightarrow> user_committed (apply_tag op ack t lrs ! fst t)"
  by (auto simp: apply_tag_def tag_ok_def Update_and_Commit_to_User_Policy_def Update_Disk_Ack_def Dec_WDisk_Ack_def Let_def
      ack_defs act_defs)

lemma disk_ack_marks_tags:
  "ack \<in> {READ_ACK, WDISK_ACK, PWDISK_ACK} \<Longrightarrow> list_all (dpt_ok cs lrs) xs \<Longrightarrow> x \<in> set xs \<Longrightarrow>
   user_committed (apply_tags cs ack xs lrs ! fst (the (c_dpts cs x)))"
proof (induction xs arbitrary: lrs)
  case Nil
  then show ?case by simp
next
  case (Cons y ys)
  let ?lrs = "apply_tag (md_op (c_dmeta cs)) ack (the (c_dpts cs y)) lrs"
  have ok: "list_all (dpt_ok cs ?lrs) ys" using Cons.prems(2)
    by (auto simp: list_all_iff dpt_ok_def tag_ok_apply split: option.splits)
  show ?case
  proof (cases "x = y")
    case True
    from Cons.prems(2) have "tag_ok lrs (the (c_dpts cs y))" by (auto simp: dpt_ok_def split: option.splits)
    with True disk_ack_marks [OF Cons.prems(1)] show ?thesis by (simp add: committed_mono_tags)
  next
    case False
    with Cons.IH [OF Cons.prems(1) ok] Cons.prems(3) show ?thesis by simp
  qed
qed

section \<open>The commit path\<close>

text \<open>C6: One acknowledgement, as it comes from a datanode tag.  As long as the located
  requests follow each other in the volume and the DIO holds the blocks of those that
  are not committed to the user (\<open>cm_inv\<close>), the whole commit does not fault, and the
  state it leaves is determined by the located requests alone: their counters and
  marks change as \<open>apply_tags\<close> says, the DIO holds exactly the blocks of the unmarked
  ones, and it is gone, its pointer cleared, exactly when none is left.  An
  acknowledgement of a read or of the disk marks every located request the tag names.\<close>
theorem VolumeIO_Commiter_refines:
  assumes inv: "cm_inv s cs" and ok: "\<And>kq res n. end_first kq res n = 0"
    and tags: "c_ddts cs ddt = Some tags" "dl_inv tags" "list_all (dpt_ok cs (md_lrs (c_dmeta cs))) (dl_elems tags)"
  shows "\<exists>r cs'. VolumeIO_Commiter end_first new ddt ack cs = Some (r, cs') \<and> cm_inv s cs'
    \<and> md_lrs (c_dmeta cs') = apply_tags cs ack (dl_elems tags) (md_lrs (c_dmeta cs))
    \<and> (case md_pdio (c_dmeta cs') of
         None \<Rightarrow> left (md_lrs (c_dmeta cs')) = []
       | Some a \<Rightarrow> left (md_lrs (c_dmeta cs')) \<noteq> [] \<and> dio_holds (c_io cs') a (left (md_lrs (c_dmeta cs'))))
    \<and> (ack \<in> {READ_ACK, WDISK_ACK, PWDISK_ACK} \<longrightarrow>
        (\<forall>dpt \<in> set (dl_elems tags). user_committed (md_lrs (c_dmeta cs') ! fst (the (c_dpts cs dpt)))))"
proof -
  let ?lrs = "apply_tags cs ack (dl_elems tags) (md_lrs (c_dmeta cs))"
  have "dl_inv (dl_reset tags)" by (rule dlw.inv_reset [OF tags(2)])
  moreover have rest: "dl_rest (dl_reset tags) = dl_elems tags" by (rule dlw.rest_reset [OF tags(2)])
  ultimately obtain r tags' p io where l: "policy_loop (Suc (length (dl_nodes tags))) end_first ack (dl_reset tags) (- DMS_FAIL) 0 cs
      = Some (r, tags', with_lrs ?lrs p io cs)" and inv': "cm_inv s (with_lrs ?lrs p io cs)"
    using policy_loop_spec [of "dl_reset tags" s cs end_first "Suc (length (dl_nodes tags))" ack "- DMS_FAIL" 0]
      inv tags(2,3) ok length_dl_rest_reset [OF tags(2)] by auto
  define cs1 where "cs1 = (with_lrs ?lrs p io cs)\<lparr>c_ddts := (c_ddts cs)(ddt \<mapsto> tags')\<rparr>"
  have d: "Default_Update_and_Commit_to_User_Policy end_first ddt ack cs = Some (r, cs1)"
    using l tags(1) by (simp add: Default_Update_and_Commit_to_User_Policy_def dl_reset_def cs1_def)
  define rdm where "rdm = (if r > 0 then Default_Update_and_Commit_to_Namenode_Policy (nat r) (- DMS_FAIL) (c_dmeta cs1)
      else (- DMS_FAIL, c_dmeta cs1))"
  obtain w where w: "snd rdm = (c_dmeta cs1)\<lparr>md_nr_waiting_lrs := w\<rparr>"
  proof (cases "r > 0")
    case True
    with namenode_policy_keeps [of "nat r" "- DMS_FAIL" "c_dmeta cs1"] that show ?thesis by (auto simp: rdm_def)
  next
    case False
    then show ?thesis using that [of "md_nr_waiting_lrs (c_dmeta cs1)"] by (simp add: rdm_def)
  qed
  have "\<exists>q cs'. Commit_Datanode_Tags new ddt ack (cs1\<lparr>c_dmeta := snd rdm\<rparr>) = Some (q, cs') \<and> c_dmeta cs' = snd rdm \<and> c_io cs' = io"
    by (auto simp: Commit_Datanode_Tags_def cs1_def)
  then obtain q cs' where cs': "Commit_Datanode_Tags new ddt ack (cs1\<lparr>c_dmeta := snd rdm\<rparr>) = Some (q, cs')"
    "c_dmeta cs' = snd rdm" "c_io cs' = io" by blast
  have r: "VolumeIO_Commiter end_first new ddt ack cs = Some (fst rdm, cs')"
    using d cs'(1) by (cases "r > 0") (simp_all add: VolumeIO_Commiter_def rdm_def split_def Let_def)
  have m: "md_lrs (c_dmeta cs') = ?lrs" "md_pdio (c_dmeta cs') = p" using cs'(2) w by (simp_all add: cs1_def)
  have i: "cm_inv s cs'" using inv' m cs'(3) by (cases p) (simp_all add: cm_inv_def)
  then have h: "case md_pdio (c_dmeta cs') of None \<Rightarrow> left (md_lrs (c_dmeta cs')) = []
       | Some a \<Rightarrow> left (md_lrs (c_dmeta cs')) \<noteq> [] \<and> dio_holds (c_io cs') a (left (md_lrs (c_dmeta cs')))"
    unfolding cm_inv_def by blast
  have k: "ack \<in> {READ_ACK, WDISK_ACK, PWDISK_ACK} \<longrightarrow>
      (\<forall>dpt \<in> set (dl_elems tags). user_committed (md_lrs (c_dmeta cs') ! fst (the (c_dpts cs dpt))))"
    using disk_ack_marks_tags [OF _ tags(3)] unfolding m(1) by blast
  show ?thesis by (rule exI [of _ "fst rdm"], rule exI [of _ cs']) (intro conjI r i h k m(1))
qed

section \<open>The counters\<close>

lemma c_int_eq_iff: "c_int x = c_int y \<longleftrightarrow> x mod 2 ^ 32 = y mod 2 ^ 32"
  unfolding c_int_def signed_take_bit_eq_iff_take_bit_eq by (simp add: take_bit_eq_mod)

lemma c_int_mod: "c_int x mod 2 ^ 32 = x mod 2 ^ 32"
proof -
  have "c_int (c_int x) = c_int x" by (simp add: c_int_def)
  then show ?thesis by (simp only: c_int_eq_iff)
qed

lemma c_int_minus: "c_int (c_int x - y) = c_int (x - y)"
  unfolding c_int_eq_iff using c_int_mod [of x] by (metis mod_diff_left_eq)

lemma c_int_zero: "c_int x = 0 \<longleftrightarrow> x mod 2 ^ 32 = 0"
proof -
  have "c_int 0 = 0" by (simp add: c_int_def)
  then show ?thesis using c_int_eq_iff [of x 0] by simp
qed

lemma mem_acks: "lr_wmem_ack (((\<lambda>lr. snd (Update_Mem_Ack lr)) ^^ k) lr) = (if k = 0 then lr_wmem_ack lr else c_int (lr_wmem_ack lr - int k))"
proof (induction k)
  case (Suc k)
  then show ?case
    by (cases "k = 0") (simp_all add: Update_Mem_Ack_def Dec_WMem_Ack_def Let_def c_int_minus algebra_simps)
qed simp

lemma disk_acks: "lr_wdisk_ack (((\<lambda>lr. snd (Update_Disk_Ack lr cuser)) ^^ k) lr) = (if k = 0 then lr_wdisk_ack lr else c_int (lr_wdisk_ack lr - int k))"
proof (induction k)
  case (Suc k)
  then show ?case
    by (cases "k = 0") (simp_all add: Update_Disk_Ack_def Dec_WDisk_Ack_def Let_def c_int_minus algebra_simps)
qed simp

lemma counts: "(w - int k - 1) mod 2 ^ 32 = 0 \<longleftrightarrow> int (Suc k) mod 2 ^ 32 = w mod 2 ^ 32"
  using mod_eq_dvd_iff [of w "2 ^ 32" "int (Suc k)"] by (auto simp: algebra_simps dvd_eq_mod_eq_0)

text \<open>The counters decide by counting: the k-th memory acknowledgement of a located
  request commits it to the user, and the k-th acknowledgement of the disk declares
  it done, exactly when k is the counter's first value, modulo 2^32.  The parser
  leaves both counters 0 and nothing in the program sets them, so memory
  acknowledgements commit nothing and no located request is ever done before the
  2^32-th acknowledgement.\<close>
theorem ack_counters:
  assumes "Parse_Located_Request lr_zero buf slbid = Some (parsed, r)"
  shows "(fst (Update_Mem_Ack (((\<lambda>lr. snd (Update_Mem_Ack lr)) ^^ k) lr)) = ACT_CUSER
        \<longleftrightarrow> int (Suc k) mod 2 ^ 32 = lr_wmem_ack lr mod 2 ^ 32)
    \<and> (fst (Update_Disk_Ack (((\<lambda>lr. snd (Update_Disk_Ack lr cuser)) ^^ k) lr) cuser) = ACT_LRDONE
        \<longleftrightarrow> int (Suc k) mod 2 ^ 32 = lr_wdisk_ack lr mod 2 ^ 32)
    \<and> lr_wmem_ack parsed = 0 \<and> lr_wdisk_ack parsed = 0"
proof -
  have "fst (Update_Mem_Ack (((\<lambda>lr. snd (Update_Mem_Ack lr)) ^^ k) lr)) = ACT_CUSER
      \<longleftrightarrow> c_int (lr_wmem_ack lr - int k - 1) = 0"
    by (cases "k = 0") (simp_all add: Update_Mem_Ack_def [of "(_ ^^ _) _"] Update_Mem_Ack_def [of lr] Dec_WMem_Ack_def Let_def act_defs mem_acks c_int_minus)
  moreover have "fst (Update_Disk_Ack (((\<lambda>lr. snd (Update_Disk_Ack lr cuser)) ^^ k) lr) cuser) = ACT_LRDONE
      \<longleftrightarrow> c_int (lr_wdisk_ack lr - int k - 1) = 0"
    by (cases "k = 0") (simp_all add: Update_Disk_Ack_def [of "(_ ^^ _) _"] Update_Disk_Ack_def [of lr] Dec_WDisk_Ack_def Let_def act_defs disk_acks c_int_minus)
  moreover have "lr_wmem_ack parsed = 0 \<and> lr_wdisk_ack parsed = 0"
    using assms by (auto simp: Parse_Located_Request_def bind_eq_Some_conv lr_zero_def)
  ultimately show ?thesis by (simp only: c_int_zero counts)
qed
section \<open>Witnesses\<close>

definition ex_cm_dio :: dms_io where
  "ex_cm_dio = \<lparr>d_did = 1, d_volume = 0, d_io_req = 10, d_sLBID = 1, d_nr_LBIDs = 4, d_op = 1,
     d_LB_list = Some \<lparr>lb_nodes = [lb_ex 40 1, lb_ex 41 2, lb_ex 42 3, lb_ex 43 4], lb_next = None\<rparr>,
     d_state = 1, d_retry_count = 1, d_result = 1, d_magic = DIO_MAGIC\<rparr>"

definition ex_cm :: cstate where
  "ex_cm = \<lparr>c_dmeta = (Create_DMS_Metadata 20 ex_cm_dio)\<lparr>md_nr_lrs := 2, md_lrs := [ex_request 1 [ex_location], ex_request 3 [ex_location]],
       md_nr_waiting_lrs := 2\<rparr>,
     c_dn_tags = \<lparr>dl_nodes = [], dl_next = None\<rparr>, c_ddts = [60 \<mapsto> \<lparr>dl_nodes = [(61, 70), (62, 71)], dl_next = None\<rparr>],
     c_dpts = [70 \<mapsto> (0, 0), 71 \<mapsto> (1, 0)],
     c_io = \<lparr>s_next = 100, s_dio_id_gen = 1, s_ior_id_gen = 1, s_dios = [20 \<mapsto> ex_cm_dio],
       s_iors = [10 \<mapsto> \<lparr>r_rid = 1, r_kreq = 7, r_diolist = \<lparr>dl_nodes = [(30, 20)], dl_next = None\<rparr>, r_result = 1, r_ref_cnt = 2\<rparr>],
       s_kreqs = [7 \<mapsto> kreq_ex\<lparr>k_special := Some 10\<rparr>], s_ended = []\<rparr>\<rparr>"

lemma ex_cm_inv: "cm_inv 1 ex_cm"
proof -
  have l: "left (md_lrs (c_dmeta ex_cm)) = [1, 2, 3, 4]"
    by (simp add: ex_cm_def ex_defs user_committed_def lr_ids_def numeral_2_eq_2)
  have h: "dio_holds (c_io ex_cm) 20 [1, 2, 3, 4]"
    by (simp add: dio_holds_def ex_cm_def ex_cm_dio_def lb_ex_def dl_elems_def)
  have "lrs_wf 1 (md_lrs (c_dmeta ex_cm))" by (simp add: lrs_wf_def ex_cm_def ex_defs)
  moreover have "io_wf (c_io ex_cm)"
    by (simp add: io_wf_def ior_wf_def ex_cm_def ex_cm_dio_def dl_inv_def dl_elems_def pos_ok_def)
  moreover have "md_pdio (c_dmeta ex_cm) = Some 20" by (simp add: ex_cm_def Create_DMS_Metadata_def)
  ultimately show ?thesis using l h by (simp add: cm_inv_def)
qed

theorem VolumeIO_Commiter_refines_witness:
  "\<exists>r cs'. VolumeIO_Commiter (\<lambda>_ _ _. 0) 90 60 WDISK_ACK ex_cm = Some (r, cs') \<and> md_pdio (c_dmeta cs') = None"
proof -
  let ?tags = "\<lparr>dl_nodes = [(61, 70), (62, 71)], dl_next = None\<rparr> :: nat dlist"
  have t: "c_ddts ex_cm 60 = Some ?tags" "dl_inv ?tags" "dl_elems ?tags = [70, 71]"
    by (simp_all add: ex_cm_def dl_inv_def dl_elems_def)
  have o: "list_all (dpt_ok ex_cm (md_lrs (c_dmeta ex_cm))) (dl_elems ?tags)"
    by (simp add: t(3) dpt_ok_def tag_ok_def ex_cm_def ex_defs)
  obtain r cs' where c: "VolumeIO_Commiter (\<lambda>_ _ _. 0) 90 60 WDISK_ACK ex_cm = Some (r, cs')"
    "md_lrs (c_dmeta cs') = apply_tags ex_cm WDISK_ACK [70, 71] (md_lrs (c_dmeta ex_cm))"
    "case md_pdio (c_dmeta cs') of None \<Rightarrow> left (md_lrs (c_dmeta cs')) = []
       | Some a \<Rightarrow> left (md_lrs (c_dmeta cs')) \<noteq> [] \<and> dio_holds (c_io cs') a (left (md_lrs (c_dmeta cs')))"
    using VolumeIO_Commiter_refines [OF ex_cm_inv _ t(1,2) o, of "\<lambda>_ _ _. 0" 90 WDISK_ACK] unfolding t(3) by blast
  have "length (md_lrs (c_dmeta cs')) = 2" "user_committed (md_lrs (c_dmeta cs') ! 0)" "user_committed (md_lrs (c_dmeta cs') ! 1)"
    using disk_ack_marks_tags [of WDISK_ACK ex_cm "md_lrs (c_dmeta ex_cm)" "[70, 71]" 70]
      disk_ack_marks_tags [of WDISK_ACK ex_cm "md_lrs (c_dmeta ex_cm)" "[70, 71]" 71] o
    unfolding c(2) t(3) by (auto simp: apply_tags_def apply_tag_def ex_cm_def split: option.splits)
  then have "left (md_lrs (c_dmeta cs')) = []"
    by (cases "md_lrs (c_dmeta cs')"; cases "tl (md_lrs (c_dmeta cs'))") auto
  with c show ?thesis by (cases "md_pdio (c_dmeta cs')") auto
qed

theorem ack_counters_witness:
  "fst (Update_Mem_Ack ((lr_zero)\<lparr>lr_wmem_ack := 1\<rparr>)) = ACT_CUSER"
proof -
  have "sint (0 :: u16) = 0" by simp
  have b: "drop 0 (WRITE_NET_SHORT 0 @ WRITE_NET_SHORT 0 @ WRITE_NET_SHORT 0) = WRITE_NET_SHORT 0 @ WRITE_NET_SHORT 0 @ WRITE_NET_SHORT 0 @ []"
    by simp
  note s1 = net_step(1) [OF b] and s2 = net_step(1) [OF net_step(1) [OF b, THEN conjunct2]]
  note s3 = net_step(1) [OF s2 [THEN conjunct2]]
  have "\<exists>l r. Parse_Located_Request lr_zero (WRITE_NET_SHORT 0 @ WRITE_NET_SHORT 0 @ WRITE_NET_SHORT 0) 0 = Some (l, r)"
    using s1 s2 s3 by (simp add: Parse_Located_Request_def Parse_Datanode_Locations_def read_array_def)
  then obtain l r where "Parse_Located_Request lr_zero (WRITE_NET_SHORT 0 @ WRITE_NET_SHORT 0 @ WRITE_NET_SHORT 0) 0 = Some (l, r)" by blast
  from ack_counters [OF this, of 0 "lr_zero\<lparr>lr_wmem_ack := 1\<rparr>" True] show ?thesis by simp
qed
end
