(* ===== verification/Radix_Tree.thy ===== *)
theory Radix_Tree
  imports DMS_Prelude
begin

text \<open>
  The index of the metadata cache, \<open>DriverCore/cache/radix-tree.c\<close>: a tree of nodes
  with 64 slots, as high as its largest key needs.  A slot is NULL (\<open>None\<close>), an item
  at the lowest level, or a node; which of the two a pointer is follows from the
  height, and an item in the place of a node, which a well-formed tree does not have,
  is read as NULL.  Nodes are never shared, so the tree is a value.  Allocating a
  node succeeds and gives a node of zeros.  The theory shows that the tree is a map
  from 64-bit indices (\<open>index_map\<close>).
\<close>

section \<open>The interface of an index\<close>

text \<open>A map from indices: insertion gives back what it replaced, deletion what it removed.\<close>

locale index_map =
  fixes wf :: "'t \<Rightarrow> bool"
    and lookup :: "'t \<Rightarrow> u64 \<Rightarrow> 'a option"
    and ins :: "'t \<Rightarrow> u64 \<Rightarrow> 'a \<Rightarrow> 'a option \<times> 't"
    and del :: "'t \<Rightarrow> u64 \<Rightarrow> 'a option \<times> 't"
  assumes wf_ins: "wf t \<Longrightarrow> wf (snd (ins t i x))"
    and lookup_ins: "wf t \<Longrightarrow> lookup (snd (ins t i x)) = (lookup t)(i \<mapsto> x)"
    and replaced_ins: "wf t \<Longrightarrow> fst (ins t i x) = lookup t i"
    and wf_del: "wf t \<Longrightarrow> wf (snd (del t i))"
    and lookup_del: "wf t \<Longrightarrow> lookup (snd (del t i)) = (lookup t)(i := None)"
    and removed_del: "wf t \<Longrightarrow> fst (del t i) = lookup t i"
begin

text \<open>Inserting what is there, and deleting what is not, change nothing.\<close>

lemma ins_same: "wf t \<Longrightarrow> lookup t i = Some x \<Longrightarrow> lookup (snd (ins t i x)) = lookup t"
  by (simp add: lookup_ins fun_upd_idem)

lemma del_absent: "wf t \<Longrightarrow> lookup t i = None \<Longrightarrow> lookup (snd (del t i)) = lookup t"
  by (simp add: lookup_del fun_upd_idem)

lemma del_ins: "wf t \<Longrightarrow> lookup t i = None \<Longrightarrow> lookup (snd (del (snd (ins t i x)) i)) = lookup t"
  by (simp add: lookup_del lookup_ins wf_ins fun_upd_idem)

end

section \<open>The tree\<close>

definition RADIX_TREE_MAP_SHIFT :: nat where "RADIX_TREE_MAP_SHIFT = 6"
definition RADIX_TREE_MAP_SIZE :: nat where "RADIX_TREE_MAP_SIZE = 2 ^ RADIX_TREE_MAP_SHIFT"
definition RADIX_TREE_MAP_MASK :: u64 where "RADIX_TREE_MAP_MASK = of_nat RADIX_TREE_MAP_SIZE - 1"
definition RADIX_TREE_INDEX_BITS :: nat where "RADIX_TREE_INDEX_BITS = 64"
definition RADIX_TREE_MAX_PATH :: nat where "RADIX_TREE_MAX_PATH = RADIX_TREE_INDEX_BITS div RADIX_TREE_MAP_SHIFT + 2"

lemmas rt_consts = RADIX_TREE_MAP_SHIFT_def RADIX_TREE_MAP_SIZE_def RADIX_TREE_MAP_MASK_def RADIX_TREE_INDEX_BITS_def
  RADIX_TREE_MAX_PATH_def

datatype 'a rslot = Item 'a | Node nat "'a rslot option list"

record 'a radix_tree_root =
  rt_height :: nat
  rt_rnode :: "'a rslot option"

definition INIT_RADIX_TREE :: "'a radix_tree_root" where
  "INIT_RADIX_TREE = \<lparr>rt_height = 0, rt_rnode = None\<rparr>"

definition radix_tree_node_alloc :: "'a rslot" where
  "radix_tree_node_alloc = Node 0 (replicate RADIX_TREE_MAP_SIZE None)"

text \<open>\<open>__maxindex\<close>, the entry of the table \<open>height_to_maxindex\<close>.\<close>

definition radix_tree_maxindex :: "nat \<Rightarrow> u64" where
  "radix_tree_maxindex height =
     (let tmp = height * RADIX_TREE_MAP_SHIFT in
      if tmp \<ge> RADIX_TREE_INDEX_BITS then - 1
      else drop_bit 1 (drop_bit (RADIX_TREE_INDEX_BITS - tmp - 1) (- 1)))"

text \<open>\<open>(index >> shift) & RADIX_TREE_MAP_MASK\<close>, \<open>shift\<close> being that of a node with \<open>h\<close> levels below it.\<close>

definition offset :: "nat \<Rightarrow> u64 \<Rightarrow> nat" where
  "offset h index = unat (drop_bit (h * RADIX_TREE_MAP_SHIFT) index AND RADIX_TREE_MAP_MASK)"

subsection \<open>Lookup\<close>

fun lookup_slot :: "nat \<Rightarrow> u64 \<Rightarrow> 'a rslot option \<Rightarrow> 'a rslot option" where
  "lookup_slot 0 index slot = slot"
| "lookup_slot (Suc h) index (Some (Node c slots)) = lookup_slot h index (slots ! offset h index)"
| "lookup_slot (Suc h) index slot = None"

fun item_of :: "'a rslot option \<Rightarrow> 'a option" where
  "item_of (Some (Item x)) = Some x"
| "item_of s = None"

definition radix_tree_lookup :: "'a radix_tree_root \<Rightarrow> u64 \<Rightarrow> 'a option" where
  "radix_tree_lookup root index =
     (if index > radix_tree_maxindex (rt_height root) then None
      else item_of (lookup_slot (rt_height root) index (rt_rnode root)))"

subsection \<open>Insertion\<close>

text \<open>\<open>while (index > radix_tree_maxindex(height)) height++\<close>: the table ends with the
  largest index.\<close>

function extend_height :: "u64 \<Rightarrow> nat \<Rightarrow> nat" where
  "extend_height index height =
     (if index > radix_tree_maxindex height then extend_height index (height + 1) else height)"
  by auto
termination
proof (relation "measure (\<lambda>(_, height). 11 - height)")
  fix index height
  assume "index > radix_tree_maxindex height"
  then have "radix_tree_maxindex height \<noteq> - 1" by (metis word_order.extremum_strict)
  then have "\<not> height \<ge> 11" by (auto simp: radix_tree_maxindex_def rt_consts Let_def)
  then show "((index, height + 1), (index, height)) \<in> measure (\<lambda>(_, height). 11 - height)" by simp
qed simp

declare extend_height.simps [simp del]

text \<open>The nodes above the old root.\<close>

fun grow :: "nat \<Rightarrow> 'a rslot \<Rightarrow> 'a rslot" where
  "grow 0 rnode = rnode"
| "grow (Suc n) rnode = grow n (Node 1 (Some rnode # replicate (RADIX_TREE_MAP_SIZE - 1) None))"

definition radix_tree_extend :: "'a radix_tree_root \<Rightarrow> u64 \<Rightarrow> 'a radix_tree_root" where
  "radix_tree_extend root index =
     (let height = extend_height index (rt_height root + 1) in
      (case rt_rnode root of
         None \<Rightarrow> root\<lparr>rt_height := height\<rparr>
       | Some rnode \<Rightarrow> \<lparr>rt_height = height, rt_rnode = Some (grow (height - rt_height root) rnode)\<rparr>))"

text \<open>The descent of the insertion: the slot it leaves, and what it replaced.\<close>

fun insert_slot :: "nat \<Rightarrow> u64 \<Rightarrow> 'a \<Rightarrow> 'a rslot option \<Rightarrow> 'a rslot \<times> 'a rslot option" where
  "insert_slot 0 index item slot = (Item item, slot)"
| "insert_slot (Suc h) index item slot =
     (case (case slot of None \<Rightarrow> radix_tree_node_alloc | Some node \<Rightarrow> node) of
        Item y \<Rightarrow> (Item y, None)
      | Node c slots \<Rightarrow>
          (case insert_slot h index item (slots ! offset h index) of (s, old) \<Rightarrow>
             (Node (if slots ! offset h index = None then c + 1 else c) (slots[offset h index := Some s]), old)))"

definition radix_tree_insert :: "'a radix_tree_root \<Rightarrow> u64 \<Rightarrow> 'a \<Rightarrow> 'a option \<times> 'a radix_tree_root" where
  "radix_tree_insert root index item =
     (let root = (if index > radix_tree_maxindex (rt_height root) then radix_tree_extend root index else root) in
      case insert_slot (rt_height root) index item (rt_rnode root) of (s, old) \<Rightarrow>
        (item_of old, root\<lparr>rt_rnode := Some s\<rparr>))"

subsection \<open>Deletion\<close>

function radix_tree_shrink :: "'a radix_tree_root \<Rightarrow> 'a radix_tree_root" where
  "radix_tree_shrink root =
     (case rt_rnode root of
        Some (Node c slots) \<Rightarrow>
          if rt_height root > 0 \<and> c = 1 \<and> slots ! 0 \<noteq> None
          then radix_tree_shrink \<lparr>rt_height = rt_height root - 1, rt_rnode = slots ! 0\<rparr> else root
      | _ \<Rightarrow> root)"
  by auto
termination by (relation "measure rt_height") auto

declare radix_tree_shrink.simps [simp del]

text \<open>Down the path and up again while nodes become empty: the item, the node that takes the
  place of this one, and whether its own count went down.\<close>

fun delete_slot :: "nat \<Rightarrow> u64 \<Rightarrow> 'a rslot \<Rightarrow> 'a rslot option \<times> 'a rslot option \<times> bool" where
  "delete_slot 0 index slot = (Some slot, None, True)"
| "delete_slot (Suc h) index (Item y) = (None, Some (Item y), False)"
| "delete_slot (Suc h) index (Node c slots) =
     (case slots ! offset h index of
        None \<Rightarrow> (None, Some (Node c slots), False)
      | Some child \<Rightarrow>
          (case delete_slot h index child of
             (None, _, _) \<Rightarrow> (None, Some (Node c slots), False)
           | (Some x, Some child, _) \<Rightarrow> (Some x, Some (Node c (slots[offset h index := Some child])), False)
           | (Some x, None, _) \<Rightarrow>
               (Some x, if c - 1 \<noteq> 0 then Some (Node (c - 1) (slots[offset h index := None])) else None, True)))"

definition radix_tree_delete :: "'a radix_tree_root \<Rightarrow> u64 \<Rightarrow> 'a option \<times> 'a radix_tree_root" where
  "radix_tree_delete root index =
     (if index > radix_tree_maxindex (rt_height root) then (None, root)
      else (case rt_rnode root of
              None \<Rightarrow> (None, root)
            | Some s \<Rightarrow>
                (case delete_slot (rt_height root) index s of
                   (None, _, _) \<Rightarrow> (None, root)
                 | (Some x, None, _) \<Rightarrow> (item_of (Some x), \<lparr>rt_height = 0, rt_rnode = None\<rparr>)
                 | (Some x, Some s, touched) \<Rightarrow>
                     (item_of (Some x),
                      if touched then radix_tree_shrink (root\<lparr>rt_rnode := Some s\<rparr>) else root\<lparr>rt_rnode := Some s\<rparr>))))"

section \<open>Well-formed trees\<close>

fun slot_wf :: "nat \<Rightarrow> 'a rslot \<Rightarrow> bool" where
  "slot_wf 0 (Item x) = True"
| "slot_wf 0 (Node c slots) = False"
| "slot_wf (Suc h) (Item x) = False"
| "slot_wf (Suc h) (Node c slots) =
     (length slots = RADIX_TREE_MAP_SIZE \<and> c = length (filter (\<lambda>s. s \<noteq> None) slots) \<and> 0 < c
      \<and> (\<forall>s \<in> set slots. case s of None \<Rightarrow> True | Some t \<Rightarrow> slot_wf h t))"

definition rt_wf :: "'a radix_tree_root \<Rightarrow> bool" where
  "rt_wf root \<longleftrightarrow> rt_height root \<le> 11
     \<and> (case rt_rnode root of None \<Rightarrow> rt_height root = 0 | Some s \<Rightarrow> slot_wf (rt_height root) s)"

section \<open>Indices\<close>

text \<open>Two indices take the same path through the lowest \<open>h\<close> levels.\<close>

definition same :: "nat \<Rightarrow> u64 \<Rightarrow> u64 \<Rightarrow> bool" where
  "same h i j \<longleftrightarrow> take_bit (h * 6) i = take_bit (h * 6) j"

lemma offset_take: "offset h i = unat (take_bit 6 (drop_bit (h * 6) i))"
  by (simp add: offset_def rt_consts take_bit_eq_mask mask_numeral)

lemma offset_less [simp]: "offset h i < 64"
  using take_bit_nat_less_exp [of 6 "unat (drop_bit (h * 6) i)"] by (simp add: offset_take unsigned_take_bit_eq)

lemma same_0 [simp]: "same 0 i j"
  by (simp add: same_def)

lemma same_Suc: "same (Suc h) i j \<longleftrightarrow> offset h i = offset h j \<and> same h i j"
proof -
  have "take_bit (Suc h * 6) i = take_bit (Suc h * 6) j \<longleftrightarrow>
      take_bit 6 (drop_bit (h * 6) i) = take_bit 6 (drop_bit (h * 6) j) \<and> take_bit (h * 6) i = take_bit (h * 6) j" (is "?l \<longleftrightarrow> ?r")
  proof
    assume ?l
    then have "bit i n = bit j n" if "n < 6 + h * 6" "n < 64" for n
      using that by (auto simp: bit_eq_iff bit_take_bit_iff)
    then have b: "bit i n = bit j n" if "n < 6 + h * 6" for n
      using that bit_imp_le_length [of i n] bit_imp_le_length [of j n] by (cases "n < 64") auto
    show ?r by (auto simp: bit_eq_iff bit_take_bit_iff bit_drop_bit_eq b)
  next
    assume r: ?r
    show ?l
    proof (rule bit_eqI)
      fix n
      show "bit (take_bit (Suc h * 6) i) n = bit (take_bit (Suc h * 6) j) n"
      proof (cases "n < h * 6")
        case True
        with r [THEN conjunct2] bit_imp_le_length [of i n] bit_imp_le_length [of j n] show ?thesis
          by (auto simp: bit_eq_iff bit_take_bit_iff)
      next
        case False
        then obtain m where m: "n = h * 6 + m" by (metis le_Suc_ex not_less)
        have "bit (take_bit 6 (drop_bit (h * 6) i)) m = bit (take_bit 6 (drop_bit (h * 6) j)) m"
          by (simp only: r [THEN conjunct1])
        then have "m < 6 \<Longrightarrow> bit i (h * 6 + m) = bit j (h * 6 + m)"
          using bit_imp_le_length [of i "h * 6 + m"] bit_imp_le_length [of j "h * 6 + m"]
          by (auto simp: bit_take_bit_iff bit_drop_bit_eq)
        then show ?thesis unfolding m by (auto simp: bit_take_bit_iff)
      qed
    qed
  qed
  then show ?thesis by (simp add: same_def offset_take word_unat_eq_iff [symmetric])
qed

lemma maxindex_mask: "radix_tree_maxindex h = mask (h * 6)"
proof (cases "64 \<le> h * 6")
  case True
  then show ?thesis
    by (intro bit_eqI) (simp add: radix_tree_maxindex_def rt_consts Let_def bit_simps)
next
  case False
  then show ?thesis
    by (intro bit_eqI) (auto simp: radix_tree_maxindex_def rt_consts Let_def bit_simps)
qed

lemma take_bit_self: "take_bit n (w :: u64) = w \<longleftrightarrow> unat w < 2 ^ n"
  by (simp add: word_unat_eq_iff unsigned_take_bit_eq take_bit_nat_eq_self_iff)

lemma index_le: "index > radix_tree_maxindex h \<longleftrightarrow> take_bit (h * 6) index \<noteq> index"
proof (cases "64 \<le> h * 6")
  case True
  then have "mask (h * 6) = (- 1 :: u64)" by (intro bit_eqI) (simp add: bit_simps)
  moreover have "unat index < 2 ^ (h * 6)"
    using unat_less64 [of index] power_increasing [OF True, of "2 :: nat"] by linarith
  ultimately show ?thesis by (simp add: maxindex_mask take_bit_self not_less)
next
  case False
  have "unat (of_nat (mask (h * 6)) :: u64) = mask (h * 6)"
    using False by (simp only: unsigned_of_nat take_bit_of_mask) (simp add: min_def)
  then have "unat (mask (h * 6) :: u64) = 2 ^ (h * 6) - 1"
    by (simp only: of_nat_mask_eq) (simp add: mask_eq_exp_minus_1)
  moreover have "N - 1 < unat index \<longleftrightarrow> \<not> unat index < N" if "0 < N" for N using that by auto
  ultimately show ?thesis by (simp only: maxindex_mask take_bit_self word_less_nat_alt) simp
qed

lemma same_iff: "\<not> i > radix_tree_maxindex h \<Longrightarrow> \<not> j > radix_tree_maxindex h \<Longrightarrow> same h i j \<longleftrightarrow> i = j"
  by (simp add: index_le same_def)

section \<open>Insertion\<close>

definition opt_wf :: "nat \<Rightarrow> 'a rslot option \<Rightarrow> bool" where
  "opt_wf h s = (case s of None \<Rightarrow> True | Some t \<Rightarrow> slot_wf h t)"

lemma opt_wf_simps [simp]: "opt_wf h None" "opt_wf h (Some t) = slot_wf h t"
  by (simp_all add: opt_wf_def)

text \<open>The count of a node.\<close>

definition used :: "'a option list \<Rightarrow> nat" where
  "used xs = length (filter (\<lambda>s. s \<noteq> None) xs)"

lemma slot_wf_Node: "slot_wf (Suc h) (Node c slots) \<longleftrightarrow>
  length slots = 64 \<and> c = used slots \<and> 0 < c \<and> (\<forall>s \<in> set slots. opt_wf h s)"
  unfolding slot_wf.simps opt_wf_def used_def by (simp add: rt_consts del: not_None_eq)

declare slot_wf.simps(4) [simp del]

lemma used_update: "k < length xs \<Longrightarrow> used (xs[k := y]) + of_bool (xs ! k \<noteq> None) = used xs + of_bool (y \<noteq> None)"
proof (induction xs arbitrary: k)
  case (Cons x xs)
  then show ?case by (cases k; cases x; cases y) (auto simp: used_def)
qed simp

lemma used_pos: "x \<in> set xs \<Longrightarrow> x \<noteq> None \<Longrightarrow> 0 < used xs"
  unfolding used_def by (simp add: filter_empty_conv del: not_None_eq) blast

lemma set_update: "s \<in> set (xs[k := y]) \<Longrightarrow> s = y \<or> s \<in> set xs"
  using set_update_subset_insert [of xs k y] by auto

lemma slot_wf_item: "slot_wf 0 t \<Longrightarrow> \<exists>x. t = Item x"
  by (cases t) auto

lemma slot_wf_SucE: "slot_wf (Suc h) t \<Longrightarrow> (\<And>c slots. t = Node c slots \<Longrightarrow> length slots = 64 \<Longrightarrow> c = used slots \<Longrightarrow>
  0 < c \<Longrightarrow> (\<And>k. k < 64 \<Longrightarrow> opt_wf h (slots ! k)) \<Longrightarrow> P) \<Longrightarrow> P"
  by (cases t) (auto simp: slot_wf_Node)

lemma slot_wf_NodeI: "length slots = 64 \<Longrightarrow> c = used slots \<Longrightarrow> 0 < c \<Longrightarrow> (\<And>s. s \<in> set slots \<Longrightarrow> opt_wf h s) \<Longrightarrow>
  slot_wf (Suc h) (Node c slots)"
  by (simp add: slot_wf_Node)

lemma insert_node:
  assumes IH: "\<And>s t old. opt_wf h s \<Longrightarrow> insert_slot h j x s = (t, old) \<Longrightarrow> slot_wf h t \<and> old = lookup_slot h j s
      \<and> (\<forall>i. lookup_slot h i (Some t) = (if same h i j then Some (Item x) else lookup_slot h i s))"
    and n: "length slots = 64" "c = used slots" "\<And>s. s \<in> set slots \<Longrightarrow> opt_wf h s"
    and ins: "insert_slot h j x (slots ! offset h j) = (t, old)"
  shows "slot_wf (Suc h) (Node (if slots ! offset h j = None then c + 1 else c) (slots[offset h j := Some t]))
    \<and> old = lookup_slot h j (slots ! offset h j)
    \<and> (\<forall>i. lookup_slot h i (slots[offset h j := Some t] ! offset h i)
        = (if same (Suc h) i j then Some (Item x) else lookup_slot h i (slots ! offset h i)))"
proof -
  let ?k = "offset h j"
  have k: "?k < length slots" by (simp add: n(1))
  then have "opt_wf h (slots ! ?k)" by (intro n(3)) simp
  from IH [OF this ins] have I: "slot_wf h t" "old = lookup_slot h j (slots ! ?k)"
    "\<And>i. lookup_slot h i (Some t) = (if same h i j then Some (Item x) else lookup_slot h i (slots ! ?k))" by auto
  have "slot_wf (Suc h) (Node (if slots ! ?k = None then c + 1 else c) (slots[?k := Some t]))"
  proof (rule slot_wf_NodeI)
    show "(if slots ! ?k = None then c + 1 else c) = used (slots[?k := Some t])"
      using used_update [OF k, of "Some t"] n(2) by (auto split: if_splits)
    show "0 < (if slots ! ?k = None then c + 1 else c)"
      using used_pos [of "slots ! ?k" slots] k n(2) by auto
    show "opt_wf h s" if "s \<in> set (slots[?k := Some t])" for s using set_update [OF that] I(1) n(3) by auto
  qed (simp add: n(1))
  moreover have "lookup_slot h i (slots[?k := Some t] ! offset h i)
      = (if same (Suc h) i j then Some (Item x) else lookup_slot h i (slots ! offset h i))" for i
    using I(3) [of i] by (simp add: nth_list_update n(1) same_Suc)
  ultimately show ?thesis using I(2) by blast
qed

lemma lookup_empty [simp]: "lookup_slot h i None = None"
  by (cases h) auto

lemma insert_slot_spec:
  "opt_wf h s \<Longrightarrow> insert_slot h j x s = (t, old) \<Longrightarrow> slot_wf h t \<and> old = lookup_slot h j s
   \<and> (\<forall>i. lookup_slot h i (Some t) = (if same h i j then Some (Item x) else lookup_slot h i s))"
proof (induction h arbitrary: s t old)
  case 0
  then show ?case by auto
next
  case (Suc h)
  show ?case
  proof (cases s)
    case None
    let ?slots = "replicate 64 None :: 'a rslot option list"
    obtain t' old' where i: "insert_slot h j x (?slots ! offset h j) = (t', old')" by (metis surj_pair)
    have u: "used ?slots = 0" by (simp add: used_def)
    from Suc.prems(2) i None have t: "t = Node 1 (?slots[offset h j := Some t'])" "old = old'"
      by (simp_all add: radix_tree_node_alloc_def rt_consts)
    have "slot_wf (Suc h) (Node (if ?slots ! offset h j = None then 0 + 1 else 0) (?slots[offset h j := Some t']))
      \<and> old' = lookup_slot h j (?slots ! offset h j)
      \<and> (\<forall>i. lookup_slot h i (?slots[offset h j := Some t'] ! offset h i)
        = (if same (Suc h) i j then Some (Item x) else lookup_slot h i (?slots ! offset h i)))"
      by (rule insert_node [OF Suc.IH _ _ _ i]) (simp_all add: u)
    then show ?thesis using None t by simp
  next
    case (Some n)
    with Suc.prems(1) obtain c slots where n: "n = Node c slots" "length slots = 64" "c = used slots" "0 < c"
      "\<And>k. k < 64 \<Longrightarrow> opt_wf h (slots ! k)" by (auto elim: slot_wf_SucE)
    obtain t' old' where i: "insert_slot h j x (slots ! offset h j) = (t', old')" by (metis surj_pair)
    have w: "opt_wf h s" if "s \<in> set slots" for s using that n(2,5) by (auto simp: in_set_conv_nth)
    from Suc.prems(2) Some n(1) i
    have "t = Node (if slots ! offset h j = None then c + 1 else c) (slots[offset h j := Some t'])" "old = old'" by auto
    then show ?thesis using insert_node [OF Suc.IH n(2,3) w i] Some n(1) by simp
  qed
qed

section \<open>Lookups of a root\<close>

text \<open>The index has no bits above the lowest \<open>h\<close> levels.\<close>

definition fits :: "nat \<Rightarrow> u64 \<Rightarrow> bool" where
  "fits h i \<longleftrightarrow> \<not> i > radix_tree_maxindex h"

definition root_lookup :: "nat \<Rightarrow> 'a rslot option \<Rightarrow> u64 \<Rightarrow> 'a option" where
  "root_lookup h s i = (if fits h i then item_of (lookup_slot h i s) else None)"

lemma lookup_root: "radix_tree_lookup root i = root_lookup (rt_height root) (rt_rnode root) i"
  by (simp add: radix_tree_lookup_def root_lookup_def fits_def)

lemma fits_bits: "fits h i \<longleftrightarrow> (\<forall>n. bit i n \<longrightarrow> n < h * 6)"
  using bit_imp_le_length [of i] by (auto simp: fits_def index_le bit_eq_iff bit_take_bit_iff)

lemma fits_11: "11 \<le> h \<Longrightarrow> fits h i"
  using bit_imp_le_length [of i] by (fastforce simp: fits_bits dest: less_le_trans)

lemma offset_0: "offset h i = 0 \<longleftrightarrow> (\<forall>m < 6. \<not> bit i (h * 6 + m))"
proof -
  have "offset h i = 0 \<longleftrightarrow> take_bit 6 (drop_bit (h * 6) i) = 0"
    by (simp add: offset_take unat_eq_zero)
  also have "\<dots> \<longleftrightarrow> (\<forall>m < 6. \<not> bit i (h * 6 + m))"
    using bit_imp_le_length [of i] by (fastforce simp: bit_eq_iff bit_take_bit_iff bit_drop_bit_eq)
  finally show ?thesis .
qed

lemma fits_Suc: "fits h i \<longleftrightarrow> fits (Suc h) i \<and> offset h i = 0"
proof
  assume f: "fits h i"
  then show "fits (Suc h) i \<and> offset h i = 0" by (fastforce simp: fits_bits offset_0)
next
  assume f: "fits (Suc h) i \<and> offset h i = 0"
  show "fits h i"
    unfolding fits_bits
  proof (intro allI impI)
    fix n
    assume b: "bit i n"
    show "n < h * 6"
    proof (rule ccontr)
      assume "\<not> n < h * 6"
      then obtain m where m: "n = h * 6 + m" by (metis le_Suc_ex not_less)
      with f b have "m < 6" by (auto simp: fits_bits)
      with f b m show False by (auto simp: offset_0)
    qed
  qed
qed

text \<open>A level whose first slot alone is in use adds nothing.\<close>

lemma root_lookup_level: "length slots = 64 \<Longrightarrow> (\<And>k. 0 < k \<Longrightarrow> k < 64 \<Longrightarrow> slots ! k = None) \<Longrightarrow>
  root_lookup (Suc h) (Some (Node c slots)) = root_lookup h (slots ! 0)"
proof
  fix i
  assume len: "length slots = 64" and none: "\<And>k. 0 < k \<Longrightarrow> k < 64 \<Longrightarrow> slots ! k = None"
  show "root_lookup (Suc h) (Some (Node c slots)) i = root_lookup h (slots ! 0) i"
    using none [of "offset h i"] fits_Suc [of h i] by (cases "offset h i = 0") (simp_all add: root_lookup_def)
qed

text \<open>Growing the tree keeps the items.\<close>

lemma grow_spec:
  "slot_wf h s \<Longrightarrow> slot_wf (h + n) (grow n s) \<and> root_lookup (h + n) (Some (grow n s)) = root_lookup h (Some s)"
proof (induction n arbitrary: h s)
  case (Suc n)
  let ?slots = "Some s # replicate 63 None"
  have wf: "slot_wf (Suc h) (Node 1 ?slots)"
    using Suc.prems by (auto simp: slot_wf_Node used_def)
  have l: "root_lookup (Suc h) (Some (Node 1 ?slots)) = root_lookup h (?slots ! 0)"
    by (rule root_lookup_level) (auto simp: nth_Cons')
  have "RADIX_TREE_MAP_SIZE - 1 = 63" by (simp add: rt_consts)
  with Suc.IH [OF wf] l show ?case by simp
qed simp

lemma extend_height_spec: "height \<le> extend_height i height \<and> fits (extend_height i height) i
  \<and> (height \<le> 11 \<longrightarrow> extend_height i height \<le> 11)"
proof (induction i height rule: extend_height.induct)
  case (1 i height)
  show ?case
  proof (cases "fits height i")
    case True
    then show ?thesis by (simp add: extend_height.simps [of i height] fits_def)
  next
    case False
    then have "height \<noteq> 11" using fits_11 [of height i] by auto
    moreover have "height + 1 \<le> extend_height i (height + 1) \<and> fits (extend_height i (height + 1)) i
      \<and> (height + 1 \<le> 11 \<longrightarrow> extend_height i (height + 1) \<le> 11)"
      using 1 False by (simp add: fits_def)
    ultimately show ?thesis using False by (simp add: extend_height.simps [of i height] fits_def)
  qed
qed

lemma root_insert:
  assumes s: "opt_wf h s" and j: "fits h j" and ins: "insert_slot h j x s = (t, old)"
  shows "slot_wf h t" "root_lookup h (Some t) = (root_lookup h s)(j \<mapsto> x)" "item_of old = root_lookup h s j"
proof -
  note I = insert_slot_spec [OF s ins]
  show "slot_wf h t" "item_of old = root_lookup h s j" using I j by (auto simp: root_lookup_def)
  show "root_lookup h (Some t) = (root_lookup h s)(j \<mapsto> x)"
    using I j same_iff [of h _ j] by (auto simp: root_lookup_def fits_def fun_eq_iff)
qed

lemma extend_spec:
  assumes wf: "rt_wf root" and i: "\<not> fits (rt_height root) i"
  defines "r \<equiv> radix_tree_extend root i"
  shows "opt_wf (rt_height r) (rt_rnode r)" "rt_height r \<le> 11" "fits (rt_height r) i"
    "root_lookup (rt_height r) (rt_rnode r) = root_lookup (rt_height root) (rt_rnode root)"
proof -
  let ?h = "extend_height i (rt_height root + 1)"
  have "rt_height root \<le> 11" using wf by (simp add: rt_wf_def)
  moreover have "rt_height root \<noteq> 11" using i fits_11 [of "rt_height root" i] by auto
  ultimately have h: "rt_height root + 1 \<le> ?h" "fits ?h i" "?h \<le> 11"
    using extend_height_spec [of "rt_height root + 1" i] by auto
  have r: "rt_height r = ?h" by (simp add: r_def radix_tree_extend_def Let_def split: option.split)
  show "rt_height r \<le> 11" "fits (rt_height r) i" using h r by simp_all
  show "opt_wf (rt_height r) (rt_rnode r)" "root_lookup (rt_height r) (rt_rnode r) = root_lookup (rt_height root) (rt_rnode root)"
  proof (atomize (full), cases "rt_rnode root")
    case None
    then show "opt_wf (rt_height r) (rt_rnode r)
      \<and> root_lookup (rt_height r) (rt_rnode r) = root_lookup (rt_height root) (rt_rnode root)"
      by (simp add: r_def radix_tree_extend_def Let_def root_lookup_def fun_eq_iff)
  next
    case (Some s)
    with wf have "slot_wf (rt_height root) s" by (simp add: rt_wf_def)
    from grow_spec [OF this, of "?h - rt_height root"] h(1) Some
    show "opt_wf (rt_height r) (rt_rnode r)
      \<and> root_lookup (rt_height r) (rt_rnode r) = root_lookup (rt_height root) (rt_rnode root)"
      by (simp add: r_def radix_tree_extend_def Let_def)
  qed
qed

lemma insert_spec:
  assumes wf: "rt_wf root"
  shows "rt_wf (snd (radix_tree_insert root i x))"
    "radix_tree_lookup (snd (radix_tree_insert root i x)) = (radix_tree_lookup root)(i \<mapsto> x)"
    "fst (radix_tree_insert root i x) = radix_tree_lookup root i"
proof -
  define r where "r = (if fits (rt_height root) i then root else radix_tree_extend root i)"
  have r: "opt_wf (rt_height r) (rt_rnode r)" "rt_height r \<le> 11" "fits (rt_height r) i"
    "root_lookup (rt_height r) (rt_rnode r) = root_lookup (rt_height root) (rt_rnode root)"
    using extend_spec [OF wf, of i] wf by (auto simp: r_def rt_wf_def opt_wf_def split: option.splits)
  obtain t old where ins: "insert_slot (rt_height r) i x (rt_rnode r) = (t, old)" by (metis surj_pair)
  have e: "radix_tree_insert root i x = (item_of old, r\<lparr>rt_rnode := Some t\<rparr>)"
    using ins by (simp add: radix_tree_insert_def Let_def r_def fits_def split: if_splits)
  note I = root_insert [OF r(1,3) ins]
  show "rt_wf (snd (radix_tree_insert root i x))" using I(1) r(2) by (simp add: e rt_wf_def)
  show "radix_tree_lookup (snd (radix_tree_insert root i x)) = (radix_tree_lookup root)(i \<mapsto> x)"
    using I(2) r(4) by (simp add: e fun_eq_iff lookup_root)
  show "fst (radix_tree_insert root i x) = radix_tree_lookup root i" using I(3) r(4) by (simp add: e lookup_root)
qed

section \<open>Deletion\<close>

definition delete_ok :: "nat \<Rightarrow> u64 \<Rightarrow> 'a rslot \<Rightarrow> 'a rslot option \<times> 'a rslot option \<times> bool \<Rightarrow> bool" where
  "delete_ok h j s r \<longleftrightarrow> (case r of (old, s', touched) \<Rightarrow> old = lookup_slot h j (Some s)
     \<and> (old = None \<longrightarrow> s' = Some s)
     \<and> opt_wf h s' \<and> (\<forall>i. lookup_slot h i s' = (if same h i j then None else lookup_slot h i (Some s))))"

lemma slot_lookup_none: "lookup_slot h j s = None \<Longrightarrow> same h i j \<Longrightarrow> lookup_slot h i s = None"
proof (induction h i s rule: lookup_slot.induct)
  case (2 h i c slots)
  then show ?case by (simp add: same_Suc)
qed simp_all

lemma used_0: "used xs = 0 \<Longrightarrow> k < length xs \<Longrightarrow> xs ! k = None"
  using used_pos [of "xs ! k" xs] by (metis less_irrefl nth_mem)

lemma delete_node:
  assumes n: "length slots = 64" "c = used slots" "0 < c" "\<And>k. k < 64 \<Longrightarrow> opt_wf h (slots ! k)"
    and child: "slots ! offset h j = Some t" and del: "delete_ok h j t (Some x, t', b)"
  shows "delete_ok (Suc h) j (Node c slots)
    (Some x, case t' of Some u \<Rightarrow> Some (Node c (slots[offset h j := Some u]))
       | None \<Rightarrow> if c - 1 \<noteq> 0 then Some (Node (c - 1) (slots[offset h j := None])) else None, b')"
proof -
  let ?k = "offset h j" and ?slots = "slots[offset h j := t']"
  have k: "?k < length slots" by (simp add: n(1))
  have D: "lookup_slot h j (Some t) = Some x" "opt_wf h t'"
    "\<And>i. lookup_slot h i t' = (if same h i j then None else lookup_slot h i (Some t))"
    using del by (auto simp: delete_ok_def)
  have w: "opt_wf h s" if "s \<in> set ?slots" for s
    using set_update [OF that] D(2) n(1,4) by (auto simp: in_set_conv_nth)
  have l: "lookup_slot h i (?slots ! offset h i) = (if same (Suc h) i j then None else lookup_slot h i (slots ! offset h i))" for i
    using D(3) [of i] child by (cases "offset h i = offset h j") (simp_all add: n(1) same_Suc)
  have u: "used ?slots + 1 = c + of_bool (t' \<noteq> None)"
    using used_update [OF k, of t'] child n(2) by simp
  show ?thesis
  proof (cases t')
    case (Some v)
    then have "slot_wf (Suc h) (Node c ?slots)" using w u n(1,3) by (intro slot_wf_NodeI) auto
    then show ?thesis using Some l D(1) child by (simp add: delete_ok_def)
  next
    case None
    show ?thesis
    proof (cases "c - 1 = 0")
      case True
      then have "lookup_slot h i (?slots ! offset h i) = None" for i
        using used_0 [of ?slots "offset h i"] u n(1,3) None by simp
      then have "\<not> same (Suc h) i j \<Longrightarrow> lookup_slot h i (slots ! offset h i) = None" for i using l [of i] by simp
      then show ?thesis using None True D(1) child by (auto simp: delete_ok_def)
    next
      case False
      then have "slot_wf (Suc h) (Node (c - 1) ?slots)" using w u n(1) None by (intro slot_wf_NodeI) auto
      then show ?thesis using None False l D(1) child by (simp add: delete_ok_def)
    qed
  qed
qed

lemma delete_slot_spec: "slot_wf h s \<Longrightarrow> delete_ok h j s (delete_slot h j s)"
proof (induction h j s rule: delete_slot.induct)
  case (1 i s)
  then show ?case by (simp add: delete_ok_def)
next
  case (2 h i y)
  then show ?case by simp
next
  case (3 h j c slots)
  from 3(2) have n: "length slots = 64" "c = used slots" "0 < c" "\<And>k. k < 64 \<Longrightarrow> opt_wf h (slots ! k)"
    by (auto elim: slot_wf_SucE)
  have none: "delete_ok (Suc h) j (Node c slots) (None, Some (Node c slots), b)"
    if "lookup_slot h j (slots ! offset h j) = None" for b
    using that 3(2) slot_lookup_none [of "Suc h" j "Some (Node c slots)"] by (auto simp: delete_ok_def)
  show ?case
  proof (cases "slots ! offset h j")
    case None
    then show ?thesis using none by simp
  next
    case (Some t)
    have "slot_wf h t" using n(4) [of "offset h j"] Some by simp
    with 3(1) [OF Some] have IH: "delete_ok h j t (delete_slot h j t)" by simp
    obtain old t' b where d: "delete_slot h j t = (old, t', b)" by (metis surj_pair)
    show ?thesis
    proof (cases old)
      case None
      then show ?thesis using none IH d Some by (simp add: delete_ok_def)
    next
      case x: (Some x)
      show ?thesis using delete_node [OF n Some IH [unfolded d x]] d x Some by (cases t') simp_all
    qed
  qed
qed

lemma shrink_spec: "rt_height root \<le> 11 \<Longrightarrow> rt_rnode root = Some s \<Longrightarrow> slot_wf (rt_height root) s \<Longrightarrow>
  rt_wf (radix_tree_shrink root) \<and> radix_tree_lookup (radix_tree_shrink root) = radix_tree_lookup root"
proof (induction root arbitrary: s rule: radix_tree_shrink.induct)
  case (1 root)
  have stop: ?case if "radix_tree_shrink root = root" using that 1(2-) by (simp add: rt_wf_def)
  show ?case
  proof (cases s)
    case (Item y)
    then show ?thesis using 1(3) by (intro stop) (simp add: radix_tree_shrink.simps [of root])
  next
    case (Node c slots)
    show ?thesis
    proof (cases "rt_height root > 0 \<and> c = 1 \<and> slots ! 0 \<noteq> None")
      case False
      then show ?thesis using 1(3) Node by (intro stop) (auto simp: radix_tree_shrink.simps [of root])
    next
      case True
      then obtain h t where h: "rt_height root = Suc h" and t: "slots ! 0 = Some t" by (cases "rt_height root") auto
      from 1(4) Node h True have n: "length slots = 64" "used slots = 1" "\<And>k. k < 64 \<Longrightarrow> opt_wf h (slots ! k)"
        by (auto elim: slot_wf_SucE)
      have "used (slots[0 := None]) = 0" using used_update [of 0 slots None] n t by simp
      then have "slots ! k = None" if "0 < k" "k < 64" for k
        using used_0 [of "slots[0 := None]" k] that n(1) by simp
      from root_lookup_level [OF n(1) this]
      have l: "root_lookup (Suc h) (Some (Node c slots)) = root_lookup h (Some t)" using t by simp
      let ?r = "\<lparr>rt_height = h, rt_rnode = Some t\<rparr>"
      have e: "radix_tree_shrink root = radix_tree_shrink ?r"
        using 1(3) Node True h t by (simp add: radix_tree_shrink.simps [of root])
      have "rt_wf (radix_tree_shrink ?r) \<and> radix_tree_lookup (radix_tree_shrink ?r) = radix_tree_lookup ?r"
        using 1(1) [OF 1(3) Node True, of t] 1(2) h t n(3) [of 0] by simp
      moreover have "radix_tree_lookup ?r = radix_tree_lookup root"
        using l 1(3) Node h by (simp add: fun_eq_iff lookup_root)
      ultimately show ?thesis by (simp add: e)
    qed
  qed
qed

lemma delete_spec:
  assumes wf: "rt_wf root"
  shows "rt_wf (snd (radix_tree_delete root j)) \<and> radix_tree_lookup (snd (radix_tree_delete root j)) = (radix_tree_lookup root)(j := None)
    \<and> fst (radix_tree_delete root j) = radix_tree_lookup root j"
proof (cases "fits (rt_height root) j \<and> rt_rnode root \<noteq> None")
  case False
  then have "radix_tree_lookup root j = None" by (auto simp: lookup_root root_lookup_def)
  moreover from False have "radix_tree_delete root j = (None, root)"
    by (auto simp: radix_tree_delete_def fits_def)
  ultimately show ?thesis using wf by (simp add: fun_upd_idem)
next
  case True
  then obtain s where s: "rt_rnode root = Some s" and j: "fits (rt_height root) j" by auto
  let ?h = "rt_height root"
  from wf s have w: "slot_wf ?h s" "?h \<le> 11" by (simp_all add: rt_wf_def)
  obtain old s' b where d: "delete_slot ?h j s = (old, s', b)" by (metis surj_pair)
  from delete_slot_spec [OF w(1), of j] d have D: "old = lookup_slot ?h j (Some s)" "old = None \<Longrightarrow> s' = Some s" "opt_wf ?h s'"
    "\<And>i. lookup_slot ?h i s' = (if same ?h i j then None else lookup_slot ?h i (Some s))" by (auto simp: delete_ok_def)
  have l: "root_lookup ?h s' = (radix_tree_lookup root)(j := None)"
    using D(4) j same_iff [of ?h _ j] s by (auto simp: root_lookup_def fits_def fun_eq_iff lookup_root)
  have old: "item_of old = radix_tree_lookup root j" using D(1) j s by (simp add: root_lookup_def lookup_root)
  consider "old = None" | x where "old = Some x" "s' = None" | x t where "old = Some x" "s' = Some t"
    by (cases old; cases s') auto
  then show ?thesis
  proof cases
    case 1
    then have "radix_tree_delete root j = (None, root)" using j s d by (simp add: radix_tree_delete_def fits_def)
    then show ?thesis using 1 old wf by (simp add: fun_upd_idem)
  next
    case 2
    then have "radix_tree_delete root j = (item_of old, \<lparr>rt_height = 0, rt_rnode = None\<rparr>)"
      using j s d by (simp add: radix_tree_delete_def fits_def)
    moreover have "radix_tree_lookup \<lparr>rt_height = 0, rt_rnode = None\<rparr> = root_lookup ?h s'"
      using 2 by (simp add: fun_eq_iff lookup_root root_lookup_def)
    ultimately show ?thesis using old l by (simp add: rt_wf_def)
  next
    case 3
    let ?r = "root\<lparr>rt_rnode := Some t\<rparr>"
    have "radix_tree_delete root j = (item_of old, if b then radix_tree_shrink ?r else ?r)"
      using 3 j s d by (simp add: radix_tree_delete_def fits_def)
    moreover have "radix_tree_lookup ?r = root_lookup ?h s'" using 3 by (simp add: fun_eq_iff lookup_root)
    moreover have "rt_wf (radix_tree_shrink ?r) \<and> radix_tree_lookup (radix_tree_shrink ?r) = radix_tree_lookup ?r"
      using shrink_spec [of ?r t] D(3) 3 w(2) by simp
    moreover have "rt_wf ?r" using D(3) 3 w(2) by (simp add: rt_wf_def)
    ultimately show ?thesis using old l by simp
  qed
qed

interpretation radix: index_map rt_wf radix_tree_lookup radix_tree_insert radix_tree_delete
  by unfold_locales (simp_all add: insert_spec delete_spec)

end
