(* ===== verification/Radix_Gang.thy ===== *)
theory Radix_Gang
  imports Radix_Tree
begin

text \<open>
  The range queries of the index, \<open>__lookup\<close> and \<open>radix_tree_gang_lookup\<close> of
  \<open>cache/radix-tree.c\<close>: a pass walks down to a bottom node, skipping empty slots, and takes
  the items there; the outer loop makes passes until it has enough items, the index wraps
  around or is above the largest of the tree.  The theory shows that the result is the
  first items of the map from the index on, in ascending order (\<open>ordered_index\<close>).
\<close>

section \<open>The interface of an ordered index\<close>

text \<open>What \<open>f\<close> gives for the numbers from \<open>a\<close> to below \<open>b\<close>.\<close>

definition items :: "(nat \<Rightarrow> 'a option) \<Rightarrow> nat \<Rightarrow> nat \<Rightarrow> 'a list" where
  "items f a b = List.map_filter f [a..<b]"

lemma items_empty [simp]: "b \<le> a \<Longrightarrow> items f a b = []"
  by (simp add: items_def List.map_filter_def)

lemma items_append: "a \<le> b \<Longrightarrow> b \<le> c \<Longrightarrow> items f a b @ items f b c = items f a c"
proof -
  assume "a \<le> b" "b \<le> c"
  then have "[a..<c] = [a..<b] @ [b..<c]" by (metis le_add_diff_inverse upt_add_eq_append)
  then show ?thesis by (simp add: items_def List.map_filter_def)
qed

lemma items_Suc: "a < b \<Longrightarrow> items f a b = (case f a of None \<Rightarrow> items f (a + 1) b | Some x \<Rightarrow> x # items f (a + 1) b)"
  by (simp add: items_def List.map_filter_def upt_conv_Cons split: option.split)

lemma items_cong: "(\<And>p. a \<le> p \<Longrightarrow> p < b \<Longrightarrow> f p = g p) \<Longrightarrow> items f a b = items g a b"
  unfolding items_def List.map_filter_def by (intro arg_cong2 [of _ _ _ _ map] filter_cong map_cong) auto

lemma items_None: "(\<And>p. a \<le> p \<Longrightarrow> p < b \<Longrightarrow> f p = None) \<Longrightarrow> items f a b = []"
  by (auto simp: items_def List.map_filter_def filter_empty_conv)

lemma items_shift: "items f (c + a) (c + b) = items (\<lambda>p. f (c + p)) a b"
proof -
  have "[c + a..<c + b] = map (\<lambda>p. c + p) [a..<b]"
    by (induction b) (auto simp: upt_Suc)
  then show ?thesis by (simp add: items_def List.map_filter_def filter_map comp_def)
qed

lemma items_map: "items (\<lambda>p. map_option g (f p)) a b = map g (items f a b)"
  by (induction "b - a" arbitrary: a) (simp_all add: items_Suc split: option.split)

lemma filter_upt_take:
  assumes k: "a \<le> k" "k < b" "P k" "k < a + n"
  shows "k \<in> set (take n (filter P [a..<b]))"
proof -
  have "[a..<b] = [a..<k] @ k # [k + 1..<b]"
    using k(1,2) upt_add_eq_append [of a k "b - k"] upt_conv_Cons [of k b] by simp
  moreover have "length (filter P [a..<k]) < n"
    using length_filter_le [of P "[a..<k]"] k(1,4) by simp
  ultimately show ?thesis using k(3) by (simp add: take_Cons' )
qed

locale ordered_index = index_map +
  fixes gang :: "'a \<Rightarrow> u64 \<Rightarrow> nat \<Rightarrow> 'b list option"
  assumes gang_first: "wf t \<Longrightarrow> gang t i n = Some (take n (items (\<lambda>p. lookup t (of_nat p)) (unat i) (2 ^ 64)))"
begin

text \<open>The keys of the items found: ascending, at least the index, and all of the next
  \<open>n\<close> that the map has.\<close>

lemma gang_keys:
  assumes wf: "wf t"
  obtains ks where "gang t i n = Some (map (\<lambda>k. the (lookup t (of_nat k))) ks)" "sorted_wrt (<) ks" "length ks \<le> n"
    "\<And>k. k \<in> set ks \<Longrightarrow> unat i \<le> k \<and> k < 2 ^ 64 \<and> lookup t (of_nat k) \<noteq> None"
    "\<And>k. unat i \<le> k \<Longrightarrow> k < 2 ^ 64 \<Longrightarrow> k < unat i + n \<Longrightarrow> lookup t (of_nat k) \<noteq> None \<Longrightarrow> k \<in> set ks"
proof
  let ?ks = "take n (filter (\<lambda>k. lookup t (of_nat k) \<noteq> None) [unat i..<2 ^ 64])"
  show "gang t i n = Some (map (\<lambda>k. the (lookup t (of_nat k))) ?ks)"
    unfolding gang_first [OF wf] items_def List.map_filter_def by (simp add: take_map comp_def del: not_None_eq)
  show "sorted_wrt (<) ?ks" by (intro sorted_wrt_take sorted_wrt_filter sorted_wrt_upt)
  show "length ?ks \<le> n" by simp
  show "unat i \<le> k \<and> k < 2 ^ 64 \<and> lookup t (of_nat k) \<noteq> None" if "k \<in> set ?ks" for k
    using in_set_takeD [OF that] by simp
  show "k \<in> set ?ks" if "unat i \<le> k" "k < 2 ^ 64" "k < unat i + n" "lookup t (of_nat k) \<noteq> None" for k
    by (rule filter_upt_take) (use that in auto)
qed

end

section \<open>The code\<close>

definition next_block :: "nat \<Rightarrow> u64 \<Rightarrow> u64" where
  "next_block shift index = (index AND NOT (push_bit shift 1 - 1)) + push_bit shift 1"

text \<open>\<open>__lookup\<close>: the loop over the slots of a node at one level, from the slot of the index
  on; it stops at a slot in use, or when the index wraps around.\<close>

fun scan_level :: "nat \<Rightarrow> 'a rslot option list \<Rightarrow> u64 \<Rightarrow> 'a rslot option \<times> u64" where
  "scan_level shift [] index = (None, index)"
| "scan_level shift (Some s # slots) index = (Some s, index)"
| "scan_level shift (None # slots) index =
     (let index = next_block shift index in
      if index = 0 then (None, index) else scan_level shift slots index)"

text \<open>The loop over the slots of the bottom level, with the number of items still wanted.\<close>

fun grab_items :: "nat \<Rightarrow> 'a rslot option list \<Rightarrow> u64 \<Rightarrow> 'a rslot list \<times> u64" where
  "grab_items n [] index = ([], index)"
| "grab_items n (None # slots) index = grab_items n slots (index + 1)"
| "grab_items n (Some s # slots) index =
     (if n = 1 then ([s], index + 1)
      else (case grab_items (n - 1) slots (index + 1) of (ss, index) \<Rightarrow> (s # ss, index)))"

text \<open>\<open>None\<close> is a node pointer that is NULL or an item.\<close>

fun lookup_from :: "nat \<Rightarrow> 'a rslot option \<Rightarrow> u64 \<Rightarrow> nat \<Rightarrow> ('a rslot list \<times> u64) option" where
  "lookup_from 0 (Some (Node c slots)) index n = Some (grab_items n (drop (offset 0 index) slots) index)"
| "lookup_from (Suc h) (Some (Node c slots)) index n =
     (case scan_level (Suc h * RADIX_TREE_MAP_SHIFT) (drop (offset (Suc h) index) slots) index of
        (None, index) \<Rightarrow> Some ([], index)
      | (Some s, index) \<Rightarrow> lookup_from h (Some s) index n)"
| "lookup_from h s index n = None"

definition lookup_items :: "'a radix_tree_root \<Rightarrow> u64 \<Rightarrow> nat \<Rightarrow> ('a rslot list \<times> u64) option" where
  "lookup_items root index max_items =
     (case rt_height root of
        0 \<Rightarrow> (case rt_rnode root of
                Some s \<Rightarrow> Some (if index = 0 then [s] else [], index)
              | None \<Rightarrow> Some ([], index))
      | Suc h \<Rightarrow> lookup_from h (rt_rnode root) index max_items)"

text \<open>The index as a natural number, 0 after the last one being \<open>2 ^ 64\<close>.\<close>

definition end_of :: "u64 \<Rightarrow> nat" where
  "end_of i = (if i = 0 then 2 ^ 64 else unat i)"

lemma next_block:
  assumes s: "s \<le> 64"
  shows "end_of (next_block s index) = (unat index div 2 ^ s + 1) * 2 ^ s"
proof -
  let ?q = "unat index div 2 ^ s"
  have "index AND NOT (push_bit s 1 - 1) = push_bit s (drop_bit s index)"
    by (simp add: push_bit_of_1 mask_eq_exp_minus_1 [symmetric]) (intro bit_eqI, auto simp: bit_simps intro: bit_imp_le_length)
  moreover have "unat (push_bit s (drop_bit s index)) = ?q * 2 ^ s"
  proof -
    have "unat (push_bit s (drop_bit s index)) = take_bit 64 (push_bit s (drop_bit s (unat index)))"
      by (simp add: unsigned_push_bit_eq unsigned_drop_bit_eq take_bit_nat_eq_self [OF unat_less64 [of index]])
    also have "\<dots> = take_bit 64 (?q * 2 ^ s)" by (simp only: drop_bit_eq_div push_bit_eq_mult)
    also have "\<dots> = ?q * 2 ^ s"
      by (rule take_bit_nat_eq_self) (rule le_less_trans [OF div_times_less_eq_dividend unat_less64])
    finally show ?thesis .
  qed
  moreover have "unat (push_bit s 1 :: u64) = 2 ^ s mod 2 ^ 64"
    by (subst unsigned_push_bit_eq) (simp add: push_bit_eq_mult take_bit_eq_mod)
  moreover have "unat (a + b) = (unat a + unat b) mod 2 ^ 64" for a b :: u64
    by (simp add: unat_word_ariths(1))
  ultimately have "unat (next_block s index) = (?q * 2 ^ s + 2 ^ s mod 2 ^ 64) mod 2 ^ 64"
    by (simp only: next_block_def)
  also have "\<dots> = (?q * 2 ^ s + 2 ^ s) mod 2 ^ 64" by (rule mod_add_right_eq)
  finally have n: "unat (next_block s index) = (?q + 1) * 2 ^ s mod 2 ^ 64" by (simp only: distrib_right mult_1)
  have e: "(2 :: nat) ^ 64 = 2 ^ (64 - s) * 2 ^ s" using s by (simp flip: power_add)
  have "?q < 2 ^ (64 - s)"
    using unat_less64 [of index] unfolding e by (simp add: less_mult_imp_div_less)
  then have le: "(?q + 1) * 2 ^ s \<le> 2 ^ 64" unfolding e by (intro mult_right_mono) auto
  show ?thesis
  proof (cases "(?q + 1) * 2 ^ s = 2 ^ 64")
    case True
    then have "unat (next_block s index) = 0" using n by simp
    then show ?thesis using True by (simp add: end_of_def unat_eq_zero)
  next
    case False
    with le n have "unat (next_block s index) = (?q + 1) * 2 ^ s" by simp
    moreover then have "next_block s index \<noteq> 0" by auto
    ultimately show ?thesis by (simp add: end_of_def)
  qed
qed

lemma grab_items_spec: "grab_items n slots index = (xs, nx) \<Longrightarrow>
  \<exists>k \<le> length slots. xs = items (\<lambda>j. slots ! j) 0 k \<and> nx = index + of_nat k
    \<and> (slots \<noteq> [] \<longrightarrow> 0 < k) \<and> (0 < n \<longrightarrow> length xs \<le> n)"
proof (induction n slots index arbitrary: xs nx rule: grab_items.induct)
  case (1 n index)
  then show ?case by simp
next
  case (2 n slots index)
  then obtain k where "k \<le> length slots" "xs = items (\<lambda>j. slots ! j) 0 k" "nx = index + 1 + of_nat k"
    "0 < n \<longrightarrow> length xs \<le> n" by auto
  then show ?case by (intro exI [of _ "Suc k"]) (simp add: items_Suc items_shift [of _ 1 0, simplified] add.assoc)
next
  case (3 n s slots index)
  show ?case
  proof (cases "n = 1")
    case True
    then show ?thesis using 3(2) by (intro exI [of _ 1]) (auto simp: items_Suc)
  next
    case False
    then obtain ys where ys: "grab_items (n - 1) slots (index + 1) = (ys, nx)" "xs = s # ys"
      using 3(2) by (auto split: prod.splits)
    from 3(1) [OF False ys(1)] obtain k where "k \<le> length slots" "ys = items (\<lambda>j. slots ! j) 0 k" "nx = index + 1 + of_nat k"
      "0 < n - 1 \<longrightarrow> length ys \<le> n - 1" by auto
    then show ?thesis using ys(2) False
      by (intro exI [of _ "Suc k"]) (auto simp: items_Suc items_shift [of _ 1 0, simplified] add.assoc)
  qed
qed

text \<open>The scan passed over \<open>k\<close> empty slots, from the index \<open>i\<close> in the block \<open>q\<close> on.\<close>

definition scanned :: "nat \<Rightarrow> nat \<Rightarrow> nat \<Rightarrow> 'a rslot option list \<Rightarrow> 'a rslot option \<Rightarrow> u64 \<Rightarrow> nat \<Rightarrow> bool" where
  "scanned s q i slots r nx k \<longleftrightarrow> k \<le> length slots \<and> (\<forall>j < k. slots ! j = None)
     \<and> (case r of
          None \<Rightarrow> if k = 0 then slots = [] \<and> unat nx = i else end_of nx = (q + k) * 2 ^ s
        | Some t \<Rightarrow> k < length slots \<and> slots ! k = r \<and> unat nx = (if k = 0 then i else (q + k) * 2 ^ s))"

lemma scan_level_spec: "s \<le> 64 \<Longrightarrow> scan_level s slots index = (r, nx) \<Longrightarrow>
  \<exists>k. scanned s (unat index div 2 ^ s) (unat index) slots r nx k"
proof (induction s slots index arbitrary: r nx rule: scan_level.induct)
  case (1 s index)
  then show ?case by (simp add: scanned_def)
next
  case (2 s t slots index)
  then show ?case by (intro exI [of _ 0]) (auto simp: scanned_def)
next
  case (3 s slots index)
  let ?i = "next_block s index" and ?q = "unat index div 2 ^ s"
  have u: "end_of ?i = (?q + 1) * 2 ^ s" by (rule next_block [OF 3(2)])
  show ?case
  proof (cases "?i = 0")
    case True
    then show ?thesis using 3(3) u by (intro exI [of _ 1]) (auto simp: Let_def scanned_def)
  next
    case False
    then have i: "unat ?i = (?q + 1) * 2 ^ s" using u by (simp add: end_of_def)
    then have d: "unat ?i div 2 ^ s = ?q + 1" by simp
    from False 3(3) have "scan_level s slots ?i = (r, nx)" by (simp add: Let_def)
    from 3(1) [OF refl False 3(2) this] obtain k where "scanned s (?q + 1) (unat ?i) slots r nx k"
      unfolding d by (elim exE)
    then have "scanned s ?q (unat index) (None # slots) r nx (Suc k)"
      using u i False by (cases "k = 0"; cases r) (auto simp: scanned_def end_of_def less_Suc_eq_0_disj add.assoc)
    then show ?thesis by (rule exI)
  qed
qed

lemma offset_div: "offset h i = unat i div 2 ^ (h * 6) mod 64"
proof -
  have "unat (take_bit 6 (drop_bit (h * 6) i)) = take_bit 6 (drop_bit (h * 6) (unat i))"
    by (simp only: unsigned_take_bit_eq) (simp add: unsigned_drop_bit_eq take_bit_nat_eq_self [OF unat_less64 [of i]])
  also have "\<dots> = unat i div 2 ^ (h * 6) mod 2 ^ 6" by (simp only: drop_bit_eq_div take_bit_eq_mod)
  finally show ?thesis by (simp add: offset_take)
qed

lemma mod_add_small: "a mod m + j < m \<Longrightarrow> (a + j) mod m = a mod m + (j :: nat)"
  by (metis mod_add_left_eq mod_less)

lemma mod_block: "a mod m + k \<le> m \<Longrightarrow> a + k \<le> (a div m + 1) * (m :: nat)"
proof -
  assume k: "a mod m + k \<le> m"
  have "a + k = a div m * m + (a mod m + k)" by (simp only: div_mult_mod_eq flip: add.assoc)
  also have "\<dots> \<le> a div m * m + m" using k by (rule add_left_mono)
  finally show ?thesis by (simp add: distrib_right)
qed

lemma lookup_node: "p < 2 ^ 64 \<Longrightarrow> lookup_slot (Suc h) (of_nat p) (Some (Node c slots))
    = lookup_slot h (of_nat p) (slots ! (p div 2 ^ (h * 6) mod 64))"
  by (simp add: offset_div unat_of_nat64)

lemma end_of_le: "end_of i \<le> 2 ^ 64"
  using unat_less64 [of i] by (simp add: end_of_def)

lemma end_of_add: "0 < k \<Longrightarrow> unat i + k \<le> 2 ^ 64 \<Longrightarrow> end_of (i + of_nat k) = unat i + k"
proof -
  assume k: "0 < k" "unat i + k \<le> 2 ^ 64"
  have e: "i + of_nat k = of_nat (unat i + k)" by simp
  show ?thesis
  proof (cases "unat i + k = 2 ^ 64")
    case True
    then show ?thesis unfolding e True by (simp add: end_of_def)
  next
    case False
    with k have "unat (i + of_nat k) = unat i + k" unfolding e by (intro unat_of_nat64) simp
    moreover with k(1) have "i + of_nat k \<noteq> 0" by (metis add_is_0 less_irrefl unat_0)
    ultimately show ?thesis by (simp add: end_of_def)
  qed
qed

text \<open>What a pass over a subtree of height \<open>h\<close> finds: the items from the index to the next one.\<close>

definition pass_ok :: "nat \<Rightarrow> 'a rslot \<Rightarrow> u64 \<Rightarrow> nat \<Rightarrow> 'a rslot list \<Rightarrow> u64 \<Rightarrow> bool" where
  "pass_ok h s i n xs nx \<longleftrightarrow> xs = items (\<lambda>p. lookup_slot h (of_nat p) (Some s)) (unat i) (end_of nx)
     \<and> unat i < end_of nx \<and> end_of nx \<le> (unat i div 2 ^ (h * 6) + 1) * 2 ^ (h * 6) \<and> (0 < n \<longrightarrow> length xs \<le> n)"

lemma grab_pass:
  assumes len: "length slots = 64" and g: "grab_items n (drop (offset 0 i) slots) i = (xs, nx)"
  shows "pass_ok 1 (Node c slots) i n xs nx"
proof -
  let ?o = "unat i mod 64"
  have o: "offset 0 i = ?o" by (simp add: offset_div)
  from grab_items_spec [OF g] len o offset_less [of 0 i] obtain k where k: "k \<le> 64 - ?o" "0 < k" "nx = i + of_nat k"
    "xs = items (\<lambda>j. drop ?o slots ! j) 0 k" "0 < n \<longrightarrow> length xs \<le> n" by auto
  have i: "unat i = unat i div 64 * 64 + ?o" by simp
  have "?o + k \<le> 64" using k(1) mod_less_divisor [of 64 "unat i"] by simp
  then have b: "unat i + k \<le> (unat i div 64 + 1) * 64" by (rule mod_block)
  also have "unat i div 64 < 2 ^ 58" using unat_less64 [of i] by simp
  then have "(unat i div 64 + 1) * 64 \<le> 2 ^ 64" by simp
  finally have le: "unat i + k \<le> 2 ^ 64" .
  then have e: "end_of nx = unat i + k" using k(2,3) by (simp add: end_of_add)
  have "lookup_slot 1 (of_nat (unat i + p)) (Some (Node c slots)) = drop ?o slots ! p" if "p < k" for p
  proof -
    have "(unat i + p) mod 64 = ?o + p" using that k(1) by (intro mod_add_small) simp
    then show ?thesis using that le len k(1) lookup_node [of "unat i + p" 0 c slots] by simp
  qed
  then have "items (\<lambda>p. lookup_slot 1 (of_nat p) (Some (Node c slots))) (unat i) (unat i + k) = xs"
    unfolding k(4) items_shift [of _ "unat i" 0 k, simplified] by (intro items_cong) simp
  then show ?thesis using k(2,5) e b by (simp add: pass_ok_def)
qed

lemma scan_pass:
  assumes len: "length slots = 64" and sc: "scanned (h * 6) q (unat i) (drop (q mod 64) slots) r nx k" and q: "q = unat i div 2 ^ (h * 6)"
    and p: "unat i \<le> p" "p < (q + k) * 2 ^ (h * 6)" "p < 2 ^ 64"
  shows "lookup_slot (Suc h) (of_nat p) (Some (Node c slots)) = None"
proof -
  let ?b = "2 ^ (h * 6) :: nat"
  have "q \<le> p div ?b" using p(1) by (simp add: q div_le_mono)
  moreover have "p div ?b < q + k" using p(2) by (simp add: less_mult_imp_div_less)
  ultimately obtain j where j: "p div ?b = q + j" "j < k" by (metis add_less_cancel_left le_Suc_ex)
  from sc j(2) have n: "drop (q mod 64) slots ! j = None" and k: "k \<le> 64 - q mod 64" by (auto simp: scanned_def len)
  have "(q + j) mod 64 = q mod 64 + j" using j(2) k by (intro mod_add_small) simp
  with n j k len show ?thesis by (simp only: lookup_node [OF p(3)] nth_drop) simp
qed

lemma lookup_from_spec:
  "slot_wf (Suc h) s \<Longrightarrow> h \<le> 10 \<Longrightarrow> \<exists>xs nx. lookup_from h (Some s) i n = Some (xs, nx) \<and> pass_ok (Suc h) s i n xs nx"
proof (induction h arbitrary: s i)
  case 0
  from 0(1) obtain c slots where s: "s = Node c slots" "length slots = 64" by (auto elim: slot_wf_SucE)
  obtain xs nx where g: "grab_items n (drop (offset 0 i) slots) i = (xs, nx)" by (metis surj_pair)
  from grab_pass [OF s(2) g] g s(1) show ?case by (intro exI [of _ xs] exI [of _ nx]) simp
next
  case (Suc h)
  from Suc.prems(1) obtain c slots where s: "s = Node c slots" and len: "length slots = 64"
    and wf: "\<And>k. k < 64 \<Longrightarrow> opt_wf (Suc h) (slots ! k)" by (auto elim: slot_wf_SucE)
  let ?b = "2 ^ (Suc h * 6) :: nat" and ?q = "unat i div 2 ^ (Suc h * 6)"
  let ?F = "\<lambda>p. lookup_slot (Suc (Suc h)) (of_nat p) (Some s)"
  obtain r i' where sc: "scan_level (Suc h * 6) (drop (?q mod 64) slots) i = (r, i')" by (metis surj_pair)
  have "Suc h * 6 \<le> 64" using Suc.prems(2) by simp
  from scan_level_spec [OF this sc] obtain k where k: "scanned (Suc h * 6) ?q (unat i) (drop (?q mod 64) slots) r i' k" ..
  have none: "?F p = None" if "unat i \<le> p" "p < (?q + k) * ?b" "p < 2 ^ 64" for p
    unfolding s by (rule scan_pass [OF len k refl that])
  have d: "?q div 64 = unat i div (?b * 64)" by (simp add: div_mult2_eq)
  have q: "?q mod 64 + k \<le> 64" using k mod_less_divisor [of 64 ?q] by (auto simp: scanned_def len)
  have top: "(?q + j) * ?b \<le> (unat i div (?b * 64) + 1) * (?b * 64)" if "?q mod 64 + j \<le> 64" for j
  proof -
    have "?q + j \<le> (?q div 64 + 1) * 64" using that by (rule mod_block)
    then have "(?q + j) * ?b \<le> (?q div 64 + 1) * 64 * ?b" by (rule mult_right_mono) simp
    then show ?thesis unfolding d by (simp only: ac_simps)
  qed
  have lt: "unat i < (?q + 1) * ?b" using dividend_less_div_times [of ?b "unat i"] by (simp add: add.commute)
  have l: "lookup_from (Suc h) (Some s) i n = (case (r, i') of (None, index) \<Rightarrow> Some ([], index) | (Some t, index) \<Rightarrow> lookup_from h (Some t) index n)"
    using sc by (simp add: s rt_consts offset_div)
  have b: "2 ^ (Suc (Suc h) * 6) = ?b * 64" by (simp add: power_add)
  show ?case
  proof (cases r)
    case None
    have "drop (?q mod 64) slots \<noteq> []" by (simp add: len)
    with k None have "k \<noteq> 0" by (auto simp: scanned_def split: if_splits)
    with k None have e: "end_of i' = (?q + k) * ?b" by (simp add: scanned_def)
    have "(?q + 1) * ?b \<le> (?q + k) * ?b" using \<open>k \<noteq> 0\<close> by (intro mult_right_mono) auto
    moreover have "items ?F (unat i) (end_of i') = []"
      using none end_of_le [of i'] by (intro items_None) (auto simp: e)
    ultimately have "pass_ok (Suc (Suc h)) s i n [] i'"
      using lt top [OF q] unfolding pass_ok_def b e by simp
    then show ?thesis using l None by simp
  next
    case (Some t)
    with k have t: "slots ! (?q mod 64 + k) = Some t" "?q mod 64 + k < 64" and i': "unat i' = (if k = 0 then unat i else (?q + k) * ?b)"
      by (auto simp: scanned_def len)
    have wt: "slot_wf (Suc h) t" using wf [OF t(2)] t(1) by simp
    have d': "unat i' div ?b = ?q + k" by (simp add: i' del: power_Suc)
    obtain xs nx where IH: "lookup_from h (Some t) i' n = Some (xs, nx)" "pass_ok (Suc h) t i' n xs nx"
      using Suc.IH [OF wt, of i'] Suc.prems(2) by auto
    from IH(2) have P: "xs = items (\<lambda>p. lookup_slot (Suc h) (of_nat p) (Some t)) (unat i') (end_of nx)"
      "unat i' < end_of nx" "end_of nx \<le> (?q + k + 1) * ?b" "0 < n \<longrightarrow> length xs \<le> n"
      unfolding pass_ok_def d' by blast+
    have sub: "?F p = lookup_slot (Suc h) (of_nat p) (Some t)" if "unat i' \<le> p" "p < end_of nx" for p
    proof -
      have "p div ?b = ?q + k"
        using that P(3) div_le_mono [OF that(1), of ?b] d' less_mult_imp_div_less [of p "?q + k + 1" ?b] by simp
      moreover have "p < 2 ^ 64" using that(2) end_of_le [of nx] by simp
      ultimately show ?thesis using t mod_add_small [of ?q 64 k] unfolding s by (simp only: lookup_node)
    qed
    have "(?q + 1) * ?b \<le> (?q + k) * ?b" if "k \<noteq> 0" using that by (intro mult_right_mono) auto
    then have ii: "unat i \<le> unat i'" using lt by (auto simp: i' simp del: mult_Suc_right)
    have "items ?F (unat i) (unat i') = []"
      using none unat_less64 [of i'] by (intro items_None) (auto simp: i' split: if_splits)
    then have "items ?F (unat i) (end_of nx) = items ?F (unat i') (end_of nx)"
      using items_append [of "unat i" "unat i'" "end_of nx" ?F] ii P(2) by simp
    also have "\<dots> = xs" unfolding P(1) by (rule items_cong) (rule sub)
    finally have "pass_ok (Suc (Suc h)) s i n xs nx"
      using P(2-4) ii top [of "k + 1"] t(2) unfolding pass_ok_def b by simp
    then show ?thesis using l Some IH(1) by simp
  qed
qed

text \<open>The loop of \<open>radix_tree_gang_lookup\<close>, with the number of items still wanted.\<close>

partial_function (option) gang_loop :: "'a radix_tree_root \<Rightarrow> u64 \<Rightarrow> u64 \<Rightarrow> nat \<Rightarrow> 'a rslot list option" where
  "gang_loop root max_index cur_index n =
     (if n = 0 \<or> cur_index > max_index then Some []
      else (case lookup_items root cur_index n of
              None \<Rightarrow> None
            | Some (found, next_index) \<Rightarrow>
                if next_index = 0 then Some found
                else Option.bind (gang_loop root max_index next_index (n - length found)) (\<lambda>ss. Some (found @ ss))))"

declare gang_loop.simps [code]

definition radix_tree_gang_lookup :: "'a radix_tree_root \<Rightarrow> u64 \<Rightarrow> nat \<Rightarrow> 'a list option" where
  "radix_tree_gang_lookup root first_index max_items =
     map_option (List.map_filter (\<lambda>s. item_of (Some s)))
       (gang_loop root (radix_tree_maxindex (rt_height root)) first_index max_items)"

lemma fits_less: "fits h i \<longleftrightarrow> unat i < 2 ^ (h * 6)"
  by (simp add: fits_def index_le take_bit_self)

lemma gang_loop_spec:
  assumes wf: "rt_wf root"
  defines "G \<equiv> \<lambda>p. if fits (rt_height root) (of_nat p) then lookup_slot (rt_height root) (of_nat p) (rt_rnode root) else None"
  shows "gang_loop root (radix_tree_maxindex (rt_height root)) cur n = Some (take n (items G (unat cur) (2 ^ 64)))"
proof (induction "2 ^ 64 - unat cur" arbitrary: cur n rule: less_induct)
  case less
  let ?H = "rt_height root" and ?m = "radix_tree_maxindex (rt_height root)"
  have beyond: "items G a (2 ^ 64) = []" if "\<And>p. a \<le> p \<Longrightarrow> p < 2 ^ 64 \<Longrightarrow> \<not> fits ?H (of_nat p)" for a
    using that by (intro items_None) (simp add: G_def)
  show ?case
  proof (cases "n = 0 \<or> cur > ?m")
    case True
    have "take n (items G (unat cur) (2 ^ 64)) = []"
    proof (cases "n = 0")
      case False
      with True have "\<not> fits ?H cur" by (simp add: fits_def)
      then have "items G (unat cur) (2 ^ 64) = []" by (intro beyond) (simp add: fits_less unat_of_nat64)
      then show ?thesis by simp
    qed simp
    then show ?thesis using True by (subst gang_loop.simps) simp
  next
    case False
    then have cur: "fits ?H cur" and n: "0 < n" by (simp_all add: fits_def)
    have step: "gang_loop root ?m cur n = (case lookup_items root cur n of
        None \<Rightarrow> None
      | Some (found, next_index) \<Rightarrow>
          if next_index = 0 then Some found
          else Option.bind (gang_loop root ?m next_index (n - length found)) (\<lambda>ss. Some (found @ ss)))"
      using False by (subst gang_loop.simps) simp
    show ?thesis
    proof (cases ?H)
      case 0
      then have "cur = 0" using cur by (simp add: fits_less unat_eq_zero)
      have G0: "G 0 = rt_rnode root" using 0 by (simp add: G_def fits_less)
      have "items G 1 (2 ^ 64) = []" by (rule beyond) (simp add: 0 fits_less unat_of_nat64)
      then have "items G 0 (2 ^ 64) = (case rt_rnode root of None \<Rightarrow> [] | Some s \<Rightarrow> [s])"
        using items_Suc [of 0 "2 ^ 64" G] by (simp add: G0 split: option.split)
      then show ?thesis unfolding step using \<open>cur = 0\<close> 0 n by (simp add: lookup_items_def split: option.split)
    next
      case (Suc h)
      with wf obtain s where s: "rt_rnode root = Some s" "slot_wf (Suc h) s" "h \<le> 10"
        by (auto simp: rt_wf_def split: option.splits)
      from lookup_from_spec [OF s(2,3)] obtain xs nx
        where l: "lookup_from h (Some s) cur n = Some (xs, nx)" and P: "pass_ok (Suc h) s cur n xs nx" by blast
      have d: "unat cur div 2 ^ (Suc h * 6) = 0" using cur Suc by (simp add: fits_less)
      from P [unfolded pass_ok_def d] n have e: "xs = items (\<lambda>p. lookup_slot (Suc h) (of_nat p) (Some s)) (unat cur) (end_of nx)"
        "unat cur < end_of nx" "end_of nx \<le> (0 + 1) * 2 ^ (Suc h * 6)" "length xs \<le> n" by blast+
      have xs: "items G (unat cur) (end_of nx) = xs"
        unfolding e(1) using e(3) end_of_le [of nx] Suc s(1)
        by (intro items_cong) (simp add: G_def fits_less unat_of_nat64)
      have le: "unat cur \<le> end_of nx" using e(2) by simp
      from items_append [OF le end_of_le, of G] have all: "items G (unat cur) (2 ^ 64) = xs @ items G (end_of nx) (2 ^ 64)"
        by (simp add: xs)
      have L: "lookup_items root cur n = Some (xs, nx)" using l Suc s(1) by (simp add: lookup_items_def)
      show ?thesis
      proof (cases "nx = 0")
        case True
        then show ?thesis using L e(4) all by (simp add: step end_of_def)
      next
        case False
        then have nx: "end_of nx = unat nx" by (simp add: end_of_def)
        have "2 ^ 64 - unat nx < 2 ^ 64 - unat cur" using e(2) nx unat_less64 [of nx] by simp
        from less.hyps [OF this, of "n - length xs"] show ?thesis
          using L False e(4) all nx by (simp add: step)
      qed
    qed
  qed
qed

lemma lookup_item: "slot_wf h s \<Longrightarrow> lookup_slot h i (Some s) = Some t \<Longrightarrow> item_of (Some t) \<noteq> None"
proof (induction h i "Some s" arbitrary: s rule: lookup_slot.induct)
  case (1 index)
  then show ?case using slot_wf_item by fastforce
next
  case (2 h index c slots)
  then show ?case
    by (cases "slots ! offset h index") (auto elim!: slot_wf_SucE dest!: spec [of _ "offset h index"])
qed simp_all

lemma gang_lookup_spec:
  assumes wf: "rt_wf root"
  shows "radix_tree_gang_lookup root i n = Some (take n (items (\<lambda>p. radix_tree_lookup root (of_nat p)) (unat i) (2 ^ 64)))"
proof -
  let ?f = "\<lambda>s. the (item_of (Some s))"
  define G where "G = (\<lambda>p. if fits (rt_height root) (of_nat p) then lookup_slot (rt_height root) (of_nat p) (rt_rnode root) else None)"
  have it: "item_of (Some s) \<noteq> None" if "G p = Some s" for p s
    using that wf lookup_item by (fastforce simp: G_def rt_wf_def split: if_splits option.splits)
  then have l: "radix_tree_lookup root (of_nat p) = map_option ?f (G p)" for p
    by (cases "G p") (auto simp: lookup_root root_lookup_def G_def split: if_splits)
  have "item_of (Some s) \<noteq> None" if "s \<in> set (items G a b)" for s a b
    using that it by (fastforce simp: items_def List.map_filter_def)
  then have "List.map_filter (\<lambda>s. item_of (Some s)) (take n (items G a b)) = map ?f (take n (items G a b))" for a b
    unfolding List.map_filter_def comp_def by (intro arg_cong [of _ _ "map _"] filter_True) (blast dest: in_set_takeD)
  then show ?thesis
    using gang_loop_spec [OF wf, of i n] by (simp add: radix_tree_gang_lookup_def l items_map take_map G_def [symmetric])
qed

interpretation gang: ordered_index rt_wf radix_tree_lookup radix_tree_insert radix_tree_delete radix_tree_gang_lookup
  by unfold_locales (rule gang_lookup_spec)

section \<open>Properties\<close>

text \<open>A sequence of operations, on the tree and on a map.\<close>

datatype 'a index_op = Ins u64 'a | Del u64

primrec tree_op :: "'a index_op \<Rightarrow> 'a radix_tree_root \<Rightarrow> 'a option \<times> 'a radix_tree_root" where
  "tree_op (Ins i x) t = radix_tree_insert t i x"
| "tree_op (Del i) t = radix_tree_delete t i"

primrec map_op :: "'a index_op \<Rightarrow> (u64 \<rightharpoonup> 'a) \<Rightarrow> 'a option \<times> (u64 \<rightharpoonup> 'a)" where
  "map_op (Ins i x) m = (m i, m(i \<mapsto> x))"
| "map_op (Del i) m = (m i, m(i := None))"

fun run_ops :: "('o \<Rightarrow> 's \<Rightarrow> 'r \<times> 's) \<Rightarrow> 'o list \<Rightarrow> 's \<Rightarrow> 'r list \<times> 's" where
  "run_ops f [] s = ([], s)"
| "run_ops f (p # ps) s = (case f p s of (r, s) \<Rightarrow> case run_ops f ps s of (rs, s) \<Rightarrow> (r # rs, s))"

lemma tree_op_spec: "rt_wf t \<Longrightarrow> rt_wf (snd (tree_op p t)) \<and> map_op p (radix_tree_lookup t)
    = (fst (tree_op p t), radix_tree_lookup (snd (tree_op p t)))"
  by (cases p) (simp_all add: insert_spec delete_spec)

lemma run_ops_spec: "rt_wf t \<Longrightarrow> rt_wf (snd (run_ops tree_op ps t)) \<and> run_ops map_op ps (radix_tree_lookup t)
    = (fst (run_ops tree_op ps t), radix_tree_lookup (snd (run_ops tree_op ps t)))"
proof (induction ps arbitrary: t)
  case (Cons p ps)
  from tree_op_spec [OF Cons.prems, of p] Cons.IH [of "snd (tree_op p t)"] show ?case by (simp add: split_def)
qed simp

lemma init_tree: "rt_wf INIT_RADIX_TREE" "radix_tree_lookup INIT_RADIX_TREE = Map.empty"
  by (simp_all add: rt_wf_def INIT_RADIX_TREE_def radix_tree_lookup_def fun_eq_iff)

text \<open>C5: The radix tree is a map: any sequence of insertions and deletions on an empty tree returns
  the same values (what was replaced or removed) as on an empty map, and a lookup
  in the resulting tree gives what the resulting map has.\<close>

theorem radix_tree_refines_map:
  "run_ops map_op ps Map.empty
    = (fst (run_ops tree_op ps INIT_RADIX_TREE), radix_tree_lookup (snd (run_ops tree_op ps INIT_RADIX_TREE)))"
  using run_ops_spec [OF init_tree(1), of ps] by (simp add: init_tree(2))

text \<open>C32: \<open>radix_tree_gang_lookup\<close> returns, on any tree built by insertions and deletions, the first
  \<open>n\<close> items at or after the index, in ascending order of their keys: the passes through the
  tree find what a scan of all keys finds, and they end.\<close>

theorem radix_tree_gang_lookup_scan:
  "radix_tree_gang_lookup (snd (run_ops tree_op ps INIT_RADIX_TREE)) i n
    = Some (take n (items (\<lambda>p. radix_tree_lookup (snd (run_ops tree_op ps INIT_RADIX_TREE)) (of_nat p)) (unat i) (2 ^ 64)))"
  using run_ops_spec [OF init_tree(1), of ps] by (intro gang_lookup_spec) simp

end
