(* ===== verification/Meta_Cache.thy ===== *)
theory Meta_Cache
  imports Radix_Gang "HOL-Library.Multiset"
begin

text \<open>
  The metadata cache, \<open>DriverCore/cache/cache.c\<close> and \<open>cache.h\<close>: a hash table of volumes,
  each with an index of leaves by block id, an LRU list of the same leaves and counters.
  A caller of \<open>cache_find\<close> gets the addresses of leaves in its basket and holds a
  reference on each until \<open>cache_put\<close>; a leaf that leaves the index while it is held
  is marked, and freed by the last put.  Leaves live in a heap of addresses; an
  outer \<open>None\<close> is a use of a freed leaf or a failed \<open>BUG_ON\<close>.  Volumes are only
  reached through the table, so they are values in it.

  The main results: a lookup finds exactly the blocks the index has; with the
  callers' held references \<open>H\<close> as a multiset, no operation uses a freed leaf, and a leaf is
  freed exactly when it is neither in an index nor held (\<open>cache_ok\<close>).
\<close>

section \<open>State\<close>

record 'm tree_leaf =
  leaf_data :: 'm
  leaf_blkid :: u64
  leaf_flag_refcnt :: u32

text \<open>\<open>1u << 31\<close> in the three macros on the flags.\<close>

definition DELETE_FLAG :: u32 where "DELETE_FLAG = push_bit 31 1"

definition tree_leaf_set_delete :: "'m tree_leaf \<Rightarrow> 'm tree_leaf" where
  "tree_leaf_set_delete leaf = leaf\<lparr>leaf_flag_refcnt := leaf_flag_refcnt leaf OR DELETE_FLAG\<rparr>"

definition tree_leaf_is_delete :: "'m tree_leaf \<Rightarrow> bool" where
  "tree_leaf_is_delete leaf \<longleftrightarrow> leaf_flag_refcnt leaf AND DELETE_FLAG \<noteq> 0"

definition tree_leaf_ref_count :: "'m tree_leaf \<Rightarrow> u32" where
  "tree_leaf_ref_count leaf = leaf_flag_refcnt leaf AND NOT (DELETE_FLAG)"

record cache_volume =
  cv_volid :: u64
  cv_cache_num :: int
  cv_cache_size :: u32
  cv_tree :: "nat radix_tree_root"
  cv_lru_list :: "nat list"
  cv_m_hit :: u64
  cv_m_miss :: u64

text \<open>\<open>leaves\<close> is the slab of the leaves, \<open>next_leaf\<close> the address of the next allocation.\<close>

record 'm cache =
  volid_table :: "cache_volume list list"
  leaves :: "nat \<rightharpoonup> 'm tree_leaf"
  next_leaf :: nat

definition VOLID_TABLE_SIZE :: nat where "VOLID_TABLE_SIZE = 23"

definition INVALIDATE_TYPE_RANGE :: int where "INVALIDATE_TYPE_RANGE = 1"
definition INVALIDATE_TYPE_VOLUMEID :: int where "INVALIDATE_TYPE_VOLUMEID = 2"
definition INVALIDATE_TYPE_CODITION_CALLBACK :: int where "INVALIDATE_TYPE_CODITION_CALLBACK = 3"

lemmas cache_consts = VOLID_TABLE_SIZE_def ENOMEM_def INVALIDATE_TYPE_RANGE_def INVALIDATE_TYPE_VOLUMEID_def
  INVALIDATE_TYPE_CODITION_CALLBACK_def

section \<open>The table of volumes\<close>

definition volid_hash :: "u64 \<Rightarrow> nat" where
  "volid_hash volid = unat volid mod VOLID_TABLE_SIZE"

definition volume_find :: "'m cache \<Rightarrow> u64 \<Rightarrow> cache_volume option" where
  "volume_find c volid = List.find (\<lambda>v. cv_volid v = volid) (volid_table c ! volid_hash volid)"

definition volume_register :: "'m cache \<Rightarrow> cache_volume \<Rightarrow> 'm cache" where
  "volume_register c v =
     (let h = volid_hash (cv_volid v) in c\<lparr>volid_table := (volid_table c)[h := v # volid_table c ! h]\<rparr>)"

text \<open>Changes the first volume of a bucket with the id, or takes it out.\<close>

fun change_first :: "u64 \<Rightarrow> cache_volume list \<Rightarrow> cache_volume list \<Rightarrow> cache_volume list" where
  "change_first volid new [] = []"
| "change_first volid new (v # vs) = (if cv_volid v = volid then new @ vs else v # change_first volid new vs)"

definition change_bucket :: "u64 \<Rightarrow> cache_volume list \<Rightarrow> 'm cache \<Rightarrow> 'm cache" where
  "change_bucket volid new c =
     (let h = volid_hash volid in c\<lparr>volid_table := (volid_table c)[h := change_first volid new (volid_table c ! h)]\<rparr>)"

text \<open>What an operation did to the volume that the pointer of \<open>volume_find\<close> points to.\<close>

definition volume_store :: "u64 \<Rightarrow> cache_volume \<Rightarrow> 'm cache \<Rightarrow> 'm cache" where
  "volume_store volid v = change_bucket volid [v]"

definition volume_remove_by_id :: "'m cache \<Rightarrow> u64 \<Rightarrow> 'm cache" where
  "volume_remove_by_id c volid = change_bucket volid [] c"

definition new_volume :: "u64 \<Rightarrow> int \<Rightarrow> cache_volume" where
  "new_volume volid cache_size =
     \<lparr>cv_volid = volid, cv_cache_num = 0, cv_cache_size = of_int cache_size, cv_tree = INIT_RADIX_TREE,
      cv_lru_list = [], cv_m_hit = 0, cv_m_miss = 0\<rparr>"

text \<open>\<open>fails\<close>: the allocation of the volume fails.\<close>

definition volume_create :: "bool \<Rightarrow> 'm cache \<Rightarrow> u64 \<Rightarrow> int \<Rightarrow> int \<times> 'm cache" where
  "volume_create fails c volid cache_size =
     (if fails then (- ENOMEM, c) else (0, volume_register c (new_volume volid cache_size)))"

definition cache_init :: "'m cache" where
  "cache_init = \<lparr>volid_table = replicate VOLID_TABLE_SIZE [], leaves = Map.empty, next_leaf = 0\<rparr>"

section \<open>Operations on a volume\<close>

definition release_tree_leaf :: "nat \<Rightarrow> 'm cache \<Rightarrow> 'm cache option" where
  "release_tree_leaf a c =
     (case leaves c a of
        None \<Rightarrow> None
      | Some leaf \<Rightarrow> if tree_leaf_ref_count leaf > 0 then None else Some (c\<lparr>leaves := (leaves c)(a := None)\<rparr>))"

text \<open>The leaf is out of the index and the list: marked while it is held, else released.\<close>

definition drop_leaf :: "nat \<Rightarrow> 'm cache \<Rightarrow> 'm cache option" where
  "drop_leaf a c =
     (case leaves c a of
        None \<Rightarrow> None
      | Some leaf \<Rightarrow>
          if tree_leaf_ref_count leaf > 0 then Some (c\<lparr>leaves := (leaves c)(a \<mapsto> tree_leaf_set_delete leaf)\<rparr>)
          else release_tree_leaf a c)"

text \<open>\<open>list_del\<close> and \<open>atomic_dec\<close>.\<close>

definition unlist_leaf :: "nat \<Rightarrow> cache_volume \<Rightarrow> cache_volume" where
  "unlist_leaf a v = v\<lparr>cv_lru_list := remove1 a (cv_lru_list v), cv_cache_num := cv_cache_num v - 1\<rparr>"

subsection \<open>cache_find\<close>

text \<open>The second loop of \<open>cache_find\<close>, downwards over the leaves found.\<close>

fun find_loop :: "u64 \<Rightarrow> nat \<Rightarrow> u64 \<Rightarrow> nat option list \<Rightarrow> nat \<Rightarrow> 'm cache \<times> cache_volume \<Rightarrow>
    (nat option list \<times> nat \<times> 'm cache \<times> cache_volume) option" where
  "find_loop start 0 ret_off basket rret (c, v) = Some (basket, rret, c, v)"
| "find_loop start (Suc i) ret_off basket rret (c, v) =
     (case basket ! i of
        None \<Rightarrow> None
      | Some a \<Rightarrow>
          (case leaves c a of
             None \<Rightarrow> None
           | Some leaf \<Rightarrow>
               let j = leaf_blkid leaf in
               if start \<le> j \<and> j < ret_off
               then find_loop start i j (basket[i := None, unat (j - start) := Some a]) (rret + 1)
                 (c\<lparr>leaves := (leaves c)(a \<mapsto> leaf\<lparr>leaf_flag_refcnt := leaf_flag_refcnt leaf + 1\<rparr>)\<rparr>,
                  v\<lparr>cv_lru_list := a # remove1 a (cv_lru_list v)\<rparr>)
               else find_loop start i ret_off (basket[i := None]) rret (c, v)))"

definition find_volume :: "u64 \<Rightarrow> nat \<Rightarrow> 'm cache \<times> cache_volume \<Rightarrow>
    (nat option list \<times> nat \<times> 'm cache \<times> cache_volume) option" where
  "find_volume start cnt cv =
     (case radix_tree_gang_lookup (cv_tree (snd cv)) start cnt of
        None \<Rightarrow> None
      | Some found \<Rightarrow>
          let ret = length found in
          if ret > 0
          then (case find_loop start ret (start + of_nat cnt) (map Some found @ replicate (cnt - ret) None) 0 cv of
                  None \<Rightarrow> None
                | Some (basket, rret, c, v) \<Rightarrow>
                    Some (basket, rret, c,
                      v\<lparr>cv_m_hit := cv_m_hit v + of_nat ret, cv_m_miss := cv_m_miss v + of_nat (cnt - ret)\<rparr>))
          else Some (replicate cnt None, 0, cv))"

definition cache_find :: "'m cache \<Rightarrow> u64 \<Rightarrow> u64 \<Rightarrow> nat \<Rightarrow> (int \<times> nat option list \<times> 'm cache) option" where
  "cache_find c volid start cnt =
     (case volume_find c volid of
        None \<Rightarrow> Some (- 1, [], c)
      | Some v \<Rightarrow>
          map_option (\<lambda>(basket, rret, c, v). (int rret, basket, volume_store volid v c)) (find_volume start cnt (c, v)))"

subsection \<open>cache_put\<close>

fun put_loop :: "nat option list \<Rightarrow> 'm cache \<Rightarrow> 'm cache option" where
  "put_loop [] c = Some c"
| "put_loop (None # basket) c = put_loop basket c"
| "put_loop (Some a # basket) c =
     (case leaves c a of
        None \<Rightarrow> None
      | Some leaf \<Rightarrow>
          let leaf = leaf\<lparr>leaf_flag_refcnt := leaf_flag_refcnt leaf - 1\<rparr>;
              c = c\<lparr>leaves := (leaves c)(a \<mapsto> leaf)\<rparr> in
          if \<not> tree_leaf_is_delete leaf then put_loop basket c
          else if tree_leaf_ref_count leaf > 0 then put_loop basket c
          else Option.bind (release_tree_leaf a c) (put_loop basket))"

definition cache_put :: "'m cache \<Rightarrow> u64 \<Rightarrow> nat option list \<Rightarrow> (int \<times> 'm cache) option" where
  "cache_put c volid basket =
     (if volume_find c volid = None then Some (- 1, c) else map_option (Pair 0) (put_loop basket c))"

subsection \<open>cache_invalidate\<close>

fun invalidate_loop :: "u64 \<Rightarrow> nat \<Rightarrow> 'm cache \<times> cache_volume \<Rightarrow> ('m cache \<times> cache_volume) option" where
  "invalidate_loop i 0 cv = Some cv"
| "invalidate_loop i (Suc n) (c, v) =
     (case radix_tree_delete (cv_tree v) i of
        (None, tree) \<Rightarrow> invalidate_loop (i + 1) n (c, v\<lparr>cv_tree := tree\<rparr>)
      | (Some a, tree) \<Rightarrow>
          Option.bind (drop_leaf a c) (\<lambda>c. invalidate_loop (i + 1) n (c, unlist_leaf a (v\<lparr>cv_tree := tree\<rparr>))))"

definition on_volume :: "u64 \<Rightarrow> ('m cache \<times> cache_volume \<Rightarrow> ('m cache \<times> cache_volume) option) \<Rightarrow> 'm cache \<Rightarrow> 'm cache option" where
  "on_volume volid f c =
     (case volume_find c volid of
        None \<Rightarrow> Some c
      | Some v \<Rightarrow> map_option (\<lambda>(c, v). volume_store volid v c) (f (c, v)))"

definition cache_invalidate :: "'m cache \<Rightarrow> u64 \<Rightarrow> u64 \<Rightarrow> nat \<Rightarrow> 'm cache option" where
  "cache_invalidate c volid start cnt = on_volume volid (invalidate_loop start cnt) c"

subsection \<open>kick_meta_cache\<close>

text \<open>The loop goes over the LRU list from its end; \<open>cond\<close> is NULL or keeps a leaf.\<close>

fun kick_loop :: "int \<Rightarrow> u32 \<Rightarrow> ('m \<Rightarrow> bool) option \<Rightarrow> u32 \<Rightarrow> nat list \<Rightarrow> 'm cache \<times> cache_volume \<Rightarrow>
    ('m cache \<times> cache_volume) option" where
  "kick_loop cnt tot check_condition nr [] cv = Some cv"
| "kick_loop cnt tot check_condition nr (a # as) (c, v) =
     (case leaves c a of
        None \<Rightarrow> None
      | Some leaf \<Rightarrow>
          if (case check_condition of None \<Rightarrow> False | Some keep \<Rightarrow> keep (leaf_data leaf))
          then kick_loop cnt tot check_condition nr as (c, v)
          else
            Option.bind (drop_leaf a c) (\<lambda>c.
              let v = unlist_leaf a (v\<lparr>cv_tree := snd (radix_tree_delete (cv_tree v) (leaf_blkid leaf))\<rparr>) in
              if cnt \<noteq> - 1 \<and> nr + 1 \<ge> tot then Some (c, v)
              else kick_loop cnt tot check_condition (if cnt \<noteq> - 1 then nr + 1 else nr) as (c, v)))"

definition kick_volume :: "int \<Rightarrow> ('m \<Rightarrow> bool) option \<Rightarrow> 'm cache \<times> cache_volume \<Rightarrow> ('m cache \<times> cache_volume) option" where
  "kick_volume cnt check_condition cv =
     (let num = cv_cache_num (snd cv);
          tot = (if cnt = - 1 \<or> cnt > num then num else cnt) in
      kick_loop cnt (of_int tot) check_condition 0 (rev (cv_lru_list (snd cv))) cv)"

definition kick_meta_cache :: "'m cache \<Rightarrow> u64 \<Rightarrow> int \<Rightarrow> ('m \<Rightarrow> bool) option \<Rightarrow> 'm cache option" where
  "kick_meta_cache c vid cnt check_condition = on_volume vid (kick_volume cnt check_condition) c"

subsection \<open>cache_update\<close>

text \<open>\<open>fails a\<close>: the allocation that would give the leaf \<open>a\<close> fails.  \<open>ret\<close> is the variable of
  the code: \<open>-ENOMEM\<close> before the first insertion, afterwards what the last one returned.\<close>

fun update_loop :: "(nat \<Rightarrow> bool) \<Rightarrow> u64 \<Rightarrow> 'm list \<Rightarrow> int \<Rightarrow> 'm cache \<times> cache_volume \<Rightarrow>
    (int \<times> 'm cache \<times> cache_volume) option" where
  "update_loop fails i [] ret cv = Some (0, cv)"
| "update_loop fails i (d # ds) ret (c, v) =
     (let a = next_leaf c; c = c\<lparr>next_leaf := a + 1\<rparr> in
      if fails a then Some (ret, c, v)
      else
        let c = c\<lparr>leaves := (leaves c)(a \<mapsto> \<lparr>leaf_data = d, leaf_blkid = i, leaf_flag_refcnt = 0\<rparr>)\<rparr> in
        case radix_tree_insert (cv_tree v) i a of
          (old, tree) \<Rightarrow>
            let v = v\<lparr>cv_tree := tree, cv_lru_list := a # cv_lru_list v, cv_cache_num := cv_cache_num v + 1\<rparr> in
            case old of
              None \<Rightarrow> update_loop fails (i + 1) ds 0 (c, v)
            | Some b \<Rightarrow> Option.bind (drop_leaf b c) (\<lambda>c. update_loop fails (i + 1) ds 0 (c, unlist_leaf b v)))"

text \<open>How many leaves to reclaim, in C's types: \<open>int\<close> plus \<open>int\<close> minus \<open>unsigned int\<close>.\<close>

definition reclaim :: "int \<Rightarrow> int \<Rightarrow> u32 \<Rightarrow> int" where
  "reclaim num cnt cache_size =
     (let i = sint (of_int (num + cnt) - cache_size) in if i > sint cache_size then sint cache_size else i)"

definition update_volume :: "(nat \<Rightarrow> bool) \<Rightarrow> u64 \<Rightarrow> 'm list \<Rightarrow> 'm cache \<times> cache_volume \<Rightarrow>
    (int \<times> 'm cache \<times> cache_volume) option" where
  "update_volume fails start basket cv =
     (let i = reclaim (cv_cache_num (snd cv)) (int (length basket)) (cv_cache_size (snd cv)) in
      Option.bind (if i > 0 then kick_volume i None cv else Some cv) (update_loop fails start basket (- ENOMEM)))"

definition cache_update :: "(nat \<Rightarrow> bool) \<Rightarrow> 'm cache \<Rightarrow> u64 \<Rightarrow> u64 \<Rightarrow> 'm list \<Rightarrow> (int \<times> 'm cache) option" where
  "cache_update fails c volid start basket =
     (case volume_find c volid of
        None \<Rightarrow> Some (- 1, c)
      | Some v \<Rightarrow>
          map_option (\<lambda>(ret, c, v). (ret, volume_store volid v c)) (update_volume fails start basket (c, v)))"

subsection \<open>Clearing\<close>

definition volume_clear_all :: "'m cache \<Rightarrow> u64 \<Rightarrow> 'm cache option" where
  "volume_clear_all c vid = map_option (\<lambda>c. volume_remove_by_id c vid) (kick_meta_cache c vid (- 1) None)"

definition cache_invalidate_by_type :: "'m cache \<Rightarrow> int \<Rightarrow> u64 \<Rightarrow> u64 \<Rightarrow> nat \<Rightarrow> ('m \<Rightarrow> bool) option \<Rightarrow> 'm cache option" where
  "cache_invalidate_by_type c type volid start nr check_condition =
     (if type = INVALIDATE_TYPE_VOLUMEID then kick_meta_cache c volid (- 1) None
      else if type = INVALIDATE_TYPE_CODITION_CALLBACK then
        if check_condition = None then None else kick_meta_cache c volid (- 1) check_condition
      else if type = INVALIDATE_TYPE_RANGE then cache_invalidate c volid start nr
      else Some c)"

text \<open>\<open>volume_remove_all\<close> takes the volumes out of the table one by one and clears them.\<close>

fun remove_volumes :: "cache_volume list \<Rightarrow> 'm cache \<Rightarrow> 'm cache option" where
  "remove_volumes [] c = Some c"
| "remove_volumes (v # vs) c = Option.bind (kick_volume (- 1) None (c, v)) (\<lambda>(c, v). remove_volumes vs c)"

definition volume_remove_all :: "'m cache \<Rightarrow> 'm cache option" where
  "volume_remove_all c =
     map_option (\<lambda>c. c\<lparr>volid_table := replicate VOLID_TABLE_SIZE []\<rparr>) (remove_volumes (concat (volid_table c)) c)"

section \<open>Reference counts\<close>

lemma unat_less32: "unat (w :: u32) < 2 ^ 32"
  by (rule order.strict_trans2 [OF unsigned_less]) simp

lemma bit_DELETE_FLAG [simp]: "bit DELETE_FLAG n \<longleftrightarrow> n = 31"
  unfolding DELETE_FLAG_def bit_push_bit_iff by (auto simp: bit_1_iff)

lemma unat_ref_count: "unat (tree_leaf_ref_count l) = unat (leaf_flag_refcnt l) mod 2 ^ 31"
proof -
  have "tree_leaf_ref_count l = take_bit 31 (leaf_flag_refcnt l)"
    unfolding tree_leaf_ref_count_def by (rule bit_word_eqI) (auto simp: bit_simps)
  moreover have "unat (take_bit 31 (leaf_flag_refcnt l)) = take_bit 31 (unat (leaf_flag_refcnt l))"
    by (rule unsigned_take_bit_eq)
  ultimately show ?thesis by (simp only: take_bit_eq_mod [of 31 "unat (leaf_flag_refcnt l)"])
qed

lemma is_delete_iff: "tree_leaf_is_delete l \<longleftrightarrow> 2 ^ 31 \<le> unat (leaf_flag_refcnt l)"
proof -
  have "tree_leaf_is_delete l \<longleftrightarrow> bit (leaf_flag_refcnt l) 31"
    using bit_eq_iff [of "leaf_flag_refcnt l AND DELETE_FLAG" 0] by (auto simp: tree_leaf_is_delete_def bit_simps)
  also have "\<dots> \<longleftrightarrow> odd (unat (leaf_flag_refcnt l) div 2 ^ 31)"
    unfolding bit_iff_odd [symmetric] by (simp add: bit_unsigned_iff)
  also have "\<dots> \<longleftrightarrow> 2 ^ 31 \<le> unat (leaf_flag_refcnt l)"
  proof -
    let ?n = "unat (leaf_flag_refcnt l)"
    have "?n div 2 ^ 31 < 2" using unat_less32 [of "leaf_flag_refcnt l"] by (simp add: less_mult_imp_div_less)
    then have "?n div 2 ^ 31 = 0 \<or> ?n div 2 ^ 31 = 1" by linarith
    then show ?thesis by (auto simp: div_eq_0_iff)
  qed
  finally show ?thesis .
qed

text \<open>The count of the references, as a number.\<close>

definition refs :: "'m tree_leaf \<Rightarrow> nat" where
  "refs l = unat (leaf_flag_refcnt l) mod 2 ^ 31"

lemma ref_count_pos: "tree_leaf_ref_count l > 0 \<longleftrightarrow> 0 < refs l"
  by (simp add: refs_def word_less_nat_alt unat_ref_count)

lemma flag_parts: "unat (leaf_flag_refcnt l) = refs l + (if tree_leaf_is_delete l then 2 ^ 31 else 0)"
  using unat_less32 [of "leaf_flag_refcnt l"] by (auto simp: refs_def is_delete_iff mod_if)

lemma flag_add:
  assumes "refs l + 1 < 2 ^ 31"
  defines "l' \<equiv> l\<lparr>leaf_flag_refcnt := leaf_flag_refcnt l + 1\<rparr>"
  shows "refs l' = refs l + 1" "tree_leaf_is_delete l' = tree_leaf_is_delete l"
proof -
  have u: "unat (leaf_flag_refcnt l') = unat (leaf_flag_refcnt l) + 1"
    using flag_parts [of l] assms(1) unfolding l'_def by (simp add: unat_word_ariths(1) split: if_splits)
  show "refs l' = refs l + 1"
    using assms(1) unfolding refs_def u by (simp add: mod_Suc)
  show "tree_leaf_is_delete l' = tree_leaf_is_delete l"
    using flag_parts [of l] assms(1) unfolding is_delete_iff u by (auto split: if_splits simp: is_delete_iff)
qed

lemma flag_sub:
  assumes "0 < refs l"
  defines "l' \<equiv> l\<lparr>leaf_flag_refcnt := leaf_flag_refcnt l - 1\<rparr>"
  shows "refs l' = refs l - 1" "tree_leaf_is_delete l' = tree_leaf_is_delete l"
proof -
  have "1 \<le> leaf_flag_refcnt l" using assms(1) by (auto simp: refs_def word_le_nat_alt)
  then have "unat (leaf_flag_refcnt l') = unat (leaf_flag_refcnt l) - 1" unfolding l'_def by (simp add: unat_sub)
  then have u: "unat (leaf_flag_refcnt l) = unat (leaf_flag_refcnt l') + 1" using assms(1) by (simp add: refs_def)
  have m: "unat (leaf_flag_refcnt l) mod 2 ^ 31 \<noteq> 0" using assms(1) by (simp add: refs_def)
  show "refs l' = refs l - 1"
    using m unfolding refs_def u by (simp add: mod_Suc split: if_splits)
  show "tree_leaf_is_delete l' = tree_leaf_is_delete l"
    using m unfolding is_delete_iff u by (cases "unat (leaf_flag_refcnt l') + 1 = 2 ^ 31") auto
qed

lemma flag_set_delete: "refs (tree_leaf_set_delete l) = refs l" "tree_leaf_is_delete (tree_leaf_set_delete l)"
proof -
  have "tree_leaf_ref_count (tree_leaf_set_delete l) = tree_leaf_ref_count l"
    unfolding tree_leaf_ref_count_def tree_leaf_set_delete_def by (rule bit_eqI) (auto simp: bit_simps)
  then show "refs (tree_leaf_set_delete l) = refs l" by (simp only: refs_def flip: unat_ref_count)
  show "tree_leaf_is_delete (tree_leaf_set_delete l)"
    using bit_eq_iff [of "(leaf_flag_refcnt l OR DELETE_FLAG) AND DELETE_FLAG" 0]
    by (auto simp: tree_leaf_is_delete_def tree_leaf_set_delete_def bit_simps)
qed

section \<open>The invariant\<close>

text \<open>The leaf of block \<open>k\<close>, and the leaves of a volume: those of its index are those of its list.\<close>

definition leaf_at :: "(nat \<rightharpoonup> 'm tree_leaf) \<Rightarrow> u64 \<Rightarrow> nat \<Rightarrow> bool" where
  "leaf_at heap k a \<longleftrightarrow> (\<exists>l. heap a = Some l \<and> leaf_blkid l = k \<and> \<not> tree_leaf_is_delete l)"

definition index_ok :: "(nat \<rightharpoonup> 'm tree_leaf) \<Rightarrow> (u64 \<Rightarrow> nat option) \<Rightarrow> nat list \<Rightarrow> bool" where
  "index_ok heap L lru \<longleftrightarrow> distinct lru \<and> (\<forall>k a. L k = Some a \<longrightarrow> a \<in> set lru \<and> leaf_at heap k a)
     \<and> (\<forall>a \<in> set lru. \<exists>k. L k = Some a)"

definition volume_ok :: "(nat \<rightharpoonup> 'm tree_leaf) \<Rightarrow> cache_volume \<Rightarrow> bool" where
  "volume_ok heap v \<longleftrightarrow> rt_wf (cv_tree v) \<and> index_ok heap (radix_tree_lookup (cv_tree v)) (cv_lru_list v)
     \<and> cv_cache_num v = int (length (cv_lru_list v))"

text \<open>The counts are those of the held references \<open>H\<close>; a marked leaf is held.\<close>

definition refs_ok :: "nat multiset \<Rightarrow> (nat \<rightharpoonup> 'm tree_leaf) \<Rightarrow> bool" where
  "refs_ok H heap \<longleftrightarrow> (\<forall>a. case heap a of None \<Rightarrow> count H a = 0
     | Some l \<Rightarrow> refs l = count H a \<and> (tree_leaf_is_delete l \<longrightarrow> 0 < count H a))"

lemma refs_None: "refs_ok H heap \<Longrightarrow> heap a = None \<Longrightarrow> count H a = 0"
  by (auto simp: refs_ok_def not_in_iff split: option.splits dest!: spec [of _ a])

lemma refs_Some: "refs_ok H heap \<Longrightarrow> heap a = Some l \<Longrightarrow> refs l = count H a \<and> (tree_leaf_is_delete l \<longrightarrow> 0 < count H a)"
  by (auto simp: refs_ok_def split: option.splits dest!: spec [of _ a])

lemma refs_ok_update:
  assumes ok: "refs_ok H heap" and others: "\<And>b. b \<noteq> a \<Longrightarrow> count H' b = count H b"
    and a: "case x of None \<Rightarrow> count H' a = 0 | Some l \<Rightarrow> refs l = count H' a \<and> (tree_leaf_is_delete l \<longrightarrow> 0 < count H' a)"
  shows "refs_ok H' (heap(a := x))"
  unfolding refs_ok_def
proof
  fix b
  show "case (heap(a := x)) b of None \<Rightarrow> count H' b = 0
    | Some l \<Rightarrow> refs l = count H' b \<and> (tree_leaf_is_delete l \<longrightarrow> 0 < count H' b)"
  proof (cases "b = a")
    case True
    then show ?thesis using a by (simp only: fun_upd_same)
  next
    case False
    then have "(heap(a := x)) b = heap b" by simp
    then show ?thesis using ok [unfolded refs_ok_def, THEN spec, of b] others [OF False] by (simp only:)
  qed
qed

text \<open>What a volume caches: the map from block ids to data that it stands for.\<close>

definition cached :: "'m cache \<times> cache_volume \<Rightarrow> u64 \<Rightarrow> 'm option" where
  "cached cv k = Option.bind (radix_tree_lookup (cv_tree (snd cv)) k) (\<lambda>a. map_option leaf_data (leaves (fst cv) a))"

lemma index_okD: "index_ok heap L lru \<Longrightarrow> L k = Some a \<Longrightarrow> a \<in> set lru \<and> (\<exists>l. heap a = Some l \<and> leaf_blkid l = k \<and> \<not> tree_leaf_is_delete l)"
  by (auto simp: index_ok_def leaf_at_def)

lemma index_unique: "index_ok heap L lru \<Longrightarrow> L k = Some a \<Longrightarrow> L k' = Some a \<Longrightarrow> k = k'"
  using index_okD [of heap L lru k a] index_okD [of heap L lru k' a] by auto

lemma index_lru: "index_ok heap L lru \<Longrightarrow> a \<in> set lru \<Longrightarrow> \<exists>l. heap a = Some l \<and> L (leaf_blkid l) = Some a"
  unfolding index_ok_def leaf_at_def by metis

lemma index_ok_heap: "index_ok heap L lru \<Longrightarrow> (\<And>a k. a \<in> set lru \<Longrightarrow> leaf_at heap k a \<Longrightarrow> leaf_at heap' k a) \<Longrightarrow> index_ok heap' L lru"
  by (auto simp: index_ok_def)

lemma index_ok_perm: "index_ok heap L lru \<Longrightarrow> distinct lru' \<Longrightarrow> set lru' = set lru \<Longrightarrow> index_ok heap L lru'"
  by (auto simp: index_ok_def)

lemma index_ok_remove:
  assumes ok: "index_ok heap L lru" and k: "L k = Some a"
  shows "index_ok heap (L(k := None)) (remove1 a lru)"
proof -
  have "distinct lru" using ok by (simp add: index_ok_def)
  moreover have "L k' = Some b \<Longrightarrow> k' \<noteq> k \<Longrightarrow> b \<noteq> a" for k' b using index_unique [OF ok k] by blast
  moreover have "\<exists>k'. k' \<noteq> k \<and> L k' = Some b" if "b \<in> set lru" "b \<noteq> a" for b
    using ok that k by (metis index_ok_def option.inject)
  ultimately show ?thesis using ok by (auto simp: index_ok_def set_remove1_eq)
qed

lemma index_ok_add:
  assumes ok: "index_ok heap L lru" and a: "a \<notin> set lru" "L k = None" "leaf_at heap k a"
  shows "index_ok heap (L(k \<mapsto> a)) (a # lru)"
proof -
  have "\<exists>k'. k' \<noteq> k \<and> L k' = Some b" if "b \<in> set lru" for b
    using ok that a(2) by (metis index_ok_def option.distinct(1))
  then have "\<exists>k'. (L(k \<mapsto> a)) k' = Some b" if "b \<in> set (a # lru)" for b
    using that a(2) by (metis fun_upd_apply set_ConsD)
  then show ?thesis using ok a by (simp add: index_ok_def)
qed

text \<open>An operation on a volume leaves the leaves of other volumes alone; a leaf that it took out
  of the list and that is still there is marked.\<close>

definition good :: "nat multiset \<Rightarrow> 'm cache \<times> cache_volume \<Rightarrow> bool" where
  "good H cv \<longleftrightarrow> (case cv of (c, v) \<Rightarrow> volume_ok (leaves c) v \<and> refs_ok H (leaves c) \<and> (\<forall>a \<ge> next_leaf c. leaves c a = None))"

definition frame :: "'m cache \<times> cache_volume \<Rightarrow> 'm cache \<times> cache_volume \<Rightarrow> bool" where
  "frame cv cv' \<longleftrightarrow> (case (cv, cv') of ((c, v), (c', v')) \<Rightarrow>
     volid_table c' = volid_table c \<and> cv_volid v' = cv_volid v \<and> cv_cache_size v' = cv_cache_size v
     \<and> next_leaf c \<le> next_leaf c'
     \<and> set (cv_lru_list v') \<subseteq> set (cv_lru_list v) \<union> {next_leaf c..<next_leaf c'}
     \<and> (\<forall>a < next_leaf c. a \<notin> set (cv_lru_list v) \<longrightarrow> leaves c' a = leaves c a)
     \<and> (\<forall>a \<in> set (cv_lru_list v) \<union> {next_leaf c..<next_leaf c'}. a \<notin> set (cv_lru_list v') \<longrightarrow>
          (\<forall>l. leaves c' a = Some l \<longrightarrow> tree_leaf_is_delete l)))"

lemma frame_refl: "frame cv cv"
  by (cases cv) (simp add: frame_def)

lemma good_lru: "good H (c, v) \<Longrightarrow> a \<in> set (cv_lru_list v) \<Longrightarrow> a < next_leaf c"
  using index_lru [of "leaves c" "radix_tree_lookup (cv_tree v)" "cv_lru_list v" a]
  by (fastforce simp: good_def volume_ok_def not_less [symmetric])

lemma frame_trans: "frame cv cv' \<Longrightarrow> frame cv' cv'' \<Longrightarrow> good H cv \<Longrightarrow> frame cv cv''"
proof -
  obtain c v c' v' c'' v'' where [simp]: "cv = (c, v)" "cv' = (c', v')" "cv'' = (c'', v'')" by (metis surj_pair)
  assume 1: "frame cv cv'" and 2: "frame cv' cv''" and g: "good H cv"
  have lru: "a < next_leaf c" if "a \<in> set (cv_lru_list v)" for a using good_lru g that by simp
  have n: "next_leaf c \<le> next_leaf c'" using 1 by (simp add: frame_def)
  have old: "leaves c'' a = leaves c a" if "a < next_leaf c" "a \<notin> set (cv_lru_list v)" for a
  proof -
    have "a \<notin> set (cv_lru_list v')" "a < next_leaf c'" using 1 that by (auto simp: frame_def)
    then show ?thesis using 1 2 that by (simp add: frame_def)
  qed
  have gone: "tree_leaf_is_delete l" if a: "a \<in> set (cv_lru_list v) \<union> {next_leaf c..<next_leaf c''}" "a \<notin> set (cv_lru_list v'')"
    "leaves c'' a = Some l" for a l
  proof (cases "a \<in> set (cv_lru_list v') \<union> {next_leaf c'..<next_leaf c''}")
    case True
    then show ?thesis using 2 a by (auto simp: frame_def)
  next
    case False
    then have "a \<notin> set (cv_lru_list v')" "a < next_leaf c'" using a(1) lru n by force+
    then have "leaves c' a = Some l" "a \<in> set (cv_lru_list v) \<union> {next_leaf c..<next_leaf c'}"
      using 2 a by (auto simp: frame_def)
    then show ?thesis using 1 \<open>a \<notin> set (cv_lru_list v')\<close> by (auto simp: frame_def)
  qed
  have sub: "x \<in> set (cv_lru_list v) \<union> {next_leaf c..<next_leaf c''}" if "x \<in> set (cv_lru_list v'')" for x
    using 1 2 that by (cases "x \<in> set (cv_lru_list v')") (force simp: frame_def)+
  show ?thesis using 1 2 old gone sub by (simp add: frame_def subset_iff)
qed

definition vstep :: "nat multiset \<Rightarrow> 'm cache \<times> cache_volume \<Rightarrow> nat multiset \<Rightarrow> 'm cache \<times> cache_volume \<Rightarrow> bool" where
  "vstep H cv H' cv' \<longleftrightarrow> good H cv \<and> good H' cv' \<and> frame cv cv'"

lemma vstep_refl: "good H cv \<Longrightarrow> vstep H cv H cv"
  by (simp add: vstep_def frame_refl)

lemma vstep_trans: "vstep H cv H' cv' \<Longrightarrow> vstep H' cv' H'' cv'' \<Longrightarrow> vstep H cv H'' cv''"
  unfolding vstep_def using frame_trans by blast

lemma vstep_good: "vstep H cv H' cv' \<Longrightarrow> good H' cv'"
  by (simp add: vstep_def)

section \<open>Taking leaves out\<close>

lemma drop_leaf_spec:
  assumes ok: "refs_ok H (leaves c)" and a: "leaves c a = Some l" "\<not> tree_leaf_is_delete l"
  obtains c' x where "drop_leaf a c = Some c'" "c' = c\<lparr>leaves := (leaves c)(a := x)\<rparr>" "refs_ok H (leaves c')"
    "\<forall>l. x = Some l \<longrightarrow> tree_leaf_is_delete l"
proof (cases "0 < refs l")
  case True
  show ?thesis
  proof (rule that)
    show "drop_leaf a c = Some (c\<lparr>leaves := (leaves c)(a := Some (tree_leaf_set_delete l))\<rparr>)"
      using a True by (simp add: drop_leaf_def ref_count_pos)
    show "refs_ok H (leaves (c\<lparr>leaves := (leaves c)(a := Some (tree_leaf_set_delete l))\<rparr>))"
      using ok a True by (auto simp: refs_ok_def flag_set_delete split: option.splits)
    show "\<forall>l'. Some (tree_leaf_set_delete l) = Some l' \<longrightarrow> tree_leaf_is_delete l'"
      using flag_set_delete(2) by blast
  qed simp
next
  case False
  show ?thesis
  proof (rule that)
    show "drop_leaf a c = Some (c\<lparr>leaves := (leaves c)(a := None)\<rparr>)"
      using a False by (simp add: drop_leaf_def release_tree_leaf_def ref_count_pos)
    have "count H a = 0" using refs_Some [OF ok a(1)] False by (simp add: not_in_iff)
    then show "refs_ok H (leaves (c\<lparr>leaves := (leaves c)(a := None)\<rparr>))"
      using ok by (auto simp: refs_ok_def)
    show "\<forall>l'. None = Some l' \<longrightarrow> tree_leaf_is_delete l'" by blast
  qed simp
qed

lemma remove_step:
  assumes g: "good H (c, v)" and k: "radix_tree_lookup (cv_tree v) k = Some a"
    and t: "rt_wf t" "radix_tree_lookup t = (radix_tree_lookup (cv_tree v))(k := None)"
  obtains c' where "drop_leaf a c = Some c'" "vstep H (c, v) H (c', unlist_leaf a (v\<lparr>cv_tree := t\<rparr>))"
    "cached (c', unlist_leaf a (v\<lparr>cv_tree := t\<rparr>)) = (cached (c, v))(k := None)"
proof -
  let ?L = "radix_tree_lookup (cv_tree v)"
  from g have v: "index_ok (leaves c) ?L (cv_lru_list v)" "cv_cache_num v = int (length (cv_lru_list v))"
    and r: "refs_ok H (leaves c)" and f: "\<forall>a \<ge> next_leaf c. leaves c a = None" by (auto simp: good_def volume_ok_def)
  from index_okD [OF v(1) k] obtain l where l: "leaves c a = Some l" "\<not> tree_leaf_is_delete l" "a \<in> set (cv_lru_list v)" by blast
  from drop_leaf_spec [OF r l(1,2)] obtain c' x where d: "drop_leaf a c = Some c'" "c' = c\<lparr>leaves := (leaves c)(a := x)\<rparr>"
    "refs_ok H (leaves c')" "\<forall>l. x = Some l \<longrightarrow> tree_leaf_is_delete l" .
  let ?v = "unlist_leaf a (v\<lparr>cv_tree := t\<rparr>)"
  have dist: "distinct (cv_lru_list v)" using v(1) by (simp add: index_ok_def)
  have "index_ok (leaves c') (?L(k := None)) (remove1 a (cv_lru_list v))"
    using dist by (intro index_ok_heap [OF index_ok_remove [OF v(1) k]]) (auto simp: d(2) leaf_at_def)
  then have "volume_ok (leaves c') ?v"
    using t v(2) l(3) length_pos_if_in_set [OF l(3)]
    by (cases "length (cv_lru_list v)") (auto simp: volume_ok_def unlist_leaf_def length_remove1)
  moreover have "\<forall>b \<ge> next_leaf c'. leaves c' b = None"
    using f good_lru [OF g l(3)] by (auto simp: d(2))
  moreover have "frame (c, v) (c', ?v)"
    using dist d(4) l(3) by (auto simp: frame_def unlist_leaf_def d(2))
  moreover have "cached (c', ?v) = (cached (c, v))(k := None)"
  proof
    fix k'
    show "cached (c', ?v) k' = ((cached (c, v))(k := None)) k'"
      using index_unique [OF v(1) k, of k'] t(2) d(2)
      by (cases "?L k'") (auto simp: cached_def unlist_leaf_def)
  qed
  ultimately show ?thesis using that [OF d(1)] g d(3) by (simp add: vstep_def good_def)
qed

definition clear_range :: "u64 \<Rightarrow> nat \<Rightarrow> (u64 \<Rightarrow> 'a option) \<Rightarrow> u64 \<Rightarrow> 'a option" where
  "clear_range i n f k = (if \<exists>j < n. k = i + of_nat j then None else f k)"

lemma clear_range_0 [simp]: "clear_range i 0 f = f"
  by (simp add: clear_range_def fun_eq_iff)

lemma clear_range_Suc: "clear_range i (Suc n) f = clear_range (i + 1) n (f(i := None))"
proof
  fix k
  have "(\<exists>j < Suc n. k = i + of_nat j) \<longleftrightarrow> k = i \<or> (\<exists>j < n. k = i + 1 + of_nat j)"
    by (auto simp: less_Suc_eq_0_disj add.assoc)
  then show "clear_range i (Suc n) f k = clear_range (i + 1) n (f(i := None)) k"
    by (cases "\<exists>j < n. k = i + 1 + of_nat j") (auto simp: clear_range_def)
qed

lemma invalidate_loop_spec:
  "good H (c, v) \<Longrightarrow> \<exists>c' v'. invalidate_loop i n (c, v) = Some (c', v') \<and> vstep H (c, v) H (c', v')
     \<and> cached (c', v') = clear_range i n (cached (c, v))"
proof (induction n arbitrary: i c v)
  case 0
  then show ?case by (simp add: vstep_refl)
next
  case (Suc n)
  from Suc.prems have wf: "rt_wf (cv_tree v)" by (simp add: good_def volume_ok_def)
  obtain old t where d: "radix_tree_delete (cv_tree v) i = (old, t)" by (metis surj_pair)
  from delete_spec [OF wf, of i] d have t: "rt_wf t" "radix_tree_lookup t = (radix_tree_lookup (cv_tree v))(i := None)"
    "old = radix_tree_lookup (cv_tree v) i" by auto
  show ?case
  proof (cases old)
    case None
    let ?v = "v\<lparr>cv_tree := t\<rparr>"
    have l: "radix_tree_lookup t = radix_tree_lookup (cv_tree v)" using t(2,3) None by (simp add: fun_upd_idem)
    then have s: "vstep H (c, v) H (c, ?v)"
      using Suc.prems t(1) by (auto simp: vstep_def good_def volume_ok_def frame_def)
    have "cached (c, ?v) = (cached (c, v))(i := None)" using l t(3) None by (auto simp: cached_def fun_eq_iff)
    then have e: "clear_range i (Suc n) (cached (c, v)) = clear_range (i + 1) n (cached (c, ?v))"
      by (simp only: clear_range_Suc)
    from Suc.IH [OF vstep_good [OF s], of "i + 1"] show ?thesis
      using d None vstep_trans [OF s] unfolding e by auto
  next
    case (Some a)
    with t(3) have "radix_tree_lookup (cv_tree v) i = Some a" by simp
    from remove_step [OF Suc.prems this t(1,2)] obtain c' where c': "drop_leaf a c = Some c'"
      "vstep H (c, v) H (c', unlist_leaf a (v\<lparr>cv_tree := t\<rparr>))"
      "cached (c', unlist_leaf a (v\<lparr>cv_tree := t\<rparr>)) = (cached (c, v))(i := None)" .
    then have e: "clear_range i (Suc n) (cached (c, v)) = clear_range (i + 1) n (cached (c', unlist_leaf a (v\<lparr>cv_tree := t\<rparr>)))"
      by (simp only: clear_range_Suc)
    from Suc.IH [OF vstep_good [OF c'(2)], of "i + 1"] show ?thesis
      using d Some c'(1) vstep_trans [OF c'(2)] unfolding e by auto
  qed
qed

text \<open>The kick loop over some of the leaves of the list, and how many it took out.\<close>

lemma kick_loop_spec:
  "good H (c, v) \<Longrightarrow> distinct as \<Longrightarrow> set as \<subseteq> set (cv_lru_list v) \<Longrightarrow>
   \<exists>c' v'. kick_loop cnt tot cond nr as (c, v) = Some (c', v') \<and> vstep H (c, v) H (c', v')
     \<and> cached (c', v') \<subseteq>\<^sub>m cached (c, v)"
proof (induction as arbitrary: nr c v)
  case Nil
  then show ?case by (simp add: vstep_refl)
next
  case (Cons a as)
  from Cons.prems have v: "index_ok (leaves c) (radix_tree_lookup (cv_tree v)) (cv_lru_list v)" "rt_wf (cv_tree v)"
    by (simp_all add: good_def volume_ok_def)
  from index_lru [OF v(1)] Cons.prems(3) obtain l where l: "leaves c a = Some l"
    "radix_tree_lookup (cv_tree v) (leaf_blkid l) = Some a" by auto
  define t where "t = snd (radix_tree_delete (cv_tree v) (leaf_blkid l))"
  have t: "rt_wf t" "radix_tree_lookup t = (radix_tree_lookup (cv_tree v))(leaf_blkid l := None)"
    using delete_spec [OF v(2)] by (simp_all add: t_def)
  from remove_step [OF Cons.prems(1) l(2) t] obtain c' where c': "drop_leaf a c = Some c'"
    "vstep H (c, v) H (c', unlist_leaf a (v\<lparr>cv_tree := t\<rparr>))"
    "cached (c', unlist_leaf a (v\<lparr>cv_tree := t\<rparr>)) = (cached (c, v))(leaf_blkid l := None)" .
  let ?v = "unlist_leaf a (v\<lparr>cv_tree := t\<rparr>)"
  have sub: "cached (c', ?v) \<subseteq>\<^sub>m cached (c, v)" by (auto simp: c'(3) map_le_def)
  have as: "distinct as" "set as \<subseteq> set (cv_lru_list v)" "a \<notin> set as" using Cons.prems by auto
  then have as': "set as \<subseteq> set (cv_lru_list ?v)" using v(1) by (auto simp: unlist_leaf_def index_ok_def)
  note skip = Cons.IH [OF Cons.prems(1) as(1,2)]
  note go = Cons.IH [OF vstep_good [OF c'(2)] as(1) as']
  show ?case
  proof (cases "case cond of None \<Rightarrow> False | Some keep \<Rightarrow> keep (leaf_data l)")
    case True
    then show ?thesis using skip [of nr] l(1) by simp
  next
    case False
    show ?thesis
    proof (cases "cnt \<noteq> - 1 \<and> nr + 1 \<ge> tot")
      case True
      then show ?thesis using False l(1) c'(1,2) sub by (auto simp: Let_def t_def [symmetric])
    next
      case more: False
      obtain c'' v'' where "kick_loop cnt tot cond (if cnt \<noteq> - 1 then nr + 1 else nr) as (c', ?v) = Some (c'', v'')"
        "vstep H (c', ?v) H (c'', v'')" "cached (c'', v'') \<subseteq>\<^sub>m cached (c', ?v)" using go by blast
      then show ?thesis
        using False more l(1) c'(1) vstep_trans [OF c'(2)] map_le_trans [OF _ sub]
        by (auto simp: Let_def t_def [symmetric])
    qed
  qed
qed

lemma kick_volume_spec:
  "good H (c, v) \<Longrightarrow> \<exists>c' v'. kick_volume cnt cond (c, v) = Some (c', v') \<and> vstep H (c, v) H (c', v')
     \<and> cached (c', v') \<subseteq>\<^sub>m cached (c, v)"
  unfolding kick_volume_def Let_def snd_conv
  by (rule kick_loop_spec) (auto simp: good_def volume_ok_def index_ok_def)

section \<open>Insertion\<close>

definition new_leaf :: "'m \<Rightarrow> u64 \<Rightarrow> 'm tree_leaf" where
  "new_leaf d i = \<lparr>leaf_data = d, leaf_blkid = i, leaf_flag_refcnt = 0\<rparr>"

lemma new_leaf [simp]: "refs (new_leaf d i) = 0" "\<not> tree_leaf_is_delete (new_leaf d i)" "leaf_blkid (new_leaf d i) = i"
  by (simp_all add: new_leaf_def refs_def is_delete_iff)

lemma good_parts: "good H (c, v) \<Longrightarrow> rt_wf (cv_tree v) \<and> index_ok (leaves c) (radix_tree_lookup (cv_tree v)) (cv_lru_list v)
    \<and> cv_cache_num v = int (length (cv_lru_list v)) \<and> refs_ok H (leaves c) \<and> (\<forall>a \<ge> next_leaf c. leaves c a = None)"
  by (simp add: good_def volume_ok_def)

text \<open>The insertion of one leaf, with what it replaces: the loop body of \<open>cache_update\<close>.\<close>

lemma insert_step:
  fixes c :: "'m cache" and d :: 'm
  assumes g: "good H (c, v)" and ins: "radix_tree_insert (cv_tree v) i (next_leaf c) = (old, t)"
  defines "c1 \<equiv> c\<lparr>next_leaf := next_leaf c + 1, leaves := (leaves c)(next_leaf c \<mapsto> new_leaf d i)\<rparr>"
    and "v1 \<equiv> v\<lparr>cv_tree := t, cv_lru_list := next_leaf c # cv_lru_list v, cv_cache_num := cv_cache_num v + 1\<rparr>"
  shows "old = radix_tree_lookup (cv_tree v) i"
    "radix_tree_lookup t = (radix_tree_lookup (cv_tree v))(i \<mapsto> next_leaf c)"
    "old = None \<Longrightarrow> vstep H (c, v) H (c1, v1)"
    "old = Some b \<Longrightarrow> \<exists>c'. drop_leaf b c1 = Some c' \<and> vstep H (c, v) H (c', unlist_leaf b v1)
       \<and> cached (c', unlist_leaf b v1) = (cached (c, v))(i \<mapsto> d)"
    "cached (c1, v1) = (cached (c, v))(i \<mapsto> d)"
proof -
  let ?a = "next_leaf c" and ?L = "radix_tree_lookup (cv_tree v)"
  note G = good_parts [OF g]
  note I = insert_spec [of "cv_tree v" i ?a, unfolded ins]
  have t: "rt_wf t" "radix_tree_lookup t = ?L(i \<mapsto> ?a)" "old = ?L i" using I G by simp_all
  then show "old = radix_tree_lookup (cv_tree v) i" "radix_tree_lookup t = ?L(i \<mapsto> ?a)" by simp_all
  have a: "?a \<notin> set (cv_lru_list v)" using good_lru [OF g, of ?a] by auto
  have h: "leaves c1 = (leaves c)(?a \<mapsto> new_leaf d i)" "next_leaf c1 = ?a + 1" by (simp_all add: c1_def)
  have none: "leaves c ?a = None" using G by simp
  then have "count H ?a = 0" using G refs_None by blast
  then have r: "refs_ok H (leaves c1)" using G by (auto simp: refs_ok_def h)
  have f: "\<forall>b \<ge> next_leaf c1. leaves c1 b = None" using G by (simp add: h)
  have at: "leaf_at (leaves c1) i ?a" by (simp add: leaf_at_def h)
  have lru: "?L k \<noteq> Some ?a" for k using index_okD [of "leaves c" ?L "cv_lru_list v" k ?a] G a by auto
  show "cached (c1, v1) = (cached (c, v))(i \<mapsto> d)"
  proof
    fix k
    show "cached (c1, v1) k = ((cached (c, v))(i \<mapsto> d)) k"
      using lru [of k] t(2) by (cases "?L k") (auto simp: cached_def v1_def h new_leaf_def)
  qed
  show "vstep H (c, v) H (c1, v1)" if "old = None"
  proof -
    have "index_ok (leaves c1) ?L (cv_lru_list v)"
      by (rule index_ok_heap [OF G [THEN conjunct2, THEN conjunct1]]) (use a in \<open>auto simp: leaf_at_def h\<close>)
    from index_ok_add [OF this a _ at] that t(3)
    have "volume_ok (leaves c1) v1" using t G by (simp add: volume_ok_def v1_def)
    then show ?thesis using g r f by (auto simp: vstep_def good_def frame_def c1_def v1_def)
  qed
  show "\<exists>c'. drop_leaf b c1 = Some c' \<and> vstep H (c, v) H (c', unlist_leaf b v1)
    \<and> cached (c', unlist_leaf b v1) = (cached (c, v))(i \<mapsto> d)"
    if "old = Some b"
  proof -
    have b: "?L i = Some b" using that t(3) by simp
    then obtain l where l: "leaves c b = Some l" "\<not> tree_leaf_is_delete l" "b \<in> set (cv_lru_list v)"
      using index_okD [of "leaves c" ?L "cv_lru_list v" i b] G by auto
    then have ba: "b \<noteq> ?a" using a by auto
    then have "leaves c1 b = Some l" using l(1) by (simp add: h)
    from drop_leaf_spec [OF r this l(2)] obtain c' x where d: "drop_leaf b c1 = Some c'"
      "c' = c1\<lparr>leaves := (leaves c1)(b := x)\<rparr>" "refs_ok H (leaves c')" "\<forall>l. x = Some l \<longrightarrow> tree_leaf_is_delete l" .
    have dist: "distinct (cv_lru_list v)" using G by (simp add: index_ok_def)
    let ?lru = "remove1 b (cv_lru_list v)"
    have "index_ok (leaves c) (?L(i := None)) ?lru" using G b by (intro index_ok_remove) simp_all
    then have "index_ok (leaves c') (?L(i := None)) ?lru"
      by (rule index_ok_heap) (use dist a in \<open>auto simp: leaf_at_def h d(2)\<close>)
    moreover have "leaf_at (leaves c') i ?a" "?a \<notin> set ?lru" using at ba a dist by (auto simp: d(2) leaf_at_def)
    ultimately have "index_ok (leaves c') (?L(i \<mapsto> ?a)) (?a # ?lru)"
      using index_ok_add [of "leaves c'" "?L(i := None)" ?lru ?a i] by simp
    then have "volume_ok (leaves c') (unlist_leaf b v1)"
      using t G ba l(3) length_pos_if_in_set [OF l(3)]
      by (cases "length (cv_lru_list v)") (auto simp: volume_ok_def v1_def unlist_leaf_def length_remove1)
    moreover have "\<forall>e \<ge> next_leaf c'. leaves c' e = None" using f good_lru [OF g l(3)] by (auto simp: d(2) h)
    moreover have "frame (c, v) (c', unlist_leaf b v1)"
      using ba l(3) d(4) dist by (auto simp: frame_def c1_def v1_def unlist_leaf_def d(2))
    moreover have "cached (c', unlist_leaf b v1) k = ((cached (c, v))(i \<mapsto> d)) k" for k
      using index_unique [of "leaves c" ?L "cv_lru_list v" i b k] G b ba lru [of k] t(2)
      by (cases "?L k") (auto simp: cached_def unlist_leaf_def v1_def h d(2) new_leaf_def)
    ultimately show ?thesis using d(1,3) g ba by (auto simp: vstep_def good_def)
  qed
qed

section \<open>Which leaves a kick takes out\<close>

lemma drop_leaf_other: "drop_leaf a c = Some c' \<Longrightarrow>
    next_leaf c' = next_leaf c \<and> volid_table c' = volid_table c \<and> (\<forall>b. b \<noteq> a \<longrightarrow> leaves c' b = leaves c b)"
  by (auto simp: drop_leaf_def release_tree_leaf_def split: option.splits if_splits)

definition kept :: "('m \<Rightarrow> bool) option \<Rightarrow> 'm cache \<Rightarrow> nat \<Rightarrow> bool" where
  "kept cond c a \<longleftrightarrow> (case (cond, leaves c a) of (Some keep, Some l) \<Rightarrow> keep (leaf_data l) | _ \<Rightarrow> False)"

lemma kick_all_lru:
  "kick_loop (- 1) tot cond nr as (c, v) = Some (c', v') \<Longrightarrow> distinct as \<Longrightarrow> distinct (cv_lru_list v) \<Longrightarrow>
   cv_lru_list v' = filter (\<lambda>a. a \<in> set as \<longrightarrow> kept cond c a) (cv_lru_list v)"
proof (induction as arbitrary: nr c v)
  case (Cons a as)
  from Cons.prems(1) obtain l where l: "leaves c a = Some l" by (cases "leaves c a") auto
  then have kept: "kept cond c a \<longleftrightarrow> (case cond of None \<Rightarrow> False | Some keep \<Rightarrow> keep (leaf_data l))"
    by (simp add: kept_def split: option.split)
  show ?case
  proof (cases "kept cond c a")
    case True
    then have "cv_lru_list v' = filter (\<lambda>b. b \<in> set as \<longrightarrow> kept cond c b) (cv_lru_list v)"
      using Cons.prems Cons.IH [of nr c v] l kept by simp
    also have "\<dots> = filter (\<lambda>b. b \<in> set (a # as) \<longrightarrow> kept cond c b) (cv_lru_list v)"
      using True by (intro filter_cong) auto
    finally show ?thesis .
  next
    case False
    define w where "w = unlist_leaf a (v\<lparr>cv_tree := snd (radix_tree_delete (cv_tree v) (leaf_blkid l))\<rparr>)"
    from Cons.prems(1) l False obtain c1 where c1: "drop_leaf a c = Some c1"
      "kick_loop (- 1) tot cond nr as (c1, w) = Some (c', v')"
      by (cases "drop_leaf a c") (auto simp: kept w_def Let_def)
    have w: "cv_lru_list w = filter (\<lambda>b. b \<noteq> a) (cv_lru_list v)"
      using Cons.prems(3) by (simp add: w_def unlist_leaf_def distinct_remove1_removeAll removeAll_filter_not_eq) metis
    have kc: "kept cond c1 b = kept cond c b" if "b \<noteq> a" for b
      using that drop_leaf_other [OF c1(1)] by (simp add: kept_def)
    have "cv_lru_list v' = filter (\<lambda>b. b \<in> set as \<longrightarrow> kept cond c1 b) (cv_lru_list w)"
      using Cons.prems(2,3) by (intro Cons.IH [OF c1(2)]) (simp_all add: w)
    also have "\<dots> = filter (\<lambda>b. b \<in> set (a # as) \<longrightarrow> kept cond c b) (cv_lru_list v)"
      unfolding w filter_filter using kc False by (intro filter_cong) auto
    finally show ?thesis .
  qed
qed simp

lemma kick_some_lru:
  "kick_loop cnt (of_nat t) None (of_nat n) as (c, v) = Some (c', v') \<Longrightarrow> cnt \<noteq> - 1 \<Longrightarrow> n < t \<Longrightarrow> t < 2 ^ 32 \<Longrightarrow>
   distinct as \<Longrightarrow> distinct (cv_lru_list v) \<Longrightarrow> cv_lru_list v' = filter (\<lambda>a. a \<notin> set (take (t - n) as)) (cv_lru_list v)"
proof (induction as arbitrary: n c v)
  case (Cons a as)
  from Cons.prems(1) obtain l where l: "leaves c a = Some l" by (cases "leaves c a") auto
  define w where "w = unlist_leaf a (v\<lparr>cv_tree := snd (radix_tree_delete (cv_tree v) (leaf_blkid l))\<rparr>)"
  have u: "unat (of_nat m :: u32) = m" if "m < 2 ^ 32" for m using that by (simp add: unsigned_of_nat take_bit_nat_eq_self)
  have nr: "(of_nat n + 1 :: u32) \<ge> of_nat t \<longleftrightarrow> t = n + 1"
    using Cons.prems(3,4) u [of "n + 1"] u [of t] by (auto simp: word_le_nat_alt add.commute)
  from Cons.prems(1,2) l obtain c1 where c1: "drop_leaf a c = Some c1"
    "(if t = n + 1 then Some (c1, w) else kick_loop cnt (of_nat t) None (of_nat n + 1) as (c1, w)) = Some (c', v')"
    by (cases "drop_leaf a c") (auto simp: w_def Let_def nr split: if_splits)
  have w: "cv_lru_list w = filter (\<lambda>b. b \<noteq> a) (cv_lru_list v)"
    using Cons.prems(6) by (simp add: w_def unlist_leaf_def distinct_remove1_removeAll removeAll_filter_not_eq) metis
  have tn: "take (t - n) (a # as) = a # take (t - (n + 1)) as" using Cons.prems(3) by (simp add: take_Cons')
  have "cv_lru_list v' = filter (\<lambda>b. b \<notin> set (take (t - (n + 1)) as)) (cv_lru_list w)"
  proof (cases "t = n + 1")
    case True
    then show ?thesis using c1(2) by simp
  next
    case False
    then have "kick_loop cnt (of_nat t) None (of_nat (n + 1)) as (c1, w) = Some (c', v')" using c1(2) by (simp add: add.commute)
    then show ?thesis using False Cons.prems by (intro Cons.IH) (auto simp: w)
  qed
  then show ?case unfolding tn w filter_filter by (simp add: conj_commute)
qed simp

lemma filter_take_rev: "distinct xs \<Longrightarrow> filter (\<lambda>a. a \<notin> set (take n (rev xs))) xs = take (length xs - n) xs"
proof -
  assume d: "distinct xs"
  let ?k = "length xs - n"
  have "set (take n (rev xs)) = set (drop ?k xs)" by (simp add: take_rev)
  moreover have "filter (\<lambda>a. a \<notin> set (drop ?k xs)) (take ?k xs @ drop ?k xs) = take ?k xs"
    using set_take_disj_set_drop_if_distinct [OF d, of ?k ?k]
    by (simp del: append_take_drop_id add: filter_empty_conv filter_id_conv disjoint_iff)
  ultimately show ?thesis by simp
qed

text \<open>A kick of \<open>n\<close> leaves takes the last \<open>n\<close> of the list; one with \<open>count\<close> -1 all but those kept.\<close>

lemma kick_volume_lru:
  assumes g: "good H (c, v)" and k: "kick_volume cnt cond (c, v) = Some (c', v')"
  shows "cnt = - 1 \<Longrightarrow> cv_lru_list v' = filter (kept cond c) (cv_lru_list v)"
    "0 < cnt \<Longrightarrow> cnt < 2 ^ 32 \<Longrightarrow> cond = None \<Longrightarrow> cv_lru_list v' = take (length (cv_lru_list v) - nat cnt) (cv_lru_list v)"
proof -
  from good_parts [OF g] have d: "distinct (cv_lru_list v)" and num: "cv_cache_num v = int (length (cv_lru_list v))"
    by (simp_all add: index_ok_def)
  show "cv_lru_list v' = filter (kept cond c) (cv_lru_list v)" if "cnt = - 1"
    using kick_all_lru [OF k [unfolded kick_volume_def Let_def snd_conv that]] d by (simp cong: filter_cong)
  show "cv_lru_list v' = take (length (cv_lru_list v) - nat cnt) (cv_lru_list v)" if n: "0 < cnt" "cnt < 2 ^ 32" "cond = None"
  proof (cases "cv_lru_list v = []")
    case True
    then show ?thesis using k by (simp add: kick_volume_def)
  next
    case False
    define t where "t = min (nat cnt) (length (cv_lru_list v))"
    have "(if cnt = - 1 \<or> cnt > cv_cache_num v then cv_cache_num v else cnt) = int t" using n num by (auto simp: t_def)
    then have "kick_loop cnt (of_nat t) None (of_nat 0) (rev (cv_lru_list v)) (c, v) = Some (c', v')"
      using k n(3) by (simp add: kick_volume_def Let_def)
    from kick_some_lru [OF this] have "cv_lru_list v' = filter (\<lambda>a. a \<notin> set (take (t - 0) (rev (cv_lru_list v)))) (cv_lru_list v)"
      using n d False by (auto simp: t_def)
    also have "\<dots> = take (length (cv_lru_list v) - t) (cv_lru_list v)" using filter_take_rev [OF d, of t] by simp
    finally show ?thesis by (auto simp: t_def min_def)
  qed
qed

section \<open>Updates\<close>

text \<open>The data stored before an allocation fails, and its effect on the map.\<close>

fun stored :: "(nat \<Rightarrow> bool) \<Rightarrow> nat \<Rightarrow> 'm list \<Rightarrow> 'm list" where
  "stored fails a [] = []"
| "stored fails a (d # ds) = (if fails a then [] else d # stored fails (a + 1) ds)"

fun put_range :: "u64 \<Rightarrow> 'm list \<Rightarrow> (u64 \<Rightarrow> 'm option) \<Rightarrow> u64 \<Rightarrow> 'm option" where
  "put_range i [] f = f"
| "put_range i (d # ds) f = put_range (i + 1) ds (f(i \<mapsto> d))"

lemma length_stored: "length (stored fails a ds) \<le> length ds"
  by (induction ds arbitrary: a) auto

lemma stored_all: "(\<And>j. j < length ds \<Longrightarrow> \<not> fails (a + j)) \<Longrightarrow> stored fails a ds = ds"
proof (induction ds arbitrary: a)
  case (Cons d ds)
  have "\<not> fails (a + 1 + j)" if "j < length ds" for j using Cons.prems [of "Suc j"] that by simp
  then show ?case using Cons.IH [of "a + 1"] Cons.prems [of 0] by simp
qed simp

lemma update_loop_spec:
  "good H (c, v) \<Longrightarrow> \<exists>c' v'. update_loop fails i ds ret (c, v)
       = Some (if stored fails (next_leaf c) ds = [] \<and> ds \<noteq> [] then ret else 0, c', v')
     \<and> vstep H (c, v) H (c', v')
     \<and> cached (c', v') = put_range i (stored fails (next_leaf c) ds) (cached (c, v))
     \<and> cv_cache_num v' \<le> cv_cache_num v + int (length (stored fails (next_leaf c) ds))"
proof (induction ds arbitrary: i ret c v)
  case Nil
  then show ?case by (simp add: vstep_refl)
next
  case (Cons d ds)
  let ?a = "next_leaf c"
  show ?case
  proof (cases "fails ?a")
    case True
    have "vstep H (c, v) H (c\<lparr>next_leaf := ?a + 1\<rparr>, v)"
      using Cons.prems good_parts [OF Cons.prems] by (auto simp: vstep_def good_def frame_def)
    moreover have "cached (c\<lparr>next_leaf := ?a + 1\<rparr>, v) = cached (c, v)" by (simp add: cached_def fun_eq_iff)
    ultimately show ?thesis using True by (simp add: Let_def)
  next
    case False
    obtain old t where ins: "radix_tree_insert (cv_tree v) i ?a = (old, t)" by (metis surj_pair)
    define c1 where "c1 = c\<lparr>next_leaf := ?a + 1, leaves := (leaves c)(?a \<mapsto> new_leaf d i)\<rparr>"
    define v1 where "v1 = v\<lparr>cv_tree := t, cv_lru_list := ?a # cv_lru_list v, cv_cache_num := cv_cache_num v + 1\<rparr>"
    note S = insert_step(3-5) [where d = d, OF Cons.prems ins, folded c1_def v1_def]
    obtain c2 v2 where s: "vstep H (c, v) H (c2, v2)" "cached (c2, v2) = (cached (c, v))(i \<mapsto> d)"
      and n: "next_leaf c2 = ?a + 1" "cv_cache_num v2 \<le> cv_cache_num v + 1"
      and u: "update_loop fails i (d # ds) ret (c, v) = update_loop fails (i + 1) ds 0 (c2, v2)"
    proof (cases old)
      case None
      show ?thesis
        by (rule that [of c1 v1]) (use None S(1,3) False ins in \<open>simp_all add: c1_def v1_def new_leaf_def Let_def\<close>)
    next
      case (Some b)
      from S(2) [OF Some] obtain c2 where c2: "drop_leaf b c1 = Some c2" "vstep H (c, v) H (c2, unlist_leaf b v1)"
        "cached (c2, unlist_leaf b v1) = (cached (c, v))(i \<mapsto> d)" by blast
      show ?thesis
      proof (rule that [OF c2(2,3)])
        show "next_leaf c2 = ?a + 1" using drop_leaf_other [OF c2(1)] by (simp add: c1_def)
        show "cv_cache_num (unlist_leaf b v1) \<le> cv_cache_num v + 1" by (simp add: v1_def unlist_leaf_def)
        show "update_loop fails i (d # ds) ret (c, v) = update_loop fails (i + 1) ds 0 (c2, unlist_leaf b v1)"
          using c2(1) Some False ins by (simp add: c1_def v1_def new_leaf_def Let_def)
      qed
    qed
    from Cons.IH [OF vstep_good [OF s(1)], of "i + 1" 0] obtain c' v' where
      "update_loop fails (i + 1) ds 0 (c2, v2) = Some (0, c', v')" "vstep H (c2, v2) H (c', v')"
      "cached (c', v') = put_range (i + 1) (stored fails (?a + 1) ds) ((cached (c, v))(i \<mapsto> d))"
      "cv_cache_num v' \<le> cv_cache_num v2 + int (length (stored fails (?a + 1) ds))"
      unfolding n(1) s(2) by (auto split: if_splits simp del: fun_upd_apply)
    then show ?thesis using u False n(2) vstep_trans [OF s(1)] by simp
  qed
qed

section \<open>Lookups\<close>

text \<open>A leaf that is found: one more reference, to the front of the list.\<close>

lemma find_step:
  fixes c :: "'m cache"
  assumes g: "good H (c, v)" and k: "radix_tree_lookup (cv_tree v) k = Some a" and few: "count H a + 1 < 2 ^ 31"
  obtains l where "leaves c a = Some l" "leaf_blkid l = k"
    "vstep H (c, v) (add_mset a H) (c\<lparr>leaves := (leaves c)(a \<mapsto> l\<lparr>leaf_flag_refcnt := leaf_flag_refcnt l + 1\<rparr>)\<rparr>,
       v\<lparr>cv_lru_list := a # remove1 a (cv_lru_list v)\<rparr>)"
proof -
  note G = good_parts [OF g]
  let ?L = "radix_tree_lookup (cv_tree v)" and ?lru = "cv_lru_list v"
  have I: "index_ok (leaves c) ?L ?lru" using G by simp
  from index_okD [OF I k] obtain l where l: "a \<in> set ?lru" "leaves c a = Some l" "leaf_blkid l = k" "\<not> tree_leaf_is_delete l" by blast
  have r: "refs l = count H a" using G l(2) refs_Some by blast
  let ?l = "l\<lparr>leaf_flag_refcnt := leaf_flag_refcnt l + 1\<rparr>"
  have l': "refs ?l = count H a + 1" "\<not> tree_leaf_is_delete ?l" "leaf_blkid ?l = k"
    using flag_add [of l] few l(3,4) r by simp_all
  let ?h = "(leaves c)(a \<mapsto> ?l)" and ?lru' = "a # remove1 a ?lru"
  have "distinct ?lru" using I by (simp add: index_ok_def)
  then have d: "distinct ?lru'" "set ?lru' = set ?lru" "length ?lru' = length ?lru"
    using l(1) length_pos_if_in_set [OF l(1)] by (auto simp: length_remove1)
  have "index_ok ?h ?L ?lru'"
  proof (rule index_ok_perm [OF _ d(1,2)])
    show "index_ok ?h ?L ?lru" by (rule index_ok_heap [OF I]) (use l l' in \<open>auto simp: leaf_at_def\<close>)
  qed
  moreover have "refs_ok (add_mset a H) ?h" using G l' by (intro refs_ok_update [of H]) auto
  moreover have "\<forall>b \<ge> next_leaf c. ?h b = None" using G good_lru [OF g l(1)] by auto
  ultimately have "good (add_mset a H) (c\<lparr>leaves := ?h\<rparr>, v\<lparr>cv_lru_list := ?lru'\<rparr>)"
    using G d(3) by (simp add: good_def volume_ok_def)
  moreover have "frame (c, v) (c\<lparr>leaves := ?h\<rparr>, v\<lparr>cv_lru_list := ?lru'\<rparr>)"
    using d(2) l(1) by (auto simp: frame_def)
  ultimately show ?thesis using that [OF l(2,3)] g by (simp add: vstep_def)
qed

text \<open>The part of the window from \<open>r\<close> on.\<close>

definition seen :: "(u64 \<Rightarrow> nat option) \<Rightarrow> u64 \<Rightarrow> nat \<Rightarrow> nat \<Rightarrow> nat option" where
  "seen L start r p = (if r \<le> unat start + p then L (start + of_nat p) else None)"

lemma items_update:
  assumes p: "a \<le> p" "p < b" "f p = None"
  shows "mset (items (f(p \<mapsto> x)) a b) = add_mset x (mset (items f a b))"
proof -
  let ?g = "f(p \<mapsto> x)"
  have parts: "items h a b = items h a p @ (case h p of None \<Rightarrow> [] | Some y \<Rightarrow> [y]) @ items h (p + 1) b" for h :: "nat \<Rightarrow> 'a option"
    using items_append [of a p b h] items_Suc [of p b h] p(1,2) by (cases "h p") simp_all
  have "items ?g a p = items f a p" "items ?g (p + 1) b = items f (p + 1) b" by (rule items_cong; simp)+
  then show ?thesis unfolding parts [of ?g] parts [of f] using p(3) by simp
qed

lemma length_items: "length (items f a b) \<le> b - a"
  unfolding items_def List.map_filter_def by (metis length_filter_le length_map length_upt)

lemma sorted_nth_ge: "sorted_wrt (<) ks \<Longrightarrow> (\<And>k. k \<in> set ks \<Longrightarrow> s \<le> k) \<Longrightarrow> i < length ks \<Longrightarrow> s + i \<le> ks ! (i :: nat)"
proof (induction i)
  case (Suc i)
  then have "ks ! i < ks ! Suc i" by (simp add: sorted_wrt_nth_less)
  with Suc show ?case by simp
qed simp

text \<open>The state of the loop before it handles the leaves below \<open>i\<close>.\<close>

definition find_inv :: "(u64 \<Rightarrow> nat option) \<Rightarrow> u64 \<Rightarrow> nat \<Rightarrow> nat list \<Rightarrow> nat \<Rightarrow> nat \<Rightarrow> nat option list \<Rightarrow> bool" where
  "find_inv L start n ks i r basket \<longleftrightarrow> length basket = n \<and> i \<le> length ks
     \<and> (\<forall>p < i. basket ! p = L (of_nat (ks ! p)))
     \<and> (\<forall>p. i \<le> p \<and> p < n \<longrightarrow> basket ! p = seen L start r p)
     \<and> unat start \<le> r \<and> r \<le> unat start + n \<and> (r = unat start + n \<or> (\<forall>q < i. ks ! q < r))
     \<and> (\<forall>k. unat start \<le> k \<and> k < r \<and> L (of_nat k) \<noteq> None \<longrightarrow> k \<in> set (take i ks))"

text \<open>The keys that the gang lookup found.\<close>

definition keys_ok :: "(u64 \<Rightarrow> nat option) \<Rightarrow> u64 \<Rightarrow> nat \<Rightarrow> nat list \<Rightarrow> bool" where
  "keys_ok L start n ks \<longleftrightarrow> unat start + n < 2 ^ 64 \<and> length ks \<le> n \<and> sorted_wrt (<) ks
     \<and> (\<forall>k \<in> set ks. unat start \<le> k \<and> k < 2 ^ 64 \<and> L (of_nat k) \<noteq> None)"

lemma find_inv_out:
  assumes K: "keys_ok L start n ks" and inv: "find_inv L start n ks (Suc i) r basket" and k: "\<not> ks ! i < r"
  shows "find_inv L start n ks i r (basket[i := None])"
proof -
  from inv have r: "r = unat start + n" using k by (auto simp: find_inv_def)
  have i: "i < length ks" "i < n" using inv K by (auto simp: find_inv_def keys_ok_def)
  have "k' \<in> set (take i ks)" if "unat start \<le> k'" "k' < r" "L (of_nat k') \<noteq> None" for k'
    using inv that k i(1) by (auto simp: find_inv_def take_Suc_conv_app_nth)
  then show ?thesis using inv r i by (auto simp: find_inv_def nth_list_update seen_def)
qed

lemma find_inv_in:
  assumes K: "keys_ok L start n ks" and inv: "find_inv L start n ks (Suc i) r basket" and k: "ks ! i < r"
  defines "p \<equiv> ks ! i - unat start"
  shows "i \<le> p" "p < n" "seen L start r p = None" "seen L start (ks ! i) p = L (of_nat (ks ! i))"
    "\<And>q. q < n \<Longrightarrow> q \<noteq> p \<Longrightarrow> seen L start (ks ! i) q = seen L start r q"
    "find_inv L start n ks i (ks ! i) (basket[i := None, p := L (of_nat (ks ! i))])"
proof -
  from inv have i: "i < length ks" and len: "length basket = n" and r: "unat start \<le> r" "r \<le> unat start + n"
    by (auto simp: find_inv_def)
  from K have S: "sorted_wrt (<) ks" "\<And>k. k \<in> set ks \<Longrightarrow> unat start \<le> k" "unat start + n < 2 ^ 64" by (auto simp: keys_ok_def)
  from sorted_nth_ge [OF S(1,2) i] have ge: "unat start + i \<le> ks ! i" by simp
  then have p: "ks ! i = unat start + p" by (simp add: p_def)
  show ip: "i \<le> p" using ge p by simp
  show pn: "p < n" using k r(2) p by simp
  show "seen L start r p = None" using k by (simp add: seen_def p)
  have start: "start + of_nat q = of_nat (unat start + q)" for q by simp
  show sp: "seen L start (ks ! i) p = L (of_nat (ks ! i))" unfolding seen_def start using p by simp
  have up: "ks ! q < ks ! i" if "q < i" for q using sorted_wrt_nth_less [OF S(1) that i] .
  have all: "k' \<in> set (take i ks) \<or> k' = ks ! i" if "unat start \<le> k'" "k' < r" "L (of_nat k') \<noteq> None" for k'
    using inv that i by (auto simp: find_inv_def take_Suc_conv_app_nth)
  have below: "k' < ks ! i" if "k' \<in> set (take i ks)" for k' using that up i by (auto simp: in_set_conv_nth)
  show other: "seen L start (ks ! i) q = seen L start r q" if "q < n" "q \<noteq> p" for q
  proof (cases "ks ! i \<le> unat start + q \<and> unat start + q < r")
    case True
    have "L (start + of_nat q) = None"
    proof (rule ccontr)
      assume "L (start + of_nat q) \<noteq> None"
      then have "unat start + q \<in> set (take i ks) \<or> unat start + q = ks ! i"
        using True by (intro all) simp_all
      then show False using below [of "unat start + q"] True that(2) p by auto
    qed
    then show ?thesis by (simp add: seen_def)
  next
    case False
    then show ?thesis using k by (auto simp: seen_def)
  qed
  show "find_inv L start n ks i (ks ! i) (basket[i := None, p := L (of_nat (ks ! i))])"
    unfolding find_inv_def
  proof (intro conjI allI impI)
    fix q
    assume q: "i \<le> q \<and> q < n"
    have "basket ! q = seen L start r q" if "q \<noteq> i" using inv q that by (simp add: find_inv_def)
    moreover have "seen L start (ks ! i) i = None" if "i \<noteq> p" using that ip p by (simp add: seen_def)
    ultimately show "basket[i := None, p := L (of_nat (ks ! i))] ! q = seen L start (ks ! i) q"
      using q len sp other [of q] pn by (cases "q = p"; cases "q = i") auto
  next
    fix q
    assume q: "q < i"
    then show "basket[i := None, p := L (of_nat (ks ! i))] ! q = L (of_nat (ks ! q))"
      using inv ip by (simp add: find_inv_def)
  next
    fix k'
    assume k': "unat start \<le> k' \<and> k' < ks ! i \<and> L (of_nat k') \<noteq> None"
    then show "k' \<in> set (take i ks)" using all [of k'] k by auto
  qed (use len i ge k r up in auto)
qed

lemma find_loop_spec:
  assumes K: "keys_ok (radix_tree_lookup (cv_tree v)) start n ks"
  defines "L \<equiv> radix_tree_lookup (cv_tree v)"
  shows "good (H + mset (items (seen L start (unat r)) 0 n)) (c, w) \<Longrightarrow> find_inv L start n ks i (unat r) basket \<Longrightarrow>
    cv_tree w = cv_tree v \<Longrightarrow> (\<And>a. count H a + n + 1 < 2 ^ 31) \<Longrightarrow> rret = length (items (seen L start (unat r)) 0 n) \<Longrightarrow>
    \<exists>c' v'. find_loop start i r basket rret (c, w)
        = Some (map (\<lambda>p. L (start + of_nat p)) [0..<n], length (items (\<lambda>p. L (start + of_nat p)) 0 n), c', v')
      \<and> vstep (H + mset (items (seen L start (unat r)) 0 n)) (c, w) (H + mset (items (\<lambda>p. L (start + of_nat p)) 0 n)) (c', v')
      \<and> cv_tree v' = cv_tree v"
proof (induction i arbitrary: r basket rret c w)
  case 0
  have "L (of_nat (unat start + p)) = None" if "unat start + p < unat r" for p
    using 0(2) that unfolding find_inv_def by (metis le_add1 empty_iff list.set(1) take0)
  then have e: "seen L start (unat r) p = L (start + of_nat p)" for p
    by (simp add: seen_def not_le)
  then have b: "basket = map (\<lambda>p. L (start + of_nat p)) [0..<n]"
    using 0(2) by (intro nth_equalityI) (auto simp: find_inv_def)
  have "items (seen L start (unat r)) 0 n = items (\<lambda>p. L (start + of_nat p)) 0 n" by (rule items_cong) (simp add: e)
  then show ?case using 0 b by (simp add: vstep_refl)
next
  case (Suc i)
  have KL: "keys_ok L start n ks" using K by (simp add: L_def)
  have i: "i < length ks" using Suc.prems(2) by (simp add: find_inv_def)
  let ?k = "ks ! i"
  have k: "unat start \<le> ?k" "?k < 2 ^ 64" "L (of_nat ?k) \<noteq> None" using KL i by (simp_all add: keys_ok_def)
  then obtain a where a: "L (of_nat ?k) = Some a" by auto
  have b: "basket ! i = Some a" using Suc.prems(2) a by (simp add: find_inv_def)
  let ?M = "mset (items (seen L start (unat r)) 0 n)"
  have "count ?M a \<le> n"
    using count_le_size [of ?M a] length_items [of "seen L start (unat r)" 0 n] by simp
  then have few: "count (H + ?M) a + 1 < 2 ^ 31" using Suc.prems(4) [of a] by simp
  have aw: "radix_tree_lookup (cv_tree w) (of_nat ?k) = Some a" using a Suc.prems(3) by (simp add: L_def)
  from find_step [OF Suc.prems(1) aw few] obtain l where l: "leaves c a = Some l" "leaf_blkid l = of_nat ?k"
    "vstep (H + ?M) (c, w) (add_mset a (H + ?M)) (c\<lparr>leaves := (leaves c)(a \<mapsto> l\<lparr>leaf_flag_refcnt := leaf_flag_refcnt l + 1\<rparr>)\<rparr>,
       w\<lparr>cv_lru_list := a # remove1 a (cv_lru_list w)\<rparr>)" .
  let ?r = "of_nat ?k :: u64"
  have ur: "unat ?r = ?k" using k(2) by (rule unat_of_nat64)
  have le: "start \<le> ?r" "?r < r \<longleftrightarrow> ?k < unat r" using k(1) ur by (simp_all add: word_le_nat_alt word_less_nat_alt)
  show ?case
  proof (cases "?k < unat r")
    case False
    have "find_loop start (Suc i) r basket rret (c, w) = find_loop start i r (basket[i := None]) rret (c, w)"
      using b l False le by (simp add: Let_def)
    then show ?thesis using Suc.IH [OF Suc.prems(1) find_inv_out [OF KL Suc.prems(2) False] Suc.prems(3-5)] by simp
  next
    case True
    let ?p = "?k - unat start" and ?b = "basket[i := None, ?k - unat start := L (of_nat ?k)]"
    let ?c = "c\<lparr>leaves := (leaves c)(a \<mapsto> l\<lparr>leaf_flag_refcnt := leaf_flag_refcnt l + 1\<rparr>)\<rparr>"
    let ?w = "w\<lparr>cv_lru_list := a # remove1 a (cv_lru_list w)\<rparr>"
    note inv = find_inv_in [OF KL Suc.prems(2) True]
    have "unat (?r - start) = ?p" using le(1) ur by (simp add: unat_sub)
    then have step: "find_loop start (Suc i) r basket rret (c, w) = find_loop start i ?r ?b (rret + 1) (?c, ?w)"
      using b l True le a by (simp add: Let_def)
    have "items (seen L start (unat ?r)) 0 n = items ((seen L start (unat r))(?p \<mapsto> a)) 0 n"
      using inv(4,5) a by (intro items_cong) (auto simp: ur)
    then have m: "mset (items (seen L start (unat ?r)) 0 n) = add_mset a ?M"
      using items_update [of 0 ?p n "seen L start (unat r)" a] inv(2,3) by simp
    have good: "good (H + mset (items (seen L start (unat ?r)) 0 n)) (?c, ?w)"
      using vstep_good [OF l(3)] by (simp add: m)
    have len: "rret + 1 = length (items (seen L start (unat ?r)) 0 n)"
      using Suc.prems(5) arg_cong [OF m, of size] by simp
    have inv': "find_inv L start n ks i (unat ?r) ?b" using inv(6) by (simp only: ur)
    have "cv_tree ?w = cv_tree v" using Suc.prems(3) by simp
    from Suc.IH [OF good inv' this Suc.prems(4) len] obtain c' v' where
      "find_loop start i ?r ?b (rret + 1) (?c, ?w) = Some (map (\<lambda>p. L (start + of_nat p)) [0..<n],
         length (items (\<lambda>p. L (start + of_nat p)) 0 n), c', v')"
      "vstep (add_mset a (H + ?M)) (?c, ?w) (H + mset (items (\<lambda>p. L (start + of_nat p)) 0 n)) (c', v')" "cv_tree v' = cv_tree v"
      unfolding m by auto
    then show ?thesis unfolding step using vstep_trans [OF l(3)] by blast
  qed
qed

lemma find_loop_data: "find_loop start i r basket rret (c, v) = Some (b, n, c', v') \<Longrightarrow>
    cv_tree v' = cv_tree v \<and> cv_m_hit v' = cv_m_hit v \<and> cv_m_miss v' = cv_m_miss v \<and> (\<forall>a. map_option leaf_data (leaves c' a) = map_option leaf_data (leaves c a))"
proof (induction i arbitrary: r basket rret c v)
  case (Suc i)
  then obtain a l where al: "basket ! i = Some a" "leaves c a = Some l" by (auto split: option.splits)
  show ?case
  proof (cases "start \<le> leaf_blkid l \<and> leaf_blkid l < r")
    case True
    from Suc.IH [of "leaf_blkid l" "basket[i := None, unat (leaf_blkid l - start) := Some a]" "rret + 1"
        "c\<lparr>leaves := (leaves c)(a \<mapsto> l\<lparr>leaf_flag_refcnt := leaf_flag_refcnt l + 1\<rparr>)\<rparr>"
        "v\<lparr>cv_lru_list := a # remove1 a (cv_lru_list v)\<rparr>"] show ?thesis
      using Suc.prems al True by (simp add: Let_def split: if_splits)
  next
    case False
    then have "find_loop start i r (basket[i := None]) rret (c, v) = Some (b, n, c', v')"
      using Suc.prems al by (auto simp: Let_def split: if_splits)
    then show ?thesis by (rule Suc.IH)
  qed
qed simp

text \<open>The leaves in a basket.\<close>

definition held :: "nat option list \<Rightarrow> nat multiset" where
  "held basket = mset (List.map_filter id basket)"

lemma held_simps [simp]: "held [] = {#}" "held (None # b) = held b" "held (Some a # b) = add_mset a (held b)"
  by (simp_all add: held_def List.map_filter_def)

lemma held_map: "held (map f [0..<n]) = mset (items f 0 n)"
  by (simp add: held_def items_def List.map_filter_def filter_map comp_def)

lemma find_volume_spec:
  assumes g: "good H (c, v)" and n: "unat start + n < 2 ^ 64" and few: "\<And>a. count H a + n + 1 < 2 ^ 31"
  defines "b \<equiv> map (\<lambda>p. radix_tree_lookup (cv_tree v) (start + of_nat p)) [0..<n]"
  shows "\<exists>c' v'. find_volume start n (c, v) = Some (b, size (held b), c', v') \<and> vstep H (c, v) (H + held b) (c', v')
    \<and> cached (c', v') = cached (c, v) \<and> cv_tree v' = cv_tree v"
proof -
  let ?L = "radix_tree_lookup (cv_tree v)" and ?r = "start + of_nat n :: u64"
  have wf: "rt_wf (cv_tree v)" using good_parts [OF g] by simp
  from gang.gang_keys [OF wf, of start n] obtain ks where ks: "radix_tree_gang_lookup (cv_tree v) start n = Some (map (\<lambda>k. the (?L (of_nat k))) ks)"
    "sorted_wrt (<) ks" "length ks \<le> n" "\<And>k. k \<in> set ks \<Longrightarrow> unat start \<le> k \<and> k < 2 ^ 64 \<and> ?L (of_nat k) \<noteq> None"
    "\<And>k. unat start \<le> k \<Longrightarrow> k < 2 ^ 64 \<Longrightarrow> k < unat start + n \<Longrightarrow> ?L (of_nat k) \<noteq> None \<Longrightarrow> k \<in> set ks" by blast
  have K: "keys_ok ?L start n ks" using ks n by (simp add: keys_ok_def)
  have r: "unat ?r = unat start + n" by (rule unat_plus_nat [OF n])
  show ?thesis
  proof (cases "ks = []")
    case True
    have "?L (start + of_nat p) = None" if "p < n" for p
      using ks(5) [of "unat start + p"] that n True by (cases "?L (start + of_nat p)") auto
    then have b: "b = replicate n None" by (auto simp: b_def intro: nth_equalityI)
    have "held (replicate n None) = {#}" by (induction n) simp_all
    then show ?thesis using ks(1) True g by (simp add: find_volume_def b vstep_refl)
  next
    case False
    let ?found = "map (\<lambda>k. the (?L (of_nat k))) ks"
    let ?b = "map Some ?found @ replicate (n - length ks) None"
    have none: "items (seen ?L start (unat ?r)) 0 n = []" by (rule items_None) (simp add: seen_def r)
    have "find_inv ?L start n ks (length ks) (unat ?r) ?b"
      unfolding find_inv_def r using ks n by (auto simp: nth_append seen_def)
    from find_loop_spec [OF K _ this refl few, of c 0] g obtain c' v' where
      f: "find_loop start (length ks) ?r ?b 0 (c, v) = Some (b, size (held b), c', v')" "vstep H (c, v) (H + held b) (c', v')"
      by (auto simp: none b_def held_map)
    let ?v = "v'\<lparr>cv_m_hit := cv_m_hit v' + of_nat (length ks), cv_m_miss := cv_m_miss v' + of_nat (n - length ks)\<rparr>"
    have "vstep H (c, v) (H + held b) (c', ?v)" using f(2) by (simp add: vstep_def good_def frame_def volume_ok_def)
    moreover have "cached (c', ?v) = cached (c, v) \<and> cv_tree ?v = cv_tree v"
      using find_loop_data [OF f(1)] by (simp add: cached_def fun_eq_iff)
    moreover have "find_volume start n (c, v) = Some (b, size (held b), c', ?v)"
      using ks(1) False f(1) by (simp add: find_volume_def Let_def)
    ultimately show ?thesis by blast
  qed
qed

lemma find_volume_stat:
  assumes wf: "rt_wf (cv_tree v)" and f: "find_volume start n (c, v) = Some (b, m, c', v')"
  defines "hits \<equiv> length (take n (items (\<lambda>p. radix_tree_lookup (cv_tree v) (of_nat p)) (unat start) (2 ^ 64)))"
  shows "cv_m_hit v' = cv_m_hit v + of_nat hits
    \<and> cv_m_miss v' = cv_m_miss v + (if hits = 0 then 0 else of_nat (n - hits))"
proof -
  let ?found = "take n (items (\<lambda>p. radix_tree_lookup (cv_tree v) (of_nat p)) (unat start) (2 ^ 64))"
  have g: "radix_tree_gang_lookup (cv_tree v) start n = Some ?found" by (rule gang_lookup_spec [OF wf])
  show ?thesis
  proof (cases "hits = 0")
    case True
    then show ?thesis using f g by (simp add: find_volume_def hits_def)
  next
    case False
    with f g obtain w where w: "find_loop start hits (start + of_nat n) (map Some ?found @ replicate (n - hits) None) 0 (c, v)
        = Some (b, m, c', w)"
      "v' = w\<lparr>cv_m_hit := cv_m_hit w + of_nat hits, cv_m_miss := cv_m_miss w + of_nat (n - hits)\<rparr>"
      by (auto simp: find_volume_def Let_def hits_def split: option.splits)
    then show ?thesis using False find_loop_data [OF w(1)] by simp
  qed
qed

section \<open>Puts\<close>

lemma put_loop_spec:
  "refs_ok H (leaves c) \<Longrightarrow> held basket \<subseteq># H \<Longrightarrow> \<exists>c'. put_loop basket c = Some c' \<and> refs_ok (H - held basket) (leaves c')
     \<and> volid_table c' = volid_table c \<and> next_leaf c' = next_leaf c
     \<and> (\<forall>a. leaves c a = None \<longrightarrow> leaves c' a = None)
     \<and> (\<forall>a k. leaf_at (leaves c) k a \<longrightarrow> leaf_at (leaves c') k a)
     \<and> (\<forall>a k. leaf_at (leaves c') k a \<longrightarrow> leaf_at (leaves c) k a)"
proof (induction basket arbitrary: H c)
  case Nil
  then show ?case by simp
next
  case (Cons x basket)
  show ?case
  proof (cases x)
    case None
    then show ?thesis using Cons by simp
  next
    case (Some a)
    from Cons.prems(2) Some have H: "a \<in># H" "held basket \<subseteq># H - {#a#}" "H - held (x # basket) = H - {#a#} - held basket"
      by (auto simp: insert_subset_eq_iff)
    from refs_None [OF Cons.prems(1), of a] H(1) obtain l where l: "leaves c a = Some l" by (cases "leaves c a") (auto simp: count_eq_zero_iff)
    from refs_Some [OF Cons.prems(1) l] H(1) have rc: "refs l = count H a" "0 < refs l" by auto
    let ?l = "l\<lparr>leaf_flag_refcnt := leaf_flag_refcnt l - 1\<rparr>"
    note sub = flag_sub [OF rc(2)]
    define gone where "gone \<longleftrightarrow> tree_leaf_is_delete ?l \<and> refs ?l = 0"
    define c1 where "c1 = c\<lparr>leaves := (leaves c)(a := if gone then None else Some ?l)\<rparr>"
    have "put_loop (x # basket) c = put_loop basket c1"
      using l Some by (auto simp: Let_def c1_def gone_def release_tree_leaf_def ref_count_pos)
    moreover have e: "leaves c1 = (leaves c)(a := if gone then None else Some ?l)" by (simp add: c1_def)
    have "refs_ok (H - {#a#}) (leaves c1)"
      unfolding e by (rule refs_ok_update [OF Cons.prems(1)]) (use sub rc in \<open>auto simp: gone_def\<close>)
    ultimately obtain c' where c': "put_loop (x # basket) c = Some c'" "refs_ok (H - held (x # basket)) (leaves c')"
      "volid_table c' = volid_table c1" "next_leaf c' = next_leaf c1" "\<forall>a. leaves c1 a = None \<longrightarrow> leaves c' a = None"
      "\<forall>a k. leaf_at (leaves c1) k a \<longrightarrow> leaf_at (leaves c') k a" "\<forall>a k. leaf_at (leaves c') k a \<longrightarrow> leaf_at (leaves c1) k a"
      using Cons.IH [of "H - {#a#}" c1] H(2,3) by auto
    have at: "leaf_at (leaves c1) k b \<longleftrightarrow> leaf_at (leaves c) k b" for k b
      using l sub(2) by (auto simp: leaf_at_def c1_def gone_def)
    have none: "leaves c b = None \<Longrightarrow> leaves c1 b = None" for b using l by (auto simp: c1_def)
    show ?thesis using c' at none by (auto simp: c1_def)
  qed
qed

end
