(* ===== verification/Cache_Safety.thy ===== *)
theory Cache_Safety
  imports Meta_Cache
begin

text \<open>
  The cache as a whole: the invariant of the table of volumes and of the heap of leaves,
  that every operation of \<open>cache.c\<close> keeps it, and what the operations do to the cached
  data.  A run is a sequence of operations by callers that put back only what they hold.
\<close>

section \<open>The invariant of the cache\<close>

definition volumes :: "'m cache \<Rightarrow> cache_volume list" where
  "volumes c = concat (volid_table c)"

definition lrus :: "cache_volume list \<Rightarrow> nat list" where
  "lrus vs = concat (map cv_lru_list vs)"

lemma lrus_simps [simp]: "lrus [] = []" "lrus (v # vs) = cv_lru_list v @ lrus vs" "lrus (vs @ ws) = lrus vs @ lrus ws"
  by (simp_all add: lrus_def)

text \<open>The leaves of the heap are those of the lists and marked ones, which are held.\<close>

definition cache_ok :: "nat multiset \<Rightarrow> 'm cache \<Rightarrow> bool" where
  "cache_ok H c \<longleftrightarrow> length (volid_table c) = VOLID_TABLE_SIZE \<and> (\<forall>v \<in> set (volumes c). volume_ok (leaves c) v)
     \<and> distinct (lrus (volumes c)) \<and> refs_ok H (leaves c) \<and> (\<forall>a \<ge> next_leaf c. leaves c a = None)
     \<and> (\<forall>a l. leaves c a = Some l \<longrightarrow> tree_leaf_is_delete l \<or> a \<in> set (lrus (volumes c)))"

lemma find_split: "List.find P xs = Some v \<Longrightarrow> \<exists>X Y. xs = X @ v # Y \<and> (\<forall>x \<in> set X. \<not> P x) \<and> P v"
proof (induction xs)
  case (Cons x xs)
  show ?case
  proof (cases "P x")
    case True
    with Cons.prems show ?thesis by (intro exI [of _ "[]"] exI [of _ xs]) auto
  next
    case False
    with Cons obtain X Y where "xs = X @ v # Y" "\<forall>x \<in> set X. \<not> P x" "P v" by auto
    with False show ?thesis by (intro exI [of _ "x # X"] exI [of _ Y]) auto
  qed
qed simp

lemma change_first_split: "\<forall>x \<in> set X. cv_volid x \<noteq> i \<Longrightarrow> cv_volid v = i \<Longrightarrow> change_first i new (X @ v # Y) = X @ new @ Y"
  by (induction X) auto

text \<open>A change of the volume found, seen on the list of all volumes.\<close>

definition changed :: "'m cache \<Rightarrow> u64 \<Rightarrow> cache_volume list \<Rightarrow> cache_volume list \<Rightarrow> bool" where
  "changed c i A B \<longleftrightarrow> (\<forall>(c' :: 'm cache) new. volid_table c' = volid_table c \<longrightarrow>
     volumes (change_bucket i new c') = A @ new @ B \<and> length (volid_table (change_bucket i new c')) = VOLID_TABLE_SIZE)"

lemma volume_split:
  assumes f: "volume_find c i = Some v" and len: "length (volid_table c) = VOLID_TABLE_SIZE"
  obtains A B where "volumes c = A @ v # B" "cv_volid v = i" "changed c i A B"
proof -
  let ?t = "volid_table c" and ?h = "volid_hash i"
  have h: "?h < length ?t" by (simp add: len volid_hash_def VOLID_TABLE_SIZE_def)
  from find_split [OF f [unfolded volume_find_def]] obtain X Y where X: "?t ! ?h = X @ v # Y" "\<forall>x \<in> set X. cv_volid x \<noteq> i" "cv_volid v = i"
    by auto
  let ?A = "concat (take ?h ?t) @ X" and ?B = "Y @ concat (drop (Suc ?h) ?t)"
  show ?thesis
  proof (rule that)
    show "volumes c = ?A @ v # ?B"
      unfolding volumes_def by (subst id_take_nth_drop [OF h]) (simp add: X(1))
    show "changed c i ?A ?B"
      using h X change_first_split [OF X(2,3), of _ Y] len
      by (simp add: changed_def volumes_def change_bucket_def Let_def upd_conv_take_nth_drop)
  qed (rule X(3))
qed

lemma cache_ok_good: "cache_ok H c \<Longrightarrow> v \<in> set (volumes c) \<Longrightarrow> good H (c, v)"
  by (simp add: cache_ok_def good_def)

text \<open>An operation on one volume keeps the invariant of all; a volume may go when its list is empty.\<close>

lemma cache_ok_step:
  assumes ok: "cache_ok H c" and vs: "volumes c = A @ v # B" and s: "vstep H (c, v) H' (c', v')"
    and d: "leaves d = leaves c'" "next_leaf d = next_leaf c'" "length (volid_table d) = VOLID_TABLE_SIZE"
    and new: "volumes d = A @ new @ B" "new = [v'] \<or> new = [] \<and> cv_lru_list v' = []"
  shows "cache_ok H' d"
proof -
  from s have g: "good H (c, v)" "good H' (c', v')" and f: "frame (c, v) (c', v')" by (simp_all add: vstep_def)
  note G = good_parts [OF g(2)]
  have next_less: "a < next_leaf c" if "a \<in> set (lrus (A @ v # B))" for a
  proof -
    from that obtain w where "w \<in> set (volumes c)" "a \<in> set (cv_lru_list w)" by (auto simp: vs lrus_def)
    then show ?thesis using good_lru cache_ok_good [OF ok] by blast
  qed
  have dist: "distinct (lrus (A @ v # B))" using ok vs by (simp add: cache_ok_def)
  have same: "leaves c' a = leaves c a" if "a \<in> set (lrus (A @ B))" for a
  proof -
    have "a < next_leaf c" using that by (intro next_less) auto
    moreover have "a \<notin> set (cv_lru_list v)" using that dist by auto
    ultimately show ?thesis using f by (simp add: frame_def)
  qed
  have others: "volume_ok (leaves c') w" if "w \<in> set (A @ B)" for w
  proof -
    have i: "index_ok (leaves c) (radix_tree_lookup (cv_tree w)) (cv_lru_list w)" and w: "volume_ok (leaves c) w"
      using ok vs that by (auto simp: cache_ok_def volume_ok_def)
    have "leaves c' a = leaves c a" if "a \<in> set (cv_lru_list w)" for a
      using same [of a] that \<open>w \<in> set (A @ B)\<close> by (auto simp: lrus_def)
    then have "index_ok (leaves c') (radix_tree_lookup (cv_tree w)) (cv_lru_list w)"
      by (intro index_ok_heap [OF i]) (simp add: leaf_at_def)
    with w show ?thesis by (simp add: volume_ok_def)
  qed
  have lru': "set (cv_lru_list v') \<subseteq> set (cv_lru_list v) \<union> {next_leaf c..}" using f by (auto simp: frame_def)
  have "distinct (cv_lru_list v')" using G by (simp add: index_ok_def)
  moreover have "a \<notin> set (cv_lru_list v')" if "a \<in> set (lrus (A @ B))" for a
    using lru' dist that next_less [of a] by fastforce
  ultimately have dist': "distinct (lrus (A @ v' # B))" using dist by auto
  have here: "tree_leaf_is_delete l \<or> a \<in> set (lrus (A @ v' # B))" if l: "leaves c' a = Some l" for a l
  proof (cases "a \<in> set (cv_lru_list v) \<union> {next_leaf c..<next_leaf c'}")
    case True
    then show ?thesis using f l by (auto simp: frame_def)
  next
    case False
    then have "a < next_leaf c" "a \<notin> set (cv_lru_list v)" using l G by (auto simp: not_less [symmetric])
    then show ?thesis using f l ok vs by (auto simp: frame_def cache_ok_def)
  qed
  have lr: "lrus (A @ new @ B) = lrus (A @ v' # B)" "\<And>w. w \<in> set (A @ new @ B) \<Longrightarrow> w \<in> set (A @ B) \<or> w = v'" using new(2) by auto
  have vok: "volume_ok (leaves d) w" if "w \<in> set (volumes d)" for w
    using lr(2) [of w] that others [of w] g(2) by (auto simp: new(1) d(1) good_def)
  show ?thesis
    unfolding cache_ok_def new(1) lr(1) d(1,2) using vok d(3) dist' here G by (simp add: new(1) d(1))
qed

section \<open>Every operation keeps the invariant\<close>

lemma store_step:
  assumes ok: "cache_ok H c" and f: "volume_find c i = Some v" and s: "vstep H (c, v) H' (c', v')"
  shows "cache_ok H' (volume_store i v' c')"
proof -
  have len: "length (volid_table c) = VOLID_TABLE_SIZE" using ok by (simp add: cache_ok_def)
  from volume_split [OF f len] obtain A B where v: "volumes c = A @ v # B" "changed c i A B" .
  have "volid_table c' = volid_table c" using s by (simp add: vstep_def frame_def)
  with v(2) have d: "volumes (volume_store i v' c') = A @ [v'] @ B" "length (volid_table (volume_store i v' c')) = VOLID_TABLE_SIZE"
    by (auto simp: changed_def volume_store_def)
  show ?thesis
    by (rule cache_ok_step [OF ok v(1) s _ _ d(2,1)]) (simp_all add: volume_store_def change_bucket_def Let_def)
qed

lemma find_good: "cache_ok H c \<Longrightarrow> volume_find c i = Some v \<Longrightarrow> good H (c, v)"
  using volume_split [of c i v] cache_ok_good [of H c v] by (metis cache_ok_def in_set_conv_decomp)

lemma on_volume_ok:
  assumes ok: "cache_ok H c" and f: "\<And>v. good H (c, v) \<Longrightarrow> \<exists>c' v'. f (c, v) = Some (c', v') \<and> vstep H (c, v) H (c', v')"
  shows "\<exists>c'. on_volume i f c = Some c' \<and> cache_ok H c'"
proof (cases "volume_find c i")
  case None
  then show ?thesis using ok by (simp add: on_volume_def)
next
  case (Some v)
  from f [OF find_good [OF ok Some]] store_step [OF ok Some] Some show ?thesis by (auto simp: on_volume_def)
qed

lemma cache_init_ok: "cache_ok {#} cache_init"
  by (simp add: cache_ok_def refs_ok_def cache_init_def volumes_def)

lemma volume_create_ok: "cache_ok H c \<Longrightarrow> cache_ok H (snd (volume_create fails c i sz))"
proof (cases fails)
  case False
  assume ok: "cache_ok H c"
  let ?h = "volid_hash i" and ?v = "new_volume i sz" and ?c = "volume_register c (new_volume i sz)"
  have h: "?h < length (volid_table c)" using ok by (simp add: cache_ok_def volid_hash_def VOLID_TABLE_SIZE_def)
  let ?A = "concat (take ?h (volid_table c))" and ?B = "concat (drop ?h (volid_table c))"
  have "volumes ?c = ?A @ ?v # ?B"
    using h by (simp add: volumes_def volume_register_def Let_def upd_conv_take_nth_drop new_volume_def Cons_nth_drop_Suc [symmetric])
  moreover have "volumes c = ?A @ ?B" by (simp add: volumes_def flip: concat_append)
  moreover have "radix_tree_lookup (INIT_RADIX_TREE :: nat radix_tree_root) k = None" for k
    by (simp add: radix_tree_lookup_def INIT_RADIX_TREE_def)
  then have "volume_ok (leaves c) ?v"
    by (simp add: volume_ok_def index_ok_def new_volume_def rt_wf_def) (simp add: INIT_RADIX_TREE_def)
  moreover have "cv_lru_list ?v = []" by (simp add: new_volume_def)
  ultimately show ?thesis using ok False by (auto simp: cache_ok_def volume_create_def volume_register_def Let_def)
qed (simp add: volume_create_def)

lemma cache_invalidate_ok: "cache_ok H c \<Longrightarrow> \<exists>c'. cache_invalidate c i start n = Some c' \<and> cache_ok H c'"
  unfolding cache_invalidate_def by (rule on_volume_ok) (use invalidate_loop_spec in blast)+

lemma kick_meta_cache_ok: "cache_ok H c \<Longrightarrow> \<exists>c'. kick_meta_cache c i cnt cond = Some c' \<and> cache_ok H c'"
  unfolding kick_meta_cache_def by (rule on_volume_ok) (use kick_volume_spec in blast)+

lemma update_volume_ok:
  assumes "good H (c, v)"
  obtains ret c' v' where "update_volume fails start ds (c, v) = Some (ret, c', v')" "vstep H (c, v) H (c', v')"
proof -
  let ?i = "reclaim (cv_cache_num v) (int (length ds)) (cv_cache_size v)"
  obtain c1 v1 where k: "(if ?i > 0 then kick_volume ?i None (c, v) else Some (c, v)) = Some (c1, v1)" "vstep H (c, v) H (c1, v1)"
    using kick_volume_spec [OF assms, of ?i None] vstep_refl [OF assms] by (cases "?i > 0") auto
  from update_loop_spec [OF vstep_good [OF k(2)], of fails start ds "- ENOMEM"] show ?thesis
    using that k(1) vstep_trans [OF k(2)] by (auto simp: update_volume_def Let_def)
qed

lemma cache_update_ok: "cache_ok H c \<Longrightarrow> \<exists>ret c'. cache_update fails c i start ds = Some (ret, c') \<and> cache_ok H c'"
proof (cases "volume_find c i")
  case (Some v)
  assume ok: "cache_ok H c"
  from update_volume_ok [OF find_good [OF ok Some], of fails start ds] obtain ret c' v'
    where "update_volume fails start ds (c, v) = Some (ret, c', v')" "vstep H (c, v) H (c', v')" .
  then show ?thesis using store_step [OF ok Some] Some by (auto simp: cache_update_def)
qed (simp add: cache_update_def)

lemma cache_find_ok:
  assumes ok: "cache_ok H c" and n: "unat start + n < 2 ^ 64" and few: "\<And>a. count H a + n + 1 < 2 ^ 31"
  shows "\<exists>ret b c'. cache_find c i start n = Some (ret, b, c') \<and> cache_ok (H + held b) c'"
proof (cases "volume_find c i")
  case None
  then show ?thesis using ok by (simp add: cache_find_def)
next
  case (Some v)
  from find_volume_spec [OF find_good [OF ok Some] n few] show ?thesis
    using store_step [OF ok Some] Some by (auto simp: cache_find_def)
qed

lemma put_loop_ok:
  assumes ok: "cache_ok H c" and h: "held b \<subseteq># H"
  shows "\<exists>c'. put_loop b c = Some c' \<and> cache_ok (H - held b) c'"
proof -
  from ok have r: "refs_ok H (leaves c)" by (simp add: cache_ok_def)
  from put_loop_spec [OF r h] obtain c' where c': "put_loop b c = Some c'" "refs_ok (H - held b) (leaves c')"
    "volid_table c' = volid_table c" "next_leaf c' = next_leaf c" "\<forall>a. leaves c a = None \<longrightarrow> leaves c' a = None"
    "\<forall>a k. leaf_at (leaves c) k a \<longrightarrow> leaf_at (leaves c') k a" "\<forall>a k. leaf_at (leaves c') k a \<longrightarrow> leaf_at (leaves c) k a" by blast
  have vs: "volumes c' = volumes c" by (simp add: volumes_def c'(3))
  have "volume_ok (leaves c') v" if "v \<in> set (volumes c)" for v
    using ok that c'(6) by (auto simp: cache_ok_def volume_ok_def intro: index_ok_heap)
  moreover have "tree_leaf_is_delete l \<or> a \<in> set (lrus (volumes c))" if l: "leaves c' a = Some l" for a l
  proof (cases "tree_leaf_is_delete l")
    case False
    with l c'(7) have "leaf_at (leaves c) (leaf_blkid l) a" by (auto simp: leaf_at_def)
    then show ?thesis using ok by (auto simp: cache_ok_def leaf_at_def)
  qed simp
  ultimately have "cache_ok (H - held b) c'" using ok c'(2-5) by (simp add: cache_ok_def vs)
  with c'(1) show ?thesis by blast
qed

lemma cache_put_ok: "cache_ok H c \<Longrightarrow> held b \<subseteq># H \<Longrightarrow>
    \<exists>c'. cache_put c i b = Some (if volume_find c i = None then - 1 else 0, c')
      \<and> cache_ok (if volume_find c i = None then H else H - held b) c'"
  using put_loop_ok [of H c b] by (cases "volume_find c i") (auto simp: cache_put_def)

lemma find_change: "List.find (\<lambda>v. cv_volid v = i) xs = Some v \<Longrightarrow> cv_volid w = i \<Longrightarrow>
    List.find (\<lambda>v. cv_volid v = i) (change_first i [w] xs) = Some w"
  by (induction xs) (auto split: if_splits)

lemma change_absent: "List.find (\<lambda>v. cv_volid v = i) xs = None \<Longrightarrow> change_first i new xs = xs"
  by (induction xs) (auto split: if_splits)

lemma volume_find_store:
  assumes "volume_find c i = Some v" "cv_volid w = i" "volid_table c' = volid_table c" "cache_ok H c"
  shows "volume_find (volume_store i w c') i = Some w"
proof -
  have "volid_hash i < length (volid_table c)"
    using assms(4) by (simp add: cache_ok_def volid_hash_def VOLID_TABLE_SIZE_def)
  then show ?thesis
    using find_change [OF assms(1) [unfolded volume_find_def] assms(2)] assms(3)
    by (simp add: volume_find_def volume_store_def change_bucket_def Let_def)
qed

text \<open>The volume is gone with an empty list; the other volumes are as they were.\<close>

lemma volume_clear_all_ok:
  assumes ok: "cache_ok H c" and f: "volume_find c i = Some v"
  obtains c' A B where "volume_clear_all c i = Some c'" "cache_ok H c'" "volumes c = A @ v # B" "volumes c' = A @ B"
proof -
  from kick_volume_spec [OF find_good [OF ok f], of "- 1" None] obtain c1 v1 where k: "kick_volume (- 1) None (c, v) = Some (c1, v1)"
    "vstep H (c, v) H (c1, v1)" by blast
  have lru: "cv_lru_list v1 = []"
    using kick_volume_lru(1) [OF find_good [OF ok f] k(1)] by (simp add: kept_def)
  have len: "length (volid_table c) = VOLID_TABLE_SIZE" using ok by (simp add: cache_ok_def)
  from volume_split [OF f len] obtain A B where v: "volumes c = A @ v # B" "cv_volid v = i" "changed c i A B" .
  have t: "volid_table c1 = volid_table c" "cv_volid v1 = i" using k(2) v(2) by (simp_all add: vstep_def frame_def)
  let ?c = "volume_remove_by_id (volume_store i v1 c1) i"
  have h: "volid_hash i < length (volid_table c)" by (simp add: len volid_hash_def VOLID_TABLE_SIZE_def)
  have "change_first i [] (change_first i [v1] xs) = change_first i [] xs" for xs
    using t(2) by (induction xs) auto
  then have e: "?c = change_bucket i [] c1"
    using h t(1) by (simp add: volume_remove_by_id_def volume_store_def change_bucket_def Let_def)
  have "volumes ?c = A @ [] @ B" "length (volid_table ?c) = VOLID_TABLE_SIZE"
    unfolding e using v(3) t(1) by (auto simp: changed_def)
  moreover have "volume_clear_all c i = Some ?c"
    using f k(1) by (simp add: volume_clear_all_def kick_meta_cache_def on_volume_def)
  moreover from calculation have "cache_ok H ?c"
    by (intro cache_ok_step [OF ok v(1) k(2) _ _ _ _ disjI2]) (simp_all add: e change_bucket_def Let_def lru)
  ultimately show ?thesis using that v(1) by simp
qed

lemma volume_clear_all_total: "cache_ok H c \<Longrightarrow> \<exists>c'. volume_clear_all c i = Some c' \<and> cache_ok H c'"
proof (cases "volume_find c i")
  case None
  assume ok: "cache_ok H c"
  have "volume_remove_by_id c i = c"
    using change_absent [OF None [unfolded volume_find_def]] by (simp add: volume_remove_by_id_def change_bucket_def Let_def)
  then show ?thesis using ok None by (simp add: volume_clear_all_def kick_meta_cache_def on_volume_def)
next
  case (Some v)
  assume ok: "cache_ok H c"
  from volume_clear_all_ok [OF ok Some] obtain c' where "volume_clear_all c i = Some c'" "cache_ok H c'" .
  then show ?thesis by blast
qed

lemma cache_invalidate_by_type_ok: "cache_ok H c \<Longrightarrow> type = INVALIDATE_TYPE_CODITION_CALLBACK \<longrightarrow> cond \<noteq> None \<Longrightarrow>
    \<exists>c'. cache_invalidate_by_type c type i start n cond = Some c' \<and> cache_ok H c'"
  using kick_meta_cache_ok [of H c i] cache_invalidate_ok [of H c i] by (auto simp: cache_invalidate_by_type_def)

section \<open>Runs\<close>

text \<open>The cache with the references that its callers hold.  A caller looks up a window of the
  address space, with fewer than \<open>2 ^ 31\<close> references on a leaf, and puts back only what
  it holds; a put to a volume that is gone releases nothing.\<close>

inductive cache_run :: "'m cache \<Rightarrow> nat multiset \<Rightarrow> bool" where
  init: "cache_run cache_init {#}"
| create: "cache_run c H \<Longrightarrow> volume_create fails c i sz = (r, c') \<Longrightarrow> cache_run c' H"
| find: "cache_run c H \<Longrightarrow> unat start + n < 2 ^ 64 \<Longrightarrow> (\<And>a. count H a + n + 1 < 2 ^ 31) \<Longrightarrow>
    cache_find c i start n = Some (r, b, c') \<Longrightarrow> cache_run c' (H + held b)"
| put: "cache_run c H \<Longrightarrow> held b \<subseteq># H \<Longrightarrow> cache_put c i b = Some (r, c') \<Longrightarrow>
    cache_run c' (if r = - 1 then H else H - held b)"
| update: "cache_run c H \<Longrightarrow> cache_update fails c i start ds = Some (r, c') \<Longrightarrow> cache_run c' H"
| invalidate: "cache_run c H \<Longrightarrow> type = INVALIDATE_TYPE_CODITION_CALLBACK \<longrightarrow> cond \<noteq> None \<Longrightarrow>
    cache_invalidate_by_type c type i start n cond = Some c' \<Longrightarrow> cache_run c' H"
| clear: "cache_run c H \<Longrightarrow> volume_clear_all c i = Some c' \<Longrightarrow> cache_run c' H"

lemma cache_run_ok: "cache_run c H \<Longrightarrow> cache_ok H c"
proof (induction rule: cache_run.induct)
  case init
  then show ?case by (rule cache_init_ok)
next
  case (create c H fails i sz r c')
  then show ?case using volume_create_ok [of H c fails i sz] by simp
next
  case (find c H start n i r b c')
  then show ?case using cache_find_ok [of H c start n i] by auto
next
  case (put c H b i r c')
  then show ?case using cache_put_ok [of H c b i] by (auto split: if_splits)
next
  case (update c H fails i start ds r c')
  then show ?case using cache_update_ok [of H c fails i start ds] by auto
next
  case (invalidate c H type cond i start n c')
  then show ?case using cache_invalidate_by_type_ok [of H c type cond i start n] by auto
next
  case (clear c H i c')
  then show ?case using volume_clear_all_total [of H c i] by auto
qed

lemma leaf_of_list:
  assumes ok: "cache_ok H c" and a: "a \<in> set (lrus (volumes c))"
  shows "\<exists>l. leaves c a = Some l \<and> \<not> tree_leaf_is_delete l"
proof -
  from a obtain v where v: "v \<in> set (volumes c)" "a \<in> set (cv_lru_list v)" by (auto simp: lrus_def)
  with ok have "index_ok (leaves c) (radix_tree_lookup (cv_tree v)) (cv_lru_list v)" by (simp add: cache_ok_def volume_ok_def)
  from index_lru [OF this v(2)] index_okD [OF this] show ?thesis by fastforce
qed

text \<open>A cache with one empty volume, for the examples.\<close>

definition demo_cache :: "nat cache" where
  "demo_cache = snd (volume_create False cache_init 7 10)"

lemma demo_run: "cache_run demo_cache {#}"
  unfolding demo_cache_def using cache_run.create [OF cache_run.init, of False 7 10] by (metis prod.collapse)

lemma demo_find: "volume_find demo_cache 7 = Some (new_volume 7 10)"
  by (simp add: demo_cache_def volume_create_def volume_register_def Let_def volume_find_def cache_init_def new_volume_def
      volid_hash_def VOLID_TABLE_SIZE_def)

section \<open>The effect of an update\<close>

lemma kick_loop_next: "kick_loop cnt tot cond nr as (c, v) = Some (c', v') \<Longrightarrow> next_leaf c' = next_leaf c"
proof (induction as arbitrary: nr c v)
  case (Cons a as)
  then obtain l where l: "leaves c a = Some l" by (cases "leaves c a") auto
  show ?case
  proof (cases "case cond of None \<Rightarrow> False | Some keep \<Rightarrow> keep (leaf_data l)")
    case True
    then show ?thesis using Cons.IH [of nr c v] Cons.prems l by simp
  next
    case False
    with Cons.prems l obtain c1 where d: "drop_leaf a c = Some c1" by (cases "drop_leaf a c") auto
    then show ?thesis
      using Cons.IH [of _ c1] Cons.prems l False drop_leaf_other [OF d] by (auto simp: Let_def split: if_splits)
  qed
qed simp

text \<open>The kick before an update, and then the insertions.\<close>

lemma update_volume_spec:
  assumes g: "good H (c, v)"
  obtains c1 v1 c' v' where
    "(if reclaim (cv_cache_num v) (int (length ds)) (cv_cache_size v) > 0
      then kick_volume (reclaim (cv_cache_num v) (int (length ds)) (cv_cache_size v)) None (c, v) else Some (c, v)) = Some (c1, v1)"
    "update_volume fails start ds (c, v) = Some (if stored fails (next_leaf c) ds = [] \<and> ds \<noteq> [] then - ENOMEM else 0, c', v')"
    "good H (c1, v1)" "vstep H (c, v) H (c', v')" "cached (c1, v1) \<subseteq>\<^sub>m cached (c, v)"
    "cached (c', v') = put_range start (stored fails (next_leaf c) ds) (cached (c1, v1))"
    "cv_cache_num v' \<le> cv_cache_num v1 + int (length ds)"
proof -
  let ?i = "reclaim (cv_cache_num v) (int (length ds)) (cv_cache_size v)"
  obtain c1 v1 where k: "(if ?i > 0 then kick_volume ?i None (c, v) else Some (c, v)) = Some (c1, v1)" "vstep H (c, v) H (c1, v1)"
    "cached (c1, v1) \<subseteq>\<^sub>m cached (c, v)"
    using kick_volume_spec [OF g, of ?i None] vstep_refl [OF g] by (cases "?i > 0") auto
  have n: "next_leaf c1 = next_leaf c"
    using k(1) kick_loop_next by (fastforce simp: kick_volume_def Let_def split: if_splits)
  from update_loop_spec [OF vstep_good [OF k(2)], of fails start ds "- ENOMEM"] obtain c' v' where
    u: "update_loop fails start ds (- ENOMEM) (c1, v1) = Some (if stored fails (next_leaf c) ds = [] \<and> ds \<noteq> [] then - ENOMEM else 0, c', v')"
    "vstep H (c1, v1) H (c', v')" "cached (c', v') = put_range start (stored fails (next_leaf c) ds) (cached (c1, v1))"
    "cv_cache_num v' \<le> cv_cache_num v1 + int (length (stored fails (next_leaf c) ds))"
    unfolding n by blast
  have "int (length (stored fails (next_leaf c) ds)) \<le> int (length ds)" by (simp add: length_stored)
  then have num: "cv_cache_num v' \<le> cv_cache_num v1 + int (length ds)" using u(4) by linarith
  have "update_volume fails start ds (c, v) = Some (if stored fails (next_leaf c) ds = [] \<and> ds \<noteq> [] then - ENOMEM else 0, c', v')"
    using k(1) u(1) by (simp add: update_volume_def Let_def)
  from that [OF k(1) this vstep_good [OF k(2)] vstep_trans [OF k(2) u(2)] k(3) u(3) num] show ?thesis .
qed

text \<open>A run in which a leaf is cached and held.\<close>

lemma demo_held: "\<exists>(c :: nat cache) v a. cache_run c {#a#} \<and> volume_find c 7 = Some v \<and> a \<in> set (cv_lru_list v)"
proof -
  note ok = cache_run_ok [OF demo_run]
  from update_volume_spec [OF find_good [OF ok demo_find], of "[10 :: nat]" "\<lambda>_. False" 5] obtain c0 v0 c1 v1 where
    "update_volume (\<lambda>_. False) 5 [10] (demo_cache, new_volume 7 10)
      = Some (if stored (\<lambda>_. False) (next_leaf demo_cache) [10 :: nat] = [] \<and> [10] \<noteq> ([] :: nat list) then - ENOMEM else 0, c1, v1)"
    "vstep {#} (demo_cache, new_volume 7 10) {#} (c1, v1)"
    "cached (c1, v1) = put_range 5 (stored (\<lambda>_. False) (next_leaf demo_cache) [10 :: nat]) (cached (c0, v0))" .
  then have u: "update_volume (\<lambda>_. False) 5 [10] (demo_cache, new_volume 7 10) = Some (0, c1, v1)"
    "vstep {#} (demo_cache, new_volume 7 10) {#} (c1, v1)" "cached (c1, v1) = (cached (c0, v0))(5 \<mapsto> 10)" by simp_all
  let ?c = "volume_store 7 v1 c1"
  have v1: "cv_volid v1 = 7" using u(2) by (simp add: vstep_def frame_def new_volume_def)
  then have f1: "volume_find ?c 7 = Some v1"
    using u(2) by (intro volume_find_store [OF demo_find _ _ ok]) (simp_all add: vstep_def frame_def)
  have "cache_update (\<lambda>_. False) demo_cache 7 5 [10] = Some (0, ?c)" using u(1) by (simp add: cache_update_def demo_find)
  then have run1: "cache_run ?c {#}" by (rule cache_run.update [OF demo_run])
  note ok1 = cache_run_ok [OF run1]
  from fun_cong [OF u(3), of 5] obtain a where a: "radix_tree_lookup (cv_tree v1) 5 = Some a"
    by (auto simp: cached_def split: bind_splits)
  from find_volume_spec [OF find_good [OF ok1 f1], of 5 1] a obtain c2 v2 where
    f: "find_volume 5 1 (?c, v1) = Some ([Some a], 1, c2, v2)" "vstep {#} (?c, v1) {#a#} (c2, v2)" "cv_tree v2 = cv_tree v1" by auto
  let ?c2 = "volume_store 7 v2 c2"
  have "cache_find ?c 7 5 1 = Some (1, [Some a], ?c2)" using f(1) f1 by (simp add: cache_find_def)
  from cache_run.find [OF run1 _ _ this] have run2: "cache_run ?c2 {#a#}" by simp
  have "cv_volid v2 = 7" using f(2) v1 by (simp add: vstep_def frame_def)
  then have f2: "volume_find ?c2 7 = Some v2"
    using f(2) by (intro volume_find_store [OF f1 _ _ ok1]) (simp_all add: vstep_def frame_def)
  have "a \<in> set (cv_lru_list v2)"
    using good_parts [OF vstep_good [OF f(2)]] a f(3) index_okD [of "leaves c2" "radix_tree_lookup (cv_tree v2)" "cv_lru_list v2" 5 a] by simp
  with run2 f2 show ?thesis by blast
qed

lemma reclaim_eq: "- (2 ^ 31) \<le> x + n - uint s \<Longrightarrow> x + n - uint s < 2 ^ 31 \<Longrightarrow> uint s < 2 ^ 31 \<Longrightarrow>
    reclaim x n s = min (x + n - uint s) (uint s)"
proof -
  assume b: "- (2 ^ 31) \<le> x + n - uint s" "x + n - uint s < 2 ^ 31" "uint s < 2 ^ 31"
  have "of_int (x + n) - s = (of_int (x + n - uint s) :: u32)" by simp
  then have "sint (of_int (x + n) - s) = x + n - uint s"
    using b(1,2) by (simp only: signed_of_int) (simp add: signed_take_bit_int_eq_self)
  moreover have "sint s = uint s"
    using b(3) order_trans [of "- (2 ^ 31)" 0 "uint s"] by (simp add: sint_uint signed_take_bit_int_eq_self)
  ultimately show ?thesis by (auto simp: reclaim_def Let_def)
qed

lemma update_bound:
  assumes g: "good H (c, v)" and u: "update_volume fails start ds (c, v) = Some (ret, c', v')"
    and num: "cv_cache_num v \<le> uint (cv_cache_size v)" and sz: "uint (cv_cache_size v) < 2 ^ 30" "length ds < 2 ^ 30"
  shows "cv_cache_num v' \<le> max (uint (cv_cache_size v)) (int (length ds))"
proof -
  let ?n = "cv_cache_num v" and ?d = "int (length ds)" and ?s = "uint (cv_cache_size v)"
  let ?i = "min (?n + ?d - ?s) ?s"
  have n: "?n = int (length (cv_lru_list v))" using good_parts [OF g] by simp
  have i: "reclaim ?n ?d (cv_cache_size v) = ?i" using num sz n by (intro reclaim_eq) auto
  from update_volume_spec [OF g, of ds fails start, unfolded i] obtain c1 v1 c2 v2 where
    k: "(if ?i > 0 then kick_volume ?i None (c, v) else Some (c, v)) = Some (c1, v1)"
      "update_volume fails start ds (c, v) = Some (if stored fails (next_leaf c) ds = [] \<and> ds \<noteq> [] then - ENOMEM else 0, c2, v2)"
      "good H (c1, v1)" "cv_cache_num v2 \<le> cv_cache_num v1 + ?d" .
  from k(2) u have "v2 = v'" by simp
  show ?thesis
  proof (cases "?i > 0")
    case True
    with k(1) have "kick_volume ?i None (c, v) = Some (c1, v1)" by simp
    from kick_volume_lru(2) [OF g this True] have "length (cv_lru_list v1) = length (cv_lru_list v) - nat ?i"
      using sz num n by auto
    then have "cv_cache_num v1 = max 0 (?n - ?i)" using good_parts [OF k(3)] n True by (simp add: of_nat_diff max_def nat_le_iff)
    then show ?thesis using k(4) num \<open>v2 = v'\<close> by auto
  next
    case False
    with k(1) have "v1 = v" by (simp only: if_False option.inject prod.inject)
    then show ?thesis using k(4) False num \<open>v2 = v'\<close> by auto
  qed
qed

section \<open>Properties\<close>

text \<open>C3: In a run, whatever the callers do next, no operation of the cache uses a freed leaf or
  fails a \<open>BUG_ON\<close>: updates, lookups, puts of what is held, invalidations of each type
  and the release of a volume all return.\<close>

theorem cache_run_no_fault:
  assumes run: "cache_run c H" and few: "\<forall>a. count H a + n + 1 < 2 ^ 31" "unat start + n < 2 ^ 64" and b: "held b \<subseteq># H"
    and t: "type = INVALIDATE_TYPE_CODITION_CALLBACK \<longrightarrow> cond \<noteq> None"
  shows "cache_update fails c i start ds \<noteq> None \<and> cache_find c i start n \<noteq> None \<and> cache_put c i b \<noteq> None
    \<and> cache_invalidate_by_type c type i start n cond \<noteq> None \<and> volume_clear_all c i \<noteq> None"
proof -
  note ok = cache_run_ok [OF run]
  show ?thesis
    using cache_update_ok [OF ok, of fails i start ds] cache_find_ok [OF ok few(2), of i] few(1) cache_put_ok [OF ok b, of i]
      cache_invalidate_by_type_ok [OF ok t, of i start n] volume_clear_all_total [OF ok, of i] by auto
qed

theorem cache_run_no_fault_witness:
  "cache_update (\<lambda>_. False) demo_cache 7 5 [1, 2] \<noteq> None \<and> cache_find demo_cache 7 5 2 \<noteq> None
   \<and> cache_put demo_cache 7 [None] \<noteq> None
   \<and> cache_invalidate_by_type demo_cache 3 7 5 2 (Some (\<lambda>_. True)) \<noteq> None \<and> volume_clear_all demo_cache 7 \<noteq> None"
  by (rule cache_run_no_fault [OF demo_run]) simp_all



text \<open>C30: \<open>cache_find\<close> returns for each block of the window the leaf that the index has for it
  (and NULL where it has none), the number of them, and does not change the cached data.\<close>

theorem cache_find_exact:
  assumes run: "cache_run c H" and v: "volume_find c i = Some v"
    and n: "unat start + n < 2 ^ 64" and few: "\<forall>a. count H a + n + 1 < 2 ^ 31"
  shows "\<exists>c' v'. cache_find c i start n = Some
      (int (length (filter (\<lambda>p. radix_tree_lookup (cv_tree v) (start + of_nat p) \<noteq> None) [0..<n])),
       map (\<lambda>p. radix_tree_lookup (cv_tree v) (start + of_nat p)) [0..<n], c')
    \<and> volume_find c' i = Some v' \<and> cached (c', v') = cached (c, v)"
proof -
  note ok = cache_run_ok [OF run]
  let ?L = "\<lambda>p. radix_tree_lookup (cv_tree v) (start + of_nat p)"
  from find_volume_spec [OF find_good [OF ok v] n] few obtain c' v' where
    f: "find_volume start n (c, v) = Some (map ?L [0..<n], size (held (map ?L [0..<n])), c', v')"
    "vstep H (c, v) (H + held (map ?L [0..<n])) (c', v')" "cached (c', v') = cached (c, v)" by blast
  have size: "size (held (map ?L [0..<n])) = length (filter (\<lambda>p. ?L p \<noteq> None) [0..<n])"
    unfolding held_map items_def List.map_filter_def by (simp only: size_mset length_map)
  have "cv_volid v = i" using v volume_split [of c i v] ok by (metis cache_ok_def)
  then have vf: "volume_find (volume_store i v' c') i = Some v'"
    using f(2) by (intro volume_find_store [OF v _ _ ok]) (simp_all add: vstep_def frame_def)
  have "cached (volume_store i v' c', v') = cached (c', v')"
    by (simp add: fun_eq_iff cached_def volume_store_def change_bucket_def Let_def)
  with f size vf v show ?thesis by (simp add: cache_find_def)
qed

theorem cache_find_exact_witness:
  "\<exists>c' v'. cache_find demo_cache 7 5 2 = Some
      (int (length (filter (\<lambda>p. radix_tree_lookup (cv_tree (new_volume 7 10)) (5 + of_nat p) \<noteq> None) [0..<2])),
       map (\<lambda>p. radix_tree_lookup (cv_tree (new_volume 7 10)) (5 + of_nat p)) [0..<2], c')
    \<and> volume_find c' 7 = Some v' \<and> cached (c', v') = cached (demo_cache, new_volume 7 10)"
  by (rule cache_find_exact [OF demo_run demo_find]) simp_all

text \<open>C31: \<open>cache_update\<close> on the cached data: some blocks are reclaimed first (what is left, \<open>m\<close>, is part
  of the data), then the given data is cached at consecutive blocks, up to the first
  allocation that fails.  It returns \<open>-ENOMEM\<close> only when nothing at all was cached:
  when a later allocation fails it returns 0, as for a complete update.\<close>

theorem cache_update_effect:
  assumes run: "cache_run c H" and v: "volume_find c i = Some v"
  shows "\<exists>c' v' m. cache_update fails c i start ds
      = Some (if stored fails (next_leaf c) ds = [] \<and> ds \<noteq> [] then - ENOMEM else 0, c')
    \<and> volume_find c' i = Some v' \<and> m \<subseteq>\<^sub>m cached (c, v)
    \<and> cached (c', v') = put_range start (stored fails (next_leaf c) ds) m"
proof -
  note ok = cache_run_ok [OF run]
  from update_volume_spec [OF find_good [OF ok v], of ds fails start] obtain c1 v1 c' v' where
    u: "update_volume fails start ds (c, v) = Some (if stored fails (next_leaf c) ds = [] \<and> ds \<noteq> [] then - ENOMEM else 0, c', v')"
    "vstep H (c, v) H (c', v')" "cached (c1, v1) \<subseteq>\<^sub>m cached (c, v)"
    "cached (c', v') = put_range start (stored fails (next_leaf c) ds) (cached (c1, v1))" .
  have "cv_volid v = i" using v volume_split [of c i v] ok by (metis cache_ok_def)
  then have vf: "volume_find (volume_store i v' c') i = Some v'"
    using u(2) by (intro volume_find_store [OF v _ _ ok]) (simp_all add: vstep_def frame_def)
  have e: "cached (volume_store i v' c', v') = cached (c', v')"
    by (simp add: fun_eq_iff cached_def volume_store_def change_bucket_def Let_def)
  have "cache_update fails c i start ds = Some (if stored fails (next_leaf c) ds = [] \<and> ds \<noteq> [] then - ENOMEM else 0, volume_store i v' c')"
    using u(1) v by (simp add: cache_update_def)
  with vf u(3,4) e show ?thesis by metis
qed

theorem cache_update_effect_witness:
  "\<exists>c' v' m. cache_update (\<lambda>a. a = 1) demo_cache 7 5 [10, 20] = Some (0, c')
    \<and> volume_find c' 7 = Some v' \<and> m \<subseteq>\<^sub>m cached (demo_cache, new_volume 7 10)
    \<and> cached (c', v') = put_range 5 [10] m"
  using cache_update_effect [OF demo_run demo_find, of "\<lambda>a. a = 1" 5 "[10, 20]"]
  by (simp add: demo_cache_def volume_create_def volume_register_def Let_def cache_init_def)

text \<open>The size of a volume's cache: a volume within its limit stays within it after an update, unless
  the update alone is larger than the limit, and then it holds at most the update.\<close>

theorem cache_update_size:
  assumes run: "cache_run c H" and v: "volume_find c i = Some v"
    and num: "cv_cache_num v \<le> uint (cv_cache_size v)" and sz: "uint (cv_cache_size v) < 2 ^ 30" "length ds < 2 ^ 30"
  shows "\<exists>ret c' v'. cache_update fails c i start ds = Some (ret, c') \<and> volume_find c' i = Some v'
    \<and> cv_cache_num v' \<le> max (uint (cv_cache_size v)) (int (length ds))"
proof -
  note ok = cache_run_ok [OF run]
  note g = find_good [OF ok v]
  from update_volume_ok [OF g, of fails start ds] obtain ret c' v' where
    u: "update_volume fails start ds (c, v) = Some (ret, c', v')" "vstep H (c, v) H (c', v')" .
  have "cv_volid v = i" using v volume_split [of c i v] ok by (metis cache_ok_def)
  then have "volume_find (volume_store i v' c') i = Some v'"
    using u(2) by (intro volume_find_store [OF v _ _ ok]) (simp_all add: vstep_def frame_def)
  moreover have "cache_update fails c i start ds = Some (ret, volume_store i v' c')"
    using u(1) v by (simp add: cache_update_def)
  ultimately show ?thesis using update_bound [OF g u(1) num sz] by blast
qed

theorem cache_update_size_witness:
  "\<exists>ret c' v'. cache_update (\<lambda>_. False) demo_cache 7 5 (replicate 12 0) = Some (ret, c') \<and> volume_find c' 7 = Some v'
    \<and> cv_cache_num v' \<le> 12"
  using cache_update_size [OF demo_run demo_find, of "replicate 12 0" "\<lambda>_. False" 5] by (simp add: new_volume_def)

text \<open>A kick of \<open>n\<close> leaves takes exactly the \<open>n\<close> least recently used ones, the end of the list, and
  of the other leaves none; a kick with -1 and a condition keeps exactly the leaves it holds for.\<close>

theorem kick_meta_cache_lru:
  assumes run: "cache_run c H" and v: "volume_find c i = Some v" and n: "0 < n" "n < 2 ^ 32"
  shows "\<exists>c1 v1 c2 v2. kick_meta_cache c i n None = Some c1 \<and> volume_find c1 i = Some v1
      \<and> cv_lru_list v1 = take (length (cv_lru_list v) - nat n) (cv_lru_list v)
    \<and> kick_meta_cache c i (- 1) (Some keep) = Some c2 \<and> volume_find c2 i = Some v2
      \<and> cv_lru_list v2 = filter (\<lambda>a. \<exists>l. leaves c a = Some l \<and> keep (leaf_data l)) (cv_lru_list v)"
proof -
  note ok = cache_run_ok [OF run]
  note g = find_good [OF ok v]
  have id: "cv_volid v = i" using v volume_split [of c i v] ok by (metis cache_ok_def)
  have found: "\<exists>d. kick_meta_cache c i cnt cond = Some d \<and> volume_find d i = Some v'"
    if "kick_volume cnt cond (c, v) = Some (c', v')" "vstep H (c, v) H (c', v')" for cnt cond c' v'
    using that v id volume_find_store [OF v _ _ ok, of v' c']
    by (simp add: kick_meta_cache_def on_volume_def vstep_def frame_def)
  from kick_volume_spec [OF g, of n None] obtain c1 v1 where k1: "kick_volume n None (c, v) = Some (c1, v1)"
    "vstep H (c, v) H (c1, v1)" by blast
  from kick_volume_spec [OF g, of "- 1" "Some keep"] obtain c2 v2 where k2: "kick_volume (- 1) (Some keep) (c, v) = Some (c2, v2)"
    "vstep H (c, v) H (c2, v2)" by blast
  have "kept (Some keep) c = (\<lambda>a. \<exists>l. leaves c a = Some l \<and> keep (leaf_data l))"
    by (simp add: fun_eq_iff kept_def split: option.split)
  then show ?thesis
    using found [OF k1] found [OF k2] kick_volume_lru(2) [OF g k1(1) n refl] kick_volume_lru(1) [OF g k2(1) refl] by auto
qed

theorem kick_meta_cache_lru_witness:
  "\<exists>c1 v1 c2 v2. kick_meta_cache demo_cache 7 1 None = Some c1 \<and> volume_find c1 7 = Some v1
      \<and> cv_lru_list v1 = take (length (cv_lru_list (new_volume 7 10)) - nat 1) (cv_lru_list (new_volume 7 10))
    \<and> kick_meta_cache demo_cache 7 (- 1) (Some even) = Some c2 \<and> volume_find c2 7 = Some v2
      \<and> cv_lru_list v2 = filter (\<lambda>a. \<exists>l. leaves demo_cache a = Some l \<and> even (leaf_data l)) (cv_lru_list (new_volume 7 10))"
  by (rule kick_meta_cache_lru [OF demo_run demo_find]) simp_all

text \<open>A leaf that a caller holds outlives its volume: after \<open>volume_clear_all\<close> it is still allocated
  and marked, and when no volume with the id is left, a put does not release it.\<close>

theorem held_leaf_outlives_volume:
  assumes run: "cache_run c H" and v: "volume_find c i = Some v" and a: "a \<in># H" "a \<in> set (cv_lru_list v)"
  shows "\<exists>c'. volume_clear_all c i = Some c' \<and> (\<exists>l. leaves c' a = Some l \<and> tree_leaf_is_delete l)
    \<and> (volume_find c' i = None \<longrightarrow> cache_put c' i [Some a] = Some (- 1, c'))"
proof -
  note ok = cache_run_ok [OF run]
  from volume_clear_all_ok [OF ok v] obtain c' A B where c': "volume_clear_all c i = Some c'" "cache_ok H c'"
    "volumes c = A @ v # B" "volumes c' = A @ B" .
  have "a \<notin> set (lrus (volumes c'))" using ok a(2) by (auto simp: cache_ok_def c'(3,4))
  moreover from c'(2) have r: "refs_ok H (leaves c')" by (simp add: cache_ok_def)
  moreover from refs_None [OF r, of a] a(1) obtain l where "leaves c' a = Some l"
    by (cases "leaves c' a") (auto simp: count_eq_zero_iff)
  ultimately have "\<exists>l. leaves c' a = Some l \<and> tree_leaf_is_delete l" using c'(2) by (auto simp: cache_ok_def)
  then show ?thesis using c'(1) by (simp add: cache_put_def)
qed

theorem held_leaf_outlives_volume_witness:
  "\<exists>(c :: nat cache) a c'. a \<in># {#a#} \<and> volume_clear_all c 7 = Some c' \<and> (\<exists>l. leaves c' a = Some l \<and> tree_leaf_is_delete l)
    \<and> (volume_find c' 7 = None \<longrightarrow> cache_put c' 7 [Some a] = Some (- 1, c'))"
proof -
  from demo_held obtain c :: "nat cache" and v a where h: "cache_run c {#a#}" "volume_find c 7 = Some v" "a \<in> set (cv_lru_list v)"
    by blast
  from held_leaf_outlives_volume [OF h(1,2) _ h(3)] obtain c' where "volume_clear_all c 7 = Some c'"
    "\<exists>l. leaves c' a = Some l \<and> tree_leaf_is_delete l" "volume_find c' 7 = None \<longrightarrow> cache_put c' 7 [Some a] = Some (- 1, c')"
    by auto
  then show ?thesis by (rule_tac exI [of _ c], rule_tac exI [of _ a], rule_tac exI [of _ c']) simp
qed

text \<open>The hit counter counts the first \<open>n\<close> cached blocks from the start of the window on, those
  beyond the window too, which are not returned; a lookup that finds no block at all
  counts no miss either.\<close>

theorem cache_find_miscounts_hits:
  assumes run: "cache_run c H" and v: "volume_find c i = Some v"
    and n: "unat start + n < 2 ^ 64" and few: "\<forall>a. count H a + n + 1 < 2 ^ 31"
  defines "hits \<equiv> length (take n (items (\<lambda>p. radix_tree_lookup (cv_tree v) (of_nat p)) (unat start) (2 ^ 64)))"
  shows "\<exists>ret b c' v'. cache_find c i start n = Some (ret, b, c') \<and> volume_find c' i = Some v'
    \<and> cv_m_hit v' = cv_m_hit v + of_nat hits
    \<and> cv_m_miss v' = cv_m_miss v + (if hits = 0 then 0 else of_nat (n - hits))"
proof -
  note ok = cache_run_ok [OF run]
  note g = find_good [OF ok v]
  from find_volume_spec [OF g n] few obtain b c' v' where
    f: "find_volume start n (c, v) = Some (b, size (held b), c', v')" "vstep H (c, v) (H + held b) (c', v')" by blast
  have "cv_volid v = i" using v volume_split [of c i v] ok by (metis cache_ok_def)
  then have "volume_find (volume_store i v' c') i = Some v'"
    using f(2) by (intro volume_find_store [OF v _ _ ok]) (simp_all add: vstep_def frame_def)
  moreover have "cache_find c i start n = Some (int (size (held b)), b, volume_store i v' c')"
    using f(1) v by (simp add: cache_find_def)
  moreover have "rt_wf (cv_tree v)" using good_parts [OF g] by simp
  ultimately show ?thesis using find_volume_stat [OF _ f(1)] unfolding hits_def by blast
qed

theorem cache_find_miscounts_hits_witness:
  "\<exists>ret b c' v'. cache_find demo_cache 7 5 2 = Some (ret, b, c') \<and> volume_find c' 7 = Some v'
    \<and> cv_m_hit v' = cv_m_hit (new_volume 7 10)
      + of_nat (length (take 2 (items (\<lambda>p. radix_tree_lookup (cv_tree (new_volume 7 10)) (of_nat p)) (unat (5 :: u64)) (2 ^ 64))))
    \<and> cv_m_miss v' = cv_m_miss (new_volume 7 10)
      + (if length (take 2 (items (\<lambda>p. radix_tree_lookup (cv_tree (new_volume 7 10)) (of_nat p)) (unat (5 :: u64)) (2 ^ 64))) = 0 then 0
         else of_nat (2 - length (take 2 (items (\<lambda>p. radix_tree_lookup (cv_tree (new_volume 7 10)) (of_nat p)) (unat (5 :: u64)) (2 ^ 64)))))"
  by (rule cache_find_miscounts_hits [OF demo_run demo_find]) simp_all

end
