(* ===== verification/Daemon_List.thy ===== *)
theory Daemon_List
  imports Sock_Xmit
begin

text \<open>
  The list of attachments of the user-space daemon (\<open>Client_Daemon.c\<close>,
  \<open>Client_Daemon_Skeleton.c\<close>): a linked list with a dummy head and the global pointer
  \<open>list_last\<close> to its last node, in an explicit store of nodes, and the text file it is
  saved to and loaded from.  The abstraction \<open>holds_list\<close> gives the list of attachments
  that the nodes stand for.

  A read through a pointer without a node, and a loop that does not end, is \<open>None\<close>;
  \<open>malloc\<close> succeeds.
\<close>

section \<open>The nodes\<close>

record VolAttachInfo =
  va_VolumeID :: u64            \<comment> \<open>\<open>unsigned long\<close>\<close>
  va_InstanceID :: string
  va_next :: "nat option"

record attach_list =
  al_heap :: "nat \<rightharpoonup> VolAttachInfo"
  al_last :: nat                \<comment> \<open>\<open>list_last\<close>\<close>
  al_new :: nat                 \<comment> \<open>the address of the next allocation\<close>

definition set_next :: "nat \<Rightarrow> nat option \<Rightarrow> attach_list \<Rightarrow> attach_list option" where
  "set_next c p s =
     (case al_heap s c of
        None \<Rightarrow> None
      | Some n \<Rightarrow> Some (s\<lparr>al_heap := (al_heap s)(c \<mapsto> n\<lparr>va_next := p\<rparr>)\<rparr>))"

definition new_node :: "u64 \<Rightarrow> string \<Rightarrow> attach_list \<Rightarrow> nat \<times> attach_list" where
  "new_node volid inst s =
     (al_new s, s\<lparr>al_heap := (al_heap s)(al_new s \<mapsto> \<lparr>va_VolumeID = volid, va_InstanceID = inst, va_next = None\<rparr>),
                  al_new := al_new s + 1\<rparr>)"

section \<open>Query, add, remove\<close>

partial_function (option) query_loop :: "(nat \<rightharpoonup> VolAttachInfo) \<Rightarrow> u64 \<Rightarrow> nat \<Rightarrow> nat option option" where
  "query_loop h volid c =
     (case h c of
        None \<Rightarrow> None
      | Some n \<Rightarrow>
          (case va_next n of
             None \<Rightarrow> Some None
           | Some c \<Rightarrow>
               (case h c of
                  None \<Rightarrow> None
                | Some m \<Rightarrow> if va_VolumeID m = volid then Some (Some c) else query_loop h volid c)))"

definition QueryAttachInfo :: "nat \<Rightarrow> int \<Rightarrow> attach_list \<Rightarrow> nat option option" where
  "QueryAttachInfo list volid s = query_loop (al_heap s) (word_of_int volid) list"

text \<open>The new node goes behind \<open>list_last\<close>; the list itself is not looked at.\<close>

definition AddAttachToList :: "int \<Rightarrow> string \<Rightarrow> attach_list \<Rightarrow> (nat \<times> attach_list) option" where
  "AddAttachToList volid instID s = do {
     let (a, s) = new_node (word_of_int volid) instID s;
     s \<leftarrow> set_next (al_last s) (Some a) s;
     Some (a, s\<lparr>al_last := a\<rparr>) }"

partial_function (option) remove_loop :: "u64 \<Rightarrow> nat \<Rightarrow> attach_list \<Rightarrow> (nat option \<times> attach_list) option" where
  "remove_loop volid c s =
     (case al_heap s c of
        None \<Rightarrow> None
      | Some n \<Rightarrow>
          (case va_next n of
             None \<Rightarrow> Some (None, s)
           | Some d \<Rightarrow>
               (case al_heap s d of
                  None \<Rightarrow> None
                | Some m \<Rightarrow>
                    if va_VolumeID m = volid then
                      (case va_next m of
                         Some e \<Rightarrow> do { s \<leftarrow> set_next c (Some e) s; s \<leftarrow> set_next d None s; Some (Some d, s) }
                       | None \<Rightarrow> do { s \<leftarrow> set_next c None s; Some (Some d, s\<lparr>al_last := c\<rparr>) })
                    else remove_loop volid d s)))"

definition RemoveAttachFromList :: "nat \<Rightarrow> int \<Rightarrow> attach_list \<Rightarrow> (nat option \<times> attach_list) option" where
  "RemoveAttachFromList list volid s = remove_loop (word_of_int volid) list s"

section \<open>The file\<close>

text \<open>\<open>fprintf(f, "%d %s\n")\<close>: the \<open>unsigned long\<close> is printed as an \<open>int\<close>.\<close>

definition attach_line :: "u64 \<Rightarrow> string \<Rightarrow> string" where
  "attach_line volid inst = sprintf_d (c_int (uint volid)) @ '' '' @ inst @ [CHR 0x0A]"

partial_function (option) save_loop :: "(nat \<rightharpoonup> VolAttachInfo) \<Rightarrow> nat \<Rightarrow> string \<Rightarrow> string option" where
  "save_loop h c out =
     (case h c of
        None \<Rightarrow> None
      | Some n \<Rightarrow>
          (case va_next n of
             None \<Rightarrow> Some out
           | Some c \<Rightarrow>
               (case h c of
                  None \<Rightarrow> None
                | Some m \<Rightarrow> save_loop h c (out @ attach_line (va_VolumeID m) (va_InstanceID m)))))"

text \<open>The result and the new contents of the file; \<open>can_open\<close> is the answer of \<open>fopen\<close>.\<close>

definition SaveAttachInfoToFile :: "bool \<Rightarrow> nat \<Rightarrow> attach_list \<Rightarrow> string \<Rightarrow> (int \<times> string) option" where
  "SaveAttachInfoToFile can_open list s file =
     (if can_open then do { out \<leftarrow> save_loop (al_heap s) list []; Some (1, out) } else Some (0, file))"

text \<open>\<open>fgets(buf, n + 1, f)\<close>: at most \<open>n\<close> characters, up to the end of the line.\<close>

fun fgets :: "nat \<Rightarrow> string \<Rightarrow> string \<times> string" where
  "fgets 0 cs = ([], cs)"
| "fgets (Suc n) [] = ([], [])"
| "fgets (Suc n) (c # cs) =
     (if c = CHR 0x0A then ([c], cs) else (case fgets n cs of (l, r) \<Rightarrow> (c # l, r)))"

lemma fgets_shorter: "List.length (snd (fgets n cs)) \<le> List.length cs"
  by (induction n cs rule: fgets.induct) (auto split: prod.splits)

lemma fgets_next: "cs \<noteq> [] \<Longrightarrow> List.length (snd (fgets (Suc n) cs)) < List.length cs"
  using fgets_shorter [of n "tl cs"] by (cases cs) (auto split: prod.splits)

lemma fgets_255: "fgets 255 cs = (l, r) \<Longrightarrow> cs \<noteq> [] \<Longrightarrow> List.length r < List.length cs"
proof -
  assume "fgets 255 cs = (l, r)" and "cs \<noteq> []"
  moreover have "(255 :: nat) = Suc 254" by simp
  ultimately show ?thesis using fgets_next [of cs 254] by (metis snd_conv)
qed

text \<open>\<open>sscanf(buf, "%d %s\n", &volid, instID)\<close>: a conversion that fails ends it and leaves
  its variable; a number beyond \<open>int\<close> is reduced modulo 2^32.\<close>

definition scan_int :: "string \<Rightarrow> (int \<times> string) option" where
  "scan_int cs =
     (let cs = dropWhile isspace cs;
          neg = (cs \<noteq> [] \<and> hd cs = CHR ''-'');
          cs = (if cs \<noteq> [] \<and> hd cs \<in> {CHR ''-'', CHR ''+''} then tl cs else cs)
      in if cs \<noteq> [] \<and> isdigit (hd cs)
         then (case read_number 0 cs of (v, r) \<Rightarrow> Some (if neg then c_int (- v) else v, r))
         else None)"

definition scan_line :: "string \<Rightarrow> int \<times> string option \<Rightarrow> int \<times> string option" where
  "scan_line buf = (\<lambda>(volid, inst).
     (case scan_int buf of
        None \<Rightarrow> (volid, inst)
      | Some (v, r) \<Rightarrow>
          (let w = takeWhile (\<lambda>c. \<not> isspace c) (dropWhile isspace r)
           in (v, if w = [] then inst else Some w))))"

text \<open>
  The loop over the lines; \<open>volid\<close> and \<open>instID\<close> keep their values from line to line.
  \<open>instID\<close> has 64 bytes, and before the first \<open>%s\<close> it is not initialised (\<open>None\<close>).
\<close>

function load_loop :: "string \<Rightarrow> nat \<Rightarrow> int \<times> string option \<Rightarrow> attach_list \<Rightarrow> attach_list option" where
  "load_loop file c v s =
     (if file = [] then Some s
      else
        let (buff, rest) = fgets 255 file;
            (volid, instID) = scan_line buff v
        in if instID \<noteq> None \<and> List.length (the instID) > 63 then None
           else if volid > - 1 then
             (case instID of
                None \<Rightarrow> None
              | Some inst \<Rightarrow>
                  let (curr, s) = new_node (word_of_int volid) inst s
                  in (case set_next c (Some curr) s of
                        None \<Rightarrow> None
                      | Some s \<Rightarrow> load_loop rest curr (volid, instID) (s\<lparr>al_last := curr\<rparr>)))
           else load_loop rest c (volid, instID) s)"
  by pat_completeness auto
termination
  by (relation "measure (\<lambda>(file, _). List.length file)") (auto intro: fgets_255 [OF sym])

declare load_loop.simps [simp del]

text \<open>\<open>file = None\<close>: it does not exist and is created when \<open>can_create\<close>.\<close>

definition LoadAttachInfoFromFile :: "bool \<Rightarrow> nat \<Rightarrow> string option \<Rightarrow> attach_list \<Rightarrow> (int \<times> attach_list) option" where
  "LoadAttachInfoFromFile can_create list file s =
     (case file of
        None \<Rightarrow> Some (if can_create then 1 else 0, s)
      | Some cs \<Rightarrow> do { s \<leftarrow> load_loop cs list (- 1, None) s; Some (1, s) })"

text \<open>The empty list of \<open>initialize\<close>.\<close>

definition init_list :: "nat \<times> attach_list" where
  "init_list = (0, \<lparr>al_heap = [0 \<mapsto> \<lparr>va_VolumeID = - 1, va_InstanceID = [], va_next = None\<rparr>], al_last = 0, al_new = 1\<rparr>)"

section \<open>The list that the nodes stand for\<close>

fun path :: "(nat \<rightharpoonup> VolAttachInfo) \<Rightarrow> nat option \<Rightarrow> nat list \<Rightarrow> bool" where
  "path h p [] \<longleftrightarrow> p = None"
| "path h p (a # as) \<longleftrightarrow> p = Some a \<and> (\<exists>n. h a = Some n \<and> path h (va_next n) as)"

definition ids :: "VolAttachInfo \<Rightarrow> u64 \<times> string" where
  "ids n = (va_VolumeID n, va_InstanceID n)"

lemma ids_next [simp]: "ids (n\<lparr>va_next := p\<rparr>) = ids n"
  by (simp add: ids_def)

definition contents :: "attach_list \<Rightarrow> nat list \<Rightarrow> (u64 \<times> string) list" where
  "contents s as = map (\<lambda>a. ids (the (al_heap s a))) as"

text \<open>From node \<open>c\<close> the nodes \<open>as\<close> follow, and \<open>list_last\<close> is the last of them.\<close>

definition chain :: "nat \<Rightarrow> attach_list \<Rightarrow> nat list \<Rightarrow> bool" where
  "chain c s as \<longleftrightarrow> (\<exists>n. al_heap s c = Some n \<and> path (al_heap s) (va_next n) as) \<and> distinct (c # as) \<and>
     al_last s = last (c # as)"

definition holds_list :: "nat \<Rightarrow> attach_list \<Rightarrow> (u64 \<times> string) list \<Rightarrow> bool" where
  "holds_list list s xs \<longleftrightarrow> (\<exists>as. chain list s as \<and> contents s as = xs) \<and> (\<forall>a \<ge> al_new s. al_heap s a = None)"

lemma chain_Nil: "chain c s [] \<longleftrightarrow> (\<exists>n. al_heap s c = Some n \<and> va_next n = None) \<and> al_last s = c"
  by (auto simp: chain_def)

lemma chain_Cons:
  "chain c s (d # as) \<longleftrightarrow> (\<exists>n. al_heap s c = Some n \<and> va_next n = Some d) \<and> chain d s as \<and> c \<notin> set (d # as)"
  by (auto simp: chain_def)

lemma path_in_heap: "path h p as \<Longrightarrow> a \<in> set as \<Longrightarrow> h a \<noteq> None"
  by (induction as arbitrary: p) auto

lemma chain_in_heap: "chain c s as \<Longrightarrow> a \<in> set (c # as) \<Longrightarrow> al_heap s a \<noteq> None"
  unfolding chain_def using path_in_heap by fastforce

lemma holds_init: "holds_list (fst init_list) (snd init_list) []"
  unfolding holds_list_def by (intro conjI exI [of _ "[]"]) (auto simp: init_list_def chain_def contents_def)

section \<open>The operations on the list\<close>

definition is_vol :: "attach_list \<Rightarrow> u64 \<Rightarrow> nat \<Rightarrow> bool" where
  "is_vol s w a \<longleftrightarrow> fst (ids (the (al_heap s a))) = w"

lemma query_loop_chain:
  "chain c s as \<Longrightarrow> query_loop (al_heap s) w c = Some (find (is_vol s w) as)"
proof (induction as arbitrary: c)
  case Nil
  then show ?case by (subst query_loop.simps) (auto simp: chain_Nil)
next
  case (Cons d as)
  then obtain m where "al_heap s d = Some m" using chain_in_heap [OF Cons.prems, of d] by auto
  then have "is_vol s w d \<longleftrightarrow> va_VolumeID m = w" by (simp add: is_vol_def ids_def)
  with Cons \<open>al_heap s d = Some m\<close> show ?case by (subst query_loop.simps) (auto simp: chain_Cons)
qed

lemma find_contents:
  "map_option (\<lambda>a. ids (the (al_heap s a))) (find (is_vol s w) as) = find (\<lambda>x. fst x = w) (contents s as)"
  by (induction as) (auto simp: contents_def is_vol_def)

lemma Query_spec:
  assumes "holds_list list s xs"
  shows "\<exists>r. QueryAttachInfo list volid s = Some r \<and>
    map_option (\<lambda>a. ids (the (al_heap s a))) r = find (\<lambda>x. fst x = word_of_int volid) xs"
proof -
  obtain as where "chain list s as" "contents s as = xs" using assms by (auto simp: holds_list_def)
  with query_loop_chain find_contents show ?thesis unfolding QueryAttachInfo_def by blast
qed

text \<open>Adding behind the last node.\<close>

lemma chain_snoc:
  assumes "chain c s as" and "al_heap s a = None" and "al_heap s (al_last s) = Some m" and "va_next x = None"
  shows "chain c (s\<lparr>al_heap := (al_heap s)(a \<mapsto> x, al_last s \<mapsto> m\<lparr>va_next := Some a\<rparr>), al_last := a\<rparr>) (as @ [a])"
  using assms(1)
proof (induction as arbitrary: c)
  case Nil
  with assms(2-4) show ?case by (auto simp: chain_def)
next
  case (Cons d as)
  have "a \<notin> set (c # d # as)" using chain_in_heap [OF Cons.prems, of a] assms(2) by blast
  then have "c \<noteq> a" "a \<notin> set (d # as)" by auto
  moreover have "c \<noteq> al_last s" using Cons.prems by (auto simp: chain_def split: if_splits)
  ultimately show ?case using Cons.IH [of d] Cons.prems by (auto simp: chain_Cons)
qed

lemma AddAttach_spec:
  assumes "holds_list list s xs"
  shows "\<exists>a s'. AddAttachToList volid inst s = Some (a, s') \<and> holds_list list s' (xs @ [(word_of_int volid, inst)]) \<and>
     al_last s' = a"
proof -
  obtain as where as: "chain list s as" "contents s as = xs" and new: "\<forall>a \<ge> al_new s. al_heap s a = None"
    using assms by (auto simp: holds_list_def)
  let ?a = "al_new s" and ?x = "\<lparr>va_VolumeID = word_of_int volid, va_InstanceID = inst, va_next = None\<rparr>"
  have ina: "al_last s \<in> set (list # as)" using as(1) by (auto simp: chain_def)
  then obtain m where m: "al_heap s (al_last s) = Some m" using chain_in_heap [OF as(1)] by blast
  have ne: "al_last s \<noteq> ?a" using m new by auto
  let ?s = "s\<lparr>al_heap := (al_heap s)(?a \<mapsto> ?x, al_last s \<mapsto> m\<lparr>va_next := Some ?a\<rparr>), al_last := ?a\<rparr>"
  have add: "AddAttachToList volid inst s = Some (?a, ?s\<lparr>al_new := ?a + 1\<rparr>)"
    using m ne by (simp add: AddAttachToList_def new_node_def set_next_def)
  have "chain list ?s (as @ [?a])" using chain_snoc [OF as(1) _ m] new by simp
  then have ch: "chain list (?s\<lparr>al_new := ?a + 1\<rparr>) (as @ [?a])" by (simp add: chain_def)
  have "?a \<notin> set as" using chain_in_heap [OF as(1)] new by fastforce
  then have "contents (?s\<lparr>al_new := ?a + 1\<rparr>) (as @ [?a]) = xs @ [(word_of_int volid, inst)]"
    using as(2) m ne by (auto simp: contents_def ids_def)
  moreover have "al_heap (?s\<lparr>al_new := ?a + 1\<rparr>) b = None" if "b \<ge> al_new (?s\<lparr>al_new := ?a + 1\<rparr>)" for b
    using that new m by auto
  ultimately have "holds_list list (?s\<lparr>al_new := ?a + 1\<rparr>) (xs @ [(word_of_int volid, inst)])"
    using ch unfolding holds_list_def by blast
  with add show ?thesis by simp
qed

text \<open>Removing the first node with an ID.\<close>

lemma remove_loop_chain:
  "chain c s as \<Longrightarrow> \<exists>s'. remove_loop w c s = Some (find (is_vol s w) as, s') \<and>
     chain c s' (case find (is_vol s w) as of None \<Rightarrow> as | Some d \<Rightarrow> remove1 d as) \<and>
     al_new s' = al_new s \<and> (\<forall>a. map_option ids (al_heap s' a) = map_option ids (al_heap s a)) \<and>
     (\<forall>a. a \<notin> set (c # as) \<longrightarrow> al_heap s' a = al_heap s a)"
proof (induction as arbitrary: c)
  case Nil
  then show ?case by (subst remove_loop.simps) (auto simp: chain_Nil)
next
  case (Cons d as)
  obtain n where n: "al_heap s c = Some n" "va_next n = Some d" and ch: "chain d s as" and new: "c \<notin> set (d # as)"
    using Cons.prems by (auto simp: chain_Cons)
  obtain m where m: "al_heap s d = Some m" using chain_in_heap [OF ch, of d] by auto
  show ?case
  proof (cases "va_VolumeID m = w")
    case True
    then have f: "find (is_vol s w) (d # as) = Some d" using m by (simp add: is_vol_def ids_def)
    show ?thesis
    proof (cases as)
      case Nil
      let ?s = "s\<lparr>al_heap := (al_heap s)(c \<mapsto> n\<lparr>va_next := None\<rparr>), al_last := c\<rparr>"
      have "va_next m = None" using ch m Nil by (auto simp: chain_Nil)
      then have "remove_loop w c s = Some (Some d, ?s)"
        using n m True by (subst remove_loop.simps) (simp add: set_next_def)
      with f n Nil show ?thesis by (auto simp: chain_Nil)
    next
      case (Cons e es)
      let ?s = "s\<lparr>al_heap := (al_heap s)(c \<mapsto> n\<lparr>va_next := Some e\<rparr>, d \<mapsto> m\<lparr>va_next := None\<rparr>)\<rparr>"
      have e: "va_next m = Some e" "chain e s es" "d \<notin> set (e # es)" using ch m Cons by (auto simp: chain_Cons)
      then have r: "remove_loop w c s = Some (Some d, ?s)"
        using n m True new by (subst remove_loop.simps) (simp add: set_next_def)
      have "path (al_heap ?s) p xs = path (al_heap s) p xs" if "c \<notin> set xs" "d \<notin> set xs" for p xs
        using that by (induction xs arbitrary: p) auto
      then have "chain e ?s es" using e(2,3) new Cons by (auto simp: chain_def)
      with n e(3) new Cons have "chain c ?s as" by (auto simp: chain_Cons)
      with r f n m new show ?thesis by auto
    qed
  next
    case False
    then have f: "find (is_vol s w) (d # as) = find (is_vol s w) as" using m by (simp add: is_vol_def ids_def)
    obtain s' where s': "remove_loop w d s = Some (find (is_vol s w) as, s')"
      "chain d s' (case find (is_vol s w) as of None \<Rightarrow> as | Some d \<Rightarrow> remove1 d as)"
      "al_new s' = al_new s" "\<forall>a. map_option ids (al_heap s' a) = map_option ids (al_heap s a)"
      "\<forall>a. a \<notin> set (d # as) \<longrightarrow> al_heap s' a = al_heap s a"
      using Cons.IH [OF ch] by blast
    have "remove_loop w c s = remove_loop w d s" using n m False by (subst remove_loop.simps) simp
    moreover have "al_heap s' c = Some n" using s'(5) new n(1) by simp
    moreover have "e \<noteq> d" if "find (is_vol s w) as = Some e" for e
      using that ch by (auto simp: find_Some_iff chain_def)
    then have "(case find (is_vol s w) as of None \<Rightarrow> d # as | Some e \<Rightarrow> remove1 e (d # as))
        = d # (case find (is_vol s w) as of None \<Rightarrow> as | Some e \<Rightarrow> remove1 e as)"
      by (auto split: option.split)
    moreover have "c \<notin> set (d # (case find (is_vol s w) as of None \<Rightarrow> as | Some e \<Rightarrow> remove1 e as))"
      using new by (auto split: option.split dest!: subsetD [OF set_remove1_subset])
    ultimately show ?thesis using f s' n(2) by (auto simp: chain_Cons)
  qed
qed

fun remove_first :: "u64 \<Rightarrow> (u64 \<times> string) list \<Rightarrow> (u64 \<times> string) list" where
  "remove_first w [] = []"
| "remove_first w (x # xs) = (if fst x = w then xs else x # remove_first w xs)"

lemma contents_remove:
  "contents s (case find (is_vol s w) as of None \<Rightarrow> as | Some d \<Rightarrow> remove1 d as) = remove_first w (contents s as)"
proof (induction as)
  case (Cons a as)
  have "d \<noteq> a" if "find (is_vol s w) as = Some d" "\<not> is_vol s w a" for d
    using that by (auto simp: find_Some_iff)
  with Cons show ?case by (auto simp: contents_def simp flip: is_vol_def split: option.splits)
qed (simp add: contents_def)

lemma same_ids: "\<forall>a. map_option ids (h' a) = map_option ids (h a) \<Longrightarrow> ids (the (h' a)) = ids (the (h a))"
  by (cases "h a"; cases "h' a") (auto dest: spec [of _ a])

lemma Remove_spec:
  assumes "holds_list list s xs"
  shows "\<exists>r s'. RemoveAttachFromList list volid s = Some (r, s') \<and>
    holds_list list s' (remove_first (word_of_int volid) xs) \<and>
    map_option (\<lambda>a. ids (the (al_heap s' a))) r = find (\<lambda>x. fst x = word_of_int volid) xs"
proof -
  let ?w = "word_of_int volid"
  obtain as where as: "chain list s as" "contents s as = xs" and new: "\<forall>a \<ge> al_new s. al_heap s a = None"
    using assms by (auto simp: holds_list_def)
  let ?r = "find (is_vol s ?w) as" let ?as = "case ?r of None \<Rightarrow> as | Some d \<Rightarrow> remove1 d as"
  obtain s' where s': "remove_loop ?w list s = Some (?r, s')" "chain list s' ?as" "al_new s' = al_new s"
    "\<forall>a. map_option ids (al_heap s' a) = map_option ids (al_heap s a)"
    using remove_loop_chain [OF as(1)] by blast
  have "contents s' ?as = contents s ?as" by (simp only: contents_def same_ids [OF s'(4)])
  then have "contents s' ?as = remove_first ?w xs" using as(2) contents_remove by simp
  moreover have "al_heap s' a = None" if "a \<ge> al_new s'" for a
    using that s'(3,4) new by (metis option.map_disc_iff)
  ultimately have "holds_list list s' (remove_first ?w xs)" using s'(2) unfolding holds_list_def by blast
  moreover have "map_option (\<lambda>a. ids (the (al_heap s' a))) ?r = find (\<lambda>x. fst x = ?w) xs"
    unfolding same_ids [OF s'(4)] find_contents as(2) ..
  ultimately show ?thesis using s'(1) unfolding RemoveAttachFromList_def by blast
qed

section \<open>The contract of the list\<close>

definition vols :: "(u64 \<times> string) list \<Rightarrow> u64 set" where
  "vols xs = fst ` set xs"

datatype list_op = Op_Query int | Op_Add int string | Op_Remove int

text \<open>What the callers look at: whether a node was found.\<close>

fun spec_op :: "list_op \<Rightarrow> (u64 \<times> string) list \<Rightarrow> bool \<times> (u64 \<times> string) list" where
  "spec_op (Op_Query v) xs = (word_of_int v \<in> vols xs, xs)"
| "spec_op (Op_Add v i) xs = (True, xs @ [(word_of_int v, i)])"
| "spec_op (Op_Remove v) xs = (word_of_int v \<in> vols xs, remove_first (word_of_int v) xs)"

fun spec_ops :: "list_op list \<Rightarrow> (u64 \<times> string) list \<Rightarrow> bool list \<times> (u64 \<times> string) list" where
  "spec_ops [] xs = ([], xs)"
| "spec_ops (x # ops) xs = (let (b, xs) = spec_op x xs; (bs, xs) = spec_ops ops xs in (b # bs, xs))"

lemma remove_first_distinct:
  "distinct (map fst xs) \<Longrightarrow> distinct (map fst (remove_first w xs)) \<and> vols (remove_first w xs) = vols xs - {w}"
  by (induction xs) (force simp: vols_def)+

lemma find_None_fst: "find (\<lambda>x. fst x = w) xs = None \<longleftrightarrow> w \<notin> vols xs"
  by (force simp: find_None_iff vols_def)

locale attachments =
  fixes rep :: "'s \<Rightarrow> (u64 \<times> string) list \<Rightarrow> bool"
    and query :: "int \<Rightarrow> 's \<Rightarrow> 'a option option"
    and add :: "int \<Rightarrow> string \<Rightarrow> 's \<Rightarrow> ('a \<times> 's) option"
    and rem :: "int \<Rightarrow> 's \<Rightarrow> ('a option \<times> 's) option"
  assumes query_rep: "rep s xs \<Longrightarrow> \<exists>r. query v s = Some r \<and> (r \<noteq> None \<longleftrightarrow> word_of_int v \<in> vols xs)"
    and add_rep: "rep s xs \<Longrightarrow> \<exists>a s'. add v i s = Some (a, s') \<and> rep s' (xs @ [(word_of_int v, i)])"
    and rem_rep: "rep s xs \<Longrightarrow> \<exists>r s'. rem v s = Some (r, s') \<and> rep s' (remove_first (word_of_int v) xs) \<and>
      (r \<noteq> None \<longleftrightarrow> word_of_int v \<in> vols xs)"
begin

definition run_op :: "list_op \<Rightarrow> 's \<Rightarrow> (bool \<times> 's) option" where
  "run_op x s = (case x of
     Op_Query v \<Rightarrow> do { r \<leftarrow> query v s; Some (r \<noteq> None, s) }
   | Op_Add v i \<Rightarrow> do { (_, s) \<leftarrow> add v i s; Some (True, s) }
   | Op_Remove v \<Rightarrow> do { (r, s) \<leftarrow> rem v s; Some (r \<noteq> None, s) })"

lemma run_op_spec: "rep s xs \<Longrightarrow> \<exists>s'. run_op x s = Some (fst (spec_op x xs), s') \<and> rep s' (snd (spec_op x xs))"
proof (cases x)
  case (Op_Query v)
  assume "rep s xs"
  with query_rep [of s xs v] Op_Query show ?thesis by (auto simp: run_op_def)
next
  case (Op_Add v i)
  assume "rep s xs"
  with add_rep [of s xs v i] Op_Add show ?thesis by (auto simp: run_op_def)
next
  case (Op_Remove v)
  assume "rep s xs"
  with rem_rep [of s xs v] Op_Remove show ?thesis by (auto simp: run_op_def)
qed

text \<open>An ID is added only when it is not in the list, as the daemon does: IDs stay distinct.\<close>

lemma add_new:
  assumes "rep s xs" and "distinct (map fst xs)" and "query v s = Some None"
  shows "\<exists>a s'. add v i s = Some (a, s') \<and> rep s' (xs @ [(word_of_int v, i)]) \<and>
     distinct (map fst (xs @ [(word_of_int v, i)]))"
proof -
  have "word_of_int v \<notin> vols xs" using query_rep [OF assms(1), of v] assms(3) by auto
  with assms(2) add_rep [OF assms(1), of v i] show ?thesis by (auto simp: vols_def)
qed

lemma rem_distinct:
  assumes "rep s xs" and "distinct (map fst xs)"
  shows "\<exists>r s' xs'. rem v s = Some (r, s') \<and> rep s' xs' \<and> distinct (map fst xs') \<and>
     vols xs' = vols xs - {word_of_int v}"
  using rem_rep [OF assms(1), of v] remove_first_distinct [OF assms(2)] by blast

end

interpretation vlist: attachments "holds_list list" "QueryAttachInfo list" AddAttachToList "RemoveAttachFromList list" for list
proof
  fix s xs v i
  assume h: "holds_list list s xs"
  show "\<exists>r. QueryAttachInfo list v s = Some r \<and> (r \<noteq> None \<longleftrightarrow> word_of_int v \<in> vols xs)"
    using Query_spec [OF h, of v] find_None_fst by (metis option.map_disc_iff)
  show "\<exists>a s'. AddAttachToList v i s = Some (a, s') \<and> holds_list list s' (xs @ [(word_of_int v, i)])"
    using AddAttach_spec [OF h] by blast
  show "\<exists>r s'. RemoveAttachFromList list v s = Some (r, s') \<and> holds_list list s' (remove_first (word_of_int v) xs) \<and>
      (r \<noteq> None \<longleftrightarrow> word_of_int v \<in> vols xs)"
    using Remove_spec [OF h, of v] find_None_fst by (metis option.map_disc_iff)
qed

fun run_ops :: "nat \<Rightarrow> list_op list \<Rightarrow> attach_list \<Rightarrow> (bool list \<times> attach_list) option" where
  "run_ops list [] s = Some ([], s)"
| "run_ops list (x # ops) s =
    do { (b, s) \<leftarrow> vlist.run_op list x s; (bs, s) \<leftarrow> run_ops list ops s; Some (b # bs, s) }"

lemma run_list_ops_spec:
  "holds_list list s xs \<Longrightarrow> \<exists>s'. run_ops list ops s = Some (fst (spec_ops ops xs), s') \<and> holds_list list s' (snd (spec_ops ops xs))"
proof (induction ops arbitrary: s xs)
  case (Cons x ops)
  obtain s1 where s1: "vlist.run_op list x s = Some (fst (spec_op x xs), s1)" "holds_list list s1 (snd (spec_op x xs))"
    using vlist.run_op_spec [OF Cons.prems] by blast
  from Cons.IH [OF s1(2)] s1(1) show ?case by (auto simp: Let_def split: prod.splits)
qed simp

section \<open>The file\<close>

lemma save_loop_chain: "chain c s as \<Longrightarrow>
  save_loop (al_heap s) c out = Some (out @ concat (map (\<lambda>(v, i). attach_line v i) (contents s as)))"
proof (induction as arbitrary: c out)
  case Nil
  then show ?case by (subst save_loop.simps) (auto simp: chain_Nil contents_def)
next
  case (Cons d as)
  then obtain m where m: "al_heap s d = Some m" using chain_in_heap [OF Cons.prems, of d] by auto
  with Cons show ?case by (subst save_loop.simps) (auto simp: chain_Cons contents_def ids_def)
qed

definition file_of :: "(u64 \<times> string) list \<Rightarrow> string" where
  "file_of xs = concat (map (\<lambda>(v, i). attach_line v i) xs)"

lemma Save_spec: "holds_list list s xs \<Longrightarrow> SaveAttachInfoToFile True list s f = Some (1, file_of xs)"
  using save_loop_chain [where out = "[]"] by (auto simp: SaveAttachInfoToFile_def holds_list_def file_of_def)

text \<open>Attachments that a line of the file can hold.\<close>

definition plain :: "u64 \<times> string \<Rightarrow> bool" where
  "plain x \<longleftrightarrow> (case x of (v, i) \<Rightarrow> uint v < 2 ^ 31 \<and> i \<noteq> [] \<and> (\<forall>c \<in> set i. \<not> isspace c) \<and> List.length i \<le> 63)"

lemma fgets_line:
  "CHR 0x0A \<notin> set l \<Longrightarrow> List.length l < n \<Longrightarrow> fgets n (l @ CHR 0x0A # r) = (l @ [CHR 0x0A], r)"
proof (induction l arbitrary: n)
  case Nil
  then show ?case by (cases n) simp_all
next
  case (Cons c l)
  then obtain k where "n = Suc k" by (cases n) auto
  with Cons show ?case by auto
qed

lemma isspace_facts [simp]: "isspace CHR '' ''" "isspace CHR 0x0A" "\<not> isdigit CHR '' ''"
  by (simp_all add: isspace_def isdigit_def)

lemma digit_not_space: "isdigit c \<Longrightarrow> \<not> isspace c \<and> c \<noteq> CHR ''-'' \<and> c \<noteq> CHR ''+'' \<and> c \<noteq> CHR 0x0A"
  by (auto simp: isdigit_def isspace_def)

lemma dec_digits: "\<forall>c \<in> set (dec n). isdigit c"
proof (induction n rule: less_induct)
  case (less n)
  have d: "isdigit (char_of (48 + k))" if "k < 10" for k :: nat
    using of_char_digit [OF that] that by (simp add: isdigit_def)
  show ?case
  proof (cases "n < 10")
    case True
    with d show ?thesis by (simp add: dec_small)
  next
    case False
    with less.IH [of "n div 10"] d [of "n mod 10"] show ?thesis by (simp add: dec_small)
  qed
qed

lemma plain_line:
  assumes "plain (v, i)"
  shows "attach_line v i = dec (unat v) @ '' '' @ i @ [CHR 0x0A]"
    and "fgets 255 (attach_line v i @ r) = (attach_line v i, r)"
    and "scan_line (attach_line v i) w = (int (unat v), Some i)"
proof -
  have u: "int (unat v) < 2 ^ 31" using assms by (simp add: plain_def)
  have un: "unat v < 2 ^ 31" using u by (metis of_nat_less_iff of_nat_numeral of_nat_power)
  have pos: "0 \<le> uint v" by simp
  from u pos have c: "c_int (uint v) = int (unat v)" by (subst c_int_id) (linarith, simp_all)
  show l: "attach_line v i = dec (unat v) @ '' '' @ i @ [CHR 0x0A]"
    unfolding attach_line_def sprintf_d_def c by simp
  note un
  also have "(2 :: nat) ^ 31 < 10 ^ Suc 9" by simp
  finally have "unat v < 10 ^ Suc 9" .
  then have "List.length (dec (unat v)) \<le> 10" using length_dec [of "unat v" 9] by simp
  moreover have "CHR 0x0A \<notin> set (dec (unat v))" using dec_digits digit_not_space by blast
  moreover have "CHR 0x0A \<notin> set i" "List.length i \<le> 63" using assms by (auto simp: plain_def)
  ultimately show "fgets 255 (attach_line v i @ r) = (attach_line v i, r)"
    using fgets_line [of "dec (unat v) @ '' '' @ i" 255 r] by (simp add: l)
  have hd: "dec (unat v) \<noteq> []" "isdigit (hd (dec (unat v)))" using dec_ne dec_hd by auto
  then obtain c cs where cs: "dec (unat v) = c # cs" "isdigit c" by (cases "dec (unat v)") auto
  have "dropWhile isspace (attach_line v i) = attach_line v i"
    using digit_not_space [OF cs(2)] by (simp add: l cs(1))
  moreover have "read_number 0 (dec (unat v) @ '' '' @ i @ [CHR 0x0A]) = (int (unat v), '' '' @ i @ [CHR 0x0A])"
    using un by (intro read_number_dec) simp_all
  ultimately have "scan_int (attach_line v i) = Some (int (unat v), '' '' @ i @ [CHR 0x0A])"
    using digit_not_space [OF cs(2)] cs by (simp add: scan_int_def l Let_def)
  moreover have "dropWhile isspace ('' '' @ i @ [CHR 0x0A]) = i @ [CHR 0x0A]"
    using assms by (cases i) (auto simp: plain_def)
  moreover have "takeWhile (\<lambda>c. \<not> isspace c) (i @ [CHR 0x0A]) = i"
    using assms by (subst takeWhile_append2) (auto simp: plain_def)
  ultimately show "scan_line (attach_line v i) w = (int (unat v), Some i)"
    using assms by (simp add: scan_line_def plain_def Let_def split: prod.splits)
qed

lemma load_loop_lines:
  "holds_list list s xs \<Longrightarrow> list_all plain ys \<Longrightarrow>
   \<exists>s'. load_loop (file_of ys) (al_last s) w s = Some s' \<and> holds_list list s' (xs @ ys)"
proof (induction ys arbitrary: s xs w)
  case Nil
  then show ?case by (simp add: load_loop.simps file_of_def)
next
  case (Cons y ys)
  obtain v i where y: "y = (v, i)" by (cases y)
  with Cons.prems have p: "plain (v, i)" by simp
  obtain a s1 where s1: "AddAttachToList (int (unat v)) i s = Some (a, s1)" "holds_list list s1 (xs @ [(v, i)])" "al_last s1 = a"
    using AddAttach_spec [OF Cons.prems(1), of "int (unat v)" i] by auto
  have "file_of (y # ys) = attach_line v i @ file_of ys" by (simp add: file_of_def y)
  moreover have "attach_line v i @ file_of ys \<noteq> []" by (simp add: plain_line(1) [OF p])
  moreover have "List.length i \<le> 63" using p by (simp add: plain_def)
  moreover have "- 1 < uint v" using uint_ge_0 [of v] by linarith
  ultimately have "load_loop (file_of (y # ys)) (al_last s) w s = load_loop (file_of ys) a (int (unat v), Some i) s1"
    using s1(1,3) plain_line(2,3) [OF p]
    by (subst load_loop.simps)
      (auto simp: AddAttachToList_def new_node_def Let_def split: option.splits Option.bind_splits)
  moreover obtain s' where "load_loop (file_of ys) (al_last s1) (int (unat v), Some i) s1 = Some s'"
    "holds_list list s' ((xs @ [(v, i)]) @ ys)"
    using Cons.IH [OF s1(2)] Cons.prems(2) by auto
  ultimately show ?case using s1(3) y by auto
qed

section \<open>Properties\<close>

text \<open>C13: The linked list with its last-node pointer behaves as a list of attachments:
  whatever sequence of queries, additions and removals runs on the initial list, no
  pointer goes astray and no loop runs on, a query or removal finds a node exactly when
  the ID is in the list, an addition appends and a removal takes the first match.\<close>

theorem attach_list_refines:
  "\<exists>s. run_ops (fst init_list) ops (snd init_list) = Some (fst (spec_ops ops []), s) \<and>
     holds_list (fst init_list) s (snd (spec_ops ops []))"
  by (rule run_list_ops_spec [OF holds_init])

text \<open>C20: Saving the list and loading the file into a fresh list gives the same
  attachments in the same order, when each ID is below 2^31 and each instance ID is a
  word of at most 63 characters.\<close>

theorem save_load_roundtrip:
  assumes "holds_list list s xs" and "list_all plain xs"
  shows "\<exists>f t. SaveAttachInfoToFile True list s old = Some (1, f) \<and>
     LoadAttachInfoFromFile c (fst init_list) (Some f) (snd init_list) = Some (1, t) \<and>
     holds_list (fst init_list) t xs"
proof -
  have "al_last (snd init_list) = fst init_list" by (simp add: init_list_def)
  with load_loop_lines [OF holds_init assms(2), of "(- 1, None)"] Save_spec [OF assms(1), of old]
  show ?thesis by (auto simp: LoadAttachInfoFromFile_def)
qed

theorem save_load_roundtrip_witness:
  "\<exists>s f t. AddAttachToList 7 ''i-2A'' (snd init_list) = Some s \<and>
     SaveAttachInfoToFile True (fst init_list) (snd s) [] = Some (1, f) \<and>
     LoadAttachInfoFromFile True (fst init_list) (Some f) (snd init_list) = Some (1, t) \<and>
     holds_list (fst init_list) t [(7, ''i-2A'')]"
proof -
  obtain a s where s: "AddAttachToList 7 ''i-2A'' (snd init_list) = Some (a, s)"
    "holds_list (fst init_list) s [(7, ''i-2A'')]"
    using AddAttach_spec [OF holds_init, of 7 "''i-2A''"] by auto
  have "plain (7, ''i-2A'')" by (auto simp: plain_def isspace_def)
  with save_load_roundtrip [OF s(2), of "[]" True] s(1) show ?thesis by auto
qed

end
