(* ===== verification/Daemon_Command.thy ===== *)
theory Daemon_Command
  imports Daemon_List Volume_Manager Wire
begin

text \<open>
  The commands of the user-space daemon (\<open>Client_Daemon.c\<close>): reading from a socket,
  asking the namenode for the capacity of a volume, attaching and detaching through the
  driver's ioctl, and the handler of one client connection.  The driver behind the
  ioctl is the one of \<open>Volume_Manager\<close>, the list of attachments the one of
  \<open>Daemon_List\<close>.

  The build with \<open>RS_SUPPORT\<close> is modelled; the result of \<open>save_attach_info_to_rs\<close>, a call
  into a library, is an argument, and 0 gives the build without it.  \<open>malloc\<close> succeeds,
  except for a negative size.  \<open>None\<close> is a fault or a call that does not return.
\<close>

section \<open>Reading from a socket\<close>

text \<open>The bytes that will still arrive, whether the peer closes then, and which calls of
  \<open>recv\<close> fail.\<close>

record conn =
  c_bytes :: "u8 list"
  c_closed :: bool
  c_errs :: "nat \<Rightarrow> bool"
  c_calls :: nat

text \<open>\<open>recv\<close> with \<open>MSG_WAITALL\<close>: \<open>None\<close> waits for ever, an inner \<open>None\<close> is the result \<open>-1\<close>,
  no bytes is the result 0.\<close>

definition recv :: "nat \<Rightarrow> conn \<Rightarrow> (u8 list option \<times> conn) option" where
  "recv n c =
     (let c' = c\<lparr>c_calls := Suc (c_calls c)\<rparr> in
      if c_errs c (c_calls c) then Some (None, c')
      else if n \<le> List.length (c_bytes c) then Some (Some (take n (c_bytes c)), c'\<lparr>c_bytes := drop n (c_bytes c)\<rparr>)
      else if c_closed c then Some (Some (c_bytes c), c'\<lparr>c_bytes := []\<rparr>)
      else None)"

text \<open>The retries: an error uses one up, the result 0 does not.\<close>

partial_function (option) retry_loop :: "nat \<Rightarrow> nat \<Rightarrow> conn \<Rightarrow> (u8 list option \<times> conn) option" where
  "retry_loop chunk retry c =
     (if retry = 0 then Some (None, c)
      else Option.bind (recv chunk c) (\<lambda>(r, c).
        case r of
          Some bs \<Rightarrow> if bs \<noteq> [] then Some (Some bs, c) else retry_loop chunk retry c
        | None \<Rightarrow> retry_loop chunk (retry - 1) c))"

text \<open>\<open>buf\<close> is what the buffer of \<open>size\<close> bytes holds so far; each turn asks for the same
  number of bytes, and writing past the buffer is a fault.\<close>

partial_function (option) read_loop :: "nat \<Rightarrow> nat \<Rightarrow> u8 list \<Rightarrow> conn \<Rightarrow> (u8 list option \<times> conn) option" where
  "read_loop len chunk buf c =
     (if len \<le> List.length buf then Some (Some buf, c)
      else Option.bind (recv chunk c) (\<lambda>(r, c).
        Option.bind
          (case r of
             Some bs \<Rightarrow> if bs \<noteq> [] then Some (Some bs, c) else retry_loop chunk 5 c
           | None \<Rightarrow> retry_loop chunk 5 c)
          (\<lambda>(r, c).
            case r of
              None \<Rightarrow> Some (None, c)
            | Some bs \<Rightarrow>
                if len < List.length buf + List.length bs then None
                else read_loop len chunk (buf @ bs) c)))"

text \<open>NULL for a negative size: \<open>malloc\<close> gets a huge number and the loop is not entered.\<close>

definition ccma_buffer_read :: "int \<Rightarrow> conn \<Rightarrow> (u8 list option \<times> conn) option" where
  "ccma_buffer_read len c =
     (if len < 0 then Some (None, c) else read_loop (nat len) (if nat len < 255 then nat len else 255) [] c)"

text \<open>Dereferencing the result.\<close>

definition read_some :: "int \<Rightarrow> conn \<Rightarrow> (u8 list \<times> conn) option" where
  "read_some len c = do { (r, c) \<leftarrow> ccma_buffer_read len c; buf \<leftarrow> r; Some (buf, c) }"

section \<open>State and environment\<close>

definition DMS_ATTACH_OK :: int where "DMS_ATTACH_OK = 0"
definition DMS_DETACH_OK :: int where "DMS_DETACH_OK = 0"

record daemon =
  dm_list :: attach_list
  dm_file :: string
  dm_state :: u64
  dm_vols :: vmgr
  dm_out :: "u8 list"          \<comment> \<open>what was written to the client\<close>

record denv =
  e_kern :: kernel_answers
  e_admin :: bool              \<comment> \<open>the daemon has \<open>CAP_SYS_ADMIN\<close>\<close>
  e_device :: "int \<Rightarrow> bool"     \<comment> \<open>the device file of a volume appears\<close>
  e_file :: bool               \<comment> \<open>the file of attachments can be opened\<close>
  e_namenode :: "u8 list \<Rightarrow> conn"   \<comment> \<open>the connection after what was written\<close>
  e_rs :: int

text \<open>The C library turns a negative result of the driver into \<open>-1\<close>.\<close>

definition dms_ioctl :: "denv \<Rightarrow> ioctl_cmd \<Rightarrow> daemon \<Rightarrow> (int \<times> daemon) option" where
  "dms_ioctl env cmd d = do {
     (r, g, m) \<leftarrow> DMS_IOCTL_Handler (e_kern env) (e_admin env) cmd (dm_state d, dm_vols d);
     Some (if r < 0 then - 1 else r, d\<lparr>dm_state := g, dm_vols := m\<rparr>) }"

definition MAGIC_NUM :: u64 where "MAGIC_NUM = 0xa5a5a5a5a5a5a5a5"

text \<open>What the daemon sends to the namenode, and the capacity it gets; 0 for no answer.\<close>

definition capacity_query :: "int \<Rightarrow> u8 list" where
  "capacity_query volid = WRITE_NET_LONG MAGIC_NUM @ WRITE_NET_SHORT 101 @ WRITE_NET_INT (word_of_int volid)"

definition getCapacityFromNamenode :: "denv \<Rightarrow> int \<Rightarrow> u64 option" where
  "getCapacityFromNamenode env volid = do {
     (r, _) \<leftarrow> ccma_buffer_read 8 (e_namenode env (capacity_query volid));
     Some (case r of None \<Rightarrow> 0 | Some buf \<Rightarrow> htonll (load_le buf)) }"

section \<open>Attach and detach\<close>

text \<open>The wait for the device file counts no tries: without the file it never ends.\<close>

definition attach_volume ::
    "denv \<Rightarrow> int \<Rightarrow> string \<Rightarrow> nat \<Rightarrow> bool \<Rightarrow> bool \<Rightarrow> daemon \<Rightarrow> (int \<times> daemon) option" where
  "attach_volume env vol_id instid list updateToRS updateToLocalFile d = do {
     item \<leftarrow> QueryAttachInfo list vol_id (dm_list d);
     let item = (if \<not> updateToLocalFile then None else item);
     if item \<noteq> None then Some (DMS_ATTACH_OK, d)
     else do {
       volCap \<leftarrow> getCapacityFromNamenode env vol_id;
       if sint volCap \<le> 0 then Some (ATTACH_FAIL, d)
       else do {
         (ret, d) \<leftarrow> dms_ioctl env (IOCTL_ATTACH_VOL vol_id volCap) d;
         if ret \<noteq> DMS_ATTACH_OK then Some (ret, d)
         else if \<not> e_device env vol_id then None
         else if updateToRS \<and> e_rs env \<noteq> 0 then Some (ATTACH_FAIL, d)
         else if updateToLocalFile then do {
           (item, l) \<leftarrow> AddAttachToList vol_id instid (dm_list d);
           (_, f) \<leftarrow> SaveAttachInfoToFile (e_file env) list l (dm_file d);
           Some (DMS_ATTACH_OK, d\<lparr>dm_list := l, dm_file := f\<rparr>) }
         else Some (ATTACH_FAIL, d) } } }"

definition detach_volume ::
    "denv \<Rightarrow> int \<Rightarrow> nat \<Rightarrow> bool \<Rightarrow> bool \<Rightarrow> daemon \<Rightarrow> (int \<times> daemon) option" where
  "detach_volume env vol_id list updateToRS updateToLocalFile d = do {
     (ret, d) \<leftarrow> dms_ioctl env (IOCTL_DETATCH_VOL vol_id) d;
     if ret \<noteq> DMS_DETACH_OK then Some (ret, d)
     else if updateToRS \<and> e_rs env \<noteq> 0 then Some (DETACH_FAIL, d)
     else if updateToLocalFile then do {
       (_, l) \<leftarrow> RemoveAttachFromList list vol_id (dm_list d);
       (_, f) \<leftarrow> SaveAttachInfoToFile (e_file env) list l (dm_file d);
       Some (ret, d\<lparr>dm_list := l, dm_file := f\<rparr>) }
     else Some (ret, d) }"

text \<open>All volumes of the list; an ID is passed on as an \<open>int\<close>.\<close>

partial_function (option) attach_all_loop :: "denv \<Rightarrow> nat \<Rightarrow> nat \<Rightarrow> daemon \<Rightarrow> daemon option" where
  "attach_all_loop env list c d =
     (case al_heap (dm_list d) c of
        None \<Rightarrow> None
      | Some n \<Rightarrow>
          (case va_next n of
             None \<Rightarrow> Some d
           | Some c \<Rightarrow>
               (case al_heap (dm_list d) c of
                  None \<Rightarrow> None
                | Some m \<Rightarrow>
                    Option.bind
                      (attach_volume env (c_int (uint (va_VolumeID m))) (va_InstanceID m) list False False d)
                      (\<lambda>(_, d). attach_all_loop env list c d))))"

definition attach_all_volume :: "denv \<Rightarrow> nat \<Rightarrow> daemon \<Rightarrow> daemon option" where
  "attach_all_volume env list d = attach_all_loop env list list d"

text \<open>The step to the next node is commented out: \<open>c\<close> stays the head.\<close>

partial_function (option) detach_all_volume :: "denv \<Rightarrow> nat \<Rightarrow> daemon \<Rightarrow> daemon option" where
  "detach_all_volume env list d =
     (case al_heap (dm_list d) list of
        None \<Rightarrow> None
      | Some n \<Rightarrow>
          (case va_next n of
             None \<Rightarrow> Some d
           | Some _ \<Rightarrow>
               Option.bind (detach_volume env (c_int (uint (va_VolumeID n))) list False False d)
                 (\<lambda>(_, d). detach_all_volume env list d)))"

section \<open>One client\<close>

definition send_bytes :: "u8 list \<Rightarrow> daemon \<Rightarrow> daemon" where
  "send_bytes bs d = d\<lparr>dm_out := dm_out d @ bs\<rparr>"

definition send_response :: "int \<Rightarrow> daemon \<Rightarrow> daemon" where
  "send_response retCode d = send_bytes (store_le 4 (word_of_int retCode :: u32)) d"

text \<open>The answer to the commands of the namenode: a length, the code, the ID of the request,
  in the byte order of the machine.\<close>

definition send_ack :: "int \<Rightarrow> int \<Rightarrow> daemon \<Rightarrow> daemon" where
  "send_ack ackCode requestID d =
     send_bytes (store_le 2 (6 :: u16) @ store_le 2 (word_of_int ackCode :: u16) @ store_le 4 (word_of_int requestID :: u32)) d"

definition read_short :: "conn \<Rightarrow> (int \<times> conn) option" where
  "read_short c = do { (buf, c) \<leftarrow> read_some 2 c; Some (sint (htons (load_le buf)), c) }"

definition read_int :: "conn \<Rightarrow> (int \<times> conn) option" where
  "read_int c = do { (buf, c) \<leftarrow> read_some 4 c; Some (sint (htonl (load_le buf)), c) }"

definition read_net_long :: "conn \<Rightarrow> (u64 \<times> conn) option" where
  "read_net_long c = do { (buf, c) \<leftarrow> read_some 8 c; Some (htonll (load_le buf), c) }"

text \<open>The volume ID of the commands of a client is not swapped.\<close>

definition read_long :: "conn \<Rightarrow> (u64 \<times> conn) option" where
  "read_long c = do { (buf, c) \<leftarrow> read_some 8 c; Some (load_le buf, c) }"

text \<open>The instance ID: the rest of the packet up to its terminator; without one
  \<open>strlen\<close> reads past the buffer.\<close>

definition read_instance :: "int \<Rightarrow> conn \<Rightarrow> (string \<times> conn) option" where
  "read_instance len c = do {
     (buf, c) \<leftarrow> read_some len c;
     if 0 \<in> set buf then Some (map (\<lambda>b. char_of (unat b)) (takeWhile (\<lambda>b. b \<noteq> 0) buf), c) else None }"

definition SUBOP_INVALIDATECACHE_BYHBIDS :: int where "SUBOP_INVALIDATECACHE_BYHBIDS = 0"
definition SUBOP_INVALIDATECACHE_BYVOLID :: int where "SUBOP_INVALIDATECACHE_BYVOLID = 1"
definition SUBOP_INVALIDATECACHE_BYDNNAME :: int where "SUBOP_INVALIDATECACHE_BYDNNAME = 2"

lemmas subop_defs = SUBOP_INVALIDATECACHE_BYHBIDS_def SUBOP_INVALIDATECACHE_BYVOLID_def SUBOP_INVALIDATECACHE_BYDNNAME_def

definition reset_overwritten :: "denv \<Rightarrow> conn \<Rightarrow> daemon \<Rightarrow> daemon option" where
  "reset_overwritten env c d = do {
     (requestID, c) \<leftarrow> read_int c;
     (volID, c) \<leftarrow> read_net_long c;
     (ack, d) \<leftarrow> dms_ioctl env (IOCTL_RESETOVERWRITTEN (sint volID)) d;
     Some (send_ack ack requestID d) }"

definition invalidate_cache :: "denv \<Rightarrow> conn \<Rightarrow> daemon \<Rightarrow> daemon option" where
  "invalidate_cache env c d = do {
     (subOpcode, c) \<leftarrow> read_int c;
     (requestID, c) \<leftarrow> read_int c;
     if subOpcode = SUBOP_INVALIDATECACHE_BYHBIDS then do {
       (volID, c) \<leftarrow> read_net_long c;
       (n, c) \<leftarrow> read_int c;
       (r, c) \<leftarrow> ccma_buffer_read (c_int (n mod 2 ^ 32 * 8 mod 2 ^ 32)) c;
       if n \<noteq> 0 \<and> (case r of None \<Rightarrow> True | Some buf \<Rightarrow> int (List.length buf) < n mod 2 ^ 32 * 8) then None
       else do {
         (ack, d) \<leftarrow> dms_ioctl env IOCTL_INVALIDCACHE d;
         Some (send_ack ack requestID d) } }
     else if subOpcode = SUBOP_INVALIDATECACHE_BYVOLID then do {
       (volID, c) \<leftarrow> read_net_long c;
       (ack, d) \<leftarrow> dms_ioctl env IOCTL_INVALIDCACHE d;
       Some (send_ack ack requestID d) }
     else if subOpcode = SUBOP_INVALIDATECACHE_BYDNNAME then do {
       (dnPort, c) \<leftarrow> read_int c;
       (dnNameLen, c) \<leftarrow> read_int c;
       (_, c) \<leftarrow> read_instance dnNameLen c;
       (ack, d) \<leftarrow> dms_ioctl env IOCTL_INVALIDCACHE d;
       Some (send_ack ack requestID d) }
     else Some d }"

definition attach_command :: "denv \<Rightarrow> nat \<Rightarrow> bool \<Rightarrow> int \<Rightarrow> conn \<Rightarrow> daemon \<Rightarrow> daemon option" where
  "attach_command env list updateToRS PktLen c d = do {
     (volID, c) \<leftarrow> read_long c;
     if PktLen > 10 then do {
       (instID, c) \<leftarrow> read_instance (PktLen - 2 - 8) c;
       (retCode, d) \<leftarrow> attach_volume env (c_int (uint volID)) instID list updateToRS True d;
       Some (send_response (if retCode = 0 then 0 else 1) d) }
     else Some (send_response 1 d) }"

definition detach_command :: "denv \<Rightarrow> nat \<Rightarrow> bool \<Rightarrow> int \<Rightarrow> conn \<Rightarrow> daemon \<Rightarrow> daemon option" where
  "detach_command env list updateToRS PktLen c d = do {
     (volID, c) \<leftarrow> read_long c;
     if PktLen > 10 then do {
       (instID, c) \<leftarrow> read_instance (PktLen - 2 - 8) c;
       (ret, d) \<leftarrow> detach_volume env (c_int (uint volID)) list updateToRS True d;
       Some (send_response (if ret = 0 then 0 else 1) d) }
     else Some (send_response 1 d) }"

text \<open>
  The handler.  The two codes for the policy of acknowledgements are compared with
  string literals, addresses that no \<open>short\<close> equals, so their branch is never taken.
\<close>

definition process_thread :: "denv \<Rightarrow> nat \<Rightarrow> conn \<Rightarrow> daemon \<Rightarrow> daemon option" where
  "process_thread env list clientfd d = do {
     (PktLen, c) \<leftarrow> read_short clientfd;
     (opcode, c) \<leftarrow> read_short c;
     if opcode = 11 then reset_overwritten env c d
     else if opcode = 12 then invalidate_cache env c d
     else if opcode = 1 \<or> opcode = 3 then attach_command env list (opcode = 1) PktLen c d
     else if opcode = 2 \<or> opcode = 4 then detach_command env list (opcode = 2) PktLen c d
     else if opcode = 5 then attach_all_volume env list d
     else if opcode = 6 then detach_all_volume env list d
     else Some d }"

section \<open>What a read returns\<close>

lemma recv_full: "\<forall>i. \<not> c_errs c i \<Longrightarrow> n \<le> List.length (c_bytes c) \<Longrightarrow>
  recv n c = Some (Some (take n (c_bytes c)), c\<lparr>c_calls := Suc (c_calls c), c_bytes := drop n (c_bytes c)\<rparr>)"
  by (simp add: recv_def Let_def)

lemma recv_closed: "\<forall>i. \<not> c_errs c i \<Longrightarrow> c_closed c \<Longrightarrow>
  recv n c = Some (Some (take n (c_bytes c)), c\<lparr>c_calls := Suc (c_calls c), c_bytes := drop n (c_bytes c)\<rparr>)"
  by (simp add: recv_def Let_def)

lemma read_loop_done: "read_loop (List.length buf) chunk buf c = Some (Some buf, c)"
  by (subst read_loop.simps) simp

lemma read_loop_step:
  assumes "\<forall>i. \<not> c_errs c i" and "0 < chunk" and "chunk \<le> List.length (c_bytes c)" and "List.length buf < len"
  shows "read_loop len chunk buf c =
    (if len < List.length buf + chunk then None
     else read_loop len chunk (buf @ take chunk (c_bytes c))
       (c\<lparr>c_calls := Suc (c_calls c), c_bytes := drop chunk (c_bytes c)\<rparr>))"
proof -
  have "take chunk (c_bytes c) \<noteq> []" using assms(2,3) by (cases "c_bytes c") auto
  with assms(3,4) recv_full [OF assms(1,3)] show ?thesis
    by (subst read_loop.simps) (simp add: min_absorb2)
qed

lemma read_loop_chunks:
  "\<forall>i. \<not> c_errs c i \<Longrightarrow> 0 < chunk \<Longrightarrow> chunk * k \<le> List.length (c_bytes c) \<Longrightarrow> List.length buf + chunk * k = len \<Longrightarrow>
   read_loop len chunk buf c = Some (Some (buf @ take (chunk * k) (c_bytes c)),
     c\<lparr>c_calls := c_calls c + k, c_bytes := drop (chunk * k) (c_bytes c)\<rparr>)"
proof (induction k arbitrary: buf c)
  case 0
  then show ?case by (subst read_loop.simps) simp
next
  case (Suc k)
  let ?c = "c\<lparr>c_calls := Suc (c_calls c), c_bytes := drop chunk (c_bytes c)\<rparr>"
  have b: "chunk \<le> List.length (c_bytes c)" "List.length buf < len" "\<not> len < List.length buf + chunk"
    using Suc.prems(2-4) by auto
  have "read_loop len chunk buf c = read_loop len chunk (buf @ take chunk (c_bytes c)) ?c"
    using read_loop_step [OF Suc.prems(1,2) b(1,2)] b(3) by simp
  also have "\<dots> = Some (Some ((buf @ take chunk (c_bytes c)) @ take (chunk * k) (c_bytes ?c)),
      ?c\<lparr>c_calls := c_calls ?c + k, c_bytes := drop (chunk * k) (c_bytes ?c)\<rparr>)"
    using Suc.prems b(1) by (intro Suc.IH) simp_all
  finally show ?case by (simp add: take_add add.commute)
qed

lemma read_loop_overrun:
  "\<forall>i. \<not> c_errs c i \<Longrightarrow> 0 < chunk \<Longrightarrow> chunk * Suc k \<le> List.length (c_bytes c) \<Longrightarrow>
   List.length buf + chunk * k < len \<Longrightarrow> len < List.length buf + chunk * Suc k \<Longrightarrow> read_loop len chunk buf c = None"
proof (induction k arbitrary: buf c)
  case 0
  then show ?case by (simp add: read_loop_step)
next
  case (Suc k)
  let ?c = "c\<lparr>c_calls := Suc (c_calls c), c_bytes := drop chunk (c_bytes c)\<rparr>"
  have b: "chunk \<le> List.length (c_bytes c)" "List.length buf < len" "\<not> len < List.length buf + chunk"
    using Suc.prems by auto
  have "read_loop len chunk buf c = read_loop len chunk (buf @ take chunk (c_bytes c)) ?c"
    using read_loop_step [OF Suc.prems(1,2) b(1,2)] b(3) by simp
  also have "\<dots> = None" using Suc.prems b(1) by (intro Suc.IH) simp_all
  finally show ?case .
qed

lemma ccma_buffer_read_small:
  assumes "\<forall>i. \<not> c_errs c i" and "n \<le> 255" and "n \<le> List.length (c_bytes c)"
  shows "\<exists>k. ccma_buffer_read (int n) c = Some (Some (take n (c_bytes c)), c\<lparr>c_calls := k, c_bytes := drop n (c_bytes c)\<rparr>)"
proof (cases "n = 0")
  case True
  have "c\<lparr>c_calls := c_calls c, c_bytes := c_bytes c\<rparr> = c" by simp
  with True show ?thesis
    by (intro exI [of _ "c_calls c"]) (simp add: ccma_buffer_read_def read_loop_done [of "[]", simplified])
next
  case False
  have "ccma_buffer_read (int n) c = read_loop n n [] c"
    using assms(2) by (cases "n < 255") (auto simp: ccma_buffer_read_def not_less dest: le_antisym)
  with False read_loop_chunks [OF assms(1), of n 1 "[]" n] assms(3) show ?thesis
    by (intro exI [of _ "c_calls c + 1"]) simp
qed

lemma ccma_buffer_read_large:
  assumes "\<forall>i. \<not> c_errs c i" and "255 < n" and "255 * ((n + 254) div 255) \<le> List.length (c_bytes c)"
  shows "\<exists>k. ccma_buffer_read (int n) c =
    (if 255 dvd n then Some (Some (take n (c_bytes c)), c\<lparr>c_calls := k, c_bytes := drop n (c_bytes c)\<rparr>) else None)"
proof -
  have r: "ccma_buffer_read (int n) c = read_loop n 255 [] c" using assms(2) by (simp add: ccma_buffer_read_def)
  show ?thesis
  proof (cases "255 dvd n")
    case True
    then obtain k where k: "n = 255 * k" by (elim dvdE)
    have "255 * k \<le> List.length (c_bytes c)" using assms(3) k by auto
    with read_loop_chunks [OF assms(1), of 255 k "[]" n] k True show ?thesis
      unfolding r by (intro exI [of _ "c_calls c + k"]) simp
  next
    case False
    let ?k = "n div 255"
    have "n mod 255 \<noteq> 0" using False by (simp add: dvd_eq_mod_eq_0)
    moreover have "n = 255 * ?k + n mod 255" "n mod 255 < 255" by simp_all
    moreover have "n < 255 + 255 * ?k" by (rule dividend_less_times_div) simp
    ultimately have k: "255 * ?k < n" "n < 255 * Suc ?k" by (linarith, simp)
    then have "(n + 254) div 255 = Suc ?k" by (intro div_nat_eqI) (simp_all)
    with assms(3) have "255 * Suc ?k \<le> List.length (c_bytes c)" by simp
    with read_loop_overrun [OF assms(1), of 255 ?k "[]" n] k(1,2) False show ?thesis
      unfolding r by simp
  qed
qed

section \<open>A peer that closes\<close>

lemma retry_loop_eof:
  assumes "\<forall>i. \<not> c_errs c i" and "c_closed c" and "c_bytes c = []" and "0 < retry"
  shows "retry_loop chunk retry c = None"
proof -
  define at_end :: "conn \<Rightarrow> bool" where "at_end c \<longleftrightarrow> (\<forall>i. \<not> c_errs c i) \<and> c_closed c \<and> c_bytes c = []" for c
  have key: "at_end c \<longrightarrow> retry = 0" if "retry_loop chunk retry c = Some y" for chunk retry c y
  proof (rule retry_loop.raw_induct [where P = "\<lambda>chunk retry c y. at_end c \<longrightarrow> retry = 0", OF _ that])
    fix f chunk retry c y
    assume IH: "\<And>chunk retry c y. f chunk retry c = Some y \<Longrightarrow> at_end c \<longrightarrow> retry = 0"
      and body: "(if retry = 0 then Some (None, c)
         else Option.bind (recv chunk c) (\<lambda>(r, c).
           case r of None \<Rightarrow> f chunk (retry - 1) c
           | Some bs \<Rightarrow> if bs \<noteq> [] then Some (Some bs, c) else f chunk retry c)) = Some (y :: u8 list option \<times> conn)"
    show "at_end c \<longrightarrow> retry = 0"
    proof (intro impI, rule ccontr)
      assume e: "at_end c" and r: "retry \<noteq> 0"
      let ?c = "c\<lparr>c_calls := Suc (c_calls c), c_bytes := []\<rparr>"
      have "recv chunk c = Some (Some [], ?c)" using e recv_closed [of c chunk] by (simp add: at_end_def)
      with body r have "f chunk retry ?c = Some y" by simp
      moreover have "at_end ?c" using e by (simp add: at_end_def)
      ultimately show False using IH r by blast
    qed
  qed
  show ?thesis
  proof (cases "retry_loop chunk retry c")
    case (Some y)
    from key [OF this] assms show ?thesis by (simp add: at_end_def)
  qed simp
qed

lemma read_loop_short:
  "\<forall>i. \<not> c_errs c i \<Longrightarrow> c_closed c \<Longrightarrow> 0 < chunk \<Longrightarrow> List.length buf + List.length (c_bytes c) < len \<Longrightarrow>
   read_loop len chunk buf c = None"
proof (induction "List.length (c_bytes c)" arbitrary: buf c rule: less_induct)
  case less
  let ?c = "c\<lparr>c_calls := Suc (c_calls c), c_bytes := drop chunk (c_bytes c)\<rparr>"
  note r = recv_closed [OF less.prems(1,2), of chunk]
  show ?case
  proof (cases "c_bytes c = []")
    case True
    have "retry_loop chunk 5 ?c = None" using less.prems True by (intro retry_loop_eof) simp_all
    with r True less.prems(4) show ?thesis by (subst read_loop.simps) simp
  next
    case False
    then have ne: "take chunk (c_bytes c) \<noteq> []" using less.prems(3) by (cases "c_bytes c") auto
    have "read_loop len chunk (buf @ take chunk (c_bytes c)) ?c = None"
    proof (rule less.hyps)
      show "List.length (c_bytes ?c) < List.length (c_bytes c)" using less.prems(3) False by simp
      have "List.length (take chunk (c_bytes c)) + List.length (drop chunk (c_bytes c)) = List.length (c_bytes c)"
        by simp
      then show "List.length (buf @ take chunk (c_bytes c)) + List.length (c_bytes ?c) < len"
        using less.prems(4) by simp
    qed (use less.prems in simp_all)
    with r ne less.prems(4) show ?thesis by (subst read_loop.simps) simp
  qed
qed

section \<open>The ioctl and the table of volumes\<close>

text \<open>IDs that fit an \<open>int\<close>, as all IDs that the daemon passes on.\<close>

definition int_id :: "int \<Rightarrow> bool" where
  "int_id v \<longleftrightarrow> - (2 ^ 31) \<le> v \<and> v < 2 ^ 31"

lemma int_id_c_int: "int_id (c_int x)"
  unfolding int_id_def c_int_def
  using signed_take_bit_int_greater_eq_minus_exp [of 31 x] signed_take_bit_int_less_exp [of 31 x] by simp

lemma sint_int_id: "int_id v \<Longrightarrow> sint (word_of_int v :: u64) = v"
  by (simp add: int_id_def sint_word_ariths signed_of_int signed_take_bit_int_eq_self)

lemma c_int_uint: "int_id (sint w) \<Longrightarrow> c_int (uint w) = sint (w :: u64)"
proof -
  assume w: "int_id (sint w)"
  have "c_int (uint w) = c_int (sint w)"
    by (simp add: c_int_def sint_uint signed_take_bit_signed_take_bit)
  also have "\<dots> = sint w" using w by (simp add: int_id_def c_int_id)
  finally show ?thesis .
qed

lemma dms_ioctl_attach:
  assumes "vm_wf (dm_vols d)" and "dms_ioctl env (IOCTL_ATTACH_VOL v cap) d = Some (r, e)"
  shows "dm_list e = dm_list d \<and> dm_file e = dm_file d \<and> dm_out e = dm_out d \<and> vm_wf (dm_vols e) \<and>
    (if r = 0 then v \<notin> ran (vm_entries (dm_vols d)) \<and> ran (vm_entries (dm_vols e)) = insert v (ran (vm_entries (dm_vols d)))
     else vm_entries (dm_vols e) = vm_entries (dm_vols d))"
proof -
  let ?m = "dm_vols d"
  have at: "DMS_Attach_Volume (e_kern env) v (CAL_NR_DMSBLKS cap) ?m = Some (
    if vm_lookup v ?m \<noteq> None then (- EEXIST, ?m)
    else (case vm_free ?m of
        None \<Rightarrow> (- ATTACH_FAIL, ?m)
      | Some i \<Rightarrow> if kern_ok (e_kern env) then (DMS_OK, vm_attached ?m i v (CAL_NR_DMSBLKS cap)) else (- ATTACH_FAIL, ?m)))"
    by (rule Attach_eq [OF assms(1)])
  show ?thesis
  proof (cases "e_admin env \<and> vm_lookup v ?m = None \<and> (\<exists>i. vm_free ?m = Some i) \<and> kern_ok (e_kern env)")
    case True
    then obtain i where i: "vm_free ?m = Some i" by blast
    have rng: "1 \<le> i" "i < vm_max ?m" "vm_entries ?m i = None" using vm_free_Some [OF i] by auto
    have new: "v \<notin> ran (vm_entries ?m)" using True lookup_ran [OF assms(1), of v] by simp
    have "ran ((vm_entries ?m)(i \<mapsto> v)) = insert v (ran (vm_entries ?m))" using rng(3) by (rule ran_map_upd)
    with True at i new vm_attached_entries [OF assms(1) rng(1,2)] vm_attached_wf [OF assms(1) rng(1,2)] assms(2)
    show ?thesis by (auto simp: dms_ioctl_def DMS_IOCTL_Handler_def IOCTL_AttachVolume_def DMS_OK_def)
  next
    case False
    with at assms show ?thesis
      by (auto simp: dms_ioctl_def DMS_IOCTL_Handler_def IOCTL_AttachVolume_def codes_not_ok EPERM_def EEXIST_def
          ATTACH_FAIL_def EFAULT_def split: if_splits option.splits)
  qed
qed

lemma dms_ioctl_detach:
  assumes "vm_wf (dm_vols d)" and "dms_ioctl env (IOCTL_DETATCH_VOL v) d = Some (r, e)"
  shows "dm_list e = dm_list d \<and> dm_file e = dm_file d \<and> dm_out e = dm_out d \<and> vm_wf (dm_vols e) \<and>
    (if r = 0 then v \<in> ran (vm_entries (dm_vols d)) \<and> ran (vm_entries (dm_vols e)) = ran (vm_entries (dm_vols d)) - {v}
     else vm_entries (dm_vols e) = vm_entries (dm_vols d))"
proof (cases "e_admin env")
  case False
  with assms show ?thesis by (auto simp: dms_ioctl_def DMS_IOCTL_Handler_def EPERM_def)
next
  case True
  let ?m = "dm_vols d"
  from assms(1) show ?thesis
  proof (cases rule: Detach_cases [where k = v])
    case (gone i a)
    have ent: "vm_entries (vm_detached ?m i a) = (vm_entries ?m)(i := None)"
      by (rule vm_detached_entries [OF assms(1) gone(1,2)])
    have uniq: "j = i" if "vm_entries ?m j = Some v" for j using that gone(1) assms(1) unfolding vm_wf_def by blast
    have "x \<in> ran ((vm_entries ?m)(i := None)) \<longleftrightarrow> (\<exists>j. j \<noteq> i \<and> vm_entries ?m j = Some x)" for x
      by (auto simp: ran_def)
    moreover have "x \<in> ran (vm_entries ?m) \<longleftrightarrow> (\<exists>j. vm_entries ?m j = Some x)" for x by (auto simp: ran_def)
    ultimately have "ran ((vm_entries ?m)(i := None)) = ran (vm_entries ?m) - {v}"
      using gone(1) uniq by (intro set_eqI) (metis DiffE DiffI option.inject singletonD singletonI)
    moreover have "v \<in> ran (vm_entries ?m)" using gone(1) by (rule ranI)
    moreover have "r = 0" "e = d\<lparr>dm_vols := vm_detached ?m i a\<rparr>"
      using True gone(3) assms(2) by (simp_all add: dms_ioctl_def DMS_IOCTL_Handler_def IOCTL_DetachVolume_def DMS_OK_def)
    ultimately show ?thesis using ent vm_detached_wf [OF assms(1) gone(1,2)] by simp
  qed (use True assms in \<open>auto simp: dms_ioctl_def DMS_IOCTL_Handler_def IOCTL_DetachVolume_def ENODEV_def EBUSY_def\<close>)
qed

lemma dms_ioctl_other:
  "dms_ioctl env IOCTL_INVALIDCACHE d = Some (r, e) \<Longrightarrow> e = d"
  "dms_ioctl env (IOCTL_RESETOVERWRITTEN v) d = Some (r, e) \<Longrightarrow> e = d"
  by (auto simp: dms_ioctl_def DMS_IOCTL_Handler_def split: if_splits)

end
