(* ===== verification/Daemon_Safety.thy ===== *)
theory Daemon_Safety
  imports Daemon_Command
begin

text \<open>
  What the user-space daemon guarantees: how much a read takes from a socket, that the
  list of attachments and the driver's table of volumes agree after any sequence of
  client connections, the service of a request to attach a volume, and the two ways in
  which a client connection never ends.
\<close>

section \<open>The list and the driver agree\<close>

text \<open>The list stands for \<open>xs\<close>, with an \<open>int\<close> for each ID and no ID twice, and the driver has
  attached exactly these IDs.\<close>

definition tracks :: "nat \<Rightarrow> daemon \<Rightarrow> (u64 \<times> string) list \<Rightarrow> bool" where
  "tracks list d xs \<longleftrightarrow> holds_list list (dm_list d) xs \<and> distinct (map fst xs) \<and> vm_wf (dm_vols d) \<and>
     (\<forall>w \<in> vols xs. int_id (sint w)) \<and> ran (vm_entries (dm_vols d)) = sint ` vols xs"

lemma tracks_cong:
  "tracks list d xs \<Longrightarrow> dm_list e = dm_list d \<Longrightarrow> vm_wf (dm_vols e) \<Longrightarrow> vm_entries (dm_vols e) = vm_entries (dm_vols d) \<Longrightarrow>
   tracks list e xs"
  by (simp add: tracks_def)

lemma tracks_send [simp]: "tracks list (send_bytes bs d) xs = tracks list d xs"
  by (simp add: tracks_def send_bytes_def)

lemma of_sint: "word_of_int (sint w) = (w :: u64)"
  by simp

lemma inj_sint: "inj_on sint (A :: u64 set)"
  by (rule inj_onI) (metis of_sint)

lemma tracks_response [simp]:
  "tracks list (send_response r d) xs = tracks list d xs" "tracks list (send_ack a q d) xs = tracks list d xs"
  by (simp_all add: send_response_def send_ack_def)

lemma word_vols:
  assumes v: "int_id v"
  shows "word_of_int v \<in> vols xs \<longleftrightarrow> v \<in> sint ` vols xs"
proof
  show "v \<in> sint ` vols xs" if "word_of_int v \<in> vols xs"
    using that sint_int_id [OF v] by (metis rev_image_eqI)
  show "word_of_int v \<in> vols xs" if "v \<in> sint ` vols xs" using that by auto
qed

lemma Save_Some: "holds_list list s xs \<Longrightarrow> \<exists>r f. SaveAttachInfoToFile b list s old = Some (r, f)"
  using Save_spec by (cases b) (auto simp: SaveAttachInfoToFile_def)

text \<open>An attach that updates the list, and one for an ID of the list that does not.\<close>

lemma attach_file_tracks:
  assumes t: "tracks list d xs" and rs: "e_rs env = 0" and v: "int_id v"
    and a: "attach_volume env v inst list rsup True d = Some (r, e)"
  shows "\<exists>ys. tracks list e ys"
proof -
  obtain q where q: "QueryAttachInfo list v (dm_list d) = Some q" "q \<noteq> None \<longleftrightarrow> word_of_int v \<in> vols xs"
    using vlist.query_rep [of list "dm_list d" xs v] t by (auto simp: tracks_def)
  show ?thesis
  proof (cases "q = None")
    case False
    then have "e = d" using a q by (auto simp: attach_volume_def)
    with t show ?thesis by blast
  next
    case True
    obtain cap where cap: "getCapacityFromNamenode env v = Some cap"
      using a q(1) True by (auto simp: attach_volume_def split: Option.bind_splits)
    show ?thesis
    proof (cases "sint cap \<le> 0")
      case True
      then have "e = d" using a q(1) cap \<open>q = None\<close> by (simp add: attach_volume_def)
      with t show ?thesis by blast
    next
      case pos: False
      obtain r1 d1 where i: "dms_ioctl env (IOCTL_ATTACH_VOL v cap) d = Some (r1, d1)"
        using a q(1) cap True pos by (auto simp: attach_volume_def split: Option.bind_splits)
      have wf: "vm_wf (dm_vols d)" using t by (simp add: tracks_def)
      note at = dms_ioctl_attach [OF wf i]
      show ?thesis
      proof (cases "r1 = 0")
        case False
        then have "e = d1" using a q(1) cap True pos i by (simp add: attach_volume_def DMS_ATTACH_OK_def)
        with tracks_cong [OF t, of d1] at False show ?thesis by auto
      next
        case zero: True
        have "holds_list list (dm_list d) xs" "distinct (map fst xs)" using t by (simp_all add: tracks_def)
        from vlist.add_new [OF this, of v inst] q(1) True obtain p l where
          l: "AddAttachToList v inst (dm_list d) = Some (p, l)" "holds_list list l (xs @ [(word_of_int v, inst)])"
            "distinct (map fst (xs @ [(word_of_int v, inst)]))" by blast
        obtain r2 f where f: "SaveAttachInfoToFile (e_file env) list l (dm_file d1) = Some (r2, f)"
          using Save_Some [OF l(2)] by blast
        have "e_device env v"
          using a q(1) cap True pos i zero by (auto simp: attach_volume_def DMS_ATTACH_OK_def split: if_splits)
        then have "e = d1\<lparr>dm_list := l, dm_file := f\<rparr>"
          using a q(1) cap True pos i zero rs at l(1) f by (simp add: attach_volume_def DMS_ATTACH_OK_def)
        moreover have "ran (vm_entries (dm_vols d1)) = sint ` vols (xs @ [(word_of_int v, inst)])"
          using at zero t by (simp add: tracks_def vols_def sint_int_id [OF v])
        ultimately have "tracks list e (xs @ [(word_of_int v, inst)])"
          using l(2,3) at t v sint_int_id [OF v] by (auto simp: tracks_def vols_def)
        then show ?thesis by blast
      qed
    qed
  qed
qed

lemma attach_known_tracks:
  assumes t: "tracks list d xs" and v: "int_id v" "word_of_int v \<in> vols xs"
    and a: "attach_volume env v inst list False False d = Some (r, e)"
  shows "tracks list e xs \<and> dm_list e = dm_list d"
proof -
  have h: "holds_list list (dm_list d) xs" using t by (simp add: tracks_def)
  obtain q where q: "QueryAttachInfo list v (dm_list d) = Some q" using Query_spec [OF h, of v] by blast
  obtain cap where cap: "getCapacityFromNamenode env v = Some cap"
    using a q by (auto simp: attach_volume_def split: Option.bind_splits)
  show ?thesis
  proof (cases "sint cap \<le> 0")
    case True
    then have "e = d" using a q cap by (simp add: attach_volume_def)
    with t show ?thesis by simp
  next
    case pos: False
    obtain r1 d1 where i: "dms_ioctl env (IOCTL_ATTACH_VOL v cap) d = Some (r1, d1)"
      using a q cap pos by (auto simp: attach_volume_def split: Option.bind_splits)
    have wf: "vm_wf (dm_vols d)" using t by (simp add: tracks_def)
    note at = dms_ioctl_attach [OF wf i]
    have "v \<in> ran (vm_entries (dm_vols d))" using t v word_vols by (simp add: tracks_def)
    with at have "r1 \<noteq> 0" by auto
    with a q cap pos i have "e = d1" by (simp add: attach_volume_def DMS_ATTACH_OK_def)
    with tracks_cong [OF t, of d1] at \<open>r1 \<noteq> 0\<close> show ?thesis by auto
  qed
qed

lemma detach_tracks:
  assumes t: "tracks list d xs" and rs: "e_rs env = 0" and v: "int_id v"
    and a: "detach_volume env v list rsup True d = Some (r, e)"
  shows "\<exists>ys. tracks list e ys"
proof -
  obtain r1 d1 where i: "dms_ioctl env (IOCTL_DETATCH_VOL v) d = Some (r1, d1)"
    using a by (auto simp: detach_volume_def split: Option.bind_splits)
  have wf: "vm_wf (dm_vols d)" using t by (simp add: tracks_def)
  note dt = dms_ioctl_detach [OF wf i]
  show ?thesis
  proof (cases "r1 = 0")
    case False
    then have "e = d1" using a i by (simp add: detach_volume_def DMS_DETACH_OK_def)
    with tracks_cong [OF t, of d1] dt False show ?thesis by auto
  next
    case True
    have "holds_list list (dm_list d) xs" "distinct (map fst xs)" using t by (simp_all add: tracks_def)
    from vlist.rem_distinct [OF this, of v] obtain p l ys where
      l: "RemoveAttachFromList list v (dm_list d) = Some (p, l)" "holds_list list l ys" "distinct (map fst ys)"
        "fst ` set ys = fst ` set xs - {word_of_int v}" by (auto simp: vols_def)
    obtain r2 f where f: "SaveAttachInfoToFile (e_file env) list l (dm_file d1) = Some (r2, f)"
      using Save_Some [OF l(2)] by blast
    have e: "e = d1\<lparr>dm_list := l, dm_file := f\<rparr>"
      using a i True rs dt l(1) f by (simp add: detach_volume_def DMS_DETACH_OK_def)
    have "sint ` vols ys = sint ` vols xs - sint ` {word_of_int v :: u64}"
      unfolding vols_def l(4) by (rule inj_on_image_set_diff [where C = UNIV]) (simp_all add: inj_sint)
    then have "sint ` vols ys = sint ` vols xs - {v}" using sint_int_id [OF v] by simp
    then have "ran (vm_entries (dm_vols d1)) = sint ` vols ys" using dt True t by (simp add: tracks_def)
    moreover have "vols ys \<subseteq> vols xs" using l(4) by (auto simp: vols_def)
    ultimately have "tracks list e ys" using e l(2,3) dt t by (auto simp: tracks_def)
    then show ?thesis by blast
  qed
qed

section \<open>All volumes\<close>

text \<open>The nodes behind \<open>c\<close> are nodes of the list.\<close>

definition ahead :: "nat \<Rightarrow> daemon \<Rightarrow> (u64 \<times> string) list \<Rightarrow> bool" where
  "ahead c d xs \<longleftrightarrow> (\<exists>as n. al_heap (dm_list d) c = Some n \<and> path (al_heap (dm_list d)) (va_next n) as \<and>
     (\<forall>a \<in> set as. va_VolumeID (the (al_heap (dm_list d) a)) \<in> vols xs))"

lemma tracks_ahead: "tracks list d xs \<Longrightarrow> ahead list d xs"
proof -
  assume "tracks list d xs"
  then obtain as where as: "chain list (dm_list d) as" "contents (dm_list d) as = xs"
    by (auto simp: tracks_def holds_list_def)
  have "va_VolumeID (the (al_heap (dm_list d) a)) \<in> vols xs" if "a \<in> set as" for a
    using that unfolding as(2) [symmetric] vols_def contents_def by (auto simp: ids_def image_image)
  with as(1) show ?thesis unfolding chain_def ahead_def by blast
qed

lemma attach_all_loop_tracks:
  assumes "attach_all_loop env list c d = Some e" and "tracks list d xs" and "ahead c d xs"
  shows "tracks list e xs"
proof -
  have "tracks list d xs \<longrightarrow> ahead c d xs \<longrightarrow> tracks list e xs"
  proof (rule attach_all_loop.raw_induct
      [where P = "\<lambda>env list c d e. tracks list d xs \<longrightarrow> ahead c d xs \<longrightarrow> tracks list e xs", OF _ assms(1)])
    fix f env list c d e
    assume IH: "\<And>env list c d e. f env list c d = Some e \<Longrightarrow> tracks list d xs \<longrightarrow> ahead c d xs \<longrightarrow> tracks list e xs"
      and body: "(case al_heap (dm_list d) c of None \<Rightarrow> None
        | Some n \<Rightarrow> (case va_next n of None \<Rightarrow> Some d
          | Some c \<Rightarrow> (case al_heap (dm_list d) c of None \<Rightarrow> None
            | Some m \<Rightarrow> Option.bind (attach_volume env (c_int (uint (va_VolumeID m))) (va_InstanceID m) list False False d)
                (\<lambda>(_, d). f env list c d)))) = Some e"
    show "tracks list d xs \<longrightarrow> ahead c d xs \<longrightarrow> tracks list e xs"
    proof (intro impI)
      assume t: "tracks list d xs" and "ahead c d xs"
      then obtain as n where n: "al_heap (dm_list d) c = Some n" "path (al_heap (dm_list d)) (va_next n) as"
        "\<forall>a \<in> set as. va_VolumeID (the (al_heap (dm_list d) a)) \<in> vols xs" by (auto simp: ahead_def)
      show "tracks list e xs"
      proof (cases as)
        case Nil
        with n body t show ?thesis by simp
      next
        case (Cons a bs)
        then obtain m where m: "va_next n = Some a" "al_heap (dm_list d) a = Some m"
          "path (al_heap (dm_list d)) (va_next m) bs" using n(2) by auto
        have w: "va_VolumeID m \<in> vols xs" using n(3) Cons m(2) by simp
        then have "int_id (sint (va_VolumeID m))" using t by (simp add: tracks_def)
        then have v: "c_int (uint (va_VolumeID m)) = sint (va_VolumeID m)" "int_id (c_int (uint (va_VolumeID m)))"
          by (simp_all add: c_int_uint int_id_c_int)
        from body n(1) m obtain r d1 where
          r: "attach_volume env (c_int (uint (va_VolumeID m))) (va_InstanceID m) list False False d = Some (r, d1)"
          "f env list a d1 = Some e" by (auto split: Option.bind_splits)
        have "word_of_int (c_int (uint (va_VolumeID m))) \<in> vols xs" using w v(1) by simp
        from attach_known_tracks [OF t v(2) this r(1)] have t1: "tracks list d1 xs" "dm_list d1 = dm_list d" by auto
        have "ahead a d1 xs" unfolding ahead_def t1(2) using m n(3) Cons by auto
        with IH [OF r(2)] t1(1) show ?thesis by blast
      qed
    qed
  qed
  with assms(2,3) show ?thesis by blast
qed

lemma detach_nofile_list:
  "detach_volume env v list False False d = Some (r, e) \<Longrightarrow> dm_list e = dm_list d"
  by (auto simp: detach_volume_def dms_ioctl_def split: if_splits Option.bind_splits)

lemma detach_all_stays:
  assumes "detach_all_volume env list d = Some e"
  shows "\<exists>n. al_heap (dm_list d) list = Some n \<and> va_next n = None \<and> e = d"
proof -
  have "\<exists>n. al_heap (dm_list d) list = Some n \<and> va_next n = None \<and> (e = d)"
  proof (rule detach_all_volume.raw_induct
      [where P = "\<lambda>env list d e. \<exists>n. al_heap (dm_list d) list = Some n \<and> va_next n = None \<and> e = d", OF _ assms])
    fix f env list d e
    assume IH: "\<And>env list d e. f env list d = Some e \<Longrightarrow> \<exists>n. al_heap (dm_list d) list = Some n \<and> va_next n = None \<and> e = d"
      and body: "(case al_heap (dm_list d) list of None \<Rightarrow> None
        | Some n \<Rightarrow> (case va_next n of None \<Rightarrow> Some d
          | Some _ \<Rightarrow> Option.bind (detach_volume env (c_int (uint (va_VolumeID n))) list False False d)
              (\<lambda>(_, d). f env list d))) = Some e"
    show "\<exists>n. al_heap (dm_list d) list = Some n \<and> va_next n = None \<and> e = d"
    proof (cases "al_heap (dm_list d) list")
      case (Some n)
      show ?thesis
      proof (cases "va_next n")
        case None
        with Some body show ?thesis by simp
      next
        case (Some a)
        with \<open>al_heap (dm_list d) list = Some n\<close> body obtain r d1 where
          r: "detach_volume env (c_int (uint (va_VolumeID n))) list False False d = Some (r, d1)" "f env list d1 = Some e"
          by (auto split: Option.bind_splits)
        from IH [OF r(2)] have "va_next n = None"
          using detach_nofile_list [OF r(1)] \<open>al_heap (dm_list d) list = Some n\<close> by simp
        with Some show ?thesis by simp
      qed
    qed (use body in simp)
  qed
  then show ?thesis .
qed

section \<open>One client, many clients\<close>

lemma reset_overwritten_state:
  assumes "reset_overwritten env c d = Some e"
  shows "\<exists>a q. e = send_ack a q d"
proof -
  obtain q c3 v c4 a d1 where "read_int c = Some (q, c3)" "read_net_long c3 = Some (v, c4)"
    "dms_ioctl env (IOCTL_RESETOVERWRITTEN (sint v)) d = Some (a, d1)" "e = send_ack a q d1"
    using assms by (auto simp: reset_overwritten_def split: Option.bind_splits)
  with dms_ioctl_other(2) show ?thesis by blast
qed

lemma ioctl_ack:
  assumes "Option.bind (dms_ioctl env IOCTL_INVALIDCACHE d) (\<lambda>(a, d). Some (send_ack a q d)) = Some e"
  shows "\<exists>a. e = send_ack a q d"
proof -
  obtain a d1 where "dms_ioctl env IOCTL_INVALIDCACHE d = Some (a, d1)" "e = send_ack a q d1"
    using assms by (auto split: Option.bind_splits)
  with dms_ioctl_other(1) show ?thesis by blast
qed

lemma invalidate_cache_state:
  assumes "invalidate_cache env c d = Some e"
  shows "e = d \<or> (\<exists>a q. e = send_ack a q d)"
proof -
  obtain op c3 q c4 where "read_int c = Some (op, c3)" "read_int c3 = Some (q, c4)"
    using assms by (auto simp: invalidate_cache_def split: Option.bind_splits)
  with assms have "e = d \<or> Option.bind (dms_ioctl env IOCTL_INVALIDCACHE d) (\<lambda>(a, d). Some (send_ack a q d)) = Some e"
    by (auto simp: invalidate_cache_def split: if_splits Option.bind_splits)
  then show ?thesis using ioctl_ack by blast
qed

lemma attach_command_cases:
  assumes "attach_command env list rs l c d = Some e"
  shows "e = send_response 1 d \<or>
    (\<exists>v inst r d1 a. attach_volume env (c_int v) inst list rs True d = Some (r, d1) \<and> e = send_response a d1)"
proof -
  obtain v c1 where v: "read_long c = Some (v, c1)"
    using assms by (auto simp: attach_command_def split: Option.bind_splits)
  show ?thesis
  proof (cases "l > 10")
    case True
    with assms v obtain i c2 where i: "read_instance (l - 2 - 8) c1 = Some (i, c2)"
      by (auto simp: attach_command_def split: Option.bind_splits)
    with assms v True obtain r d1 where "attach_volume env (c_int (uint v)) i list rs True d = Some (r, d1)"
      "e = send_response (if r = 0 then 0 else 1) d1"
      by (auto simp: attach_command_def split: Option.bind_splits)
    then show ?thesis by blast
  qed (use assms v in \<open>simp add: attach_command_def\<close>)
qed

lemma detach_command_cases:
  assumes "detach_command env list rs l c d = Some e"
  shows "e = send_response 1 d \<or>
    (\<exists>v r d1 a. detach_volume env (c_int v) list rs True d = Some (r, d1) \<and> e = send_response a d1)"
proof -
  obtain v c1 where v: "read_long c = Some (v, c1)"
    using assms by (auto simp: detach_command_def split: Option.bind_splits)
  show ?thesis
  proof (cases "l > 10")
    case True
    with assms v obtain i c2 where i: "read_instance (l - 2 - 8) c1 = Some (i, c2)"
      by (auto simp: detach_command_def split: Option.bind_splits)
    with assms v True obtain r d1 where "detach_volume env (c_int (uint v)) list rs True d = Some (r, d1)"
      "e = send_response (if r = 0 then 0 else 1) d1"
      by (auto simp: detach_command_def split: Option.bind_splits)
    then show ?thesis by blast
  qed (use assms v in \<open>simp add: detach_command_def\<close>)
qed

lemma process_tracks:
  assumes t: "tracks list d xs" and rs: "e_rs env = 0" and p: "process_thread env list c d = Some e"
  shows "\<exists>ys. tracks list e ys"
proof -
  obtain l c1 where l: "read_short c = Some (l, c1)" using p by (auto simp: process_thread_def split: Option.bind_splits)
  then obtain opc c2 where opc: "read_short c1 = Some (opc, c2)"
    using p by (auto simp: process_thread_def split: Option.bind_splits)
  note pt = p [unfolded process_thread_def l, simplified, unfolded opc, simplified]
  consider "opc = 11" | "opc = 12" | "opc = 1 \<or> opc = 3" | "opc = 2 \<or> opc = 4" | "opc = 5" | "opc = 6"
    | "opc \<notin> {1, 2, 3, 4, 5, 6, 11, 12}" by auto
  then show ?thesis
  proof cases
    case 1
    with pt have "reset_overwritten env c2 d = Some e" by simp
    from reset_overwritten_state [OF this] t show ?thesis by auto
  next
    case 2
    with pt have "invalidate_cache env c2 d = Some e" by simp
    from invalidate_cache_state [OF this] t show ?thesis by auto
  next
    case 3
    then have "attach_command env list (opc = 1) l c2 d = Some e" using pt by auto
    then consider "e = send_response 1 d"
      | v inst r d1 where "attach_volume env (c_int v) inst list (opc = 1) True d = Some (r, d1)" "\<exists>a. e = send_response a d1"
      using attach_command_cases by blast
    then show ?thesis
    proof cases
      case (2 v inst r d1)
      from attach_file_tracks [OF t rs int_id_c_int this(1)] this(2) show ?thesis by auto
    qed (use t in auto)
  next
    case 4
    then have "detach_command env list (opc = 2) l c2 d = Some e" using pt by auto
    then consider "e = send_response 1 d"
      | v r d1 where "detach_volume env (c_int v) list (opc = 2) True d = Some (r, d1)" "\<exists>a. e = send_response a d1"
      using detach_command_cases by blast
    then show ?thesis
    proof cases
      case (2 v r d1)
      from detach_tracks [OF t rs int_id_c_int this(1)] this(2) show ?thesis by auto
    qed (use t in auto)
  next
    case 5
    with pt have "attach_all_loop env list list d = Some e" by (simp add: attach_all_volume_def)
    from attach_all_loop_tracks [OF this t tracks_ahead [OF t]] show ?thesis by blast
  next
    case 6
    with pt detach_all_stays [of env list d e] t show ?thesis by auto
  next
    case 7
    with pt t show ?thesis by auto
  qed
qed

text \<open>Clients that are served one after the other, each with its environment.\<close>

fun serve :: "nat \<Rightarrow> (denv \<times> conn) list \<Rightarrow> daemon \<Rightarrow> daemon option" where
  "serve list [] d = Some d"
| "serve list ((env, c) # cs) d = do { d \<leftarrow> process_thread env list c d; serve list cs d }"

lemma serve_tracks:
  "tracks list d xs \<Longrightarrow> \<forall>(env, c) \<in> set cs. e_rs env = 0 \<Longrightarrow> serve list cs d = Some e \<Longrightarrow> \<exists>ys. tracks list e ys"
proof (induction cs arbitrary: d xs)
  case (Cons x cs)
  obtain env c where x: "x = (env, c)" by (cases x)
  with Cons.prems(3) obtain d1 where d1: "process_thread env list c d = Some d1" "serve list cs d1 = Some e"
    by (auto split: Option.bind_splits)
  with process_tracks [OF Cons.prems(1) _ d1(1)] Cons.prems(2) x obtain ys where "tracks list d1 ys" by auto
  with Cons.IH d1(2) Cons.prems(2) show ?case by simp
qed auto

section \<open>A request to attach\<close>

lemma read_some_small:
  assumes "\<forall>i. \<not> c_errs c i" and "c_bytes c = bs @ rest" and "List.length bs \<le> 255" and "n = int (List.length bs)"
  shows "\<exists>k. read_some n c = Some (bs, c\<lparr>c_calls := k, c_bytes := rest\<rparr>)"
  using ccma_buffer_read_small [OF assms(1,3)] assms(2,4) by (auto simp: read_some_def)

lemma read_short_net:
  assumes "\<forall>i. \<not> c_errs c i" and "c_bytes c = WRITE_NET_SHORT x @ rest"
  shows "\<exists>k. read_short c = Some (sint x, c\<lparr>c_calls := k, c_bytes := rest\<rparr>)"
  using read_some_small [OF assms, of 2] by (auto simp: read_short_def WRITE_NET_SHORT_def load_store_le)

lemma read_long_le:
  assumes "\<forall>i. \<not> c_errs c i" and "c_bytes c = store_le 8 x @ rest"
  shows "\<exists>k. read_long c = Some (x, c\<lparr>c_calls := k, c_bytes := rest\<rparr>)"
  using read_some_small [OF assms, of 8] by (auto simp: read_long_def load_store_le)

definition name_bytes :: "string \<Rightarrow> u8 list" where
  "name_bytes name = map (\<lambda>c. word_of_nat (of_char c)) name @ [0]"

lemma name_bytes_back:
  assumes "CHR 0x00 \<notin> set name"
  shows "map (\<lambda>b. char_of (unat b)) (takeWhile (\<lambda>b. b \<noteq> 0) (name_bytes name)) = name"
proof -
  have u: "unat (word_of_nat (of_char c) :: u8) = of_char c" for c
  proof -
    have "(of_char c :: nat) \<in> {0..<256}" unfolding range_nat_of_char [symmetric] by simp
    then show ?thesis by (simp add: unat_of_nat take_bit_nat_eq_self)
  qed
  have "(word_of_nat (of_char c) :: u8) \<noteq> 0" if "c \<in> set name" for c
  proof
    assume "(word_of_nat (of_char c) :: u8) = 0"
    then have "of_char c = (0 :: nat)" using u [of c] by simp
    also have "(0 :: nat) = of_char CHR 0x00" by simp
    finally have "c = CHR 0x00" unfolding of_char_eq_iff .
    with that assms show False by simp
  qed
  then have "takeWhile (\<lambda>b. b \<noteq> 0) (name_bytes name) = map (\<lambda>c. word_of_nat (of_char c)) name"
    unfolding name_bytes_def by (subst takeWhile_append2) auto
  then show ?thesis by (simp add: u map_idI)
qed

lemma read_instance_name:
  assumes "\<forall>i. \<not> c_errs c i" and "c_bytes c = name_bytes name @ rest" and "List.length name \<le> 254" and "CHR 0x00 \<notin> set name"
    and "n = int (List.length name) + 1"
  shows "\<exists>k. read_instance n c = Some (name, c\<lparr>c_calls := k, c_bytes := rest\<rparr>)"
proof -
  have "List.length (name_bytes name) \<le> 255" "n = int (List.length (name_bytes name))" "0 \<in> set (name_bytes name)"
    using assms(3,5) by (simp_all add: name_bytes_def)
  with read_some_small [OF assms(1,2)] name_bytes_back [OF assms(4)] show ?thesis
    by (fastforce simp: read_instance_def)
qed

text \<open>The namenode answers with a capacity.\<close>

lemma capacity_reply:
  assumes "\<forall>i. \<not> c_errs (e_namenode env (capacity_query v)) i" and "c_bytes (e_namenode env (capacity_query v)) = WRITE_NET_LONG cap"
  shows "getCapacityFromNamenode env v = Some cap"
  using ccma_buffer_read_small [OF assms(1), of 8] assms(2)
  by (auto simp: getCapacityFromNamenode_def WRITE_NET_LONG_def load_store_le)

text \<open>What the driver needs to take a volume.\<close>

definition can_attach :: "denv \<Rightarrow> int \<Rightarrow> daemon \<Rightarrow> bool" where
  "can_attach env v d \<longleftrightarrow> e_admin env \<and> kern_ok (e_kern env) \<and> vm_free (dm_vols d) \<noteq> None \<and> e_device env v \<and>
     e_rs env = 0 \<and> e_file env"

lemma attach_volume_new:
  assumes t: "tracks list d xs" and v: "int_id v" "word_of_int v \<notin> vols xs" and can: "can_attach env v d"
    and cap: "getCapacityFromNamenode env v = Some cap" "0 < sint cap"
  shows "\<exists>e. attach_volume env v inst list rsup True d = Some (0, e) \<and> tracks list e (xs @ [(word_of_int v, inst)]) \<and>
    dm_file e = file_of (xs @ [(word_of_int v, inst)]) \<and> dm_out e = dm_out d"
proof -
  have wf: "vm_wf (dm_vols d)" and h: "holds_list list (dm_list d) xs" "distinct (map fst xs)"
    using t by (simp_all add: tracks_def)
  have q: "QueryAttachInfo list v (dm_list d) = Some None" using vlist.query_rep [OF h(1), of v] v(2) by auto
  have "vm_lookup v (dm_vols d) = None" using t v word_vols [OF v(1)] lookup_ran [OF wf] by (simp add: tracks_def)
  with can Attach_eq [OF wf, of "e_kern env" v "CAL_NR_DMSBLKS cap"] obtain d1 where
    i: "dms_ioctl env (IOCTL_ATTACH_VOL v cap) d = Some (0, d1)"
    by (auto simp: can_attach_def dms_ioctl_def DMS_IOCTL_Handler_def IOCTL_AttachVolume_def DMS_OK_def)
  note at = dms_ioctl_attach [OF wf i]
  from vlist.add_new [OF h q, of inst] obtain p l where
    l: "AddAttachToList v inst (dm_list d) = Some (p, l)" "holds_list list l (xs @ [(word_of_int v, inst)])"
      "distinct (map fst (xs @ [(word_of_int v, inst)]))" by blast
  let ?e = "d1\<lparr>dm_list := l, dm_file := file_of (xs @ [(word_of_int v, inst)])\<rparr>"
  have "attach_volume env v inst list rsup True d = Some (0, ?e)"
    using q cap i can at l(1) Save_spec [OF l(2)] by (simp add: attach_volume_def DMS_ATTACH_OK_def can_attach_def)
  moreover have "tracks list ?e (xs @ [(word_of_int v, inst)])"
    using at l(2,3) t v(1) sint_int_id [OF v(1)] by (auto simp: tracks_def vols_def)
  ultimately show ?thesis using at by simp
qed

definition packet :: "int \<Rightarrow> int \<Rightarrow> string \<Rightarrow> u8 list" where
  "packet opcode v name = WRITE_NET_SHORT (word_of_int (11 + int (List.length name))) @
     WRITE_NET_SHORT (word_of_int opcode) @ store_le 8 (word_of_int v :: u64) @ name_bytes name"

lemma sint_u16: "- (2 ^ 15) \<le> x \<Longrightarrow> x < 2 ^ 15 \<Longrightarrow> sint (word_of_int x :: u16) = x"
  by (simp add: sint_word_ariths signed_of_int signed_take_bit_int_eq_self)

lemma packet_served:
  assumes t: "tracks list d xs" and v: "int_id v" "word_of_int v \<notin> vols xs" and can: "can_attach env v d"
    and cap: "\<forall>i. \<not> c_errs (e_namenode env (capacity_query v)) i" "c_bytes (e_namenode env (capacity_query v)) = WRITE_NET_LONG cap" "0 < sint cap"
    and c: "\<forall>i. \<not> c_errs c i" "c_bytes c = packet opcode v name" "opcode = 1 \<or> opcode = 3"
    and name: "List.length name \<le> 254" "CHR 0x00 \<notin> set name"
  shows "\<exists>e. process_thread env list c d = Some e \<and> dm_out e = dm_out d @ store_le 4 (0 :: u32) \<and>
     tracks list e (xs @ [(word_of_int v, name)]) \<and> dm_file e = file_of (xs @ [(word_of_int v, name)])"
proof -
  let ?l = "11 + int (List.length name)"
  have l: "sint (word_of_int ?l :: u16) = ?l" using name(1) by (intro sint_u16) auto
  obtain k1 where r1: "read_short c = Some (?l, c\<lparr>c_calls := k1, c_bytes := WRITE_NET_SHORT (word_of_int opcode) @
      store_le 8 (word_of_int v :: u64) @ name_bytes name\<rparr>)"
    using read_short_net [OF c(1), of "word_of_int ?l"] c(2) unfolding l packet_def append_assoc by blast
  let ?c1 = "c\<lparr>c_calls := k1, c_bytes := WRITE_NET_SHORT (word_of_int opcode) @ store_le 8 (word_of_int v :: u64) @ name_bytes name\<rparr>"
  obtain k2 where r2: "read_short ?c1 = Some (opcode, ?c1\<lparr>c_calls := k2, c_bytes := store_le 8 (word_of_int v :: u64) @ name_bytes name\<rparr>)"
    using read_short_net [of ?c1 "word_of_int opcode"] c(1) sint_u16 [of opcode] c(3) by auto
  let ?c2 = "?c1\<lparr>c_calls := k2, c_bytes := store_le 8 (word_of_int v :: u64) @ name_bytes name\<rparr>"
  obtain k3 where r3: "read_long ?c2 = Some (word_of_int v, ?c2\<lparr>c_calls := k3, c_bytes := name_bytes name\<rparr>)"
    using read_long_le [of ?c2 "word_of_int v :: u64" "name_bytes name"] c(1) by auto
  let ?c3 = "?c2\<lparr>c_calls := k3, c_bytes := name_bytes name\<rparr>"
  obtain c4 where r4: "read_instance (?l - 2 - 8) ?c3 = Some (name, c4)"
    using read_instance_name [of ?c3 name "[]" "?l - 2 - 8"] c(1) name by auto
  have id: "c_int (uint (word_of_int v :: u64)) = v"
    using c_int_uint [of "word_of_int v"] sint_int_id [OF v(1)] v(1) by simp
  obtain e where e: "attach_volume env v name list (opcode = 1) True d = Some (0, e)"
    "tracks list e (xs @ [(word_of_int v, name)])" "dm_file e = file_of (xs @ [(word_of_int v, name)])" "dm_out e = dm_out d"
    using attach_volume_new [OF t v can capacity_reply [OF cap(1,2)] cap(3)] by blast
  have "attach_command env list (opcode = 1) ?l ?c2 d = Some (send_response 0 e)"
    using r3 r4 e(1) id by (simp add: attach_command_def)
  then have "process_thread env list c d = Some (send_response 0 e)"
    using r1 r2 c(3) by (auto simp: process_thread_def)
  moreover have "tracks list (send_response 0 e) (xs @ [(word_of_int v, name)])" using e(2) by simp
  moreover have "dm_out (send_response 0 e) = dm_out d @ store_le 4 (0 :: u32)"
    "dm_file (send_response 0 e) = file_of (xs @ [(word_of_int v, name)])"
    using e(3,4) by (simp_all add: send_response_def send_bytes_def)
  ultimately show ?thesis by blast
qed

section \<open>Properties\<close>

text \<open>The daemon after \<open>initialize\<close>, beside a driver that has just set up its table.\<close>

definition daemon_start :: "vmgr \<Rightarrow> daemon \<Rightarrow> bool" where
  "daemon_start m d \<longleftrightarrow> dm_list d = snd init_list \<and> vm_vols m = Map.empty \<and>
     dm_vols d = snd (Init_DMS_Volume_Manager True m)"

lemma start_tracks: "daemon_start m d \<Longrightarrow> tracks (fst init_list) d []"
  using Init_wf [of m, OF prod.collapse [symmetric]] holds_init by (auto simp: daemon_start_def tracks_def vols_def)

definition env0 :: denv where
  "env0 = \<lparr>e_kern = kern_yes, e_admin = True, e_device = \<lambda>_. True, e_file = True,
     e_namenode = \<lambda>_. \<lparr>c_bytes = WRITE_NET_LONG 4096, c_closed = True, c_errs = \<lambda>_. False, c_calls = 0\<rparr>, e_rs = 0\<rparr>"

definition daemon0 :: daemon where
  "daemon0 = \<lparr>dm_list = snd init_list, dm_file = [], dm_state = 0, dm_vols = vm1, dm_out = []\<rparr>"

lemma daemon0_start: "daemon_start vm0 daemon0"
  by (simp add: daemon_start_def daemon0_def vm1_def vm0_def)

lemma free0: "vm_free vm1 \<noteq> None"
proof -
  have "vm_entries vm1 1 = None" using vm1_wf(2) by (cases "vm_entries vm1 1") (auto dest: ranI)
  moreover have "vm_max vm1 = 4" by (simp add: vm1_def vm0_def Init_DMS_Volume_Manager_def)
  moreover have "vm_free m \<noteq> None" if "vm_entries m 1 = None" "1 < vm_max m" for m
    using that unfolding vm_free_def find_None_iff by (metis atLeastLessThan_iff order_refl set_upt)
  ultimately show ?thesis by simp
qed

definition conn0 :: "u8 list \<Rightarrow> conn" where
  "conn0 bs = \<lparr>c_bytes = bs, c_closed = True, c_errs = \<lambda>_. False, c_calls = 0\<rparr>"

text \<open>C12: Whatever clients connect and whatever they send, as long as the registration
  service accepts, after the clients that were served the list of attachments is a
  well-formed list without a double ID, and the volumes that the driver has attached are
  exactly those of the list.\<close>

theorem daemon_tracks_driver:
  assumes "daemon_start m d" and "\<forall>(env, c) \<in> set cs. e_rs env = 0" and "serve (fst init_list) cs d = Some e"
  shows "\<exists>xs. holds_list (fst init_list) (dm_list e) xs \<and> distinct (map fst xs) \<and>
     ran (vm_entries (dm_vols e)) = sint ` vols xs"
  using serve_tracks [OF start_tracks [OF assms(1)] assms(2,3)] by (auto simp: tracks_def)


lemma env0_can: "can_attach env0 7 daemon0"
  using free0 by (simp add: can_attach_def env0_def daemon0_def kern_ok_def kern_yes_def)

lemma env0_namenode:
  "\<forall>i. \<not> c_errs (e_namenode env0 q) i" "c_bytes (e_namenode env0 q) = WRITE_NET_LONG 4096" "0 < sint (4096 :: u64)"
  by (simp_all add: env0_def)

lemma conn0_reads: "\<forall>i. \<not> c_errs (conn0 bs) i" "c_bytes (conn0 bs) = bs"
  by (simp_all add: conn0_def)

lemma new7: "int_id 7" "word_of_int 7 \<notin> vols []" "CHR 0x00 \<notin> set ''i-2A''" "List.length ''i-2A'' \<le> 254" "(1 :: int) = 1 \<or> (1 :: int) = 3"
  by (simp_all add: int_id_def vols_def)


theorem daemon_tracks_driver_witness:
  "\<exists>e xs. serve (fst init_list) [(env0, conn0 (packet 1 7 ''i-2A''))] daemon0 = Some e \<and>
     holds_list (fst init_list) (dm_list e) xs \<and> ran (vm_entries (dm_vols e)) = sint ` vols xs"
proof -
  from packet_served [OF start_tracks [OF daemon0_start] new7(1,2) env0_can env0_namenode conn0_reads new7(5,4,3)]
  obtain e where "process_thread env0 (fst init_list) (conn0 (packet 1 7 ''i-2A'')) daemon0 = Some e" by blast
  then have e: "serve (fst init_list) [(env0, conn0 (packet 1 7 ''i-2A''))] daemon0 = Some e" by simp
  have "\<forall>(env, c) \<in> set [(env0, conn0 (packet 1 7 ''i-2A''))]. e_rs env = 0" by (simp add: env0_def)
  from daemon_tracks_driver [OF daemon0_start this e] e show ?thesis by blast
qed

text \<open>C25: Reading \<open>n\<close> bytes that arrive: up to 255 bytes exactly these are returned and
  taken; beyond 255, when enough bytes for the last full turn arrive, a multiple of 255 is
  read exactly and any other number writes past the buffer.\<close>

theorem ccma_buffer_read_exact:
  assumes "\<forall>i. \<not> c_errs c i" and "(if n \<le> 255 then n else 255 * ((n + 254) div 255)) \<le> List.length (c_bytes c)"
  shows "\<exists>k. ccma_buffer_read (int n) c =
    (if n \<le> 255 \<or> 255 dvd n then Some (Some (take n (c_bytes c)), c\<lparr>c_calls := k, c_bytes := drop n (c_bytes c)\<rparr>)
     else None)"
  using ccma_buffer_read_small [OF assms(1), of n] ccma_buffer_read_large [OF assms(1), of n] assms(2)
  by (cases "n \<le> 255") auto

theorem ccma_buffer_read_exact_witness:
  "ccma_buffer_read (int 256) (conn0 (replicate 510 7)) = None"
  using ccma_buffer_read_exact [OF conn0_reads(1), of 256 "replicate 510 7"] by (simp add: conn0_reads)

text \<open>A peer that closes the connection before the bytes that are asked for have
  arrived keeps the reading thread for ever.\<close>

theorem closed_peer_hangs:
  assumes "\<forall>i. \<not> c_errs c i" and "c_closed c" and "List.length (c_bytes c) < n"
  shows "ccma_buffer_read (int n) c = None"
  using read_loop_short [OF assms(1,2), of _ "[]" n] assms(3) by (auto simp: ccma_buffer_read_def)

theorem closed_peer_hangs_witness: "ccma_buffer_read (int 2) (conn0 [7]) = None"
  by (rule closed_peer_hangs) (simp_all add: conn0_def)

text \<open>Detaching all volumes returns only for an empty list.\<close>

theorem detach_all_volume_hangs:
  assumes "holds_list list (dm_list d) xs"
  shows "detach_all_volume env list d = (if xs = [] then Some d else None)"
proof -
  obtain n as where n: "al_heap (dm_list d) list = Some n" "path (al_heap (dm_list d)) (va_next n) as" "contents (dm_list d) as = xs"
    using assms by (auto simp: holds_list_def chain_def)
  show ?thesis
  proof (cases "xs = []")
    case True
    with n have "va_next n = None" by (simp add: contents_def)
    with n(1) True show ?thesis by (subst detach_all_volume.simps) simp
  next
    case False
    with n have "va_next n \<noteq> None" by (cases as) (auto simp: contents_def)
    with n(1) False detach_all_stays [of env list d] show ?thesis by (cases "detach_all_volume env list d") auto
  qed
qed

theorem detach_all_volume_hangs_witness:
  "\<exists>l a. AddAttachToList 7 ''i-2A'' (snd init_list) = Some (a, l) \<and>
     detach_all_volume env0 (fst init_list) (daemon0\<lparr>dm_list := l\<rparr>) = None"
proof -
  obtain a l where l: "AddAttachToList 7 ''i-2A'' (snd init_list) = Some (a, l)"
    "holds_list (fst init_list) l ([] @ [(word_of_int 7, ''i-2A'')])" using AddAttach_spec [OF holds_init] by blast
  have "holds_list (fst init_list) (dm_list (daemon0\<lparr>dm_list := l\<rparr>)) ([] @ [(word_of_int 7, ''i-2A'')])" using l(2) by simp
  from detach_all_volume_hangs [OF this, of env0] l(1) show ?thesis by simp
qed

end
