(* ===== verification/Request_Queue.thy ===== *)
theory Request_Queue
  imports IO_Commit
begin

text \<open>
  The entry of the driver: the handler of a request queue (\<open>DMS_Request_Handler\<close> of
  \<open>DMS_VDDriver.c\<close>) takes requests from the block layer while it has tags and hands each
  to the handler of its volume.

  The queue of the block layer is modelled by its documented interface.
  \<open>elv_next_request\<close> gives the first pending request and leaves it there;
  \<open>blk_queue_start_tag\<close> takes it off the queue with a free tag; \<open>end_request\<close> completes its
  current segment and, at the last one, takes it off and gives it back.  Which requests
  are file system requests is \<open>fs\<close>.  While a volume's handler runs the lock of the queue is
  not held: \<open>env\<close> lists, for each call of a handler, the requests that arrive meanwhile
  and how many tags become free.
\<close>

section \<open>The queue\<close>

record rqueue =
  q_plugged :: bool
  q_pending :: "nat list"
  q_tags :: nat                 \<comment> \<open>free tags, of \<open>TCQ_DEPTH\<close>\<close>
  q_taken :: "nat list"         \<comment> \<open>requests that got a tag, in this order\<close>
  q_segs :: "nat \<Rightarrow> nat"        \<comment> \<open>segments of a request that are left, when not one\<close>

definition TCQ_DEPTH :: nat where "TCQ_DEPTH = 64"

definition end_request :: "nat \<Rightarrow> int \<Rightarrow> rqueue \<times> io_st \<Rightarrow> rqueue \<times> io_st" where
  "end_request kreq uptodate = (\<lambda>(q, st).
     if q_segs q kreq \<le> 1
     then (q\<lparr>q_pending := remove1 kreq (q_pending q)\<rparr>, st\<lparr>s_ended := s_ended st @ [(kreq, uptodate)]\<rparr>)
     else (q\<lparr>q_segs := (q_segs q)(kreq := q_segs q kreq - 1)\<rparr>, st))"

text \<open>The result is 0 when there was a free tag.\<close>

definition blk_queue_start_tag :: "nat \<Rightarrow> rqueue \<Rightarrow> int \<times> rqueue" where
  "blk_queue_start_tag kreq q =
     (if q_tags q = 0 then (1, q)
      else (0, q\<lparr>q_tags := q_tags q - 1, q_pending := remove1 kreq (q_pending q), q_taken := q_taken q @ [kreq]\<rparr>))"

definition meanwhile :: "(nat list \<times> nat) list \<Rightarrow> rqueue \<Rightarrow> rqueue" where
  "meanwhile env q =
     (case env of
        [] \<Rightarrow> q
      | (new, freed) # _ \<Rightarrow> q\<lparr>q_pending := q_pending q @ new, q_tags := q_tags q + freed\<rparr>)"

section \<open>The handlers\<close>

type_synonym vio_handler = "nat \<Rightarrow> io_st \<Rightarrow> (int \<times> io_st) option"

text \<open>One request: \<open>vIO_Handler\<close> of its volume, or the end of a request without a device.\<close>

definition dispatch ::
    "(nat \<Rightarrow> vio_handler option) \<Rightarrow> (nat \<Rightarrow> int \<Rightarrow> u64 \<Rightarrow> int) \<Rightarrow> nat \<Rightarrow> io_st \<Rightarrow> io_st option" where
  "dispatch vIO_Handler end_first kreq st = do {
     k \<leftarrow> s_kreqs st kreq;
     (_, st) \<leftarrow>
       (case vIO_Handler (Get_DMS_Volume_from_KRequest k) of
          Some h \<Rightarrow> h kreq st
        | None \<Rightarrow> DMS_End_Request_Handler end_first kreq (k_nr_sectors k) 0 st);
     Some st }"

partial_function (option) DMS_Request_Handler ::
    "(nat \<Rightarrow> bool) \<Rightarrow> (nat \<Rightarrow> vio_handler option) \<Rightarrow> (nat \<Rightarrow> int \<Rightarrow> u64 \<Rightarrow> int) \<Rightarrow> (nat list \<times> nat) list
      \<Rightarrow> rqueue \<Rightarrow> io_st \<Rightarrow> (rqueue \<times> io_st) option" where
  "DMS_Request_Handler fs vIO_Handler end_first env q st =
     (if q_plugged q then Some (q, st)
      else
        (case q_pending q of
           [] \<Rightarrow> Some (q, st)
         | kreq # _ \<Rightarrow>
             (case s_kreqs st kreq of
                None \<Rightarrow> None
              | Some k \<Rightarrow>
                  if \<not> fs kreq \<or> k_special k \<noteq> None
                  then (case end_request kreq 0 (q, st) of (q, st) \<Rightarrow>
                          DMS_Request_Handler fs vIO_Handler end_first env q st)
                  else
                    (case blk_queue_start_tag kreq q of (retcode, q) \<Rightarrow>
                       if retcode \<noteq> 0 then Some (q, st)
                       else
                         (case dispatch vIO_Handler end_first kreq st of
                            None \<Rightarrow> None
                          | Some st \<Rightarrow>
                              DMS_Request_Handler fs vIO_Handler end_first (tl env) (meanwhile env q) st)))))"

text \<open>The handler of a volume in this driver, \<open>__VolumeIO_Handler\<close>.\<close>

definition volume_handler ::
    "(u64 \<Rightarrow> u64) \<Rightarrow> (nat \<Rightarrow> u64) \<Rightarrow> lb_list \<Rightarrow> (nat \<Rightarrow> int \<Rightarrow> u64 \<Rightarrow> int) \<Rightarrow> nat \<Rightarrow> vio_handler" where
  "volume_handler alf sh1 mem end_first fuel kreq st =
     map_option (\<lambda>(r, _, st). (r, st)) (VolumeIO_Handler alf sh1 mem end_first fuel kreq st)"

section \<open>The handler of the volume tests\<close>

text \<open>\<open>Test_Request_Handler\<close> ends every request at once with the result 1; the memory that a
  read clears is not modelled.\<close>

definition Test_Commit_Func ::
    "(nat \<Rightarrow> int \<Rightarrow> u64 \<Rightarrow> int) \<Rightarrow> nat \<Rightarrow> rqueue \<times> io_st \<Rightarrow> (rqueue \<times> io_st) option" where
  "Test_Commit_Func end_first req = (\<lambda>(q, st). do {
     k \<leftarrow> s_kreqs st req;
     Some (if end_first req 1 (k_nr_sectors k) = 0
           then (q\<lparr>q_tags := q_tags q + 1\<rparr>, st\<lparr>s_ended := s_ended st @ [(req, 1)]\<rparr>)
           else (q, st)) })"

partial_function (option) Test_Request_Handler ::
    "(nat \<Rightarrow> bool) \<Rightarrow> (nat \<Rightarrow> int \<Rightarrow> u64 \<Rightarrow> int) \<Rightarrow> (nat list \<times> nat) list \<Rightarrow> rqueue \<Rightarrow> io_st \<Rightarrow> (rqueue \<times> io_st) option" where
  "Test_Request_Handler fs end_first env q st =
     (if q_plugged q then Some (q, st)
      else
        (case q_pending q of
           [] \<Rightarrow> Some (q, st)
         | req # _ \<Rightarrow>
             if \<not> fs req
             then (case end_request req 0 (q, st) of (q, st) \<Rightarrow> Test_Request_Handler fs end_first env q st)
             else
               (case blk_queue_start_tag req q of (retcode, q) \<Rightarrow>
                  if retcode \<noteq> 0 then Some (q, st)
                  else
                    (case Test_Commit_Func end_first req (q, st) of
                       None \<Rightarrow> None
                     | Some (q, st) \<Rightarrow> Test_Request_Handler fs end_first (tl env) (meanwhile env q) st))))"

section \<open>The contract of a volume's handler\<close>

text \<open>A handler turns a request that is \<open>ready\<close> into one that is \<open>handled\<close>, and leaves the
  others alone.\<close>

locale request_handler =
  fixes h :: vio_handler
    and inv :: "io_st \<Rightarrow> bool"
    and ready :: "io_st \<Rightarrow> nat \<Rightarrow> bool"
    and handled :: "io_st \<Rightarrow> nat \<Rightarrow> bool"
  assumes ready_new: "ready st x \<Longrightarrow> \<exists>k. s_kreqs st x = Some k \<and> k_special k = None"
    and handles: "inv st \<Longrightarrow> ready st x \<Longrightarrow> \<exists>r st'. h x st = Some (r, st') \<and> inv st' \<and> handled st' x \<and>
      s_ended st' = s_ended st \<and> (\<forall>y. y \<noteq> x \<longrightarrow> s_kreqs st' y = s_kreqs st y) \<and>
      (\<forall>y. y \<noteq> x \<longrightarrow> ready st y \<longrightarrow> ready st' y) \<and> (\<forall>y. y \<noteq> x \<longrightarrow> handled st y \<longrightarrow> handled st' y)"
begin

lemma dispatch_ready:
  assumes "inv st" and "ready st x" and "\<And>k. s_kreqs st x = Some k \<Longrightarrow> vio (k_volume k) = Some h"
  shows "\<exists>st'. dispatch vio end_first x st = Some st' \<and> inv st' \<and> handled st' x \<and>
      s_ended st' = s_ended st \<and> (\<forall>y. y \<noteq> x \<longrightarrow> s_kreqs st' y = s_kreqs st y) \<and>
      (\<forall>y. y \<noteq> x \<longrightarrow> ready st y \<longrightarrow> ready st' y) \<and> (\<forall>y. y \<noteq> x \<longrightarrow> handled st y \<longrightarrow> handled st' y)"
proof -
  obtain k where k: "s_kreqs st x = Some k" using ready_new [OF assms(2)] by blast
  obtain r st' where "h x st = Some (r, st')" and rest: "inv st'" "handled st' x" "s_ended st' = s_ended st"
    "\<forall>y. y \<noteq> x \<longrightarrow> s_kreqs st' y = s_kreqs st y" "\<forall>y. y \<noteq> x \<longrightarrow> ready st y \<longrightarrow> ready st' y"
    "\<forall>y. y \<noteq> x \<longrightarrow> handled st y \<longrightarrow> handled st' y"
    using handles [OF assms(1,2)] by blast
  then have "dispatch vio end_first x st = Some st'"
    using k assms(3) [OF k] by (simp add: dispatch_def Get_DMS_Volume_from_KRequest_def)
  with rest show ?thesis by blast
qed

text \<open>The whole run: \<open>ts\<close> are the requests that it takes.\<close>

lemma run_queue:
  "inv st \<Longrightarrow> \<not> q_plugged q \<Longrightarrow> distinct (q_pending q @ concat (map fst env)) \<Longrightarrow>
   \<forall>x \<in> set (q_pending q @ concat (map fst env)). ready st x \<and> fs x \<and>
     (\<forall>k. s_kreqs st x = Some k \<longrightarrow> vio (k_volume k) = Some h) \<Longrightarrow>
   \<exists>ts q' st'. DMS_Request_Handler fs vio end_first env q st = Some (q', st') \<and>
     q_taken q' = q_taken q @ ts \<and>
     ts @ q_pending q' = q_pending q @ concat (map fst (take (List.length ts) env)) \<and>
     q_tags q' + List.length ts = q_tags q + sum_list (map snd (take (List.length ts) env)) \<and>
     (q_pending q' = [] \<or> q_tags q' = 0) \<and> inv st' \<and> s_ended st' = s_ended st \<and>
     (\<forall>x \<in> set ts. handled st' x) \<and>
     (\<forall>x. x \<notin> set ts \<longrightarrow> s_kreqs st' x = s_kreqs st x \<and> (handled st x \<longrightarrow> handled st' x))"
proof (induction "List.length (q_pending q) + List.length (concat (map fst env))" arbitrary: q st env rule: less_induct)
  case less
  show ?case
  proof (cases "q_pending q")
    case Nil
    then show ?thesis
      using less.prems by (intro exI [of _ "[]"]) (subst DMS_Request_Handler.simps, simp)
  next
    case (Cons x xs)
    then have x: "ready st x" "fs x" "\<And>k. s_kreqs st x = Some k \<Longrightarrow> vio (k_volume k) = Some h"
      using less.prems(4) by auto
    obtain k where k: "s_kreqs st x = Some k" "k_special k = None" using ready_new [OF x(1)] by blast
    show ?thesis
    proof (cases "q_tags q = 0")
      case True
      then show ?thesis
        using less.prems(1,2) Cons k x(2)
        by (intro exI [of _ "[]"]) (subst DMS_Request_Handler.simps, simp add: blk_queue_start_tag_def)
    next
      case False
      let ?q = "q\<lparr>q_tags := q_tags q - 1, q_pending := xs, q_taken := q_taken q @ [x]\<rparr>"
      obtain st1 where st1: "dispatch vio end_first x st = Some st1" "inv st1" "handled st1 x" "s_ended st1 = s_ended st"
        "\<forall>y. y \<noteq> x \<longrightarrow> s_kreqs st1 y = s_kreqs st y" "\<forall>y. y \<noteq> x \<longrightarrow> ready st y \<longrightarrow> ready st1 y"
        "\<forall>y. y \<noteq> x \<longrightarrow> handled st y \<longrightarrow> handled st1 y"
        using dispatch_ready [where vio = vio, OF less.prems(1) x(1,3)] by blast
      have run: "DMS_Request_Handler fs vio end_first env q st =
          DMS_Request_Handler fs vio end_first (tl env) (meanwhile env ?q) st1"
        using less.prems(2) Cons k x(2) st1(1) False
        by (subst DMS_Request_Handler.simps) (simp add: blk_queue_start_tag_def)
      define new freed where "new = (case env of [] \<Rightarrow> [] | (n, _) # _ \<Rightarrow> n)"
        and "freed = (case env of [] \<Rightarrow> 0 | (_, f) # _ \<Rightarrow> f)"
      have m: "q_pending (meanwhile env ?q) = xs @ new" "q_tags (meanwhile env ?q) = q_tags q - 1 + freed"
        "q_taken (meanwhile env ?q) = q_taken q @ [x]" "q_plugged (meanwhile env ?q) = q_plugged q"
        by (auto simp: meanwhile_def new_def freed_def split: list.splits)
      have env: "concat (map fst env) = new @ concat (map fst (tl env))"
        "concat (map fst (take (Suc n) env)) = new @ concat (map fst (take n (tl env)))"
        "sum_list (map snd (take (Suc n) env)) = freed + sum_list (map snd (take n (tl env)))" for n
        by (cases env; auto simp: new_def freed_def)+
      have "\<exists>ts q' st'. DMS_Request_Handler fs vio end_first (tl env) (meanwhile env ?q) st1 = Some (q', st') \<and>
         q_taken q' = q_taken (meanwhile env ?q) @ ts \<and>
         ts @ q_pending q' = q_pending (meanwhile env ?q) @ concat (map fst (take (List.length ts) (tl env))) \<and>
         q_tags q' + List.length ts = q_tags (meanwhile env ?q) + sum_list (map snd (take (List.length ts) (tl env))) \<and>
         (q_pending q' = [] \<or> q_tags q' = 0) \<and> inv st' \<and> s_ended st' = s_ended st1 \<and>
         (\<forall>x \<in> set ts. handled st' x) \<and>
         (\<forall>x. x \<notin> set ts \<longrightarrow> s_kreqs st' x = s_kreqs st1 x \<and> (handled st1 x \<longrightarrow> handled st' x))"
      proof (rule less.hyps)
        show "\<forall>y \<in> set (q_pending (meanwhile env ?q) @ concat (map fst (tl env))). ready st1 y \<and> fs y \<and>
            (\<forall>k. s_kreqs st1 y = Some k \<longrightarrow> vio (k_volume k) = Some h)"
        proof
          fix y assume "y \<in> set (q_pending (meanwhile env ?q) @ concat (map fst (tl env)))"
          then have "y \<in> set (xs @ concat (map fst env))" unfolding m env(1) by auto
          with Cons less.prems(3) have "y \<noteq> x" "y \<in> set (q_pending q @ concat (map fst env))" by auto
          with st1(5,6) less.prems(4) show "ready st1 y \<and> fs y \<and> (\<forall>k. s_kreqs st1 y = Some k \<longrightarrow> vio (k_volume k) = Some h)"
            by simp
        qed
      qed (use st1(2) less.prems(2,3) Cons m env(1) in \<open>auto\<close>)
      then obtain ts q' st' where r: "DMS_Request_Handler fs vio end_first (tl env) (meanwhile env ?q) st1 = Some (q', st')"
        "q_taken q' = q_taken q @ [x] @ ts"
        "ts @ q_pending q' = xs @ new @ concat (map fst (take (List.length ts) (tl env)))"
        "q_tags q' + List.length ts = q_tags q - 1 + freed + sum_list (map snd (take (List.length ts) (tl env)))"
        "q_pending q' = [] \<or> q_tags q' = 0" "inv st'" "s_ended st' = s_ended st1" "\<forall>x \<in> set ts. handled st' x"
        "\<forall>x. x \<notin> set ts \<longrightarrow> s_kreqs st' x = s_kreqs st1 x \<and> (handled st1 x \<longrightarrow> handled st' x)"
        unfolding m by auto
      show ?thesis
      proof (intro exI conjI)
        show "DMS_Request_Handler fs vio end_first env q st = Some (q', st')" using run r(1) by simp
        show "q_taken q' = q_taken q @ (x # ts)" using r(2) by simp
        show "(x # ts) @ q_pending q' = q_pending q @ concat (map fst (take (List.length (x # ts)) env))"
          using r(3) Cons env(2) by simp
        show "q_tags q' + List.length (x # ts) = q_tags q + sum_list (map snd (take (List.length (x # ts)) env))"
          using r(4) False env(3) [of "List.length ts"] by simp
        show "\<forall>y \<in> set (x # ts). handled st' y" using r(8,9) st1(3) by auto
        show "\<forall>y. y \<notin> set (x # ts) \<longrightarrow> s_kreqs st' y = s_kreqs st y \<and> (handled st y \<longrightarrow> handled st' y)"
          using r(9) st1(5,7) by auto
      qed (use r st1(4) in simp_all)
    qed
  qed
qed

end

section \<open>The handler of a volume keeps the contract\<close>

lemma drain_DIO:
  "s_iors st i = Some r \<Longrightarrow> drain n (Get_Next_DIO_from_IO_Request (Some i)) st =
     map_option (\<lambda>(xs, dl). (xs, st\<lparr>s_iors := (s_iors st)(i \<mapsto> r\<lparr>r_diolist := dl\<rparr>)\<rparr>)) (drain n Get_Next_User_Data (r_diolist r))"
proof (induction n arbitrary: st r)
  case (Suc n)
  show ?case
  proof (cases "Get_Next_User_Data (r_diolist r)")
    case None
    with Suc.prems show ?thesis by (simp add: Get_Next_DIO_from_IO_Request_def)
  next
    case (Some p)
    obtain m dl where p: "p = (m, dl)" by (cases p)
    let ?st = "st\<lparr>s_iors := (s_iors st)(i \<mapsto> r\<lparr>r_diolist := dl\<rparr>)\<rparr>"
    have g: "Get_Next_DIO_from_IO_Request (Some i) st = Some (m, ?st)"
      using Suc.prems Some p by (simp add: Get_Next_DIO_from_IO_Request_def)
    show ?thesis
    proof (cases m)
      case None
      with g Some p show ?thesis by (simp del: fun_upd_apply)
    next
      case (Some x)
      have "drain n (Get_Next_DIO_from_IO_Request (Some i)) ?st =
          map_option (\<lambda>(xs, d). (xs, ?st\<lparr>s_iors := (s_iors ?st)(i \<mapsto> (r\<lparr>r_diolist := dl\<rparr>)\<lparr>r_diolist := d\<rparr>)\<rparr>))
            (drain n Get_Next_User_Data dl)"
        using Suc.IH [of ?st "r\<lparr>r_diolist := dl\<rparr>"] by (simp del: fun_upd_apply add: fun_upd_same)
      with g Some p \<open>Get_Next_User_Data (r_diolist r) = Some p\<close> show ?thesis
        by (cases "drain n Get_Next_User_Data dl") (auto simp del: fun_upd_apply)
    qed
  qed
qed simp

text \<open>The DIOs that a request of \<open>n\<close> blocks from \<open>s\<close> is split into.\<close>

definition dio_views :: "(u64 \<Rightarrow> u64) \<Rightarrow> int \<Rightarrow> u64 \<Rightarrow> nat \<Rightarrow> (u64 \<times> u64 \<times> int \<times> u64 list option) list" where
  "dio_views alf dir s n =
     (if dir = DMS_OP_READ then [(s, of_nat n, DMS_OP_READ, Some (map (\<lambda>j. s + of_nat j) [0..<n]))]
      else map (run_view alf) (blk_runs alf s n))"

definition queued :: "nat \<Rightarrow> io_st \<Rightarrow> nat \<Rightarrow> bool" where
  "queued fuel st x \<longleftrightarrow> (\<exists>k s n. s_kreqs st x = Some k \<and> k_special k = None \<and>
     (k_dir k = DMS_OP_READ \<or> k_dir k = DMS_OP_WRITE) \<and> request_covers k s n \<and> 0 < n \<and> n + 1 < fuel)"

definition split_up :: "(u64 \<Rightarrow> u64) \<Rightarrow> io_st \<Rightarrow> nat \<Rightarrow> bool" where
  "split_up alf st x \<longleftrightarrow> (\<exists>k s n ior r. s_kreqs st x = Some k \<and> k_special k = Some ior \<and> request_covers k s n \<and>
     s_iors st ior = Some r \<and> r_kreq r = x \<and>
     map (\<lambda>a. map_option dio_view (s_dios st a)) (dl_elems (r_diolist r)) = map Some (dio_views alf (k_dir k) s n))"

lemma blk_runs_length: "List.length (blk_runs alf s n) \<le> n"
proof (induction alf s n rule: blk_runs.induct)
  case (1 alf s n)
  show ?case
  proof (cases "n = 0")
    case False
    from "1.IH" [OF this] flag_run_pos [of n alf s] flag_run_bounds(1) [of alf _ s n] False show ?thesis
      by (subst blk_runs.simps) (simp add: Let_def)
  qed (simp add: blk_runs.simps)
qed

lemma dio_views_length: "0 < n \<Longrightarrow> List.length (dio_views alf d s n) \<le> n"
  using blk_runs_length [of alf s n] by (simp add: dio_views_def)

lemma Make_DIO_queued:
  assumes "chunked alf" and "shift_ok alf sh1" and "io_wf st" and "s_kreqs st x = Some k"
    and "k_dir k = DMS_OP_READ \<or> k_dir k = DMS_OP_WRITE" and "request_covers k s n" and "0 < n"
  shows "\<exists>st' r. Make_DIO_Requst alf sh1 mem end_first x st = Some (Some (s_next st), st') \<and> io_wf st'
    \<and> s_iors st' = (s_iors st)(s_next st \<mapsto> r) \<and> r_kreq r = x
    \<and> map (\<lambda>a. map_option dio_view (s_dios st' a)) (dl_elems (r_diolist r)) = map Some (dio_views alf (k_dir k) s n)
    \<and> (\<forall>b e. s_dios st b = Some e \<longrightarrow> s_dios st' b = Some e) \<and> s_kreqs st' = s_kreqs st \<and> s_ended st' = s_ended st"
proof (cases "k_dir k = DMS_OP_READ")
  case True
  from Make_DIO_read [OF assms(3,4) True assms(6,7), of alf sh1 mem end_first] True show ?thesis
    by (fastforce simp: dio_views_def)
next
  case False
  with assms(5) have w: "k_dir k = DMS_OP_WRITE" "DMS_OP_WRITE \<noteq> DMS_OP_READ" by (auto simp: op_defs)
  from Make_DIO_write [OF assms(1-4) w(1) assms(6), of mem end_first] w show ?thesis
    by (fastforce simp: dio_views_def comp_def)
qed

lemma drain_nodes: "drain n Get_Next_User_Data d = Some (xs, d') \<Longrightarrow> dl_nodes d' = dl_nodes d"
proof (induction n arbitrary: d xs)
  case (Suc n)
  then obtain m e where g: "Get_Next_User_Data d = Some (m, e)" by (cases "Get_Next_User_Data d") auto
  then have e: "dl_nodes e = dl_nodes d" by (auto simp: Get_Next_User_Data_def split: option.splits)
  show ?case
  proof (cases m)
    case None
    with Suc.prems g e show ?thesis by simp
  next
    case (Some x)
    with Suc.prems g obtain ys where "drain n Get_Next_User_Data e = Some (ys, d')" by auto
    with Suc.IH e show ?thesis by simp
  qed
qed simp

lemma VolumeIO_Handler_queued:
  assumes "chunked alf" and "shift_ok alf sh1" and wf: "io_wf st" and q: "queued fuel st x"
  shows "\<exists>st'. volume_handler alf sh1 mem end_first fuel x st = Some (DMS_OK, st') \<and> io_wf st' \<and> split_up alf st' x \<and>
    s_ended st' = s_ended st \<and> (\<forall>y. y \<noteq> x \<longrightarrow> s_kreqs st' y = s_kreqs st y) \<and>
    (\<forall>i. i \<noteq> s_next st \<longrightarrow> s_iors st' i = s_iors st i) \<and> (\<forall>b e. s_dios st b = Some e \<longrightarrow> s_dios st' b = Some e)"
proof -
  obtain k s n where k: "s_kreqs st x = Some k" "k_special k = None"
    "k_dir k = DMS_OP_READ \<or> k_dir k = DMS_OP_WRITE" "request_covers k s n" "0 < n" "n + 1 < fuel"
    using q by (auto simp: queued_def)
  let ?i = "s_next st"
  obtain st1 r where mk: "Make_DIO_Requst alf sh1 mem end_first x st = Some (Some ?i, st1)" "io_wf st1"
    "s_iors st1 = (s_iors st)(?i \<mapsto> r)" "r_kreq r = x"
    "map (\<lambda>a. map_option dio_view (s_dios st1 a)) (dl_elems (r_diolist r)) = map Some (dio_views alf (k_dir k) s n)"
    "\<forall>b e. s_dios st b = Some e \<longrightarrow> s_dios st1 b = Some e" "s_kreqs st1 = s_kreqs st" "s_ended st1 = s_ended st"
    using Make_DIO_queued [OF assms(1,2) wf k(1,3,4,5), of mem end_first] by blast
  have rw: "ior_wf st1 ?i r" using io_wf_ior [OF mk(2)] mk(3) by simp
  then have inv: "dl_inv (r_diolist r)" by (simp add: ior_wf_def)
  have len: "List.length (dl_elems (r_diolist r)) < fuel"
    using arg_cong [OF mk(5), of List.length] dio_views_length [OF k(5), of alf "k_dir k" s] k(6) by simp
  from dlw.drain_all [OF inv, of fuel] len obtain dl where
    dr: "drain fuel Get_Next_User_Data (dl_reset (r_diolist r)) = Some (dl_elems (r_diolist r), dl)"
      "dl_inv dl" "dl_elems dl = dl_elems (r_diolist r)" by auto
  have nodes: "dl_nodes dl = dl_nodes (r_diolist r)"
    using drain_nodes [OF dr(1)] by (simp add: dl_reset_def Reset_DList_Iterator_def)
  define st2 where "st2 = st1\<lparr>s_kreqs := (s_kreqs st1)(x \<mapsto> k\<lparr>k_special := Some ?i\<rparr>)\<rparr>"
  define st3 where "st3 = st2\<lparr>s_iors := (s_iors st2)(?i \<mapsto> r\<lparr>r_diolist := dl\<rparr>)\<rparr>"
  obtain c where rs: "Reset_DList_Iterator (r_diolist r) = (c, dl_reset (r_diolist r))"
    by (cases "Reset_DList_Iterator (r_diolist r)") (simp add: dl_reset_def)
  have "Add_IO_Reqeust_to_KRequest x (Some ?i) st1 = Some (- DMS_FAIL, st2)"
    using k(1) mk(3,7) by (simp add: Add_IO_Reqeust_to_KRequest_def st2_def)
  moreover have i2: "s_iors st2 ?i = Some r" using mk(3) by (simp add: st2_def)
  then have "Reset_IO_Request_Iterator (Some ?i) st2 =
      Some (c, st2\<lparr>s_iors := (s_iors st2)(?i \<mapsto> r\<lparr>r_diolist := dl_reset (r_diolist r)\<rparr>)\<rparr>)"
    using rs by (simp add: Reset_IO_Request_Iterator_def)
  moreover have "drain fuel (Get_Next_DIO_from_IO_Request (Some ?i))
      (st2\<lparr>s_iors := (s_iors st2)(?i \<mapsto> r\<lparr>r_diolist := dl_reset (r_diolist r)\<rparr>)\<rparr>) = Some (dl_elems (r_diolist r), st3)"
    using dr(1) by (subst drain_DIO [where r = "r\<lparr>r_diolist := dl_reset (r_diolist r)\<rparr>"]) (simp_all add: st3_def)
  ultimately have h: "volume_handler alf sh1 mem end_first fuel x st = Some (DMS_OK, st3)"
    using mk(1) by (simp add: volume_handler_def VolumeIO_Handler_def)
  have "io_wf (st1\<lparr>s_kreqs := (s_kreqs st1)(x \<mapsto> k\<lparr>k_special := Some ?i\<rparr>), s_ended := s_ended st1\<rparr>)"
    by (intro io_wf_kreqs [OF mk(2)]) auto
  then have wf2: "io_wf st2" by (simp add: st2_def)
  have wf3: "io_wf st3"
    unfolding io_wf_def
  proof (intro conjI allI impI)
    show "a < s_next st3" if "s_dios st3 a = Some d" for a d
      using that io_wf_dio [OF wf2, of a d] by (simp add: st3_def)
    show "ior_wf st3 i r'" if "s_iors st3 i = Some r'" for i r'
    proof (cases "i = ?i")
      case True
      with that io_wf_ior [OF wf2 i2] dr(2,3) nodes show ?thesis by (auto simp: st3_def ior_wf_def)
    next
      case False
      with that io_wf_ior [OF wf2, of i r'] show ?thesis by (auto simp: st3_def ior_wf_def)
    qed
  qed
  have "split_up alf st3 x"
    unfolding split_up_def
    using k(4) mk(4,5) dr(3)
    by (intro exI [of _ "k\<lparr>k_special := Some ?i\<rparr>"] exI [of _ s] exI [of _ n] exI [of _ ?i] exI [of _ "r\<lparr>r_diolist := dl\<rparr>"])
      (simp add: st3_def st2_def request_covers_def)
  with h wf3 mk show ?thesis by (auto simp: st3_def st2_def)
qed

lemma split_up_frame:
  assumes wf: "io_wf st" and s: "split_up alf st y" and "s_kreqs st' y = s_kreqs st y"
    and i: "\<forall>i. i \<noteq> s_next st \<longrightarrow> s_iors st' i = s_iors st i" and d: "\<forall>b e. s_dios st b = Some e \<longrightarrow> s_dios st' b = Some e"
  shows "split_up alf st' y"
proof -
  obtain k t n ior r where k: "s_kreqs st y = Some k" "k_special k = Some ior" "request_covers k t n"
    "s_iors st ior = Some r" "r_kreq r = y"
    "map (\<lambda>a. map_option dio_view (s_dios st a)) (dl_elems (r_diolist r)) = map Some (dio_views alf (k_dir k) t n)"
    using s by (auto simp: split_up_def)
  have w: "ior_wf st ior r" using io_wf_ior [OF wf k(4)] .
  then have "s_iors st' ior = Some r" using i k(4) by (auto simp: ior_wf_def)
  moreover have "map (\<lambda>a. map_option dio_view (s_dios st' a)) (dl_elems (r_diolist r)) =
      map (\<lambda>a. map_option dio_view (s_dios st a)) (dl_elems (r_diolist r))"
    using w d by (intro map_cong refl) (auto simp: ior_wf_def)
  ultimately show ?thesis using k assms(3) unfolding split_up_def by metis
qed

lemma volume_contract:
  assumes "chunked alf" and "shift_ok alf sh1"
  shows "request_handler (volume_handler alf sh1 mem end_first fuel) io_wf (queued fuel) (split_up alf)"
proof
  show "\<exists>k. s_kreqs st x = Some k \<and> k_special k = None" if "queued fuel st x" for st x
    using that by (auto simp: queued_def)
  show "\<exists>r st'. volume_handler alf sh1 mem end_first fuel x st = Some (r, st') \<and> io_wf st' \<and> split_up alf st' x \<and>
      s_ended st' = s_ended st \<and> (\<forall>y. y \<noteq> x \<longrightarrow> s_kreqs st' y = s_kreqs st y) \<and>
      (\<forall>y. y \<noteq> x \<longrightarrow> queued fuel st y \<longrightarrow> queued fuel st' y) \<and> (\<forall>y. y \<noteq> x \<longrightarrow> split_up alf st y \<longrightarrow> split_up alf st' y)"
    if w: "io_wf st" and q: "queued fuel st x" for st x
  proof -
    obtain st' where st': "volume_handler alf sh1 mem end_first fuel x st = Some (DMS_OK, st')" "io_wf st'" "split_up alf st' x"
      "s_ended st' = s_ended st" "\<forall>y. y \<noteq> x \<longrightarrow> s_kreqs st' y = s_kreqs st y"
      "\<forall>i. i \<noteq> s_next st \<longrightarrow> s_iors st' i = s_iors st i" "\<forall>b e. s_dios st b = Some e \<longrightarrow> s_dios st' b = Some e"
      using VolumeIO_Handler_queued [OF assms w q] by blast
    moreover have "\<forall>y. y \<noteq> x \<longrightarrow> queued fuel st y \<longrightarrow> queued fuel st' y" using st'(5) by (simp add: queued_def)
    moreover have "\<forall>y. y \<noteq> x \<longrightarrow> split_up alf st y \<longrightarrow> split_up alf st' y"
      using split_up_frame [OF w _ _ st'(6,7)] st'(5) by blast
    ultimately show ?thesis by blast
  qed
qed

interpretation prod: request_handler "volume_handler (Get_Allocation_Flag False) sh1 mem end_first fuel" io_wf
  "queued fuel" "split_up (Get_Allocation_Flag False)" for sh1 mem end_first fuel
proof (rule volume_contract)
  have alf: "Get_Allocation_Flag False = (\<lambda>_. 0)" by (simp add: fun_eq_iff Get_Allocation_Flag_def)
  show "chunked (Get_Allocation_Flag False)" "shift_ok (Get_Allocation_Flag False) sh1"
    unfolding alf using shift_ok_zero by (simp_all add: chunked_def)
qed

section \<open>Requests that are skipped\<close>

lemma skip_request:
  "\<not> q_plugged q \<Longrightarrow> q_pending q = x # xs \<Longrightarrow> s_kreqs st x = Some k \<Longrightarrow> \<not> fs x \<or> k_special k \<noteq> None \<Longrightarrow>
   \<exists>f. DMS_Request_Handler fs vio end_first env q st =
     DMS_Request_Handler fs vio end_first env (q\<lparr>q_pending := xs, q_segs := f\<rparr>) (st\<lparr>s_ended := s_ended st @ [(x, 0)]\<rparr>)"
proof (induction "q_segs q x" arbitrary: q rule: less_induct)
  case less
  show ?case
  proof (cases "q_segs q x \<le> 1")
    case True
    have "q\<lparr>q_pending := xs, q_segs := q_segs q\<rparr> = q\<lparr>q_pending := xs\<rparr>" by simp
    with True less.prems show ?thesis
      by (intro exI [of _ "q_segs q"]) (subst DMS_Request_Handler.simps, auto simp: end_request_def)
  next
    case False
    let ?q = "q\<lparr>q_segs := (q_segs q)(x := q_segs q x - 1)\<rparr>"
    have "DMS_Request_Handler fs vio end_first env q st = DMS_Request_Handler fs vio end_first env ?q st"
      using False less.prems by (subst DMS_Request_Handler.simps) (auto simp: end_request_def)
    moreover have "q_segs ?q x < q_segs q x" using False by simp
    from less.hyps [OF this] less.prems obtain f where
      "DMS_Request_Handler fs vio end_first env ?q st =
       DMS_Request_Handler fs vio end_first env (?q\<lparr>q_pending := xs, q_segs := f\<rparr>) (st\<lparr>s_ended := s_ended st @ [(x, 0)]\<rparr>)"
      by auto
    ultimately show ?thesis by (intro exI [of _ f]) simp
  qed
qed

text \<open>Requests that are no file system requests, or in flight already, are all ended with 0.\<close>

lemma skip_requests:
  "\<not> q_plugged q \<Longrightarrow> \<forall>x \<in> set (q_pending q). \<exists>k. s_kreqs st x = Some k \<and> (\<not> fs x \<or> k_special k \<noteq> None) \<Longrightarrow>
   \<exists>f. DMS_Request_Handler fs vio end_first env q st =
     Some (q\<lparr>q_pending := [], q_segs := f\<rparr>, st\<lparr>s_ended := s_ended st @ map (\<lambda>x. (x, 0)) (q_pending q)\<rparr>)"
proof (induction "q_pending q" arbitrary: q st)
  case Nil
  have "q\<lparr>q_pending := [], q_segs := q_segs q\<rparr> = q" using Nil(1) by simp
  with Nil show ?case by (intro exI [of _ "q_segs q"]) (subst DMS_Request_Handler.simps, simp)
next
  case (Cons x xs)
  note p = Cons.hyps(2) [symmetric]
  obtain k where k: "s_kreqs st x = Some k" "\<not> fs x \<or> k_special k \<noteq> None" using Cons.prems(2) p by auto
  let ?st = "st\<lparr>s_ended := s_ended st @ [(x, 0)]\<rparr>"
  from skip_request [where fs = fs and vio = vio and end_first = end_first and env = env, OF Cons.prems(1) p k] obtain f where f: "DMS_Request_Handler fs vio end_first env q st =
      DMS_Request_Handler fs vio end_first env (q\<lparr>q_pending := xs, q_segs := f\<rparr>) ?st" by blast
  let ?q = "q\<lparr>q_pending := xs, q_segs := f\<rparr>"
  have "\<exists>g. DMS_Request_Handler fs vio end_first env ?q ?st =
     Some (?q\<lparr>q_pending := [], q_segs := g\<rparr>, ?st\<lparr>s_ended := s_ended ?st @ map (\<lambda>x. (x, 0)) (q_pending ?q)\<rparr>)"
    using Cons.prems p by (intro Cons.hyps(1)) auto
  with f p show ?case by auto
qed

section \<open>Properties\<close>


definition queue_ex :: rqueue where
  "queue_ex = \<lparr>q_plugged = False, q_pending = [7], q_tags = TCQ_DEPTH, q_taken = [], q_segs = (\<lambda>_. 1)\<rparr>"


text \<open>A request for a volume without a handler takes a tag and is never ended: it has no
  I/O request, so the end of a request refuses it.\<close>

theorem request_without_device_is_lost:
  assumes "\<not> q_plugged q" and "q_pending q = [x]" and "0 < q_tags q" and "fs x"
    and "s_kreqs st x = Some k" and "k_special k = None" and "vio (k_volume k) = None"
  shows "DMS_Request_Handler fs vio end_first [] q st =
    Some (q\<lparr>q_tags := q_tags q - 1, q_pending := [], q_taken := q_taken q @ [x]\<rparr>, st)"
proof -
  have "dispatch vio end_first x st = Some st"
    using assms(5-7) by (simp add: dispatch_def Get_DMS_Volume_from_KRequest_def DMS_End_Request_Handler_def)
  with assms show ?thesis
    by (subst DMS_Request_Handler.simps, simp add: blk_queue_start_tag_def meanwhile_def)
      (subst DMS_Request_Handler.simps, simp)
qed

theorem request_without_device_is_lost_witness:
  "DMS_Request_Handler (\<lambda>_. True) (\<lambda>_. None) (\<lambda>_ _ _. 0) [] queue_ex (st_ex kreq_ex) =
    Some (queue_ex\<lparr>q_tags := 63, q_pending := [], q_taken := [7]\<rparr>, st_ex kreq_ex)"
  using request_without_device_is_lost [of queue_ex 7 "\<lambda>_. True" "st_ex kreq_ex" kreq_ex "\<lambda>_. None" "\<lambda>_ _ _. 0"] st_ex_wf(2)
  by (simp add: queue_ex_def kreq_ex_def TCQ_DEPTH_def)

end
