(* ===== verification/Datanode_Request.thy ===== *)
theory Datanode_Request
  imports Metadata_Manager
begin

text \<open>
  The requests to a datanode: collecting the IDs of the located requests that go to it
  (\<open>Integrate_to_DN_Service_Request\<close> of \<open>Payload.c\<close>), the body and the header
  (\<open>Datanode_Protocol.c\<close>), and the tag that a response is matched with
  (\<open>Generate_Request_of_Datanode\<close> of \<open>Payload_Manager.c\<close>, \<open>Check_DN_Tag_by_ID\<close>).

  A body is the image of the union in memory, 264 bytes: two counts, 4 bytes of padding
  before the 8-byte integers, and the two arrays of 16.  The body is packed behind the
  counts without regard to where the second array starts, which is within the union;
  an access outside the union or outside the arrays of the request is a fault.
\<close>

section \<open>Data\<close>

record dn_sreq =
  sr_nr_hbids :: int           \<comment> \<open>\<open>short\<close>\<close>
  sr_nr_triplets :: int
  sr_hbids :: "u64 list"       \<comment> \<open>the arrays, 16 entries each\<close>
  sr_triplets :: "u64 list"

record datanode_tag =
  dt_dnrid :: u64
  dt_sreq :: dn_sreq
  dt_retry_count :: int

definition sreq_zero :: dn_sreq where
  "sreq_zero = \<lparr>sr_nr_hbids = 0, sr_nr_triplets = 0, sr_hbids = replicate MAX_BLKS 0, sr_triplets = replicate MAX_BLKS 0\<rparr>"

definition SIZEOF_DN_BODY :: nat where "SIZEOF_DN_BODY = 264"

section \<open>Collecting\<close>

text \<open>\<open>memcpy\<close> of \<open>n\<close> of the integers \<open>vs\<close> to position \<open>i\<close> of an array; a negative \<open>n\<close> is a
  huge size.\<close>

definition copy_longs :: "int \<Rightarrow> int \<Rightarrow> u64 list \<Rightarrow> u64 list \<Rightarrow> u64 list option" where
  "copy_longs i n vs arr =
     (if 0 \<le> i \<and> 0 \<le> n \<and> nat n \<le> length vs \<and> nat i + nat n \<le> length arr
      then Some (take (nat i) arr @ take (nat n) vs @ drop (nat i + nat n) arr) else None)"

definition Integrate_to_DN_Service_Request :: "dn_sreq \<Rightarrow> located_request \<Rightarrow> nat \<Rightarrow> (int \<times> dn_sreq) option" where
  "Integrate_to_DN_Service_Request sreq lr dn_index =
     (if dn_index < length (lr_dn_locs lr) then do {
        let dn_loc = lr_dn_locs lr ! dn_index;
        hbids \<leftarrow> copy_longs (sr_nr_hbids sreq) (lr_nr_hbids lr) (lr_HBIDs lr) (sr_hbids sreq);
        triplets \<leftarrow> copy_longs (sr_nr_triplets sreq) (dl_nr_triplets dn_loc) (dl_triplets dn_loc) (sr_triplets sreq);
        Some (DMS_OK, sreq\<lparr>sr_hbids := hbids, sr_triplets := triplets,
                           sr_nr_hbids := c_short (sr_nr_hbids sreq + lr_nr_hbids lr),
                           sr_nr_triplets := c_short (sr_nr_triplets sreq + dl_nr_triplets dn_loc)\<rparr>) }
      else None)"

section \<open>The body\<close>

definition store_at :: "int \<Rightarrow> u8 list \<Rightarrow> u8 list \<Rightarrow> u8 list option" where
  "store_at off bs img =
     (if 0 \<le> off \<and> nat off + length bs \<le> length img
      then Some (take (nat off) img @ bs @ drop (nat off + length bs) img) else None)"

fun pack_longs :: "nat \<Rightarrow> nat \<Rightarrow> int \<Rightarrow> u64 list \<Rightarrow> u8 list \<Rightarrow> u8 list option" where
  "pack_longs i 0 buf vs img = Some img"
| "pack_longs i (Suc n) buf vs img =
     (if i < length vs
      then do { img \<leftarrow> store_at (buf + 8 * int i) (store_le 8 (htonll (vs ! i))) img; pack_longs (Suc i) n buf vs img }
      else None)"

text \<open>The length is computed in an unsigned 64-bit type and returned as an \<open>int\<close>.\<close>

definition Pack_HBIDs :: "int \<Rightarrow> int \<Rightarrow> u64 list \<Rightarrow> u8 list \<Rightarrow> (int \<times> u8 list) option" where
  "Pack_HBIDs buf nr_hbids hbids img = do {
     img \<leftarrow> pack_longs 0 (nat nr_hbids) buf hbids img; Some (c_int (8 * nr_hbids), img) }"

definition Pack_Triplets :: "int \<Rightarrow> int \<Rightarrow> u64 list \<Rightarrow> u8 list \<Rightarrow> (int \<times> u8 list) option" where
  "Pack_Triplets buf nr_triplets triplets img = do {
     img \<leftarrow> pack_longs 0 (nat nr_triplets) buf triplets img; Some (c_int (8 * nr_triplets), img) }"

definition Generate_DN_Request_Body :: "dn_sreq \<Rightarrow> (int \<times> u8 list) option" where
  "Generate_DN_Request_Body sreq = do {
     let body = replicate SIZEOF_DN_BODY 0;
     body \<leftarrow> store_at 0 (store_le 2 (htons (word_of_int (sr_nr_hbids sreq)))) body;
     body \<leftarrow> store_at 2 (store_le 2 (htons (word_of_int (sr_nr_triplets sreq)))) body;
     let len = 2 + 2;
     (l, body) \<leftarrow> Pack_HBIDs 8 (sr_nr_hbids sreq) (sr_hbids sreq) body;
     let len = len + l;
     (l, body) \<leftarrow> Pack_Triplets (8 + 8 * sr_nr_hbids sreq) (sr_nr_triplets sreq) (sr_triplets sreq) body;
     Some (c_int (len + l), body) }"

definition Parse_DN_Service_SResponse :: "u8 list \<Rightarrow> (int \<times> int) option" where
  "Parse_DN_Service_SResponse buf = do { (nr_hbids, len) \<leftarrow> READ_NET_SHORT buf 0; Some (int len, sint nr_hbids) }"

section \<open>The header and the tag\<close>

definition Parse_DN_Protocol_Header :: "dms_header \<Rightarrow> int \<times> dms_header" where
  "Parse_DN_Protocol_Header header =
     (case Parse_DMS_Protocol_Header header of (retcode, header) \<Rightarrow>
        (if h_magic header \<noteq> MAGIC_NUM then - DMS_FAIL else retcode, header))"

definition Generate_DN_Protocol_Header :: "u64 \<Rightarrow> u8 \<Rightarrow> u16 \<Rightarrow> u32 \<Rightarrow> u64 \<Rightarrow> u64 \<Rightarrow> int \<times> dms_header \<times> u64" where
  "Generate_DN_Protocol_Header now retry service_type body_length pdata dnph_id_gen =
     (case Generate_DMS_Protocol_Header now retry service_type (word_of_int SERVICE) body_length pdata (dnph_id_gen + 1) of
        (retcode, header) \<Rightarrow> (retcode, header, dnph_id_gen + 1))"

text \<open>The metadata is at address \<open>p\<close>, its operation is \<open>op\<close>.\<close>

definition Generate_Request_of_Datanode ::
    "u64 \<Rightarrow> u64 \<Rightarrow> int \<Rightarrow> datanode_tag \<Rightarrow> dms_header \<Rightarrow> u64 \<Rightarrow> (int \<times> dms_header \<times> u8 list \<times> datanode_tag \<times> u64) option" where
  "Generate_Request_of_Datanode now p op ddt header gen = do {
     (retcode, body) \<leftarrow> Generate_DN_Request_Body (dt_sreq ddt);
     if retcode < 0 then Some (retcode, header, body, ddt, gen)
     else
       (case Generate_DN_Protocol_Header now (word_of_int (dt_retry_count ddt)) (word_of_int op) (word_of_int retcode) p gen of
          (retcode, header, gen) \<Rightarrow>
            Some (retcode, header, body,
              ddt\<lparr>dt_retry_count := c_int (dt_retry_count ddt + 1), dt_dnrid := h_serviceID header\<rparr>, gen)) }"

definition Check_DN_Tag_by_ID :: "u64 \<Rightarrow> datanode_tag \<Rightarrow> bool" where
  "Check_DN_Tag_by_ID dnrid ddt \<longleftrightarrow> dt_dnrid ddt = dnrid"

section \<open>The layout of the body\<close>

lemma store_at_mid:
  "off = int (length pre) \<Longrightarrow> length mid = length bs \<Longrightarrow> store_at off bs (pre @ mid @ post) = Some (pre @ bs @ post)"
  by (simp add: store_at_def)

definition net_longs :: "u64 list \<Rightarrow> u8 list" where
  "net_longs vs = concat (map WRITE_NET_LONG vs)"

lemma length_net_longs [simp]: "length (net_longs vs) = 8 * length vs"
  by (induction vs) (simp_all add: net_longs_def)

lemma pack_longs_spec:
  "i + n \<le> length vs \<Longrightarrow> buf + 8 * int i = int (length pre) \<Longrightarrow> length mid = 8 * n \<Longrightarrow>
   pack_longs i n buf vs (pre @ mid @ post) = Some (pre @ net_longs (take n (drop i vs)) @ post)"
proof (induction n arbitrary: i pre mid)
  case 0
  then show ?case by (simp add: net_longs_def)
next
  case (Suc n)
  have w: "length (store_le 8 (htonll (vs ! i))) = 8" by simp
  have m: "mid = take 8 mid @ drop 8 mid" "length (take 8 mid) = 8" using Suc.prems(3) by simp_all
  have "store_at (buf + 8 * int i) (store_le 8 (htonll (vs ! i))) (pre @ take 8 mid @ drop 8 mid @ post) =
      Some (pre @ store_le 8 (htonll (vs ! i)) @ drop 8 mid @ post)"
    using Suc.prems(2) m(2) w by (intro store_at_mid) simp_all
  moreover have eq: "pre @ mid @ post = pre @ take 8 mid @ drop 8 mid @ post" by simp
  ultimately have st: "store_at (buf + 8 * int i) (store_le 8 (htonll (vs ! i))) (pre @ mid @ post) =
      Some ((pre @ store_le 8 (htonll (vs ! i))) @ drop 8 mid @ post)" by (simp only: eq append_assoc)
  have "pack_longs (Suc i) n buf vs ((pre @ store_le 8 (htonll (vs ! i))) @ drop 8 mid @ post) =
      Some ((pre @ store_le 8 (htonll (vs ! i))) @ net_longs (take n (drop (Suc i) vs)) @ post)"
    using Suc.prems by (intro Suc.IH) simp_all
  moreover have "take (Suc n) (drop i vs) = vs ! i # take n (drop (Suc i) vs)"
    using Suc.prems(1) by (simp add: Cons_nth_drop_Suc [symmetric])
  ultimately show ?case using st Suc.prems(1) by (simp add: net_longs_def WRITE_NET_LONG_def)
qed

lemma Generate_body_eq:
  assumes "length hs \<le> 16" and "length ts \<le> 16"
    and "sr_nr_hbids sreq = int (length hs)" and "sr_nr_triplets sreq = int (length ts)"
    and "take (length hs) (sr_hbids sreq) = hs" and "take (length ts) (sr_triplets sreq) = ts"
  shows "Generate_DN_Request_Body sreq = Some (4 + 8 * int (length (hs @ ts)),
    WRITE_NET_SHORT (word_of_nat (length hs)) @ WRITE_NET_SHORT (word_of_nat (length ts)) @ replicate 4 0 @
    net_longs (hs @ ts) @ replicate (256 - 8 * length (hs @ ts)) 0)"
proof -
  let ?h = "length hs" and ?t = "length ts"
  let ?sh = "WRITE_NET_SHORT (word_of_nat ?h)" and ?st = "WRITE_NET_SHORT (word_of_nat ?t)"
  have body: "replicate SIZEOF_DN_BODY (0 :: u8) = [] @ replicate 2 0 @ replicate 262 0"
    unfolding SIZEOF_DN_BODY_def append_Nil replicate_add [symmetric] by simp
  have s0: "store_at 0 ?sh (replicate SIZEOF_DN_BODY 0) = Some (?sh @ replicate 262 0)"
    unfolding body by (subst store_at_mid) simp_all
  have "replicate 262 (0 :: u8) = replicate 2 0 @ replicate 260 0" unfolding replicate_add [symmetric] by simp
  then have s1: "store_at 2 ?st (?sh @ replicate 262 0) = Some (?sh @ ?st @ replicate 260 0)"
    by (simp only:) (rule store_at_mid, simp_all)
  have z: "replicate 260 (0 :: u8) = replicate 4 0 @ replicate (8 * ?h) 0 @ replicate (8 * ?t) 0 @ replicate (256 - 8 * (?h + ?t)) 0"
    unfolding replicate_add [symmetric] using assms(1,2) by simp
  have lh: "?h \<le> length (sr_hbids sreq)" using arg_cong [OF assms(5), of length] by simp
  have lt: "?t \<le> length (sr_triplets sreq)" using arg_cong [OF assms(6), of length] by simp
  have p0: "pack_longs 0 ?h 8 (sr_hbids sreq) ((?sh @ ?st @ replicate 4 0) @ replicate (8 * ?h) 0 @
        (replicate (8 * ?t) 0 @ replicate (256 - 8 * (?h + ?t)) 0)) =
      Some ((?sh @ ?st @ replicate 4 0) @ net_longs (take ?h (drop 0 (sr_hbids sreq))) @
        (replicate (8 * ?t) 0 @ replicate (256 - 8 * (?h + ?t)) 0))"
    using lh by (intro pack_longs_spec) simp_all
  have p1: "pack_longs 0 ?t (8 + 8 * int ?h) (sr_triplets sreq) ((?sh @ ?st @ replicate 4 0 @ net_longs hs) @
        replicate (8 * ?t) 0 @ replicate (256 - 8 * (?h + ?t)) 0) =
      Some ((?sh @ ?st @ replicate 4 0 @ net_longs hs) @ net_longs (take ?t (drop 0 (sr_triplets sreq))) @
        replicate (256 - 8 * (?h + ?t)) 0)"
    using lt by (intro pack_longs_spec) simp_all
  have c: "c_int (8 * int ?h) = 8 * int ?h" "c_int (8 * int ?t) = 8 * int ?t"
    "c_int (4 + 8 * int ?h + 8 * int ?t) = 4 + 8 * int ?h + 8 * int ?t"
    using assms(1,2) by (intro c_int_id; simp)+
  show ?thesis
    using s0 s1 p0 p1 assms(3-6) c
    by (simp add: Generate_DN_Request_Body_def Pack_HBIDs_def Pack_Triplets_def WRITE_NET_SHORT_def z net_longs_def algebra_simps)
qed

section \<open>Collecting the tags of a datanode\<close>

fun collect :: "(located_request \<times> nat) list \<Rightarrow> dn_sreq \<Rightarrow> dn_sreq option" where
  "collect [] sreq = Some sreq"
| "collect ((lr, i) # xs) sreq = do { (_, sreq) \<leftarrow> Integrate_to_DN_Service_Request sreq lr i; collect xs sreq }"

text \<open>What the parser of a response yields: the counts are the lengths of the arrays.\<close>

definition tag_wf :: "located_request \<times> nat \<Rightarrow> bool" where
  "tag_wf x \<longleftrightarrow> (case x of (lr, i) \<Rightarrow> i < length (lr_dn_locs lr) \<and> lr_nr_hbids lr = int (length (lr_HBIDs lr)) \<and>
     dl_nr_triplets (lr_dn_locs lr ! i) = int (length (dl_triplets (lr_dn_locs lr ! i))))"

definition tag_hbids :: "(located_request \<times> nat) list \<Rightarrow> u64 list" where
  "tag_hbids xs = concat (map (\<lambda>(lr, i). lr_HBIDs lr) xs)"

definition tag_triplets :: "(located_request \<times> nat) list \<Rightarrow> u64 list" where
  "tag_triplets xs = concat (map (\<lambda>(lr, i). dl_triplets (lr_dn_locs lr ! i)) xs)"

definition holds :: "dn_sreq \<Rightarrow> u64 list \<Rightarrow> u64 list \<Rightarrow> bool" where
  "holds sreq hs ts \<longleftrightarrow> length (sr_hbids sreq) = 16 \<and> length (sr_triplets sreq) = 16 \<and> length hs \<le> 16 \<and> length ts \<le> 16 \<and>
     sr_nr_hbids sreq = int (length hs) \<and> sr_nr_triplets sreq = int (length ts) \<and>
     take (length hs) (sr_hbids sreq) = hs \<and> take (length ts) (sr_triplets sreq) = ts"

lemma copy_longs_eq:
  assumes "length arr = 16" and "take k arr = xs" and "length xs = k" and "k \<le> 16"
  shows "copy_longs (int k) (int (length vs)) vs arr =
    (if k + length vs \<le> 16 then Some (xs @ vs @ drop (k + length vs) arr) else None)"
  using assms by (simp add: copy_longs_def)

lemma Integrate_spec:
  assumes h: "holds sreq hs ts" and w: "tag_wf (lr, i)"
  shows "if length hs + length (lr_HBIDs lr) \<le> 16 \<and> length ts + length (dl_triplets (lr_dn_locs lr ! i)) \<le> 16
    then \<exists>s. Integrate_to_DN_Service_Request sreq lr i = Some (DMS_OK, s) \<and> holds s (hs @ lr_HBIDs lr) (ts @ dl_triplets (lr_dn_locs lr ! i))
    else Integrate_to_DN_Service_Request sreq lr i = None"
proof -
  let ?vs = "lr_HBIDs lr" and ?us = "dl_triplets (lr_dn_locs lr ! i)"
  have c1: "copy_longs (sr_nr_hbids sreq) (lr_nr_hbids lr) ?vs (sr_hbids sreq) =
      (if length hs + length ?vs \<le> 16 then Some (hs @ ?vs @ drop (length hs + length ?vs) (sr_hbids sreq)) else None)"
    using h w copy_longs_eq [of "sr_hbids sreq" "length hs" hs ?vs] by (simp add: holds_def tag_wf_def)
  have c2: "copy_longs (sr_nr_triplets sreq) (dl_nr_triplets (lr_dn_locs lr ! i)) ?us (sr_triplets sreq) =
      (if length ts + length ?us \<le> 16 then Some (ts @ ?us @ drop (length ts + length ?us) (sr_triplets sreq)) else None)"
    using h w copy_longs_eq [of "sr_triplets sreq" "length ts" ts ?us] by (simp add: holds_def tag_wf_def)
  show ?thesis
  proof (cases "length hs + length ?vs \<le> 16 \<and> length ts + length ?us \<le> 16")
    case True
    have "c_short (int (length hs) + int (length ?vs)) = int (length hs) + int (length ?vs)"
      "c_short (int (length ts) + int (length ?us)) = int (length ts) + int (length ?us)"
      using True by (intro c_short_id; simp)+
    with True c1 c2 h w show ?thesis
      by (simp add: Integrate_to_DN_Service_Request_def holds_def tag_wf_def Let_def)
  next
    case False
    with c1 c2 w show ?thesis by (auto simp: Integrate_to_DN_Service_Request_def tag_wf_def Let_def)
  qed
qed

lemma collect_spec:
  "holds sreq hs ts \<Longrightarrow> list_all tag_wf xs \<Longrightarrow>
   if length (hs @ tag_hbids xs) \<le> 16 \<and> length (ts @ tag_triplets xs) \<le> 16
   then \<exists>s. collect xs sreq = Some s \<and> holds s (hs @ tag_hbids xs) (ts @ tag_triplets xs)
   else collect xs sreq = None"
proof (induction xs arbitrary: sreq hs ts)
  case Nil
  then show ?case by (simp add: tag_hbids_def tag_triplets_def) (simp add: holds_def)
next
  case (Cons x xs)
  obtain lr i where x: "x = (lr, i)" by (cases x)
  let ?hs = "hs @ lr_HBIDs lr" and ?ts = "ts @ dl_triplets (lr_dn_locs lr ! i)"
  have w: "tag_wf (lr, i)" "list_all tag_wf xs" using Cons.prems(2) x by simp_all
  have app: "hs @ tag_hbids (x # xs) = ?hs @ tag_hbids xs" "ts @ tag_triplets (x # xs) = ?ts @ tag_triplets xs"
    by (simp_all add: x tag_hbids_def tag_triplets_def)
  note I = Integrate_spec [OF Cons.prems(1) w(1)]
  show ?case
  proof (cases "length ?hs \<le> 16 \<and> length ?ts \<le> 16")
    case True
    with I obtain s where s: "Integrate_to_DN_Service_Request sreq lr i = Some (DMS_OK, s)" "holds s ?hs ?ts" by auto
    have "collect (x # xs) sreq = collect xs s" using s(1) by (simp add: x)
    with Cons.IH [OF s(2) w(2)] show ?thesis unfolding app by (simp only:)
  next
    case False
    with I have "Integrate_to_DN_Service_Request sreq lr i = None" by (auto split: if_splits)
    moreover have "\<not> (length (?hs @ tag_hbids xs) \<le> 16 \<and> length (?ts @ tag_triplets xs) \<le> 16)" using False by auto
    ultimately show ?thesis unfolding app by (simp add: x)
  qed
qed

lemma holds_zero: "holds sreq_zero [] []"
  by (simp add: holds_def sreq_zero_def)

section \<open>Properties\<close>

text \<open>C19: The located requests that go to one datanode are collected exactly when their
  block IDs and their triplets fit the arrays of 16, otherwise the arrays overflow; the
  body then holds both counts and all IDs in network order, block IDs first, but 4 bytes
  of padding lie behind the counts that the reported length leaves out, so the message
  that is sent ends 4 bytes short of the last ID.\<close>

theorem dn_request_body:
  assumes "list_all tag_wf xs"
  shows "let hs = tag_hbids xs; ts = tag_triplets xs; n = length (hs @ ts);
      counts = WRITE_NET_SHORT (word_of_nat (length hs)) @ WRITE_NET_SHORT (word_of_nat (length ts)) in
    if length hs \<le> 16 \<and> length ts \<le> 16
    then \<exists>sreq body. collect xs sreq_zero = Some sreq \<and> Generate_DN_Request_Body sreq = Some (4 + 8 * int n, body) \<and>
      body = counts @ replicate 4 0 @ net_longs (hs @ ts) @ replicate (256 - 8 * n) 0 \<and>
      take (4 + 8 * n) body = (if n = 0 then counts else counts @ replicate 4 0 @ take (8 * n - 4) (net_longs (hs @ ts)))
    else collect xs sreq_zero = None"
proof -
  let ?hs = "tag_hbids xs" and ?ts = "tag_triplets xs"
  let ?c = "WRITE_NET_SHORT (word_of_nat (length ?hs)) @ WRITE_NET_SHORT (word_of_nat (length ?ts))"
  note spec = collect_spec [OF holds_zero assms]
  show ?thesis
  proof (cases "length ?hs \<le> 16 \<and> length ?ts \<le> 16")
    case True
    with spec obtain s where s: "collect xs sreq_zero = Some s" "holds s ?hs ?ts" by auto
    then have "Generate_DN_Request_Body s = Some (4 + 8 * int (length (?hs @ ?ts)),
        ?c @ replicate 4 0 @ net_longs (?hs @ ?ts) @ replicate (256 - 8 * length (?hs @ ?ts)) 0)"
      using Generate_body_eq [of ?hs ?ts s] by (simp add: holds_def)
    moreover have "take (4 + 8 * length (?hs @ ?ts)) (?c @ replicate 4 0 @ net_longs (?hs @ ?ts) @ z) =
        (if length (?hs @ ?ts) = 0 then ?c else ?c @ replicate 4 0 @ take (8 * length (?hs @ ?ts) - 4) (net_longs (?hs @ ?ts)))" for z
      by (cases "length (?hs @ ?ts)") simp_all
    ultimately show ?thesis using True s(1) by (auto simp: Let_def)
  next
    case False
    with spec show ?thesis by (auto simp: Let_def split: if_splits)
  qed
qed

definition lr_ex :: located_request where
  "lr_ex = lr_zero\<lparr>lr_nr_hbids := 1, lr_HBIDs := [11], lr_nr_dn_locs := 1,
     lr_dn_locs := [\<lparr>dl_ip = 1, dl_port = 2, dl_nr_triplets = 1, dl_triplets = [5], dl_result = 0\<rparr>]\<rparr>"

theorem dn_request_body_witness:
  "\<exists>sreq body. collect [(lr_ex, 0)] sreq_zero = Some sreq \<and> Generate_DN_Request_Body sreq = Some (20, body) \<and>
     length body = 264"
proof -
  have w: "list_all tag_wf [(lr_ex, 0)]" by (simp add: tag_wf_def lr_ex_def)
  have ids: "tag_hbids [(lr_ex, 0)] = [11]" "tag_triplets [(lr_ex, 0)] = [5]"
    by (simp_all add: tag_hbids_def tag_triplets_def lr_ex_def)
  from dn_request_body [OF w] show ?thesis unfolding ids by (auto simp: Let_def)
qed

text \<open>The tag of a request keeps the service ID in network order, but the ID of the
  response is compared in host order: a response that carries the ID of its request finds
  its tag only when the ID reads the same in both byte orders.\<close>

theorem dn_response_finds_tag:
  assumes "Generate_Request_of_Datanode now p op ddt h0 gen = Some (r, header, body, ddt', gen')" and "0 \<le> r"
  shows "\<exists>h. Parse_DN_Protocol_Header (load_header (header_image header)) = (SIZEOF_HEADER, h) \<and>
    h_serviceID h = gen + 1 \<and> h_ext h = p \<and>
    (Check_DN_Tag_by_ID (h_serviceID h) ddt' \<longleftrightarrow> rev (store_le 8 (gen + 1)) = store_le 8 (gen + 1))"
proof -
  obtain l where l: "Generate_DN_Request_Body (dt_sreq ddt) = Some (l, body)" "0 \<le> l"
    using assms by (auto simp: Generate_Request_of_Datanode_def split: Option.bind_splits if_splits prod.splits)
  have eq: "htonll x = x \<longleftrightarrow> rev (store_le 8 x) = store_le 8 x" for x
  proof
    show "rev (store_le 8 x) = store_le 8 x" if "htonll x = x" using store_htonll [of x] that by simp
    show "htonll x = x" if "rev (store_le 8 x) = store_le 8 x"
      using load_store_le [of 8 "htonll x"] load_store_le [of 8 x] that by (simp add: store_htonll)
  qed
  obtain h where h: "Generate_DMS_Protocol_Header now (word_of_int (dt_retry_count ddt)) (word_of_int op)
      (word_of_int SERVICE) (word_of_int l) p (gen + 1) = (SIZEOF_HEADER, h)"
    by (simp add: Generate_DMS_Protocol_Header_def)
  then have hs: "h_serviceID h = htonll (gen + 1)" "h_ext h = htonll p" "h_magic h = htonl MAGIC_NUM"
    by (auto simp: Generate_DMS_Protocol_Header_def)
  from assms(1) l h have e: "header = h" "dt_dnrid ddt' = htonll (gen + 1)"
    by (auto simp: Generate_Request_of_Datanode_def Generate_DN_Protocol_Header_def hs(1))
  show ?thesis
    unfolding Check_DN_Tag_by_ID_def e load_header_image
    by (simp add: Parse_DN_Protocol_Header_def Parse_DMS_Protocol_Header_def hs eq)
qed

definition tag_ex :: datanode_tag where
  "tag_ex = \<lparr>dt_dnrid = 0, dt_sreq = sreq_zero, dt_retry_count = 1\<rparr>"

theorem dn_response_finds_tag_witness:
  "\<exists>r header body ddt' gen' h.
    Generate_Request_of_Datanode 0 4096 1 tag_ex (load_header (replicate 40 0)) 1 = Some (r, header, body, ddt', gen') \<and>
    Parse_DN_Protocol_Header (load_header (header_image header)) = (SIZEOF_HEADER, h) \<and> \<not> Check_DN_Tag_by_ID (h_serviceID h) ddt'"
proof -
  obtain body where "Generate_DN_Request_Body sreq_zero = Some (4, body)"
    using Generate_body_eq [of "[]" "[]" sreq_zero] by (simp add: sreq_zero_def)
  then obtain header ddt' gen' where
    g: "Generate_Request_of_Datanode 0 4096 1 tag_ex (load_header (replicate 40 0)) 1 = Some (SIZEOF_HEADER, header, body, ddt', gen')"
    by (auto simp: Generate_Request_of_Datanode_def Generate_DN_Protocol_Header_def Generate_DMS_Protocol_Header_def tag_ex_def)
  have "rev (store_le 8 (2 :: u64)) \<noteq> store_le 8 2" by (simp add: store_le_numeral)
  with dn_response_finds_tag [OF g] g show ?thesis by (auto simp: SIZEOF_HEADER_def)
qed

end
