(* ===== verification/Daemon_Config.thy ===== *)
theory Daemon_Config
  imports Daemon_List "HOL-Library.Sublist"
begin

text \<open>
  The configuration of the daemon: the settings of the registration service
  (\<open>set_rs_setting_from_config\<close>), the address of the namenode (\<open>getNamenodeAddress\<close>), both of
  \<open>Client_Daemon.c\<close>, and the length of the queue (\<open>read_fields\<close>, \<open>load_configuration\<close> of
  \<open>Client_Daemon_Skeleton.c\<close>).

  A file is its text, or \<open>None\<close> when it cannot be opened.  The three names are arrays of 32
  characters; a write past their end, or before a line, is a fault.  The defaults are copied
  with 32 characters from shorter literals; what lies behind a literal is taken to be zero.
\<close>

section \<open>Strings\<close>

definition c_str :: "string \<Rightarrow> string" where
  "c_str cs = takeWhile (\<lambda>c. c \<noteq> CHR 0x00) cs"

text \<open>The text from the first occurrence on.\<close>

fun strstr :: "string \<Rightarrow> string \<Rightarrow> string option" where
  "strstr [] pat = (if pat = [] then Some [] else None)"
| "strstr (c # cs) pat = (if take (List.length pat) (c # cs) = pat then Some (c # cs) else strstr cs pat)"

definition atoi :: "string \<Rightarrow> int" where
  "atoi cs = (case scan_int cs of None \<Rightarrow> 0 | Some (v, _) \<Rightarrow> v)"

section \<open>The registration service\<close>

record rs_setting =
  rs_name :: string
  rs_port :: int
  rs_account :: string
  rs_pwd :: string

definition default_str :: "string \<Rightarrow> string" where
  "default_str s = take 32 (s @ replicate 32 (CHR 0x00))"

definition set_rs_setting_default :: "rs_setting \<Rightarrow> rs_setting" where
  "set_rs_setting_default s = s\<lparr>rs_name := default_str ''rs.ccma.itri'', rs_port := 9000,
     rs_account := default_str ''root'', rs_pwd := default_str ''mysql''\<rparr>"

text \<open>Copying without the terminator.\<close>

definition put_str :: "string \<Rightarrow> string \<Rightarrow> string option" where
  "put_str v arr = (if List.length v \<le> List.length arr then Some (v @ drop (List.length v) arr) else None)"

text \<open>One line without its last character; \<open>False\<close> ends the loop.\<close>

definition rs_config_line :: "string \<Rightarrow> int \<times> rs_setting \<Rightarrow> (bool \<times> int \<times> rs_setting) option" where
  "rs_config_line buff = (\<lambda>(flag, s).
     (case strstr buff ''='' of
        None \<Rightarrow> Some (False, flag, set_rs_setting_default s)
      | Some pos1 \<Rightarrow>
          if pos1 = buff then Some (False, flag, set_rs_setting_default s)
          else
            (let left = take (List.length buff - List.length pos1) buff;
                 right = drop 1 pos1
             in if left = ''ip'' then
                  map_option (\<lambda>n. (True, flag OR 1, s\<lparr>rs_name := n\<rparr>)) (put_str right (rs_name s))
                else if left = ''port'' then Some (True, flag OR 2, s\<lparr>rs_port := atoi right\<rparr>)
                else if left = ''account'' then
                  map_option (\<lambda>n. (True, flag OR 4, s\<lparr>rs_account := n\<rparr>)) (put_str right (rs_account s))
                else if left = ''pwd'' then
                  map_option (\<lambda>n. (True, flag OR 8, s\<lparr>rs_pwd := n\<rparr>)) (put_str right (rs_pwd s))
                else Some (False, flag, set_rs_setting_default s))))"

function rs_config_loop :: "string \<Rightarrow> int \<times> rs_setting \<Rightarrow> (int \<times> rs_setting) option" where
  "rs_config_loop file fs =
     (if file = [] then Some fs
      else
        let (line, rest) = fgets 255 file;
            buff = c_str line
        in if buff = [] then None
           else
             (case rs_config_line (butlast buff) fs of
                None \<Rightarrow> None
              | Some (go_on, fs) \<Rightarrow> if go_on then rs_config_loop rest fs else Some fs))"
  by pat_completeness auto
termination
  by (relation "measure (\<lambda>(file, _). List.length file)") (auto intro: fgets_255 [OF sym])

declare rs_config_loop.simps [simp del]

definition set_rs_setting_from_config :: "string option \<Rightarrow> rs_setting \<Rightarrow> rs_setting option" where
  "set_rs_setting_from_config file s =
     (let zero = replicate 32 (CHR 0x00);
          s = s\<lparr>rs_name := zero, rs_account := zero, rs_pwd := zero\<rparr>
      in (case file of
            None \<Rightarrow> Some (set_rs_setting_default s)
          | Some cs \<Rightarrow>
              map_option (\<lambda>(flag, s). if flag \<noteq> 15 then set_rs_setting_default s else s) (rs_config_loop cs (0, s))))"

section \<open>The namenode\<close>

definition NamenodeHostname :: string where "NamenodeHostname = ''dms.ccma.itri''"

definition hdfs :: string where "hdfs = ''hdfs://''"

function namenode_loop :: "string \<Rightarrow> string" where
  "namenode_loop file =
     (if file = [] then NamenodeHostname
      else
        let (line, rest) = fgets 255 file;
            buff = c_str line
        in (case strstr buff hdfs of
              None \<Rightarrow> namenode_loop rest
            | Some pos \<Rightarrow>
                let pos1 = drop (List.length hdfs) pos
                in (case strstr pos1 '':'' of
                      None \<Rightarrow> namenode_loop rest
                    | Some pos2 \<Rightarrow> take (List.length pos1 - List.length pos2) pos1)))"
  by pat_completeness auto
termination
  by (relation "measure List.length") (auto intro: fgets_255 [OF sym])

declare namenode_loop.simps [simp del]

definition getNamenodeAddress :: "string option \<Rightarrow> string" where
  "getNamenodeAddress file = (case file of None \<Rightarrow> NamenodeHostname | Some cs \<Rightarrow> namenode_loop cs)"

section \<open>The length of the queue\<close>

text \<open>\<open>strncmp\<close> of two terminated strings.\<close>

definition strncmp_eq :: "string \<Rightarrow> string \<Rightarrow> nat \<Rightarrow> bool" where
  "strncmp_eq a b n \<longleftrightarrow> take n (a @ [CHR 0x00]) = take n (b @ [CHR 0x00])"

text \<open>Without a \<open>=\<close> the length is a huge number, and \<open>sscanf\<close> reads through NULL when the
  strings are equal.\<close>

definition read_fields :: "string \<Rightarrow> string \<Rightarrow> int \<Rightarrow> int option" where
  "read_fields str cmp result =
     (case strstr str ''='' of
        None \<Rightarrow> if str = cmp then None else Some result
      | Some ptr \<Rightarrow>
          if strncmp_eq str cmp (List.length str - List.length ptr)
          then (case scan_int (drop 1 ptr) of None \<Rightarrow> Some result | Some (v, _) \<Rightarrow> Some v)
          else Some result)"

text \<open>Only the first line is read.  An empty file leaves the buffer without a value.\<close>

definition load_configuration :: "string option \<Rightarrow> int \<Rightarrow> int option" where
  "load_configuration file MAX_DATANODE_REQ_QUEUE =
     (case file of
        None \<Rightarrow> Some MAX_DATANODE_REQ_QUEUE
      | Some cs \<Rightarrow>
          if cs = [] then None
          else read_fields (c_str (fst (fgets 1023 cs))) ''MAX_DATANODE_REQ_QUEUE'' MAX_DATANODE_REQ_QUEUE)"

definition init_conf_values :: int where "init_conf_values = 1200"

section \<open>Lines\<close>

definition text_line :: "string \<Rightarrow> bool" where
  "text_line l \<longleftrightarrow> CHR 0x0A \<notin> set l \<and> CHR 0x00 \<notin> set l \<and> List.length l < 254"

lemma read_text_line:
  assumes "text_line l"
  shows "fgets 255 (l @ CHR 0x0A # r) = (l @ [CHR 0x0A], r)" and "c_str (l @ [CHR 0x0A]) = l @ [CHR 0x0A]"
proof -
  show "fgets 255 (l @ CHR 0x0A # r) = (l @ [CHR 0x0A], r)" using assms by (intro fgets_line) (simp_all add: text_line_def)
  have "takeWhile (\<lambda>c. c \<noteq> CHR 0x00) (l @ [CHR 0x0A]) = l @ [CHR 0x0A]"
    using assms by (subst takeWhile_eq_all_conv) (auto simp: text_line_def)
  then show "c_str (l @ [CHR 0x0A]) = l @ [CHR 0x0A]" by (simp add: c_str_def)
qed

lemma strstr_char: "strstr cs [c] = (if c \<in> set cs then Some (dropWhile (\<lambda>x. x \<noteq> c) cs) else None)"
  by (induction cs) auto

lemma strstr_key: "c \<notin> set k \<Longrightarrow> strstr (k @ c # v) [c] = Some (c # v)"
  by (induction k) (auto simp: strstr_char)

section \<open>The settings of the registration service\<close>

definition keys :: "string set" where
  "keys = {''ip'', ''port'', ''account'', ''pwd''}"

definition entry_ok :: "string \<times> string \<Rightarrow> bool" where
  "entry_ok x \<longleftrightarrow> (case x of (k, v) \<Rightarrow> k \<in> keys \<and> CHR 0x0A \<notin> set v \<and> CHR 0x00 \<notin> set v \<and> List.length v \<le> 32)"

definition entry_line :: "string \<times> string \<Rightarrow> string" where
  "entry_line x = (case x of (k, v) \<Rightarrow> k @ CHR ''='' # v)"

definition config_file :: "(string \<times> string) list \<Rightarrow> string" where
  "config_file es = concat (map (\<lambda>x. entry_line x @ [CHR 0x0A]) es)"

definition overlay :: "string \<Rightarrow> string \<Rightarrow> string" where
  "overlay v arr = v @ drop (List.length v) arr"

definition enter :: "string \<times> string \<Rightarrow> rs_setting \<Rightarrow> rs_setting" where
  "enter x s = (case x of (k, v) \<Rightarrow>
     if k = ''ip'' then s\<lparr>rs_name := overlay v (rs_name s)\<rparr>
     else if k = ''port'' then s\<lparr>rs_port := atoi v\<rparr>
     else if k = ''account'' then s\<lparr>rs_account := overlay v (rs_account s)\<rparr>
     else s\<lparr>rs_pwd := overlay v (rs_pwd s)\<rparr>)"

definition flag_of :: "string set \<Rightarrow> int" where
  "flag_of ks = (if ''ip'' \<in> ks then 1 else 0) + (if ''port'' \<in> ks then 2 else 0) + (if ''account'' \<in> ks then 4 else 0) +
     (if ''pwd'' \<in> ks then 8 else 0)"

lemma flag_of_or:
  "flag_of ks OR 1 = flag_of (insert ''ip'' ks)" "flag_of ks OR 2 = flag_of (insert ''port'' ks)"
  "flag_of ks OR 4 = flag_of (insert ''account'' ks)" "flag_of ks OR 8 = flag_of (insert ''pwd'' ks)"
  by (simp_all add: flag_of_def)

lemma flag_of_15: "flag_of ks = 15 \<longleftrightarrow> keys \<subseteq> ks"
  by (simp add: flag_of_def keys_def)

definition arrays :: "rs_setting \<Rightarrow> bool" where
  "arrays s \<longleftrightarrow> List.length (rs_name s) = 32 \<and> List.length (rs_account s) = 32 \<and> List.length (rs_pwd s) = 32"

lemma overlay_put: "List.length v \<le> 32 \<Longrightarrow> List.length arr = 32 \<Longrightarrow> put_str v arr = Some (overlay v arr) \<and> List.length (overlay v arr) = 32"
  by (simp add: put_str_def overlay_def)

lemma rs_config_line_key:
  assumes "k \<noteq> []" and "CHR ''='' \<notin> set k"
  shows "rs_config_line (k @ CHR ''='' # v) (flag, s) =
    (if k = ''ip'' then map_option (\<lambda>n. (True, flag OR 1, s\<lparr>rs_name := n\<rparr>)) (put_str v (rs_name s))
     else if k = ''port'' then Some (True, flag OR 2, s\<lparr>rs_port := atoi v\<rparr>)
     else if k = ''account'' then map_option (\<lambda>n. (True, flag OR 4, s\<lparr>rs_account := n\<rparr>)) (put_str v (rs_account s))
     else if k = ''pwd'' then map_option (\<lambda>n. (True, flag OR 8, s\<lparr>rs_pwd := n\<rparr>)) (put_str v (rs_pwd s))
     else Some (False, flag, set_rs_setting_default s))"
proof -
  have "strstr (k @ CHR ''='' # v) ''='' = Some (CHR ''='' # v)" using strstr_key [OF assms(2)] by simp
  moreover have "CHR ''='' # v \<noteq> k @ CHR ''='' # v" using assms(1) by simp
  ultimately show ?thesis unfolding rs_config_line_def by (simp add: Let_def)
qed

lemma keys_ok: "k \<in> keys \<Longrightarrow> k \<noteq> [] \<and> CHR ''='' \<notin> set k \<and> CHR 0x0A \<notin> set k \<and> CHR 0x00 \<notin> set k \<and> List.length k \<le> 7"
  by (auto simp: keys_def)

lemma entry_step:
  assumes e: "entry_ok (k, v)" and a: "arrays s"
  shows "rs_config_line (entry_line (k, v)) (flag_of ks, s) = Some (True, flag_of (insert k ks), enter (k, v) s)"
    and "arrays (enter (k, v) s)"
proof -
  have k: "k \<in> keys" using e by (simp add: entry_ok_def)
  have v: "List.length v \<le> 32" using e by (simp add: entry_ok_def)
  have p: "put_str v (rs_name s) = Some (overlay v (rs_name s))" "put_str v (rs_account s) = Some (overlay v (rs_account s))"
    "put_str v (rs_pwd s) = Some (overlay v (rs_pwd s))"
    using a overlay_put [OF v] by (simp_all add: arrays_def)
  show "arrays (enter (k, v) s)" using a overlay_put [OF v] by (simp add: arrays_def enter_def)
  have l: "k \<noteq> []" "CHR ''='' \<notin> set k" using keys_ok [OF k] by simp_all
  from k consider "k = ''ip''" | "k = ''port''" | "k = ''account''" | "k = ''pwd''" by (auto simp: keys_def)
  then show "rs_config_line (entry_line (k, v)) (flag_of ks, s) = Some (True, flag_of (insert k ks), enter (k, v) s)"
    unfolding entry_line_def prod.case rs_config_line_key [OF l] p enter_def
    by cases (simp_all add: flag_of_or)
qed

lemma text_entry: "entry_ok x \<Longrightarrow> text_line (entry_line x)"
  by (cases x) (auto simp: entry_ok_def text_line_def entry_line_def dest: keys_ok)

lemma config_entries:
  "list_all entry_ok es \<Longrightarrow> arrays s \<Longrightarrow>
   rs_config_loop (config_file es @ tail) (flag_of ks, s) = rs_config_loop tail (flag_of (set (map fst es) \<union> ks), fold enter es s) \<and>
   arrays (fold enter es s)"
proof (induction es arbitrary: s ks)
  case Nil
  then show ?case by (simp add: config_file_def)
next
  case (Cons x es)
  then have x: "entry_ok x" by simp
  note l = read_text_line [OF text_entry [OF x]]
  have f: "config_file (x # es) @ tail = entry_line x @ CHR 0x0A # (config_file es @ tail)" by (simp add: config_file_def)
  obtain k v where kv: "x = (k, v)" by (cases x)
  note st = entry_step [OF x [unfolded kv] Cons.prems(2)]
  have "rs_config_loop (config_file (x # es) @ tail) (flag_of ks, s) =
      rs_config_loop (config_file es @ tail) (flag_of (insert k ks), enter (k, v) s)"
    unfolding f using l [unfolded kv] st(1) by (subst rs_config_loop.simps) (simp add: kv)
  moreover have "set (map fst (x # es)) \<union> ks = set (map fst es) \<union> insert k ks" by (auto simp: kv)
  ultimately show ?case using Cons.IH [of "enter (k, v) s" "insert k ks"] Cons.prems(1) st(2) by (simp add: kv)
qed

text \<open>A line that ends the loop: without a key, or with one that is not known.\<close>

definition bad_line :: "string \<Rightarrow> bool" where
  "bad_line l \<longleftrightarrow> text_line l \<and> (CHR ''='' \<in> set l \<longrightarrow> takeWhile (\<lambda>c. c \<noteq> CHR ''='') l \<notin> keys)"

lemma config_bad:
  assumes "bad_line l"
  shows "rs_config_loop (l @ CHR 0x0A # rest) (flag, s) = Some (flag, set_rs_setting_default s)"
proof -
  have t: "text_line l" using assms by (simp add: bad_line_def)
  have "rs_config_line l (flag, s) = Some (False, flag, set_rs_setting_default s)"
  proof (cases "CHR ''='' \<in> set l")
    case False
    then show ?thesis by (simp add: rs_config_line_def strstr_char)
  next
    case True
    define k v where "k = takeWhile (\<lambda>c. c \<noteq> CHR ''='') l" and "v = tl (dropWhile (\<lambda>c. c \<noteq> CHR ''='') l)"
    have d: "dropWhile (\<lambda>c. c \<noteq> CHR ''='') l = CHR ''='' # v"
      using True hd_dropWhile [of "\<lambda>c. c \<noteq> CHR ''=''" l] dropWhile_eq_Nil_conv [of "\<lambda>c. c \<noteq> CHR ''=''" l]
      unfolding v_def by (metis list.collapse)
    have l: "l = k @ CHR ''='' # v" unfolding k_def d [symmetric] by simp
    have k: "CHR ''='' \<notin> set k" using set_takeWhileD [of "CHR ''=''"] unfolding k_def by fastforce
    have "k \<notin> keys" using assms True by (simp add: bad_line_def k_def)
    then have nk: "k \<noteq> ''ip''" "k \<noteq> ''port''" "k \<noteq> ''account''" "k \<noteq> ''pwd''" by (auto simp: keys_def)
    show ?thesis
    proof (cases "k = []")
      case True
      then show ?thesis using l by (simp add: rs_config_line_def)
    next
      case False
      show ?thesis unfolding l rs_config_line_key [OF False k] using nk by simp
    qed
  qed
  then show ?thesis using read_text_line [OF t] by (subst rs_config_loop.simps) simp
qed

text \<open>A field that the other entries leave alone has the value of its entry.\<close>

lemma fold_keep:
  assumes "\<And>x s. x \<in> set es \<Longrightarrow> fst x \<noteq> k \<Longrightarrow> f (enter x s) = f s" and "k \<notin> set (map fst es)"
  shows "f (fold enter es s) = f s"
  using assms
proof (induction es arbitrary: s)
  case (Cons x es)
  have "f (fold enter es (enter x s)) = f (enter x s)" using Cons.prems by (intro Cons.IH) auto
  moreover have "f (enter x s) = f s" by (rule Cons.prems(1)) (use Cons.prems(2) in simp_all, metis)
  ultimately show ?case by simp
qed simp

lemma fold_field:
  assumes "\<And>x s. x \<in> set es \<Longrightarrow> fst x \<noteq> k \<Longrightarrow> f (enter x s) = f s" and "\<And>s. f (enter (k, v) s) = g (f s)"
    and "distinct (map fst es)" and "(k, v) \<in> set es"
  shows "f (fold enter es s) = g (f s)"
proof -
  obtain xs ys where es: "es = xs @ (k, v) # ys" using assms(4) by (meson split_list)
  have d: "k \<notin> set (map fst xs)" "k \<notin> set (map fst ys)" using assms(3) by (simp_all add: es)
  have "f (fold enter ys u) = f u" for u using assms(1) d(2) by (intro fold_keep [where k = k]) (simp_all add: es)
  moreover have "f (fold enter xs s) = f s" using assms(1) d(1) by (intro fold_keep [where k = k]) (simp_all add: es)
  ultimately show ?thesis using assms(2) by (simp add: es)
qed

lemma enter_others:
  assumes "entry_ok x"
  shows "fst x \<noteq> ''ip'' \<Longrightarrow> rs_name (enter x s) = rs_name s" and "fst x \<noteq> ''port'' \<Longrightarrow> rs_port (enter x s) = rs_port s"
    and "fst x \<noteq> ''account'' \<Longrightarrow> rs_account (enter x s) = rs_account s" and "fst x \<noteq> ''pwd'' \<Longrightarrow> rs_pwd (enter x s) = rs_pwd s"
proof -
  obtain k v where x: "x = (k, v)" by (cases x)
  have "k \<in> keys" using assms by (simp add: x entry_ok_def)
  then have k: "k = ''ip'' \<or> k = ''port'' \<or> k = ''account'' \<or> k = ''pwd''" by (simp add: keys_def)
  show "fst x \<noteq> ''ip'' \<Longrightarrow> rs_name (enter x s) = rs_name s" by (simp add: x enter_def)
  show "fst x \<noteq> ''port'' \<Longrightarrow> rs_port (enter x s) = rs_port s" by (simp add: x enter_def)
  show "fst x \<noteq> ''account'' \<Longrightarrow> rs_account (enter x s) = rs_account s" by (simp add: x enter_def)
  show "fst x \<noteq> ''pwd'' \<Longrightarrow> rs_pwd (enter x s) = rs_pwd s" using k by (auto simp: x enter_def)
qed

lemma fold_enter:
  assumes "list_all entry_ok es" and "distinct (map fst es)"
  shows "(''ip'', v) \<in> set es \<Longrightarrow> rs_name (fold enter es s) = overlay v (rs_name s)"
    and "(''port'', v) \<in> set es \<Longrightarrow> rs_port (fold enter es s) = atoi v"
    and "(''account'', v) \<in> set es \<Longrightarrow> rs_account (fold enter es s) = overlay v (rs_account s)"
    and "(''pwd'', v) \<in> set es \<Longrightarrow> rs_pwd (fold enter es s) = overlay v (rs_pwd s)"
proof -
  have e: "entry_ok x" if "x \<in> set es" for x using assms(1) that by (simp add: list_all_iff)
  note o = enter_others [OF e]
  show "(''ip'', v) \<in> set es \<Longrightarrow> rs_name (fold enter es s) = overlay v (rs_name s)"
    by (rule fold_field [OF o(1) _ assms(2)]) (simp_all add: enter_def)
  show "(''port'', v) \<in> set es \<Longrightarrow> rs_port (fold enter es s) = atoi v"
    by (rule fold_field [OF o(2) _ assms(2), where g = "\<lambda>_. atoi v"]) (simp_all add: enter_def)
  show "(''account'', v) \<in> set es \<Longrightarrow> rs_account (fold enter es s) = overlay v (rs_account s)"
    by (rule fold_field [OF o(3) _ assms(2)]) (simp_all add: enter_def)
  show "(''pwd'', v) \<in> set es \<Longrightarrow> rs_pwd (fold enter es s) = overlay v (rs_pwd s)"
    by (rule fold_field [OF o(4) _ assms(2)]) (simp_all add: enter_def)
qed

lemma takeWhile_NUL:
  assumes "CHR 0x00 \<notin> set v"
  shows "takeWhile (\<lambda>c. c \<noteq> CHR 0x00) (v @ replicate m (CHR 0x00)) = v"
proof -
  have "\<And>x. x \<in> set v \<Longrightarrow> x \<noteq> CHR 0x00" using assms by blast
  then have "takeWhile (\<lambda>c. c \<noteq> CHR 0x00) (v @ replicate m (CHR 0x00)) = v @ takeWhile (\<lambda>c. c \<noteq> CHR 0x00) (replicate m (CHR 0x00))"
    by (rule takeWhile_append2)
  then show ?thesis by (cases m) simp_all
qed

lemma c_str_overlay: "CHR 0x00 \<notin> set v \<Longrightarrow> c_str (overlay v (replicate n (CHR 0x00))) = v"
  by (simp add: c_str_def overlay_def takeWhile_NUL)

text \<open>What the daemon uses.\<close>

definition settings :: "rs_setting \<Rightarrow> string \<times> int \<times> string \<times> string" where
  "settings s = (c_str (rs_name s), rs_port s, c_str (rs_account s), c_str (rs_pwd s))"

lemma settings_default: "settings (set_rs_setting_default s) = (''rs.ccma.itri'', 9000, ''root'', ''mysql'')"
  by (simp add: settings_def set_rs_setting_default_def default_str_def c_str_def)

section \<open>What is read\<close>

lemma config_result:
  assumes "list_all entry_ok es"
  shows "set_rs_setting_from_config (Some (config_file es @ tail)) s0 =
    map_option (\<lambda>(flag, s). if flag \<noteq> 15 then set_rs_setting_default s else s)
      (rs_config_loop tail (flag_of (set (map fst es)),
         fold enter es (s0\<lparr>rs_name := replicate 32 (CHR 0x00), rs_account := replicate 32 (CHR 0x00),
           rs_pwd := replicate 32 (CHR 0x00)\<rparr>)))"
proof -
  let ?s = "s0\<lparr>rs_name := replicate 32 (CHR 0x00), rs_account := replicate 32 (CHR 0x00), rs_pwd := replicate 32 (CHR 0x00)\<rparr>"
  have "arrays ?s" by (simp add: arrays_def)
  from config_entries [OF assms this, of tail "{}"]
  have "rs_config_loop (config_file es @ tail) (0, ?s) = rs_config_loop tail (flag_of (set (map fst es)), fold enter es ?s)"
    by (simp add: flag_of_def)
  then show ?thesis by (simp add: set_rs_setting_from_config_def Let_def)
qed

definition value_of :: "(string \<times> string) list \<Rightarrow> string \<Rightarrow> string" where
  "value_of es k = the (map_of es k)"



text \<open>One line that has no key, or one the daemon does not know, discards the settings read so
  far and everything behind it: the daemon uses the defaults, also when all four keys stand before
  that line.\<close>

theorem rs_settings_bad_line:
  assumes "list_all entry_ok es" and "bad_line l"
  shows "map_option settings (set_rs_setting_from_config (Some (config_file es @ l @ CHR 0x0A # rest)) s0) =
    Some (''rs.ccma.itri'', 9000, ''root'', ''mysql'')"
  by (simp add: config_result [OF assms(1)] config_bad [OF assms(2)] settings_default)

lemma rs_settings_bad_line_example:
  "map_option settings (set_rs_setting_from_config
     (Some (config_file [(''ip'', ''a.b''), (''port'', ''80''), (''account'', ''r''), (''pwd'', ''p'')] @ [] @ CHR 0x0A # [])) s0) =
   Some (''rs.ccma.itri'', 9000, ''root'', ''mysql'')"
  by (rule rs_settings_bad_line) (simp_all add: entry_ok_def keys_def bad_line_def text_line_def)

section \<open>The namenode's address\<close>

lemma strstr_None: "p \<noteq> [] \<Longrightarrow> \<not> sublist p cs \<Longrightarrow> strstr cs p = None"
proof (induction cs)
  case (Cons c cs)
  have "\<not> prefix p (c # cs)" and "\<not> sublist p cs" using Cons.prems(2) by (simp_all add: sublist_Cons_right)
  then show ?case using Cons.IH Cons.prems(1) by (simp add: prefix_def) (metis append_take_drop_id)
qed simp

lemma strstr_first: "p \<noteq> [] \<Longrightarrow> \<not> sublist p (a @ butlast p) \<Longrightarrow> strstr (a @ p @ t) p = Some (p @ t)"
proof (induction a)
  case Nil
  then show ?case by (cases p) simp_all
next
  case (Cons x a)
  have n: "\<not> prefix p (x # a @ butlast p)" "\<not> sublist p (a @ butlast p)"
    using Cons.prems(2) by (simp_all add: sublist_Cons_right)
  have "take (List.length p) (x # a @ p @ t) \<noteq> p"
  proof
    assume e: "take (List.length p) (x # a @ p @ t) = p"
    have "p = butlast p @ [last p]" using Cons.prems(1) by simp
    then have "x # a @ p @ t = (x # a @ butlast p) @ last p # t" by (metis append.assoc append_Cons append_Nil)
    moreover have "take (List.length p) ((x # a @ butlast p) @ u) = take (List.length p) (x # a @ butlast p)" for u
      by (subst take_append) simp
    ultimately have "take (List.length p) (x # a @ butlast p) = p" using e by metis
    then show False using n(1) by (metis take_is_prefix)
  qed
  then show ?case using Cons.IH [OF Cons.prems(1) n(2)] by simp
qed

definition file_lines :: "string list \<Rightarrow> string" where
  "file_lines ls = concat (map (\<lambda>l. l @ [CHR 0x0A]) ls)"

lemma no_hdfs: "text_line l \<Longrightarrow> \<not> sublist hdfs l \<Longrightarrow> \<not> sublist hdfs (l @ [CHR 0x0A])"
  by (auto simp: sublist_append sublist_Cons_right hdfs_def prefix_Cons Cons_eq_append_conv)

lemma namenode_skip:
  "list_all (\<lambda>l. text_line l \<and> \<not> sublist hdfs l) ls \<Longrightarrow> namenode_loop (file_lines ls @ rest) = namenode_loop rest"
proof (induction ls)
  case (Cons l ls)
  then have l: "text_line l" "\<not> sublist hdfs l" by simp_all
  have h: "strstr (l @ [CHR 0x0A]) hdfs = None" by (rule strstr_None [OF _ no_hdfs [OF l]]) (simp add: hdfs_def)
  have "file_lines (l # ls) @ rest = l @ CHR 0x0A # (file_lines ls @ rest)" by (simp add: file_lines_def)
  then have "namenode_loop (file_lines (l # ls) @ rest) = namenode_loop (file_lines ls @ rest)"
    by (subst namenode_loop.simps) (simp add: read_text_line [OF l(1)] h)
  then show ?case using Cons by simp
qed (simp add: file_lines_def)

text \<open>The address of the namenode is what stands between the first \<open>hdfs://\<close> of the file and
  the next colon; lines before it are skipped.  Without a file, and when no line has a
  \<open>hdfs://\<close>, it is the name built into the daemon.\<close>

theorem namenode_address_found:
  assumes "list_all (\<lambda>l. text_line l \<and> \<not> sublist hdfs l) ls"
    and "text_line (a @ hdfs @ host @ CHR '':'' # b)" and "\<not> sublist hdfs (a @ butlast hdfs)" and "CHR '':'' \<notin> set host"
  shows "getNamenodeAddress None = NamenodeHostname \<and>
    getNamenodeAddress (Some (file_lines ls)) = NamenodeHostname \<and>
    getNamenodeAddress (Some (file_lines ls @ (a @ hdfs @ host @ CHR '':'' # b) @ CHR 0x0A # rest)) = host"
proof -
  have z: "getNamenodeAddress (Some (file_lines ls)) = NamenodeHostname"
    using namenode_skip [OF assms(1), of "[]"] by (simp add: getNamenodeAddress_def namenode_loop.simps)
  have h: "hdfs \<noteq> []" by (simp add: hdfs_def)
  have p: "strstr ((a @ hdfs @ host @ CHR '':'' # b) @ [CHR 0x0A]) hdfs = Some (hdfs @ host @ CHR '':'' # b @ [CHR 0x0A])"
    using strstr_first [OF h assms(3), of "host @ CHR '':'' # b @ [CHR 0x0A]"] by simp
  have c: "strstr (host @ CHR '':'' # b @ [CHR 0x0A]) '':'' = Some (CHR '':'' # b @ [CHR 0x0A])" by (rule strstr_key [OF assms(4)])
  have "namenode_loop ((a @ hdfs @ host @ CHR '':'' # b) @ CHR 0x0A # rest) = host"
    by (subst namenode_loop.simps) (simp only: read_text_line [OF assms(2)] p Let_def prod.case option.case, simp add: c)
  then show ?thesis using namenode_skip [OF assms(1)] z by (simp add: getNamenodeAddress_def)
qed

lemma namenode_address_found_witness:
  "getNamenodeAddress None = NamenodeHostname \<and>
   getNamenodeAddress (Some (file_lines [''a'', ''hdfs:/''])) = NamenodeHostname \<and>
   getNamenodeAddress (Some (file_lines [''a'', ''hdfs:/''] @ (''h'' @ hdfs @ ''nn'' @ CHR '':'' # ''9'') @ CHR 0x0A # ''b'')) = ''nn''"
  by (rule namenode_address_found) (simp_all add: text_line_def hdfs_def sublist_Cons_right)

section \<open>The queue's length\<close>

lemma take_prefix: "take (List.length k) ys = k \<longleftrightarrow> prefix k ys"
proof
  assume "take (List.length k) ys = k"
  then show "prefix k ys" using take_is_prefix [of "List.length k" ys] by simp
qed (auto simp: prefix_def)

lemma strncmp_prefix: "CHR 0x00 \<notin> set k \<Longrightarrow> strncmp_eq (k @ t) cmp (List.length k) \<longleftrightarrow> prefix k cmp"
  using take_prefix [of k "cmp @ [CHR 0x00]"] by (auto simp: strncmp_eq_def)

text \<open>The first line sets the queue's length when its key is any prefix of
  \<open>MAX_DATANODE_REQ_QUEUE\<close>, also the empty one; with another key the length keeps its value.\<close>

theorem queue_length_configured:
  assumes "CHR ''='' \<notin> set k" and "CHR 0x0A \<notin> set k" and "CHR 0x00 \<notin> set k" and "List.length k < 1000" and "n < 2 ^ 31"
  shows "load_configuration (Some (k @ CHR ''='' # dec n @ CHR 0x0A # rest)) init_conf_values =
    Some (if prefix k ''MAX_DATANODE_REQ_QUEUE'' then int n else init_conf_values)"
proof -
  let ?l = "k @ CHR ''='' # dec n"
  have d: "CHR 0x0A \<notin> set (dec n)" "CHR 0x00 \<notin> set (dec n)"
    using dec_digits [of n] by (fastforce simp: isdigit_def)+
  note assms(5)
  also have "(2 :: nat) ^ 31 < 10 ^ Suc 9" by simp
  finally have "List.length (dec n) \<le> 10" using length_dec [of n 9] by simp
  then have f: "fgets 1023 (?l @ CHR 0x0A # rest) = (?l @ [CHR 0x0A], rest)"
    using assms d by (intro fgets_line) simp_all
  have "takeWhile (\<lambda>c. c \<noteq> CHR 0x00) (?l @ [CHR 0x0A]) = ?l @ [CHR 0x0A]"
    using assms d by (subst takeWhile_eq_all_conv) auto
  then have c: "c_str (?l @ [CHR 0x0A]) = ?l @ [CHR 0x0A]" by (simp add: c_str_def)
  have p: "strstr (?l @ [CHR 0x0A]) ''='' = Some (CHR ''='' # dec n @ [CHR 0x0A])"
    using strstr_key [OF assms(1), of "dec n @ [CHR 0x0A]"] by simp
  have s: "scan_int (dec n @ [CHR 0x0A]) = Some (int n, [CHR 0x0A])"
  proof -
    obtain x cs where x: "dec n = x # cs" "isdigit x" using dec_ne [of n] dec_hd [of n] by (cases "dec n") auto
    have "read_number 0 (dec n @ [CHR 0x0A]) = (int n, [CHR 0x0A])" using assms(5) by (intro read_number_dec) (simp_all add: isdigit_def)
    then show ?thesis using digit_not_space [OF x(2)] x by (simp add: scan_int_def Let_def)
  qed
  have q: "strncmp_eq (?l @ [CHR 0x0A]) ''MAX_DATANODE_REQ_QUEUE'' (List.length k) = prefix k ''MAX_DATANODE_REQ_QUEUE''"
    using strncmp_prefix [OF assms(3), of "CHR ''='' # dec n @ [CHR 0x0A]"] by simp
  have "read_fields (?l @ [CHR 0x0A]) ''MAX_DATANODE_REQ_QUEUE'' init_conf_values =
      Some (if prefix k ''MAX_DATANODE_REQ_QUEUE'' then int n else init_conf_values)"
    unfolding read_fields_def p option.case using q s by simp
  then show ?thesis using f c by (simp add: load_configuration_def)
qed

lemma queue_length_configured_example:
  "load_configuration (Some (''MAX'' @ CHR ''='' # dec 7 @ CHR 0x0A # [])) init_conf_values = Some (int 7)"
  using queue_length_configured [of "''MAX''" 7 "[]"] by simp

end
