(* ===== verification/Metadata_Memory.thy ===== *)
theory Metadata_Memory
  imports Mem_Pool Namenode_Protocol
begin

text \<open>
  The memory of the metadata (\<open>Metadata.c\<close>): arrays of pointers to located requests and to
  datanode locations, the objects from the pools of \<open>Mem_Pool\<close>, and what parsing a response
  of the namenode allocates.

  An array from \<open>kzalloc\<close> has an address of its own and is a list of pointers; a request for a
  negative number of entries is one for a huge size and fails, otherwise the argument says
  whether the kernel has the memory.  Of a located request and of metadata only the pointer to
  their array and its count are kept.  A write through NULL, outside an array, or to an object
  that is not allocated is a fault.
\<close>

section \<open>State\<close>

record meta_mem =
  m_pools :: mpst
  m_arrays :: "nat \<rightharpoonup> nat option list"
  m_lrs :: "nat \<rightharpoonup> nat option \<times> int"      \<comment> \<open>\<open>dn_locs\<close>, \<open>nr_dn_locs\<close>\<close>
  m_dmetas :: "nat \<rightharpoonup> nat option \<times> int"   \<comment> \<open>\<open>lrs\<close>, \<open>nr_lrs\<close>\<close>
  m_next :: nat

definition kzalloc_array :: "bool \<Rightarrow> int \<Rightarrow> meta_mem \<Rightarrow> nat option \<times> meta_mem" where
  "kzalloc_array ok n s =
    (if ok \<and> 0 \<le> n then (Some (m_next s),
       s\<lparr>m_arrays := (m_arrays s)(m_next s \<mapsto> replicate (nat n) None), m_next := Suc (m_next s)\<rparr>)
     else (None, s))"

definition kfree_array :: "nat \<Rightarrow> meta_mem \<Rightarrow> meta_mem option" where
  "kfree_array p s = (if m_arrays s p = None then None else Some (s\<lparr>m_arrays := (m_arrays s)(p := None)\<rparr>))"

definition get_slot :: "nat option \<Rightarrow> nat \<Rightarrow> meta_mem \<Rightarrow> nat option option" where
  "get_slot p i s = do { p \<leftarrow> p; as \<leftarrow> m_arrays s p; if i < length as then Some (as ! i) else None }"

definition set_slot :: "nat option \<Rightarrow> nat \<Rightarrow> nat \<Rightarrow> meta_mem \<Rightarrow> meta_mem option" where
  "set_slot p i a s = do {
     p \<leftarrow> p; as \<leftarrow> m_arrays s p;
     if i < length as then Some (s\<lparr>m_arrays := (m_arrays s)(p \<mapsto> as[i := Some a])\<rparr>) else None }"

section \<open>Datanode locations\<close>

fun create_dns_loop :: "nat option \<Rightarrow> nat \<Rightarrow> nat \<Rightarrow> meta_mem \<Rightarrow> meta_mem option" where
  "create_dns_loop p i 0 s = Some s"
| "create_dns_loop p i (Suc n) s = do {
     (dn, pools) \<leftarrow> Malloc_Datanode_Location (m_pools s);
     s \<leftarrow> set_slot p i dn (s\<lparr>m_pools := pools\<rparr>);
     create_dns_loop p (Suc i) n s }"

definition Create_Datanode_Locations :: "bool \<Rightarrow> int \<Rightarrow> meta_mem \<Rightarrow> (nat option \<times> meta_mem) option" where
  "Create_Datanode_Locations ok nr_dns s = do {
     (dns, s) \<leftarrow> Some (kzalloc_array ok nr_dns s);
     s \<leftarrow> create_dns_loop dns 0 (nat nr_dns) s;
     Some (dns, s) }"

fun release_dns_loop :: "nat \<Rightarrow> nat \<Rightarrow> nat \<Rightarrow> meta_mem \<Rightarrow> meta_mem option" where
  "release_dns_loop p i 0 s = Some s"
| "release_dns_loop p i (Suc n) s = do {
     dn \<leftarrow> get_slot (Some p) i s;
     s \<leftarrow> (case dn of None \<Rightarrow> Some s
          | Some dn \<Rightarrow> do { pools \<leftarrow> Free_Datanode_Location dn (m_pools s); Some (s\<lparr>m_pools := pools\<rparr>) });
     release_dns_loop p (Suc i) n s }"

definition Release_Datanode_Locations :: "nat option \<Rightarrow> int \<Rightarrow> meta_mem \<Rightarrow> meta_mem option" where
  "Release_Datanode_Locations dns nr_dns s =
    (case dns of None \<Rightarrow> Some s
     | Some p \<Rightarrow> do { s \<leftarrow> release_dns_loop p 0 (nat nr_dns) s; kfree_array p s })"

section \<open>Located requests\<close>

fun create_lrs_loop :: "nat option \<Rightarrow> nat \<Rightarrow> nat \<Rightarrow> meta_mem \<Rightarrow> meta_mem option" where
  "create_lrs_loop p i 0 s = Some s"
| "create_lrs_loop p i (Suc n) s = do {
     (lr, pools) \<leftarrow> Malloc_Located_Request (m_pools s);
     s \<leftarrow> set_slot p i lr (s\<lparr>m_pools := pools, m_lrs := (m_lrs s)(lr \<mapsto> (None, 0))\<rparr>);
     create_lrs_loop p (Suc i) n s }"

definition alloc_Located_Requests :: "bool \<Rightarrow> int \<Rightarrow> meta_mem \<Rightarrow> (nat option \<times> meta_mem) option" where
  "alloc_Located_Requests ok nr_lrs s = do {
     (lrs, s) \<leftarrow> Some (kzalloc_array ok nr_lrs s);
     s \<leftarrow> create_lrs_loop lrs 0 (nat nr_lrs) s;
     Some (lrs, s) }"

fun release_lrs_loop :: "nat \<Rightarrow> nat \<Rightarrow> nat \<Rightarrow> meta_mem \<Rightarrow> meta_mem option" where
  "release_lrs_loop p i 0 s = Some s"
| "release_lrs_loop p i (Suc n) s = do {
     lr \<leftarrow> get_slot (Some p) i s;
     s \<leftarrow> (case lr of None \<Rightarrow> Some s
          | Some lr \<Rightarrow> do {
              (dns, nr_dns) \<leftarrow> m_lrs s lr;
              s \<leftarrow> Release_Datanode_Locations dns nr_dns s;
              pools \<leftarrow> Free_Located_Request lr (m_pools s);
              Some (s\<lparr>m_pools := pools, m_lrs := (m_lrs s)(lr := None)\<rparr>) });
     release_lrs_loop p (Suc i) n s }"

definition Release_Located_Requests :: "nat option \<Rightarrow> int \<Rightarrow> meta_mem \<Rightarrow> meta_mem option" where
  "Release_Located_Requests lrs nr_lrs s =
    (case lrs of None \<Rightarrow> Some s
     | Some p \<Rightarrow> do { s \<leftarrow> release_lrs_loop p 0 (nat nr_lrs) s; kfree_array p s })"

section \<open>Metadata\<close>

definition alloc_DMS_Metadata :: "meta_mem \<Rightarrow> (nat \<times> meta_mem) option" where
  "alloc_DMS_Metadata s = do {
     (dmeta, pools) \<leftarrow> Malloc_DMS_Metadata (m_pools s);
     Some (dmeta, s\<lparr>m_pools := pools, m_dmetas := (m_dmetas s)(dmeta \<mapsto> (None, 0))\<rparr>) }"

definition Release_DMS_Metadata :: "nat \<Rightarrow> meta_mem \<Rightarrow> meta_mem option" where
  "Release_DMS_Metadata dmeta s = do {
     (lrs, nr_lrs) \<leftarrow> m_dmetas s dmeta;
     s \<leftarrow> Release_Located_Requests lrs nr_lrs s;
     pools \<leftarrow> Free_DMS_Metadata dmeta (m_pools s);
     Some (s\<lparr>m_pools := pools, m_dmetas := (m_dmetas s)(dmeta := None)\<rparr>) }"

section \<open>What a response allocates\<close>

text \<open>
  The locations of each located request that is parsed; the parser stops at the first
  one without locations (\<open>Parse_Located_Requests\<close>).
\<close>

fun parse_mem :: "nat option \<Rightarrow> nat \<Rightarrow> located_request list \<Rightarrow> meta_mem \<Rightarrow> meta_mem option" where
  "parse_mem p i [] s = Some s"
| "parse_mem p i (lr # lrs) s = do {
     l \<leftarrow> get_slot p i s;
     (case l of None \<Rightarrow> Some s
      | Some a \<Rightarrow> do {
          (dns, s) \<leftarrow> Create_Datanode_Locations True (lr_nr_dn_locs lr) s;
          s \<leftarrow> Some (s\<lparr>m_lrs := (m_lrs s)(a \<mapsto> (dns, lr_nr_dn_locs lr))\<rparr>);
          if lr_dn_locs lr = [] then Some s else parse_mem p (Suc i) lrs s }) }"

text \<open>
  One response of the namenode: \<open>retcode\<close> and \<open>body\<close> are the result of the parser.  Only a
  positive result reaches \<open>Process_Namenode_Response\<close>, which makes the metadata.
\<close>

definition response_mem :: "int \<Rightarrow> nn_body \<Rightarrow> meta_mem \<Rightarrow> (nat option \<times> meta_mem) option" where
  "response_mem retcode body s = do {
     (lrs, s) \<leftarrow> alloc_Located_Requests True (q_nr_lrs body) s;
     s \<leftarrow> parse_mem lrs 0 (q_lrs body) s;
     if retcode > 0 then do {
       (dmeta, s) \<leftarrow> alloc_DMS_Metadata s;
       Some (Some dmeta, s\<lparr>m_dmetas := (m_dmetas s)(dmeta \<mapsto> (lrs, q_nr_lrs body))\<rparr>)
     } else Some (None, s) }"

section \<open>Arrays of objects\<close>

text \<open>Updates of the memory are kept as updates.\<close>

declare fun_upd_apply [simp del] fun_upd_same [simp] fun_upd_other [simp]

text \<open>The objects in a list, taken in turn from what is outstanding.\<close>

lemma fold_remove1_rev:
  "distinct (rev as @ l) \<Longrightarrow> fold remove1 as (rev as @ l) = l"
proof (induction as arbitrary: l)
  case (Cons a as)
  then have "remove1 a (rev as @ a # l) = rev as @ l" by (simp add: remove1_append)
  with Cons show ?case by auto
qed simp

lemma fold_remove1_append: "fold remove1 (as @ bs) l = fold remove1 bs (fold remove1 as l)"
  by simp

lemma list_update_next: "(map Some xs @ None # l)[length xs := Some a] = map Some (xs @ [a]) @ l"
  by (simp add: list_update_append)

lemma create_dns_loop_ok:
  "pools_ok mn sizeof base outs (m_pools s) \<Longrightarrow> m_arrays s p = Some (map Some xs @ replicate n None) \<Longrightarrow>
   \<exists>ys pools. create_dns_loop (Some p) (length xs) n s =
       Some (s\<lparr>m_pools := pools, m_arrays := (m_arrays s)(p \<mapsto> map Some (xs @ ys))\<rparr>) \<and> length ys = n \<and>
     pools_ok mn sizeof base (outs(DNLOC := rev ys @ outs DNLOC)) pools"
proof (induction n arbitrary: outs s xs)
  case 0
  then have "(m_arrays s)(p \<mapsto> map Some xs) = m_arrays s" by (simp add: fun_upd_idem)
  with 0 show ?case by (intro exI [of _ "[]"] exI [of _ "m_pools s"]) simp
next
  case (Suc n)
  obtain a pools where a: "Malloc_Datanode_Location (m_pools s) = Some (a, pools)"
    "pools_ok mn sizeof base (outs(DNLOC := a # outs DNLOC)) pools"
    using malloc_of_ok [OF Suc.prems(1), of DNLOC] by auto
  let ?s = "s\<lparr>m_pools := pools, m_arrays := (m_arrays s)(p \<mapsto> map Some (xs @ [a]) @ replicate n None)\<rparr>"
  have st: "set_slot (Some p) (length xs) a (s\<lparr>m_pools := pools\<rparr>) = Some ?s"
    using Suc.prems(2) list_update_next [of xs "replicate n None" a] by (simp add: set_slot_def)
  have "pools_ok mn sizeof base (outs(DNLOC := a # outs DNLOC)) (m_pools ?s)"
    "m_arrays ?s p = Some (map Some (xs @ [a]) @ replicate n None)" using a(2) by simp_all
  from Suc.IH [OF this] obtain ys pools' where
    "create_dns_loop (Some p) (length (xs @ [a])) n ?s =
       Some (?s\<lparr>m_pools := pools', m_arrays := (m_arrays ?s)(p \<mapsto> map Some ((xs @ [a]) @ ys))\<rparr>)"
    "length ys = n" "pools_ok mn sizeof base (outs(DNLOC := rev (a # ys) @ outs DNLOC)) pools'" by auto
  then show ?case by (intro exI [of _ "a # ys"] exI [of _ pools']) (simp add: a(1) st)
qed

lemma create_lrs_loop_ok:
  "pools_ok mn sizeof base outs (m_pools s) \<Longrightarrow> m_arrays s p = Some (map Some xs @ replicate n None) \<Longrightarrow>
   \<exists>ys pools lrs. create_lrs_loop (Some p) (length xs) n s =
       Some (s\<lparr>m_pools := pools, m_arrays := (m_arrays s)(p \<mapsto> map Some (xs @ ys)), m_lrs := lrs\<rparr>) \<and> length ys = n \<and>
     pools_ok mn sizeof base (outs(LOCREQ := rev ys @ outs LOCREQ)) pools \<and> (\<forall>a. a \<notin> set ys \<longrightarrow> lrs a = m_lrs s a)"
proof (induction n arbitrary: outs s xs)
  case 0
  then have "(m_arrays s)(p \<mapsto> map Some xs) = m_arrays s" by (simp add: fun_upd_idem)
  with 0 show ?case by (intro exI [of _ "[]"] exI [of _ "m_pools s"] exI [of _ "m_lrs s"]) simp
next
  case (Suc n)
  obtain a pools where a: "Malloc_Located_Request (m_pools s) = Some (a, pools)"
    "pools_ok mn sizeof base (outs(LOCREQ := a # outs LOCREQ)) pools"
    using malloc_of_ok [OF Suc.prems(1), of LOCREQ] by auto
  let ?s = "s\<lparr>m_pools := pools, m_arrays := (m_arrays s)(p \<mapsto> map Some (xs @ [a]) @ replicate n None),
    m_lrs := (m_lrs s)(a \<mapsto> (None, 0))\<rparr>"
  have st: "set_slot (Some p) (length xs) a (s\<lparr>m_pools := pools, m_lrs := (m_lrs s)(a \<mapsto> (None, 0))\<rparr>) = Some ?s"
    using Suc.prems(2) list_update_next [of xs "replicate n None" a] by (simp add: set_slot_def)
  have "pools_ok mn sizeof base (outs(LOCREQ := a # outs LOCREQ)) (m_pools ?s)"
    "m_arrays ?s p = Some (map Some (xs @ [a]) @ replicate n None)" using a(2) by simp_all
  from Suc.IH [OF this] obtain ys pools' lrs where
    "create_lrs_loop (Some p) (length (xs @ [a])) n ?s =
       Some (?s\<lparr>m_pools := pools', m_arrays := (m_arrays ?s)(p \<mapsto> map Some ((xs @ [a]) @ ys)), m_lrs := lrs\<rparr>)"
    "length ys = n" "pools_ok mn sizeof base (outs(LOCREQ := rev (a # ys) @ outs LOCREQ)) pools'"
    "\<forall>x. x \<notin> set ys \<longrightarrow> lrs x = m_lrs ?s x" by auto
  moreover from this(4) have "\<forall>x. x \<notin> set (a # ys) \<longrightarrow> lrs x = m_lrs s x" by simp
  ultimately show ?case by (intro exI [of _ "a # ys"] exI [of _ pools'] exI [of _ lrs]) (simp add: a(1) st)
qed

lemma release_dns_loop_ok:
  "pools_ok mn sizeof base outs (m_pools s) \<Longrightarrow> m_arrays s p = Some (map Some (xs @ ys)) \<Longrightarrow>
   distinct ys \<Longrightarrow> set ys \<subseteq> set (outs DNLOC) \<Longrightarrow>
   \<exists>pools. release_dns_loop p (length xs) (length ys) s = Some (s\<lparr>m_pools := pools\<rparr>) \<and>
     pools_ok mn sizeof base (outs(DNLOC := fold remove1 ys (outs DNLOC))) pools"
proof (induction ys arbitrary: outs s xs)
  case Nil
  then show ?case by (intro exI [of _ "m_pools s"]) simp
next
  case (Cons y ys)
  obtain pools where f: "Free_Datanode_Location y (m_pools s) = Some pools"
    "pools_ok mn sizeof base (outs(DNLOC := remove1 y (outs DNLOC))) pools"
    using free_of_ok(1) [OF Cons.prems(1), of y DNLOC] Cons.prems(4) by auto
  let ?s = "s\<lparr>m_pools := pools\<rparr>"
  have g: "get_slot (Some p) (length xs) s = Some (Some y)"
    using Cons.prems(2) by (simp add: get_slot_def nth_append)
  have "set ys \<subseteq> set (remove1 y (outs DNLOC))" using Cons.prems(3,4)
    by (metis distinct.simps(2) in_set_remove1 list.set_intros(2) subset_iff)
  then obtain pools' where
    "release_dns_loop p (length (xs @ [y])) (length ys) ?s = Some (?s\<lparr>m_pools := pools'\<rparr>)"
    "pools_ok mn sizeof base (outs(DNLOC := fold remove1 ys (remove1 y (outs DNLOC)))) pools'"
    using Cons.IH [of "outs(DNLOC := remove1 y (outs DNLOC))" ?s "xs @ [y]"] f(2) Cons.prems(2,3) by auto
  then show ?case by (intro exI [of _ pools']) (simp add: g f(1))
qed

lemma Create_Datanode_Locations_ok:
  assumes "pools_ok mn sizeof base outs (m_pools s)" and "0 \<le> n"
  shows "\<exists>ys pools. Create_Datanode_Locations True n s =
      Some (Some (m_next s), s\<lparr>m_pools := pools, m_arrays := (m_arrays s)(m_next s \<mapsto> map Some ys), m_next := Suc (m_next s)\<rparr>) \<and>
    length ys = nat n \<and> pools_ok mn sizeof base (outs(DNLOC := rev ys @ outs DNLOC)) pools"
proof -
  let ?s = "s\<lparr>m_arrays := (m_arrays s)(m_next s \<mapsto> replicate (nat n) None), m_next := Suc (m_next s)\<rparr>"
  have "pools_ok mn sizeof base outs (m_pools ?s)" "m_arrays ?s (m_next s) = Some (map Some [] @ replicate (nat n) None)"
    using assms(1) by simp_all
  from create_dns_loop_ok [OF this] obtain ys pools where
    "create_dns_loop (Some (m_next s)) 0 (nat n) ?s =
       Some (?s\<lparr>m_pools := pools, m_arrays := (m_arrays s)(m_next s \<mapsto> map Some ys)\<rparr>)"
    "length ys = nat n" "pools_ok mn sizeof base (outs(DNLOC := rev ys @ outs DNLOC)) pools" by auto
  then show ?thesis using assms(2)
    by (intro exI [of _ ys] exI [of _ pools]) (simp add: Create_Datanode_Locations_def kzalloc_array_def)
qed

lemma alloc_Located_Requests_ok:
  assumes "pools_ok mn sizeof base outs (m_pools s)" and "0 \<le> n"
  shows "\<exists>ys pools lrs. alloc_Located_Requests True n s =
      Some (Some (m_next s), s\<lparr>m_pools := pools, m_arrays := (m_arrays s)(m_next s \<mapsto> map Some ys), m_lrs := lrs,
        m_next := Suc (m_next s)\<rparr>) \<and>
    length ys = nat n \<and> pools_ok mn sizeof base (outs(LOCREQ := rev ys @ outs LOCREQ)) pools \<and>
    (\<forall>a. a \<notin> set ys \<longrightarrow> lrs a = m_lrs s a)"
proof -
  let ?s = "s\<lparr>m_arrays := (m_arrays s)(m_next s \<mapsto> replicate (nat n) None), m_next := Suc (m_next s)\<rparr>"
  have "pools_ok mn sizeof base outs (m_pools ?s)" "m_arrays ?s (m_next s) = Some (map Some [] @ replicate (nat n) None)"
    using assms(1) by simp_all
  from create_lrs_loop_ok [OF this] obtain ys pools lrs where
    "create_lrs_loop (Some (m_next s)) 0 (nat n) ?s =
       Some (?s\<lparr>m_pools := pools, m_arrays := (m_arrays s)(m_next s \<mapsto> map Some ys), m_lrs := lrs\<rparr>)"
    "length ys = nat n" "pools_ok mn sizeof base (outs(LOCREQ := rev ys @ outs LOCREQ)) pools"
    "\<forall>a. a \<notin> set ys \<longrightarrow> lrs a = m_lrs s a" by auto
  then show ?thesis using assms(2)
    by (intro exI [of _ ys] exI [of _ pools] exI [of _ lrs]) (simp add: alloc_Located_Requests_def kzalloc_array_def)
qed

lemma Release_Datanode_Locations_ok:
  assumes "pools_ok mn sizeof base outs (m_pools s)" and "m_arrays s p = Some (map Some ys)"
    and "distinct ys" and "set ys \<subseteq> set (outs DNLOC)"
  shows "\<exists>pools. Release_Datanode_Locations (Some p) (int (length ys)) s =
      Some (s\<lparr>m_pools := pools, m_arrays := (m_arrays s)(p := None)\<rparr>) \<and>
    pools_ok mn sizeof base (outs(DNLOC := fold remove1 ys (outs DNLOC))) pools"
  using release_dns_loop_ok [OF assms(1), of p "[]" ys] assms(2-4)
  by (auto simp: Release_Datanode_Locations_def kfree_array_def)

text \<open>The result of \<open>kzalloc\<close> is not tested before it is written to.\<close>

lemma create_without_memory:
  assumes "pools_ok mn sizeof base outs (m_pools s)" and "0 < n"
  shows "Create_Datanode_Locations False n s = None" and "alloc_Located_Requests False n s = None"
proof -
  obtain k where k: "nat n = Suc k" using assms(2) by (metis gr0_implies_Suc zero_less_nat_eq)
  obtain a p where "Malloc_Datanode_Location (m_pools s) = Some (a, p)" using malloc_of_ok [OF assms(1), of DNLOC] by auto
  then show "Create_Datanode_Locations False n s = None" by (simp add: Create_Datanode_Locations_def kzalloc_array_def k set_slot_def)
  obtain a p where "Malloc_Located_Request (m_pools s) = Some (a, p)" using malloc_of_ok [OF assms(1), of LOCREQ] by auto
  then show "alloc_Located_Requests False n s = None" by (simp add: alloc_Located_Requests_def kzalloc_array_def k set_slot_def)
qed

section \<open>Parsed requests\<close>

text \<open>A located request with its array and its datanode locations.\<close>

definition holds_parsed :: "meta_mem \<Rightarrow> nat \<times> nat \<times> nat list \<Rightarrow> bool" where
  "holds_parsed s z \<longleftrightarrow> (case z of (l, d, ns) \<Rightarrow> m_lrs s l = Some (Some d, int (length ns)) \<and> m_arrays s d = Some (map Some ns))"

abbreviation lrs_of :: "(nat \<times> nat \<times> nat list) list \<Rightarrow> nat list" where
  "lrs_of zs \<equiv> map fst zs"

abbreviation arrays_of :: "(nat \<times> nat \<times> nat list) list \<Rightarrow> nat list" where
  "arrays_of zs \<equiv> map (fst \<circ> snd) zs"

abbreviation dns_of :: "(nat \<times> nat \<times> nat list) list \<Rightarrow> nat list" where
  "dns_of zs \<equiv> concat (map (snd \<circ> snd) zs)"

lemma release_lrs_loop_ok:
  "pools_ok mn sizeof base outs (m_pools s) \<Longrightarrow> m_arrays s p = Some (map Some (xs @ lrs_of zs)) \<Longrightarrow>
   \<forall>z \<in> set zs. holds_parsed s z \<Longrightarrow> distinct (lrs_of zs) \<Longrightarrow> distinct (p # arrays_of zs) \<Longrightarrow> distinct (dns_of zs) \<Longrightarrow>
   set (dns_of zs) \<subseteq> set (outs DNLOC) \<Longrightarrow> set (lrs_of zs) \<subseteq> set (outs LOCREQ) \<Longrightarrow>
   \<exists>pools. release_lrs_loop p (length xs) (length zs) s =
       Some (s\<lparr>m_pools := pools, m_arrays := m_arrays s |` (- set (arrays_of zs)), m_lrs := m_lrs s |` (- set (lrs_of zs))\<rparr>) \<and>
     pools_ok mn sizeof base (outs(DNLOC := fold remove1 (dns_of zs) (outs DNLOC),
       LOCREQ := fold remove1 (lrs_of zs) (outs LOCREQ))) pools"
proof (induction zs arbitrary: outs s xs)
  case Nil
  then show ?case by (intro exI [of _ "m_pools s"]) simp
next
  case (Cons z zs)
  obtain l d ns where z: "z = (l, d, ns)" by (cases z)
  have h: "m_lrs s l = Some (Some d, int (length ns))" "m_arrays s d = Some (map Some ns)"
    using Cons.prems(3) by (simp_all add: holds_parsed_def z)
  have g: "get_slot (Some p) (length xs) s = Some (Some l)"
    using Cons.prems(2) by (simp add: get_slot_def nth_append z)
  have ns: "distinct ns" "set ns \<subseteq> set (outs DNLOC)" using Cons.prems(6,7) by (auto simp: z)
  obtain pools where r: "Release_Datanode_Locations (Some d) (int (length ns)) s =
      Some (s\<lparr>m_pools := pools, m_arrays := (m_arrays s)(d := None)\<rparr>)"
    "pools_ok mn sizeof base (outs(DNLOC := fold remove1 ns (outs DNLOC))) pools"
    using Release_Datanode_Locations_ok [OF Cons.prems(1) h(2) ns] by blast
  let ?o = "outs(DNLOC := fold remove1 ns (outs DNLOC), LOCREQ := remove1 l (outs LOCREQ))"
  obtain pools' where f: "Free_Located_Request l pools = Some pools'" "pools_ok mn sizeof base ?o pools'"
    using free_of_ok(1) [OF r(2), of l LOCREQ] Cons.prems(8) by (auto simp: z)
  let ?s = "s\<lparr>m_pools := pools', m_arrays := (m_arrays s)(d := None), m_lrs := (m_lrs s)(l := None)\<rparr>"
  have k: "holds_parsed ?s y" if "y \<in> set zs" for y
  proof -
    obtain l' d' ns' where y: "y = (l', d', ns')" by (cases y)
    have "l' \<noteq> l" "d' \<noteq> d" using Cons.prems(4,5) that by (auto simp: z y rev_image_eqI)
    then show ?thesis using Cons.prems(3) that by (auto simp: holds_parsed_def y)
  qed
  have keep: "x \<in> set (fold remove1 as l)" if "x \<in> set l" "x \<notin> set as" for x :: nat and as l
    using that by (induction as arbitrary: l) (auto simp: in_set_remove1)
  have "set (dns_of zs) \<subseteq> set (?o DNLOC)" using Cons.prems(6,7) by (auto simp: z intro!: keep)
  moreover have "set (lrs_of zs) \<subseteq> set (?o LOCREQ)" using Cons.prems(4,8)
    by (auto simp: z) (metis in_set_remove1 rev_image_eqI subsetD fst_conv)
  moreover have "m_arrays ?s p = Some (map Some ((xs @ [l]) @ lrs_of zs))" using Cons.prems(2,5) by (auto simp: z)
  ultimately have "\<exists>pools''. release_lrs_loop p (length (xs @ [l])) (length zs) ?s =
       Some (?s\<lparr>m_pools := pools'', m_arrays := m_arrays ?s |` (- set (arrays_of zs)), m_lrs := m_lrs ?s |` (- set (lrs_of zs))\<rparr>) \<and>
    pools_ok mn sizeof base (?o(DNLOC := fold remove1 (dns_of zs) (?o DNLOC), LOCREQ := fold remove1 (lrs_of zs) (?o LOCREQ))) pools''"
    using f(2) k Cons.prems(4-6) by (intro Cons.IH) (simp_all add: z)
  then obtain pools'' where
    "release_lrs_loop p (length (xs @ [l])) (length zs) ?s =
       Some (?s\<lparr>m_pools := pools'', m_arrays := m_arrays ?s |` (- set (arrays_of zs)), m_lrs := m_lrs ?s |` (- set (lrs_of zs))\<rparr>)"
    "pools_ok mn sizeof base (?o(DNLOC := fold remove1 (dns_of zs) (?o DNLOC), LOCREQ := fold remove1 (lrs_of zs) (?o LOCREQ))) pools''"
    by blast
  note ih = this
  have "s\<lparr>m_arrays := (m_arrays s)(d := None), m_pools := pools', m_lrs := (m_lrs s)(l := None)\<rparr> = ?s" by simp
  from arg_cong [OF this, of "release_lrs_loop p (Suc (length xs)) (length zs)"]
  have "release_lrs_loop p (length xs) (length (z # zs)) s = release_lrs_loop p (length (xs @ [l])) (length zs) ?s"
    by (simp add: z g h(1) r(1) f(1))
  also note ih(1)
  also have "m_arrays ?s |` (- set (arrays_of zs)) = m_arrays s |` (- set (arrays_of (z # zs)))"
    by (rule ext) (simp add: restrict_map_def fun_upd_apply z)
  also have "m_lrs ?s |` (- set (lrs_of zs)) = m_lrs s |` (- set (lrs_of (z # zs)))"
    by (rule ext) (simp add: restrict_map_def fun_upd_apply z)
  finally have "release_lrs_loop p (length xs) (length (z # zs)) s = Some (s\<lparr>m_pools := pools'',
      m_arrays := m_arrays s |` (- set (arrays_of (z # zs))), m_lrs := m_lrs s |` (- set (lrs_of (z # zs)))\<rparr>)" by simp
  moreover have "?o(DNLOC := fold remove1 (dns_of zs) (?o DNLOC), LOCREQ := fold remove1 (lrs_of zs) (?o LOCREQ)) =
      outs(DNLOC := fold remove1 (dns_of (z # zs)) (outs DNLOC), LOCREQ := fold remove1 (lrs_of (z # zs)) (outs LOCREQ))"
    by (rule ext) (simp add: fun_upd_apply z)
  ultimately show ?case using ih(2) by metis
qed

section \<open>Parsing\<close>

text \<open>Every located request of the body with locations, as a positive result of the parser says.\<close>

definition with_locations :: "located_request \<Rightarrow> bool" where
  "with_locations lr \<longleftrightarrow> lr_dn_locs lr \<noteq> [] \<and> lr_nr_dn_locs lr = int (length (lr_dn_locs lr))"

lemma parse_mem_ok:
  "pools_ok mn sizeof base outs (m_pools s) \<Longrightarrow> m_arrays s p = Some (map Some (xs @ ls)) \<Longrightarrow> length rs = length ls \<Longrightarrow>
   list_all with_locations rs \<Longrightarrow> distinct ls \<Longrightarrow> \<forall>a. m_next s \<le> a \<longrightarrow> m_arrays s a = None \<Longrightarrow>
   \<exists>zs s'. parse_mem (Some p) (length xs) rs s = Some s' \<and> lrs_of zs = ls \<and>
     pools_ok mn sizeof base (outs(DNLOC := rev (dns_of zs) @ outs DNLOC)) (m_pools s') \<and>
     (\<forall>z \<in> set zs. holds_parsed s' z) \<and> distinct (arrays_of zs) \<and>
     (\<forall>d \<in> set (arrays_of zs). m_next s \<le> d) \<and> (\<forall>a. a \<notin> set (arrays_of zs) \<longrightarrow> m_arrays s' a = m_arrays s a) \<and>
     (\<forall>a. a \<notin> set ls \<longrightarrow> m_lrs s' a = m_lrs s a) \<and> m_dmetas s' = m_dmetas s"
proof (induction rs arbitrary: outs s xs ls)
  case Nil
  then show ?case by (intro exI [of _ "[]"] exI [of _ s]) simp
next
  case (Cons r rs)
  obtain l ls' where ls: "ls = l # ls'" using Cons.prems(3) by (cases ls) auto
  have r: "lr_nr_dn_locs r = int (length (lr_dn_locs r))" "lr_dn_locs r \<noteq> []"
    using Cons.prems(4) by (simp_all add: with_locations_def)
  have g: "get_slot (Some p) (length xs) s = Some (Some l)"
    using Cons.prems(2) by (simp add: get_slot_def nth_append ls)
  have p: "p < m_next s" using Cons.prems(2,6) by (metis not_le option.distinct(1))
  obtain ys pools where c: "Create_Datanode_Locations True (lr_nr_dn_locs r) s =
      Some (Some (m_next s), s\<lparr>m_pools := pools, m_arrays := (m_arrays s)(m_next s \<mapsto> map Some ys), m_next := Suc (m_next s)\<rparr>)"
    "length ys = nat (lr_nr_dn_locs r)" "pools_ok mn sizeof base (outs(DNLOC := rev ys @ outs DNLOC)) pools"
    using Create_Datanode_Locations_ok [OF Cons.prems(1), of "lr_nr_dn_locs r"] r(1) by auto
  let ?d = "m_next s"
  let ?s = "s\<lparr>m_pools := pools, m_arrays := (m_arrays s)(?d \<mapsto> map Some ys), m_next := Suc ?d,
    m_lrs := (m_lrs s)(l \<mapsto> (Some ?d, lr_nr_dn_locs r))\<rparr>"
  have f: "\<forall>a. m_next ?s \<le> a \<longrightarrow> m_arrays ?s a = None" using Cons.prems(6) by (simp add: fun_upd_apply)
  have ar: "m_arrays ?s p = Some (map Some ((xs @ [l]) @ ls'))" using Cons.prems(2) p by (simp add: ls fun_upd_apply)
  have "\<exists>zs s'. parse_mem (Some p) (length (xs @ [l])) rs ?s = Some s' \<and> lrs_of zs = ls' \<and>
     pools_ok mn sizeof base ((outs(DNLOC := rev ys @ outs DNLOC))(DNLOC := rev (dns_of zs) @ (outs(DNLOC := rev ys @ outs DNLOC)) DNLOC)) (m_pools s') \<and>
     (\<forall>z \<in> set zs. holds_parsed s' z) \<and> distinct (arrays_of zs) \<and>
     (\<forall>d \<in> set (arrays_of zs). m_next ?s \<le> d) \<and> (\<forall>a. a \<notin> set (arrays_of zs) \<longrightarrow> m_arrays s' a = m_arrays ?s a) \<and>
     (\<forall>a. a \<notin> set ls' \<longrightarrow> m_lrs s' a = m_lrs ?s a) \<and> m_dmetas s' = m_dmetas ?s"
    by (rule Cons.IH [OF _ ar _ _ _ f]) (use c(3) Cons.prems(3-5) in \<open>simp_all add: ls\<close>)
  then obtain zs s' where i: "parse_mem (Some p) (length (xs @ [l])) rs ?s = Some s'" "lrs_of zs = ls'"
     "pools_ok mn sizeof base (outs(DNLOC := rev (dns_of zs) @ rev ys @ outs DNLOC)) (m_pools s')"
     "\<forall>z \<in> set zs. holds_parsed s' z" "distinct (arrays_of zs)" "\<forall>d \<in> set (arrays_of zs). Suc ?d \<le> d"
     "\<forall>a. a \<notin> set (arrays_of zs) \<longrightarrow> m_arrays s' a = m_arrays ?s a"
     "\<forall>a. a \<notin> set ls' \<longrightarrow> m_lrs s' a = m_lrs ?s a" "m_dmetas s' = m_dmetas ?s" by (simp add: fun_upd_upd) metis
  have d: "?d \<notin> set (arrays_of zs)" using i(6) by (meson not_less_eq_eq order_refl)
  have l: "l \<notin> set ls'" using Cons.prems(5) by (simp add: ls)
  let ?z = "(l, ?d, ys)"
  have "parse_mem (Some p) (length xs) (r # rs) s = Some s'" using i(1) by (simp add: g c(1) r(2))
  moreover have "lrs_of (?z # zs) = ls" by (simp add: ls i(2))
  moreover have "holds_parsed s' ?z" using i(7) i(8) d l c(2) r(1) by (simp add: holds_parsed_def)
  moreover have "\<forall>a. a \<notin> set (arrays_of (?z # zs)) \<longrightarrow> m_arrays s' a = m_arrays s a" using i(7) by simp
  moreover have "\<forall>a. a \<notin> set ls \<longrightarrow> m_lrs s' a = m_lrs s a" using i(8) by (simp add: ls)
  moreover have "\<forall>x \<in> set (arrays_of (?z # zs)). m_next s \<le> x" using i(6) by auto
  moreover have "distinct (arrays_of (?z # zs))" using i(5) d by simp
  moreover have "pools_ok mn sizeof base (outs(DNLOC := rev (dns_of (?z # zs)) @ outs DNLOC)) (m_pools s')" using i(3) by simp
  ultimately show ?case using i(4,9) by (intro exI [of _ "?z # zs"] exI [of _ s']) (simp add: comp_def)
qed

text \<open>Without the locations of every request the parser stops, and only their count matters.\<close>

lemma parse_mem_keeps:
  "pools_ok mn sizeof base outs (m_pools s) \<Longrightarrow> m_arrays s p = Some (map Some (xs @ ls)) \<Longrightarrow> length rs \<le> length ls \<Longrightarrow>
   \<forall>a. m_next s \<le> a \<longrightarrow> m_arrays s a = None \<Longrightarrow>
   \<exists>s' ol. parse_mem (Some p) (length xs) rs s = Some s' \<and> pools_ok mn sizeof base (outs(DNLOC := ol)) (m_pools s')"
proof (induction rs arbitrary: outs s xs ls)
  case Nil
  then show ?case by (intro exI [of _ s] exI [of _ "outs DNLOC"]) simp
next
  case (Cons r rs)
  obtain l ls' where ls: "ls = l # ls'" using Cons.prems(3) by (cases ls) auto
  have g: "get_slot (Some p) (length xs) s = Some (Some l)"
    using Cons.prems(2) by (simp add: get_slot_def nth_append ls)
  have p: "p < m_next s" using Cons.prems(2,4) by (metis not_le option.distinct(1))
  have "\<exists>q s1 ol. Create_Datanode_Locations True (lr_nr_dn_locs r) s = Some (q, s1) \<and>
      pools_ok mn sizeof base (outs(DNLOC := ol)) (m_pools s1) \<and> m_arrays s1 p = m_arrays s p \<and>
      (\<forall>a. m_next s1 \<le> a \<longrightarrow> m_arrays s1 a = None)"
  proof (cases "0 \<le> lr_nr_dn_locs r")
    case True
    from Create_Datanode_Locations_ok [OF Cons.prems(1) this] obtain ys pools where
      "Create_Datanode_Locations True (lr_nr_dn_locs r) s =
         Some (Some (m_next s), s\<lparr>m_pools := pools, m_arrays := (m_arrays s)(m_next s \<mapsto> map Some ys), m_next := Suc (m_next s)\<rparr>)"
      "pools_ok mn sizeof base (outs(DNLOC := rev ys @ outs DNLOC)) pools" by blast
    then show ?thesis using p Cons.prems(4) by (intro exI conjI) (assumption, simp_all add: fun_upd_apply)
  next
    case False
    then have "Create_Datanode_Locations True (lr_nr_dn_locs r) s = Some (None, s)"
      by (simp add: Create_Datanode_Locations_def kzalloc_array_def)
    then show ?thesis using Cons.prems(1,4) by (intro exI conjI [of _ "_ \<and> _"] exI [of _ "outs DNLOC"]) (assumption, simp_all)
  qed
  then obtain q s1 o1 where c: "Create_Datanode_Locations True (lr_nr_dn_locs r) s = Some (q, s1)"
    "pools_ok mn sizeof base (outs(DNLOC := o1)) (m_pools s1)" "m_arrays s1 p = m_arrays s p"
    "\<forall>a. m_next s1 \<le> a \<longrightarrow> m_arrays s1 a = None" by blast
  let ?s = "s1\<lparr>m_lrs := (m_lrs s1)(l \<mapsto> (q, lr_nr_dn_locs r))\<rparr>"
  show ?case
  proof (cases "lr_dn_locs r = []")
    case True
    then show ?thesis using c by (intro exI [of _ ?s] exI [of _ o1]) (simp add: g)
  next
    case False
    have "\<exists>s' ol. parse_mem (Some p) (length (xs @ [l])) rs ?s = Some s' \<and>
        pools_ok mn sizeof base ((outs(DNLOC := o1))(DNLOC := ol)) (m_pools s')"
      by (rule Cons.IH [of _ _ _ ls']) (use c Cons.prems(2,3) in \<open>simp_all add: ls\<close>)
    then obtain s' o2 where "parse_mem (Some p) (Suc (length xs)) rs ?s = Some s'"
      "pools_ok mn sizeof base (outs(DNLOC := o2)) (m_pools s')" by auto
    then show ?thesis using False by (intro exI [of _ s'] exI [of _ o2]) (simp add: g c(1))
  qed
qed

section \<open>Results of the parser\<close>

lemma read_n_length: "read_n rd n buf i = Some (xs, j) \<Longrightarrow> length xs = n"
  by (induction n arbitrary: i xs) (auto split: Option.bind_splits)

lemma located_count:
  assumes "Parse_Located_Request l buf slbid = Some (l', c)" and "0 < c"
  shows "with_locations l'"
proof -
  obtain nr_dn :: u16 and i dls j where r: "read_n Parse_Datanode_Location (nat (sint nr_dn)) i 0 = Some (dls, j)"
    and l: "lr_nr_dn_locs l' = sint nr_dn" "lr_dn_locs l' = dls" "j = 0 \<longrightarrow> c = 0"
    using assms(1) by (auto simp: Parse_Located_Request_def Parse_Datanode_Locations_def bind_eq_Some_conv)
  have n: "length dls = nat (sint nr_dn)" by (rule read_n_length [OF r])
  have "dls \<noteq> []"
  proof
    assume "dls = []"
    then have "j = 0" using r n by simp
    with l(3) assms(2) show False by simp
  qed
  then have "0 < nat (sint nr_dn)" using n by (metis length_greater_0_conv)
  then show ?thesis using n l \<open>dls \<noteq> []\<close> by (simp add: with_locations_def)
qed

lemma parsed_with_locations:
  "Parse_Located_Requests_from lrs slbid buf off lb = Some (rs, r) \<Longrightarrow> 0 < r \<Longrightarrow> 0 \<le> off \<Longrightarrow>
   length rs = length lrs \<and> list_all with_locations rs"
proof (induction lrs slbid buf off lb arbitrary: rs r rule: Parse_Located_Requests_from.induct)
  case (1 slbid buf off lb)
  then show ?case by simp
next
  case (2 l lrs slbid buf off lb)
  from 2(2) obtain l' c where l: "Parse_Located_Request l (drop (nat off) buf) (slbid + word_of_int lb) = Some (l', c)"
    by (auto split: Option.bind_splits)
  have c: "0 < c" using 2(2,3) l by (auto split: if_splits)
  from 2(2) l c obtain rs' where rs: "Parse_Located_Requests_from lrs slbid buf (off + c) (c_short (lb + lr_nr_lbids l')) = Some (rs', r)"
    "rs = l' # rs'" by (auto split: Option.bind_splits)
  have "with_locations l'" using l c by (rule located_count)
  with 2(1) [OF l refl c rs(1) 2(3)] 2(4) c rs(2) show ?case by simp
qed

lemma parsed_length:
  "Parse_Located_Requests_from lrs slbid buf off lb = Some (rs, r) \<Longrightarrow> length rs = length lrs"
proof (induction lrs slbid buf off lb arbitrary: rs r rule: Parse_Located_Requests_from.induct)
  case (2 l lrs slbid buf off lb)
  from 2(2) obtain l' c where l: "Parse_Located_Request l (drop (nat off) buf) (slbid + word_of_int lb) = Some (l', c)"
    by (auto split: Option.bind_splits)
  show ?case
  proof (cases "0 < c")
    case True
    with 2(2) l obtain rs' where rs: "Parse_Located_Requests_from lrs slbid buf (off + c) (c_short (lb + lr_nr_lbids l')) = Some (rs', r)"
      "rs = l' # rs'" by (auto split: Option.bind_splits)
    with 2(1) [OF l refl True rs(1)] show ?thesis by simp
  next
    case False
    with 2(2) l show ?thesis by auto
  qed
qed simp

lemma response_counts:
  assumes "Parse_Metadata_Response buf = Some (r, body)"
  shows "0 \<le> q_nr_lrs body" and "length (q_lrs body) = nat (q_nr_lrs body)" and "0 < r \<Longrightarrow> list_all with_locations (q_lrs body)"
proof -
  note simps = Parse_Metadata_Response_def Parse_Located_Requests_def bind_eq_Some_conv
  show "0 \<le> q_nr_lrs body" using assms by (auto simp: simps)
  show "length (q_lrs body) = nat (q_nr_lrs body)" using assms by (auto simp: simps dest!: parsed_length)
  show "0 < r \<Longrightarrow> list_all with_locations (q_lrs body)"
    using assms by (auto simp: simps dest!: parsed_with_locations split: if_splits)
qed

section \<open>Round trip\<close>

text \<open>
  A memory in order: the pools have handed out \<open>outs\<close>, no array lies beyond the next free
  address, and only objects that are out have contents.
\<close>

definition mem_ok :: "nat \<Rightarrow> (dmp_obj \<Rightarrow> nat) \<Rightarrow> kmem \<Rightarrow> (dmp_obj \<Rightarrow> nat list) \<Rightarrow> meta_mem \<Rightarrow> bool" where
  "mem_ok mn sizeof base outs s \<longleftrightarrow> pools_ok mn sizeof base outs (m_pools s) \<and> (\<forall>a. m_next s \<le> a \<longrightarrow> m_arrays s a = None) \<and>
     dom (m_lrs s) \<subseteq> set (outs LOCREQ) \<and> dom (m_dmetas s) \<subseteq> set (outs DMETA)"

lemma pools_ok_distinct: "pools_ok mn sizeof base outs s \<Longrightarrow> distinct (outs t)"
  by (simp add: pools_ok_def)

lemma response_built:
  assumes "mem_ok mn sizeof base outs s" and "Parse_Metadata_Response buf = Some (r, body)" and "0 < r"
  obtains zs d s' where "response_mem r body s = Some (Some d, s')"
    and "m_dmetas s' = (m_dmetas s)(d \<mapsto> (Some (m_next s), int (length zs)))"
    and "pools_ok mn sizeof base (outs(LOCREQ := rev (lrs_of zs) @ outs LOCREQ, DNLOC := rev (dns_of zs) @ outs DNLOC, DMETA := d # outs DMETA)) (m_pools s')"
    and "m_arrays s' (m_next s) = Some (map Some (lrs_of zs))" and "\<forall>z \<in> set zs. holds_parsed s' z"
    and "distinct (m_next s # arrays_of zs)" and "\<forall>a \<in> set (arrays_of zs). m_next s < a"
    and "\<forall>a. a \<notin> set (m_next s # arrays_of zs) \<longrightarrow> m_arrays s' a = m_arrays s a"
    and "\<forall>a. a \<notin> set (lrs_of zs) \<longrightarrow> m_lrs s' a = m_lrs s a"
proof -
  note c = response_counts [OF assms(2)]
  let ?p = "m_next s"
  have ok: "pools_ok mn sizeof base outs (m_pools s)" and fr: "\<forall>a. m_next s \<le> a \<longrightarrow> m_arrays s a = None"
    using assms(1) by (simp_all add: mem_ok_def)
  obtain ys pools lrs where a: "alloc_Located_Requests True (q_nr_lrs body) s =
      Some (Some ?p, s\<lparr>m_pools := pools, m_arrays := (m_arrays s)(?p \<mapsto> map Some ys), m_lrs := lrs, m_next := Suc ?p\<rparr>)"
    "length ys = nat (q_nr_lrs body)" "pools_ok mn sizeof base (outs(LOCREQ := rev ys @ outs LOCREQ)) pools"
    "\<forall>a. a \<notin> set ys \<longrightarrow> lrs a = m_lrs s a"
    using alloc_Located_Requests_ok [OF ok c(1)] by blast
  let ?s = "s\<lparr>m_pools := pools, m_arrays := (m_arrays s)(?p \<mapsto> map Some ys), m_lrs := lrs, m_next := Suc ?p\<rparr>"
  let ?o = "outs(LOCREQ := rev ys @ outs LOCREQ)"
  have "distinct ys" using pools_ok_distinct [OF a(3), of LOCREQ] by simp
  then have "\<exists>zs s'. parse_mem (Some ?p) (length ([] :: nat list)) (q_lrs body) ?s = Some s' \<and> lrs_of zs = ys \<and>
     pools_ok mn sizeof base (?o(DNLOC := rev (dns_of zs) @ ?o DNLOC)) (m_pools s') \<and>
     (\<forall>z \<in> set zs. holds_parsed s' z) \<and> distinct (arrays_of zs) \<and>
     (\<forall>d \<in> set (arrays_of zs). m_next ?s \<le> d) \<and> (\<forall>a. a \<notin> set (arrays_of zs) \<longrightarrow> m_arrays s' a = m_arrays ?s a) \<and>
     (\<forall>a. a \<notin> set ys \<longrightarrow> m_lrs s' a = m_lrs ?s a) \<and> m_dmetas s' = m_dmetas ?s"
    using a c(2,3) assms(3) fr by (intro parse_mem_ok) (simp_all add: fun_upd_apply)
  then obtain zs s2 where b: "parse_mem (Some ?p) 0 (q_lrs body) ?s = Some s2" "lrs_of zs = ys"
     "pools_ok mn sizeof base (?o(DNLOC := rev (dns_of zs) @ outs DNLOC)) (m_pools s2)"
     "\<forall>z \<in> set zs. holds_parsed s2 z" "distinct (arrays_of zs)" "\<forall>d \<in> set (arrays_of zs). Suc ?p \<le> d"
     "\<forall>a. a \<notin> set (arrays_of zs) \<longrightarrow> m_arrays s2 a = m_arrays ?s a"
     "\<forall>a. a \<notin> set ys \<longrightarrow> m_lrs s2 a = lrs a" "m_dmetas s2 = m_dmetas s" by auto
  obtain d pools3 where m: "Malloc_DMS_Metadata (m_pools s2) = Some (d, pools3)"
    "pools_ok mn sizeof base (?o(DNLOC := rev (dns_of zs) @ outs DNLOC, DMETA := d # outs DMETA)) pools3"
    using malloc_of_ok [OF b(3), of DMETA] by auto
  have n: "int (length zs) = q_nr_lrs body" using a(2) b(2) c(1) by (metis int_nat_eq length_map)
  have pz: "?p \<notin> set (arrays_of zs)" using b(6) by (meson not_less_eq_eq order_refl)
  let ?s' = "s2\<lparr>m_pools := pools3, m_dmetas := (m_dmetas s2)(d \<mapsto> (Some ?p, q_nr_lrs body))\<rparr>"
  show ?thesis
  proof (rule that [of d ?s' zs])
    show "response_mem r body s = Some (Some d, ?s')"
      using assms(3) a(1) b(1) m(1) by (simp add: response_mem_def alloc_DMS_Metadata_def)
    show "m_dmetas ?s' = (m_dmetas s)(d \<mapsto> (Some ?p, int (length zs)))" by (simp add: b(9) n)
    show "pools_ok mn sizeof base (outs(LOCREQ := rev (lrs_of zs) @ outs LOCREQ, DNLOC := rev (dns_of zs) @ outs DNLOC, DMETA := d # outs DMETA)) (m_pools ?s')"
      using m(2) by (simp add: b(2))
    show "m_arrays ?s' ?p = Some (map Some (lrs_of zs))" using b(2,7) pz by simp
    show "\<forall>z \<in> set zs. holds_parsed ?s' z" using b(4) by (simp add: holds_parsed_def)
    show "distinct (?p # arrays_of zs)" using b(5) pz by simp
    show "\<forall>a \<in> set (arrays_of zs). ?p < a" using b(6) by auto
    show "\<forall>a. a \<notin> set (?p # arrays_of zs) \<longrightarrow> m_arrays ?s' a = m_arrays s a" using b(7) by simp
    show "\<forall>a. a \<notin> set (lrs_of zs) \<longrightarrow> m_lrs ?s' a = m_lrs s a" using a(4) b(2,8) by simp
  qed
qed


text \<open>A response with two located requests, in the memory of a driver that has just started.\<close>

definition ex_mem :: "mpst \<Rightarrow> meta_mem" where
  "ex_mem pools = \<lparr>m_pools = pools, m_arrays = Map.empty, m_lrs = Map.empty, m_dmetas = Map.empty, m_next = 0\<rparr>"


end
