(* ===== verification/Daemon_Start.thy ===== *)
theory Daemon_Start
  imports Daemon_Config Daemon_Command
begin

text \<open>
  The start of the daemon (\<open>main\<close>, \<open>initialize\<close>, \<open>sighandler\<close> of
  \<open>Client_Daemon_Skeleton.c\<close>; \<open>create_connection\<close>, \<open>check_namenode_connection\<close>, \<open>check_driver\<close>,
  \<open>auto_remove_driver\<close>, \<open>save_attach_info_to_rs\<close> of \<open>Client_Daemon.c\<close>).

  What the system answers is an argument: the tries to connect, the sessions with the registration
  service, the loaded modules, which files can be opened.  A list of answers that ends before the
  loop does stands for a loop that does not end, and gives \<open>None\<close>.
\<close>

section \<open>The connection to the namenode\<close>

text \<open>One pass through \<open>create_connection\<close>, and the answer of \<open>getsockopt\<close> for its socket.\<close>

record conn_try =
  ct_fd :: int            \<comment> \<open>\<open>socket\<close>\<close>
  ct_waits :: nat         \<comment> \<open>how often \<open>gethostbyname\<close> fails before it succeeds\<close>
  ct_setsockopt :: int
  ct_connect :: int
  ct_getsockopt :: int

text \<open>Seconds slept, and the open descriptors.\<close>

record conn_state =
  cs_slept :: nat
  cs_open :: "int list"

definition create_connection :: "conn_try \<Rightarrow> conn_state \<Rightarrow> int \<times> conn_state" where
  "create_connection t s =
     (let s = s\<lparr>cs_slept := cs_slept s + ct_waits t, cs_open := (if 0 \<le> ct_fd t then ct_fd t # cs_open s else cs_open s)\<rparr>
      in (if ct_setsockopt t < 0 then ct_fd t else if ct_connect t < 0 then 0 else ct_fd t, s))"

text \<open>\<open>zero\<close> is the answer of \<open>getsockopt\<close> for descriptor 0, the standard input.\<close>

definition getsockopt :: "int \<Rightarrow> conn_try \<Rightarrow> int \<Rightarrow> int" where
  "getsockopt zero t ns = (if ns = ct_fd t then ct_getsockopt t else zero)"

fun check_loop :: "int \<Rightarrow> conn_try \<Rightarrow> int \<Rightarrow> conn_try list \<Rightarrow> conn_state \<Rightarrow> conn_state option" where
  "check_loop zero t ns ts s =
     (if getsockopt zero t ns < 0 then
        (case ts of
           [] \<Rightarrow> None
         | t # ts \<Rightarrow> (case create_connection t s of (ns, s) \<Rightarrow>
             check_loop zero t ns ts (s\<lparr>cs_slept := cs_slept s + 1\<rparr>)))
      else Some (s\<lparr>cs_open := remove1 ns (cs_open s)\<rparr>))"

declare check_loop.simps [simp del]

definition check_namenode_connection :: "int \<Rightarrow> conn_try list \<Rightarrow> conn_state \<Rightarrow> conn_state option" where
  "check_namenode_connection zero ts s =
     (case ts of [] \<Rightarrow> None
      | t # ts \<Rightarrow> (case create_connection t s of (ns, s) \<Rightarrow> check_loop zero t ns ts s))"

section \<open>The registration service\<close>

text \<open>The answers of \<open>initSession\<close> and \<open>checkConnection\<close> for one session.\<close>

record rs_session =
  rs_init :: int
  rs_check :: int

fun get_rs_connection :: "rs_session list \<Rightarrow> (rs_session option \<times> rs_session list) option" where
  "get_rs_connection [] = None"
| "get_rs_connection (c # cs) = Some (if rs_init c < 0 then None else Some c, cs)"

fun rs_retry :: "nat \<Rightarrow> rs_session option \<Rightarrow> rs_session list \<Rightarrow> (bool \<times> rs_session list) option" where
  "rs_retry 0 conn cs = Some (False, cs)"
| "rs_retry (Suc n) conn cs =
     (if \<exists>c. conn = Some c \<and> 0 \<le> rs_check c then Some (True, cs)
      else do { (conn, cs) \<leftarrow> get_rs_connection cs; rs_retry n conn cs })"

text \<open>\<open>ret\<close> is the result of \<open>attachVolume\<close> or \<open>detachVolume\<close>; the second component says whether
  one of them was called.\<close>

definition save_attach_info_to_rs :: "int \<Rightarrow> rs_session list \<Rightarrow> (int \<times> bool \<times> rs_session list) option" where
  "save_attach_info_to_rs ret cs = do {
     (conn, cs) \<leftarrow> get_rs_connection cs;
     (found, cs) \<leftarrow> rs_retry 5 conn cs;
     Some (if found then ret else - 1, found, cs) }"

section \<open>Loading the driver\<close>

definition DMS_DEV_NAME :: string where "DMS_DEV_NAME = ''dms_vdd''"
definition DMS_CONTROLLER_NAME :: string where "DMS_CONTROLLER_NAME = ''dms_vdd_ctrl''"
definition DMS_CONTROLLER_MAJOR :: nat where "DMS_CONTROLLER_MAJOR = 151"

text \<open>The first character in the buffer after the output of \<open>lsmod|grep pat\<close> was read into it;
  without output it is the old one.  The comparison of \<open>fgets\<close> with \<open>EOF\<close> is always true.\<close>

definition lsmod_grep :: "string \<Rightarrow> string list \<Rightarrow> char \<Rightarrow> char" where
  "lsmod_grep pat mods b = (case filter (sublist pat) mods of [] \<Rightarrow> b | l # _ \<Rightarrow> hd (l @ [CHR 0x0A]))"

definition ip_text :: "u8 list \<Rightarrow> string" where
  "ip_text ip = dec (unat (ip ! 0)) @ ''.'' @ dec (unat (ip ! 1)) @ ''.'' @ dec (unat (ip ! 2)) @ ''.'' @ dec (unat (ip ! 3))"

definition insmod_cmd :: "string \<Rightarrow> string" where
  "insmod_cmd ip = ''insmod ./'' @ DMS_DEV_NAME @ ''.ko namenode_ip='' @ [CHR 0x22] @ ip @ [CHR 0x22]"

text \<open>The commands given to the shell; \<open>Inl\<close> is the exit of the process.  The text of the
  address has a buffer of 16 characters, the command one of 128.\<close>

definition check_driver :: "string list \<Rightarrow> u8 list option \<Rightarrow> (int + string list) option" where
  "check_driver mods host =
     (case host of
        None \<Rightarrow> Some (Inl 1)
      | Some ip \<Rightarrow>
          if 16 \<le> List.length (ip_text ip) then None
          else if lsmod_grep ''ccma'' mods (CHR 0x00) = CHR 0x00
          then if 128 \<le> List.length (insmod_cmd (ip_text ip)) then None else Some (Inr [insmod_cmd (ip_text ip)])
          else Some (Inr []))"

text \<open>Here the buffer is not cleared: \<open>b\<close> is what the stack holds.\<close>

definition auto_remove_driver :: "char \<Rightarrow> string list \<Rightarrow> string list" where
  "auto_remove_driver b mods = (if lsmod_grep DMS_DEV_NAME mods b = CHR 0x00 then [] else [''rmmod dms_vdd''])"

definition sighandler :: "denv \<Rightarrow> char \<Rightarrow> string list \<Rightarrow> daemon \<Rightarrow> (string list \<times> daemon) option" where
  "sighandler env b mods d = do {
     (_, d) \<leftarrow> dms_ioctl env IOCTL_RESET_DRIVER d;
     Some (auto_remove_driver b mods, d) }"

section \<open>Start\<close>

text \<open>The file is opened once, before the loop: what was written, and the seconds slept.\<close>

fun procfs_loop :: "nat \<Rightarrow> bool \<Rightarrow> string \<Rightarrow> nat \<Rightarrow> string option \<times> nat" where
  "procfs_loop 0 opened val slept = (None, slept)"
| "procfs_loop (Suc n) opened val slept = (if opened then (Some val, slept) else procfs_loop n opened val (slept + 1))"

definition write_procfs :: "bool \<Rightarrow> int \<Rightarrow> string option \<times> nat" where
  "write_procfs opened val = procfs_loop 30 opened (sprintf_d val) 0"

record start_env =
  se_conf :: "string option"     \<comment> \<open>\<open>client.conf\<close>, if it can be opened\<close>
  se_tries :: "conn_try list"
  se_zero :: int
  se_rs :: "string option"       \<comment> \<open>\<open>rs.conf\<close>\<close>
  se_mods :: "string list"       \<comment> \<open>the lines of \<open>lsmod\<close>\<close>
  se_host :: "u8 list option"    \<comment> \<open>the namenode's address\<close>
  se_ctrl :: bool                \<comment> \<open>the control device exists\<close>
  se_open :: int                 \<comment> \<open>its descriptor\<close>
  se_proc :: bool                \<comment> \<open>the file under \<open>/proc/ccma\<close> can be opened\<close>

record started =
  st_queue :: int
  st_conn :: conn_state
  st_rs :: rs_setting
  st_cmds :: "string list"
  st_io_fd :: int
  st_list :: "nat \<times> attach_list"
  st_proc :: "string option \<times> nat"

definition initialize :: "start_env \<Rightarrow> started \<Rightarrow> (int + started) option" where
  "initialize env s = do {
     r \<leftarrow> check_driver (se_mods env) (se_host env);
     (case r of
        Inl code \<Rightarrow> Some (Inl code)
      | Inr cmds \<Rightarrow>
          let cmds = (if se_ctrl env then cmds
                else cmds @ [''mknod /dev/'' @ DMS_CONTROLLER_NAME @ '' c '' @ dec DMS_CONTROLLER_MAJOR @ '' 0''])
          in if se_open env = - 1 then Some (Inl 0)
             else Some (Inr (s\<lparr>st_cmds := cmds, st_io_fd := se_open env, st_list := init_list,
                    st_proc := write_procfs (se_proc env) (st_queue s)\<rparr>))) }"

definition main :: "start_env \<Rightarrow> started \<Rightarrow> (int + started) option" where
  "main env s = do {
     queue \<leftarrow> load_configuration (se_conf env) init_conf_values;
     conn \<leftarrow> check_namenode_connection (se_zero env) (se_tries env) (st_conn s);
     rs \<leftarrow> set_rs_setting_from_config (se_rs env) (st_rs s);
     initialize env (s\<lparr>st_queue := queue, st_conn := conn, st_rs := rs\<rparr>) }"

section \<open>Waiting for the namenode\<close>

text \<open>A try that ends the loop: the socket answers, and it is connected or was given back before
  the connection was tried.\<close>

definition usable :: "conn_try \<Rightarrow> bool" where
  "usable t \<longleftrightarrow> 0 \<le> ct_getsockopt t \<and> (ct_setsockopt t < 0 \<or> 0 \<le> ct_connect t)"

lemma check_step:
  assumes "zero < 0" and "0 < ct_fd t"
  shows "check_namenode_connection zero (t # ts) s =
    (if usable t then Some (s\<lparr>cs_slept := cs_slept s + ct_waits t\<rparr>)
     else check_namenode_connection zero ts (s\<lparr>cs_slept := cs_slept s + ct_waits t + 1, cs_open := ct_fd t # cs_open s\<rparr>))"
proof (cases "usable t")
  case True
  then show ?thesis using assms
    by (auto simp: check_namenode_connection_def create_connection_def check_loop.simps [of zero t] usable_def getsockopt_def)
next
  case False
  obtain sl op where s: "s = \<lparr>cs_slept = sl, cs_open = op\<rparr>" by (cases s)
  obtain ns where c: "create_connection t s = (ns, \<lparr>cs_slept = sl + ct_waits t, cs_open = ct_fd t # op\<rparr>)"
    and g: "getsockopt zero t ns < 0"
    using False assms by (auto simp: s getsockopt_def create_connection_def usable_def)
  have "check_loop zero t ns ts \<lparr>cs_slept = sl + ct_waits t, cs_open = ct_fd t # op\<rparr> =
      check_namenode_connection zero ts \<lparr>cs_slept = sl + ct_waits t + 1, cs_open = ct_fd t # op\<rparr>"
    using g by (auto simp: check_namenode_connection_def check_loop.simps [of zero t] create_connection_def split: list.splits)
  then show ?thesis using False by (simp add: check_namenode_connection_def [of zero "t # ts"] c) (simp add: s)
qed

text \<open>C22: The check of the namenode returns exactly when one of the tries is usable, with the
  first such one; it has then slept for every failed look-up of the name and every failed try,
  and the sockets of all failed tries are still open.  A try whose time-out cannot be set counts as
  usable without a connection.\<close>

theorem namenode_check_leaks:
  assumes "zero < 0" and "\<forall>t \<in> set ts. 0 < ct_fd t"
  shows "check_namenode_connection zero ts s =
    (if \<exists>t \<in> set ts. usable t
     then Some (s\<lparr>cs_slept := cs_slept s + sum_list (map ct_waits (takeWhile (\<lambda>t. \<not> usable t) ts))
             + length (takeWhile (\<lambda>t. \<not> usable t) ts) + ct_waits (hd (dropWhile (\<lambda>t. \<not> usable t) ts)),
           cs_open := rev (map ct_fd (takeWhile (\<lambda>t. \<not> usable t) ts)) @ cs_open s\<rparr>)
     else None)"
  using assms(2)
proof (induction ts arbitrary: s)
  case Nil
  then show ?case by (simp add: check_namenode_connection_def)
next
  case (Cons t ts)
  then show ?case using check_step [OF assms(1), of t ts s] by (simp add: add.assoc add.left_commute add.commute)
qed

lemma namenode_check_leaks_witness:
  "check_namenode_connection (- 1)
     [\<lparr>ct_fd = 4, ct_waits = 2, ct_setsockopt = 0, ct_connect = - 1, ct_getsockopt = 0\<rparr>,
      \<lparr>ct_fd = 5, ct_waits = 0, ct_setsockopt = 0, ct_connect = 0, ct_getsockopt = 0\<rparr>] \<lparr>cs_slept = 0, cs_open = []\<rparr> =
   Some \<lparr>cs_slept = 3, cs_open = [4]\<rparr>"
  by (subst namenode_check_leaks) (simp_all add: usable_def)

section \<open>The tries of the registration service\<close>

definition good_session :: "rs_session \<Rightarrow> bool" where
  "good_session c \<longleftrightarrow> 0 \<le> rs_init c \<and> 0 \<le> rs_check c"

text \<open>The session in hand is the head of the list of answers.\<close>

lemma rs_retry_first:
  "n < length cs \<Longrightarrow> rs_retry n (if rs_init (hd cs) < 0 then None else Some (hd cs)) (tl cs) =
    Some (if \<exists>c \<in> set (take n cs). good_session c then (True, tl (dropWhile (\<lambda>c. \<not> good_session c) cs))
     else (False, drop (Suc n) cs))"
proof (induction n arbitrary: cs)
  case 0
  then show ?case by (simp add: drop_Suc)
next
  case (Suc n)
  then obtain c d cs' where cs: "cs = c # d # cs'" by (metis Suc_length_conv less_imp_Suc_add list.exhaust nat.distinct(1) list.size(3) not_less_zero length_Cons Suc_less_eq)
  show ?case
  proof (cases "good_session c")
    case True
    then show ?thesis by (simp add: cs good_session_def)
  next
    case False
    with Suc.IH [of "d # cs'"] Suc.prems show ?thesis by (auto simp: cs good_session_def)
  qed
qed

text \<open>The daemon informs the registration service over the first of five sessions that can be
  set up and answers a check; the result is then that of the service.  Otherwise it is -1, after a
  sixth session has been set up that is not used, however good it is.\<close>

theorem rs_sixth_session_unused:
  assumes "5 < length cs"
  shows "save_attach_info_to_rs ret cs =
    Some (if \<exists>c \<in> set (take 5 cs). good_session c then (ret, True, tl (dropWhile (\<lambda>c. \<not> good_session c) cs))
      else (- 1, False, drop 6 cs))"
proof -
  obtain c cs' where cs: "cs = c # cs'" using assms by (cases cs) auto
  have r: "rs_retry 5 (if rs_init c < 0 then None else Some c) cs' =
      Some (if \<exists>c \<in> set (take 5 cs). good_session c then (True, tl (dropWhile (\<lambda>c. \<not> good_session c) cs))
        else (False, drop (Suc 5) cs))"
    using rs_retry_first [of 5 cs] assms unfolding cs list.sel by blast
  have "save_attach_info_to_rs ret cs = (case rs_retry 5 (if rs_init c < 0 then None else Some c) cs' of
      None \<Rightarrow> None | Some (found, cs) \<Rightarrow> Some (if found then ret else - 1, found, cs))"
    unfolding save_attach_info_to_rs_def cs get_rs_connection.simps Option.bind.simps prod.case by (simp split: option.split)
  also have "\<dots> = Some (if \<exists>c \<in> set (take 5 cs). good_session c then (ret, True, tl (dropWhile (\<lambda>c. \<not> good_session c) cs))
      else (- 1, False, drop 6 cs))" unfolding r by simp
  finally show ?thesis .
qed

section \<open>From the daemon to the driver\<close>

lemma byte_less: "unat (w :: u8) < 256"
  using unsigned_less [of w] by simp

lemma check_driver_ok:
  assumes "length ip = 4" and "filter (sublist ''ccma'') mods = []"
  shows "check_driver mods (Some ip) = Some (Inr [insmod_cmd (ip_text ip)])"
proof -
  have l: "List.length (dec (unat (w :: u8))) \<le> 3" for w
  proof -
    have "unat w < 10 ^ Suc 2" using byte_less [of w] by simp
    from length_dec [OF this] show ?thesis by simp
  qed
  have t: "List.length (ip_text ip) < 16"
    using l [of "ip ! 0"] l [of "ip ! 1"] l [of "ip ! 2"] l [of "ip ! 3"] by (simp add: ip_text_def)
  then have "List.length (insmod_cmd (ip_text ip)) < 128" by (simp add: insmod_cmd_def DMS_DEV_NAME_def)
  then show ?thesis using t assms(2) by (simp add: check_driver_def lsmod_grep_def)
qed

text \<open>C23: Unless a module with \<open>ccma\<close> in its name is loaded, the daemon loads the driver with
  the namenode's address as text, which fits its buffers; what the driver reads from this text is
  the address again.\<close>

theorem address_reaches_driver:
  assumes "length ip = 4" and "filter (sublist ''ccma'') mods = []"
  shows "check_driver mods (Some ip) = Some (Inr [insmod_cmd (ip_text ip)]) \<and>
    inet_str2n (ip_text ip) =
      sint (push_bit 24 (ucast (ip ! 0)) OR push_bit 16 (ucast (ip ! 1)) OR push_bit 8 (ucast (ip ! 2)) OR ucast (ip ! 3) :: u32)"
proof -
  note b = byte_less
  have "(of_nat (unat w) :: u32) = ucast w" for w :: u8 by simp
  then show ?thesis
    using check_driver_ok [OF assms] inet_str2n_dotted [OF b b b b, of "[]" "ip ! 0" "ip ! 1" "ip ! 2" "ip ! 3"] by (simp add: ip_text_def)
qed

lemma address_reaches_driver_witness:
  "check_driver [''dms_vdd 16384 0''] (Some [10, 0, 0, 200]) = Some (Inr [insmod_cmd ''10.0.0.200'']) \<and>
   inet_str2n ''10.0.0.200'' = 0x0A0000C8"
proof -
  have t: "ip_text [10, 0, 0, 200] = ''10.0.0.200''" by code_simp
  have "filter (sublist ''ccma'') [''dms_vdd 16384 0''] = []" by (simp add: sublist_Cons_right)
  then show ?thesis using address_reaches_driver [of "[10, 0, 0, 200]" "[''dms_vdd 16384 0'']"] by (simp add: t)
qed

section \<open>The start as a whole\<close>

text \<open>After the configuration and the namenode's check the start ends in one of three ways:
  it exits with 1 when the namenode has no address, with 0 when the control device cannot be
  opened, and otherwise the daemon runs with an empty list, the queue's length of its
  configuration, which it has written to \<open>/proc\<close> or waited 30 seconds for in vain, and the
  commands that load the driver and make the control device.\<close>

theorem daemon_start_outcome:
  assumes "load_configuration (se_conf env) init_conf_values = Some queue"
    and "check_namenode_connection (se_zero env) (se_tries env) (st_conn s) = Some conn"
    and "set_rs_setting_from_config (se_rs env) (st_rs s) = Some rs"
    and "pred_option (\<lambda>ip. length ip = 4) (se_host env)" and "filter (sublist ''ccma'') (se_mods env) = []"
  shows "case se_host env of
      None \<Rightarrow> main env s = Some (Inl 1)
    | Some ip \<Rightarrow>
        if se_open env = - 1 then main env s = Some (Inl 0)
        else \<exists>s'. main env s = Some (Inr s') \<and> st_queue s' = queue \<and> st_conn s' = conn \<and> st_rs s' = rs \<and>
          st_io_fd s' = se_open env \<and> holds_list (fst (st_list s')) (snd (st_list s')) [] \<and>
          st_cmds s' = insmod_cmd (ip_text ip) # (if se_ctrl env then [] else [''mknod /dev/dms_vdd_ctrl c 151 0'']) \<and>
          st_proc s' = (if se_proc env then (Some (sprintf_d queue), 0) else (None, 30))"
proof (cases "se_host env")
  case None
  then show ?thesis using assms(1-3) by (simp add: main_def initialize_def check_driver_def)
next
  case (Some ip)
  have c: "check_driver (se_mods env) (Some ip) = Some (Inr [insmod_cmd (ip_text ip)])"
    using assms(4,5) Some by (simp add: check_driver_ok)
  have w: "write_procfs b q = (if b then (Some (sprintf_d q), 0) else (None, 30))" for b q
    by (simp add: write_procfs_def eval_nat_numeral)
  have "dec 151 = ''151''" by code_simp
  then show ?thesis using assms(1-3) Some c holds_init
    by (auto simp: main_def initialize_def w DMS_CONTROLLER_NAME_def DMS_CONTROLLER_MAJOR_def)
qed

end
