(* ===== verification/Payload_Transfer.thy ===== *)
theory Payload_Transfer
  imports DList LB_List Mem_Pool Namenode_Protocol
begin

text \<open>
  Parts of the payload side (\<open>Payload.c\<close>, \<open>Payload_Manager.c\<close>) that stand on their own: the
  choice of a datanode for a read, the creation of a payload tag, and the transfer of the blocks
  of a datanode tag.  The files are not linked into the driver and do not compile as a whole; the
  missing argument of a debug message and the declarations behind a \<open>case\<close> label in
  \<open>__Xmit_LB_Paylaod\<close> are read past here.

  What sending or receiving returns is a list of answers, one for each call; without an
  answer the call does not return.
\<close>

section \<open>Choosing a datanode\<close>

text \<open>The loops over \<open>dn_locs\<close>; an access outside the array is a fault.\<close>

function first_unused :: "located_request \<Rightarrow> int \<Rightarrow> int \<Rightarrow> int option option" where
  "first_unused lr i n =
     (if n \<le> i then Some None
      else if 0 \<le> i \<and> nat i < length (lr_dn_locs lr)
      then (if dl_result (lr_dn_locs lr ! nat i) = 0 then Some (Some i) else first_unused lr (i + 1) n)
      else None)"
  by pat_completeness auto
termination by (relation "measure (\<lambda>(_, i, n). nat (n - i))") auto

declare first_unused.simps [simp del]

text \<open>\<open>random\<close> is the unsigned number of \<open>get_random_int\<close>, so the remainder is unsigned.\<close>

definition Default_Read_Policy :: "u32 \<Rightarrow> located_request \<Rightarrow> int \<Rightarrow> int option" where
  "Default_Read_Policy random lr nr_dn_locs =
     (if (word_of_int nr_dn_locs :: u32) = 0 then None
      else
        let index = sint (random mod word_of_int nr_dn_locs)
        in do {
          r \<leftarrow> first_unused lr index (lr_nr_dn_locs lr);
          (case r of
             Some i \<Rightarrow> Some i
           | None \<Rightarrow> do {
               r \<leftarrow> first_unused lr 0 index;
               Some (case r of Some i \<Rightarrow> i | None \<Rightarrow> - DMS_FAIL) }) })"

section \<open>Payload tags\<close>

record payload_tag =
  pt_lr :: located_request
  pt_dn_index :: int

text \<open>The result is never set to \<open>DMS_OK\<close>.\<close>

definition Init_DMS_Payload_Tag :: "located_request \<Rightarrow> int \<Rightarrow> int \<times> payload_tag" where
  "Init_DMS_Payload_Tag lr index = (- DMS_FAIL, \<lparr>pt_lr = lr, pt_dn_index = index\<rparr>)"

definition Release_DMS_Payload_Tag :: "nat \<Rightarrow> mpst \<Rightarrow> mpst option" where
  "Release_DMS_Payload_Tag dpt s = Free_DMS_Payload_Tag dpt s"

definition Create_DMS_Payload_Tag :: "located_request \<Rightarrow> int \<Rightarrow> mpst \<Rightarrow> ((nat \<times> payload_tag) option \<times> mpst) option" where
  "Create_DMS_Payload_Tag lr index s = do {
     (dpt, s) \<leftarrow> Malloc_DMS_Payload_Tag s;
     (case Init_DMS_Payload_Tag lr index of
        (retcode, tag) \<Rightarrow>
          if retcode < 0 then do { s \<leftarrow> Release_DMS_Payload_Tag dpt s; Some (None, s) }
          else Some (Some (dpt, tag), s)) }"

section \<open>Transfer\<close>

datatype xfer_call =
    Recv_Msg u64 int int             \<comment> \<open>block, length, flags\<close>
  | Send_Msg u64 int int
  | Send_Header int int              \<comment> \<open>length, flags\<close>
  | Send_Body int int

record xfer =
  xf_answers :: "int list"
  xf_calls :: "xfer_call list"

definition MSG_MORE :: int where "MSG_MORE = 0x8000"

definition xmit :: "xfer_call \<Rightarrow> xfer \<Rightarrow> (int \<times> xfer) option" where
  "xmit c x = (case xf_answers x of [] \<Rightarrow> None
     | a # as \<Rightarrow> Some (a, x\<lparr>xf_answers := as, xf_calls := xf_calls x @ [c]\<rparr>))"

text \<open>\<open>bv_len\<close> gives the length of a segment of a bio.\<close>

definition Xmit_LB_Paylaod :: "(nat option \<Rightarrow> u16 \<Rightarrow> int) \<Rightarrow> int \<Rightarrow> lbmd \<Rightarrow> int \<Rightarrow> xfer \<Rightarrow> (int \<times> xfer) option" where
  "Xmit_LB_Paylaod bv_len op lbmd flags x =
     (let len = bv_len (lb_bio lbmd) (lb_vec_idx lbmd)
      in if op = DMS_OP_READ then xmit (Recv_Msg (lb_LBID lbmd) len flags) x
         else if op = DMS_OP_WRITE \<or> op = DMS_OP_OVERWRITE then xmit (Send_Msg (lb_LBID lbmd) len flags) x
         else Some (0, x))"

text \<open>The loop over the blocks of a located request, from the node found last; \<open>i\<close> is the number
  of blocks done, \<open>n\<close> of those left.\<close>

fun xmit_tag_loop :: "(nat option \<Rightarrow> u16 \<Rightarrow> int) \<Rightarrow> int \<Rightarrow> lb_list \<Rightarrow> u64 \<Rightarrow> nat option \<Rightarrow> nat \<Rightarrow> nat \<Rightarrow> int \<Rightarrow> int \<Rightarrow> xfer \<Rightarrow>
    (int \<times> xfer) option" where
  "xmit_tag_loop bv_len op l slbid lbmd i 0 flags retcode x = Some (retcode, x)"
| "xmit_tag_loop bv_len op l slbid lbmd i (Suc n) flags retcode x =
     (case Get_LBMD_from_Node_by_LBID l lbmd (slbid + of_nat i) of
        None \<Rightarrow> xmit_tag_loop bv_len op l slbid None (Suc i) n flags retcode x
      | Some (a, m) \<Rightarrow>
          let flags = flags OR (if n \<noteq> 0 then MSG_MORE else 0)
          in do {
            (result, x) \<leftarrow> Xmit_LB_Paylaod bv_len op m flags x;
            if result < 0 then Some (result, x)
            else xmit_tag_loop bv_len op l slbid (Some a) (Suc i) n flags (c_int (retcode + result)) x })"

text \<open>With the debug flag of the payload side set, the first message reads through \<open>lr\<close> while it
  is NULL.  \<open>private_data\<close> is the node of the first block.\<close>

definition Xmit_Payload_Tag :: "bool \<Rightarrow> (nat option \<Rightarrow> u16 \<Rightarrow> int) \<Rightarrow> int \<Rightarrow> lb_list \<Rightarrow> located_request \<Rightarrow> nat option \<Rightarrow> int \<Rightarrow> xfer \<Rightarrow>
    (int \<times> xfer) option" where
  "Xmit_Payload_Tag palo_dbg bv_len op l lr private_data flags x =
     (if palo_dbg then None
      else xmit_tag_loop bv_len op l (lr_slbid lr) private_data 0 (nat (lr_nr_lbids lr)) flags 0 x)"

text \<open>All tags of a datanode, in the order of their list; every tag starts with flags 0.\<close>

fun Xmit_Payload_by_Datanode_Tag :: "bool \<Rightarrow> (nat option \<Rightarrow> u16 \<Rightarrow> int) \<Rightarrow> int \<Rightarrow> lb_list \<Rightarrow> (located_request \<times> nat option) list \<Rightarrow>
    int \<Rightarrow> xfer \<Rightarrow> (int \<times> xfer) option" where
  "Xmit_Payload_by_Datanode_Tag dbg bv_len op l [] total_len x = Some (total_len, x)"
| "Xmit_Payload_by_Datanode_Tag dbg bv_len op l ((lr, pd) # dpts) total_len x = do {
     (result, x) \<leftarrow> Xmit_Payload_Tag dbg bv_len op l lr pd 0 x;
     if result < 0 then Some (result, x)
     else Xmit_Payload_by_Datanode_Tag dbg bv_len op l dpts (c_int (total_len + result)) x }"

section \<open>The choice is the first unused location in turn\<close>

lemma first_unused_find:
  "i \<le> n \<Longrightarrow> n \<le> length (lr_dn_locs lr) \<Longrightarrow>
   first_unused lr (int i) (int n) = Some (map_option int (find (\<lambda>j. dl_result (lr_dn_locs lr ! j) = 0) [i..<n]))"
proof (induction "n - i" arbitrary: i)
  case 0
  then show ?case by (simp add: first_unused.simps)
next
  case (Suc k)
  then have "i < n" by simp
  with Suc.hyps(1) [of "Suc i"] Suc.hyps(2) Suc.prems show ?case
    by (simp add: first_unused.simps [of lr "int i"] upt_conv_Cons add.commute)
qed

lemma find_append_case: "find P (xs @ ys) = (case find P xs of None \<Rightarrow> find P ys | Some x \<Rightarrow> Some x)"
  by (induction xs) auto

lemma sint_small:
  assumes "unat (w :: u32) < 32768"
  shows "sint w = int (unat w)"
proof -
  have "int (unat w) < 32768" using assms by linarith
  moreover have "- (2 ^ 31) \<le> uint w" by (rule order_trans [of _ 0]) simp_all
  ultimately have "signed_take_bit 31 (uint w) = uint w" by (intro signed_take_bit_int_eq_self) simp_all
  then show ?thesis by (simp add: sint_uint)
qed

text \<open>For a read the policy takes, starting at a random index and going round, the first
  datanode without a result; without one it fails, and for a request without datanodes it divides
  by zero.\<close>

theorem read_policy_goes_round:
  assumes "lr_nr_dn_locs lr = int (length (lr_dn_locs lr))" and "length (lr_dn_locs lr) < 32768"
  shows "Default_Read_Policy random lr (lr_nr_dn_locs lr) =
    (if lr_dn_locs lr = [] then None
     else let k = unat random mod length (lr_dn_locs lr);
              js = [k..<length (lr_dn_locs lr)] @ [0..<k]
          in Some (case find (\<lambda>j. dl_result (lr_dn_locs lr ! j) = 0) js of Some j \<Rightarrow> int j | None \<Rightarrow> - DMS_FAIL))"
proof (cases "lr_dn_locs lr = []")
  case True
  then show ?thesis using assms(1) by (simp add: Default_Read_Policy_def)
next
  case False
  let ?n = "length (lr_dn_locs lr)" and ?k = "unat random mod length (lr_dn_locs lr)"
  let ?P = "\<lambda>j. dl_result (lr_dn_locs lr ! j) = 0"
  have u: "unat (word_of_int (int ?n) :: u32) = ?n" using assms(2) by (simp add: unsigned_of_nat take_bit_nat_eq_self)
  have nz: "(word_of_int (int ?n) :: u32) \<noteq> 0" using u False by (metis length_0_conv unat_0)
  have k: "?k < ?n" using False by simp
  have m: "unat (random mod word_of_int (int ?n)) = ?k" by (simp only: unat_mod u)
  then have "unat (random mod word_of_int (int ?n)) < 32768" using k assms(2) by linarith
  from sint_small [OF this] have i: "sint (random mod word_of_int (int ?n)) = int ?k" by (simp only: m)
  have f: "find ?P ([?k..<?n] @ [0..<?k]) = (case find ?P [?k..<?n] of None \<Rightarrow> find ?P [0..<?k] | Some j \<Rightarrow> Some j)"
    by (simp add: find_append_case)
  show ?thesis using False nz i first_unused_find [of ?k ?n lr] first_unused_find [of 0 ?k lr] k
    by (simp add: Default_Read_Policy_def assms(1) Let_def f split: option.split)
qed

theorem read_policy_goes_round_witness:
  "let dl = (\<lambda>r. \<lparr>dl_ip = 0, dl_port = 0, dl_nr_triplets = 0, dl_triplets = [], dl_result = r\<rparr>);
       lr = \<lparr>lr_slbid = 5, lr_nr_lbids = 2, lr_state = 0, lr_nr_hbids = 0, lr_HBIDs = [], lr_nr_dn_locs = 3,
              lr_dn_locs = [dl 0, dl 1, dl 1], lr_wmem_ack = 0, lr_wdisk_ack = 0, lr_commit_state = 0\<rparr>
   in Default_Read_Policy 4 lr 3 = Some 0"
proof -
  let ?dl = "\<lambda>r. \<lparr>dl_ip = 0, dl_port = 0, dl_nr_triplets = 0, dl_triplets = [], dl_result = r\<rparr>"
  let ?lr = "\<lparr>lr_slbid = 5, lr_nr_lbids = 2, lr_state = 0, lr_nr_hbids = 0, lr_HBIDs = [], lr_nr_dn_locs = 3,
    lr_dn_locs = [?dl 0, ?dl 1, ?dl 1], lr_wmem_ack = 0, lr_wdisk_ack = 0, lr_commit_state = 0\<rparr>"
  show ?thesis using read_policy_goes_round [of ?lr 4] by (simp add: upt_rec)
qed

text \<open>No payload tag is ever made: the object taken from the pool is given back at once, and
  the caller gets NULL.\<close>

theorem payload_tag_never_created:
  assumes "pools_ok mn sizeof base outs s"
  shows "\<exists>s'. Create_DMS_Payload_Tag lr index s = Some (None, s') \<and> pools_ok mn sizeof base outs s'"
proof -
  obtain a s1 where a: "Malloc_DMS_Payload_Tag s = Some (a, s1)" "pools_ok mn sizeof base (outs(PALTAG := a # outs PALTAG)) s1"
    using malloc_of_ok [OF assms, of PALTAG] by auto
  obtain s2 where "Free_DMS_Payload_Tag a s1 = Some s2" "pools_ok mn sizeof base outs s2"
    using free_of_ok(1) [OF a(2), of a PALTAG] by auto
  then show ?thesis using a(1) by (simp add: Create_DMS_Payload_Tag_def Init_DMS_Payload_Tag_def Release_DMS_Payload_Tag_def ret_defs)
qed

theorem payload_tag_never_created_witness:
  "\<exists>s s'. Init_DMP_Manager 4 (\<lambda>_. (True, True, True)) (pools_start (\<lambda>_. 64) no_mem) = Some (DMS_OK, s) \<and>
     Create_DMS_Payload_Tag \<lparr>lr_slbid = 0, lr_nr_lbids = 1, lr_state = 0, lr_nr_hbids = 0, lr_HBIDs = [], lr_nr_dn_locs = 0, lr_dn_locs = [],
       lr_wmem_ack = 0, lr_wdisk_ack = 0, lr_commit_state = 0\<rparr> 0 s = Some (None, s')"
proof (rule no_mem_init)
  fix s
  assume i: "Init_DMP_Manager 4 (\<lambda>_. (True, True, True)) (pools_start (\<lambda>_. 64) no_mem) = Some (DMS_OK, s)"
    and "pools_ok 4 (\<lambda>_. 64) no_mem (\<lambda>_. []) s"
  from payload_tag_never_created [OF this(2), of "\<lparr>lr_slbid = 0, lr_nr_lbids = 1, lr_state = 0, lr_nr_hbids = 0, lr_HBIDs = [], lr_nr_dn_locs = 0, lr_dn_locs = [],
       lr_wmem_ack = 0, lr_wdisk_ack = 0, lr_commit_state = 0\<rparr>" 0] i show ?thesis by blast
qed

section \<open>What is transferred\<close>

definition call_of :: "(nat option \<Rightarrow> u16 \<Rightarrow> int) \<Rightarrow> int \<Rightarrow> int \<Rightarrow> nat \<times> lbmd \<Rightarrow> xfer_call" where
  "call_of bv_len op flags x = (if op = DMS_OP_READ then Recv_Msg else Send_Msg) (lb_LBID (snd x)) (bv_len (lb_bio (snd x)) (lb_vec_idx (snd x))) flags"

text \<open>The block after the cursor, or the cursor itself before the first block.\<close>

lemma next_tag_block:
  assumes "lb_wf l" and "lb_nodes l = pre @ (c # xs) @ post" and "(a, m) \<in> set [hd (c # xs)] \<or> xs \<noteq> [] \<and> (a, m) = hd xs"
  shows "Get_LBMD_from_Node_by_LBID l (Some (fst c)) (lb_LBID m) = Some (a, m)"
proof -
  have d: "distinct (addrs (lb_nodes l))" and s: "sorted_wrt (<) (lb_ids (lb_nodes l))" using assms(1) by (simp_all add: lb_wf_def)
  have c: "fst c \<notin> set (addrs pre)" using d by (auto simp: assms(2) addrs_def)
  have n: "nodes_from (lb_nodes l) (Some (fst c)) = c # xs @ post"
    using nodes_from_split [OF c, of "snd c" "xs @ post"] by (simp add: assms(2))
  have lt: "lb_LBID (snd c) < lb_LBID (snd x)" if "x \<in> set xs" for x
    using s that by (auto simp: assms(2) lb_ids_def sorted_wrt_append split_beta)
  show ?thesis
  proof (cases "(a, m) = c")
    case True
    then show ?thesis by (auto simp: Get_LBMD_from_Node_by_LBID_def n)
  next
    case False
    then obtain ys where ys: "xs = (a, m) # ys" using assms(3) by (cases xs) auto
    then have "lb_LBID (snd c) \<noteq> lb_LBID m" using lt [of "(a, m)"] by simp
    then show ?thesis using n by (cases c) (simp add: Get_LBMD_from_Node_by_LBID_def ys)
  qed
qed

definition flags_of :: "int \<Rightarrow> nat \<Rightarrow> int" where
  "flags_of flags n = (if flags = MSG_MORE \<or> 1 < n then MSG_MORE else 0)"

definition outcome_of :: "int \<Rightarrow> int list \<Rightarrow> int" where
  "outcome_of retcode as = (case find (\<lambda>a. a < 0) as of Some a \<Rightarrow> a | None \<Rightarrow> fold (\<lambda>a r. c_int (r + a)) as retcode)"

definition calls_made :: "int list \<Rightarrow> nat" where
  "calls_made as = min (length as) (Suc (length (takeWhile (\<lambda>a. 0 \<le> a) as)))"

lemma xmit_lb:
  assumes "op \<in> {DMS_OP_READ, DMS_OP_WRITE, DMS_OP_OVERWRITE}"
  shows "Xmit_LB_Paylaod bv_len op m flags \<lparr>xf_answers = a # as, xf_calls = cs\<rparr> =
    Some (a, \<lparr>xf_answers = as, xf_calls = cs @ [call_of bv_len op flags (n, m)]\<rparr>)"
  using assms by (auto simp: Xmit_LB_Paylaod_def xmit_def call_of_def Let_def)

lemma xmit_loop_run:
  assumes "lb_wf l" and "op \<in> {DMS_OP_READ, DMS_OP_WRITE, DMS_OP_OVERWRITE}"
  shows "lb_nodes l = pre @ (c # xs) @ post \<Longrightarrow> ms = c # xs \<or> ms = xs \<Longrightarrow>
    \<forall>j < length ms. lb_LBID (snd (ms ! j)) = slbid + of_nat (i + j) \<Longrightarrow> flags = 0 \<or> flags = MSG_MORE \<Longrightarrow>
    xmit_tag_loop bv_len op l slbid (Some (fst c)) i (length ms) flags retcode \<lparr>xf_answers = map f ms @ as, xf_calls = cs\<rparr> =
    Some (outcome_of retcode (map f ms),
      \<lparr>xf_answers = drop (calls_made (map f ms)) (map f ms) @ as,
       xf_calls = cs @ map (call_of bv_len op (flags_of flags (length ms))) (take (calls_made (map f ms)) ms)\<rparr>)"
proof (induction ms arbitrary: pre c xs i flags retcode cs)
  case Nil
  then show ?case by (simp add: outcome_of_def calls_made_def)
next
  case (Cons x ms)
  obtain a m where x: "x = (a, m)" by (cases x)
  have id: "lb_LBID m = slbid + of_nat i" using Cons.prems(3) [rule_format, of 0] by (simp add: x)
  have "(a, m) \<in> set [hd (c # xs)] \<or> xs \<noteq> [] \<and> (a, m) = hd xs" using Cons.prems(2) by (auto simp: x)
  from next_tag_block [OF assms(1) Cons.prems(1) this] have g: "Get_LBMD_from_Node_by_LBID l (Some (fst c)) (slbid + of_nat i) = Some (a, m)"
    by (simp add: id)
  define fl where "fl = flags OR (if length ms \<noteq> 0 then MSG_MORE else 0)"
  have fl: "fl = flags_of flags (length (x # ms))" "flags_of fl (length ms) = flags_of flags (length (x # ms))" "fl = 0 \<or> fl = MSG_MORE"
    using Cons.prems(4) by (auto simp: fl_def flags_of_def MSG_MORE_def)
  have step: "xmit_tag_loop bv_len op l slbid (Some (fst c)) i (length (x # ms)) flags retcode \<lparr>xf_answers = map f (x # ms) @ as, xf_calls = cs\<rparr> =
    (if f x < 0 then Some (f x, \<lparr>xf_answers = map f ms @ as, xf_calls = cs @ [call_of bv_len op fl x]\<rparr>)
     else xmit_tag_loop bv_len op l slbid (Some a) (Suc i) (length ms) fl (c_int (retcode + f x))
       \<lparr>xf_answers = map f ms @ as, xf_calls = cs @ [call_of bv_len op fl x]\<rparr>)"
    using xmit_lb [OF assms(2), of bv_len m fl "f x" "map f ms @ as" cs a] g
    by (simp only: list.size add_Suc_right add_0_right xmit_tag_loop.simps option.case prod.case Let_def fl_def [symmetric] list.map append_Cons x bind.bind_lunit)
  show ?case
  proof (cases "f x < 0")
    case True
    then show ?thesis by (simp only: step if_True) (simp add: outcome_of_def calls_made_def fl(1))
  next
    case False
    obtain pre' xs' where n: "lb_nodes l = pre' @ ((a, m) # xs') @ post" and ms: "ms = xs'"
    proof (cases "x # ms = c # xs")
      case True
      then show ?thesis using that Cons.prems(1) x by auto
    next
      case False
      then have "xs = x # ms" using Cons.prems(2) by auto
      then show ?thesis using that [of "pre @ [c]" ms] Cons.prems(1) x by simp
    qed
    have j: "\<forall>j < length ms. lb_LBID (snd (ms ! j)) = slbid + of_nat (Suc i + j)" using Cons.prems(3) by fastforce
    have "xmit_tag_loop bv_len op l slbid (Some (fst (a, m))) (Suc i) (length ms) fl (c_int (retcode + f x))
        \<lparr>xf_answers = map f ms @ as, xf_calls = cs @ [call_of bv_len op fl (a, m)]\<rparr> =
      Some (outcome_of (c_int (retcode + f x)) (map f ms),
        \<lparr>xf_answers = drop (calls_made (map f ms)) (map f ms) @ as,
         xf_calls = (cs @ [call_of bv_len op fl (a, m)]) @ map (call_of bv_len op (flags_of fl (length ms))) (take (calls_made (map f ms)) ms)\<rparr>)"
      by (rule Cons.IH [OF n _ j fl(3)]) (simp add: ms)
    moreover have "flags_of flags (Suc (length ms)) = fl" using fl(1) by simp
    ultimately show ?thesis
      unfolding step using False by (simp add: outcome_of_def calls_made_def fl(2) x fold_simps split: option.split)
  qed
qed

text \<open>The blocks of a datanode tag go out (or come in) one by one in the order of the list, each
  with its own segment, until a call fails, whose code is the result; otherwise the result is the
  number of bytes.  With more than one block every call has the flag for more data, the last
  too.\<close>

theorem tag_blocks_sent:
  assumes "lb_wf l" and "lb_nodes l = pre @ ms @ post" and "ms \<noteq> []"
    and "lr_nr_lbids lr = int (length ms)" and "\<forall>j < length ms. lb_LBID (snd (ms ! j)) = lr_slbid lr + of_nat j"
    and "op \<in> {DMS_OP_READ, DMS_OP_WRITE, DMS_OP_OVERWRITE}"
  shows "Xmit_Payload_Tag False bv_len op l lr (Some (fst (hd ms))) 0 \<lparr>xf_answers = map f ms, xf_calls = []\<rparr> =
    Some (outcome_of 0 (map f ms),
      \<lparr>xf_answers = drop (calls_made (map f ms)) (map f ms),
       xf_calls = map (call_of bv_len op (if 1 < length ms then MSG_MORE else 0)) (take (calls_made (map f ms)) ms)\<rparr>)"
proof -
  obtain c xs where ms: "ms = c # xs" using assms(3) by (cases ms) auto
  have "flags_of 0 (length ms) = (if 1 < length ms then MSG_MORE else 0)" by (simp add: flags_of_def MSG_MORE_def)
  moreover have "nat (lr_nr_lbids lr) = length ms" using assms(4) by simp
  moreover have "hd ms = c" by (simp add: ms)
  ultimately show ?thesis
    using xmit_loop_run [OF assms(1,6), of pre c xs post ms "lr_slbid lr" 0 0 bv_len 0 f "[]" "[]"] assms(2,5) ms
    by (simp only: Xmit_Payload_Tag_def if_False add_0 append_Nil append_Nil2 simp_thms)
qed

theorem tag_blocks_sent_witness:
  "let ms = [(1, \<lparr>lb_LBID = 5, lb_HBID = 0, lb_bio = Some 0, lb_vec_idx = 0\<rparr>), (2, \<lparr>lb_LBID = 6, lb_HBID = 0, lb_bio = Some 0, lb_vec_idx = 1\<rparr>)];
       lr = \<lparr>lr_slbid = 5, lr_nr_lbids = 2, lr_state = 0, lr_nr_hbids = 0, lr_HBIDs = [], lr_nr_dn_locs = 0, lr_dn_locs = [],
              lr_wmem_ack = 0, lr_wdisk_ack = 0, lr_commit_state = 0\<rparr>
   in Xmit_Payload_Tag False (\<lambda>_ _. 4096) DMS_OP_WRITE \<lparr>lb_nodes = ms, lb_next = None\<rparr> lr (Some 1) 0 \<lparr>xf_answers = [4096, 4096], xf_calls = []\<rparr> =
     Some (8192, \<lparr>xf_answers = [], xf_calls = [Send_Msg 5 4096 MSG_MORE, Send_Msg 6 4096 MSG_MORE]\<rparr>)"
proof -
  let ?ms = "[(1, \<lparr>lb_LBID = 5, lb_HBID = 0, lb_bio = Some 0, lb_vec_idx = 0\<rparr>), (2, \<lparr>lb_LBID = 6, lb_HBID = 0, lb_bio = Some 0, lb_vec_idx = 1\<rparr>)] :: (nat \<times> lbmd) list"
  let ?lr = "\<lparr>lr_slbid = 5, lr_nr_lbids = 2, lr_state = 0, lr_nr_hbids = 0, lr_HBIDs = [], lr_nr_dn_locs = 0, lr_dn_locs = [],
    lr_wmem_ack = 0, lr_wdisk_ack = 0, lr_commit_state = 0\<rparr>"
  have "lb_wf \<lparr>lb_nodes = ?ms, lb_next = None\<rparr>" by (simp add: lb_wf_def addrs_def lb_ids_def)
  moreover have "\<forall>j < length ?ms. lb_LBID (snd (?ms ! j)) = lr_slbid ?lr + of_nat j" by (auto simp: less_Suc_eq numeral_2_eq_2)
  ultimately show ?thesis
    using tag_blocks_sent [of "\<lparr>lb_nodes = ?ms, lb_next = None\<rparr>" "[]" ?ms "[]" ?lr DMS_OP_WRITE "\<lambda>_ _. 4096" "\<lambda>_. 4096"]
    by (simp add: outcome_of_def calls_made_def call_of_def op_defs fold_simps c_int_def)
qed

end
