(* ===== verification/Code_Names.thy ===== *)
theory Code_Names
  imports DMS_Prelude
begin

text \<open>
  The texts for the codes that the driver prints: \<open>__errorntostr\<close> and the table of
  \<open>DMS_Error.c\<close>, \<open>__TSender_ntoc\<close>, \<open>__NN_Type_ntoc\<close>, \<open>__DN_Type_ntoc\<close>, \<open>op2str\<close>.  A
  \<open>switch\<close> over constants is the look-up in the list of its cases; the error numbers of
  the kernel are those of its headers.
\<close>

section \<open>Tables\<close>

definition name_of :: "(int \<times> string) list \<Rightarrow> string \<Rightarrow> int \<Rightarrow> string" where
  "name_of tab other c = (case map_of tab c of None \<Rightarrow> other | Some s \<Rightarrow> s)"

text \<open>No code twice, no text twice, and none like the text for the other codes.\<close>

definition proper :: "(int \<times> string) list \<Rightarrow> string \<Rightarrow> bool" where
  "proper tab other \<longleftrightarrow> distinct (map fst tab) \<and> distinct (other # map snd tab)"

lemma name_of_identifies:
  assumes "proper tab other" and "name_of tab other a = name_of tab other b" and "a \<in> set (map fst tab)"
  shows "a = b"
proof -
  obtain s where s: "(a, s) \<in> set tab" using assms(3) by auto
  have d: "distinct (map fst tab)" "distinct (map snd tab)" "other \<notin> set (map snd tab)" using assms(1) by (simp_all add: proper_def)
  have n: "name_of tab other a = s" using s d(1) by (simp add: name_of_def)
  have "s \<noteq> other" using s d(3) by force
  then have "map_of tab b = Some s" using assms(2) n by (auto simp: name_of_def split: option.splits)
  then have "(b, s) \<in> set tab" by (rule map_of_SomeD)
  with s d(2) show ?thesis by (metis distinct_map inj_onD prod.inject snd_conv)
qed

section \<open>Errors\<close>

definition errno_names :: "(int \<times> string) list" where
  "errno_names = [
     (1, ''code 1''), (0, ''code 0, OK~''), (- 5, ''I/O error''),
     (- 4, ''Interrupted system call''), (- 6, ''No such device or address''), (- 14, ''Bad address''),
     (- 16, ''Device or resource busy''), (- 22, ''Invalid argument''), (- 32, ''Broken pipe''),
     (- 64, ''Machine is not on the network''), (- 70, ''Communication error on send''), (- 71, ''Protocol error''),
     (- 76, ''Name not unique on network''), (- 88, ''Socket operation on non-socket''), (- 100, ''Network is down''),
     (- 101, ''Network is unreachable''), (- 102, ''Network dropped connection because of reset''), (- 103, ''Software caused connection abort''),
     (- 104, ''Connection reset by peer''), (- 106, ''Transport endpoint is already connected''), (- 108, ''Cannot send after shutdown''),
     (- 110, ''Connection timed out''), (- 111, ''Connection refused''), (- 112, ''Host is down''),
     (- 113, ''No route to host''), (- 114, ''Operation already in progress''), (- 1602, ''The ip format is invalid''),
     (- 1601, ''Connection Broken!''), (- 1603, ''The rebuild counter over ONE DAY''), (- 1604, ''Socket send time out!''),
     (- 1605, ''Socket receive time out!'')]"

definition errorntostr :: "int \<Rightarrow> string" where
  "errorntostr errno = name_of errno_names ''Unknow error code'' errno"

definition EDMS_BASE :: int where "EDMS_BASE = 1000"
definition EDMS_RANGE :: int where "EDMS_RANGE = 100"
definition EDEV_ID :: int where "EDEV_ID = 1"
definition EDEV_BASE :: int where "EDEV_BASE = EDMS_BASE + EDEV_ID * EDMS_RANGE"
definition EDEV_SYS_PENDING :: int where "EDEV_SYS_PENDING = EDMS_BASE + 1"
definition EDEV_NOP :: int where "EDEV_NOP = EDMS_BASE + 2"
definition EDEV_NOMEM :: int where "EDEV_NOMEM = EDMS_BASE + 3"
definition EVMGR_BASE :: int where "EVMGR_BASE = EDMS_BASE + EDEV_ID * EDMS_RANGE"
definition EVMGR_OUT_OF_RANGE :: int where "EVMGR_OUT_OF_RANGE = EVMGR_BASE + 1"
definition EVMGR_CKS :: int where "EVMGR_CKS = EVMGR_BASE + 3"
definition EDN_BASE :: int where "EDN_BASE = EDMS_BASE + 5 * EDMS_RANGE"
definition EDN_EDNS :: int where "EDN_EDNS = EDN_BASE + 1"

definition err_log_Map :: "(int \<times> string) list" where
  "err_log_Map = [(EDEV_SYS_PENDING, ''DMS_VDD are pending. ''), (EDEV_NOP, ''DMS_VDD not supported operation. ''),
     (EDEV_NOMEM, ''No Memory. ''), (EVMGR_OUT_OF_RANGE, ''volume minor index out of range! ''),
     (EVMGR_CKS, ''create kernel structures fail! ''), (EDN_EDNS, ''ALL DNs are failed! ''), (0, [])]"

text \<open>\<open>PRINT_DMS_ERR_LOG\<close>: the text printed for a code, up to the entry with 0.\<close>

definition err_log_text :: "int \<Rightarrow> string option" where
  "err_log_text err_no = map_of (takeWhile (\<lambda>(err_id, _). err_id \<noteq> 0) err_log_Map) err_no"

lemmas edms_defs = EDMS_BASE_def EDMS_RANGE_def EDEV_ID_def EDEV_BASE_def EDEV_SYS_PENDING_def EDEV_NOP_def EDEV_NOMEM_def
  EVMGR_BASE_def EVMGR_OUT_OF_RANGE_def EVMGR_CKS_def EDN_BASE_def EDN_EDNS_def

section \<open>Message types\<close>

datatype dms_type = TSENDER | TSERVICE | TSUB

definition sender_names :: "(int \<times> string) list" where
  "sender_names = [(0x0c, ''CLIENTNODE''), (0x0d, ''DATANODE''), (0x09, ''NAMENODE'')]"

definition TSender_ntoc :: "int \<Rightarrow> string" where
  "TSender_ntoc type = name_of sender_names ''unknow sender type'' type"

definition nn_service_names :: "(int \<times> string) list" where
  "nn_service_names = [(DMS_OP_READ, ''QUERY_FOR_READ''), (DMS_OP_WRITE, ''QUERY_FOR_WRITE''),
     (DMS_OP_OVERWRITE, ''QUERY_FOR_OVERWRITE''), (3, ''COMMIT_ALLOCATION''), (4, ''REPORT_READ_FAILURE''),
     (5, ''COMMIT_METADATA''), (6, ''QUERY_VOLUME_CAPACITY''), (7, ''CREATE_VOLUME'')]"

definition nn_sub_names :: "(int \<times> string) list" where
  "nn_sub_names = [(- 1000, ''UNDEFINED''), (- 1001, ''TIMEOUT''), (- 1002, ''EXCEPTION''), (1, ''SERVICE''), (2, ''RESPONSE'')]"

text \<open>\<open>None\<close> is a type that is none of the three.\<close>

definition NN_Type_ntoc :: "dms_type option \<Rightarrow> int \<Rightarrow> string" where
  "NN_Type_ntoc ttype type =
     (case ttype of
        Some TSENDER \<Rightarrow> TSender_ntoc type
      | Some TSERVICE \<Rightarrow> name_of nn_service_names ''unknow service type'' type
      | Some TSUB \<Rightarrow> name_of nn_sub_names ''unknow sub type'' type
      | None \<Rightarrow> ''unknow dms type'')"

definition dn_service_names :: "(int \<times> string) list" where
  "dn_service_names = [(DMS_OP_READ, ''DNDO_READ''), (DMS_OP_WRITE, ''DNDO_WRITE''), (0x10, ''DNDO_PWRITE''),
     (0x11, ''REREPLICATION''), (0x12, ''HB_INVALIDATION'')]"

definition dn_sub_names :: "(int \<times> string) list" where
  "dn_sub_names = [(- 1000, ''UNDEFINED''), (- 1001, ''TIMEOUT''), (- 1002, ''EXCEPTION''), (- 1003, ''IOEXCEPTION''),
     (- 1004, ''IOFAIL_BUT_LUN_OK_EXCEPTION''), (- 1005, ''FAILED_LUN_EXCEPTION''), (1, ''SERVICE''), (2, ''RESPONSE''),
     (101, ''READ_ACK''), (102, ''WMEM_ACK''), (103, ''WDISK_ACK''), (104, ''PWMEM_ACK''), (105, ''PWDISK_ACK''),
     (106, ''REREPLICATION_ACK''), (107, ''HB_INVALIDATION_ACK'')]"

definition DN_Type_ntoc :: "dms_type option \<Rightarrow> int \<Rightarrow> string" where
  "DN_Type_ntoc ttype type =
     (case ttype of
        Some TSENDER \<Rightarrow> TSender_ntoc type
      | Some TSERVICE \<Rightarrow> name_of dn_service_names ''unknow service type'' type
      | Some TSUB \<Rightarrow> name_of dn_sub_names ''unknow sub type'' type
      | None \<Rightarrow> ''unknow dms type'')"

definition op2str :: "int \<Rightarrow> string" where
  "op2str op = name_of [(DMS_OP_READ, ''READ''), (DMS_OP_WRITE, ''WRITE''), (DMS_OP_OVERWRITE, ''OVERWRITE'')] ''unknown'' op"

section \<open>The texts identify the codes\<close>

lemma tables_proper:
  "proper errno_names ''Unknow error code''" "proper sender_names ''unknow sender type''"
  "proper nn_service_names ''unknow service type''" "proper nn_sub_names ''unknow sub type''"
  "proper dn_service_names ''unknow service type''" "proper dn_sub_names ''unknow sub type''"
  by code_simp+

text \<open>A printed text other than the one for unknown codes belongs to one code only.\<close>

theorem printed_names_identify:
  shows "errorntostr a = errorntostr b \<Longrightarrow> a \<in> set (map fst errno_names) \<Longrightarrow> a = b"
    and "NN_Type_ntoc (Some TSERVICE) a = NN_Type_ntoc (Some TSERVICE) b \<Longrightarrow> a \<in> set (map fst nn_service_names) \<Longrightarrow> a = b"
    and "NN_Type_ntoc (Some TSUB) a = NN_Type_ntoc (Some TSUB) b \<Longrightarrow> a \<in> set (map fst nn_sub_names) \<Longrightarrow> a = b"
    and "DN_Type_ntoc (Some TSERVICE) a = DN_Type_ntoc (Some TSERVICE) b \<Longrightarrow> a \<in> set (map fst dn_service_names) \<Longrightarrow> a = b"
    and "DN_Type_ntoc (Some TSUB) a = DN_Type_ntoc (Some TSUB) b \<Longrightarrow> a \<in> set (map fst dn_sub_names) \<Longrightarrow> a = b"
  using tables_proper [THEN name_of_identifies] by (simp_all add: errorntostr_def NN_Type_ntoc_def DN_Type_ntoc_def del: set_map list.set_map)

text \<open>The codes of the volume manager start at the base of the device's codes, and the driver's own
  errors other than those of a connection have no text in \<open>__errorntostr\<close>.\<close>

lemma driver_errors_unnamed:
  "EVMGR_BASE = EDEV_BASE" "errorntostr (- EVMGR_OUT_OF_RANGE) = ''Unknow error code''"
  "errorntostr (- EDN_EDNS) = ''Unknow error code''" "errorntostr (- EDEV_NOMEM) = ''Unknow error code''"
  by code_simp+

end
