(* ===== verification/Socket_Setup.thy ===== *)
theory Socket_Setup
  imports Sock_Xmit Wire
begin

text \<open>
  The set-up of a socket in \<open>SSocket.c\<close>: the options (\<open>__Set_DMS_TCP_Options\<close>), the address
  that is connected to (\<open>__Try_to_Connect_to_Server\<close>), the parser of addresses that writes
  them in network order (\<open>_inet_pton\<close>), and sending pages (\<open>sock_send_pages\<close>).

  The answers of the kernel to \<open>setsockopt\<close> and \<open>connect\<close> are functions of what it is
  asked for.
\<close>

section \<open>Options\<close>

datatype tcp_option = TCP_NODELAY | TCP_CORK | SO_SNDTIMEO | SO_RCVTIMEO | SO_KEEPALIVE | TCP_KEEPIDLE
  | TCP_KEEPINTVL | TCP_KEEPCNT

text \<open>The calls made so far, each with its value; a time-out counts in seconds.\<close>

type_synonym option_calls = "(tcp_option \<times> int) list"

definition setsockopt :: "(tcp_option \<Rightarrow> int \<Rightarrow> int) \<Rightarrow> tcp_option \<Rightarrow> int \<Rightarrow> option_calls \<Rightarrow> int \<times> option_calls" where
  "setsockopt ans opt value calls = (ans opt value, calls @ [(opt, value)])"

definition Set_TCP_Alive_Option :: "(tcp_option \<Rightarrow> int \<Rightarrow> int) \<Rightarrow> option_calls \<Rightarrow> option_calls" where
  "Set_TCP_Alive_Option ans calls =
     (let (retcode, calls) = setsockopt ans SO_KEEPALIVE 1 calls;
          (retcode, calls) = setsockopt ans TCP_KEEPIDLE 5 calls;
          (retcode, calls) = setsockopt ans TCP_KEEPINTVL 1 calls;
          (retcode, calls) = setsockopt ans TCP_KEEPCNT 5 calls
      in calls)"

definition Set_DMS_TCP_Options :: "(tcp_option \<Rightarrow> int \<Rightarrow> int) \<Rightarrow> option_calls \<Rightarrow> int \<times> option_calls" where
  "Set_DMS_TCP_Options ans calls =
     (let (retcode, calls) = setsockopt ans TCP_NODELAY 1 calls;
          (retcode, calls) = setsockopt ans TCP_CORK 0 calls;
          (_, calls) = setsockopt ans SO_SNDTIMEO 10 calls;
          (_, calls) = setsockopt ans SO_RCVTIMEO 10 calls
      in (retcode, Set_TCP_Alive_Option ans calls))"

section \<open>Connecting\<close>

record sockaddr_in =
  sin_family :: nat
  sin_addr :: u32
  sin_port :: u16

definition AF_INET :: nat where "AF_INET = 2"

definition server_addr :: "u32 \<Rightarrow> u16 \<Rightarrow> sockaddr_in" where
  "server_addr node_ip port = \<lparr>sin_family = AF_INET, sin_addr = htonl node_ip, sin_port = htons port\<rparr>"

definition Try_to_Connect_to_Server :: "(sockaddr_in \<Rightarrow> int) \<Rightarrow> u32 \<Rightarrow> u16 \<Rightarrow> int" where
  "Try_to_Connect_to_Server connect node_ip port = connect (server_addr node_ip port)"

section \<open>Parsing an address\<close>

text \<open>The result, the address in the order of the network, and the rest of the text at a slash
  that is turned round.  \<open>bytes\<close> is read as a word of the machine.\<close>

definition bytes_word :: "u8 list \<Rightarrow> u32" where
  "bytes_word bytes = fold (\<lambda>(i, b) w. w OR push_bit (8 * i) (ucast b)) (enumerate 0 bytes) 0"

function pton_loop :: "u8 list \<Rightarrow> string \<Rightarrow> int \<times> u32 option \<times> string option" where
  "pton_loop bytes cp =
     (if cp = [] \<or> \<not> isdigit (hd cp) then (0, None, None)
      else case read_number 0 cp of (value, cp) \<Rightarrow>
        if cp \<noteq> [] \<and> hd cp = CHR ''.'' then
          if length bytes > 2 \<or> value > 255 then (0, None, None) else pton_loop (bytes @ [word_of_int value]) (tl cp)
        else if cp \<noteq> [] \<and> hd cp = CHR '':'' then (- 1, None, None)
        else if \<not> end_ok cp then (0, None, None)
        else
          let slash = (if cp \<noteq> [] \<and> hd cp = CHR ''/'' then Some cp else None)
          in if value > addr_class_max ! length bytes then (0, None, slash)
             else (1, Some (bytes_word bytes OR htonl (word_of_int value)), slash))"
  by auto
termination
  by (relation "measure (\<lambda>(_, cp). length cp)")
    (auto dest!: read_number_shorter [OF sym] simp: neq_Nil_conv)

declare pton_loop.simps [simp del]

text \<open>The text afterwards: a slash after the number becomes a backslash.\<close>

definition inet_pton :: "string \<Rightarrow> int \<times> u32 option \<times> string" where
  "inet_pton cp =
     (case pton_loop [] cp of (r, dst, slash) \<Rightarrow>
        (r, dst, case slash of None \<Rightarrow> cp | Some rest \<Rightarrow> take (length cp - length rest) cp @ CHR 0x5C # tl rest))"

section \<open>The table of connections\<close>

text \<open>\<open>Get_IP_Str\<close>: the text that the container keeps.\<close>

definition Get_IP_Str :: "int \<Rightarrow> dncs \<Rightarrow> string option" where
  "Get_IP_Str node_index s =
     (case Node_Index_to_DNC node_index s of
        None \<Rightarrow> None
      | Some a \<Rightarrow> map_option (\<lambda>d. case endpoint d of (ip, port) \<Rightarrow> ip_str (word_of_int ip) port) (dn_heap s a))"

fun reset_loop :: "nat list \<Rightarrow> dncs \<Rightarrow> dncs option" where
  "reset_loop [] s = Some s"
| "reset_loop (i # is) s = do {
     s \<leftarrow> (if dn_nodes s ! i \<noteq> None then Destroy_DMS_Node_Container (int i) s else Some s);
     reset_loop is s }"

definition Reset_DNCS_Manager :: "dncs \<Rightarrow> dncs option" where
  "Reset_DNCS_Manager s = reset_loop [0..<DMS_MAX_NODES] s"

section \<open>Sending pages\<close>

text \<open>\<open>result\<close> is the answer of \<open>sendpage\<close>.\<close>

definition sock_send_pages :: "bool \<Rightarrow> int \<Rightarrow> int \<Rightarrow> int" where
  "sock_send_pages established psize result =
     (let result = (if result \<noteq> psize \<and> result > 0 then - EDNC_SNDTIMEO else result)
      in if result \<le> 0 then DMS_Sock_ErrorHandling established True result else result)"

section \<open>The options of a connection\<close>

text \<open>All eight options are asked for whatever fails, and a socket counts as set up exactly when
  \<open>TCP_CORK\<close> could be switched off; without the time-outs it is used all the same.\<close>

theorem options_cork_decides:
  "Set_DMS_TCP_Options ans [] = (ans TCP_CORK 0,
     [(TCP_NODELAY, 1), (TCP_CORK, 0), (SO_SNDTIMEO, 10), (SO_RCVTIMEO, 10), (SO_KEEPALIVE, 1), (TCP_KEEPIDLE, 5),
      (TCP_KEEPINTVL, 1), (TCP_KEEPCNT, 5)])"
  by (simp add: Set_DMS_TCP_Options_def Set_TCP_Alive_Option_def setsockopt_def)

theorem socket_without_timeouts:
  assumes "dn_heap s a = Some d" and "n_sock d = None" and "na_create na \<ge> 0"
    and "na_options na = fst (Set_DMS_TCP_Options ans [])" and "ans TCP_CORK 0 = 0"
  shows "DNC_Create_Socket na a s = Some (0, put_dnc a (d\<lparr>n_sock := Some False\<rparr>) s)"
  using assms by (simp add: DNC_Create_Socket_def options_cork_decides)

section \<open>The two parsers agree\<close>

lemma bit_htonl: "bit (htonl x) i \<longleftrightarrow> i < 32 \<and> bit x (8 * (3 - i div 8) + i mod 8)"
proof (cases "i < 32")
  case True
  then have k: "i div 8 < 4" by simp
  have "rev (store_le 4 x) ! (i div 8) = ucast (drop_bit (8 * (3 - i div 8)) x)"
    using k by (simp add: rev_nth nth_store_le del: store_le.simps)
  then show ?thesis using True by (simp add: htonl_def bswap_def bit_load_le bit_simps del: store_le.simps)
qed (simp add: htonl_def bswap_def bit_load_le)

lemma htonl_or: "htonl (a OR b) = htonl a OR htonl b"
  by (rule bit_word_eqI) (auto simp: bit_htonl bit_simps)

lemma htonl_byte:
  assumes "k < 4"
  shows "htonl (push_bit (8 * k) (ucast (b :: u8))) = push_bit (24 - 8 * k) (ucast b)"
proof (rule bit_word_eqI)
  fix i :: nat
  define q r where "q = i div 8" and "r = i mod 8"
  have i: "i = 8 * q + r" "r < 8" "i div 8 = q" "i mod 8 = r" by (simp_all add: q_def r_def)
  assume "i < LENGTH(32)"
  then have q: "q < 4" by (simp add: q_def)
  have out: "bit (push_bit n (ucast b) :: u32) m \<longleftrightarrow> n \<le> m \<and> m < n + 8 \<and> m < 32 \<and> bit b (m - n)" for n m
    using bit_imp_le_length [of b "m - n"] by (auto simp: bit_simps)
  show "bit (htonl (push_bit (8 * k) (ucast b))) i = bit (push_bit (24 - 8 * k) (ucast b) :: u32) i"
  proof (cases "q = 3 - k")
    case True
    then have "8 * (3 - q) + r = 8 * k + r" "i = 24 - 8 * k + r" "i < 32" using assms i by simp_all
    moreover have "24 - 8 * k \<le> 24 - 8 * k + r" "24 - 8 * k + r < 24 - 8 * k + 8" using i(2) by simp_all
    ultimately show ?thesis using i(2-4) assms by (simp only: bit_htonl out) simp
  next
    case False
    then have "q < 3 - k \<or> 3 - k < q" by linarith
    then have "\<not> (8 * k \<le> 8 * (3 - q) + r \<and> 8 * (3 - q) + r < 8 * k + 8)" "\<not> (24 - 8 * k \<le> i \<and> i < 24 - 8 * k + 8)"
      using assms q i(1,2) by linarith+
    then show ?thesis by (simp only: bit_htonl out i(3,4)) blast
  qed
qed

lemma htonl_bytes_word:
  assumes "length bytes \<le> 3"
  shows "htonl (bytes_word bytes OR htonl (word_of_int value)) = inet_value bytes value"
proof -
  have h: "htonl (push_bit 8 (ucast b)) = push_bit 16 (ucast b)" "htonl (push_bit 16 (ucast b)) = push_bit 8 (ucast b)"
    "htonl (ucast b) = push_bit 24 (ucast b)" for b :: u8
    using htonl_byte [of 1 b] htonl_byte [of 2 b] htonl_byte [of 0 b] by simp_all
  have z: "htonl 0 = 0" by (rule bit_word_eqI) (simp add: bit_htonl)
  consider "bytes = []" | a where "bytes = [a]" | a b where "bytes = [a, b]" | a b c where "bytes = [a, b, c]"
    using assms by (cases bytes; cases "tl bytes"; cases "tl (tl bytes)") auto
  then show ?thesis
    by cases (simp_all add: bytes_word_def inet_value_def htonl_or h z ac_simps)
qed

lemma loops_agree:
  "length bytes \<le> 3 \<Longrightarrow>
   inet_loop bytes cp = (case pton_loop bytes cp of (r, dst, _) \<Rightarrow> if r = 1 then sint (htonl (the dst)) else r)"
proof (induction bytes cp rule: pton_loop.induct)
  case (1 bytes cp)
  obtain v rest where r: "read_number 0 cp = (v, rest)" by (cases "read_number 0 cp")
  show ?case
  proof (cases "cp \<noteq> [] \<and> isdigit (hd cp) \<and> rest \<noteq> [] \<and> hd rest = CHR ''.'' \<and> \<not> (length bytes > 2 \<or> v > 255)")
    case True
    then show ?thesis using 1(1) [OF _ r [symmetric]] by (simp add: pton_loop.simps [of bytes cp] inet_loop.simps [of bytes cp] r)
  next
    case False
    then show ?thesis
      unfolding pton_loop.simps [of bytes cp] inet_loop.simps [of bytes cp] r
      using htonl_bytes_word [OF 1(2), of v] by (auto simp: Let_def)
  qed
qed

text \<open>The two parsers of addresses accept the same texts with the same results, and the
  address that the one writes in network order is the value of the other.\<close>

theorem parsers_agree:
  "inet_str2n cp = (case inet_pton cp of (r, dst, _) \<Rightarrow> if r = 1 then sint (htonl (the dst)) else r)"
  using loops_agree [of "[]" cp] by (simp add: inet_str2n_def inet_pton_def split: prod.split)

text \<open>The address to which a connection is made has in memory the four numbers of the text, in
  their order.\<close>

theorem connects_to_dotted:
  assumes "a < 256" "b < 256" "c < 256" "d < 256"
  shows "store_le 4 (sin_addr (server_addr (word_of_int (inet_str2n (dec a @ ''.'' @ dec b @ ''.'' @ dec c @ ''.'' @ dec d))) port))
    = [of_nat a, of_nat b, of_nat c, of_nat d]"
proof -
  define X :: u32 where "X = push_bit 24 (of_nat a) OR push_bit 16 (of_nat b) OR push_bit 8 (of_nat c) OR of_nat d"
  have u: "(of_nat n :: u32) = ucast (of_nat n :: u8)" if "n < 256" for n
    using that by (simp add: unsigned_of_nat take_bit_nat_eq_self)
  have "store_le 4 X = [of_nat d, of_nat c, of_nat b, of_nat a]"
    unfolding X_def u [OF assms(1)] u [OF assms(2)] u [OF assms(3)] u [OF assms(4)]
    by (simp add: store_le_numeral) (auto intro!: bit_word_eqI simp: bit_simps)
  moreover have "inet_str2n (dec a @ ''.'' @ dec b @ ''.'' @ dec c @ ''.'' @ dec d) = sint X"
    using inet_str2n_dotted [OF assms, of "[]"] by (simp add: X_def)
  ultimately show ?thesis
    by (simp add: server_addr_def htonl_def store_bswap del: store_le.simps)
qed

text \<open>A positive result of sending a page is its size.\<close>

theorem send_pages_all:
  assumes "sock_send_pages established psize result > 0"
  shows "sock_send_pages established psize result = psize"
  using assms by (auto simp: sock_send_pages_def DMS_Sock_ErrorHandling_def Let_def xmit_defs split: if_splits)

section \<open>Resetting the table\<close>

lemma reset_loop_inv:
  "dn_inv s \<Longrightarrow> set is \<subseteq> {..<DMS_MAX_NODES} \<Longrightarrow>
   \<exists>t. reset_loop is s = Some t \<and> dn_inv t \<and> dn_entries t = (\<lambda>i. if i \<in> set is then None else dn_entries s i)"
proof (induction "is" arbitrary: s)
  case Nil
  then show ?case by simp
next
  case (Cons i "is")
  show ?case
  proof (cases "dn_nodes s ! i")
    case None
    then have "dn_entries s i = None" by (simp add: dn_entries_def)
    then show ?thesis using Cons.IH [of s] Cons.prems None by (auto simp: fun_eq_iff)
  next
    case (Some a)
    have "dn_wf s" using Cons.prems(1) by (simp add: dn_inv_def)
    moreover have i: "i < DMS_MAX_NODES" using Cons.prems(2) by simp
    ultimately obtain d where "dn_heap s a = Some d" using Some unfolding dn_wf_def by blast
    then have "dn_entries s i = Some (endpoint d)" using i Some by (simp add: dn_entries_def)
    from Destroy_entry [OF Cons.prems(1) this] obtain t where
      t: "Destroy_DMS_Node_Container (int i) s = Some t" "dn_inv t" "dn_entries t = (dn_entries s)(i := None)" .
    then show ?thesis using Cons.IH [of t] Cons.prems(2) Some by (auto simp: fun_eq_iff)
  qed
qed

text \<open>Resetting destroys every connection of the table without a fault.\<close>

theorem reset_empties:
  assumes "dn_inv s"
  shows "\<exists>t. Reset_DNCS_Manager s = Some t \<and> dn_inv t \<and> (\<forall>i. dn_entries t i = None)"
proof -
  have "dn_entries s i = None" if "\<not> i < DMS_MAX_NODES" for i using that by (simp add: dn_entries_def)
  moreover obtain t where "reset_loop [0..<DMS_MAX_NODES] s = Some t" "dn_inv t"
    "dn_entries t = (\<lambda>i. if i \<in> set [0..<DMS_MAX_NODES] then None else dn_entries s i)"
    using reset_loop_inv [OF assms, of "[0..<DMS_MAX_NODES]"] by (auto simp: atLeast0LessThan)
  ultimately show ?thesis by (auto simp: Reset_DNCS_Manager_def)
qed

end
