(* ===== verification/Cache_Module.thy ===== *)
theory Cache_Module
  imports Meta_Cache Mem_Pool
begin

text \<open>
  The set-up of the metadata cache (\<open>cache_init\<close>, \<open>Init_Cache_Module\<close> and
  \<open>Release_Cache_Module\<close> of \<open>cache/cache.c\<close>) and the memory of the radix tree
  (\<open>cache/radix-tree.c\<close>): the cache of its nodes, the nodes a processor keeps in reserve,
  and the table of the largest index for each height.  One processor is modelled.

  The caches of the kernel are those of \<open>Mem_Pool\<close>; \<open>rm_live\<close> are the nodes that are out of
  their cache, and freeing another one is a fault.  \<open>radix_tree_init\<close> creates its cache with
  \<open>SLAB_PANIC\<close>, so it does not return without it.
\<close>

section \<open>The memory of the tree\<close>

record rtmod =
  rm_k :: kmem
  rm_live :: "nat list"
  rm_cachep :: "nat option"          \<comment> \<open>\<open>radix_tree_node_cachep\<close>\<close>
  rm_maxindex :: "u64 list"          \<comment> \<open>\<open>height_to_maxindex\<close>\<close>
  rm_nr :: nat                       \<comment> \<open>\<open>radix_tree_preloads\<close>\<close>
  rm_nodes :: "nat option list"
  rm_node_count :: int

text \<open>The static data when the module is loaded.\<close>

definition rt_static :: "kmem \<Rightarrow> rtmod" where
  "rt_static k = \<lparr>rm_k = k, rm_live = [], rm_cachep = None, rm_maxindex = replicate RADIX_TREE_MAX_PATH 0, rm_nr = 0,
     rm_nodes = replicate RADIX_TREE_MAX_PATH None, rm_node_count = 0\<rparr>"

definition kmem_cache_alloc :: "bool \<Rightarrow> rtmod \<Rightarrow> (nat option \<times> rtmod) option" where
  "kmem_cache_alloc ok s = do {
     c \<leftarrow> rm_cachep s;
     if ok then do {
       k \<leftarrow> take_objs c 1 (rm_k s);
       Some (Some (k_next k), s\<lparr>rm_k := k\<lparr>k_next := Suc (k_next k)\<rparr>, rm_live := k_next k # rm_live s\<rparr>) }
     else Some (None, s) }"

definition kmem_cache_free :: "nat \<Rightarrow> rtmod \<Rightarrow> rtmod option" where
  "kmem_cache_free a s = do {
     c \<leftarrow> rm_cachep s;
     if a \<in> set (rm_live s) then do {
       k \<leftarrow> give_objs c 1 (rm_k s);
       Some (s\<lparr>rm_k := k, rm_live := remove1 a (rm_live s)\<rparr>) }
     else None }"

definition set_cachep :: "nat option \<Rightarrow> kmem \<Rightarrow> rtmod \<Rightarrow> rtmod" where
  "set_cachep c k s = s\<lparr>rm_k := k, rm_cachep := c\<rparr>"

definition radix_tree_init_maxindex :: "rtmod \<Rightarrow> rtmod" where
  "radix_tree_init_maxindex s = s\<lparr>rm_maxindex := map radix_tree_maxindex [0..<length (rm_maxindex s)]\<rparr>"

definition radix_tree_init :: "bool \<Rightarrow> nat \<Rightarrow> rtmod \<Rightarrow> rtmod option" where
  "radix_tree_init ok sizeof s =
     (case kmem_cache_create ok ''DMS-client/radix_tree_node'' sizeof (rm_k s) of
        (None, k) \<Rightarrow> None
      | (Some c, k) \<Rightarrow> Some (radix_tree_init_maxindex (set_cachep (Some c) k s)))"

text \<open>A node for the tree; \<open>gfp_wait\<close>: the mask of the tree lets the allocation wait.  The
  count goes up also without a node.\<close>

definition node_alloc :: "bool \<Rightarrow> bool \<Rightarrow> rtmod \<Rightarrow> (nat option \<times> rtmod) option" where
  "node_alloc ok gfp_wait s = do {
     (ret, s) \<leftarrow> kmem_cache_alloc ok s;
     let (ret, s) =
       (if ret = None \<and> \<not> gfp_wait \<and> rm_nr s \<noteq> 0
        then (rm_nodes s ! (rm_nr s - 1), s\<lparr>rm_nodes := (rm_nodes s)[rm_nr s - 1 := None], rm_nr := rm_nr s - 1\<rparr>)
        else (ret, s));
     Some (ret, s\<lparr>rm_node_count := rm_node_count s + 1\<rparr>) }"

definition node_free :: "nat \<Rightarrow> rtmod \<Rightarrow> rtmod option" where
  "node_free a s = kmem_cache_free a (s\<lparr>rm_node_count := rm_node_count s - 1\<rparr>)"

text \<open>\<open>n\<close> is what is missing in the reserve; \<open>ok\<close> says by the number of nodes in the reserve
  whether the next allocation succeeds.\<close>

fun preload_loop :: "(nat \<Rightarrow> bool) \<Rightarrow> nat \<Rightarrow> rtmod \<Rightarrow> (int \<times> rtmod) option" where
  "preload_loop ok 0 s = Some (0, s)"
| "preload_loop ok (Suc n) s = do {
     (node, s) \<leftarrow> kmem_cache_alloc (ok (rm_nr s)) s;
     (case node of
        None \<Rightarrow> Some (- ENOMEM, s)
      | Some a \<Rightarrow> preload_loop ok n (s\<lparr>rm_nodes := (rm_nodes s)[rm_nr s := Some a], rm_nr := Suc (rm_nr s)\<rparr>)) }"

definition radix_tree_preload :: "(nat \<Rightarrow> bool) \<Rightarrow> rtmod \<Rightarrow> (int \<times> rtmod) option" where
  "radix_tree_preload ok s = preload_loop ok (RADIX_TREE_MAX_PATH - rm_nr s) s"

text \<open>The reserve is given back; \<open>nr\<close> and \<open>radix_tree_node_cachep\<close> stay as they are.\<close>

fun free_reserve :: "nat option list \<Rightarrow> rtmod \<Rightarrow> rtmod option" where
  "free_reserve [] s = Some s"
| "free_reserve (a # as) s = do { a \<leftarrow> a; s \<leftarrow> kmem_cache_free a s; free_reserve as s }"

definition radix_tree_exit :: "rtmod \<Rightarrow> rtmod option" where
  "radix_tree_exit s =
     (case rm_cachep s of
        None \<Rightarrow> Some s
      | Some c \<Rightarrow> do {
          s \<leftarrow> free_reserve (take (rm_nr s) (rm_nodes s)) s;
          (_, k) \<leftarrow> kmem_cache_destroy c (rm_k s);
          Some (s\<lparr>rm_k := k\<rparr>) })"

text \<open>\<open>while (index > radix_tree_maxindex(height)) height++\<close> over the table; reading past its
  end is a fault.\<close>

function extend_table :: "u64 list \<Rightarrow> u64 \<Rightarrow> nat \<Rightarrow> nat option" where
  "extend_table t index height =
     (if height < length t
      then (if index > t ! height then extend_table t index (height + 1) else Some height)
      else None)"
  by auto
termination by (relation "measure (\<lambda>(t, _, height). length t - height)") auto

declare extend_table.simps [simp del]

section \<open>The module\<close>

record 'm cmod =
  cm_rt :: rtmod
  cm_cache :: "'m cache"
  cm_pool :: "nat option"            \<comment> \<open>\<open>tree_leaf_pool\<close>\<close>
  cm_ops :: bool                     \<comment> \<open>the operations are entered in \<open>c_ops\<close>\<close>

definition cache_module_init :: "bool \<Rightarrow> nat \<Rightarrow> 'm cmod \<Rightarrow> int \<times> 'm cmod" where
  "cache_module_init ok sizeof m =
     (case kmem_cache_create ok ''DMS-client/tree_leaf'' sizeof (rm_k (cm_rt m)) of
        (c, k) \<Rightarrow>
          (if c = None then - ENOMEM else 0,
           m\<lparr>cm_cache := (cm_cache m)\<lparr>volid_table := replicate VOLID_TABLE_SIZE []\<rparr>, cm_pool := c, cm_rt := (cm_rt m)\<lparr>rm_k := k\<rparr>\<rparr>))"

definition Init_Cache_Module :: "bool \<Rightarrow> bool \<Rightarrow> nat \<Rightarrow> nat \<Rightarrow> 'm cmod \<Rightarrow> (int \<times> 'm cmod) option" where
  "Init_Cache_Module ok_node ok_leaf size_node size_leaf m = do {
     rt \<leftarrow> radix_tree_init ok_node size_node (cm_rt m);
     Some (cache_module_init ok_leaf size_leaf (m\<lparr>cm_ops := True, cm_rt := rt\<rparr>)) }"

text \<open>The leaves still allocated are objects of their cache.\<close>

definition Release_Cache_Module :: "'m cmod \<Rightarrow> 'm cmod option" where
  "Release_Cache_Module m = do {
     c \<leftarrow> volume_remove_all (cm_cache m);
     p \<leftarrow> cm_pool m;
     k \<leftarrow> take_objs p (card (dom (leaves c))) (rm_k (cm_rt m));
     (_, k) \<leftarrow> kmem_cache_destroy p k;
     rt \<leftarrow> radix_tree_exit ((cm_rt m)\<lparr>rm_k := k\<rparr>);
     Some (m\<lparr>cm_cache := c, cm_rt := rt\<rparr>) }"

section \<open>The table of heights\<close>

lemma height_table: "radix_tree_init ok n s = Some s' \<Longrightarrow> rm_maxindex s' = map radix_tree_maxindex [0..<length (rm_maxindex s)]"
  by (auto simp: radix_tree_init_def radix_tree_init_maxindex_def set_cachep_def split: prod.splits option.splits)

text \<open>Once the module is set up the search for a height stays inside the table and finds the
  height of the tree's model.\<close>

theorem height_table_in_bounds:
  assumes "radix_tree_init ok n (rt_static k) = Some s" and "height \<le> 11"
  shows "extend_table (rm_maxindex s) index height = Some (extend_height index height)"
proof -
  define t where "t = rm_maxindex s"
  have t: "t = map radix_tree_maxindex [0..<12]"
    using height_table [OF assms(1)] by (simp add: t_def rt_static_def rt_consts)
  have "extend_table t index height = Some (extend_height index height)"
    using assms(2)
  proof (induction index height rule: extend_height.induct)
    case (1 index height)
    have e: "t ! height = radix_tree_maxindex height" "length t = 12" using 1(2) by (simp_all add: t del: upt_Suc)
    show ?case
    proof (cases "index > radix_tree_maxindex height")
      case True
      then have "height \<noteq> 11" by (auto simp: radix_tree_maxindex_def rt_consts)
      then show ?thesis using 1 True e by (simp add: extend_table.simps [of t index height] extend_height.simps [of index height])
    next
      case False
      then show ?thesis using 1 e by (simp add: extend_table.simps [of t index height] extend_height.simps [of index height])
    qed
  qed
  then show ?thesis by (simp add: t_def)
qed

text \<open>Before that the table is zero, and the search for any index but 0 runs off its end:
  \<open>module_init(cache_init)\<close> does not set it up.\<close>

theorem height_table_unset:
  assumes "index \<noteq> 0"
  shows "extend_table (rm_maxindex (rt_static k)) index height = None"
proof -
  have "extend_table (replicate n 0) index height = None" for n
    using assms
    by (induction "n - height" arbitrary: height)
      (simp_all add: extend_table.simps [of "replicate n 0"] word_neq_0_conv)
  then show ?thesis by (simp add: rt_static_def)
qed

section \<open>The reserve of nodes\<close>

definition reserve :: "rtmod \<Rightarrow> nat list \<Rightarrow> bool" where
  "reserve s as \<longleftrightarrow> rm_nr s = length as \<and> length (rm_nodes s) = RADIX_TREE_MAX_PATH \<and> length as \<le> RADIX_TREE_MAX_PATH \<and>
     take (length as) (rm_nodes s) = map Some as \<and> distinct as \<and> set as \<subseteq> set (rm_live s) \<and>
     distinct (rm_live s) \<and> (\<forall>a \<in> set (rm_live s). a < k_next (rm_k s)) \<and>
     (\<exists>c kc. rm_cachep s = Some c \<and> c < k_next (rm_k s) \<and> k_caches (rm_k s) c = Some kc \<and> kc_objs kc = length (rm_live s))"

lemma alloc_ok:
  assumes "reserve s as"
  shows "\<exists>s'. kmem_cache_alloc True s = Some (Some (k_next (rm_k s)), s') \<and> reserve s' as \<and>
    rm_live s' = k_next (rm_k s) # rm_live s \<and> rm_nodes s' = rm_nodes s \<and> rm_nr s' = rm_nr s"
  using assms by (fastforce simp: reserve_def kmem_cache_alloc_def take_objs_def less_Suc_eq)

lemma alloc_fails: "reserve s as \<Longrightarrow> kmem_cache_alloc False s = Some (None, s)"
  by (auto simp: reserve_def kmem_cache_alloc_def)

lemma reserve_add:
  assumes "reserve s as" and "length as < RADIX_TREE_MAX_PATH" and "a \<in> set (rm_live s)" "a \<notin> set as"
  shows "reserve (s\<lparr>rm_nodes := (rm_nodes s)[rm_nr s := Some a], rm_nr := Suc (rm_nr s)\<rparr>) (as @ [a])"
  using assms by (auto simp: reserve_def take_Suc_conv_app_nth)

lemma preload_loop_ok:
  "reserve s as \<Longrightarrow> n = RADIX_TREE_MAX_PATH - length as \<Longrightarrow>
   \<exists>r s' bs. preload_loop ok n s = Some (r, s') \<and> reserve s' (as @ bs) \<and>
     (if r = 0 then length (as @ bs) = RADIX_TREE_MAX_PATH else r = - ENOMEM \<and> (\<exists>j < RADIX_TREE_MAX_PATH. \<not> ok j))"
proof (induction n arbitrary: s as)
  case 0
  then show ?case by (intro exI [of _ 0] exI [of _ s] exI [of _ "[]"]) (auto simp: reserve_def)
next
  case (Suc n)
  have l: "length as < RADIX_TREE_MAX_PATH" "rm_nr s = length as" using Suc.prems by (auto simp: reserve_def)
  show ?case
  proof (cases "ok (rm_nr s)")
    case True
    obtain s1 where a: "kmem_cache_alloc True s = Some (Some (k_next (rm_k s)), s1)" "reserve s1 as"
      and s1: "rm_live s1 = k_next (rm_k s) # rm_live s" "rm_nodes s1 = rm_nodes s" "rm_nr s1 = rm_nr s"
      using alloc_ok [OF Suc.prems(1)] by blast
    have "k_next (rm_k s) \<notin> set as" using Suc.prems(1) by (auto simp: reserve_def)
    then have "reserve (s1\<lparr>rm_nodes := (rm_nodes s1)[rm_nr s1 := Some (k_next (rm_k s))], rm_nr := Suc (rm_nr s1)\<rparr>) (as @ [k_next (rm_k s)])"
      using a(2) l(1) s1(1) by (intro reserve_add) simp_all
    moreover have "n = RADIX_TREE_MAX_PATH - length (as @ [k_next (rm_k s)])" using Suc.prems(2) by simp
    ultimately obtain r s' bs where
      "preload_loop ok n (s1\<lparr>rm_nodes := (rm_nodes s1)[rm_nr s1 := Some (k_next (rm_k s))], rm_nr := Suc (rm_nr s1)\<rparr>) = Some (r, s')"
      "reserve s' ((as @ [k_next (rm_k s)]) @ bs)"
      "if r = 0 then length ((as @ [k_next (rm_k s)]) @ bs) = RADIX_TREE_MAX_PATH else r = - ENOMEM \<and> (\<exists>j < RADIX_TREE_MAX_PATH. \<not> ok j)"
      using Suc.IH by blast
    then show ?thesis using True a(1)
      by (intro exI [of _ r] exI [of _ s'] exI [of _ "k_next (rm_k s) # bs"]) (simp split: if_splits)
  next
    case False
    then show ?thesis using alloc_fails [OF Suc.prems(1)] Suc.prems(1) l
      by (intro exI [of _ "- ENOMEM"] exI [of _ s] exI [of _ "[]"]) (auto simp: ENOMEM_def)
  qed
qed

text \<open>Allocations that must not wait, when there is no memory.\<close>

fun atomic_allocs :: "nat \<Rightarrow> rtmod \<Rightarrow> (nat option list \<times> rtmod) option" where
  "atomic_allocs 0 s = Some ([], s)"
| "atomic_allocs (Suc n) s = do { (a, s) \<leftarrow> node_alloc False False s; (as, s) \<leftarrow> atomic_allocs n s; Some (a # as, s) }"

lemma node_alloc_reserve:
  assumes "reserve s (as @ [a])"
  shows "\<exists>s'. node_alloc False False s = Some (Some a, s') \<and> reserve s' as"
proof -
  have r: "rm_nr s = Suc (length as)" "take (Suc (length as)) (rm_nodes s) = map Some as @ [Some a]"
    "Suc (length as) \<le> length (rm_nodes s)"
    using assms by (auto simp: reserve_def)
  have n: "rm_nodes s ! length as = Some a"
    using arg_cong [OF r(2), of "\<lambda>xs. xs ! length as"] by (simp add: nth_append)
  have t: "take (length as) (rm_nodes s) = map Some as"
    using arg_cong [OF r(2), of "take (length as)"] by simp
  show ?thesis using alloc_fails [OF assms] r(1) n t assms
    by (auto simp: node_alloc_def reserve_def)
qed

lemma atomic_allocs_reserve:
  "reserve s (as @ bs) \<Longrightarrow> \<exists>s'. atomic_allocs (length bs) s = Some (map Some (rev bs), s') \<and> reserve s' as"
proof (induction bs arbitrary: s rule: rev_induct)
  case (snoc b bs)
  then obtain s1 where "node_alloc False False s = Some (Some b, s1)" "reserve s1 (as @ bs)"
    using node_alloc_reserve [of s "as @ bs" b] by auto
  with snoc.IH [of s1] show ?case by auto
qed simp

text \<open>A successful preload makes the next \<open>RADIX_TREE_MAX_PATH\<close> allocations succeed without
  memory and without waiting, each with a node of its own; a preload that fails was refused
  memory.\<close>

theorem preload_guarantees:
  assumes "reserve s as"
  shows "\<exists>r s'. radix_tree_preload ok s = Some (r, s') \<and>
    (if r = 0 then \<exists>bs s''. atomic_allocs RADIX_TREE_MAX_PATH s' = Some (map Some bs, s'') \<and> distinct bs \<and> length bs = RADIX_TREE_MAX_PATH
     else r = - ENOMEM \<and> (\<exists>j < RADIX_TREE_MAX_PATH. \<not> ok j))"
proof -
  have "rm_nr s = length as" using assms by (simp add: reserve_def)
  then obtain r s' bs where p: "radix_tree_preload ok s = Some (r, s')" "reserve s' ([] @ as @ bs)"
    "if r = 0 then length (as @ bs) = RADIX_TREE_MAX_PATH else r = - ENOMEM \<and> (\<exists>j < RADIX_TREE_MAX_PATH. \<not> ok j)"
    using preload_loop_ok [OF assms, of "RADIX_TREE_MAX_PATH - length as" ok] by (auto simp: radix_tree_preload_def)
  show ?thesis
  proof (cases "r = 0")
    case True
    then have "length (as @ bs) = RADIX_TREE_MAX_PATH" using p(3) by simp
    with atomic_allocs_reserve [OF p(2)] obtain s'' where
      "atomic_allocs RADIX_TREE_MAX_PATH s' = Some (map Some (rev (as @ bs)), s'')" by auto
    moreover have "distinct (rev (as @ bs))" using p(2) by (simp only: reserve_def distinct_rev append_Nil)
    moreover have "length (rev (as @ bs)) = RADIX_TREE_MAX_PATH" using p(3) True by simp
    ultimately have "\<exists>bs s''. atomic_allocs RADIX_TREE_MAX_PATH s' = Some (map Some bs, s'') \<and> distinct bs \<and> length bs = RADIX_TREE_MAX_PATH"
      by blast
    then show ?thesis using p(1) True by (intro exI [of _ r] exI [of _ s']) simp
  next
    case False
    then show ?thesis using p by auto
  qed
qed

section \<open>Unloading\<close>

lemma free_ok:
  assumes "rm_cachep s = Some c" "k_caches (rm_k s) c = Some kc" "kc_objs kc = length (rm_live s)" "a \<in> set (rm_live s)"
  shows "kmem_cache_free a s = Some (s\<lparr>rm_k := (rm_k s)\<lparr>k_caches := (k_caches (rm_k s))(c \<mapsto> kc\<lparr>kc_objs := length (remove1 a (rm_live s))\<rparr>)\<rparr>,
    rm_live := remove1 a (rm_live s)\<rparr>)"
  using assms by (simp add: kmem_cache_free_def give_objs_def length_remove1)

lemma free_reserve_ok:
  "rm_cachep s = Some c \<Longrightarrow> k_caches (rm_k s) c = Some kc \<Longrightarrow> kc_objs kc = length (rm_live s) \<Longrightarrow>
   distinct (rm_live s) \<Longrightarrow> distinct as \<Longrightarrow> set as \<subseteq> set (rm_live s) \<Longrightarrow>
   \<exists>live. set live = set (rm_live s) - set as \<and> distinct live \<and>
     free_reserve (map Some as) s = Some (s\<lparr>rm_k := (rm_k s)\<lparr>k_caches := (k_caches (rm_k s))(c \<mapsto> kc\<lparr>kc_objs := length live\<rparr>)\<rparr>,
       rm_live := live\<rparr>)"
proof (induction as arbitrary: s kc)
  case Nil
  then have "kc\<lparr>kc_objs := length (rm_live s)\<rparr> = kc" by (cases kc) simp
  with Nil show ?case by (intro exI [of _ "rm_live s"]) (simp add: fun_upd_idem)
next
  case (Cons a as)
  let ?s = "s\<lparr>rm_k := (rm_k s)\<lparr>k_caches := (k_caches (rm_k s))(c \<mapsto> kc\<lparr>kc_objs := length (remove1 a (rm_live s))\<rparr>)\<rparr>,
    rm_live := remove1 a (rm_live s)\<rparr>"
  have f: "kmem_cache_free a s = Some ?s" using free_ok [OF Cons.prems(1-3), of a] Cons.prems(6) by simp
  have "\<exists>live. set live = set (rm_live ?s) - set as \<and> distinct live \<and>
     free_reserve (map Some as) ?s = Some (?s\<lparr>rm_k := (rm_k ?s)\<lparr>k_caches := (k_caches (rm_k ?s))(c \<mapsto> kc\<lparr>kc_objs := length (remove1 a (rm_live s))\<rparr>\<lparr>kc_objs := length live\<rparr>)\<rparr>,
       rm_live := live\<rparr>)"
  proof (rule Cons.IH [of ?s "kc\<lparr>kc_objs := length (remove1 a (rm_live s))\<rparr>"])
    show "set as \<subseteq> set (rm_live ?s)" using Cons.prems(4-6) by auto
  qed (use Cons.prems in simp_all)
  then obtain live where l: "set live = set (rm_live ?s) - set as" "distinct live"
    "free_reserve (map Some as) ?s = Some (?s\<lparr>rm_k := (rm_k ?s)\<lparr>k_caches := (k_caches (rm_k ?s))(c \<mapsto> kc\<lparr>kc_objs := length (remove1 a (rm_live s))\<rparr>\<lparr>kc_objs := length live\<rparr>)\<rparr>,
       rm_live := live\<rparr>)" by blast
  have "set live = set (rm_live s) - set (a # as)" using l(1) Cons.prems(4) by auto
  moreover have "free_reserve (map Some (a # as)) s = Some (s\<lparr>rm_k := (rm_k s)\<lparr>k_caches := (k_caches (rm_k s))(c \<mapsto> kc\<lparr>kc_objs := length live\<rparr>)\<rparr>,
       rm_live := live\<rparr>)" using f l(3) by simp
  ultimately show ?case using l(2) by blast
qed

text \<open>Unloading with only the reserve outstanding gives the cache of nodes back; but the reserve
  still counts the nodes that were freed.\<close>

theorem exit_gives_back:
  assumes "reserve s as" and "set (rm_live s) = set as"
  obtains s' c where "radix_tree_exit s = Some s'" and "rm_cachep s = Some c" and "k_caches (rm_k s') = (k_caches (rm_k s))(c := None)"
    and "rm_live s' = []" and "rm_nr s' = length as" and "rm_nodes s' = rm_nodes s" and "rm_cachep s' = Some c"
proof -
  obtain c kc where c: "rm_cachep s = Some c" "k_caches (rm_k s) c = Some kc" "kc_objs kc = length (rm_live s)"
    using assms(1) by (auto simp: reserve_def)
  have t: "take (rm_nr s) (rm_nodes s) = map Some as" "distinct (rm_live s)" "distinct as" "rm_nr s = length as"
    using assms(1) by (auto simp: reserve_def)
  let ?k = "(rm_k s)\<lparr>k_caches := (k_caches (rm_k s))(c \<mapsto> kc\<lparr>kc_objs := 0\<rparr>)\<rparr>"
  have "free_reserve (map Some as) s = Some (s\<lparr>rm_k := ?k, rm_live := []\<rparr>)"
    using free_reserve_ok [OF c t(2,3)] assms(2) by auto
  then have "radix_tree_exit s = Some (s\<lparr>rm_k := ?k\<lparr>k_caches := (k_caches ?k)(c := None)\<rparr>, rm_live := []\<rparr>)"
    by (simp add: radix_tree_exit_def c(1) t(1) kmem_cache_destroy_def)
  then show ?thesis by (rule that) (simp_all add: c t)
qed

text \<open>Loading again takes over that reserve, and the first allocation that it serves is a node
  that was freed.\<close>

theorem reserve_dangles:
  assumes "reserve s as" and "set (rm_live s) = set as" and "as \<noteq> []"
  shows "\<exists>s1 s2 s3 a. radix_tree_exit s = Some s1 \<and> radix_tree_init True n s1 = Some s2 \<and>
    node_alloc False False s2 = Some (Some a, s3) \<and> a \<notin> set (rm_live s2)"
proof -
  obtain s1 c where s1: "radix_tree_exit s = Some s1" "rm_live s1 = []" "rm_nr s1 = length as" "rm_nodes s1 = rm_nodes s"
    using exit_gives_back [OF assms(1,2)] by metis
  define s2 where "s2 = radix_tree_init_maxindex (set_cachep (Some (k_next (rm_k s1)))
    ((rm_k s1)\<lparr>k_caches := (k_caches (rm_k s1))(k_next (rm_k s1) \<mapsto> \<lparr>kc_name = ''DMS-client/radix_tree_node'', kc_size = n, kc_objs = 0\<rparr>),
       k_next := Suc (k_next (rm_k s1))\<rparr>) s1)"
  have i: "radix_tree_init True n s1 = Some s2" by (simp add: radix_tree_init_def kmem_cache_create_def s2_def)
  have f: "rm_live s2 = []" "rm_nr s2 = length as" "rm_nodes s2 = rm_nodes s" "rm_cachep s2 \<noteq> None"
    using s1 by (simp_all add: s2_def set_cachep_def radix_tree_init_maxindex_def)
  have "rm_nodes s ! (length as - 1) = map Some as ! (length as - 1)"
    using assms(1,3) by (metis (no_types) reserve_def diff_less length_greater_0_conv nth_take zero_less_one)
  then have "rm_nodes s ! (length as - 1) = Some (last as)" using assms(3) by (simp add: last_conv_nth)
  then have "\<exists>s3. node_alloc False False s2 = Some (Some (last as), s3)"
    using f assms(3) by (auto simp: node_alloc_def kmem_cache_alloc_def)
  then show ?thesis using s1(1) i f(1) by auto
qed

text \<open>A set-up that fails keeps the cache of nodes, which is not given back.\<close>

theorem failed_init_leaks:
  assumes "k_caches (rm_k (cm_rt m)) (k_next (rm_k (cm_rt m))) = None"
  shows "\<exists>m'. Init_Cache_Module True False n l m = Some (- ENOMEM, m') \<and>
    k_caches (rm_k (cm_rt m')) (k_next (rm_k (cm_rt m))) \<noteq> None"
  by (simp add: Init_Cache_Module_def radix_tree_init_def kmem_cache_create_def cache_module_init_def set_cachep_def
      radix_tree_init_maxindex_def)

text \<open>Loading and unloading without use restores the caches of the kernel.\<close>

lemma init_reserve:
  assumes "radix_tree_init True n (rt_static k) = Some s"
  shows "reserve s []"
  using assms by (auto simp: radix_tree_init_def kmem_cache_create_def radix_tree_init_maxindex_def set_cachep_def rt_static_def reserve_def)

theorem load_unload:
  assumes "cm_rt m = rt_static k" and "fresh k" and "leaves (cm_cache m) = Map.empty"
    and "Init_Cache_Module True True n l m = Some (r, m1)"
  shows "r = 0 \<and> (\<exists>m2. Release_Cache_Module m1 = Some m2 \<and> same_mem (rm_k (cm_rt m2)) k)"
proof -
  have f: "k_caches k (k_next k) = None" "k_caches k (Suc (k_next k)) = None" using assms(2) by (simp_all add: fresh_def)
  have "volume_remove_all (cm_cache m1) = Some (cm_cache m1)" "r = 0" "cm_pool m1 = Some (Suc (k_next k))"
    "leaves (cm_cache m1) = Map.empty"
    using assms(1,3,4) by (auto simp: Init_Cache_Module_def radix_tree_init_def kmem_cache_create_def cache_module_init_def set_cachep_def
        radix_tree_init_maxindex_def volume_remove_all_def cache_consts rt_static_def)
  moreover have "rm_cachep (cm_rt m1) = Some (k_next k)" "rm_nr (cm_rt m1) = 0"
    "same_mem (rm_k (cm_rt m1)) (k\<lparr>k_caches := (k_caches k)(k_next k \<mapsto> \<lparr>kc_name = ''DMS-client/radix_tree_node'', kc_size = n, kc_objs = 0\<rparr>,
       Suc (k_next k) \<mapsto> \<lparr>kc_name = ''DMS-client/tree_leaf'', kc_size = l, kc_objs = 0\<rparr>)\<rparr>)"
    using assms(1,4) by (auto simp: Init_Cache_Module_def radix_tree_init_def kmem_cache_create_def cache_module_init_def set_cachep_def
        radix_tree_init_maxindex_def rt_static_def same_mem_def)
  ultimately show ?thesis
    by (auto simp: Release_Cache_Module_def take_objs_def kmem_cache_destroy_def radix_tree_exit_def same_mem_def f intro!: ext)
qed

theorem preload_guarantees_witness:
  "\<exists>s r s' bs s''. radix_tree_init True 8 (rt_static no_mem) = Some s \<and> radix_tree_preload (\<lambda>_. True) s = Some (r, s') \<and>
     atomic_allocs RADIX_TREE_MAX_PATH s' = Some (map Some bs, s'') \<and> distinct bs \<and> length bs = 12"
proof -
  obtain s where s: "radix_tree_init True 8 (rt_static no_mem) = Some s"
    by (auto simp: radix_tree_init_def kmem_cache_create_def)
  from preload_guarantees [OF init_reserve [OF s], of "\<lambda>_. True"] s show ?thesis
    by (fastforce simp: rt_consts split: if_splits)
qed

end
