(* ===== verification/Disk_Control.thy ===== *)
theory Disk_Control
  imports Volume_Manager DList
begin

text \<open>
  What the block layer calls on the disk of a volume (\<open>dms_volume_fops\<close> in \<open>Volume.c\<close>):
  \<open>Client_Unlocked_IOCTL\<close>, \<open>DMS_VDisk_Open\<close> and \<open>DMS_VDisk_Release\<close> of \<open>DMS_VDDriver.c\<close>;
  and the functions of \<open>Volume_Manager.c\<close> for those that wait for the end of a volume's
  requests, and the queue of a volume for commits to the namenode.  \<open>copy_to_user\<close> copies the eight bytes of \<open>size\<close> or fails.
\<close>

section \<open>Definitions\<close>

datatype disk_cmd = BLKFLSBUF | BLKGETSIZE | BLKSSZGET | Disk_Other

definition EINVAL :: int where "EINVAL = 22"

text \<open>The result and what was written at \<open>ioctl_param\<close>.\<close>

definition Client_Unlocked_IOCTL :: "bool \<Rightarrow> bool \<Rightarrow> gendisk \<Rightarrow> disk_cmd \<Rightarrow> u64 \<Rightarrow> int \<times> u64 option" where
  "Client_Unlocked_IOCTL cap_sys_admin copied disk cmd ioctl_param =
     (if \<not> cap_sys_admin then (- EPERM, None)
      else case cmd of
        BLKFLSBUF \<Rightarrow> (0, None)
      | BLKGETSIZE \<Rightarrow>
          if ioctl_param = 0 then (- EINVAL, None)
          else let sz = g_capacity disk in if \<not> copied then (- EFAULT, None) else (0, Some sz)
      | BLKSSZGET \<Rightarrow> let sz = BYTES_PER_DMSBLK in if \<not> copied then (- EFAULT, None) else (0, Some sz)
      | Disk_Other \<Rightarrow> (- ENOTTY, None))"

definition DMS_VDisk_Open :: "int \<Rightarrow> vmgr \<Rightarrow> (int \<times> vmgr) option" where
  "DMS_VDisk_Open unit m = Open_DMS_Volume unit m"

definition DMS_VDisk_Release :: "int \<Rightarrow> vmgr \<Rightarrow> (int \<times> vmgr) option" where
  "DMS_VDisk_Release unit m = Close_DMS_Volume unit m"

definition Flush_IO_by_Volume_ptr :: "vslot \<Rightarrow> int" where
  "Flush_IO_by_Volume_ptr volume = DMS_OK"

definition Flush_IO_by_VolumeID :: "int \<Rightarrow> vmgr \<Rightarrow> int option" where
  "Flush_IO_by_VolumeID volumeID m = do { volume \<leftarrow> Get_Volume_ptr_by_VolumeID volumeID m; Some DMS_OK }"

text \<open>\<open>waiting\<close>: a process waits on \<open>volume_wq\<close>.  The result and whether all are woken.\<close>

definition Wakeup_Volume_WQ :: "bool \<Rightarrow> int \<Rightarrow> vmgr \<Rightarrow> (int \<times> bool) option" where
  "Wakeup_Volume_WQ waiting volumeID m =
     (if vm_nr_detach_cmds m > 0 then do {
        s \<leftarrow> Get_Volume_ptr_by_VolumeID volumeID m;
        if check_slot s then do {
          v \<leftarrow> slot_volume m s;
          Some (DMS_OK, IS_DS_DETACHING v \<and> waiting \<and> IS_IOREQ_EMPTY_IN_VOL (v_linger_io v)) }
        else Some (DMS_OK, False) }
      else Some (DMS_OK, False))"

text \<open>The queue holds the addresses of requests; \<open>rid\<close>, a word of 64 bits, is the first field of a
  request.  \<open>Remove_from_Commit_NN_Queue\<close> hands the request over as the place for the flag of an
  empty list, an \<open>int\<close>, so that the flag is written over the lower half of \<open>rid\<close>.\<close>

definition Add_to_Commit_NN_Queue :: "nat \<Rightarrow> nat dlist \<Rightarrow> nat \<Rightarrow> int \<times> nat dlist" where
  "Add_to_Commit_NN_Queue a cmt2nn_q ior = Insert_User_Data_to_DList_Tail a cmt2nn_q ior"

definition write_int :: "u32 \<Rightarrow> u64 \<Rightarrow> u64" where
  "write_int i w = (w AND push_bit 32 (- 1)) OR ucast i"

definition Remove_from_Commit_NN_Queue :: "nat dlist \<Rightarrow> u64 \<Rightarrow> nat dlist \<times> u64" where
  "Remove_from_Commit_NN_Queue cmt2nn_q rid =
     (case Remove_from_DList_Head cmt2nn_q of (_, now_empty, q) \<Rightarrow> (q, write_int (if now_empty then 1 else 0) rid))"

section \<open>The size of an attached volume\<close>

text \<open>The disk of the volume in a slot.\<close>

definition disk_of :: "vmgr \<Rightarrow> nat \<Rightarrow> gendisk option" where
  "disk_of m i = Option.bind (slot_volume m (vm_slots m ! i)) v_disk"

lemma unat_DSECTORS_TO_KSECTORS:
  assumes "unat ds < 2 ^ 52"
  shows "unat (DSECTORS_TO_KSECTORS ds) = 8 * unat ds"
proof -
  have "unat (push_bit 12 ds) = unat ds * 4096"
    using assms by (simp add: push_bit_eq_mult unat_times_nat unat_word_ariths)
  then show ?thesis by (simp add: DSECTORS_TO_KSECTORS_def blk_defs unat_drop_bit_eq) (simp add: drop_bit_eq_div)
qed

lemma attached_disk:
  "v_disk (attached_volume vid ds i) = Some \<lparr>g_first_minor = int i * DMS_DISK_MINORS, g_capacity = DSECTORS_TO_KSECTORS ds, g_up = True\<rparr>"
  by (simp add: attached_volume_def Attach_Volume_def new_volume_def SET_DS_ATTACHED_def)

text \<open>C24: A volume attached with a capacity in bytes has a disk whose reported size in sectors of
  512 bytes is that of the whole blocks that cover the capacity; opening the disk's minor number
  opens the volume.\<close>

theorem reported_size_covers:
  assumes "vm_wf m" and "IOCTL_AttachVolume kern vid capacity m = Some (DMS_OK, m')" and "unat capacity \<le> 2 ^ 64 - 4096"
  shows "\<exists>i disk v m''. vm_entries m' i = Some vid \<and> disk_of m' i = Some disk \<and>
    Client_Unlocked_IOCTL True True disk BLKGETSIZE 1 = (0, Some (of_nat (8 * ((unat capacity + 4095) div 4096)))) \<and>
    DMS_VDisk_Open (g_first_minor disk) m' = Some (0, m'') \<and> slot_volume m'' (vm_slots m'' ! i) = Some v \<and>
    v_volumeID v = vid \<and> v_open_counter v = 1"
proof -
  define ds where "ds = CAL_NR_DMSBLKS capacity"
  have "unat ds = (unat capacity + 4095) div 4096" using assms(3) by (simp add: ds_def unat_CAL_NR_DMSBLKS)
  moreover from this have "unat ds < 2 ^ 52" using assms(3) by simp
  ultimately have u: "unat (DSECTORS_TO_KSECTORS ds) = 8 * ((unat capacity + 4095) div 4096)"
    by (simp add: unat_DSECTORS_TO_KSECTORS)
  have k: "DSECTORS_TO_KSECTORS ds = of_nat (8 * ((unat capacity + 4095) div 4096))"
    using arg_cong [OF u, of "of_nat :: nat \<Rightarrow> u64"] by simp
  obtain i where i: "vm_free m = Some i" and m': "m' = vm_attached m i vid ds" "vm_lookup vid m = None"
    using assms(2) Attach_eq [OF assms(1), of kern vid ds]
    by (auto simp: IOCTL_AttachVolume_def ds_def ret_defs EEXIST_def ATTACH_FAIL_def EFAULT_def split: option.splits if_splits)
  note f = vm_free_Some [OF i]
  have len: "i < length (vm_slots m)" using f(2) assms(1) by (simp add: vm_wf_def)
  let ?v = "attached_volume vid ds i" and ?a = "vm_next m"
  have slot: "vm_slots m' ! i = Slot_Ptr ?a" "slot_volume m' (vm_slots m' ! i) = Some ?v" "vm_max m' = vm_max m" "length (vm_slots m') = length (vm_slots m)"
    using len by (simp_all add: m' vm_attached_def)
  have "vm_entries m' i = Some vid" using vm_attached_entries [OF assms(1) f(1,2)] by (simp add: m')
  moreover have "\<not> bit (v_state ?v) DETACHING_BIT"
    by (simp add: attached_volume_def Attach_Volume_def SET_DS_ATTACHED_def new_volume_def Init_DMS_Volume_def vol_consts bit_simps)
  then have "DMS_VDisk_Open (int i * DMS_DISK_MINORS) m' = Some (0, put_volume ?a (?v\<lparr>v_open_counter := 1\<rparr>) m')"
    using f slot len
    by (simp add: DMS_VDisk_Open_def Open_DMS_Volume_def on_minor_def GET_DMS_VOLUMES_INDEX_BY_MINOR_def IS_IN_ALL_VOLUME_RANGE_def
        DMS_DISK_MINORS_def read_slot_def Open_Volume_def attached_volume_ok DMS_MINOR_START_def IS_IN_RANGE_def)
  ultimately show ?thesis
    using slot k by (intro exI [of _ i] exI [of _ "the (v_disk ?v)"] exI [of _ "?v\<lparr>v_open_counter := 1\<rparr>"] exI)
      (auto simp: disk_of_def attached_disk Client_Unlocked_IOCTL_def put_volume_def attached_volume_ok)
qed

theorem reported_size_covers_witness:
  "\<exists>m' i disk. IOCTL_AttachVolume kern_yes 7 5000 vm1 = Some (DMS_OK, m') \<and> disk_of m' i = Some disk \<and>
     Client_Unlocked_IOCTL True True disk BLKGETSIZE 1 = (0, Some 16)"
proof -
  have "vm_entries vm1 = Map.empty" using vm1_wf(2)
    by (intro ext) (metis not_None_eq ranI empty_iff)
  then have "find (\<lambda>i. vm_entries vm1 i = None) [1..<vm_max vm1] = Some 1"
    by (simp add: vm1_def vm0_def Init_DMS_Volume_Manager_def upt_conv_Cons)
  then obtain m' where m': "IOCTL_AttachVolume kern_yes 7 5000 vm1 = Some (DMS_OK, m')"
    using Attach_eq [OF vm1_wf(1), of kern_yes 7] lookup_ran [OF vm1_wf(1), of 7] vm1_wf(2)
    by (auto simp: IOCTL_AttachVolume_def vm_free_def kern_ok_def kern_yes_def)
  with reported_size_covers [OF vm1_wf(1) m'] show ?thesis by auto
qed

section \<open>Waiting for a volume\<close>

text \<open>The counter of detach commands is back before a detach returns, so nobody that waits for the
  requests of a volume is woken outside one.\<close>

theorem detach_wakes_nobody:
  assumes "vm_wf m" and "DMS_Detach_Volume volumeID m = Some (r, m')" and "vm_nr_detach_cmds m = 0"
  shows "Wakeup_Volume_WQ waiting other m' = Some (DMS_OK, False)"
proof -
  have "vm_nr_detach_cmds m' = 0"
    using Detach_cases [OF assms(1), of volumeID] assms(2,3) by cases (auto simp: vm_detached_def)
  then show ?thesis by (simp add: Wakeup_Volume_WQ_def)
qed

section \<open>The commit queue\<close>

lemma write_int_halves:
  "drop_bit 32 (write_int i w) = drop_bit 32 w" "take_bit 32 (write_int i w) = ucast i"
proof -
  have b: "\<not> bit i n" if "32 \<le> n" for n using that bit_imp_le_length [of i n] by force
  show "drop_bit 32 (write_int i w) = drop_bit 32 w"
    by (rule bit_word_eqI) (auto simp: write_int_def bit_simps b dest: bit_imp_le_length)
  show "take_bit 32 (write_int i w) = ucast i"
    by (rule bit_word_eqI) (use b in \<open>auto simp: write_int_def bit_simps not_less\<close>)
qed

text \<open>Whichever request is to be removed, the first one leaves the queue, and the identifier of the
  request loses its lower half.\<close>

theorem commit_queue_removes_first:
  assumes "dl_elems q = x # xs"
  shows "\<exists>q'. Remove_from_Commit_NN_Queue q rid = (q', write_int (if xs = [] then 1 else 0) rid) \<and> dl_elems q' = xs"
proof -
  obtain a ns where "dl_nodes q = (a, x) # ns" "map snd ns = xs" using assms by (auto simp: dl_elems_def)
  then show ?thesis
    by (auto simp: Remove_from_Commit_NN_Queue_def Remove_from_DList_Head_def Remove_DLNode_from_DList_def dl_elems_def)
qed

end
