(* ===== verification/Datanode_Tags.thy ===== *)
theory Datanode_Tags
  imports Payload_Transfer Datanode_Request Node_Container Code_Names
begin

text \<open>
  From the metadata of a DIO to the requests to its datanodes (\<open>Payload.c\<close>,
  \<open>Payload_Manager.c\<close>): the tags of the datanodes, the translation of the located requests
  into tags, and the sending of a request for each tag.

  The tags lie in a store of their own (\<open>tm_ddts\<close>) over the pools of \<open>Mem_Pool\<close>, so that a use
  of a released tag is a fault (\<open>None\<close>).  The node of a tag in the list has the address of the
  tag.  The functions that the sources call and do not define (\<open>Compare_SSocket\<close>,
  \<open>Copy_SSocket\<close>, \<open>vIO_Read_Policy\<close>), the committer of the volume and what lies at an address
  that is taken for a located request are arguments.  The structure that is passed for a
  pointer to \<open>Create_DMS_Datanode_Tag\<close> is read as that pointer, and \<open>head\<close> as \<open>header\<close>.
\<close>

section \<open>State\<close>

record dnt =
  dg_tag :: datanode_tag
  dg_node_index :: int
  dg_ssk :: "u32 \<times> u16"
  dg_payload_tags :: "nat dlist"

record tagmem =
  tm_mp :: mpst
  tm_ddts :: "nat \<rightharpoonup> dnt"
  tm_dpts :: "nat \<rightharpoonup> payload_tag"
  tm_tags :: "nat dlist"             \<comment> \<open>\<open>dn_tags\<close> of the metadata\<close>
  tm_lrs :: "located_request list"
  tm_pdata :: "nat option list"      \<comment> \<open>\<open>private_data\<close> of the located requests\<close>

record tag_env =
  te_compare :: "u32 \<times> u16 \<Rightarrow> u32 \<times> u16 \<Rightarrow> bool"
  te_copy :: "u32 \<times> u16 \<Rightarrow> u32 \<times> u16"
  te_read_policy :: "located_request \<Rightarrow> int \<Rightarrow> int option"
  te_commit_tag :: "nat \<Rightarrow> tagmem \<Rightarrow> tagmem option"
  te_commit :: "nat \<times> payload_tag \<Rightarrow> tagmem \<Rightarrow> tagmem option"
  te_lr_at :: "u64 \<Rightarrow> located_request option"
  te_lbs :: lb_list                  \<comment> \<open>\<open>pdio->LB_list\<close>\<close>

section \<open>The tags\<close>

definition Init_DMS_Datanode_Tag :: "tag_env \<Rightarrow> u32 \<times> u16 \<Rightarrow> int \<times> dnt" where
  "Init_DMS_Datanode_Tag e ssk =
     (DMS_OK, \<lparr>dg_tag = \<lparr>dt_dnrid = 0, dt_sreq = sreq_zero, dt_retry_count = 1\<rparr>, dg_node_index = 0, dg_ssk = te_copy e ssk,
        dg_payload_tags = \<lparr>dl_nodes = [], dl_next = None\<rparr>\<rparr>)"

definition Release_DMS_Datanode_Tag :: "nat \<Rightarrow> tagmem \<Rightarrow> tagmem option" where
  "Release_DMS_Datanode_Tag a s = do {
     mp \<leftarrow> Free_DMS_Datanode_Tag a (tm_mp s);
     Some (s\<lparr>tm_mp := mp, tm_ddts := (tm_ddts s)(a := None)\<rparr>) }"

definition Create_DMS_Datanode_Tag :: "tag_env \<Rightarrow> u32 \<times> u16 \<Rightarrow> tagmem \<Rightarrow> (nat option \<times> tagmem) option" where
  "Create_DMS_Datanode_Tag e ssk s = do {
     (a, mp) \<leftarrow> Malloc_DMS_Datanode_Tag (tm_mp s);
     (case Init_DMS_Datanode_Tag e ssk of
        (retcode, t) \<Rightarrow>
          let s = s\<lparr>tm_mp := mp, tm_ddts := (tm_ddts s)(a \<mapsto> t)\<rparr>
          in if retcode < 0 then do { s \<leftarrow> Release_DMS_Datanode_Tag a s; Some (None, s) } else Some (Some a, s)) }"

definition Check_DN_Tag_by_SSocket :: "tag_env \<Rightarrow> dnt \<Rightarrow> datanode_location \<Rightarrow> bool" where
  "Check_DN_Tag_by_SSocket e t dn_loc =
     (if te_compare e (dg_ssk t) (dl_ip dn_loc, dl_port dn_loc) then
        if dt_dnrid (dg_tag t) \<noteq> 0 then False else True
      else False)"

text \<open>\<open>Get_User_Data_By_Check_Func\<close> with this check, which reads the tags.\<close>

fun find_tag :: "tag_env \<Rightarrow> (nat \<rightharpoonup> dnt) \<Rightarrow> nat list \<Rightarrow> datanode_location \<Rightarrow> nat option option" where
  "find_tag e ddts [] dn_loc = Some None"
| "find_tag e ddts (a # as) dn_loc = do {
     t \<leftarrow> ddts a;
     if Check_DN_Tag_by_SSocket e t dn_loc then Some (Some a) else find_tag e ddts as dn_loc }"

text \<open>A new tag goes on to \<open>INSERT_DDT_FAIL\<close> whatever the insertion returned.\<close>

definition Get_Datanode_Tag :: "tag_env \<Rightarrow> datanode_location \<Rightarrow> tagmem \<Rightarrow> (nat option \<times> tagmem) option" where
  "Get_Datanode_Tag e dn_loc s = do {
     ddt \<leftarrow> find_tag e (tm_ddts s) (dl_elems (tm_tags s)) dn_loc;
     (case ddt of
        Some a \<Rightarrow> Some (Some a, s)
      | None \<Rightarrow> do {
          (ddt, s) \<leftarrow> Create_DMS_Datanode_Tag e (dl_ip dn_loc, dl_port dn_loc) s;
          (case ddt of
             None \<Rightarrow> Some (None, s)
           | Some a \<Rightarrow>
               (case Insert_User_Data_to_DList_Tail a (tm_tags s) a of
                  (node, tags) \<Rightarrow> do {
                    s \<leftarrow> Release_DMS_Datanode_Tag a (s\<lparr>tm_tags := tags\<rparr>);
                    Some (None, s) })) }) }"

text \<open>\<open>Create_DMS_Payload_Tag\<close> with the store of payload tags.\<close>

definition new_payload_tag :: "located_request \<Rightarrow> int \<Rightarrow> tagmem \<Rightarrow> ((nat \<times> payload_tag) option \<times> tagmem) option" where
  "new_payload_tag lr index s = do {
     (dpt, mp) \<leftarrow> Create_DMS_Payload_Tag lr index (tm_mp s);
     Some (dpt, (case dpt of None \<Rightarrow> s | Some (p, t) \<Rightarrow> s\<lparr>tm_dpts := (tm_dpts s)(p \<mapsto> t)\<rparr>)\<lparr>tm_mp := mp\<rparr>) }"

definition put_tag :: "nat \<Rightarrow> dnt \<Rightarrow> tagmem \<Rightarrow> tagmem" where
  "put_tag a t s = s\<lparr>tm_ddts := (tm_ddts s)(a \<mapsto> t)\<rparr>"

text \<open>\<open>Integrate_to_DN_Service_Request\<close> gets the datanode tag where it expects a payload tag:
  its first two fields, \<open>dnrid\<close> and \<open>dn_node_index\<close>, are taken for \<open>lr\<close> and \<open>dn_index\<close>.\<close>

definition integrate_tag :: "tag_env \<Rightarrow> dnt \<Rightarrow> (int \<times> dn_sreq) option" where
  "integrate_tag e t = do {
     lr \<leftarrow> te_lr_at e (dt_dnrid (dg_tag t));
     if dg_node_index t < 0 then None else Integrate_to_DN_Service_Request (dt_sreq (dg_tag t)) lr (nat (dg_node_index t)) }"

definition Add_to_Datanode_Tags :: "tag_env \<Rightarrow> located_request \<Rightarrow> int \<Rightarrow> tagmem \<Rightarrow> (int \<times> tagmem) option" where
  "Add_to_Datanode_Tags e lr dn_index s =
     (if 0 \<le> dn_index \<and> nat dn_index < length (lr_dn_locs lr) then do {
        (ddt, s) \<leftarrow> Get_Datanode_Tag e (lr_dn_locs lr ! nat dn_index) s;
        (case ddt of
           None \<Rightarrow> Some (- DMS_FAIL, s)
         | Some a \<Rightarrow> do {
             (dpt, s) \<leftarrow> new_payload_tag lr dn_index s;
             t \<leftarrow> tm_ddts s a;
             let (retcode, tags) = (case dpt of None \<Rightarrow> (- DMS_FAIL, dg_payload_tags t)
               | Some (p, _) \<Rightarrow> Insert_User_Data_to_DList_Tail p (dg_payload_tags t) p);
             let t = t\<lparr>dg_payload_tags := tags\<rparr>;
             (case dpt of
                Some (p, _) \<Rightarrow>
                  if retcode < 0 then do {
                    mp \<leftarrow> Release_DMS_Payload_Tag p (tm_mp s);
                    Some (- DMS_FAIL, put_tag a t (s\<lparr>tm_mp := mp, tm_dpts := (tm_dpts s)(p := None)\<rparr>)) }
                  else do { (_, sreq) \<leftarrow> integrate_tag e t; Some (retcode, put_tag a (t\<lparr>dg_tag := (dg_tag t)\<lparr>dt_sreq := sreq\<rparr>\<rparr>) s) }
              | None \<Rightarrow> do { (_, sreq) \<leftarrow> integrate_tag e t; Some (retcode, put_tag a (t\<lparr>dg_tag := (dg_tag t)\<lparr>dt_sreq := sreq\<rparr>\<rparr>) s) }) }) }
      else None)"

section \<open>Translation\<close>

definition Commit_Error_to_vIO_Commiter :: "tag_env \<Rightarrow> located_request \<Rightarrow> int \<Rightarrow> tagmem \<Rightarrow> tagmem option" where
  "Commit_Error_to_vIO_Commiter e lr dn_index s = do {
     (dpt, s) \<leftarrow> new_payload_tag lr dn_index s;
     (case dpt of None \<Rightarrow> Some s | Some d \<Rightarrow> te_commit e d s) }"

definition set_lr :: "nat \<Rightarrow> located_request \<Rightarrow> tagmem \<Rightarrow> tagmem" where
  "set_lr i lr s = s\<lparr>tm_lrs := (tm_lrs s)[i := lr]\<rparr>"

definition LR_INVALID :: int where "LR_INVALID = 0"

definition Translate_Read_Located_Request_to_DN_Tags :: "tag_env \<Rightarrow> nat \<Rightarrow> tagmem \<Rightarrow> (int \<times> tagmem) option" where
  "Translate_Read_Located_Request_to_DN_Tags e i s =
     (if i < length (tm_lrs s) then do {
        let lr = tm_lrs s ! i;
        dn_index \<leftarrow> te_read_policy e lr (lr_nr_dn_locs lr);
        if IS_IN_RANGE dn_index 0 (0 + lr_nr_dn_locs lr - 1) then do {
          (retcode, s) \<leftarrow> Add_to_Datanode_Tags e lr dn_index s;
          if retcode < 0 then do { s \<leftarrow> Commit_Error_to_vIO_Commiter e lr dn_index s; Some (retcode, s) }
          else Some (retcode, s) }
        else Some (- EDN_EDNS, set_lr i (lr\<lparr>lr_state := LR_INVALID\<rparr>) s) }
      else None)"

text \<open>The first block of the located request, looked up from the one found last.\<close>

definition record_pdata :: "tag_env \<Rightarrow> nat \<Rightarrow> nat option \<Rightarrow> tagmem \<Rightarrow> (nat option \<times> tagmem) option" where
  "record_pdata e i pdata s =
     (if i < length (tm_lrs s) then
        let pdata = map_option fst (Get_LBMD_from_Node_by_LBID (te_lbs e) pdata (lr_slbid (tm_lrs s ! i)))
        in Some (pdata, s\<lparr>tm_pdata := (tm_pdata s)[i := pdata]\<rparr>)
      else None)"

fun read_tags_loop :: "tag_env \<Rightarrow> nat list \<Rightarrow> nat option \<Rightarrow> int \<Rightarrow> tagmem \<Rightarrow> (int \<times> tagmem) option" where
  "read_tags_loop e [] pdata retcode s = Some (retcode, s)"
| "read_tags_loop e (i # is) pdata retcode s = do {
     (retcode, s) \<leftarrow> Translate_Read_Located_Request_to_DN_Tags e i s;
     (pdata, s) \<leftarrow> record_pdata e i pdata s;
     read_tags_loop e is pdata retcode s }"

definition Translate_Read_Located_Requests_to_DN_Tags :: "tag_env \<Rightarrow> nat \<Rightarrow> tagmem \<Rightarrow> (int \<times> tagmem) option" where
  "Translate_Read_Located_Requests_to_DN_Tags e nr_lrs s = read_tags_loop e [0..<nr_lrs] None (- DMS_FAIL) s"

fun add_locs_loop :: "tag_env \<Rightarrow> located_request \<Rightarrow> int list \<Rightarrow> tagmem \<Rightarrow> tagmem option" where
  "add_locs_loop e lr [] s = Some s"
| "add_locs_loop e lr (dn_index # js) s = do {
     (retcode, s) \<leftarrow> Add_to_Datanode_Tags e lr dn_index s;
     s \<leftarrow> (if retcode < 0 then Commit_Error_to_vIO_Commiter e lr dn_index s else Some s);
     add_locs_loop e lr js s }"

fun write_tags_loop :: "tag_env \<Rightarrow> nat list \<Rightarrow> nat option \<Rightarrow> tagmem \<Rightarrow> tagmem option" where
  "write_tags_loop e [] pdata s = Some s"
| "write_tags_loop e (i # is) pdata s =
     (if i < length (tm_lrs s) then do {
        let lr = tm_lrs s ! i;
        s \<leftarrow> add_locs_loop e lr [0..lr_nr_dn_locs lr - 1] s;
        (pdata, s) \<leftarrow> record_pdata e i pdata s;
        write_tags_loop e is pdata s }
      else None)"

definition Translate_Write_Located_Requests_to_DN_Tags :: "tag_env \<Rightarrow> nat \<Rightarrow> tagmem \<Rightarrow> (int \<times> tagmem) option" where
  "Translate_Write_Located_Requests_to_DN_Tags e nr_lrs s = do {
     s \<leftarrow> write_tags_loop e [0..<nr_lrs] None s;
     Some (DMS_OK, s) }"

definition Generate_All_DN_Tags :: "tag_env \<Rightarrow> int \<Rightarrow> nat \<Rightarrow> tagmem \<Rightarrow> (int \<times> tagmem) option" where
  "Generate_All_DN_Tags e op nr_lrs s =
     (if op = DMS_OP_READ then Translate_Read_Located_Requests_to_DN_Tags e nr_lrs s
      else if op = DMS_OP_WRITE \<or> op = DMS_OP_OVERWRITE then Translate_Write_Located_Requests_to_DN_Tags e nr_lrs s
      else Some (- DMS_FAIL, s))"

section \<open>Sending\<close>

definition Get_DN_Node_Index :: "net \<Rightarrow> u32 \<times> u16 \<Rightarrow> dncs \<Rightarrow> (int \<times> dncs) option" where
  "Get_DN_Node_Index na ssk net = do {
     node_index \<leftarrow> Get_Node_Index_by_SSocket (sint (fst ssk), snd ssk) net;
     if node_index = - DMS_FAIL then Build_DMS_Node_Container na (sint (fst ssk)) (snd ssk) True net
     else Some (node_index, net) }"

record sender =
  sd_net :: dncs
  sd_header :: dms_header            \<comment> \<open>the header that all requests share\<close>
  sd_gen :: u64
  sd_x :: xfer                       \<comment> \<open>the answers of the connection and the calls made\<close>

text \<open>\<open>dpts\<close> are the payload tags of the tag: a located request and its \<open>private_data\<close>.  The
  node index goes into the tag.\<close>

definition Send_Request_to_Datanode ::
    "net \<Rightarrow> bool \<Rightarrow> (nat option \<Rightarrow> u16 \<Rightarrow> int) \<Rightarrow> int \<Rightarrow> lb_list \<Rightarrow> (located_request \<times> nat option) list \<Rightarrow> dnt \<Rightarrow> sender \<Rightarrow> (int \<times> dnt \<times> sender) option" where
  "Send_Request_to_Datanode na dbg bv_len op l dpts t d = do {
     (node_index, net) \<leftarrow> Get_DN_Node_Index na (dg_ssk t) (sd_net d);
     let t = t\<lparr>dg_node_index := node_index\<rparr>;
     (retcode, x) \<leftarrow> xmit (Send_Header SIZEOF_HEADER MSG_MORE) (sd_x d);
     if retcode < 0 then Some (retcode, t, d\<lparr>sd_net := net, sd_x := x\<rparr>)
     else do {
       let msg_flag = (if op \<noteq> 0 then MSG_MORE else 0);
       (retcode, x) \<leftarrow> xmit (Send_Body (sint (h_length (sd_header d))) msg_flag) x;
       if retcode < 0 then Some (retcode, t, d\<lparr>sd_net := net, sd_x := x\<rparr>)
       else if op \<noteq> 0 then do {
         (retcode, x) \<leftarrow> Xmit_Payload_by_Datanode_Tag dbg bv_len op l dpts 0 x;
         Some (retcode, t, d\<lparr>sd_net := net, sd_x := x\<rparr>) }
       else Some (retcode, t, d\<lparr>sd_net := net, sd_x := x\<rparr>) } }"

text \<open>The payload tags of a tag; the located request of a payload tag is looked up for its
  \<open>private_data\<close>.\<close>

definition dpts_of :: "tagmem \<Rightarrow> dnt \<Rightarrow> (located_request \<times> nat option) list option" where
  "dpts_of s t =
     (if \<forall>p \<in> set (dl_elems (dg_payload_tags t)). tm_dpts s p \<noteq> None
      then Some (map (\<lambda>p. let lr = pt_lr (the (tm_dpts s p)) in
        (lr, case find (\<lambda>i. tm_lrs s ! i = lr) [0..<length (tm_lrs s)] of None \<Rightarrow> None | Some i \<Rightarrow> tm_pdata s ! i))
        (dl_elems (dg_payload_tags t)))
      else None)"

text \<open>The loop over the tags with the iterator, which meets every tag once in order as the loop
  does not change the list.  \<open>p\<close> is the address of the metadata.\<close>

fun send_loop :: "tag_env \<Rightarrow> net \<Rightarrow> bool \<Rightarrow> (nat option \<Rightarrow> u16 \<Rightarrow> int) \<Rightarrow> u64 \<Rightarrow> u64 \<Rightarrow> int \<Rightarrow> nat list \<Rightarrow> sender \<Rightarrow> tagmem \<Rightarrow>
    (int \<times> sender \<times> tagmem) option" where
  "send_loop e na dbg bv_len now p op [] d s = Some (DMS_OK, d, s)"
| "send_loop e na dbg bv_len now p op (a # as) d s = do {
     t \<leftarrow> tm_ddts s a;
     (retcode, header, body, tag, gen) \<leftarrow> Generate_Request_of_Datanode now p op (dg_tag t) (sd_header d) (sd_gen d);
     let t = t\<lparr>dg_tag := tag\<rparr>;
     let d = d\<lparr>sd_header := header, sd_gen := gen\<rparr>;
     if retcode \<noteq> 0 then do {
       dpts \<leftarrow> dpts_of s t;
       (retcode, t, d) \<leftarrow> Send_Request_to_Datanode na dbg bv_len op (te_lbs e) dpts t d;
       s \<leftarrow> (if retcode < 0 then te_commit_tag e a (put_tag a t s) else Some (put_tag a t s));
       send_loop e na dbg bv_len now p op as d s }
     else Some (- DMS_FAIL, d, put_tag a t s) }"

definition Make_and_Send_Datanode_Requests :: "tag_env \<Rightarrow> net \<Rightarrow> bool \<Rightarrow> (nat option \<Rightarrow> u16 \<Rightarrow> int) \<Rightarrow> u64 \<Rightarrow> u64 \<Rightarrow> int \<Rightarrow> sender \<Rightarrow> tagmem \<Rightarrow>
    (int \<times> sender \<times> tagmem) option" where
  "Make_and_Send_Datanode_Requests e na dbg bv_len now p op d s = send_loop e na dbg bv_len now p op (dl_elems (tm_tags s)) d s"

text \<open>The results of both steps are dropped.\<close>

definition Payload_Handler :: "tag_env \<Rightarrow> net \<Rightarrow> bool \<Rightarrow> (nat option \<Rightarrow> u16 \<Rightarrow> int) \<Rightarrow> u64 \<Rightarrow> u64 \<Rightarrow> int \<Rightarrow> nat \<Rightarrow> sender \<Rightarrow> tagmem \<Rightarrow>
    (int \<times> sender \<times> tagmem) option" where
  "Payload_Handler e na dbg bv_len now p op nr_lrs d s = do {
     (retcode, s) \<leftarrow> Generate_All_DN_Tags e op nr_lrs s;
     (retcode, d, s) \<leftarrow> Make_and_Send_Datanode_Requests e na dbg bv_len now p op d s;
     Some (DMS_OK, d, s) }"

text \<open>A tag is put back for a later acknowledgement, or removed with its payload tags.\<close>

definition Put_Datanode_Tag_to_Datanode_Tags :: "nat \<Rightarrow> tagmem \<Rightarrow> int \<times> tagmem" where
  "Put_Datanode_Tag_to_Datanode_Tags a s =
     (case Insert_User_Data_to_DList_Tail a (tm_tags s) a of (retcode, tags) \<Rightarrow> (retcode, s\<lparr>tm_tags := tags\<rparr>))"

fun release_dpts :: "nat list \<Rightarrow> tagmem \<Rightarrow> tagmem option" where
  "release_dpts [] s = Some s"
| "release_dpts (p # ps) s = do {
     mp \<leftarrow> Release_DMS_Payload_Tag p (tm_mp s);
     release_dpts ps (s\<lparr>tm_mp := mp, tm_dpts := (tm_dpts s)(p := None)\<rparr>) }"

definition Remove_DMS_Datanode_Tag :: "nat \<Rightarrow> tagmem \<Rightarrow> tagmem option" where
  "Remove_DMS_Datanode_Tag a s = do {
     t \<leftarrow> tm_ddts s a;
     (case Release_All_User_Data (dg_payload_tags t) of
        (ps, tags) \<Rightarrow> do {
          s \<leftarrow> release_dpts ps (put_tag a (t\<lparr>dg_payload_tags := tags\<rparr>) s);
          Release_DMS_Datanode_Tag a s }) }"

section \<open>Every tag is released while it is in the list\<close>

text \<open>The stale list: its tags are not in the store.\<close>

definition stale :: "tagmem \<Rightarrow> nat list \<Rightarrow> bool" where
  "stale s as \<longleftrightarrow> dl_elems (tm_tags s) = as \<and> (\<forall>a \<in> set as. tm_ddts s a = None)"

lemma get_tag_first:
  assumes "pools_ok mn sizeof base outs (tm_mp s)" and "stale s []"
  shows "\<exists>a s'. Get_Datanode_Tag e loc s = Some (None, s') \<and> stale s' [a] \<and> pools_ok mn sizeof base outs (tm_mp s') \<and>
    tm_lrs s' = tm_lrs s"
proof -
  obtain a mp where a: "Malloc_DMS_Datanode_Tag (tm_mp s) = Some (a, mp)" "pools_ok mn sizeof base (outs(DNTAG := a # outs DNTAG)) mp"
    using malloc_of_ok [OF assms(1), of DNTAG] by auto
  obtain mp' where b: "Free_DMS_Datanode_Tag a mp = Some mp'" "pools_ok mn sizeof base outs mp'"
    using free_of_ok(1) [OF a(2), of a DNTAG] by auto
  have "dl_nodes (tm_tags s) = []" using assms(2) by (simp add: stale_def dl_elems_def)
  then show ?thesis using a(1) b
    by (simp add: Get_Datanode_Tag_def Create_DMS_Datanode_Tag_def Init_DMS_Datanode_Tag_def Release_DMS_Datanode_Tag_def
        Insert_User_Data_to_DList_Tail_def Insert_User_Data_to_DList_def Check_Duplicate_def Create_DLNode_def DL_ADD_TAIL_def
        DL_ADD_HEAD_def ret_defs stale_def dl_elems_def)
qed

lemma get_tag_later: "stale s (a # as) \<Longrightarrow> Get_Datanode_Tag e loc s = None"
  by (simp add: Get_Datanode_Tag_def stale_def)

lemma payload_tag_none:
  assumes "pools_ok mn sizeof base outs (tm_mp s)"
  shows "\<exists>mp. new_payload_tag lr index s = Some (None, s\<lparr>tm_mp := mp\<rparr>) \<and> pools_ok mn sizeof base outs mp"
  using payload_tag_never_created [OF assms, of lr index] by (auto simp: new_payload_tag_def)

lemma commit_error_ok:
  assumes "pools_ok mn sizeof base outs (tm_mp s)"
  shows "\<exists>mp. Commit_Error_to_vIO_Commiter e lr index s = Some (s\<lparr>tm_mp := mp\<rparr>) \<and> pools_ok mn sizeof base outs mp"
  using payload_tag_none [OF assms, of lr index] by (auto simp: Commit_Error_to_vIO_Commiter_def)

text \<open>Before a step \<open>k\<close> tags have been asked for, and the step asks for \<open>n\<close> more: with more than
  one in all it faults.\<close>

definition asks :: "(tagmem \<Rightarrow> bool) \<Rightarrow> nat \<Rightarrow> (tagmem \<Rightarrow> tagmem option) \<Rightarrow> (tagmem \<Rightarrow> bool) \<Rightarrow> bool" where
  "asks P n f P' \<longleftrightarrow> (\<forall>s as. P s \<longrightarrow> stale s as \<longrightarrow> length as \<le> 1 \<longrightarrow>
     (if length as + n \<le> 1 then \<exists>s' as'. f s = Some s' \<and> P' s' \<and> stale s' as' \<and> length as' = length as + n else f s = None))"

lemma asksD:
  assumes "asks P n f P'" and "P s" "stale s as" "length as \<le> 1"
  shows "length as + n \<le> 1 \<Longrightarrow> \<exists>s' as'. f s = Some s' \<and> P' s' \<and> stale s' as' \<and> length as' = length as + n"
    and "1 < length as + n \<Longrightarrow> f s = None"
  using assms(1) [unfolded asks_def, rule_format, OF assms(2-4)] by (simp_all split: if_splits)

lemma asks_seq:
  assumes "asks P m f P'" and "asks P' n g P''"
  shows "asks P (m + n) (\<lambda>s. Option.bind (f s) g) P''"
  unfolding asks_def
proof (intro allI impI)
  fix s as
  assume s: "P s" "stale s as" "length as \<le> 1"
  show "if length as + (m + n) \<le> 1
    then \<exists>s' as'. Option.bind (f s) g = Some s' \<and> P'' s' \<and> stale s' as' \<and> length as' = length as + (m + n)
    else Option.bind (f s) g = None"
  proof (cases "length as + m \<le> 1")
    case True
    then obtain s1 as1 where 1: "f s = Some s1" "P' s1" "stale s1 as1" "length as1 = length as + m"
      using asksD(1) [OF assms(1) s] by auto
    then show ?thesis using asksD [OF assms(2) 1(2,3)] True by (cases "length as1 + n \<le> 1") (auto simp: add.assoc)
  next
    case False
    then show ?thesis using asksD(2) [OF assms(1) s] by simp
  qed
qed

lemma asks_keep:
  "(\<And>s. P s \<Longrightarrow> \<exists>s'. f s = Some s' \<and> P' s' \<and> tm_tags s' = tm_tags s \<and> tm_ddts s' = tm_ddts s) \<Longrightarrow> asks P 0 f P'"
  by (fastforce simp: asks_def stale_def)

lemma asks_cong:
  assumes "asks P n g P'" and "\<And>s. P s \<Longrightarrow> f s = g s"
  shows "asks P n f P'"
  unfolding asks_def
proof (intro allI impI)
  fix s as
  assume s: "P s" "stale s as" "length as \<le> 1"
  show "if length as + n \<le> 1 then \<exists>s' as'. f s = Some s' \<and> P' s' \<and> stale s' as' \<and> length as' = length as + n else f s = None"
    using assms(1) [unfolded asks_def, rule_format, OF s] by (simp only: assms(2) [OF s(1)])
qed

text \<open>The pools are in order, and the located requests from \<open>i\<close> on are those of \<open>lrs\<close>.\<close>

definition in_state :: "nat \<Rightarrow> (dmp_obj \<Rightarrow> nat) \<Rightarrow> kmem \<Rightarrow> (dmp_obj \<Rightarrow> nat list) \<Rightarrow> located_request list \<Rightarrow> nat \<Rightarrow> tagmem \<Rightarrow> bool" where
  "in_state mn sizeof base outs lrs i s \<longleftrightarrow> pools_ok mn sizeof base outs (tm_mp s) \<and> length (tm_lrs s) = length lrs \<and>
     drop i (tm_lrs s) = drop i lrs"

lemma in_state_nth: "in_state mn sizeof base outs lrs i s \<Longrightarrow> i < length lrs \<Longrightarrow> tm_lrs s ! i = lrs ! i"
  by (metis in_state_def Cons_nth_drop_Suc list.inject)

lemma in_state_Suc: "in_state mn sizeof base outs lrs i s \<Longrightarrow> in_state mn sizeof base outs lrs (Suc i) s"
  by (metis in_state_def drop_Suc drop_drop plus_1_eq_Suc)

lemma asks_add:
  assumes "0 \<le> j" and "nat j < length (lr_dn_locs lr)"
  shows "asks (in_state mn sizeof base outs lrs i) 1 (\<lambda>s. Option.bind (Add_to_Datanode_Tags e lr j s)
    (\<lambda>(retcode, s). if retcode < 0 then Commit_Error_to_vIO_Commiter e lr j s else Some s)) (in_state mn sizeof base outs lrs i)"
  unfolding asks_def
proof (intro allI impI)
  fix s as
  let ?f = "\<lambda>s. Option.bind (Add_to_Datanode_Tags e lr j s)
    (\<lambda>(retcode, s). if retcode < 0 then Commit_Error_to_vIO_Commiter e lr j s else Some s)"
  assume s: "in_state mn sizeof base outs lrs i s" "stale s as" "length as \<le> 1"
  show "if length as + 1 \<le> 1 then \<exists>s' as'. ?f s = Some s' \<and> in_state mn sizeof base outs lrs i s' \<and> stale s' as' \<and> length as' = length as + 1
    else ?f s = None"
  proof (cases as)
    case Nil
    obtain a s1 where 1: "Get_Datanode_Tag e (lr_dn_locs lr ! nat j) s = Some (None, s1)" "stale s1 [a]"
      "pools_ok mn sizeof base outs (tm_mp s1)" "tm_lrs s1 = tm_lrs s"
      using get_tag_first s(1,2) Nil unfolding in_state_def by blast
    obtain mp where "Commit_Error_to_vIO_Commiter e lr j s1 = Some (s1\<lparr>tm_mp := mp\<rparr>)" "pools_ok mn sizeof base outs mp"
      using commit_error_ok [OF 1(3)] by blast
    moreover have "Add_to_Datanode_Tags e lr j s = Some (- DMS_FAIL, s1)" using 1(1) assms by (simp add: Add_to_Datanode_Tags_def)
    ultimately show ?thesis using 1(2,4) s(1) Nil
      by (auto simp: ret_defs in_state_def stale_def)
  next
    case (Cons a bs)
    then show ?thesis using get_tag_later s(2) assms by (simp add: Add_to_Datanode_Tags_def)
  qed
qed

lemma asks_locs:
  "\<forall>j \<in> set js. 0 \<le> j \<and> nat j < length (lr_dn_locs lr) \<Longrightarrow>
   asks (in_state mn sizeof base outs lrs i) (length js) (add_locs_loop e lr js) (in_state mn sizeof base outs lrs i)"
proof (induction js)
  case Nil
  show ?case by (simp add: asks_keep)
next
  case (Cons j js)
  have "asks (in_state mn sizeof base outs lrs i) (1 + length js)
    (\<lambda>s. Option.bind (Option.bind (Add_to_Datanode_Tags e lr j s)
      (\<lambda>(retcode, s). if retcode < 0 then Commit_Error_to_vIO_Commiter e lr j s else Some s)) (add_locs_loop e lr js))
    (in_state mn sizeof base outs lrs i)"
    by (rule asks_seq [OF asks_add Cons.IH]) (use Cons.prems in simp_all)
  then have "asks (in_state mn sizeof base outs lrs i) (length (j # js))
    (\<lambda>s. Option.bind (Option.bind (Add_to_Datanode_Tags e lr j s)
      (\<lambda>(retcode, s). if retcode < 0 then Commit_Error_to_vIO_Commiter e lr j s else Some s)) (add_locs_loop e lr js))
    (in_state mn sizeof base outs lrs i)" by simp
  then show ?case
  proof (rule asks_cong)
    fix s
    show "add_locs_loop e lr (j # js) s = Option.bind (Option.bind (Add_to_Datanode_Tags e lr j s)
      (\<lambda>(retcode, s). if retcode < 0 then Commit_Error_to_vIO_Commiter e lr j s else Some s)) (add_locs_loop e lr js)"
      by (cases "Add_to_Datanode_Tags e lr j s") auto
  qed
qed

lemma asks_pdata:
  assumes "\<And>pdata. asks (in_state mn sizeof base outs lrs (Suc i)) n (g pdata) P'" and "i < length lrs"
  shows "asks (in_state mn sizeof base outs lrs (Suc i)) n (\<lambda>s. Option.bind (record_pdata e i pdata s) (\<lambda>(pdata, s). g pdata s)) P'"
  unfolding asks_def
proof (intro allI impI)
  fix s as
  assume s: "in_state mn sizeof base outs lrs (Suc i) s" "stale s as" "length as \<le> 1"
  obtain pd where r: "record_pdata e i pdata s = Some (pd, s\<lparr>tm_pdata := (tm_pdata s)[i := pd]\<rparr>)"
    using s(1) assms(2) by (simp add: record_pdata_def in_state_def Let_def)
  let ?s = "s\<lparr>tm_pdata := (tm_pdata s)[i := pd]\<rparr>"
  have "in_state mn sizeof base outs lrs (Suc i) ?s" "stale ?s as" using s by (simp_all add: in_state_def stale_def)
  from assms(1) [of pd, unfolded asks_def, rule_format, OF this s(3)]
  show "if length as + n \<le> 1 then \<exists>s' as'. Option.bind (record_pdata e i pdata s) (\<lambda>(pdata, s). g pdata s) = Some s' \<and> P' s' \<and>
      stale s' as' \<and> length as' = length as + n
    else Option.bind (record_pdata e i pdata s) (\<lambda>(pdata, s). g pdata s) = None"
    by (simp only: r bind.bind_lunit prod.case)
qed

text \<open>The number of tags that a located request asks for in a write.\<close>

lemma asks_writes:
  assumes "\<forall>lr \<in> set lrs. lr_nr_dn_locs lr = int (length (lr_dn_locs lr))"
  shows "i \<le> length lrs \<Longrightarrow> asks (in_state mn sizeof base outs lrs i) (\<Sum>lr \<leftarrow> drop i lrs. length (lr_dn_locs lr))
    (write_tags_loop e [i..<length lrs] pdata) (in_state mn sizeof base outs lrs (length lrs))"
proof (induction "length lrs - i" arbitrary: i pdata)
  case 0
  then show ?case by (auto intro: asks_keep)
next
  case (Suc n)
  then have i: "i < length lrs" by simp
  let ?P = "in_state mn sizeof base outs lrs" and ?lr = "lrs ! i"
  let ?n = "\<Sum>lr \<leftarrow> drop (Suc i) lrs. length (lr_dn_locs lr)"
  have l: "lr_nr_dn_locs ?lr = int (length (lr_dn_locs ?lr))" using assms i by simp
  have "asks (?P i) (length [0..lr_nr_dn_locs ?lr - 1]) (add_locs_loop e ?lr [0..lr_nr_dn_locs ?lr - 1]) (?P i)"
    by (rule asks_locs) (auto simp: l)
  moreover have "asks (?P i) (0 + ?n) (\<lambda>s. Option.bind (Some s)
      (\<lambda>s. Option.bind (record_pdata e i pdata s) (\<lambda>(pdata, s). write_tags_loop e [Suc i..<length lrs] pdata s)))
    (?P (length lrs))"
  proof (rule asks_seq)
    show "asks (?P i) 0 Some (?P (Suc i))" by (rule asks_keep) (use in_state_Suc in auto)
    show "asks (?P (Suc i)) ?n (\<lambda>s. Option.bind (record_pdata e i pdata s) (\<lambda>(pdata, s). write_tags_loop e [Suc i..<length lrs] pdata s))
      (?P (length lrs))"
      by (rule asks_pdata [OF Suc.hyps(1) i]) (use Suc.hyps(2) i in auto)
  qed
  ultimately have "asks (?P i) (length (lr_dn_locs ?lr) + ?n) (\<lambda>s. Option.bind (add_locs_loop e ?lr [0..lr_nr_dn_locs ?lr - 1] s)
      (\<lambda>s. Option.bind (record_pdata e i pdata s) (\<lambda>(pdata, s). write_tags_loop e [Suc i..<length lrs] pdata s)))
    (?P (length lrs))"
    using asks_seq by (fastforce simp: l)
  moreover have "length (lr_dn_locs ?lr) + ?n = (\<Sum>lr \<leftarrow> drop i lrs. length (lr_dn_locs lr))"
    by (simp flip: Cons_nth_drop_Suc [OF i])
  ultimately show ?case
  proof (simp only:, elim asks_cong)
    fix s
    assume s: "?P i s"
    then have "i < length (tm_lrs s)" using i by (simp add: in_state_def)
    then show "write_tags_loop e [i..<length lrs] pdata s = Option.bind (add_locs_loop e ?lr [0..lr_nr_dn_locs ?lr - 1] s)
      (\<lambda>s. Option.bind (record_pdata e i pdata s) (\<lambda>(pdata, s). write_tags_loop e [Suc i..<length lrs] pdata s))"
      using i by (simp add: upt_conv_Cons in_state_nth [OF s i] Let_def)
  qed
qed

lemma asks_val:
  assumes "asks P m (\<lambda>s. map_option snd (h s)) P'" and "\<And>v. asks P' n (g v) P''"
  shows "asks P (m + n) (\<lambda>s. Option.bind (h s) (\<lambda>(v, s). g v s)) P''"
  unfolding asks_def
proof (intro allI impI)
  fix s as
  assume s: "P s" "stale s as" "length as \<le> 1"
  show "if length as + (m + n) \<le> 1
    then \<exists>s' as'. Option.bind (h s) (\<lambda>(v, s). g v s) = Some s' \<and> P'' s' \<and> stale s' as' \<and> length as' = length as + (m + n)
    else Option.bind (h s) (\<lambda>(v, s). g v s) = None"
  proof (cases "length as + m \<le> 1")
    case True
    then obtain v s1 as1 where 1: "h s = Some (v, s1)" "P' s1" "stale s1 as1" "length as1 = length as + m"
      using asksD(1) [OF assms(1) s] by auto
    then show ?thesis using asksD [OF assms(2) [of v] 1(2,3)] True by (cases "length as1 + n \<le> 1") (auto simp: add.assoc)
  next
    case False
    then show ?thesis using asksD(2) [OF assms(1) s] by simp
  qed
qed

definition read_serves :: "tag_env \<Rightarrow> located_request \<Rightarrow> bool" where
  "read_serves e lr \<longleftrightarrow> (case te_read_policy e lr (lr_nr_dn_locs lr) of None \<Rightarrow> False | Some j \<Rightarrow> IS_IN_RANGE j 0 (lr_nr_dn_locs lr - 1))"

lemma asks_read_one:
  assumes "i < length lrs" and "lr_nr_dn_locs (lrs ! i) = int (length (lr_dn_locs (lrs ! i)))"
    and "te_read_policy e (lrs ! i) (lr_nr_dn_locs (lrs ! i)) \<noteq> None"
  shows "asks (in_state mn sizeof base outs lrs i) (if read_serves e (lrs ! i) then 1 else 0)
    (\<lambda>s. map_option snd (Translate_Read_Located_Request_to_DN_Tags e i s)) (in_state mn sizeof base outs lrs (Suc i))"
proof -
  let ?lr = "lrs ! i" and ?P = "in_state mn sizeof base outs lrs"
  obtain j where j: "te_read_policy e ?lr (lr_nr_dn_locs ?lr) = Some j" using assms(3) by auto
  have st: "i < length (tm_lrs s)" "tm_lrs s ! i = ?lr" if "?P i s" for s
    using that assms(1) in_state_nth [OF that assms(1)] by (simp_all add: in_state_def)
  show ?thesis
  proof (cases "IS_IN_RANGE j 0 (lr_nr_dn_locs ?lr - 1)")
    case True
    have a: "asks (?P i) (1 + 0) (\<lambda>s. Option.bind (Option.bind (Add_to_Datanode_Tags e ?lr j s)
      (\<lambda>(retcode, s). if retcode < 0 then Commit_Error_to_vIO_Commiter e ?lr j s else Some s)) Some) (?P (Suc i))"
    proof (rule asks_seq)
      show "asks (?P i) 1 (\<lambda>s. Option.bind (Add_to_Datanode_Tags e ?lr j s)
        (\<lambda>(retcode, s). if retcode < 0 then Commit_Error_to_vIO_Commiter e ?lr j s else Some s)) (?P i)"
        by (rule asks_add) (use True assms(2) in \<open>auto simp: IS_IN_RANGE_def\<close>)
      show "asks (?P i) 0 Some (?P (Suc i))" by (rule asks_keep) (use in_state_Suc in auto)
    qed
    have r: "(if read_serves e ?lr then 1 else 0) = 1 + (0::nat)" using True j by (simp add: read_serves_def)
    show ?thesis unfolding r
    proof (rule asks_cong [OF a])
      fix s
      assume s: "?P i s"
      show "map_option snd (Translate_Read_Located_Request_to_DN_Tags e i s) = Option.bind (Option.bind (Add_to_Datanode_Tags e ?lr j s)
        (\<lambda>(retcode, s). if retcode < 0 then Commit_Error_to_vIO_Commiter e ?lr j s else Some s)) Some"
        using True j st [OF s]
        by (cases "Add_to_Datanode_Tags e ?lr j s")
          (auto simp: Translate_Read_Located_Request_to_DN_Tags_def Let_def map_option_bind comp_def split: Option.bind_split)
    qed
  next
    case False
    have r: "(if read_serves e ?lr then 1 else 0) = (0::nat)" using False j by (simp add: read_serves_def)
    show ?thesis unfolding r
    proof (rule asks_keep)
      fix s
      assume s: "?P i s"
      have "?P (Suc i) (set_lr i (?lr\<lparr>lr_state := LR_INVALID\<rparr>) s)"
        using in_state_Suc [OF s] by (simp add: in_state_def set_lr_def)
      then show "\<exists>s'. map_option snd (Translate_Read_Located_Request_to_DN_Tags e i s) = Some s' \<and> ?P (Suc i) s' \<and>
          tm_tags s' = tm_tags s \<and> tm_ddts s' = tm_ddts s"
        using False j st [OF s] by (simp add: Translate_Read_Located_Request_to_DN_Tags_def Let_def set_lr_def)
    qed
  qed
qed

lemma asks_reads:
  assumes "\<forall>lr \<in> set lrs. lr_nr_dn_locs lr = int (length (lr_dn_locs lr)) \<and> te_read_policy e lr (lr_nr_dn_locs lr) \<noteq> None"
  shows "i \<le> length lrs \<Longrightarrow> asks (in_state mn sizeof base outs lrs i) (\<Sum>lr \<leftarrow> drop i lrs. if read_serves e lr then 1 else 0)
    (\<lambda>s. map_option snd (read_tags_loop e [i..<length lrs] pdata rc s)) (in_state mn sizeof base outs lrs (length lrs))"
proof (induction "length lrs - i" arbitrary: i pdata rc)
  case 0
  then show ?case by (auto intro: asks_keep)
next
  case (Suc n)
  then have i: "i < length lrs" by simp
  let ?P = "in_state mn sizeof base outs lrs" and ?lr = "lrs ! i"
  let ?n = "\<Sum>lr \<leftarrow> drop (Suc i) lrs. if read_serves e lr then 1 else 0"
  have one: "asks (?P i) (if read_serves e ?lr then 1 else 0) (\<lambda>s. map_option snd (Translate_Read_Located_Request_to_DN_Tags e i s)) (?P (Suc i))"
    using assms [rule_format, OF nth_mem [OF i]] by (elim conjE) (rule asks_read_one [OF i])
  have rest: "asks (?P (Suc i)) ?n (\<lambda>s. Option.bind (record_pdata e i pdata s)
    (\<lambda>(pdata, s). map_option snd (read_tags_loop e [Suc i..<length lrs] pdata rc s))) (?P (length lrs))" for rc
    by (rule asks_pdata [OF Suc.hyps(1) i]) (use Suc.hyps(2) i in auto)
  have eq: "(if read_serves e ?lr then 1 else 0) + ?n = (\<Sum>lr \<leftarrow> drop i lrs. if read_serves e lr then 1 else 0)"
    by (simp flip: Cons_nth_drop_Suc [OF i])
  show ?case
  proof (rule asks_cong [OF asks_val [OF one rest, unfolded eq]])
    fix s
    show "map_option snd (read_tags_loop e [i..<length lrs] pdata rc s) =
      Option.bind (Translate_Read_Located_Request_to_DN_Tags e i s) (\<lambda>(rc, s). Option.bind (record_pdata e i pdata s)
        (\<lambda>(pdata, s). map_option snd (read_tags_loop e [Suc i..<length lrs] pdata rc s)))"
      using i by (simp add: upt_conv_Cons map_option_bind case_prod_unfold comp_def)
  qed
qed

section \<open>The handler of payloads\<close>

definition serves :: "tag_env \<Rightarrow> int \<Rightarrow> located_request \<Rightarrow> bool" where
  "serves e op lr \<longleftrightarrow> (if op = DMS_OP_READ then read_serves e lr else lr_dn_locs lr \<noteq> [])"

lemma generate_asks:
  assumes "op \<in> {DMS_OP_READ, DMS_OP_WRITE, DMS_OP_OVERWRITE}"
    and "\<forall>lr \<in> set lrs. lr_nr_dn_locs lr = int (length (lr_dn_locs lr)) \<and> te_read_policy e lr (lr_nr_dn_locs lr) \<noteq> None"
  obtains n where "asks (in_state mn sizeof base outs lrs 0) n (\<lambda>s. map_option snd (Generate_All_DN_Tags e op (length lrs) s))
      (in_state mn sizeof base outs lrs (length lrs))"
    and "n = 0 \<longleftrightarrow> \<not> (\<exists>lr \<in> set lrs. serves e op lr)"
proof (cases "op = DMS_OP_READ")
  case True
  show ?thesis
    by (rule that [OF asks_cong [OF asks_reads [OF assms(2), of 0 mn sizeof base outs None "- DMS_FAIL"]]])
      (auto simp: Generate_All_DN_Tags_def Translate_Read_Located_Requests_to_DN_Tags_def True serves_def)
next
  case False
  have w: "\<forall>lr \<in> set lrs. lr_nr_dn_locs lr = int (length (lr_dn_locs lr))" using assms(2) by blast
  show ?thesis
  proof (rule that [OF asks_cong [OF asks_writes [OF w, of 0 mn sizeof base outs e None]]])
    fix s
    show "map_option snd (Generate_All_DN_Tags e op (length lrs) s) = write_tags_loop e [0..<length lrs] None s"
      using assms(1) False by (cases "write_tags_loop e [0..<length lrs] None s")
        (auto simp: Generate_All_DN_Tags_def Translate_Write_Located_Requests_to_DN_Tags_def)
  qed (use False in \<open>auto simp: serves_def\<close>)
qed

text \<open>The handler uses a tag that it has released as soon as one located request has a datanode
  to serve it; otherwise it sends nothing.\<close>

theorem payload_handler_faults_iff:
  assumes "pools_ok mn sizeof base outs (tm_mp s)" and "dl_elems (tm_tags s) = []" and "nr_lrs = length (tm_lrs s)"
    and "op \<in> {DMS_OP_READ, DMS_OP_WRITE, DMS_OP_OVERWRITE}"
    and "\<forall>lr \<in> set (tm_lrs s). lr_nr_dn_locs lr = int (length (lr_dn_locs lr)) \<and> te_read_policy e lr (lr_nr_dn_locs lr) \<noteq> None"
  shows "if \<exists>lr \<in> set (tm_lrs s). serves e op lr then Payload_Handler e na dbg bv_len now p op nr_lrs d s = None
    else \<exists>s'. Payload_Handler e na dbg bv_len now p op nr_lrs d s = Some (DMS_OK, d, s') \<and> dl_elems (tm_tags s') = []"
proof -
  obtain n where a: "asks (in_state mn sizeof base outs (tm_lrs s) 0) n (\<lambda>s'. map_option snd (Generate_All_DN_Tags e op nr_lrs s'))
      (in_state mn sizeof base outs (tm_lrs s) nr_lrs)" and n: "n = 0 \<longleftrightarrow> \<not> (\<exists>lr \<in> set (tm_lrs s). serves e op lr)"
    using generate_asks [OF assms(4,5), of mn sizeof base outs] assms(3) by metis
  have s: "in_state mn sizeof base outs (tm_lrs s) 0 s" "stale s []" "length ([] :: nat list) \<le> 1"
    using assms(1,2) by (simp_all add: in_state_def stale_def)
  show ?thesis
  proof (cases "n \<le> 1")
    case True
    then obtain r s' as' where g: "Generate_All_DN_Tags e op nr_lrs s = Some (r, s')" "stale s' as'" "length as' = n"
      using asksD(1) [OF a s] by auto
    show ?thesis
    proof (cases "n = 0")
      case True
      then show ?thesis using g n by (simp add: Payload_Handler_def Make_and_Send_Datanode_Requests_def stale_def)
    next
      case False
      then obtain b where "as' = [b]" using g(3) \<open>n \<le> 1\<close> by (cases as') auto
      then show ?thesis using g False n by (simp add: Payload_Handler_def Make_and_Send_Datanode_Requests_def stale_def)
    qed
  next
    case False
    then have "Generate_All_DN_Tags e op nr_lrs s = None" using asksD(2) [OF a s] by simp
    moreover have "\<exists>lr \<in> set (tm_lrs s). serves e op lr" using n False by auto
    ultimately show ?thesis by (simp add: Payload_Handler_def)
  qed
qed

text \<open>The request for a read is the header, announced with more to come, and the body, of the length
  that the header has in the order of the network; the first failure ends it.\<close>

theorem read_request_sent:
  assumes "Get_DN_Node_Index na (dg_ssk t) (sd_net d) = Some (node_index, net)" and "xf_answers (sd_x d) = a # b # as"
  shows "\<exists>r t' d'. Send_Request_to_Datanode na dbg bv_len DMS_OP_READ l dpts t d = Some (r, t', d') \<and>
    xf_calls (sd_x d') = xf_calls (sd_x d) @
      (if a < 0 then [Send_Header SIZEOF_HEADER MSG_MORE]
       else [Send_Header SIZEOF_HEADER MSG_MORE, Send_Body (sint (h_length (sd_header d))) 0]) \<and>
    r = (if a < 0 then a else b) \<and> dg_node_index t' = node_index"
  using assms by (simp add: Send_Request_to_Datanode_def xmit_def op_defs Let_def)

text \<open>The header made for a request has the length of its body in the order of the network, so that
  the body goes out with that length.\<close>

theorem body_length_swapped:
  assumes "Generate_Request_of_Datanode now p op tag header gen = Some (r, header', body, tag', gen')"
    and "Generate_DN_Request_Body (dt_sreq tag) = Some (len, body)" and "0 \<le> len"
  shows "h_length header' = htonl (word_of_int len)"
  using assms by (auto simp: Generate_Request_of_Datanode_def Generate_DN_Protocol_Header_def Generate_DMS_Protocol_Header_def Let_def
      split: prod.splits)

definition env_example :: tag_env where
  "env_example = \<lparr>te_compare = (=), te_copy = id, te_read_policy = Default_Read_Policy 4, te_commit_tag = (\<lambda>_. Some),
     te_commit = (\<lambda>_. Some), te_lr_at = (\<lambda>_. None), te_lbs = \<lparr>lb_nodes = [], lb_next = None\<rparr>\<rparr>"

theorem payload_handler_faults_iff_witness:
  "\<exists>s. Init_DMP_Manager 4 (\<lambda>_. (True, True, True)) (pools_start (\<lambda>_. 64) no_mem) = Some (DMS_OK, s) \<and>
     (\<forall>na d. Payload_Handler env_example na False (\<lambda>_ _. 4096) 0 4096 DMS_OP_READ 1 d
       \<lparr>tm_mp = s, tm_ddts = Map.empty, tm_dpts = Map.empty, tm_tags = \<lparr>dl_nodes = [], dl_next = None\<rparr>, tm_lrs = [lr_ex],
        tm_pdata = [None]\<rparr> = None)"
proof (rule no_mem_init)
  fix s
  assume i: "Init_DMP_Manager 4 (\<lambda>_. (True, True, True)) (pools_start (\<lambda>_. 64) no_mem) = Some (DMS_OK, s)"
    and "pools_ok 4 (\<lambda>_. 64) no_mem (\<lambda>_. []) s"
  let ?s = "\<lparr>tm_mp = s, tm_ddts = Map.empty, tm_dpts = Map.empty, tm_tags = \<lparr>dl_nodes = [], dl_next = None\<rparr>, tm_lrs = [lr_ex], tm_pdata = [None]\<rparr>"
  have p: "te_read_policy env_example lr_ex 1 = Some 0"
    by (simp add: env_example_def Default_Read_Policy_def lr_ex_def lr_zero_def first_unused.simps)
  have "if \<exists>lr \<in> set (tm_lrs ?s). serves env_example DMS_OP_READ lr
    then Payload_Handler env_example na False (\<lambda>_ _. 4096) 0 4096 DMS_OP_READ 1 d ?s = None
    else \<exists>s'. Payload_Handler env_example na False (\<lambda>_ _. 4096) 0 4096 DMS_OP_READ 1 d ?s = Some (DMS_OK, d, s') \<and> dl_elems (tm_tags s') = []" for na d
    by (rule payload_handler_faults_iff) (use \<open>pools_ok 4 (\<lambda>_. 64) no_mem (\<lambda>_. []) s\<close> p in \<open>auto simp: dl_elems_def lr_ex_def lr_zero_def\<close>)
  moreover have "serves env_example DMS_OP_READ lr_ex"
    using p by (simp add: serves_def read_serves_def IS_IN_RANGE_def) (simp add: lr_ex_def lr_zero_def IS_IN_RANGE_def)
  ultimately have "\<forall>na d. Payload_Handler env_example na False (\<lambda>_ _. 4096) 0 4096 DMS_OP_READ 1 d ?s = None" by simp
  with i show ?thesis by blast
qed

end
