(* ===== verification/Spec2Isabelle.thy ===== *)
theory Spec2Isabelle
  imports DList LB_List DIO_Range DIO IO_Commit Volume Volume_Manager Node_Container Sock_Xmit Driver_Module
    Wire Namenode_Protocol Metadata_Manager Commit_Policy Meta_Cache Cache_Safety Daemon_Safety
    Request_Queue Datanode_Request Daemon_Config
    Metadata_Memory Daemon_Start Payload_Transfer Code_Names Socket_Setup
    Cache_Module Disk_Control Datanode_Tags
begin

text \<open>
  A verification of the DMS virtual disk driver, the Linux block driver under
  \<open>src/DriverCore\<close> that turns the requests of a block device into queries to a
  namenode and transfers to datanodes, and of the daemon under \<open>src/UserDaemon\<close> that
  attaches and detaches its volumes.

  \<^bold>\<open>The program.\<close>  The kernel hands a request to \<open>DMS_VDDriver.c\<close>; \<open>DIO.c\<close> and
  \<open>IO_Request.c\<close> split it into DIOs, ranges of 4 KB blocks that are written with one
  operation code, each with the list of its blocks (\<open>LogicalBlockList.c\<close>), and keep
  the DIOs of a request in a general list (\<open>DList.c\<close>).  \<open>Metadata_Manager.c\<close> sends a
  query per DIO to the namenode (\<open>Namenode_Protocol.c\<close>) over a connection
  (\<open>SSocket.c\<close>, \<open>SSockets_Manager.c\<close>), and a receiver thread parses the responses into
  located requests and attaches them to the DIO.  When blocks are done they are
  committed: a block list that becomes empty ends its DIO, a list of DIOs that
  becomes empty ends the request.  Volumes are attached and detached by control
  commands (\<open>Volume.c\<close>, \<open>Volume_Manager.c\<close>, the ioctl of \<open>DMS_VDDriver.c\<close>), which the
  daemon issues for its clients (\<open>Client_Daemon.c\<close>).  Located requests can be kept in a
  cache of metadata (\<open>cache/cache.c\<close> over the radix tree of \<open>cache/radix-tree.c\<close>).  The
  driver's objects come from a table of memory pools (\<open>DMS_Mem_Pool.c\<close>).

  \<^bold>\<open>The theories.\<close>
  \<^item> \<open>DMS_Prelude\<close>: the C integers, return codes, block arithmetic, the iteration loop
    \<open>drain\<close>, lists of addressed nodes, and the interfaces \<open>iter_list\<close> and \<open>work_list\<close>.
  \<^item> \<open>DList\<close> (\<open>DList.c\<close>): the list and its iterator; \<open>dl_elems\<close> and \<open>dl_rest\<close> are the
    abstraction, and the theory interprets \<open>work_list\<close>.
  \<^item> \<open>LB_List\<close> (\<open>LogicalBlockList.c\<close>): the sorted block list; insertion is the insertion
    sort, a commit removes exactly the blocks of a range; it interprets \<open>iter_list\<close>.
  \<^item> \<open>DIO_Range\<close> (\<open>Allocation_Flag.c\<close>, the range functions of \<open>DIO.c\<close>): how far one
    operation code reaches.
  \<^item> \<open>DIO\<close> (\<open>IO_Request.c\<close>, \<open>DIO.c\<close>, \<open>DMS_End_Request_Handler\<close>): the store of DIOs,
    requests and kernel requests, and the splitting of a request, proved equal to the
    grouping of the blocks by operation code.
  \<^item> \<open>IO_Commit\<close>: committing blocks, DIOs and requests; every request is ended once.
  \<^item> \<open>Request_Queue\<close> (\<open>DMS_Request_Handler\<close>): the entry of the driver, which takes requests
    from the block layer as far as the tags go; the locale \<open>request_handler\<close> is the contract
    of a volume's handler, and \<open>__VolumeIO_Handler\<close> keeps it.
  \<^item> \<open>Slot_Table\<close>: the interface of a table of slots with unique keys, interpreted by
    the volume table and the table of connections.
  \<^item> \<open>Volume\<close>, \<open>Volume_Manager\<close>: one volume, the table of volumes with its window between
    reserving a slot and filling it, and the ioctl commands.
  \<^item> \<open>Node_Container\<close>: the state machine of a connection with its timers, and the table of
    connections; \<open>dn_steps\<close> is the step relation and \<open>dn_inv\<close> its invariant.
  \<^item> \<open>Sock_Xmit\<close>: the transfer loops and the textual form of addresses.
  \<^item> \<open>Wire\<close>: integers in memory, byte swaps and the protocol macros; the locale \<open>codec\<close>
    (a reader that undoes a writer and stays in the buffer) is interpreted for the
    three integer widths here and for the locations of a response in the next theory.
  \<^item> \<open>Namenode_Protocol\<close> (\<open>Namenode_Protocol.c\<close>, \<open>Metadata.h\<close>): parsing and packing of
    responses; \<open>encode_response\<close> is the wire format that the parser reads.
  \<^item> \<open>Metadata_Manager\<close> (\<open>Metadata_Manager.c\<close>): header, query, receiver.
  \<^item> \<open>Commit_Policy\<close> (\<open>Driver_Core.c\<close>): what an acknowledgement does to the located
    requests, the DIO and the metadata; \<open>apply_tags\<close> is the abstract step on the
    located requests, \<open>cm_inv\<close> the simulation relation.
  \<^item> \<open>Radix_Tree\<close>, \<open>Radix_Gang\<close> (\<open>cache/radix-tree.c\<close>): insertion, lookup, deletion with
    shrinking, and the gang lookup; under \<open>rt_wf\<close> the lookup is the map that a tree stands for
    and the theories show that the operations refine it.
  \<^item> \<open>Meta_Cache\<close>, \<open>Cache_Safety\<close> (\<open>cache/cache.c\<close>): the cache with its explicit store of
    leaves, their reference counts and the least-recently-used list; under the
    invariant no leaf that a caller holds is released, and find, update and removal have
    the effect on the map of blocks that is stated.
  \<^item> \<open>Datanode_Request\<close> (\<open>Datanode_Protocol.c\<close>, parts of \<open>Payload.c\<close> and
    \<open>Payload_Manager.c\<close>): the layout of a request to a datanode and the match of its response.
  \<^item> \<open>Payload_Transfer\<close> (\<open>Payload.c\<close>, \<open>Payload_Manager.c\<close>): the choice of a datanode for a
    read, payload tags, and the transfer of the blocks of a tag; what a call to the socket
    returns is a list of answers.
  \<^item> \<open>Datanode_Tags\<close> (\<open>Payload.c\<close>, \<open>Payload_Manager.c\<close>): the tags of the datanodes in an
    explicit store, the translation of located requests into tags, and the sending of the
    requests; when the handler uses a released tag is shown exactly.
  \<^item> \<open>Socket_Setup\<close> (\<open>SSocket.c\<close>, \<open>SSockets_Manager.c\<close>): the options of a socket, the address
    connected to, the second parser of addresses with its agreement with the first, sending
    pages, and the reset of the table of connections.
  \<^item> \<open>Cache_Module\<close> (\<open>cache/cache.c\<close>, \<open>cache/radix-tree.c\<close>): set-up and release of the
    cache, the table of heights, whose bounds are shown, and the nodes in reserve.
  \<^item> \<open>Disk_Control\<close> (\<open>DMS_VDDriver.c\<close>, \<open>Volume_Manager.c\<close>, \<open>Volume.c\<close>): the commands of a
    disk, with the size it reports after an attach, waiting for a volume, the commit queue.
  \<^item> \<open>Code_Names\<close> (\<open>DMS_Error.c\<close> and the protocols): the texts for errors, operations and
    message types, and that a text identifies its code.
  \<^item> \<open>Mem_Pool\<close> (\<open>DMS_Mem_Pool.c\<close>): the table of pools, its set-up with roll-back, its
    release, and the typed allocation functions; \<open>own\<close> says which objects are out.
  \<^item> \<open>Metadata_Memory\<close> (\<open>Metadata.c\<close>): the arrays and objects that a response of the
    namenode allocates from the pools, and their release.
  \<^item> \<open>Driver_Module\<close> (\<open>DMS_VDDriver.c\<close>, the set-up of the managers): loading and unloading.
  \<^item> \<open>Daemon_List\<close> (\<open>Client_Daemon.c\<close>, \<open>Client_Daemon_Skeleton.c\<close>): the daemon's linked list
    of attachments in a store of nodes, and its file; the locale \<open>attachments\<close> is the
    contract of the list and \<open>holds_list\<close> the abstraction.
  \<^item> \<open>Daemon_Command\<close> (\<open>Client_Daemon.c\<close>): reading from a socket and the handler of a client
    connection, over the driver of \<open>Volume_Manager\<close>.
  \<^item> \<open>Daemon_Safety\<close>: \<open>tracks\<close>, the agreement of the list with the driver's table, is
    kept by every client; what a read takes; the service of an attach.
  \<^item> \<open>Daemon_Config\<close> (\<open>Client_Daemon.c\<close>, \<open>Client_Daemon_Skeleton.c\<close>): the three
    configuration files, read line by line from their text.
  \<^item> \<open>Daemon_Start\<close> (\<open>Client_Daemon.c\<close>, \<open>Client_Daemon_Skeleton.c\<close>): waiting for the
    namenode, the tries of the registration service, loading and removing the driver, \<open>main\<close>.

  \<^bold>\<open>Conventions.\<close>  A function takes the object a pointer points to, so the guard
  \<open>IS_LEGAL\<close> holds by construction; a pointer the program itself sets to NULL is an
  option.  An outer \<open>None\<close> is a fault: an access to freed memory, past an array or past
  a buffer, other undefined behaviour, or a call that does not return.  Locks are held
  for whole operations, which are therefore single steps; where the code drops a lock
  in between, the operation is split into steps (attaching a volume, the works of a
  connection).  The kernel's lists, atomics, bit operations, timers and byte swaps are
  its library and are modelled.  What the environment decides is an argument: the
  answers of the kernel when a volume is created (\<open>kernel_answers\<close>) or a connection is
  set up (\<open>net\<close>), of the socket calls (a list of \<open>kanswer\<close>; a call without an answer
  does not return), of the block layer at the end of a request (\<open>end_first\<close>), the
  allocation map (\<open>alf\<close>), the compiled value of \<open>1 << k\<close> beyond the range where C fixes it
  (\<open>sh1\<close>), the contents of fresh memory, which creations of pools and devices fail
  (\<open>Mem_Pool\<close>, \<open>Driver_Module\<close>), and for the daemon the bytes that arrive, the files that can
  be opened and the result of the registration service (\<open>denv\<close>).  Allocations from the
  memory pools wait and do not fail (an array of pointers can fail, \<open>Metadata_Memory\<close>), as do those of nodes of the radix tree and of the
  daemon's nodes; the caches and pools of the kernel are modelled by their documented
  interface.  The debug build for x86-64 is modelled (\<open>DMS_DEBUG\<close>, \<open>DMS_UTEST\<close>); signed
  arithmetic wraps, as the kernel is compiled.

  \<^bold>\<open>Recursion.\<close>  Loops over lists are structural.  \<open>drain\<close> has fuel, and one more than
  the length of the list is proved to be enough; the range search of \<open>DIO_Range\<close> is a
  \<open>partial_function\<close>, so that its endless case is a value; the transfer loop ends
  because each turn uses up answers; \<open>retries\<close> counts the tries of a connection.  The
  gang lookup of the radix tree and the daemon's loops over its list and over a socket
  are \<open>partial_function\<close>s; that they return, or that they do not, is proved.

  \<^bold>\<open>Not modelled.\<close>  The payload and datanode side, \<open>IO_FSM.c\<close>, \<open>Committer.c\<close> and
  \<open>State_Transition.c\<close> are not linked into the driver.  The former is modelled as far as it
  can be read past what keeps it from compiling; what returns or uses a variable that is
  declared nowhere (the search for the tag of a response and the receiver of the
  datanodes) has no behaviour to state; the half of \<open>cache.c\<close> for payloads is compiled only with
  \<open>PAYLOAD_ENABLE\<close>, which \<open>cache.h\<close> undefines.  Of the daemon, accepting
  connections (\<open>create_socket_server\<close>) is left to the system; its clients are served one
  after the other here, while the code has a thread for each and no lock for the list.
  Printing of structures and the unit tests carry no state of the logic.
\<close>

end
